(* ===== verification/Prelude.thy ===== *)
theory Prelude
  imports Main "HOL-Library.Word" "HOL-Library.Sublist"
begin

text \<open>
  The prelude of the development: the names for bytes and code points that every component uses,
  the operations of \<^verbatim>\<open>std::string_view\<close> the sources call (\<^verbatim>\<open>substr\<close>, \<^verbatim>\<open>find_first_of\<close> and
  their kin), and the facts about lists and about bit operations on natural numbers that the
  component theories share.

  A C++ \<^verbatim>\<open>std::string\<close> is a sequence of bytes and is modelled as Isabelle's \<open>string\<close>, a list of
  8-bit \<open>char\<close>s; \<open>byte c\<close> is the value of \<^verbatim>\<open>static_cast<unsigned char>(c)\<close> and \<open>chr n\<close> is
  \<^verbatim>\<open>static_cast<char>(n)\<close>, which keeps the low eight bits. A \<^verbatim>\<open>char32_t\<close> or
  \<^verbatim>\<open>char16_t\<close> is a \<open>nat\<close>; the functions that could overflow state their bounds.
\<close>

unbundle bit_operations_syntax

named_theorems bits \<open>masks, shifts and disjunctions of small naturals as arithmetic\<close>
named_theorems sv \<open>string_view operations\<close>

section \<open>Bytes and code points\<close>

type_synonym code_point = nat

abbreviation byte :: "char \<Rightarrow> nat" where
  "byte c \<equiv> of_char c"

abbreviation chr :: "nat \<Rightarrow> char" where
  "chr n \<equiv> char_of n"

lemma byte_less [simp]: "byte c < 256"
  by (rule nat_of_char_less_256)

lemma byte_chr [simp]: "n < 256 \<Longrightarrow> byte (chr n) = n"
  by (simp add: of_char_of)

lemma chr_inj: "m < 256 \<Longrightarrow> n < 256 \<Longrightarrow> chr m = chr n \<longleftrightarrow> m = n"
  by (metis byte_chr)

text \<open>Equality of characters read off their bytes: unfolded in arithmetic on bytes.\<close>

lemma char_eq_byte: "c = d \<longleftrightarrow> byte c = byte d"
  by simp

lemma chr_eq_iff: "n < 256 \<Longrightarrow> chr n = c \<longleftrightarrow> n = byte c"
  by (metis byte_chr char_of_char)

lemma eq_chr_iff: "n < 256 \<Longrightarrow> c = chr n \<longleftrightarrow> n = byte c"
  by (subst eq_commute) (rule chr_eq_iff)

definition between :: "char \<Rightarrow> char \<Rightarrow> char \<Rightarrow> bool" where
  "between lo c hi \<longleftrightarrow> byte lo \<le> byte c \<and> byte c \<le> byte hi"

section \<open>Bit operations on naturals\<close>

lemma and_low_mask: "x AND (2 ^ k - 1) = x mod (2 ^ k)" for x :: nat
  using take_bit_eq_mask [of k x] by (simp add: take_bit_eq_mod mask_eq_exp_minus_1)

lemma and_low [bits]:
  "(x::nat) AND 1 = x mod 2" "x AND 3 = x mod 4" "x AND 7 = x mod 8" "x AND 15 = x mod 16"
  "x AND 31 = x mod 32" "x AND 63 = x mod 64" "x AND 255 = x mod 256"
  "x AND 1023 = x mod 1024"
  using and_low_mask [of x 1] and_low_mask [of x 2] and_low_mask [of x 3] and_low_mask [of x 4]
    and_low_mask [of x 5] and_low_mask [of x 6] and_low_mask [of x 8] and_low_mask [of x 10]
  by simp_all

lemma or_disjoint: "n < 2 ^ k \<Longrightarrow> (2 ^ k * m) OR n = 2 ^ k * m + n" for n :: nat
proof -
  assume n: "n < 2 ^ k"
  have "(2 ^ k * m) AND n = 0"
  proof (rule bit_eqI)
    fix i
    show "bit ((2 ^ k * m) AND n) i = bit (0::nat) i"
    proof (cases "i < k")
      case True
      then show ?thesis
        using bit_push_bit_iff_nat [of k m i]
        by (simp add: bit_and_iff push_bit_eq_mult mult.commute)
    next
      case False
      from n have "take_bit k n = n"
        by (simp add: take_bit_nat_eq_self)
      then have "\<not> bit n i"
        using False by (metis bit_take_bit_iff)
      then show ?thesis
        by (simp add: bit_and_iff)
    qed
  qed
  then show ?thesis
    by (simp add: disjunctive_add_eq_or)
qed

lemma or_shifted [bits]: "n < 2 ^ k \<Longrightarrow> push_bit k m OR n = push_bit k m + n" for n :: nat
  using or_disjoint [of n k m] by (simp add: push_bit_eq_mult mult.commute)

lemma or_marks [bits]:
  "n < 64 \<Longrightarrow> 128 OR n = 128 + n" "n < 32 \<Longrightarrow> 192 OR n = 192 + n"
  "n < 16 \<Longrightarrow> 224 OR n = 224 + n" "n < 8 \<Longrightarrow> 240 OR n = 240 + n" for n :: nat
  using or_disjoint [of n 6 2] or_disjoint [of n 5 6] or_disjoint [of n 4 14]
    or_disjoint [of n 3 30]
  by simp_all

lemma shifts [bits]: "drop_bit k n = n div 2 ^ k" "push_bit k n = n * 2 ^ k" for n :: nat
  by (simp_all add: drop_bit_eq_div push_bit_eq_mult)

text \<open>The tests that read the form of a UTF-8 byte off its high bits.\<close>

lemma and_shifted: "x AND push_bit k m = push_bit k (drop_bit k x AND m)" for x :: nat
  by (rule bit_eqI) (auto simp: bit_and_iff bit_push_bit_iff_nat bit_drop_bit_eq)

lemma div_block:
  assumes "0 < (k::nat)"
  shows "b div k * k = q * k \<longleftrightarrow> q * k \<le> b \<and> b < q * k + k"
proof -
  have "b div k * k = q * k \<longleftrightarrow> b div k = q"
    using assms by simp
  also have "\<dots> \<longleftrightarrow> q * k \<le> b \<and> b < q * k + k"
    using assms by (metis add.commute div_nat_eqI dividend_less_div_times div_times_less_eq_dividend
        mult.commute mult_Suc)
  finally show ?thesis .
qed

text \<open>A digit below the radix \<open>k\<close>, taken off again.\<close>

lemma block_div: "y < k \<Longrightarrow> (x * k + y) div k = x" for k :: nat
  by simp

lemma block_mod: "y < k \<Longrightarrow> (x * k + y) mod k = y" for k :: nat
  by simp

lemma byte_forms:
  fixes b :: nat
  assumes "b < 256"
  shows "b AND 224 = 192 \<longleftrightarrow> 192 \<le> b \<and> b < 224"
    and "b AND 240 = 224 \<longleftrightarrow> 224 \<le> b \<and> b < 240"
    and "b AND 248 = 240 \<longleftrightarrow> 240 \<le> b \<and> b < 248"
    and "b AND 192 = 128 \<longleftrightarrow> 128 \<le> b \<and> b < 192"
proof -
  have "b AND 224 = b div 32 mod 8 * 32"
    using and_shifted [of b 5 7] by (simp add: shifts and_low)
  also have "b div 32 mod 8 = b div 32"
    using assms by simp
  finally have eq: "b AND 224 = b div 32 * 32"
    .
  show "b AND 224 = 192 \<longleftrightarrow> 192 \<le> b \<and> b < 224"
    unfolding eq using div_block [of 32 b 6] by simp
  have "b AND 240 = b div 16 mod 16 * 16"
    using and_shifted [of b 4 15] by (simp add: shifts and_low)
  also have "b div 16 mod 16 = b div 16"
    using assms by simp
  finally have eq: "b AND 240 = b div 16 * 16"
    .
  show "b AND 240 = 224 \<longleftrightarrow> 224 \<le> b \<and> b < 240"
    unfolding eq using div_block [of 16 b 14] by simp
  have "b AND 248 = b div 8 mod 32 * 8"
    using and_shifted [of b 3 31] by (simp add: shifts and_low)
  also have "b div 8 mod 32 = b div 8"
    using assms by simp
  finally have eq: "b AND 248 = b div 8 * 8"
    .
  show "b AND 248 = 240 \<longleftrightarrow> 240 \<le> b \<and> b < 248"
    unfolding eq using div_block [of 8 b 30] by simp
  have "b AND 192 = b div 64 mod 4 * 64"
    using and_shifted [of b 6 3] by (simp add: shifts and_low)
  also have "b div 64 mod 4 = b div 64"
    using assms by simp
  finally have eq: "b AND 192 = b div 64 * 64"
    .
  show "b AND 192 = 128 \<longleftrightarrow> 128 \<le> b \<and> b < 192"
    unfolding eq using div_block [of 64 b 2] by simp
qed

section \<open>string\_view\<close>

definition substr :: "'a list \<Rightarrow> nat \<Rightarrow> nat \<Rightarrow> 'a list" where
  "substr s pos n = take n (drop pos s)"

text \<open>The first index at or after \<open>at\<close> whose element satisfies \<open>P\<close>; \<open>None\<close> is \<^verbatim>\<open>npos\<close>.\<close>

primrec find_index :: "('a \<Rightarrow> bool) \<Rightarrow> 'a list \<Rightarrow> nat option" where
  "find_index P [] = None"
| "find_index P (x # xs) = (if P x then Some 0 else map_option Suc (find_index P xs))"

definition find_from :: "('a \<Rightarrow> bool) \<Rightarrow> 'a list \<Rightarrow> nat \<Rightarrow> nat option" where
  "find_from P s at = map_option (\<lambda>i. at + i) (find_index P (drop at s))"

text \<open>The last index whose element satisfies \<open>P\<close>.\<close>

definition find_last :: "('a \<Rightarrow> bool) \<Rightarrow> 'a list \<Rightarrow> nat option" where
  "find_last P s = map_option (\<lambda>i. length s - 1 - i) (find_index P (rev s))"

lemma find_index_None [sv]: "find_index P xs = None \<longleftrightarrow> (\<forall>x \<in> set xs. \<not> P x)"
  by (induction xs) auto

lemma find_index_Some [sv]:
  "find_index P xs = Some i \<longleftrightarrow> i < length xs \<and> P (xs ! i) \<and> (\<forall>j<i. \<not> P (xs ! j))"
proof (induction xs arbitrary: i)
  case Nil
  then show ?case by simp
next
  case (Cons x xs)
  then show ?case
    by (cases i) (auto simp: less_Suc_eq_0_disj)
qed

lemma find_index_drop: "find_index P xs = Some i \<Longrightarrow> drop i xs = dropWhile (\<lambda>x. \<not> P x) xs"
  by (induction xs arbitrary: i) (auto split: if_splits)

lemma find_index_take: "find_index P xs = Some i \<Longrightarrow> take i xs = takeWhile (\<lambda>x. \<not> P x) xs"
  by (induction xs arbitrary: i) (auto split: if_splits)

lemma find_index_length: "find_index P xs = Some i \<Longrightarrow> i = length (takeWhile (\<lambda>x. \<not> P x) xs)"
  by (induction xs arbitrary: i) (auto split: if_splits)

lemma find_index_bound: "find_index P xs = Some i \<Longrightarrow> i < length xs"
  by (simp add: find_index_Some)

lemma find_from_bound: "find_from P s at = Some i \<Longrightarrow> at \<le> i \<and> i < length s"
  by (auto simp: find_from_def dest: find_index_bound)

lemma length_substr_le [simp]: "length (substr s pos n) \<le> n"
  by (simp add: substr_def)

section \<open>Outcomes\<close>

text \<open>What a fallible operation does: it answers a value, it fails the way the source fails (a
  \<^verbatim>\<open>nullopt\<close>, a \<^verbatim>\<open>false\<close>), or it goes where C++ leaves the behaviour undefined (an index past
  the end of an array, a null dereference). The theorems show that the last never happens.\<close>

datatype 'a outcome = Value 'a | Failure | Fault

fun bind_outcome :: "'a outcome \<Rightarrow> ('a \<Rightarrow> 'b outcome) \<Rightarrow> 'b outcome" where
  "bind_outcome (Value a) f = f a"
| "bind_outcome Failure f = Failure"
| "bind_outcome Fault f = Fault"

lemma bind_outcome_eq_Value: "bind_outcome r f = Value b \<longleftrightarrow> (\<exists>a. r = Value a \<and> f a = Value b)"
  by (cases r) simp_all

lemma bind_outcome_eq_Fault: "bind_outcome r f = Fault \<longleftrightarrow> r = Fault \<or> (\<exists>a. r = Value a \<and> f a = Fault)"
  by (cases r) simp_all

definition of_option :: "'a option \<Rightarrow> 'a outcome" where
  "of_option r = (case r of None \<Rightarrow> Failure | Some a \<Rightarrow> Value a)"

section \<open>Decimal numbers\<close>

text \<open>\<^verbatim>\<open>std::to_string\<close> of an unsigned integer.\<close>

fun decimal :: "nat \<Rightarrow> string" where
  "decimal n = (if n < 10 then [chr (48 + n)] else decimal (n div 10) @ [chr (48 + n mod 10)])"

declare decimal.simps [simp del]

lemma decimal_digits: "\<forall>c \<in> set (decimal n). 48 \<le> byte c \<and> byte c \<le> 57"
proof (induction n rule: decimal.induct)
  case (1 n)
  have "n mod 10 < 10" by simp
  then have "byte (chr (48 + n mod 10)) = 48 + n mod 10" by simp
  with 1 show ?case
    by (subst decimal.simps) auto
qed

lemma decimal_nonempty [simp]: "decimal n \<noteq> []"
  by (subst decimal.simps) simp

end
