(* ===== verification/Ascii.thy ===== *)
theory Ascii
  imports Prelude
begin

text \<open>
  Core's ASCII algorithms (\<^verbatim>\<open>core/algorithms.hpp\<close>, \<^verbatim>\<open>lib/Core/algorithms.cpp\<close>): case folding and
  comparison, character classes, hex digits, trimming and collapsing of whitespace, and the
  splitting of a list at separators outside parentheses and quotes. None consults a locale.
\<close>

section \<open>Case folding and comparison\<close>

definition ascii_lower :: "char \<Rightarrow> char" where
  "ascii_lower c = (if between (CHR ''A'') c (CHR ''Z'')
     then chr (byte c - byte (CHR ''A'') + byte (CHR ''a'')) else c)"

definition ascii_upper :: "char \<Rightarrow> char" where
  "ascii_upper c = (if between (CHR ''a'') c (CHR ''z'')
     then chr (byte c - byte (CHR ''a'') + byte (CHR ''A'')) else c)"

definition ascii_lower_copy :: "string \<Rightarrow> string" where
  "ascii_lower_copy s = map ascii_lower s"

definition ascii_iequals :: "string \<Rightarrow> string \<Rightarrow> bool" where
  "ascii_iequals a b \<longleftrightarrow> list_all2 (\<lambda>x y. ascii_lower x = ascii_lower y) a b"

definition ascii_iequals_any :: "string \<Rightarrow> string list \<Rightarrow> bool" where
  "ascii_iequals_any s names \<longleftrightarrow> (\<exists>one \<in> set names. ascii_iequals s one)"

definition ascii_istarts_with :: "string \<Rightarrow> string \<Rightarrow> bool" where
  "ascii_istarts_with s pre \<longleftrightarrow>
     length s \<ge> length pre \<and> ascii_iequals (substr s 0 (length pre)) pre"

section \<open>Character classes and hex digits\<close>

definition is_ascii_digit :: "char \<Rightarrow> bool" where
  "is_ascii_digit c \<longleftrightarrow> between (CHR ''0'') c (CHR ''9'')"

definition is_ascii_alpha :: "char \<Rightarrow> bool" where
  "is_ascii_alpha c \<longleftrightarrow>
     between (CHR ''a'') c (CHR ''z'') \<or> between (CHR ''A'') c (CHR ''Z'')"

definition hex_value :: "char \<Rightarrow> int" where
  "hex_value c =
     (if between (CHR ''0'') c (CHR ''9'') then int (byte c) - 48
      else if between (CHR ''a'') c (CHR ''f'') then int (byte c) - 97 + 10
      else if between (CHR ''A'') c (CHR ''F'') then int (byte c) - 65 + 10
      else -1)"

section \<open>Whitespace\<close>

definition html_whitespace :: string where
  "html_whitespace = [CHR '' '', chr 9, chr 10, chr 13, chr 12]"

definition js_whitespace :: string where
  "js_whitespace = [CHR '' '', chr 9, chr 10, chr 13, chr 12, chr 11]"

definition trim :: "string \<Rightarrow> string \<Rightarrow> string" where
  "trim s cset =
     (case find_index (\<lambda>c. c \<notin> set cset) s of
        None \<Rightarrow> []
      | Some first \<Rightarrow>
          substr s first
            (the (find_last (\<lambda>c. c \<notin> set cset) s) - first + 1))"

text \<open>\<open>collapse\<close> is the loop of \<^verbatim>\<open>collapse_whitespace\<close>: its flag \<open>space\<close> says a run of
  whitespace is waiting to be written as one space.\<close>

fun collapse :: "string \<Rightarrow> bool \<Rightarrow> string \<Rightarrow> string" where
  "collapse cset space [] = []"
| "collapse cset space (c # cs) =
     (if c \<in> set cset then collapse cset True cs
      else (if space then [CHR '' ''] else []) @ c # collapse cset False cs)"

definition collapse_whitespace :: "string \<Rightarrow> string \<Rightarrow> string" where
  "collapse_whitespace s cset = collapse cset False (trim s cset)"

section \<open>Splitting at top level\<close>

text \<open>
  The inner loop of \<^verbatim>\<open>split_top_level\<close>: how many bytes from the start of an item to its end.
  \<open>depth\<close> counts open parentheses (never below zero) and \<open>quote\<close> is the quote character a
  string is open in. A backslash in a string skips the byte after it, when there is one.
\<close>

fun item_length :: "string \<Rightarrow> nat \<Rightarrow> char option \<Rightarrow> string \<Rightarrow> nat" where
  "item_length seps depth quote [] = 0"
| "item_length seps depth (Some q) (c # cs) =
     (if c = CHR 0x5C \<and> cs \<noteq> [] then 2 + item_length seps depth (Some q) (tl cs)
      else if c = q then 1 + item_length seps depth None cs
      else 1 + item_length seps depth (Some q) cs)"
| "item_length seps depth None (c # cs) =
     (if c = CHR 0x22 \<or> c = CHR 0x27 then 1 + item_length seps depth (Some c) cs
      else if c = CHR ''('' then 1 + item_length seps (depth + 1) None cs
      else if c = CHR '')'' then 1 + item_length seps (if depth > 0 then depth - 1 else depth) None cs
      else if depth = 0 \<and> c \<in> set seps then 0
      else 1 + item_length seps depth None cs)"

text \<open>The outer loop, on the s from \<open>at\<close>: skip separators, take an item, skip the separator
  that ended it.\<close>

function split_top_level :: "string \<Rightarrow> string \<Rightarrow> string list" where
  "split_top_level s seps =
     (case dropWhile (\<lambda>c. c \<in> set seps) s of
        [] \<Rightarrow> []
      | c # cs \<Rightarrow>
          (let n = item_length seps 0 None (c # cs)
           in take n (c # cs) # split_top_level (drop (n + 1) (c # cs)) seps))"
  by pat_completeness auto
termination
proof (relation "measure (\<lambda>(s, seps). length s)", goal_cases)
  case 1
  then show ?case by simp
next
  case (2 str seps c cs n)
  then have "length (c # cs) \<le> length str"
    by (metis length_dropWhile_le)
  then show ?case
    by simp
qed

declare split_top_level.simps [simp del]

section \<open>Facts about folding and classes\<close>

lemma ascii_lower_byte:
  "byte (ascii_lower c) = (if 65 \<le> byte c \<and> byte c \<le> 90 then byte c + 32 else byte c)"
  by (auto simp: ascii_lower_def between_def)

lemma ascii_lower_idem [simp]: "ascii_lower (ascii_lower c) = ascii_lower c"
  unfolding char_eq_byte by (simp only: ascii_lower_byte) simp

lemma ascii_lower_upper [simp]: "ascii_lower (ascii_upper c) = ascii_lower c"
  unfolding char_eq_byte ascii_lower_byte by (auto simp: ascii_upper_def between_def)

lemma ascii_iequals_lower: "ascii_iequals a b \<longleftrightarrow> ascii_lower_copy a = ascii_lower_copy b"
  by (auto simp: ascii_iequals_def ascii_lower_copy_def list_all2_conv_all_nth list_eq_iff_nth_eq)

lemma ascii_iequals_refl [simp]: "ascii_iequals a a"
  by (simp add: ascii_iequals_lower)

lemma hex_value_range: "hex_value c = -1 \<or> (0 \<le> hex_value c \<and> hex_value c < 16)"
  by (auto simp: hex_value_def between_def)

lemma hex_value_lower [simp]: "hex_value (ascii_lower c) = hex_value c"
  by (auto simp: hex_value_def between_def ascii_lower_byte)

section \<open>Facts about trimming\<close>

lemma not_all_in:
  assumes "y \<in> set xs" and "\<not> P y"
  shows "\<exists>x \<in> set (dropWhile P xs). \<not> P x"
  using assms by (induction xs) auto

lemma trim_eq: "trim s cset
  = rev (dropWhile (\<lambda>c. c \<in> set cset) (rev (dropWhile (\<lambda>c. c \<in> set cset) s)))"
proof (cases "find_index (\<lambda>c. c \<notin> set cset) s")
  case None
  then have "\<forall>c \<in> set s. c \<in> set cset"
    by (simp add: find_index_None)
  then have "dropWhile (\<lambda>c. c \<in> set cset) s = []"
    by simp
  then show ?thesis
    by (simp only: trim_def None) simp
next
  case (Some i)
  let ?Q = "\<lambda>c. c \<in> set cset"
  let ?core = "dropWhile ?Q (rev (dropWhile ?Q s))"
  from Some obtain x where x: "x \<in> set (dropWhile ?Q s)" "\<not> ?Q x"
    by (metis find_index_None not_all_in option.distinct(1))
  have i: "i = length (takeWhile ?Q s)"
    using find_index_length [OF Some] by simp
  have "dropWhile ?Q (rev s) = dropWhile ?Q (rev (dropWhile ?Q s) @ rev (takeWhile ?Q s))"
    by (metis rev_append takeWhile_dropWhile_id)
  also have "\<dots> = ?core @ rev (takeWhile ?Q s)"
    using x by (simp add: dropWhile_append1 [of x])
  finally have whole: "dropWhile ?Q (rev s) = ?core @ rev (takeWhile ?Q s)" .
  have "\<exists>c \<in> set (rev s). \<not> ?Q c"
    using x by (metis set_dropWhileD set_rev)
  then obtain j where j: "find_index (\<lambda>c. c \<notin> set cset) (rev s) = Some j"
    by (metis find_index_None not_None_eq)
  have jl: "j < length s"
    using find_index_bound [OF j] by simp
  have len: "length s - j = i + length ?core"
    using arg_cong [OF find_index_drop [OF j], of length] by (simp add: whole i)
  have pos: "0 < length ?core"
    using x by (metis dropWhile_eq_Nil_conv length_greater_0_conv set_rev)
  have "take (length s - j) s = rev (drop j (rev s))"
    by (simp add: rev_drop)
  also have "\<dots> = takeWhile ?Q s @ rev ?core"
    using find_index_drop [OF j] by (simp add: whole)
  finally have tk: "take (i + length ?core) s = takeWhile ?Q s @ rev ?core"
    by (simp add: len)
  have "trim s cset = substr s i (length s - 1 - j - i + 1)"
    by (simp add: trim_def Some find_last_def j)
  also have "length s - 1 - j - i + 1 = length ?core"
    using len jl pos by linarith
  also have "substr s i (length ?core) = drop i (take (i + length ?core) s)"
    by (simp add: substr_def take_drop add.commute)
  also have "\<dots> = rev ?core"
    by (simp only: tk) (simp add: i)
  finally show ?thesis .
qed

end
