(* ===== verification/Utf8.thy ===== *)
theory Utf8
  imports Ascii
begin

text \<open>
  The text encodings of Core: \<^verbatim>\<open>append_utf8\<close> and \<^verbatim>\<open>decode_utf8\<close> (one code point to bytes and
  back), the conversions between the engine's WTF-8 storage and UTF-16 code units, and the joining
  of surrogate halves that meet when strings are concatenated.

  A position \<^verbatim>\<open>at\<close> in a text is modelled by the suffix that starts there: \<open>decode_utf8 c rest\<close>
  reads the byte \<open>c = text[at]\<close> and the bytes \<open>rest\<close> after it, and returns the value and how far
  \<^verbatim>\<open>at\<close> advances. The callers test \<^verbatim>\<open>at < text.size()\<close> first, which is the pattern \<open>c # rest\<close>.
\<close>

section \<open>One code point\<close>

definition utf8 :: "code_point \<Rightarrow> string" where
  "utf8 v =
     (if v < 0x80 then [chr v]
      else if v < 0x800 then
        [chr (0xC0 OR drop_bit 6 v), chr (0x80 OR (v AND 0x3F))]
      else if v < 0x10000 then
        [chr (0xE0 OR drop_bit 12 v), chr (0x80 OR (drop_bit 6 v AND 0x3F)),
         chr (0x80 OR (v AND 0x3F))]
      else
        [chr (0xF0 OR drop_bit 18 v), chr (0x80 OR (drop_bit 12 v AND 0x3F)),
         chr (0x80 OR (drop_bit 6 v AND 0x3F)), chr (0x80 OR (v AND 0x3F))])"

definition append_utf8 :: "string \<Rightarrow> code_point \<Rightarrow> string" where
  "append_utf8 out cp = out @ utf8 cp"

definition isomorphic_decode :: "string \<Rightarrow> string" where
  "isomorphic_decode bytes = foldl (\<lambda>out b. append_utf8 out (byte b)) [] bytes"

text \<open>The loop over the continuation bytes: \<open>None\<close> when one is not of the form \<^verbatim>\<open>10xxxxxx\<close>.\<close>

fun continuation :: "nat \<Rightarrow> code_point \<Rightarrow> string \<Rightarrow> code_point option" where
  "continuation 0 built bs = Some built"
| "continuation (Suc extra) built [] = None"
| "continuation (Suc extra) built (b # bs) =
     (if byte b AND 0xC0 \<noteq> 0x80 then None
      else continuation extra (push_bit 6 built OR (byte b AND 0x3F)) bs)"

definition decode_utf8 :: "char \<Rightarrow> string \<Rightarrow> code_point \<times> nat" where
  "decode_utf8 c rest =
     (let lead = byte c in
      if lead < 0x80 then (lead, 1)
      else
        case (if lead AND 0xE0 = 0xC0 then Some (1, lead AND 0x1F)
              else if lead AND 0xF0 = 0xE0 then Some (2, lead AND 0x0F)
              else if lead AND 0xF8 = 0xF0 then Some (3, lead AND 0x07)
              else None) of
          None \<Rightarrow> (lead, 1)
        | Some (extra, built) \<Rightarrow>
            if length rest < extra then (lead, 1)
            else (case continuation extra built rest of
                    None \<Rightarrow> (lead, 1)
                  | Some cp \<Rightarrow> (cp, extra + 1)))"

section \<open>The decoder in closed form\<close>

definition cont :: "char \<Rightarrow> bool" where
  "cont b \<longleftrightarrow> 128 \<le> byte b \<and> byte b < 192"

lemma continuation_step:
  "continuation (Suc k) built (b # bs) =
     (if cont b then continuation k (built * 64 + (byte b - 128)) bs else None)"
proof (cases "cont b")
  case True
  then have b: "byte b mod 64 = byte b - 128" "byte b AND 192 = 128"
    using byte_forms(4) [of "byte b"] by (auto simp: cont_def mod_if)
  then have "push_bit 6 built OR (byte b AND 63) = built * 64 + (byte b - 128)"
    by (simp add: and_low or_shifted) (simp add: shifts)
  with b True show ?thesis
    by simp
next
  case False
  then show ?thesis
    using byte_forms(4) [of "byte b"] by (auto simp: cont_def)
qed

lemma decode_utf8_eq:
  "decode_utf8 c rest =
    (if 192 \<le> byte c \<and> byte c < 224 \<and> 1 \<le> length rest \<and> cont (rest ! 0)
     then ((byte c - 192) * 64 + (byte (rest ! 0) - 128), 2)
     else if 224 \<le> byte c \<and> byte c < 240 \<and> 2 \<le> length rest \<and> cont (rest ! 0) \<and> cont (rest ! 1)
     then (((byte c - 224) * 64 + (byte (rest ! 0) - 128)) * 64 + (byte (rest ! 1) - 128), 3)
     else if 240 \<le> byte c \<and> byte c < 248 \<and> 3 \<le> length rest
       \<and> cont (rest ! 0) \<and> cont (rest ! 1) \<and> cont (rest ! 2)
     then ((((byte c - 240) * 64 + (byte (rest ! 0) - 128)) * 64 + (byte (rest ! 1) - 128)) * 64
            + (byte (rest ! 2) - 128), 4)
     else (byte c, 1))"
proof -
  have c: "byte c < 256" by simp
  note form = byte_forms [OF c]
  have m: "byte c AND 31 = byte c mod 32" "byte c AND 15 = byte c mod 16"
    "byte c AND 7 = byte c mod 8"
    by (simp_all add: and_low)
  consider (a) "byte c < 192" | (b) "192 \<le> byte c" "byte c < 224"
    | (d) "224 \<le> byte c" "byte c < 240" | (e) "240 \<le> byte c" "byte c < 248" | (f) "248 \<le> byte c"
    by linarith
  then show ?thesis
  proof cases
    case a
    then show ?thesis by (simp add: decode_utf8_def form Let_def)
  next
    case b
    then have mm: "byte c mod 32 = byte c - 192"
      by (simp add: mod_if)
    show ?thesis
      using b by (cases rest) (simp_all add: decode_utf8_def form m mm continuation_step Let_def
          del: continuation.simps(3))
  next
    case d
    then have mm: "byte c mod 16 = byte c - 224"
      by (simp add: mod_if)
    show ?thesis
    proof (cases "2 \<le> length rest")
      case True
      then obtain x y zs where "rest = x # y # zs"
        by (metis Suc_le_length_iff numeral_2_eq_2)
      with d show ?thesis
        by (simp add: decode_utf8_def form m mm continuation_step numeral_2_eq_2 Let_def
            del: continuation.simps(3))
    qed (use d in \<open>simp add: decode_utf8_def form m mm Let_def\<close>)
  next
    case e
    then have mm: "byte c mod 8 = byte c - 240"
      by (simp add: mod_if)
    show ?thesis
    proof (cases "3 \<le> length rest")
      case True
      then obtain x y z zs where "rest = x # y # z # zs"
        by (metis Suc_le_length_iff numeral_3_eq_3)
      with e show ?thesis
        by (simp add: decode_utf8_def form m mm continuation_step numeral_3_eq_3 Let_def
            del: continuation.simps(3))
    qed (use e in \<open>simp add: decode_utf8_def form m mm Let_def\<close>)
  next
    case f
    then show ?thesis by (simp add: decode_utf8_def form Let_def)
  qed
qed

text \<open>How far a decode advances: between one and four bytes, never past the end.\<close>

lemma decode_utf8_advance:
  assumes "decode_utf8 c rest = (cp, n)"
  shows "1 \<le> n" and "n \<le> 4" and "n - 1 \<le> length rest"
  using assms by (auto simp: decode_utf8_eq split: if_splits)

lemma cont_payload: "cont x \<Longrightarrow> byte x - 128 < 64"
  by (auto simp: cont_def)

lemma pack_less: "a < n \<Longrightarrow> b < 64 \<Longrightarrow> a * 64 + b < n * 64" for a b n :: nat
  by linarith

lemma decode_utf8_cases:
  obtains (one) "decode_utf8 c rest = (byte c, 1)"
  | (two) "192 \<le> byte c" "byte c < 224" "1 \<le> length rest" "cont (rest ! 0)"
      "decode_utf8 c rest = ((byte c - 192) * 64 + (byte (rest ! 0) - 128), 2)"
  | (three) "224 \<le> byte c" "byte c < 240" "2 \<le> length rest" "cont (rest ! 0)" "cont (rest ! 1)"
      "decode_utf8 c rest
        = (((byte c - 224) * 64 + (byte (rest ! 0) - 128)) * 64 + (byte (rest ! 1) - 128), 3)"
  | (four) "240 \<le> byte c" "byte c < 248" "3 \<le> length rest" "cont (rest ! 0)" "cont (rest ! 1)"
      "cont (rest ! 2)" "decode_utf8 c rest
        = ((((byte c - 240) * 64 + (byte (rest ! 0) - 128)) * 64 + (byte (rest ! 1) - 128)) * 64
            + (byte (rest ! 2) - 128), 4)"
proof -
  let ?two = "192 \<le> byte c \<and> byte c < 224 \<and> 1 \<le> length rest \<and> cont (rest ! 0)"
  let ?three = "224 \<le> byte c \<and> byte c < 240 \<and> 2 \<le> length rest \<and> cont (rest ! 0) \<and> cont (rest ! 1)"
  let ?four = "240 \<le> byte c \<and> byte c < 248 \<and> 3 \<le> length rest
    \<and> cont (rest ! 0) \<and> cont (rest ! 1) \<and> cont (rest ! 2)"
  consider ?two | ?three "\<not> ?two" | ?four "\<not> ?three" "\<not> ?two" | "\<not> ?four" "\<not> ?three" "\<not> ?two"
    by argo
  then show thesis
  proof cases
    case 1
    then show thesis using two by (simp only: decode_utf8_eq if_True simp_thms)
  next
    case 2
    then show thesis using three by (simp only: decode_utf8_eq if_True if_False simp_thms)
  next
    case 3
    then show thesis using four by (simp only: decode_utf8_eq if_True if_False simp_thms)
  next
    case 4
    then show thesis using one by (simp only: decode_utf8_eq if_False simp_thms)
  qed
qed

lemma decode_utf8_bound: "fst (decode_utf8 c rest) < 0x200000"
proof (cases rule: decode_utf8_cases [of c rest])
  case one
  have "byte c < 0x200000"
    by (rule less_trans [OF byte_less]) simp
  with one show ?thesis by simp
next
  case two
  then have "(byte c - 192) * 64 + (byte (rest ! 0) - 128) < 32 * 64"
    by (intro pack_less cont_payload) auto
  with two show ?thesis by simp
next
  case three
  then have "((byte c - 224) * 64 + (byte (rest ! 0) - 128)) * 64 + (byte (rest ! 1) - 128)
      < 16 * 64 * 64"
    by (intro pack_less cont_payload) auto
  with three show ?thesis by simp
next
  case four
  then have "(((byte c - 240) * 64 + (byte (rest ! 0) - 128)) * 64 + (byte (rest ! 1) - 128)) * 64
      + (byte (rest ! 2) - 128) < 8 * 64 * 64 * 64"
    by (intro pack_less cont_payload) auto
  with four show ?thesis by simp
qed

section \<open>Encoding, then decoding\<close>

lemma utf8_bytes:
  assumes "v < 0x200000"
  shows "map byte (utf8 v) =
     (if v < 0x80 then [v]
      else if v < 0x800 then [192 + v div 64, 128 + v mod 64]
      else if v < 0x10000 then [224 + v div 4096, 128 + v div 64 mod 64, 128 + v mod 64]
      else [240 + v div 262144, 128 + v div 4096 mod 64, 128 + v div 64 mod 64, 128 + v mod 64])"
proof -
  have "v div 64 < 32" if "v < 0x800" using that by simp
  moreover have "v div 4096 < 16" if "v < 0x10000" using that by simp
  moreover have "v div 262144 < 8" using assms by simp
  ultimately show ?thesis
    by (simp add: utf8_def shifts and_low or_marks)
qed

lemma utf8_cases:
  assumes "v < 0x200000"
  obtains (one) c where "utf8 v = [c]" "byte c = v" "v < 0x80"
  | (two) c x where "utf8 v = [c, x]" "byte c = 192 + v div 64" "byte x = 128 + v mod 64"
      "0x80 \<le> v" "v < 0x800"
  | (three) c x y where "utf8 v = [c, x, y]" "byte c = 224 + v div 4096"
      "byte x = 128 + v div 64 mod 64" "byte y = 128 + v mod 64" "0x800 \<le> v" "v < 0x10000"
  | (four) c x y z where "utf8 v = [c, x, y, z]" "byte c = 240 + v div 262144"
      "byte x = 128 + v div 4096 mod 64" "byte y = 128 + v div 64 mod 64"
      "byte z = 128 + v mod 64" "0x10000 \<le> v"
  using utf8_bytes [OF assms] by (auto simp: map_eq_Cons_conv split: if_splits)

text \<open>Decoding what \<open>append_utf8\<close> wrote gives the code point back, whatever follows it.\<close>

lemma decode_utf8_encoded:
  assumes "v < 0x200000"
  shows "\<exists>c cs. utf8 v = c # cs \<and> decode_utf8 c (cs @ rest) = (v, length (utf8 v))"
  using assms
proof (cases rule: utf8_cases)
  case one
  then show ?thesis by (auto simp: decode_utf8_eq)
next
  case (two c x)
  moreover from two have "v div 64 < 32" by simp
  moreover have "v div 64 * 64 + v mod 64 = v" by simp
  ultimately show ?thesis
    by (auto simp: decode_utf8_eq cont_def)
next
  case (three c x y)
  moreover from three have "v div 4096 < 16" by simp
  moreover have "(v div 4096 * 64 + v div 64 mod 64) * 64 + v mod 64 = v"
    by (simp add: div_mult2_eq [of v 64 64, simplified])
  ultimately show ?thesis
    by (auto simp: decode_utf8_eq cont_def)
next
  case (four c x y z)
  moreover have "v div 262144 < 8" using assms by simp
  moreover have "((v div 262144 * 64 + v div 4096 mod 64) * 64 + v div 64 mod 64) * 64 + v mod 64 = v"
    by (simp add: div_mult2_eq [of v 64 64, simplified] div_mult2_eq [of v 4096 64, simplified])
  ultimately show ?thesis
    by (auto simp: decode_utf8_eq cont_def)
qed

end
