(* ===== verification/Utf16.thy ===== *)
theory Utf16
  imports Utf8
begin

text \<open>
  Between the engine's WTF-8 storage and UTF-16 code units: \<^verbatim>\<open>wtf8_to_utf16\<close>,
  \<^verbatim>\<open>utf16_to_wtf8\<close> (\<^verbatim>\<open>lib/Core/algorithms.cpp\<close>) and \<^verbatim>\<open>join_surrogates\<close>
  (\<^verbatim>\<open>core/algorithms.hpp\<close>). Storing a list of units and reading it back is the identity, and
  joining the separately stored units of a list stores the list.
\<close>

section \<open>Conversions\<close>

definition units_of :: "code_point \<Rightarrow> nat" where
  "units_of cp = (if cp \<ge> 0x10000 then 2 else 1)"

definition code_unit :: "code_point \<Rightarrow> nat \<Rightarrow> nat" where
  "code_unit cp half =
     (if cp < 0x10000 then cp
      else let v = cp - 0x10000 in
        if half = 0 then 0xD800 + drop_bit 10 v else 0xDC00 + (v AND 0x3FF))"

text \<open>The units one code point contributes, as \<^verbatim>\<open>wtf8_to_utf16\<close> pushes them.\<close>

definition units :: "code_point \<Rightarrow> nat list" where
  "units cp =
     (if cp \<ge> 0x10000
      then [0xD800 + drop_bit 10 (cp - 0x10000), 0xDC00 + ((cp - 0x10000) AND 0x3FF)]
      else [cp])"

function wtf8_to_utf16 :: "string \<Rightarrow> nat list" where
  "wtf8_to_utf16 [] = []"
| "wtf8_to_utf16 (c # cs) =
     (let (cp, n) = decode_utf8 c cs in units cp @ wtf8_to_utf16 (drop (n - 1) cs))"
  by pat_completeness auto
termination
  by (relation "measure length") auto

text \<open>The code point a high and a low surrogate stand for.\<close>

definition join_pair :: "nat \<Rightarrow> nat \<Rightarrow> code_point" where
  "join_pair high low = 0x10000 + push_bit 10 (high - 0xD800) + (low - 0xDC00)"

fun utf16_to_wtf8 :: "nat list \<Rightarrow> string" where
  "utf16_to_wtf8 [] = []"
| "utf16_to_wtf8 [u] = utf8 u"
| "utf16_to_wtf8 (u # v # us) =
     (if u \<ge> 0xD800 \<and> u \<le> 0xDBFF \<and> v \<ge> 0xDC00 \<and> v \<le> 0xDFFF
      then utf8 (join_pair u v) @ utf16_to_wtf8 us
      else utf8 u @ utf16_to_wtf8 (v # us))"

section \<open>Joining surrogates\<close>

text \<open>
  The loop of \<^verbatim>\<open>join_surrogates\<close> from the read cursor on. The write cursor never passes the read
  cursor, so the in-place rewriting is the list of bytes written.
\<close>

fun join_loop :: "string \<Rightarrow> string" where
  "join_loop (b0 # b1 # b2 # b3 # b4 # b5 # rest) =
     (if b0 = chr 0xED \<and> byte b1 \<ge> 0xA0 \<and> byte b1 \<le> 0xAF \<and> byte b3 = 0xED
        \<and> byte b4 \<ge> 0xB0 \<and> byte b4 \<le> 0xBF
      then let high = 0xD000 OR push_bit 6 (byte b1 AND 0x3F) OR (byte b2 AND 0x3F);
               low = 0xD000 OR push_bit 6 (byte b4 AND 0x3F) OR (byte b5 AND 0x3F)
           in utf8 (join_pair high low) @ join_loop rest
      else b0 # join_loop (b1 # b2 # b3 # b4 # b5 # rest))"
| "join_loop s = s"

definition join_surrogates :: "string \<Rightarrow> string" where
  "join_surrogates s =
     (case find_index (\<lambda>c. c = chr 0xED) s of
        None \<Rightarrow> s
      | Some at \<Rightarrow> take at s @ join_loop (drop at s))"

section \<open>Units of a code point\<close>

lemma units_code_unit: "units cp = map (code_unit cp) [0..<units_of cp]"
  by (simp add: units_def code_unit_def units_of_def Let_def upt_rec)

lemma length_units [simp]: "length (units cp) = units_of cp"
  by (simp add: units_def units_of_def)

lemma units_of_cases: "units_of cp = 1 \<and> cp < 0x10000 \<or> units_of cp = 2 \<and> 0x10000 \<le> cp"
  by (simp add: units_of_def)

lemma units_bound:
  assumes "cp < 0x110000"
  shows "\<forall>u \<in> set (units cp). u < 0x10000"
  using assms by (auto simp: units_def shifts and_low)

lemma wtf8_to_utf16_encoded:
  assumes "v < 0x200000"
  shows "wtf8_to_utf16 (utf8 v @ rest) = units v @ wtf8_to_utf16 rest"
proof -
  from decode_utf8_encoded [OF assms, of rest] obtain c cs
    where "utf8 v = c # cs" "decode_utf8 c (cs @ rest) = (v, length (utf8 v))"
    by blast
  then show ?thesis by simp
qed

lemma surrogates_split:
  fixes u v :: nat
  assumes "0xD800 \<le> u" "u \<le> 0xDBFF" "0xDC00 \<le> v" "v \<le> 0xDFFF"
  obtains a b where "u = 0xD800 + a" "v = 0xDC00 + b" "a < 1024" "b < 1024"
proof (rule that)
  show "u = 0xD800 + (u - 0xD800)" "v = 0xDC00 + (v - 0xDC00)" "u - 0xD800 < 1024"
    "v - 0xDC00 < 1024"
    using assms by simp_all
qed

lemma pair_units:
  assumes "0xD800 \<le> u" "u \<le> 0xDBFF" "0xDC00 \<le> v" "v \<le> 0xDFFF"
  shows "units (join_pair u v) = [u, v]" and "0x10000 \<le> join_pair u v"
    and "join_pair u v < 0x110000"
  using assms by (auto elim!: surrogates_split simp: units_def join_pair_def shifts and_low)

text \<open>Every list of code units survives the trip through the engine's storage.\<close>

lemma utf16_wtf8_round:
  "\<forall>u \<in> set us. u < 0x10000 \<Longrightarrow> wtf8_to_utf16 (utf16_to_wtf8 us) = us"
proof (induction us rule: utf16_to_wtf8.induct)
  case 1
  then show ?case by simp
next
  case (2 u)
  then show ?case
    using wtf8_to_utf16_encoded [of u "[]"] by (simp add: units_def)
next
  case (3 u v us)
  show ?case
  proof (cases "0xD800 \<le> u \<and> u \<le> 0xDBFF \<and> 0xDC00 \<le> v \<and> v \<le> 0xDFFF")
    case True
    with 3 show ?thesis
      using pair_units [of u v] by (simp add: wtf8_to_utf16_encoded)
  next
    case False
    with 3 show ?thesis
      by (auto simp: wtf8_to_utf16_encoded units_def)
  qed
qed


section \<open>Joining is re-encoding\<close>

lemma join_loop_skip:
  assumes "b0 \<noteq> chr 0xED"
  shows "join_loop (b0 # s) = b0 # join_loop s"
  using assms by (cases "b0 # s" rule: join_loop.cases) simp_all

lemma join_loop_not_high:
  assumes "\<not> (0xA0 \<le> byte b1 \<and> byte b1 \<le> 0xAF)"
  shows "join_loop (b0 # b1 # s) = b0 # join_loop (b1 # s)"
  using assms by (cases "b0 # b1 # s" rule: join_loop.cases) auto

lemma join_loop_not_low:
  assumes "\<not> (4 \<le> length s \<and> byte (s ! 1) = 0xED \<and> 0xB0 \<le> byte (s ! 2) \<and> byte (s ! 2) \<le> 0xBF)"
  shows "join_loop (b0 # b1 # s) = b0 # join_loop (b1 # s)"
  using assms by (cases "b0 # b1 # s" rule: join_loop.cases) auto

lemma join_surrogates_loop: "join_surrogates s = join_loop s"
proof -
  have "\<forall>c \<in> set p. c \<noteq> chr 0xED \<Longrightarrow> join_loop (p @ q) = p @ join_loop q" for p q
    by (induction p) (simp_all add: join_loop_skip)
  note skip = this [of _ "[]"] this
  show ?thesis
  proof (cases "find_index (\<lambda>c. c = chr 0xED) s")
    case None
    then have "\<forall>c \<in> set s. c \<noteq> chr 0xED"
      by (simp add: find_index_None)
    then have "join_loop s = s"
      using skip(1) [of s] by simp
    then show ?thesis
      by (simp only: join_surrogates_def None option.case)
  next
    case (Some i)
    then have "\<forall>c \<in> set (take i s). c \<noteq> chr 0xED"
      by (auto simp: find_index_take dest: set_takeWhileD)
    then show ?thesis
      using skip(2) [of "take i s" "drop i s"] by (simp add: join_surrogates_def Some)
  qed
qed

lemma not_ED: "byte b < 0xC0 \<Longrightarrow> b \<noteq> chr 0xED"
  by auto

lemma join_loop_conts:
  "\<forall>b \<in> set p. byte b < 0xC0 \<Longrightarrow> join_loop (p @ q) = p @ join_loop q"
  by (induction p) (auto simp: join_loop_skip not_ED)

text \<open>The six bits a second byte after ED carries, and the units whose encoding starts so.\<close>

lemma utf8_ED:
  assumes "v < 0x10000" and "utf8 v = c # x # r" and "byte c = 0xED"
  shows "v div 64 = 832 + (byte x - 128)" and "128 \<le> byte x"
proof -
  from assms(1) have v: "v < 0x200000" by simp
  have "v div 64 = 832 + (byte x - 128) \<and> 128 \<le> byte x"
    using v
  proof (cases rule: utf8_cases)
    case (three c' x' y)
    then have "v div 4096 = 13" "byte x = 128 + v div 64 mod 64"
      using assms by auto
    moreover have "v div 4096 = v div 64 div 64"
      by (simp add: div_mult2_eq [of v 64 64, simplified])
    ultimately show ?thesis
      using div_mult_mod_eq [of "v div 64" 64] by simp
  qed (use assms in auto)
  then show "v div 64 = 832 + (byte x - 128)" "128 \<le> byte x"
    by simp_all
qed

text \<open>A code unit that is no high surrogate, or that no low surrogate follows, is kept.\<close>

lemma join_loop_unit:
  assumes "u < 0x10000" and "\<not> (0xD800 \<le> u \<and> u \<le> 0xDBFF)"
  shows "join_loop (utf8 u @ t) = utf8 u @ join_loop t"
proof -
  from assms(1) have "u < 0x200000" by simp
  then show ?thesis
  proof (cases rule: utf8_cases)
    case (one c)
    then show ?thesis by (auto intro!: join_loop_skip not_ED)
  next
    case (two c x)
    then have "c \<noteq> chr 0xED"
      by (auto simp: char_eq_byte)
    with two show ?thesis
      using join_loop_conts [of "[x]" t] by (simp add: join_loop_skip)
  next
    case (three c x y)
    have "c = chr 0xED \<Longrightarrow> \<not> (0xA0 \<le> byte x \<and> byte x \<le> 0xAF)"
      using utf8_ED [OF assms(1) three(1)] assms(2) by auto
    then have "join_loop (c # x # y # t) = c # join_loop (x # y # t)"
      using join_loop_skip join_loop_not_high by blast
    with three show ?thesis
      using join_loop_conts [of "[x, y]" t] by simp
  qed (use assms in simp)
qed

lemma surrogate_bytes:
  assumes "0xD800 \<le> u" "u \<le> 0xDFFF"
  obtains x y where "utf8 u = [chr 0xED, x, y]" "byte x = 128 + u div 64 mod 64"
    "byte y = 128 + u mod 64"
proof -
  from assms(2) have "u < 0x200000" by simp
  then show thesis
  proof (cases rule: utf8_cases)
    case (three c x y)
    moreover have "u div 4096 = 13"
      using assms by simp
    ultimately have "c = chr 0xED"
      by (simp add: char_eq_byte)
    with three show thesis by (intro that) auto
  qed (use assms in auto)
qed

lemma join_loop_high:
  assumes "0xD800 \<le> u" "u \<le> 0xDBFF"
    and "\<not> (3 \<le> length t \<and> byte (t ! 0) = 0xED \<and> 0xB0 \<le> byte (t ! 1) \<and> byte (t ! 1) \<le> 0xBF)"
  shows "join_loop (utf8 u @ t) = utf8 u @ join_loop t"
proof -
  from assms obtain x y where u: "utf8 u = [chr 0xED, x, y]" "byte x = 128 + u div 64 mod 64"
    "byte y = 128 + u mod 64"
    using surrogate_bytes [of u] by auto
  have "join_loop (chr 0xED # x # y # t) = chr 0xED # join_loop (x # y # t)"
    using assms(3) by (intro join_loop_not_low) auto
  with u show ?thesis
    using join_loop_conts [of "[x, y]" t] by simp
qed

lemma surrogate_or:
  fixes u :: nat
  assumes "0xD800 \<le> u" "u \<le> 0xDFFF"
  shows "0xD000 OR push_bit 6 ((128 + u div 64 mod 64) AND 0x3F) OR ((128 + u mod 64) AND 0x3F) = u"
proof -
  have "push_bit 6 (u div 64 mod 64) OR (u mod 64) = u div 64 mod 64 * 64 + u mod 64"
    by (simp add: or_shifted) (simp add: shifts)
  moreover have "u div 64 mod 64 * 64 + u mod 64 < 2 ^ 12"
    using pack_less [of "u div 64 mod 64" 64 "u mod 64"] by simp
  moreover have "u div 4096 = 13"
    using assms by simp
  then have "2 ^ 12 * 13 + (u div 64 mod 64 * 64 + u mod 64) = u"
  proof -
    assume "u div 4096 = 13"
    then have "u div 64 div 64 = 13"
      by (simp add: div_mult2_eq [of u 64 64, simplified])
    then have "53248 + (u div 64 mod 64 * 64 + u mod 64) = u"
      using div_mult_mod_eq [of "u div 64" 64] div_mult_mod_eq [of u 64] by linarith
    then show ?thesis by simp
  qed
  ultimately show ?thesis
    using or_disjoint [of "u div 64 mod 64 * 64 + u mod 64" 12 13]
    by (simp add: and_low mod_add_eq [symmetric])
qed

lemma join_loop_pair:
  assumes "0xD800 \<le> u" "u \<le> 0xDBFF" "0xDC00 \<le> v" "v \<le> 0xDFFF"
  shows "join_loop (utf8 u @ utf8 v @ t) = utf8 (join_pair u v) @ join_loop t"
proof -
  from assms obtain x y where u: "utf8 u = [chr 0xED, x, y]" "byte x = 128 + u div 64 mod 64"
    "byte y = 128 + u mod 64"
    using surrogate_bytes [of u] by auto
  from assms obtain x' y' where v: "utf8 v = [chr 0xED, x', y']" "byte x' = 128 + v div 64 mod 64"
    "byte y' = 128 + v mod 64"
    using surrogate_bytes [of v] by auto
  have "0xA0 \<le> byte x" "byte x \<le> 0xAF" "0xB0 \<le> byte x'" "byte x' \<le> 0xBF"
    using utf8_ED [of u "chr 0xED" x] utf8_ED [of v "chr 0xED" x'] u(1) v(1) assms by auto
  then show ?thesis
    using surrogate_or [of u] surrogate_or [of v] assms
    by (simp add: u(1) v(1) Let_def) (simp only: u v)
qed

text \<open>The bytes of separately encoded units, joined, are the encoding of the unit sequence.\<close>

lemma join_surrogates_encoded:
  "\<forall>u \<in> set us. u < 0x10000 \<Longrightarrow> join_surrogates (concat (map utf8 us)) = utf16_to_wtf8 us"
proof (induction us rule: utf16_to_wtf8.induct)
  case 1
  then show ?case by (simp add: join_surrogates_def)
next
  case (2 u)
  have "join_loop (utf8 u @ []) = utf8 u @ join_loop []"
    using 2 join_loop_unit [of u "[]"] join_loop_high [of u "[]"]
    by (cases "0xD800 \<le> u \<and> u \<le> 0xDBFF") auto
  then show ?case by (simp add: join_surrogates_loop)
next
  case (3 u v us)
  let ?t = "concat (map utf8 (v # us))"
  show ?case
  proof (cases "0xD800 \<le> u \<and> u \<le> 0xDBFF \<and> 0xDC00 \<le> v \<and> v \<le> 0xDFFF")
    case True
    with 3 show ?thesis
      by (simp add: join_surrogates_loop join_loop_pair)
  next
    case False
    have "join_loop (utf8 u @ ?t) = utf8 u @ join_loop ?t"
    proof (cases "0xD800 \<le> u \<and> u \<le> 0xDBFF")
      case True
      from "3.prems" have v: "v < 0x10000" by simp
      have "\<not> (byte (?t ! 0) = 0xED \<and> 0xB0 \<le> byte (?t ! 1) \<and> byte (?t ! 1) \<le> 0xBF)"
      proof
        assume a: "byte (?t ! 0) = 0xED \<and> 0xB0 \<le> byte (?t ! 1) \<and> byte (?t ! 1) \<le> 0xBF"
        from v have "v < 0x200000" by simp
        then obtain c x r where c: "utf8 v = c # x # r"
          using a by (cases rule: utf8_cases) auto
        then show False
          using utf8_ED [OF v c] a False True by auto
      qed
      then show ?thesis
        using True by (intro join_loop_high) auto
    next
      case False
      then show ?thesis
        using "3.prems" by (intro join_loop_unit) auto
    qed
    with False 3 show ?thesis
      by (auto simp: join_surrogates_loop)
  qed
qed

section \<open>Storing a list of units\<close>

text \<open>
  C22: Every list of 16-bit units, with or without surrogates in any order, survives storage: the
  WTF-8 bytes decode to the same units, and joining separately stored units with
  \<^verbatim>\<open>join_surrogates\<close> gives exactly the bytes that storing the whole list gives.
\<close>

theorem stored_units:
  assumes "\<forall>u \<in> set us. u < 0x10000"
  shows "wtf8_to_utf16 (utf16_to_wtf8 us) = us
    \<and> join_surrogates (concat (map utf8 us)) = utf16_to_wtf8 us"
  using utf16_wtf8_round [OF assms] join_surrogates_encoded [OF assms] by simp

text \<open>A high surrogate, a pair and a lone low surrogate: the pair is one four-byte sequence.\<close>

theorem stored_units_witness:
  "(wtf8_to_utf16 (utf16_to_wtf8 [0xD800, 0xD83D, 0xDE00, 0xDC01]) = [0xD800, 0xD83D, 0xDE00, 0xDC01]
    \<and> join_surrogates (concat (map utf8 [0xD800, 0xD83D, 0xDE00, 0xDC01]))
        = utf16_to_wtf8 [0xD800, 0xD83D, 0xDE00, 0xDC01])
   \<and> length (utf16_to_wtf8 [0xD800, 0xD83D, 0xDE00, 0xDC01]) = 10"
  by (intro conjI stored_units [of "[0xD800, 0xD83D, 0xDE00, 0xDC01]", THEN conjunct1]
      stored_units [of "[0xD800, 0xD83D, 0xDE00, 0xDC01]", THEN conjunct2])
    (simp_all add: utf8_def join_pair_def)

end
