(* ===== verification/Utf16_Walk.thy ===== *)
theory Utf16_Walk
  imports Utf16
begin

text \<open>
  The UTF-16 view a script has of a WTF-8 string (\<^verbatim>\<open>script/utf16.hpp\<close>): its length, the position
  of a unit, the unit there, and slices. The specification is the list \<open>wtf8_to_utf16 s\<close>: a length
  is its length, an indexed unit its element, and the units of a slice are that slice of the list.
  None of it asks the text to be well formed.
\<close>

section \<open>The walk over code units\<close>

text \<open>Eight bytes loaded as one word, little endian.\<close>

fun load_le :: "string \<Rightarrow> nat" where
  "load_le [] = 0"
| "load_le (c # cs) = byte c + 256 * load_le cs"

function is_ascii :: "string \<Rightarrow> bool" where
  "is_ascii s =
     (if length s \<ge> 8
      then (if load_le (take 8 s) AND 0x8080808080808080 \<noteq> 0 then False else is_ascii (drop 8 s))
      else \<forall>c \<in> set s. \<not> byte c \<ge> 0x80)"
  by pat_completeness auto
termination
  by (relation "measure length") auto

declare is_ascii.simps [simp del]

function count_units :: "string \<Rightarrow> nat" where
  "count_units [] = 0"
| "count_units (c # cs) =
     (let (cp, n) = decode_utf8 c cs in units_of cp + count_units (drop (n - 1) cs))"
  by pat_completeness auto
termination
  by (relation "measure length") auto

definition utf16_length :: "string \<Rightarrow> nat" where
  "utf16_length s = (if is_ascii s then length s else count_units s)"

text \<open>
  \<^verbatim>\<open>locate\<close>: the byte where the code point of unit \<open>i\<close> starts, and whether \<open>i\<close> is its second unit.
  The loop carries the suffix of the text at \<open>at\<close>, the position and the unit counted there.
\<close>

function locate_loop :: "string \<Rightarrow> nat \<Rightarrow> nat \<Rightarrow> nat \<Rightarrow> nat \<times> bool" where
  "locate_loop [] i at unit = (at, False)"
| "locate_loop (c # cs) i at unit =
     (let (cp, n) = decode_utf8 c cs in
      if i < unit + units_of cp then (at, i \<noteq> unit)
      else locate_loop (drop (n - 1) cs) i (at + n) (unit + units_of cp))"
  by pat_completeness auto
termination
  by (relation "measure (\<lambda>(s, i, at, unit). length s)") auto

definition locate :: "string \<Rightarrow> nat \<Rightarrow> nat \<times> bool" where
  "locate s i = locate_loop s i 0 0"

text \<open>The unit at a position \<open>locate\<close> found, which is before the end.\<close>

definition unit_at :: "string \<Rightarrow> nat \<times> bool \<Rightarrow> nat option" where
  "unit_at s pos =
     (case drop (fst pos) s of
        [] \<Rightarrow> None
      | c # cs \<Rightarrow> Some (code_unit (fst (decode_utf8 c cs)) (if snd pos then 1 else 0)))"

text \<open>\<^verbatim>\<open>units_before\<close>: the number of units before the byte offset \<open>to\<close>.\<close>

function units_before_loop :: "string \<Rightarrow> nat \<Rightarrow> nat \<Rightarrow> nat \<Rightarrow> nat" where
  "units_before_loop [] to at unit = unit"
| "units_before_loop (c # cs) to at unit =
     (if at < to
      then let (cp, n) = decode_utf8 c cs
           in units_before_loop (drop (n - 1) cs) to (at + n) (unit + units_of cp)
      else unit)"
  by pat_completeness auto
termination
  by (relation "measure (\<lambda>(s, to, at, unit). length s)") auto

definition units_before :: "string \<Rightarrow> nat \<Rightarrow> nat" where
  "units_before s to = units_before_loop s to 0 0"

text \<open>
  \<^verbatim>\<open>slice\<close>: the bytes of the units in \<open>[from, to)\<close>. A pair split by an edge leaves its half as a
  lone surrogate. The decodes at \<open>from.byte\<close> and \<open>to.byte\<close> are inside the text for a position with
  a low half, which is what the empty case stands for.
\<close>

definition decode_at :: "string \<Rightarrow> nat \<Rightarrow> code_point \<times> nat" where
  "decode_at s at = (case drop at s of [] \<Rightarrow> (0, 0) | c # cs \<Rightarrow> decode_utf8 c cs)"

definition slice :: "string \<Rightarrow> nat \<times> bool \<Rightarrow> nat \<times> bool \<Rightarrow> string" where
  "slice s from to =
     (let (half, begin_byte) =
            (if snd from
             then let (cp, n) = decode_at s (fst from)
                  in (utf8 (code_unit cp 1), fst from + n)
             else ([], fst from));
          middle = (if fst to > begin_byte then substr s begin_byte (fst to - begin_byte) else []);
          tail = (if snd to then utf8 (code_unit (fst (decode_at s (fst to))) 0) else [])
      in half @ middle @ tail)"

text \<open>Whether the text holds a lone surrogate (the bytes ED A0..BF), or a four-byte sequence.\<close>

fun has_lone_surrogate :: "string \<Rightarrow> bool" where
  "has_lone_surrogate (a # b # rest) =
     (a = chr 0xED \<and> byte b \<ge> 0xA0 \<or> has_lone_surrogate (b # rest))"
| "has_lone_surrogate s = False"

definition has_pair :: "string \<Rightarrow> bool" where
  "has_pair s \<longleftrightarrow> (\<exists>c \<in> set s. byte c \<ge> 0xF0)"

function split_pairs_loop :: "string \<Rightarrow> string" where
  "split_pairs_loop [] = []"
| "split_pairs_loop (c # cs) =
     (let (cp, n) = decode_utf8 c cs in
      (if cp < 0x10000 then take n (c # cs)
       else utf8 (code_unit cp 0) @ utf8 (code_unit cp 1))
      @ split_pairs_loop (drop (n - 1) cs))"
  by pat_completeness auto
termination
  by (relation "measure length") auto

definition split_pairs :: "string \<Rightarrow> string" where
  "split_pairs s = (if \<not> has_pair s then s else split_pairs_loop s)"

section \<open>The ASCII test\<close>

lemma and_bytes:
  fixes a b x y :: nat
  assumes "a < 256" "b < 256"
  shows "(a + 256 * x) AND (b + 256 * y) = (a AND b) + 256 * (x AND y)"
proof -
  let ?n = "a + 256 * x" and ?m = "b + 256 * y"
  have "drop_bit 8 ?n = x" "drop_bit 8 ?m = y" "take_bit 8 ?n = a" "take_bit 8 ?m = b"
    using assms by (simp_all add: drop_bit_eq_div take_bit_eq_mod)
  then have "drop_bit 8 (?n AND ?m) = x AND y" "take_bit 8 (?n AND ?m) = a AND b"
    by simp_all
  then show ?thesis
    using bits_ident [of 8 "?n AND ?m"] by (simp add: push_bit_eq_mult)
qed

fun high_marks :: "nat \<Rightarrow> nat" where
  "high_marks 0 = 0"
| "high_marks (Suc k) = 128 + 256 * high_marks k"

lemma load_le_marks:
  "load_le s AND high_marks (length s) = 0 \<longleftrightarrow> (\<forall>c \<in> set s. byte c < 128)"
proof (induction s)
  case Nil
  then show ?case by simp
next
  case (Cons c cs)
  have "byte c AND 128 = byte c div 128 mod 2 * 128"
    using and_shifted [of "byte c" 7 1] by (simp add: shifts and_low)
  also have "byte c div 128 mod 2 = byte c div 128"
    using byte_less [of c] by (simp add: less_mult_imp_div_less)
  finally have "byte c AND 128 = 0 \<longleftrightarrow> byte c < 128"
    by (simp only: mult_eq_0_iff div_eq_0_iff) simp
  with Cons show ?case
    by (simp add: and_bytes)
qed

lemma is_ascii_iff: "is_ascii s \<longleftrightarrow> (\<forall>c \<in> set s. byte c < 128)"
proof (induction s rule: is_ascii.induct)
  case (1 s)
  show ?case
  proof (cases "8 \<le> length s")
    case True
    have eight: "8 = Suc (Suc (Suc (Suc (Suc (Suc (Suc (Suc 0)))))))"
      by simp
    have "high_marks 8 = 0x8080808080808080"
      unfolding eight by simp
    then have "load_le (take 8 s) AND 0x8080808080808080 = 0
        \<longleftrightarrow> (\<forall>c \<in> set (take 8 s). byte c < 128)"
      using load_le_marks [of "take 8 s"] True by simp
    moreover have "set s = set (take 8 s) \<union> set (drop 8 s)"
      by (metis append_take_drop_id set_append)
    ultimately show ?thesis
      using 1 True by (auto simp: is_ascii.simps [of s])
  next
    case False
    then show ?thesis
      by (auto simp: is_ascii.simps [of s])
  qed
qed

lemma wtf8_to_utf16_ascii:
  "\<forall>c \<in> set s. byte c < 128 \<Longrightarrow> wtf8_to_utf16 s = map byte s"
  by (induction s) (simp_all add: decode_utf8_eq units_def)

lemma count_units_length: "count_units s = length (wtf8_to_utf16 s)"
  by (induction s rule: count_units.induct) (auto split: prod.split)

lemma utf16_length_eq: "utf16_length s = length (wtf8_to_utf16 s)"
  by (simp add: utf16_length_def is_ascii_iff wtf8_to_utf16_ascii count_units_length)

section \<open>Boundaries between code points\<close>

text \<open>\<open>boundary s k U\<close>: the walk reaches byte \<open>k\<close> of \<open>s\<close>, having read the units \<open>U\<close>.\<close>

inductive boundary :: "string \<Rightarrow> nat \<Rightarrow> nat list \<Rightarrow> bool" where
  start: "boundary s 0 []"
| step: "decode_utf8 c cs = (cp, n) \<Longrightarrow> boundary (drop (n - 1) cs) k U
    \<Longrightarrow> boundary (c # cs) (n + k) (units cp @ U)"

definition noncont :: "string \<Rightarrow> bool" where
  "noncont q \<longleftrightarrow> (q = [] \<or> \<not> cont (hd q))"

lemma noncont_nth: "noncont q \<Longrightarrow> cont (q ! 0) \<Longrightarrow> q = []"
  by (cases q) (simp_all add: noncont_def)

text \<open>A decode inside a prefix does not depend on what follows the prefix, as long as that is no
  continuation byte.\<close>

lemma decode_utf8_stable:
  assumes d: "decode_utf8 c (p @ q) = (cp, n)" and n: "n - 1 \<le> length p" and q': "noncont q'"
  shows "decode_utf8 c (p @ q') = (cp, n)"
proof (cases "n = 1")
  case False
  show ?thesis
    using d n False
    by (cases rule: decode_utf8_cases [of c "p @ q"]) (auto simp: decode_utf8_eq nth_append)
next
  case True
  then have cp: "cp = byte c"
    using d by (auto simp: decode_utf8_eq split: if_splits)
  have "decode_utf8 c (p @ q') = (byte c, 1)"
  proof (cases rule: decode_utf8_cases [of c "p @ q'"])
    case two
    then obtain x p' where "p = x # p'"
      using noncont_nth [OF q'] by (cases p) auto
    with two d True show ?thesis
      by (simp add: decode_utf8_eq)
  next
    case three
    then obtain x y p' where "p = x # y # p'"
      using noncont_nth [OF q'] by (cases p; cases "tl p") auto
    with three d True show ?thesis
      by (simp add: decode_utf8_eq)
  next
    case four
    then obtain x y z p' where "p = x # y # z # p'"
      using noncont_nth [OF q'] by (cases p; cases "tl p"; cases "tl (tl p)") auto
    with four d True show ?thesis
      by (simp add: decode_utf8_eq)
  qed
  with True cp show ?thesis by simp
qed

lemma boundary_decomp:
  "boundary s k U \<Longrightarrow> k \<le> length s \<and> wtf8_to_utf16 s = U @ wtf8_to_utf16 (drop k s)"
proof (induction rule: boundary.induct)
  case (start s)
  then show ?case by simp
next
  case (step c cs cp n k U)
  note adv = decode_utf8_advance [OF step.hyps(1)]
  from adv(1) obtain m where m: "n = Suc m" by (cases n) auto
  with step adv show ?case by (auto simp: add.commute)
qed

lemma boundary_prefix:
  "boundary s k U \<Longrightarrow> noncont q \<Longrightarrow> wtf8_to_utf16 (take k s @ q) = U @ wtf8_to_utf16 q"
proof (induction rule: boundary.induct)
  case (start s)
  then show ?case by simp
next
  case (step c cs cp n k U)
  note adv = decode_utf8_advance [OF step.hyps(1)]
  from adv(1) obtain m where m: "n = Suc m" by (cases n) auto
  have "decode_utf8 c (take (m + k) cs @ drop (m + k) cs) = (cp, n)"
    using step.hyps(1) by simp
  then have "decode_utf8 c (take (m + k) cs @ q) = (cp, n)"
    by (rule decode_utf8_stable) (use adv step.prems m in auto)
  moreover have "drop m (take (m + k) cs @ q) = take k (drop m cs) @ q"
    using adv(3) m by (simp add: drop_take)
  ultimately show ?case
    using step m by simp
qed

lemma boundary_append:
  "boundary s k U \<Longrightarrow> boundary (drop k s) j V \<Longrightarrow> boundary s (k + j) (U @ V)"
proof (induction rule: boundary.induct)
  case (start s)
  then show ?case by simp
next
  case (step c cs cp n k U)
  from decode_utf8_advance(1) [OF step.hyps(1)] obtain m where m: "n = Suc m" by (cases n) auto
  then have "boundary (drop (n - 1) cs) (k + j) (U @ V)"
    using step by (simp add: add.commute)
  from boundary.step [OF step.hyps(1) this] show ?case
    by (simp add: add.assoc)
qed

text \<open>Boundaries of one text are ordered by the units before them.\<close>

lemma boundary_between:
  "boundary s k U \<Longrightarrow> boundary s k' U' \<Longrightarrow> length U \<le> length U' \<Longrightarrow>
    \<exists>V. U' = U @ V \<and> k \<le> k' \<and> boundary (drop k s) (k' - k) V"
proof (induction arbitrary: k' U' rule: boundary.induct)
  case (start s)
  then show ?case by simp
next
  case (step c cs cp n k U)
  from decode_utf8_advance(1) [OF step.hyps(1)] obtain m where m: "n = Suc m" by (cases n) auto
  have pos: "0 < units_of cp" by (simp add: units_of_def)
  from step.prems(1) show ?case
  proof cases
    case start
    with step.prems(2) pos show ?thesis by simp
  next
    case (step cp' n' l W)
    with \<open>decode_utf8 c cs = (cp, n)\<close> have eq: "cp' = cp" "n' = n" by auto
    with step have "\<exists>V. W = U @ V \<and> k \<le> l \<and> boundary (drop k (drop (n - 1) cs)) (l - k) V"
      using step.prems(2) by (intro step.IH) auto
    with step eq m show ?thesis
      by (auto simp: add.commute)
  qed
qed

section \<open>Positions and slices\<close>

text \<open>What \<open>locate\<close> promises of unit \<open>i\<close>: the position is a boundary, and the unit is the first or
  the second of the code point there. Past the end it is the end.\<close>

definition located :: "string \<Rightarrow> nat \<Rightarrow> nat \<Rightarrow> bool \<Rightarrow> nat list \<Rightarrow> bool" where
  "located s i k low U \<longleftrightarrow> boundary s k U \<and>
     (if length (wtf8_to_utf16 s) \<le> i then k = length s \<and> \<not> low
      else (\<exists>c cs cp n. drop k s = c # cs \<and> decode_utf8 c cs = (cp, n)
              \<and> i = length U + (if low then 1 else 0) \<and> (low \<longrightarrow> 0x10000 \<le> cp)))"

lemma locate_loop_located:
  "unit \<le> i \<Longrightarrow> locate_loop s i at unit = (b, low) \<Longrightarrow>
    \<exists>k U. b = at + k \<and> located s (i - unit) k low U"
proof (induction s i at unit rule: locate_loop.induct)
  case (1 i at unit)
  then show ?case
    by (auto simp: located_def intro: boundary.start)
next
  case (2 c cs i at unit)
  obtain cp n where d: "decode_utf8 c cs = (cp, n)" by fastforce
  from decode_utf8_advance(1) [OF d] obtain m where m: "n = Suc m" by (cases n) auto
  show ?case
  proof (cases "i < unit + units_of cp")
    case True
    with "2.prems" d have b: "b = at" "low \<longleftrightarrow> i \<noteq> unit" by auto
    have "located (c # cs) (i - unit) 0 low []"
      using True "2.prems"(1) b d m
      by (auto simp: located_def units_of_def intro: boundary.start split: if_splits)
    with b show ?thesis by force
  next
    case False
    let ?rest = "drop (n - 1) cs"
    from "2.IH" [OF d [symmetric] refl False] False "2.prems" d
    obtain k U where k: "b = at + n + k" "located ?rest (i - (unit + units_of cp)) k low U"
      by auto
    then have "boundary ?rest k U" by (simp add: located_def)
    then have "boundary (c # cs) (n + k) (units cp @ U)"
      by (rule boundary.step [OF d])
    moreover have "wtf8_to_utf16 (c # cs) = units cp @ wtf8_to_utf16 ?rest"
      using d by simp
    ultimately have "located (c # cs) (i - unit) (n + k) low (units cp @ U)"
      using k False m decode_utf8_advance(3) [OF d]
      by (auto simp: located_def add.commute split: if_splits)
    with k show ?thesis by (metis add.assoc)
  qed
qed

lemma locate_located:
  obtains U where "located s i (fst (locate s i)) (snd (locate s i)) U"
  using locate_loop_located [of 0 i s 0 "fst (locate s i)" "snd (locate s i)"]
  by (auto simp: locate_def)

lemma unit_at_locate:
  assumes short: "i < length (wtf8_to_utf16 s)"
  shows "unit_at s (locate s i) = Some (wtf8_to_utf16 s ! i)"
proof -
  obtain k low where loc: "locate s i = (k, low)" by fastforce
  then obtain U where U: "located s i k low U"
    using locate_located [of s i] by auto
  with short obtain c cs cp n where c: "drop k s = c # cs" "decode_utf8 c cs = (cp, n)"
    "i = length U + (if low then 1 else 0)" "low \<longrightarrow> 0x10000 \<le> cp"
    unfolding located_def if_not_P [OF short [folded not_le]] by blast
  have "boundary s k U"
    using U by (simp add: located_def)
  then have "wtf8_to_utf16 s = U @ wtf8_to_utf16 (c # cs)"
    using boundary_decomp c(1) by metis
  then have "wtf8_to_utf16 s = U @ units cp @ wtf8_to_utf16 (drop (n - 1) cs)"
    using c(2) by simp
  moreover have "(U @ units cp @ r) ! i = code_unit cp (if low then 1 else 0)" for r
    using c(3,4) by (cases low) (simp_all add: nth_append units_def code_unit_def Let_def)
  ultimately show ?thesis
    using c(1,2) by (simp add: unit_at_def loc)
qed

lemma utf8_noncont: "v < 0x200000 \<Longrightarrow> noncont (utf8 v @ r)"
  by (erule utf8_cases) (auto simp: noncont_def cont_def)

lemma code_unit_bound:
  assumes "cp < 0x200000"
  shows "code_unit cp 0 < 0x10000" and "code_unit cp 1 < 0x10000"
  using assms by (auto simp: code_unit_def Let_def shifts and_low)

lemma unit_text:
  assumes "u < 0x10000"
  shows "wtf8_to_utf16 (utf8 u @ r) = u # wtf8_to_utf16 r"
  using wtf8_to_utf16_encoded [of u r] assms by (simp add: units_def)

text \<open>The end of a slice: the bytes up to \<open>to\<close>, and the high half when \<open>to\<close> is inside a pair.\<close>

lemma slice_tail:
  assumes "located s j k low U" and "boundary s b W" and "length W \<le> length U"
  shows "wtf8_to_utf16 (substr s b (k - b)
           @ (if low then utf8 (code_unit (fst (decode_at s k)) 0) else []))
         = drop (length W) (take j (wtf8_to_utf16 s))" and "b \<le> k"
proof -
  let ?T = "if low then utf8 (code_unit (fst (decode_at s k)) 0) else []"
  from assms obtain V where V: "U = W @ V" "b \<le> k" "boundary (drop b s) (k - b) V"
    using boundary_between [OF assms(2)] by (auto simp: located_def)
  then show "b \<le> k" by simp
  have U: "wtf8_to_utf16 s = U @ wtf8_to_utf16 (drop k s)"
    using assms(1) boundary_decomp by (auto simp: located_def)
  have cp: "fst (decode_at s k) < 0x200000"
    using decode_utf8_bound by (auto simp: decode_at_def split: list.split)
  have nc: "noncont ?T"
    using utf8_noncont [of "code_unit (fst (decode_at s k)) 0" "[]"] code_unit_bound(1) [OF cp]
    by (auto simp: noncont_def)
  have "wtf8_to_utf16 ?T = drop (length U) (take j (wtf8_to_utf16 s))"
  proof (cases "length (wtf8_to_utf16 s) \<le> j")
    case True
    with assms(1) U show ?thesis by (simp add: located_def)
  next
    case False
    with assms(1) obtain c cs cp' n where c: "drop k s = c # cs" "decode_utf8 c cs = (cp', n)"
      "j = length U + (if low then 1 else 0)" "low \<longrightarrow> 0x10000 \<le> cp'"
      by (auto simp: located_def)
    have "code_unit cp' 0 < 0x10000"
      using code_unit_bound(1) cp c by (simp add: decode_at_def)
    then show ?thesis
      using c U unit_text [of "code_unit cp' 0" "[]"]
      by (auto simp: decode_at_def units_def code_unit_def Let_def)
  qed
  moreover have "wtf8_to_utf16 (substr s b (k - b) @ ?T) = V @ wtf8_to_utf16 ?T"
    using boundary_prefix [OF V(3) nc] by (simp add: substr_def)
  moreover have "take j (wtf8_to_utf16 s) = U @ drop (length U) (take j (wtf8_to_utf16 s))"
  proof -
    have "length U \<le> j"
      using assms(1) U boundary_decomp [of s k U] by (auto simp: located_def split: if_splits)
    then show ?thesis by (simp add: U)
  qed
  ultimately show "wtf8_to_utf16 (substr s b (k - b) @ ?T) = drop (length W) (take j (wtf8_to_utf16 s))"
    using V(1) by (metis append.assoc append_eq_conv_conj)
qed

text \<open>The units of the slice between two located units are the slice of the units.\<close>

lemma slice_units:
  assumes "i < j"
  shows "wtf8_to_utf16 (slice s (locate s i) (locate s j)) = drop i (take j (wtf8_to_utf16 s))"
proof -
  obtain b low where fr: "locate s i = (b, low)" by fastforce
  obtain k high where tt: "locate s j = (k, high)" by fastforce
  obtain W where W: "located s i b low W"
    using locate_located [of s i] fr by auto
  obtain U where U: "located s j k high U"
    using locate_located [of s j] tt by auto
  have bW: "boundary s b W" and bU: "boundary s k U"
    using W U by (simp_all add: located_def)
  note dW = boundary_decomp [OF bW] and dU = boundary_decomp [OF bU]
  show ?thesis
  proof (cases low)
    case False
    have "length W \<le> length U" "drop i (take j (wtf8_to_utf16 s)) = drop (length W) (take j (wtf8_to_utf16 s))"
      using W U dW dU assms False by (auto simp: located_def split: if_splits)
    with slice_tail [OF U bW] False show ?thesis
      by (auto simp: slice_def fr tt substr_def Let_def)
  next
    case True
    then obtain c cs cp n where c: "drop b s = c # cs" "decode_utf8 c cs = (cp, n)"
      "i = length W + 1" "0x10000 \<le> cp" and short: "i < length (wtf8_to_utf16 s)"
      using W by (auto simp: located_def split: if_splits)
    from decode_utf8_advance(1) [OF c(2)] obtain m where m: "n = Suc m" by (cases n) auto
    have "boundary (drop b s) n (units cp)"
      using boundary.step [OF c(2) boundary.start] c(1) by simp
    then have bn: "boundary s (b + n) (W @ units cp)"
      by (rule boundary_append [OF bW])
    have two: "units_of cp = 2" using c(4) by (simp add: units_of_def)
    have "length W < length U"
      using U dU dW c(3) short assms by (auto simp: located_def split: if_splits)
    then obtain V where V: "U = W @ V" "boundary (c # cs) (k - b) V" "V \<noteq> []"
      using boundary_between [OF bW bU] c(1) by auto
    from V(2,3) c(2) obtain V' where "V = units cp @ V'"
      by (auto elim: boundary.cases)
    then have WU: "length (W @ units cp) \<le> length U"
      using V(1) by simp
    have at: "decode_at s b = (cp, n)"
      using c by (simp add: decode_at_def)
    have sl: "slice s (locate s i) (locate s j) = utf8 (code_unit cp 1)
        @ substr s (b + n) (k - (b + n))
        @ (if high then utf8 (code_unit (fst (decode_at s k)) 0) else [])"
      using True by (simp add: slice_def fr tt at substr_def)
    have "cp < 0x200000" using decode_utf8_bound [of c cs] c(2) by simp
    then have "code_unit cp 1 < 0x10000"
      by (rule code_unit_bound(2))
    then have "wtf8_to_utf16 (slice s (locate s i) (locate s j))
        = code_unit cp 1 # drop (length (W @ units cp)) (take j (wtf8_to_utf16 s))"
      using slice_tail(1) [OF U bn WU] by (simp only: sl unit_text)
    also have "length (W @ units cp) = Suc i"
      using two c(3) by simp
    also have "code_unit cp 1 = wtf8_to_utf16 s ! i"
    proof -
      have "wtf8_to_utf16 s = W @ units cp @ wtf8_to_utf16 (drop (n - 1) cs)"
        using dW c by simp
      then show ?thesis
        using c(3,4) by (simp add: nth_append units_def code_unit_def Let_def)
    qed
    also have "wtf8_to_utf16 s ! i # drop (Suc i) (take j (wtf8_to_utf16 s))
        = drop i (take j (wtf8_to_utf16 s))"
      using Cons_nth_drop_Suc [of i "take j (wtf8_to_utf16 s)"] assms short by simp
    finally show ?thesis .
  qed
qed

text \<open>
  C21: A script sees the units of the text, whatever its bytes: \<^verbatim>\<open>length\<close> counts them (the
  eight-byte ASCII scan included), \<^verbatim>\<open>unit_at (locate i)\<close> reads unit \<open>i\<close>, and the slice between
  the positions of \<open>i\<close> and \<open>j\<close> is a text whose units are the units from \<open>i\<close> up to \<open>j\<close>, also
  where an edge cuts a surrogate pair.
\<close>

theorem utf16_view:
  assumes "i < j"
  shows "utf16_length s = length (wtf8_to_utf16 s)
    \<and> (i < length (wtf8_to_utf16 s) \<longrightarrow> unit_at s (locate s i) = Some (wtf8_to_utf16 s ! i))
    \<and> wtf8_to_utf16 (slice s (locate s i) (locate s j)) = drop i (take j (wtf8_to_utf16 s))"
  using unit_at_locate [of i s] utf16_length_eq [of s] slice_units [OF assms, of s] by simp

text \<open>An emoji between two letters, cut in the middle of its pair.\<close>

theorem utf16_view_witness:
  "utf16_length (utf8 97 @ utf8 0x1F600 @ utf8 98) = 4
    \<and> unit_at (utf8 97 @ utf8 0x1F600 @ utf8 98) (locate (utf8 97 @ utf8 0x1F600 @ utf8 98) 2)
        = Some 0xDE00
    \<and> wtf8_to_utf16 (slice (utf8 97 @ utf8 0x1F600 @ utf8 98)
        (locate (utf8 97 @ utf8 0x1F600 @ utf8 98) 2) (locate (utf8 97 @ utf8 0x1F600 @ utf8 98) 4))
        = [0xDE00, 98]"
proof -
  have "wtf8_to_utf16 (utf8 97 @ utf8 0x1F600 @ utf8 98 @ []) = [97, 0xD83D, 0xDE00, 98]"
    by (simp only: wtf8_to_utf16_encoded) (simp add: units_def bits)
  then show ?thesis
    using utf16_view [of 2 4 "utf8 97 @ utf8 0x1F600 @ utf8 98"] by simp
qed

end
