(* ===== verification/Slab.thy ===== *)
theory Slab
  imports Prelude
begin

text \<open>
  Generation-tagged storage (\<^verbatim>\<open>core/handle.hpp\<close>, \<^verbatim>\<open>core/slab.hpp\<close>). A slab is a list of slots, each
  with a 32-bit generation (odd is live, even is free), the biased index of the next free slot and
  the storage, which is \<open>None\<close> while no object is constructed in it. The abstract specification is
  a finite map from handles to objects (locale \<open>handle_store\<close>); \<open>slab_inv\<close> ties the free list, the
  parities and the live count together, and the interpretation at the end discharges the laws.

  Reading or destroying storage that holds no object is undefined behaviour in the source. The
  model keeps it visible: \<open>slab_get\<close> answers \<open>Dangling\<close> and \<open>slab_erase\<close> answers \<open>None\<close>.
\<close>

section \<open>Handles and slots\<close>

record handle =
  h_slot :: "32 word"
  h_generation :: "32 word"

definition handle_bool :: "handle \<Rightarrow> bool" where
  "handle_bool h \<longleftrightarrow> h_generation h \<noteq> 0"

definition handle_key :: "handle \<Rightarrow> 64 word" where
  "handle_key h = push_bit 32 (ucast (h_slot h)) OR ucast (h_generation h)"

record 'a entry =
  generation :: "32 word"
  next_free :: "32 word"
  storage :: "'a option"

record 'a slab =
  slots :: "'a entry list"
  free_head :: "32 word"
  live :: nat

definition slab_empty :: "'a slab" where
  "slab_empty = \<lparr>slots = [], free_head = 0, live = 0\<rparr>"

definition slab_size :: "'a slab \<Rightarrow> nat" where
  "slab_size s = live s"

definition is_live :: "32 word \<Rightarrow> bool" where
  "is_live g \<longleftrightarrow> g AND 1 \<noteq> 0"

section \<open>Operations\<close>

datatype 'a lookup = Null | Live 'a | Dangling

text \<open>\<^verbatim>\<open>get\<close>: the object the handle refers to, or null when the handle is null or stale.\<close>

definition slab_get :: "'a slab \<Rightarrow> handle \<Rightarrow> 'a lookup" where
  "slab_get s h =
     (if \<not> handle_bool h \<or> unat (h_slot h) \<ge> length (slots s) then Null
      else let e = slots s ! unat (h_slot h) in
        if generation e \<noteq> h_generation h then Null
        else (case storage e of Some v \<Rightarrow> Live v | None \<Rightarrow> Dangling))"

text \<open>
  \<^verbatim>\<open>insert\<close> in its two parts: taking a slot (from the free list, or a new one at the end), then
  constructing. \<open>ctor\<close> is the constructed object, \<open>None\<close> when the constructor throws: then the slot
  goes on the free list and the exception propagates, which is the result \<open>None\<close>.
\<close>

definition take_slot :: "'a slab \<Rightarrow> 'a slab \<times> 32 word" where
  "take_slot s =
     (if free_head s \<noteq> 0
      then let slot = free_head s - 1
           in (s\<lparr>free_head := next_free (slots s ! unat slot)\<rparr>, slot)
      else (s\<lparr>slots := slots s @ [\<lparr>generation = 0, next_free = 0, storage = None\<rparr>]\<rparr>,
            word_of_nat (length (slots s))))"

definition slab_insert :: "'a option \<Rightarrow> 'a slab \<Rightarrow> 'a slab \<times> handle option" where
  "slab_insert ctor s =
     (let (s1, slot) = take_slot s; i = unat slot; e = slots s1 ! i in
      case ctor of
        None \<Rightarrow>
          (s1\<lparr>slots := (slots s1)[i := e\<lparr>next_free := free_head s1\<rparr>], free_head := slot + 1\<rparr>, None)
      | Some v \<Rightarrow>
          (s1\<lparr>slots := (slots s1)[i := e\<lparr>generation := generation e + 1, storage := Some v\<rparr>],
              live := live s1 + 1\<rparr>,
           Some \<lparr>h_slot = slot, h_generation = generation e + 1\<rparr>))"

text \<open>\<^verbatim>\<open>erase\<close>: \<open>None\<close> when it would destroy storage that holds no object.\<close>

definition slab_erase :: "handle \<Rightarrow> 'a slab \<Rightarrow> ('a slab \<times> bool) option" where
  "slab_erase h s =
     (if \<not> handle_bool h \<or> unat (h_slot h) \<ge> length (slots s) then Some (s, False)
      else let i = unat (h_slot h); e = slots s ! i in
        if generation e \<noteq> h_generation h then Some (s, False)
        else if storage e = None then None
        else Some (s\<lparr>slots := (slots s)[i := \<lparr>generation = h_generation h + 1,
                                              next_free = free_head s, storage = None\<rparr>],
                     free_head := h_slot h + 1, live := live s - 1\<rparr>, True))"

section \<open>The interface\<close>

text \<open>
  What a user of a slab relies on. \<open>issued s h\<close> says the handle is one \<open>insert\<close> may have made. The
  laws say what a lookup returns after an insertion or an erasure, for the handle itself and for
  every other handle.
\<close>

locale handle_store =
  fixes inv :: "'s \<Rightarrow> bool"
    and room :: "'s \<Rightarrow> bool"
    and issued :: "'h \<Rightarrow> bool"
    and lookup_of :: "'s \<Rightarrow> 'h \<Rightarrow> 'a option"
    and ins :: "'a \<Rightarrow> 's \<Rightarrow> 's \<times> 'h"
    and del :: "'h \<Rightarrow> 's \<Rightarrow> 's"
  assumes ins_inv: "inv s \<Longrightarrow> room s \<Longrightarrow> inv (fst (ins v s))"
    and ins_issued: "inv s \<Longrightarrow> room s \<Longrightarrow> issued (snd (ins v s))"
    and ins_fresh: "inv s \<Longrightarrow> room s \<Longrightarrow> lookup_of s (snd (ins v s)) = None"
    and ins_lookup: "inv s \<Longrightarrow> room s \<Longrightarrow> issued h \<Longrightarrow>
      lookup_of (fst (ins v s)) h = (if h = snd (ins v s) then Some v else lookup_of s h)"
    and del_inv: "inv s \<Longrightarrow> issued h \<Longrightarrow> inv (del h s)"
    and del_lookup: "inv s \<Longrightarrow> issued h \<Longrightarrow> issued h' \<Longrightarrow>
      lookup_of (del h s) h' = (if h' = h then None else lookup_of s h')"
begin

text \<open>Client facts: the abstract map of a store changes exactly at the handle named.\<close>

definition view :: "'s \<Rightarrow> 'h \<Rightarrow> 'a option" where
  "view s h = (if issued h then lookup_of s h else None)"

lemma view_ins: "inv s \<Longrightarrow> room s \<Longrightarrow> view (fst (ins v s)) = (view s)(snd (ins v s) \<mapsto> v)"
  by (rule ext) (simp add: view_def ins_lookup ins_issued)

lemma view_del: "inv s \<Longrightarrow> issued h \<Longrightarrow> view (del h s) = (view s)(h := None)"
  by (rule ext) (simp add: view_def del_lookup)

lemma ins_distinct:
  assumes "inv s" "room s" "view s h = Some w"
  shows "snd (ins v s) \<noteq> h"
  using assms ins_fresh by (auto simp: view_def split: if_splits)

lemma del_ins: "inv s \<Longrightarrow> room s \<Longrightarrow> view (del (snd (ins v s)) (fst (ins v s))) = view s"
  using ins_fresh [of s v] by (auto simp: view_del view_ins ins_inv ins_issued view_def)

end

section \<open>The invariant\<close>

text \<open>\<open>chain es head fl\<close>: following \<open>next_free\<close> from the biased index \<open>head\<close> visits the slots \<open>fl\<close>.\<close>

fun chain :: "'a entry list \<Rightarrow> 32 word \<Rightarrow> nat list \<Rightarrow> bool" where
  "chain es head [] \<longleftrightarrow> head = 0"
| "chain es head (i # is) \<longleftrightarrow>
     head \<noteq> 0 \<and> i = unat (head - 1) \<and> i < length es \<and> chain es (next_free (es ! i)) is"

definition free_slots :: "'a entry list \<Rightarrow> nat set" where
  "free_slots es = {i. i < length es \<and> \<not> is_live (generation (es ! i))}"

definition live_slots :: "'a entry list \<Rightarrow> nat set" where
  "live_slots es = {i. i < length es \<and> is_live (generation (es ! i))}"

definition entry_ok :: "'a entry \<Rightarrow> bool" where
  "entry_ok e \<longleftrightarrow> (storage e \<noteq> None \<longleftrightarrow> is_live (generation e))"

definition slab_inv :: "'a slab \<Rightarrow> bool" where
  "slab_inv s \<longleftrightarrow>
     length (slots s) < 2 ^ 32 \<and> list_all entry_ok (slots s)
     \<and> (\<exists>fl. distinct fl \<and> set fl = free_slots (slots s) \<and> chain (slots s) (free_head s) fl)
     \<and> live s = card (live_slots (slots s))"

text \<open>Room for one more object: a free slot, or fewer than \<open>2 ^ 32 - 1\<close> slots.\<close>

definition slab_room :: "'a slab \<Rightarrow> bool" where
  "slab_room s \<longleftrightarrow> free_head s \<noteq> 0 \<or> length (slots s) < 2 ^ 32 - 1"

lemma is_live_odd: "is_live g \<longleftrightarrow> odd g"
  by (simp add: is_live_def and_one_eq flip: even_iff_mod_2_eq_zero)

lemma is_live_succ [simp]: "is_live (g + 1) \<longleftrightarrow> \<not> is_live g"
  by (simp add: is_live_odd)

lemma succ_nonzero: "unat (x :: 32 word) < 2 ^ 32 - 1 \<Longrightarrow> x + 1 \<noteq> 0"
proof
  assume x: "unat x < 2 ^ 32 - 1" and "x + 1 = 0"
  then have "x = - 1"
    by (simp add: eq_neg_iff_add_eq_0)
  then have "unat x = 2 ^ 32 - 1"
    by (simp add: unsigned_minus_1_eq_mask mask_eq_exp_minus_1)
  with x show False by simp
qed

lemma chain_frame: "chain es head fl \<Longrightarrow> i \<notin> set fl \<Longrightarrow> chain (es[i := e]) head fl"
  by (induction es head fl rule: chain.induct) auto

lemma chain_append: "chain es head fl \<Longrightarrow> chain (es @ es') head fl"
  by (induction es head fl rule: chain.induct) (auto simp: nth_append)

lemma free_slots_update:
  assumes "i < length es"
  shows "free_slots (es[i := e])
    = (if is_live (generation e) then free_slots es - {i} else insert i (free_slots es))"
  using assms by (auto simp: free_slots_def nth_list_update split: if_splits)

lemma live_slots_update:
  assumes "i < length es"
  shows "live_slots (es[i := e])
    = (if is_live (generation e) then insert i (live_slots es) else live_slots es - {i})"
  using assms by (auto simp: live_slots_def nth_list_update split: if_splits)

lemma finite_live_slots [simp]: "finite (live_slots es)"
  by (simp add: live_slots_def)

lemma list_all_update: "list_all P xs \<Longrightarrow> P x \<Longrightarrow> list_all P (xs[i := x])"
  by (auto simp: list_all_iff dest: set_update_subset_insert [THEN subsetD])

lemma slab_empty_inv: "slab_inv (slab_empty :: 'a slab)"
proof -
  have "distinct [] \<and> set [] = free_slots ([] :: 'a entry list) \<and> chain ([] :: 'a entry list) 0 []"
    by (simp add: free_slots_def)
  then have "\<exists>fl. distinct fl \<and> set fl = free_slots ([] :: 'a entry list)
      \<and> chain ([] :: 'a entry list) 0 fl"
    by blast
  then show ?thesis
    by (simp add: slab_inv_def slab_empty_def live_slots_def)
qed

section \<open>Taking a slot\<close>

text \<open>The state between taking the slot \<open>i\<close> and filling it: \<open>i\<close> is free but on no list.\<close>

definition slot_taken :: "'a slab \<Rightarrow> nat \<Rightarrow> bool" where
  "slot_taken s i \<longleftrightarrow>
     length (slots s) < 2 ^ 32 \<and> list_all entry_ok (slots s) \<and> i \<in> free_slots (slots s)
     \<and> (\<exists>fl. distinct fl \<and> set fl = free_slots (slots s) - {i} \<and> chain (slots s) (free_head s) fl)
     \<and> live s = card (live_slots (slots s))"

lemma take_slot_taken:
  assumes inv: "slab_inv s" and room: "slab_room s" and t: "take_slot s = (s1, slot)"
  shows "slot_taken s1 (unat slot)" and "\<And>h. is_live (h_generation h) \<Longrightarrow> slab_get s1 h = slab_get s h"
    and "length (slots s) \<le> length (slots s1)"
    and "\<And>i. i < length (slots s) \<Longrightarrow> slots s1 ! i = slots s ! i"
proof -
  from inv obtain fl where fl: "distinct fl" "set fl = free_slots (slots s)"
    "chain (slots s) (free_head s) fl"
    by (auto simp: slab_inv_def)
  show "slot_taken s1 (unat slot)"
  proof (cases "free_head s = 0")
    case True
    then have "fl = []" using fl(3) by (cases fl) auto
    then have none: "free_slots (slots s) = {}" using fl(2) by simp
    let ?new = "\<lparr>generation = 0, next_free = 0, storage = None\<rparr> :: 'a entry"
    have len: "length (slots s) < 2 ^ 32 - 1"
      using room True by (simp add: slab_room_def)
    then have slot: "unat slot = length (slots s)"
      using t True by (auto simp: take_slot_def unat_of_nat take_bit_nat_eq_self)
    have "free_slots (slots s @ [?new]) = {length (slots s)}"
      using none by (auto simp: free_slots_def nth_append is_live_def less_Suc_eq)
    moreover have "live_slots (slots s @ [?new]) = live_slots (slots s)"
      by (auto simp: live_slots_def nth_append is_live_def less_Suc_eq)
    moreover have "entry_ok ?new" by (simp add: entry_ok_def is_live_def)
    ultimately show ?thesis
      using t True len inv slot
      by (auto simp: take_slot_def slot_taken_def slab_inv_def intro!: exI [of _ "[]"])
  next
    case False
    then obtain i rest where i: "fl = i # rest" using fl(3) by (cases fl) auto
    then have "unat slot = i" "s1 = s\<lparr>free_head := next_free (slots s ! i)\<rparr>"
      using t False fl(3) by (auto simp: take_slot_def Let_def)
    then show ?thesis
      using inv fl i by (auto simp: slot_taken_def slab_inv_def intro!: exI [of _ rest])
  qed
  show "length (slots s) \<le> length (slots s1)" "\<And>i. i < length (slots s) \<Longrightarrow> slots s1 ! i = slots s ! i"
    using t by (auto simp: take_slot_def Let_def nth_append split: if_splits)
  show "slab_get s1 h = slab_get s h" if "is_live (h_generation h)" for h
    using t that by (auto simp: take_slot_def Let_def slab_get_def nth_append is_live_def
        less_Suc_eq handle_bool_def split: if_splits)
qed

section \<open>Preservation and lookups\<close>

lemma slab_insert_inv:
  assumes "slab_inv s" "slab_room s" "slab_insert ctor s = (s', r)"
  shows "slab_inv s'"
proof -
  obtain s1 slot where t: "take_slot s = (s1, slot)" by fastforce
  let ?i = "unat slot"
  have tk: "slot_taken s1 ?i" by (rule take_slot_taken(1) [OF assms(1,2) t])
  then have i: "?i < length (slots s1)" "\<not> is_live (generation (slots s1 ! ?i))"
    by (auto simp: slot_taken_def free_slots_def)
  from tk have ok: "entry_ok (slots s1 ! ?i)"
    using i by (auto simp: slot_taken_def list_all_length)
  from tk obtain fl where fl: "distinct fl" "set fl = free_slots (slots s1) - {?i}"
    "chain (slots s1) (free_head s1) fl"
    by (auto simp: slot_taken_def)
  have nofl: "?i \<notin> set fl" using fl by simp
  show ?thesis
  proof (cases ctor)
    case None
    let ?e = "(slots s1 ! ?i)\<lparr>next_free := free_head s1\<rparr>"
    have s': "s' = s1\<lparr>slots := (slots s1)[?i := ?e], free_head := slot + 1\<rparr>"
      using assms(3) t None by (simp add: slab_insert_def Let_def)
    have "slot + 1 \<noteq> 0"
      using i tk by (intro succ_nonzero) (simp add: slot_taken_def)
    then have "chain ((slots s1)[?i := ?e]) (slot + 1) (?i # fl)"
      using i fl(3) nofl by (simp add: chain_frame)
    moreover have "live_slots ((slots s1)[?i := ?e]) = live_slots (slots s1)"
      using i by (simp add: live_slots_update) (simp add: live_slots_def)
    moreover have "free_slots ((slots s1)[?i := ?e]) = free_slots (slots s1)"
      using i by (simp add: free_slots_update) (auto simp: free_slots_def)
    ultimately show ?thesis
      using tk i fl nofl ok
      by (auto simp: slab_inv_def s' slot_taken_def entry_ok_def list_all_update
          intro!: exI [of _ "?i # fl"])
  next
    case (Some v)
    let ?e = "(slots s1 ! ?i)\<lparr>generation := generation (slots s1 ! ?i) + 1, storage := Some v\<rparr>"
    have s': "s' = s1\<lparr>slots := (slots s1)[?i := ?e], live := live s1 + 1\<rparr>"
      using assms(3) t Some by (simp add: slab_insert_def Let_def)
    have "chain ((slots s1)[?i := ?e]) (free_head s1) fl"
      using fl(3) nofl by (simp add: chain_frame)
    moreover have "live_slots ((slots s1)[?i := ?e]) = insert ?i (live_slots (slots s1))"
      "?i \<notin> live_slots (slots s1)"
      using i by (simp_all add: live_slots_update) (simp add: live_slots_def)
    moreover have "free_slots ((slots s1)[?i := ?e]) = free_slots (slots s1) - {?i}"
      using i by (auto simp: free_slots_update)
    ultimately show ?thesis
      using tk i fl
      by (auto simp: slab_inv_def s' slot_taken_def entry_ok_def list_all_update intro!: exI [of _ fl])
  qed
qed

lemma slab_insert_get:
  assumes "slab_inv s" "slab_room s" "slab_insert ctor s = (s', r)" "is_live (h_generation h)"
  shows "slab_get s' h =
    (case (ctor, r) of (Some v, Some new) \<Rightarrow> if h = new then Live v else slab_get s h
                     | _ \<Rightarrow> slab_get s h)"
    and "ctor = None \<longleftrightarrow> r = None" and "r = Some new \<Longrightarrow> is_live (h_generation new) \<and> slab_get s new = Null"
proof -
  obtain s1 slot where t: "take_slot s = (s1, slot)" by fastforce
  note tk = take_slot_taken [OF assms(1,2) t]
  then have i: "unat slot < length (slots s1)" "\<not> is_live (generation (slots s1 ! unat slot))"
    by (auto simp: slot_taken_def free_slots_def)
  have eq: "slab_get s1 h' = Null" if "h_slot h' = slot" "is_live (h_generation h')" for h'
    using that i by (auto simp: slab_get_def Let_def)
  show "slab_get s' h = (case (ctor, r) of
      (Some v, Some new) \<Rightarrow> if h = new then Live v else slab_get s h | _ \<Rightarrow> slab_get s h)"
  proof (cases "h_slot h = slot")
    case True
    have null: "slab_get s h = Null"
      using eq [OF True assms(4)] tk(2) [OF assms(4)] by simp
    show ?thesis
    proof (cases ctor)
      case None
      with assms(3) t have "generation (slots s' ! unat slot) = generation (slots s1 ! unat slot)"
        using i by (auto simp: slab_insert_def Let_def)
      then have "generation (slots s' ! unat slot) \<noteq> h_generation h"
        using i assms(4) by auto
      with None null True show ?thesis by (simp add: slab_get_def Let_def)
    next
      case (Some v)
      with assms(3) t have r: "r = Some \<lparr>h_slot = slot, h_generation = generation (slots s1 ! unat slot) + 1\<rparr>"
        and e: "slots s' ! unat slot = (slots s1 ! unat slot)
          \<lparr>generation := generation (slots s1 ! unat slot) + 1, storage := Some v\<rparr>"
        and len: "length (slots s') = length (slots s1)"
        using i by (auto simp: slab_insert_def Let_def)
      have "handle_bool h"
        using assms(4) by (auto simp: handle_bool_def is_live_def)
      moreover have "r = Some h \<longleftrightarrow> h_generation h = generation (slots s1 ! unat slot) + 1"
      proof
        assume "r = Some h"
        then show "h_generation h = generation (slots s1 ! unat slot) + 1"
          using r by (metis handle.select_convs(2) option.inject)
      next
        assume "h_generation h = generation (slots s1 ! unat slot) + 1"
        then show "r = Some h"
          using r True by (auto intro: handle.equality)
      qed
      ultimately show ?thesis
        using Some r null True i e len by (auto simp: slab_get_def Let_def)
    qed
  next
    case False
    then have "unat (h_slot h) \<noteq> unat slot" by (simp add: word_unat_eq_iff)
    then have "length (slots s') = length (slots s1)"
      "slots s' ! unat (h_slot h) = slots s1 ! unat (h_slot h)"
      using assms(3) t by (auto simp: slab_insert_def Let_def split: option.splits)
    then have "slab_get s' h = slab_get s1 h"
      by (simp add: slab_get_def)
    moreover have "r \<noteq> Some h"
      using assms(3) t False by (auto simp: slab_insert_def Let_def split: option.splits)
    ultimately show ?thesis
      using tk(2) [OF assms(4)] by (auto split: option.splits)
  qed
  show "ctor = None \<longleftrightarrow> r = None"
    using assms(3) t by (auto simp: slab_insert_def Let_def split: option.splits)
  assume "r = Some new"
  then have "h_slot new = slot" "is_live (h_generation new)"
    using assms(3) t i by (auto simp: slab_insert_def Let_def split: option.splits)
  then show "is_live (h_generation new) \<and> slab_get s new = Null"
    using eq tk(2) by simp
qed

text \<open>A handle with an odd generation never reads or destroys storage that holds no object.\<close>

lemma slab_inv_entry:
  "slab_inv s \<Longrightarrow> i < length (slots s) \<Longrightarrow>
    storage (slots s ! i) = None \<longleftrightarrow> \<not> is_live (generation (slots s ! i))"
  by (auto simp: slab_inv_def entry_ok_def list_all_length)

lemma slab_get_live:
  assumes "slab_inv s" "is_live (h_generation h)"
  shows "slab_get s h \<noteq> Dangling"
  using assms slab_inv_entry [OF assms(1), of "unat (h_slot h)"]
  by (cases "unat (h_slot h) < length (slots s)")
    (auto simp: slab_get_def Let_def split: option.splits if_splits)

lemma slab_erase_live:
  assumes "slab_inv s" "is_live (h_generation h)"
  shows "slab_erase h s \<noteq> None"
  using assms slab_inv_entry [OF assms(1), of "unat (h_slot h)"]
  by (cases "unat (h_slot h) < length (slots s)") (auto simp: slab_erase_def Let_def split: if_splits)

lemma slab_erase_inv:
  assumes inv: "slab_inv s" and h: "is_live (h_generation h)" and e: "slab_erase h s = Some (s', b)"
  shows "slab_inv s'"
proof (cases b)
  case False
  then show ?thesis
    using e inv by (auto simp: slab_erase_def Let_def split: if_splits)
next
  case True
  let ?i = "unat (h_slot h)"
  let ?e = "\<lparr>generation = h_generation h + 1, next_free = free_head s, storage = None\<rparr>"
  from True e have i: "?i < length (slots s)" "generation (slots s ! ?i) = h_generation h"
    and s': "s' = s\<lparr>slots := (slots s)[?i := ?e], free_head := h_slot h + 1, live := live s - 1\<rparr>"
    by (auto simp: slab_erase_def Let_def split: if_splits)
  from inv obtain fl where fl: "distinct fl" "set fl = free_slots (slots s)"
    "chain (slots s) (free_head s) fl"
    by (auto simp: slab_inv_def)
  have nofl: "?i \<notin> set fl" using fl i h by (simp add: free_slots_def)
  have "h_slot h + 1 \<noteq> 0"
    using i inv by (intro succ_nonzero) (simp add: slab_inv_def)
  then have "chain ((slots s)[?i := ?e]) (h_slot h + 1) (?i # fl)"
    using i fl(3) nofl by (simp add: chain_frame)
  moreover have "free_slots ((slots s)[?i := ?e]) = insert ?i (free_slots (slots s))"
    using i h by (simp add: free_slots_update)
  moreover have "live_slots ((slots s)[?i := ?e]) = live_slots (slots s) - {?i}"
    "?i \<in> live_slots (slots s)"
    using i h by (simp_all add: live_slots_update) (simp add: live_slots_def)
  ultimately show ?thesis
    using inv fl nofl h
    by (auto simp: slab_inv_def s' entry_ok_def list_all_update intro!: exI [of _ "?i # fl"])
qed

lemma slab_erase_get:
  assumes "slab_inv s" "is_live (h_generation h)" "slab_erase h s = Some (s', b)"
    "is_live (h_generation h')"
  shows "slab_get s' h' = (if h' = h then Null else slab_get s h')"
    and "b \<longleftrightarrow> slab_get s h \<noteq> Null"
proof -
  show "b \<longleftrightarrow> slab_get s h \<noteq> Null"
    using assms(3) by (auto simp: slab_erase_def slab_get_def Let_def split: if_splits option.splits)
  show "slab_get s' h' = (if h' = h then Null else slab_get s h')"
  proof (cases "h_slot h' = h_slot h")
    case True
    have "h_generation h + 1 \<noteq> h_generation h'"
      using assms(2,4) is_live_succ [of "h_generation h"] by metis
    with True show ?thesis
      using assms(3,4) by (auto simp: slab_erase_def slab_get_def Let_def split: if_splits option.splits)
  next
    case False
    then have "unat (h_slot h') \<noteq> unat (h_slot h)" by (simp add: word_unat_eq_iff)
    with False show ?thesis
      using assms(3) by (auto simp: slab_erase_def slab_get_def Let_def split: if_splits)
  qed
qed

section \<open>The slab is a handle store\<close>

definition slab_lookup :: "'a slab \<Rightarrow> handle \<Rightarrow> 'a option" where
  "slab_lookup s h = (case slab_get s h of Live v \<Rightarrow> Some v | _ \<Rightarrow> None)"

definition slab_ins :: "'a \<Rightarrow> 'a slab \<Rightarrow> 'a slab \<times> handle" where
  "slab_ins v s = (case slab_insert (Some v) s of (s', r) \<Rightarrow> (s', the r))"

definition slab_del :: "handle \<Rightarrow> 'a slab \<Rightarrow> 'a slab" where
  "slab_del h s = fst (the (slab_erase h s))"

definition handle_issued :: "handle \<Rightarrow> bool" where
  "handle_issued h \<longleftrightarrow> is_live (h_generation h)"

lemma slab_ins_cases:
  assumes "slab_inv s" "slab_room s"
  obtains s' new where "slab_insert (Some v) s = (s', Some new)" "slab_ins v s = (s', new)"
proof -
  obtain s' r where "slab_insert (Some v) s = (s', r)" by fastforce
  with slab_insert_get(2) [OF assms this, of "\<lparr>h_slot = 0, h_generation = 1\<rparr>"] show thesis
    by (cases r) (auto simp: slab_ins_def is_live_def intro: that)
qed

interpretation slab_store: handle_store slab_inv slab_room handle_issued slab_lookup slab_ins slab_del
proof (unfold_locales, goal_cases)
  case (1 s v)
  then obtain s' new where n: "slab_insert (Some v) s = (s', Some new)" "slab_ins v s = (s', new)"
    by (rule slab_ins_cases)
  then show ?case using slab_insert_inv [OF 1 n(1)] by simp
next
  case (2 s v)
  then obtain s' new where n: "slab_insert (Some v) s = (s', Some new)" "slab_ins v s = (s', new)"
    by (rule slab_ins_cases)
  have "is_live (1 :: 32 word)" by (simp add: is_live_def)
  then show ?case
    using slab_insert_get(3) [OF 2 n(1), of "\<lparr>h_slot = 0, h_generation = 1\<rparr>" new] n(2)
    by (simp add: handle_issued_def)
next
  case (3 s v)
  then obtain s' new where n: "slab_insert (Some v) s = (s', Some new)" "slab_ins v s = (s', new)"
    by (rule slab_ins_cases)
  have "is_live (1 :: 32 word)" by (simp add: is_live_def)
  then show ?case
    using slab_insert_get(3) [OF 3 n(1), of "\<lparr>h_slot = 0, h_generation = 1\<rparr>" new] n(2)
    by (simp add: slab_lookup_def)
next
  case (4 s h v)
  then obtain s' new where n: "slab_insert (Some v) s = (s', Some new)" "slab_ins v s = (s', new)"
    by (metis slab_ins_cases)
  then show ?case
    using slab_insert_get(1) [OF 4(1,2) n(1), of h] 4(3)
    by (simp add: slab_lookup_def handle_issued_def)
next
  case (5 s h)
  then obtain s' b where "slab_erase h s = Some (s', b)"
    using slab_erase_live [of s h] by (auto simp: handle_issued_def)
  with 5 show ?case
    using slab_erase_inv [of s h s' b] by (simp add: slab_del_def handle_issued_def)
next
  case (6 s h h')
  then obtain s' b where "slab_erase h s = Some (s', b)"
    using slab_erase_live [of s h] by (auto simp: handle_issued_def)
  with 6 show ?case
    using slab_erase_get(1) [of s h s' b h'] by (simp add: slab_del_def slab_lookup_def handle_issued_def)
qed

section \<open>Stale handles\<close>

text \<open>A run of slab operations; the run stops at a destruction of storage without an object.\<close>

datatype 'a slab_op = Insert "'a option" | Erase handle

fun slab_run :: "'a slab \<Rightarrow> 'a slab_op list \<Rightarrow> 'a slab option" where
  "slab_run s [] = Some s"
| "slab_run s (Insert ctor # ops) = slab_run (fst (slab_insert ctor s)) ops"
| "slab_run s (Erase h # ops) =
     (case slab_erase h s of None \<Rightarrow> None | Some (s', b) \<Rightarrow> slab_run s' ops)"

lemma take_slot_frame:
  assumes "take_slot s = (s1, slot)" "i < length (slots s)"
  shows "i < length (slots s1)" "generation (slots s1 ! i) = generation (slots s ! i)"
  using assms by (auto simp: take_slot_def Let_def nth_append split: if_splits)

text \<open>Each operation leaves the generation of a slot or advances it by one.\<close>

lemma slab_insert_generation:
  assumes "i < length (slots s)"
  shows "i < length (slots (fst (slab_insert ctor s))) \<and>
    (\<exists>k. k \<le> 1 \<and> generation (slots (fst (slab_insert ctor s)) ! i) = generation (slots s ! i) + of_nat k)"
proof -
  obtain s1 slot where t: "take_slot s = (s1, slot)" by fastforce
  note fr = take_slot_frame [OF t assms]
  show ?thesis
    using fr t by (cases ctor; cases "i = unat slot")
      (auto simp: slab_insert_def Let_def intro: exI [of _ 0] exI [of _ 1])
qed

lemma slab_erase_generation:
  assumes "i < length (slots s)" "slab_erase h s = Some (s', b)"
  shows "i < length (slots s') \<and>
    (\<exists>k. k \<le> 1 \<and> generation (slots s' ! i) = generation (slots s ! i) + of_nat k)"
  using assms by (cases "i = unat (h_slot h)")
    (auto simp: slab_erase_def Let_def intro: exI [of _ 0] exI [of _ 1] split: if_splits)

lemma slab_run_generation:
  assumes "slab_run s ops = Some s'" "i < length (slots s)"
  shows "i < length (slots s') \<and>
    (\<exists>k. k \<le> length ops \<and> generation (slots s' ! i) = generation (slots s ! i) + of_nat k)"
  using assms
proof (induction s ops rule: slab_run.induct)
  case (1 s)
  then show ?case by (auto intro: exI [of _ 0])
next
  case (2 s ctor ops)
  from slab_insert_generation [OF "2.prems"(2), of ctor] obtain k where
    k: "i < length (slots (fst (slab_insert ctor s)))" "k \<le> 1"
    "generation (slots (fst (slab_insert ctor s)) ! i) = generation (slots s ! i) + of_nat k"
    by blast
  from "2.IH" [OF _ k(1)] "2.prems"(1) obtain k' where "i < length (slots s')" "k' \<le> length ops"
    "generation (slots s' ! i) = generation (slots s ! i) + of_nat (k + k')"
    using k(3) by (auto simp: add.assoc)
  with k(2) show ?case by (intro conjI exI [of _ "k + k'"]) auto
next
  case (3 s h ops)
  then obtain s1 b where e: "slab_erase h s = Some (s1, b)" and r: "slab_run s1 ops = Some s'"
    by (auto split: option.splits)
  from slab_erase_generation [OF "3.prems"(2) e] obtain k where
    k: "i < length (slots s1)" "k \<le> 1" "generation (slots s1 ! i) = generation (slots s ! i) + of_nat k"
    by blast
  from "3.IH" [OF e _ r k(1)] obtain k' where "i < length (slots s')" "k' \<le> length ops"
    "generation (slots s' ! i) = generation (slots s ! i) + of_nat (k + k')"
    using k(3) by (auto simp: add.assoc)
  with k(2) show ?case by (intro conjI exI [of _ "k + k'"]) auto
qed

section \<open>What the slab guarantees\<close>

text \<open>The abstract map of a slab, over the handles \<open>insert\<close> can issue.\<close>

definition slab_view :: "'a slab \<Rightarrow> handle \<Rightarrow> 'a option" where
  "slab_view s h = (if handle_issued h then slab_lookup s h else None)"

lemma slab_view_store: "slab_view s = slab_store.view s"
  by (rule ext) (simp add: slab_view_def slab_store.view_def)

text \<open>Operations a client may run: insertions with room, erasures of issued handles.\<close>

fun slab_ops_ok :: "'a slab \<Rightarrow> 'a slab_op list \<Rightarrow> bool" where
  "slab_ops_ok s [] = True"
| "slab_ops_ok s (Insert ctor # ops) = (slab_room s \<and> slab_ops_ok (fst (slab_insert ctor s)) ops)"
| "slab_ops_ok s (Erase h # ops) =
     (handle_issued h \<and>
      (case slab_erase h s of None \<Rightarrow> True | Some (s', b) \<Rightarrow> slab_ops_ok s' ops))"

text \<open>
  C4: Every sequence of insertions (successful or throwing) and erasures of issued handles, from a
  slab that satisfies the invariant, runs to the end without destroying storage that holds no
  object, and keeps the invariant: the free list is exactly the even-generation slots, storage is
  constructed exactly in the odd-generation slots, and the live count counts them.
\<close>

theorem slab_run_safe:
  assumes "slab_inv s" and "slab_ops_ok s ops"
  shows "\<exists>s'. slab_run s ops = Some s' \<and> slab_inv s'"
  using assms
proof (induction s ops rule: slab_run.induct)
  case (2 s ctor ops)
  obtain s' r where i: "slab_insert ctor s = (s', r)" by fastforce
  with 2 have "slab_inv s'" by (auto intro: slab_insert_inv)
  with 2 i show ?case by simp
next
  case (3 s h ops)
  then have h: "is_live (h_generation h)" by (simp add: handle_issued_def)
  then obtain s' b where e: "slab_erase h s = Some (s', b)"
    using slab_erase_live 3 by fastforce
  with 3 h have "slab_inv s'" by (auto intro: slab_erase_inv)
  with 3 e show ?case by simp
qed simp

theorem slab_run_safe_witness:
  "\<exists>s'. slab_run slab_empty
      [Insert (Some (5::nat)), Insert None, Erase \<lparr>h_slot = 0, h_generation = 1\<rparr>, Insert (Some 7)]
    = Some s' \<and> slab_inv s'"
  by (rule slab_run_safe [OF slab_empty_inv])
    (simp add: slab_room_def slab_insert_def slab_erase_def take_slot_def slab_empty_def Let_def
      handle_issued_def is_live_def handle_bool_def)

lemma slab_get_view:
  "slab_inv s \<Longrightarrow> handle_issued h \<Longrightarrow> slab_get s h = (case slab_view s h of None \<Rightarrow> Null | Some v \<Rightarrow> Live v)"
  using slab_get_live [of s h]
  by (cases "slab_get s h") (simp_all add: slab_view_def slab_lookup_def handle_issued_def)

text \<open>
  C10: A slab implements a finite map from handles to objects: an insertion adds exactly one
  binding, under a handle that had none, and an erasure removes exactly the binding of its handle.
  Before and after both, the invariant holds, and what \<^verbatim>\<open>get\<close> answers for any handle that \<^verbatim>\<open>insert\<close>
  can issue is the object the map has there, or null; never storage without an object.
\<close>

theorem slab_refines_map:
  assumes "slab_inv s" and "slab_room s" and "handle_issued h" and "handle_issued k"
  shows "slab_inv (fst (slab_ins v s)) \<and> slab_inv (slab_del h s)
    \<and> handle_issued (snd (slab_ins v s)) \<and> slab_get s (snd (slab_ins v s)) = Null
    \<and> slab_view (fst (slab_ins v s)) = (slab_view s)(snd (slab_ins v s) \<mapsto> v)
    \<and> slab_view (slab_del h s) = (slab_view s)(h := None)
    \<and> slab_get s k = (case slab_view s k of None \<Rightarrow> Null | Some w \<Rightarrow> Live w)
    \<and> slab_get (fst (slab_ins v s)) k = (if k = snd (slab_ins v s) then Live v else slab_get s k)
    \<and> slab_get (slab_del h s) k = (if k = h then Null else slab_get s k)"
proof -
  note inv = slab_store.ins_inv [OF assms(1,2), of v] slab_store.del_inv [OF assms(1,3)]
  note new = slab_store.ins_issued [OF assms(1,2), of v]
  have views: "slab_view (fst (slab_ins v s)) = (slab_view s)(snd (slab_ins v s) \<mapsto> v)"
    "slab_view (slab_del h s) = (slab_view s)(h := None)" "slab_view s (snd (slab_ins v s)) = None"
    using assms slab_store.ins_fresh [of s v] slab_store.view_ins [of s v] slab_store.view_del [of s h]
    by (simp_all add: slab_view_store slab_store.view_def)
  have gets: "slab_get s (snd (slab_ins v s)) = Null"
    "slab_get (fst (slab_ins v s)) k = (if k = snd (slab_ins v s) then Live v else slab_get s k)"
    "slab_get (slab_del h s) k = (if k = h then Null else slab_get s k)"
    using slab_get_view [OF assms(1) new] slab_get_view [OF inv(1) assms(4)] slab_get_view [OF inv(2) assms(4)]
    by (simp_all add: views slab_get_view [OF assms(1,4)])
  show ?thesis
    by (intro conjI inv new views(1,2) gets slab_get_view [OF assms(1,4)])
qed

theorem slab_refines_map_witness:
  "slab_get (fst (slab_ins (5::nat) slab_empty)) (snd (slab_ins (5::nat) slab_empty)) = Live 5
    \<and> slab_view (fst (slab_ins (5::nat) slab_empty))
      = (slab_view slab_empty)(snd (slab_ins (5::nat) slab_empty) \<mapsto> 5)"
proof -
  have "slab_room (slab_empty :: nat slab)" "handle_issued \<lparr>h_slot = 0, h_generation = 1\<rparr>"
    "handle_issued (snd (slab_ins (5::nat) slab_empty))"
    by (simp_all add: slab_room_def slab_empty_def handle_issued_def is_live_def slab_ins_def slab_insert_def
        take_slot_def)
  note room = this
  show ?thesis
    using slab_refines_map [OF slab_empty_inv room, of "5::nat"] by (elim conjE) simp
qed

text \<open>
  C16: A handle whose object was erased resolves to null after any further operations, fewer than
  \<open>2 ^ 32 - 1\<close> of them: its slot may be reused, but the generation of the slot differs.
\<close>

theorem slab_stale_handle:
  assumes "slab_erase h s = Some (s1, True)" and "length ops < 2 ^ 32 - 1"
    and "slab_run s1 ops = Some s2"
  shows "slab_get s2 h = Null"
proof -
  let ?i = "unat (h_slot h)"
  from assms(1) have i: "?i < length (slots s1)" and g: "generation (slots s1 ! ?i) = h_generation h + 1"
    by (auto simp: slab_erase_def Let_def split: if_splits)
  from slab_run_generation [OF assms(3) i] g obtain k where k: "k \<le> length ops"
    "generation (slots s2 ! ?i) = h_generation h + of_nat (Suc k)"
    by (auto simp: add.assoc)
  have "of_nat (Suc k) \<noteq> (0 :: 32 word)"
  proof
    assume "of_nat (Suc k) = (0 :: 32 word)"
    then have "2 ^ 32 dvd Suc k"
      by (simp only: word_of_nat_eq_0_iff) simp
    then have "2 ^ 32 \<le> Suc k" by (rule dvd_imp_le) simp
    with k(1) assms(2) show False by simp
  qed
  then show ?thesis
    using k(2) by (simp add: slab_get_def Let_def)
qed

theorem slab_stale_handle_witness:
  "\<exists>s1 s2. slab_erase \<lparr>h_slot = 0, h_generation = 1\<rparr> (fst (slab_insert (Some (5::nat)) slab_empty))
      = Some (s1, True) \<and> slab_run s1 [Insert (Some 7)] = Some s2
    \<and> slab_get s2 \<lparr>h_slot = 0, h_generation = 1\<rparr> = Null"
proof -
  let ?h = "\<lparr>h_slot = 0, h_generation = 1\<rparr>"
  let ?s1 = "\<lparr>slots = [\<lparr>generation = 2, next_free = 0, storage = None :: nat option\<rparr>],
    free_head = 1, live = 0\<rparr>"
  have e: "slab_erase ?h (fst (slab_insert (Some (5::nat)) slab_empty)) = Some (?s1, True)"
    by (simp add: slab_erase_def slab_insert_def take_slot_def slab_empty_def handle_bool_def Let_def)
  have r: "slab_run ?s1 [Insert (Some 7)] = Some (fst (slab_insert (Some 7) ?s1))"
    by simp
  have "slab_get (fst (slab_insert (Some 7) ?s1)) ?h = Null"
    by (rule slab_stale_handle [OF e _ r]) simp
  with e r show ?thesis by blast
qed

end
