(* ===== verification/Atoms.thy ===== *)
theory Atoms
  imports Ascii
begin

text \<open>
  Interned strings (\<^verbatim>\<open>core/atom.hpp\<close>, \<^verbatim>\<open>lib/Core/atom.cpp\<close>): a table that gives every text one
  32-bit id. An atom is its id, a \<open>nat\<close> below \<open>2 ^ 32\<close>: the cast of the table's size to 32 bits wraps, so
  the theorems are about tables of at most \<open>2 ^ 32\<close> strings. \<open>intern\<close> takes the table's lock twice, a
  shared one to look the text up and an exclusive one to look again and insert; the second half
  models those critical sections as the steps of any number of interleaved threads.
\<close>

section \<open>The table\<close>

record atom_table =
  storage :: "string list"
  index :: "string \<rightharpoonup> nat"

definition new_table :: atom_table where
  "new_table = \<lparr>storage = [[]], index = [[] \<mapsto> 0]\<rparr>"

text \<open>The critical section under the shared lock, and the one under the exclusive lock.\<close>

definition intern_read :: "atom_table \<Rightarrow> string \<Rightarrow> nat option" where
  "intern_read t s = index t s"

definition intern_write :: "atom_table \<Rightarrow> string \<Rightarrow> atom_table \<times> nat" where
  "intern_write t s =
     (case index t s of
        Some a \<Rightarrow> (t, a)
      | None \<Rightarrow>
          let a = length (storage t) mod 2 ^ 32
          in (t\<lparr>storage := storage t @ [s], index := (index t)(s \<mapsto> a)\<rparr>, a))"

definition intern :: "atom_table \<Rightarrow> string \<Rightarrow> atom_table \<times> nat" where
  "intern t s = (case intern_read t s of Some a \<Rightarrow> (t, a) | None \<Rightarrow> intern_write t s)"

definition intern_lower :: "atom_table \<Rightarrow> string \<Rightarrow> atom_table \<times> nat" where
  "intern_lower t s = intern t (ascii_lower_copy s)"

definition atom_text :: "atom_table \<Rightarrow> nat \<Rightarrow> string" where
  "atom_text t a = (if a < length (storage t) then storage t ! a else [])"

definition table_size :: "atom_table \<Rightarrow> nat" where
  "table_size t = length (storage t)"

section \<open>The interface of an interner\<close>

locale interner =
  fixes inv :: "'t \<Rightarrow> bool"
    and room :: "'t \<Rightarrow> bool"
    and known :: "'t \<Rightarrow> string \<Rightarrow> nat option"
    and name_of :: "'t \<Rightarrow> nat \<Rightarrow> string"
    and add :: "'t \<Rightarrow> string \<Rightarrow> 't \<times> nat"
  assumes add_inv: "inv t \<Longrightarrow> room t \<Longrightarrow> inv (fst (add t s))"
    and add_known: "inv t \<Longrightarrow> known (fst (add t s)) = (known t)(s \<mapsto> snd (add t s))"
    and add_keeps: "inv t \<Longrightarrow> known t s = Some a \<Longrightarrow> snd (add t s) = a"
    and known_name: "inv t \<Longrightarrow> known t s = Some a \<Longrightarrow> name_of t a = s"
begin

lemma known_inj:
  assumes "inv t" "known t s = Some a" "known t s' = Some a"
  shows "s = s'"
  using known_name [OF assms(1,2)] known_name [OF assms(1,3)] by simp

lemma add_mono:
  assumes "inv t" "known t s = Some a"
  shows "known (fst (add t s')) s = Some a"
  using add_known [OF assms(1), of s'] add_keeps [OF assms] assms(2) by auto

lemma name_add: "inv t \<Longrightarrow> room t \<Longrightarrow> name_of (fst (add t s)) (snd (add t s)) = s"
  by (rule known_name [OF add_inv]) (simp_all add: add_known)

lemma name_stable:
  assumes "inv t" "room t" "known t s = Some a"
  shows "name_of (fst (add t s')) a = s"
  by (rule known_name [OF add_inv add_mono]) (use assms in simp_all)

lemma same_atom_iff:
  assumes "inv t" "room t" "room (fst (add t s))"
  shows "snd (add t s) = snd (add (fst (add t s)) s') \<longleftrightarrow> s = s'"
proof
  let ?t = "fst (add t s)"
  have i: "inv ?t" by (rule add_inv [OF assms(1,2)])
  have k: "known ?t s = Some (snd (add t s))" by (simp add: add_known assms)
  show "s = s'" if "snd (add t s) = snd (add ?t s')"
    by (rule known_inj [OF add_inv [OF i assms(3)], of s' s "snd (add t s)" s'])
      (use that k add_mono [OF i k] in \<open>simp_all add: add_known i\<close>)
  show "snd (add t s) = snd (add ?t s')" if "s = s'"
    using that add_keeps [OF i k] by simp
qed

end

section \<open>The invariant\<close>

definition table_room :: "atom_table \<Rightarrow> bool" where
  "table_room t \<longleftrightarrow> table_size t < 2 ^ 32"

definition table_inv :: "atom_table \<Rightarrow> bool" where
  "table_inv t \<longleftrightarrow> storage t \<noteq> [] \<and> storage t ! 0 = [] \<and> distinct (storage t) \<and> table_size t \<le> 2 ^ 32
     \<and> (\<forall>s a. index t s = Some a \<longleftrightarrow> a < length (storage t) \<and> storage t ! a = s)"

lemma new_table_inv: "table_inv new_table"
  by (auto simp: table_inv_def new_table_def table_size_def)

lemma intern_eq_write: "intern t s = intern_write t s"
  by (simp add: intern_def intern_read_def intern_write_def split: option.split)

lemma index_None: "table_inv t \<Longrightarrow> index t s = None \<longleftrightarrow> s \<notin> set (storage t)"
  by (metis in_set_conv_nth not_None_eq table_inv_def)

lemma intern_write_inv:
  assumes t: "table_inv t" and room: "index t s \<noteq> None \<or> table_room t"
  shows "table_inv (fst (intern_write t s))"
proof (cases "index t s")
  case None
  with t have new: "s \<notin> set (storage t)" by (simp add: index_None)
  from None room have "length (storage t) < 2 ^ 32" by (simp add: table_room_def table_size_def)
  then have w: "intern_write t s = (t\<lparr>storage := storage t @ [s], index := (index t)(s \<mapsto> length (storage t))\<rparr>, length (storage t))"
    using None by (simp add: intern_write_def Let_def)
  from \<open>length (storage t) < 2 ^ 32\<close> t None new show ?thesis
    by (auto simp: table_inv_def w table_size_def nth_append less_Suc_eq dest: nth_mem)
qed (use t in \<open>simp add: intern_write_def\<close>)

interpretation atoms: interner table_inv table_room index atom_text intern
proof (unfold_locales, goal_cases)
  case (1 t s)
  then show ?case by (simp add: intern_eq_write intern_write_inv)
next
  case (2 t s)
  then show ?case
    by (auto simp: intern_eq_write intern_write_def Let_def split: option.split)
next
  case (3 t s a)
  then show ?case by (simp add: intern_eq_write intern_write_def)
next
  case (4 t s a)
  then show ?case by (simp add: table_inv_def atom_text_def)
qed

section \<open>Concurrent interning\<close>

text \<open>
  A thread that interns a text is looking it up, waiting to write, or done with an id. A step is
  one thread running one critical section; which one is not determined.
\<close>

datatype phase = Lookup string | Write string | Done string nat

type_synonym threads = "nat \<Rightarrow> phase option"

inductive intern_step :: "atom_table \<times> threads \<Rightarrow> atom_table \<times> threads \<Rightarrow> bool" where
  hit: "ts i = Some (Lookup s) \<Longrightarrow> intern_read t s = Some a
    \<Longrightarrow> intern_step (t, ts) (t, ts(i \<mapsto> Done s a))"
| miss: "ts i = Some (Lookup s) \<Longrightarrow> intern_read t s = None
    \<Longrightarrow> intern_step (t, ts) (t, ts(i \<mapsto> Write s))"
| wrote: "ts i = Some (Write s) \<Longrightarrow> intern_write t s = (t', a)
    \<Longrightarrow> intern_step (t, ts) (t', ts(i \<mapsto> Done s a))"

inductive_cases intern_stepE: "intern_step (t, ts) (t', ts')"

definition starting :: "threads \<Rightarrow> bool" where
  "starting ts \<longleftrightarrow> (\<forall>i p. ts i = Some p \<longrightarrow> (\<exists>s. p = Lookup s))"

text \<open>Every finished thread holds the id the table has for its text.\<close>

definition interned :: "atom_table \<times> threads \<Rightarrow> bool" where
  "interned c \<longleftrightarrow> table_inv (fst c)
     \<and> (\<forall>i s a. snd c i = Some (Done s a) \<longrightarrow> index (fst c) s = Some a)"

lemma write_index:
  assumes "table_inv t" "intern_write t s = (t', a)"
  shows "index t' = (index t)(s \<mapsto> a)" and "index t s' = Some b \<Longrightarrow> index t' s' = Some b"
  using atoms.add_known [OF assms(1), of s] atoms.add_mono [OF assms(1), of s' b s] assms(2)
  by (simp_all add: intern_eq_write)

lemma write_size: "intern_write t s = (t', a) \<Longrightarrow> table_size t \<le> table_size t' \<and> (index t s = None \<longrightarrow> table_size t < table_size t')"
  by (auto simp: intern_write_def table_size_def Let_def split: option.splits)

lemma step_size: "intern_step c c' \<Longrightarrow> table_size (fst c) \<le> table_size (fst c')"
  by (induction rule: intern_step.induct) (use write_size in auto)

lemma intern_step_interned: "intern_step c c' \<Longrightarrow> interned c \<Longrightarrow> table_size (fst c') \<le> 2 ^ 32 \<Longrightarrow> interned c'"
proof (induction rule: intern_step.induct)
  case (wrote ts i s t t' a)
  then have t: "table_inv t" by (simp add: interned_def)
  have le: "table_size t' \<le> 2 ^ 32" using wrote(4) by (simp only: fst_conv)
  have "index t s \<noteq> None \<or> table_room t"
    using write_size [OF wrote(2)] le by (auto simp: table_room_def)
  with t wrote show ?case
    using intern_write_inv [of t s] write_index [of t s t' a]
    by (auto simp: interned_def split: if_splits)
qed (auto simp: interned_def intern_read_def split: if_splits)

lemma intern_steps_interned: "intern_step\<^sup>*\<^sup>* c c' \<Longrightarrow> interned c \<Longrightarrow> table_size (fst c') \<le> 2 ^ 32 \<Longrightarrow> interned c'"
proof (induction rule: rtranclp_induct)
  case (step d e)
  then have "table_size (fst d) \<le> 2 ^ 32" using step_size [OF step(2)] by linarith
  with step have "interned d" by blast
  then show ?case using step(2,5) by (blast intro: intern_step_interned)
qed

text \<open>
  C20: Interning into a table with room for two more texts under 32-bit ids is a bijection between the texts
  interned and their atoms: the text of the atom
  returned is the text given, atoms handed out before keep their texts, and two texts get the same
  atom exactly when they are equal.
\<close>

theorem intern_bijective:
  assumes "table_inv t" and "table_size t + 1 < 2 ^ 32" and "index t old = Some a"
  shows "atom_text (fst (intern t s)) (snd (intern t s)) = s
    \<and> atom_text (fst (intern t s)) a = old
    \<and> (snd (intern t s) = snd (intern (fst (intern t s)) s') \<longleftrightarrow> s = s')"
proof -
  have room: "table_room t" "table_room (fst (intern t s))"
    using assms(2) by (auto simp: table_room_def table_size_def intern_eq_write intern_write_def Let_def split: option.split)
  show ?thesis
    by (intro conjI atoms.name_add atoms.name_stable atoms.same_atom_iff) (use assms room in auto)
qed

theorem intern_bijective_witness:
  "atom_text (fst (intern new_table ''div'')) (snd (intern new_table ''div'')) = ''div''
    \<and> atom_text (fst (intern new_table ''div'')) 0 = []
    \<and> (snd (intern new_table ''div'')
         = snd (intern (fst (intern new_table ''div'')) ''p'') \<longleftrightarrow> ''div'' = ''p'')"
  by (rule intern_bijective [OF new_table_inv]) (simp_all add: new_table_def table_size_def)

text \<open>
  C11: However the critical sections of concurrent \<^verbatim>\<open>intern\<close> calls interleave, as long as the table
  ends with no more than \<open>2 ^ 32\<close> texts, for 32-bit ids, two threads that
  finish hold the same atom exactly when they interned the same text, and the text of a thread's
  atom is the text it interned.
\<close>

theorem concurrent_intern:
  assumes "table_inv t" and "starting ts" and "intern_step\<^sup>*\<^sup>* (t, ts) (t', ts')"
    and "table_size t' \<le> 2 ^ 32" and "ts' i = Some (Done s a)" and "ts' j = Some (Done s' b)"
  shows "(a = b \<longleftrightarrow> s = s') \<and> atom_text t' a = s"
proof -
  from assms(1,2) have "interned (t, ts)"
    by (fastforce simp: interned_def starting_def)
  then have "interned (t', ts')" by (rule intern_steps_interned [OF assms(3)]) (use assms(4) in simp)
  then have t': "table_inv t'" and ij: "index t' s = Some a" "index t' s' = Some b"
    using assms(5,6) by (auto simp: interned_def)
  then show ?thesis
    using atoms.known_inj [OF t'] atoms.known_name [OF t'] by auto
qed

text \<open>Two threads race to intern \<open>''p''\<close>: both miss, both write, and both hold atom 1.\<close>

theorem concurrent_intern_witness:
  "\<exists>t' ts'. intern_step\<^sup>*\<^sup>* (new_table, [0 \<mapsto> Lookup ''p'', 1 \<mapsto> Lookup ''p'']) (t', ts')
    \<and> ts' 0 = Some (Done ''p'' 1) \<and> ts' 1 = Some (Done ''p'' 1) \<and> atom_text t' 1 = ''p''"
proof -
  let ?ts0 = "[0 \<mapsto> Lookup ''p'', 1 \<mapsto> Lookup ''p''] :: threads"
  let ?ts1 = "?ts0(0 \<mapsto> Write ''p'')"
  let ?ts2 = "?ts1(1 \<mapsto> Write ''p'')"
  let ?t = "\<lparr>storage = [[], ''p''], index = [[] \<mapsto> 0, ''p'' \<mapsto> 1]\<rparr>"
  let ?ts3 = "?ts2(0 \<mapsto> Done ''p'' 1)"
  let ?ts4 = "?ts3(1 \<mapsto> Done ''p'' 1)"
  have a: "intern_step (new_table, ?ts0) (new_table, ?ts1)"
    by (rule intern_step.miss) (simp_all add: intern_read_def new_table_def)
  have b: "intern_step (new_table, ?ts1) (new_table, ?ts2)"
    by (rule intern_step.miss) (simp_all add: intern_read_def new_table_def)
  have c: "intern_step (new_table, ?ts2) (?t, ?ts3)"
    by (rule intern_step.wrote) (simp_all add: intern_write_def new_table_def)
  have d: "intern_step (?t, ?ts3) (?t, ?ts4)"
    by (rule intern_step.wrote) (simp_all add: intern_write_def)
  have run: "intern_step\<^sup>*\<^sup>* (new_table, ?ts0) (?t, ?ts4)"
    using a b c d by (meson converse_rtranclp_into_rtranclp rtranclp.rtrancl_refl)
  have "(1::nat) = 1 \<longleftrightarrow> ''p'' = ''p''" "atom_text ?t 1 = ''p''"
    using concurrent_intern [OF new_table_inv _ run, of 0 "''p''" 1 1 "''p''" 1]
    by (auto simp: starting_def table_size_def)
  with run show ?thesis
    by (intro exI [of _ ?t] exI [of _ ?ts4]) simp
qed

end
