(* ===== verification/Base64.thy ===== *)
theory Base64
  imports Ascii
begin

text \<open>
  Base64 (\<^verbatim>\<open>lib/Core/algorithms.cpp\<close>): the encoder, and the decoder with its lenient loop. The
  decoder first offers the text to simdutf's strict decoder, which is the parameter \<open>simd\<close>: it
  answers the bytes or refuses. The source relies on strict decoding agreeing with the lenient loop
  on the texts it accepts, and \<open>simd_agrees\<close> is that hypothesis.
\<close>

section \<open>Sextets\<close>

definition base64_sextet :: "char \<Rightarrow> int" where
  "base64_sextet c =
     (if between (CHR ''A'') c (CHR ''Z'') then int (byte c) - 65
      else if between (CHR ''a'') c (CHR ''z'') then int (byte c) - 97 + 26
      else if between (CHR ''0'') c (CHR ''9'') then int (byte c) - 48 + 52
      else if c = CHR ''+'' then 62
      else if c = CHR ''/'' then 63
      else -1)"

definition base64_alphabet :: "bool \<Rightarrow> string" where
  "base64_alphabet url =
     (if url then ''ABCDEFGHIJKLMNOPQRSTUVWXYZabcdefghijklmnopqrstuvwxyz0123456789-_''
      else ''ABCDEFGHIJKLMNOPQRSTUVWXYZabcdefghijklmnopqrstuvwxyz0123456789+/'')"

section \<open>Encoding\<close>

text \<open>One turn of the loop reads up to three bytes; missing ones count as zero and are written as
  padding, or not at all.\<close>

function base64_loop :: "string \<Rightarrow> bool \<Rightarrow> string \<Rightarrow> string" where
  "base64_loop alphabet omit [] = []"
| "base64_loop alphabet omit (c # cs) =
     (let b0 = byte c;
          b1 = (if 1 \<le> length cs then byte (cs ! 0) else 0);
          b2 = (if 2 \<le> length cs then byte (cs ! 1) else 0);
          triple = push_bit 16 b0 OR push_bit 8 b1 OR b2
      in [alphabet ! (drop_bit 18 triple AND 0x3F), alphabet ! (drop_bit 12 triple AND 0x3F)]
         @ (if 1 \<le> length cs then [alphabet ! (drop_bit 6 triple AND 0x3F)]
            else if \<not> omit then [CHR ''=''] else [])
         @ (if 2 \<le> length cs then [alphabet ! (triple AND 0x3F)]
            else if \<not> omit then [CHR ''=''] else [])
         @ base64_loop alphabet omit (drop 2 cs))"
  by pat_completeness auto
termination
  by (relation "measure (\<lambda>(a, p, s). length s)") auto

definition base64_encode :: "string \<Rightarrow> bool \<Rightarrow> bool \<Rightarrow> string" where
  "base64_encode bytes url omit_padding = base64_loop (base64_alphabet url) omit_padding bytes"

section \<open>Decoding\<close>

text \<open>The bytes of a full group of four sextets, and of a trailing partial one.\<close>

definition group_bytes :: "nat list \<Rightarrow> string" where
  "group_bytes g =
     [chr (push_bit 2 (g ! 0) OR drop_bit 4 (g ! 1)),
      chr (push_bit 4 (g ! 1 AND 0xF) OR drop_bit 2 (g ! 2)),
      chr (push_bit 6 (g ! 2 AND 0x3) OR g ! 3)]"

definition partial_bytes :: "nat list \<Rightarrow> string" where
  "partial_bytes g =
     (if length g \<ge> 2
      then chr (push_bit 2 (g ! 0) OR drop_bit 4 (g ! 1))
           # (if length g = 3 then [chr (push_bit 4 (g ! 1 AND 0xF) OR drop_bit 2 (g ! 2))] else [])
      else [])"

text \<open>The lenient loop; \<open>g\<close> is the part of \<open>group\<close> filled so far.\<close>

fun lenient_loop :: "nat list \<Rightarrow> string \<Rightarrow> string" where
  "lenient_loop g [] = partial_bytes g"
| "lenient_loop g (raw # rest) =
     (let six = base64_sextet raw in
      if six < 0 then lenient_loop g rest
      else if length g + 1 = 4
           then group_bytes (g @ [nat six]) @ lenient_loop [] rest
           else lenient_loop (g @ [nat six]) rest)"

definition base64_decode :: "(string \<Rightarrow> string option) \<Rightarrow> string \<Rightarrow> string" where
  "base64_decode simd s =
     (case (if s \<noteq> [] then simd s else None) of
        Some fast \<Rightarrow> fast
      | None \<Rightarrow> lenient_loop [] s)"

definition simd_agrees :: "(string \<Rightarrow> string option) \<Rightarrow> bool" where
  "simd_agrees simd \<longleftrightarrow> (\<forall>s fast. simd s = Some fast \<longrightarrow> fast = lenient_loop [] s)"

section \<open>Correctness\<close>

lemma sextet_alphabet:
  assumes "k < 64"
  shows "base64_sextet (base64_alphabet False ! k) = int k"
proof -
  have "list_all (\<lambda>k. base64_sextet (base64_alphabet False ! k) = int k) [0..<64]"
    by (simp add: upt_rec base64_sextet_def base64_alphabet_def between_def)
  then show ?thesis
    using assms by (simp add: list_all_iff)
qed

lemma sextet_pad: "base64_sextet (CHR ''='') = -1"
  by (simp add: base64_sextet_def between_def)

lemma triple_eq:
  assumes "b0 < 256" "b1 < 256" "b2 < 256"
  shows "push_bit 16 b0 OR push_bit 8 b1 OR b2 = b0 * 65536 + b1 * 256 + (b2 :: nat)"
proof -
  have "push_bit 8 b1 OR b2 = push_bit 8 b1 + b2"
    using assms by (intro or_shifted) simp
  moreover have "push_bit 8 b1 + b2 < 2 ^ 16"
    using assms by (simp add: shifts)
  ultimately show ?thesis
    by (simp add: or_shifted) (simp add: shifts)
qed

lemma regroup:
  "a = p * 4 + q \<Longrightarrow> b = r * 16 + s \<Longrightarrow> c = u * 64 + v \<Longrightarrow>
     a * 65536 + b * 256 + c = ((p * 64 + (q * 16 + r)) * 64 + (s * 4 + u)) * 64 + v"
  for a b c :: nat
  by simp

text \<open>The four sextets of three bytes, and the bytes the decoder rebuilds from them.\<close>

lemma triple_sextets:
  fixes a b c :: nat
  assumes "a < 256" "b < 256" "c < 256"
  defines "t \<equiv> a * 65536 + b * 256 + c"
  shows "t div 262144 mod 64 = a div 4" and "t div 4096 mod 64 = a mod 4 * 16 + b div 16"
    and "t div 64 mod 64 = b mod 16 * 4 + c div 64" and "t mod 64 = c mod 64"
proof -
  define d1 d2 where "d1 = a mod 4 * 16 + b div 16" and "d2 = b mod 16 * 4 + c div 64"
  have d1: "d1 < 64" and d2: "d2 < 64"
    using assms by (auto simp: d1_def d2_def)
  have "t = ((a div 4 * 64 + d1) * 64 + d2) * 64 + c mod 64"
    using regroup [OF div_mult_mod_eq [of a 4, symmetric] div_mult_mod_eq [of b 16, symmetric]
        div_mult_mod_eq [of c 64, symmetric]]
    by (simp only: t_def d1_def d2_def)
  then have 1: "t div 64 = (a div 4 * 64 + d1) * 64 + d2" and "t mod 64 = c mod 64"
    by (simp_all only: block_div block_mod mod_less_divisor)
  then show "t mod 64 = c mod 64" by simp
  have "t div 64 mod 64 = d2"
    using block_mod [OF d2] by (simp only: 1)
  moreover have 2: "t div 4096 = a div 4 * 64 + d1"
    using block_div [OF d2] by (simp only: 1 div_mult2_eq [of t 64 64, simplified])
  ultimately show "t div 64 mod 64 = b mod 16 * 4 + c div 64" by (simp add: d2_def)
  from 2 d1 have "t div 262144 = a div 4" and "t div 4096 mod 64 = d1"
    by (simp_all add: div_mult2_eq [of t 4096 64, simplified] block_div block_mod)
  then show "t div 4096 mod 64 = a mod 4 * 16 + b div 16" and "t div 262144 mod 64 = a div 4"
    using assms(1) by (simp_all add: d1_def)
qed

lemma rebuilt:
  fixes a b c :: nat
  assumes "a < 256" "b < 256" "c < 256"
  shows "push_bit 2 (a div 4) OR drop_bit 4 (a mod 4 * 16 + b div 16) = a"
    and "push_bit 4 ((a mod 4 * 16 + b div 16) AND 15) OR drop_bit 2 (b mod 16 * 4 + c div 64) = b"
    and "push_bit 6 ((b mod 16 * 4 + c div 64) AND 3) OR (c mod 64) = c"
proof -
  have "(a mod 4 * 16 + b div 16) div 16 = a mod 4" "(a mod 4 * 16 + b div 16) mod 16 = b div 16"
    "(b mod 16 * 4 + c div 64) div 4 = b mod 16" "(b mod 16 * 4 + c div 64) mod 4 = c div 64"
    using assms by simp_all
  then show "push_bit 2 (a div 4) OR drop_bit 4 (a mod 4 * 16 + b div 16) = a"
    and "push_bit 4 ((a mod 4 * 16 + b div 16) AND 15) OR drop_bit 2 (b mod 16 * 4 + c div 64) = b"
    and "push_bit 6 ((b mod 16 * 4 + c div 64) AND 3) OR (c mod 64) = c"
    by (simp_all add: and_low or_shifted shifts(1)) (simp_all add: shifts(2))
qed

lemma lenient_sextet:
  "k < 64 \<Longrightarrow> lenient_loop g (base64_alphabet False ! k # rest) =
     (if length g = 3 then group_bytes (g @ [k]) @ lenient_loop [] rest
      else lenient_loop (g @ [k]) rest)"
  by (simp add: sextet_alphabet)

lemma lenient_pad: "lenient_loop g (CHR ''='' # rest) = lenient_loop g rest"
  by (simp add: sextet_pad)

lemma sextets_less:
  fixes a b c :: nat
  assumes "a < 256" "b < 256" "c < 256"
  shows "a div 4 < 64" "a mod 4 * 16 + b div 16 < 64" "b mod 16 * 4 + c div 64 < 64" "c mod 64 < 64"
  using assms by auto

text \<open>The sextets a turn of the encoder writes.\<close>

lemma base64_turn:
  fixes c cs
  defines "b0 \<equiv> byte c"
    and "b1 \<equiv> (if 1 \<le> length cs then byte (cs ! 0) else 0)"
    and "b2 \<equiv> (if 2 \<le> length cs then byte (cs ! 1) else 0)"
  shows "base64_loop al omit (c # cs) =
     [al ! (b0 div 4), al ! (b0 mod 4 * 16 + b1 div 16)]
     @ (if 1 \<le> length cs then [al ! (b1 mod 16 * 4 + b2 div 64)]
        else if \<not> omit then [CHR ''=''] else [])
     @ (if 2 \<le> length cs then [al ! (b2 mod 64)] else if \<not> omit then [CHR ''=''] else [])
     @ base64_loop al omit (drop 2 cs)"
proof -
  have less: "b0 < 256" "b1 < 256" "b2 < 256"
    by (simp_all add: b0_def b1_def b2_def)
  then have "push_bit 16 b0 OR push_bit 8 b1 OR b2 = b0 * 65536 + b1 * 256 + b2"
    by (rule triple_eq)
  then show ?thesis
    using triple_sextets [OF less]
    by (simp only: base64_loop.simps Let_def flip: b0_def b1_def b2_def) (simp add: bits)
qed

lemma lenient_encoded: "lenient_loop [] (base64_loop (base64_alphabet False) omit bs) = bs"
proof (induction "base64_alphabet False" omit bs rule: base64_loop.induct)
  case (1 omit)
  then show ?case by (simp add: partial_bytes_def)
next
  case (2 omit c cs)
  have IH: "lenient_loop [] (base64_loop (base64_alphabet False) omit (drop 2 cs)) = drop 2 cs"
    using 2 by simp
  consider "cs = []" | y where "cs = [y]" | y z r where "cs = y # z # r"
    by (metis list.exhaust)
  then show ?case
  proof cases
    case 1
    then show ?thesis
      using sextets_less [of "byte c" 0 0] rebuilt [of "byte c" 0 0]
      by (simp add: base64_turn lenient_sextet lenient_pad partial_bytes_def
          del: lenient_loop.simps(2) base64_loop.simps(2))
  next
    case (2 y)
    then show ?thesis
      using sextets_less [of "byte c" "byte y" 0] rebuilt [of "byte c" "byte y" 0]
      by (simp add: base64_turn lenient_sextet lenient_pad partial_bytes_def
          del: lenient_loop.simps(2) base64_loop.simps(2))
  next
    case (3 y z r)
    then show ?thesis
      using IH sextets_less [of "byte c" "byte y" "byte z"]
        rebuilt [of "byte c" "byte y" "byte z"]
      by (simp add: base64_turn lenient_sextet group_bytes_def del: lenient_loop.simps(2) base64_loop.simps(2))
  qed
qed

text \<open>
  C40. Decoding what the standard base64 encoder wrote, padded or not, gives back the bytes, for
  every byte string and every strict decoder that agrees with the lenient loop on the texts it
  accepts. (The URL alphabet is outside the claim: its two own characters are not sextets of the
  lenient loop.)
\<close>

theorem base64_round:
  "simd_agrees simd \<Longrightarrow> base64_decode simd (base64_encode bs False omit) = bs"
  using lenient_encoded [of omit bs]
  by (auto simp: simd_agrees_def base64_decode_def base64_encode_def
      simp del: lenient_loop.simps base64_loop.simps split: option.splits)

definition strict_abcd :: "string \<Rightarrow> string option" where
  "strict_abcd s = (if s = ''QUJD'' then Some ''ABC'' else None)"

lemma strict_abcd_agrees: "simd_agrees strict_abcd"
proof -
  have "chr 65 = CHR ''A''" "chr 66 = CHR ''B''" "chr 67 = CHR ''C''"
    by (simp_all add: chr_eq_iff)
  then show ?thesis
    by (simp add: simd_agrees_def strict_abcd_def base64_sextet_def between_def group_bytes_def
        partial_bytes_def bits)
qed

theorem base64_round_witness:
  "base64_encode ''ABC'' False False = ''QUJD'' \<and>
   base64_decode strict_abcd (base64_encode ''ABC'' False False) = ''ABC'' \<and>
   base64_decode strict_abcd (base64_encode ''ABCD'' False True) = ''ABCD''"
  using base64_round [OF strict_abcd_agrees, of "''ABC''" False]
    base64_round [OF strict_abcd_agrees, of "''ABCD''" True]
  by (simp add: base64_encode_def base64_turn base64_alphabet_def)

end
