(* ===== verification/Calendar.thy ===== *)
theory Calendar
  imports Prelude "HOL-Library.Signed_Division" "HOL-Library.Word" "HOL-Library.Monad_Syntax"
begin

text \<open>
  The proleptic Gregorian calendar of \<^verbatim>\<open>core/algorithms.hpp\<close>: days since 1970-01-01 from a
  date, and back. The 64-bit and 32-bit integers of the code are words, read as signed numbers; every
  sum, difference and product is checked against the range of its C++ type, and one that leaves it
  (which is undefined in C++) makes the whole computation \<open>None\<close>. The division of C++, which
  truncates towards zero, is \<open>sdiv\<close>.

  The specification is the calendar itself: which dates are valid, and which date is the next day.
  The routines are first compared with the same formulas on unbounded integers, which are then shown
  to follow the calendar.
\<close>

section \<open>The code\<close>

definition i32 :: "int \<Rightarrow> int option" where
  "i32 x = (if - (2 ^ 31) \<le> x \<and> x < 2 ^ 31 then Some x else None)"

definition i64 :: "int \<Rightarrow> int option" where
  "i64 x = (if - (2 ^ 63) \<le> x \<and> x < 2 ^ 63 then Some x else None)"

record civil_date =
  cd_year :: "64 word"
  cd_month :: "32 word"
  cd_day :: "32 word"

definition days_from_civil :: "64 word \<Rightarrow> 32 word \<Rightarrow> 32 word \<Rightarrow> 64 word option" where
  "days_from_civil y0 m0 d0 =
     (let m = sint m0; d = sint d0 in
      do { y \<leftarrow> i64 (sint y0 - (if m \<le> 2 then 1 else 0));
           y' \<leftarrow> (if y \<ge> 0 then Some y else i64 (y - 399));
           let era = y' sdiv 400;
           first \<leftarrow> i64 (era * 400);
           yoe \<leftarrow> i64 (y - first);
           mp \<leftarrow> (if m > 2 then i32 (m - 3) else i32 (m + 9));
           fifths \<leftarrow> i32 (153 * mp);
           fifths \<leftarrow> i32 (fifths + 2);
           doy \<leftarrow> i32 (fifths sdiv 5 + d);
           doy \<leftarrow> i32 (doy - 1);
           doe \<leftarrow> i64 (yoe * 365);
           doe \<leftarrow> i64 (doe + yoe sdiv 4);
           doe \<leftarrow> i64 (doe - yoe sdiv 100);
           doe \<leftarrow> i64 (doe + doy);
           n \<leftarrow> i64 (era * 146097);
           n \<leftarrow> i64 (n + doe);
           n \<leftarrow> i64 (n - 719468);
           Some (word_of_int n) })"

text \<open>The casts to \<open>int\<close> of the month and the day are \<open>word_of_int\<close>.\<close>

definition civil_from_days :: "64 word \<Rightarrow> civil_date option" where
  "civil_from_days z0 =
     do { z \<leftarrow> i64 (sint z0 + 719468);
          z' \<leftarrow> (if z \<ge> 0 then Some z else i64 (z - 146096));
          let era = z' sdiv 146097;
          before \<leftarrow> i64 (era * 146097);
          doe \<leftarrow> i64 (z - before);
          yoe \<leftarrow> i64 (doe - doe sdiv 1460);
          yoe \<leftarrow> i64 (yoe + doe sdiv 36524);
          yoe \<leftarrow> i64 (yoe - doe sdiv 146096);
          let yoe = yoe sdiv 365;
          start \<leftarrow> i64 (365 * yoe);
          start \<leftarrow> i64 (start + yoe sdiv 4);
          start \<leftarrow> i64 (start - yoe sdiv 100);
          doy \<leftarrow> i64 (doe - start);
          fifths \<leftarrow> i64 (5 * doy);
          fifths \<leftarrow> i64 (fifths + 2);
          let mp = fifths sdiv 153;
          m \<leftarrow> (if mp < 10 then i64 (mp + 3) else i64 (mp - 9));
          y \<leftarrow> i64 (era * 400);
          y \<leftarrow> i64 (yoe + y);
          y \<leftarrow> i64 (y + (if m \<le> 2 then 1 else 0));
          fifths \<leftarrow> i64 (153 * mp);
          fifths \<leftarrow> i64 (fifths + 2);
          d \<leftarrow> i64 (doy - fifths sdiv 5);
          d \<leftarrow> i64 (d + 1);
          Some \<lparr>cd_year = word_of_int y, cd_month = word_of_int m, cd_day = word_of_int d\<rparr> }"

section \<open>The formulas on unbounded integers\<close>

record ymd =
  year :: int
  month :: int
  day :: int

definition civil_days :: "int \<Rightarrow> int \<Rightarrow> int \<Rightarrow> int" where
  "civil_days y0 m d =
     (let y = y0 - (if m \<le> 2 then 1 else 0);
          era = (if y \<ge> 0 then y else y - 399) sdiv 400;
          yoe = y - era * 400;
          doy = (153 * (if m > 2 then m - 3 else m + 9) + 2) sdiv 5 + d - 1;
          doe = yoe * 365 + yoe sdiv 4 - yoe sdiv 100 + doy
      in era * 146097 + doe - 719468)"

definition days_civil :: "int \<Rightarrow> ymd" where
  "days_civil z0 =
     (let z = z0 + 719468;
          era = (if z \<ge> 0 then z else z - 146096) sdiv 146097;
          doe = z - era * 146097;
          yoe = (doe - doe sdiv 1460 + doe sdiv 36524 - doe sdiv 146096) sdiv 365;
          doy = doe - (365 * yoe + yoe sdiv 4 - yoe sdiv 100);
          mp = (5 * doy + 2) sdiv 153;
          m = (if mp < 10 then mp + 3 else mp - 9)
      in \<lparr>year = yoe + era * 400 + (if m \<le> 2 then 1 else 0), month = m,
          day = doy - (153 * mp + 2) sdiv 5 + 1\<rparr>)"

section \<open>The calendar\<close>

definition leap :: "int \<Rightarrow> bool" where
  "leap y \<longleftrightarrow> 4 dvd y \<and> (\<not> 100 dvd y \<or> 400 dvd y)"

definition month_days :: "int \<Rightarrow> int \<Rightarrow> int" where
  "month_days y m =
     (if m = 2 then (if leap y then 29 else 28) else if m \<in> {4, 6, 9, 11} then 30 else 31)"

definition valid_date :: "ymd \<Rightarrow> bool" where
  "valid_date dt \<longleftrightarrow> 1 \<le> month dt \<and> month dt \<le> 12 \<and> 1 \<le> day dt
     \<and> day dt \<le> month_days (year dt) (month dt)"

definition next_day :: "ymd \<Rightarrow> ymd" where
  "next_day dt =
     (if day dt < month_days (year dt) (month dt) then dt\<lparr>day := day dt + 1\<rparr>
      else if month dt < 12 then dt\<lparr>month := month dt + 1, day := 1\<rparr>
      else \<lparr>year = year dt + 1, month = 1, day = 1\<rparr>)"

section \<open>Truncating division\<close>

lemma sdiv_nonneg: "0 \<le> a \<Longrightarrow> 0 < b \<Longrightarrow> a sdiv b = a div b" for a b :: int
  by (cases "a = 0") (auto simp: signed_divide_int_def sgn_if)

lemma sdiv_floor:
  fixes a b :: int
  assumes "0 < b" and c: "c = b - 1"
  shows "(if a \<ge> 0 then a else a - c) sdiv b = a div b"
proof (cases "0 \<le> a")
  case True
  with assms show ?thesis by (simp add: sdiv_nonneg)
next
  case False
  have "(a - c) sdiv b = - ((b - 1 - a) div b)"
    using assms False by (simp add: signed_divide_int_def sgn_if)
  also have "(b - 1 - a) div b = - (a div b)"
  proof -
    have 1: "a = a div b * b + a mod b" by simp
    have 2: "0 \<le> a mod b" "a mod b < b" using assms by simp_all
    have "b - 1 - a = b * - (a div b) + (b - 1 - a mod b)"
      using 1 by (simp add: algebra_simps)
    from int_div_pos_eq [OF this] 2 show "(b - 1 - a) div b = - (a div b)"
      by simp
  qed
  finally show ?thesis using False by simp
qed

lemma div_step: "0 < k \<Longrightarrow> (a + 1) div k = a div k + (if k dvd a + 1 then 1 else 0)" for a k :: int
proof -
  assume k: "0 < k"
  have 1: "a = k * (a div k) + a mod k" "0 \<le> a mod k" "a mod k < k" using k by simp_all
  show ?thesis
  proof (cases "a mod k = k - 1")
    case True
    then have "a + 1 = k * (a div k) + k"
      using 1(1) by linarith
    then have "a + 1 = (a div k + 1) * k"
      by (simp add: algebra_simps)
    then show ?thesis using k by simp
  next
    case False
    then have r: "a + 1 = k * (a div k) + (a mod k + 1)" "a mod k + 1 < k" using 1 by simp_all
    then have d: "(a + 1) div k = a div k"
      using int_div_pos_eq [OF r(1)] 1(2) by simp
    have "(a + 1) mod k = a mod k + 1"
      using int_mod_pos_eq [OF r(1)] r(2) 1(2) by simp
    then have "\<not> k dvd a + 1" using 1(2) by (simp add: dvd_eq_mod_eq_0)
    with d show ?thesis by simp
  qed
qed

section \<open>Days as a polynomial\<close>

text \<open>The first day of the shifted year \<open>y\<close>, which starts on the first of March.\<close>

definition year_start :: "int \<Rightarrow> int" where
  "year_start y = 365 * y + y div 4 - y div 100 + y div 400"

definition month_start :: "int \<Rightarrow> int" where
  "month_start mp = (153 * mp + 2) div 5"

lemma year_start_Suc: "year_start (y + 1) = year_start y + (if leap (y + 1) then 366 else 365)"
proof -
  have "400 dvd y + 1 \<Longrightarrow> 100 dvd y + 1"
    by (rule dvd_trans [of _ 400]) simp_all
  moreover have "100 dvd y + 1 \<Longrightarrow> 4 dvd y + 1"
    by (rule dvd_trans [of _ 100]) simp_all
  ultimately have "leap (y + 1) \<longleftrightarrow> 4 dvd y + 1 \<and> (100 dvd y + 1 \<longrightarrow> 400 dvd y + 1)"
    and "400 dvd y + 1 \<longrightarrow> 100 dvd y + 1" "100 dvd y + 1 \<longrightarrow> 4 dvd y + 1"
    by (auto simp only: leap_def)
  moreover obtain p q r where pqr: "4 dvd y + 1 \<longleftrightarrow> p" "100 dvd y + 1 \<longleftrightarrow> q" "400 dvd y + 1 \<longleftrightarrow> r"
    by blast
  ultimately have "leap (y + 1) \<longleftrightarrow> p \<and> (q \<longrightarrow> r)" "r \<longrightarrow> q" "q \<longrightarrow> p"
    by simp_all
  then show ?thesis
    unfolding year_start_def div_step [of 4, simplified] div_step [of 100, simplified]
      div_step [of 400, simplified] pqr
    by (cases p; cases q; cases r) simp_all
qed

lemma div_era:
  fixes y :: int
  assumes "0 < k"
  shows "y div k = n * (y div (k * n)) + y mod (k * n) div k"
proof -
  have "y = (n * (y div (k * n))) * k + y mod (k * n)"
    by (metis div_mult_mod_eq mult.assoc mult.commute)
  then have "y div k = ((n * (y div (k * n))) * k + y mod (k * n)) div k" by simp
  also have "\<dots> = n * (y div (k * n)) + y mod (k * n) div k"
    using assms by simp
  finally show ?thesis .
qed

lemma civil_days_eq:
  assumes "1 \<le> m" "m \<le> 12"
  shows "civil_days y m d = year_start (if m \<le> 2 then y - 1 else y)
     + month_start (if m > 2 then m - 3 else m + 9) + d - 1 - 719468"
proof -
  obtain Y where Y: "Y = y - (if m \<le> 2 then 1 else 0)" by simp
  obtain M where M: "M = (if m > 2 then m - 3 else m + 9)" by simp
  have M0: "0 \<le> M" using assms by (simp add: M)
  have yoe: "Y - Y div 400 * 400 = Y mod 400"
    by (simp add: minus_div_mult_eq_mod)
  have era: "(if 0 \<le> Y then Y else Y - 399) sdiv 400 = Y div 400"
    by (rule sdiv_floor) simp_all
  have "civil_days y m d = Y div 400 * 146097
      + (Y mod 400 * 365 + Y mod 400 div 4 - Y mod 400 div 100 + (month_start M + d - 1)) - 719468"
    unfolding civil_days_def Let_def Y [symmetric] M [symmetric] era yoe month_start_def
    using M0 by (simp add: sdiv_nonneg)
  also have "\<dots> = year_start Y + month_start M + d - 1 - 719468"
  proof -
    have "Y div 4 = 100 * (Y div 400) + Y mod 400 div 4"
      using div_era [of 4 Y 100] by (simp only: mult_numeral_1 arith_simps zero_less_numeral simp_thms)
    moreover have "Y div 100 = 4 * (Y div 400) + Y mod 400 div 100"
      using div_era [of 100 Y 4] by (simp only: mult_numeral_1 arith_simps zero_less_numeral simp_thms)
    moreover have "365 * Y = 146000 * (Y div 400) + Y mod 400 * 365"
      using div_mult_mod_eq [of Y 400] by linarith
    ultimately show ?thesis
      unfolding year_start_def by simp
  qed
  finally show ?thesis
    by (cases "m \<le> 2") (simp_all add: Y M)
qed

section \<open>Months\<close>

text \<open>The months of a shifted year, from March (0) to February (11): \<open>153 * mp + 2\<close> fifths.\<close>

definition month_len :: "bool \<Rightarrow> int \<Rightarrow> int" where
  "month_len lp mp = (if mp = 11 then (if lp then 29 else 28) else if mp \<in> {1, 3, 6, 8} then 30 else 31)"

lemma twelve: "0 \<le> mp \<Longrightarrow> mp \<le> 11 \<Longrightarrow>
  mp = 0 \<or> mp = 1 \<or> mp = 2 \<or> mp = 3 \<or> mp = 4 \<or> mp = 5 \<or> mp = 6 \<or> mp = 7 \<or> mp = 8 \<or> mp = 9
    \<or> mp = 10 \<or> mp = 11" for mp :: int
  by presburger

lemma month_of_day:
  assumes "0 \<le> mp" "mp \<le> 11" "1 \<le> d" "d \<le> month_len lp mp"
  shows "(5 * (month_start mp + d - 1) + 2) div 153 = mp"
    and "0 \<le> month_start mp + d - 1" "month_start mp + d - 1 \<le> (if lp then 365 else 364)"
proof -
  define r where "r = 5 * (month_start mp + d - 1) + 2 - 153 * mp"
  have "0 \<le> r \<and> r < 153"
    using twelve [OF assms(1,2)] assms(3,4)
    by (elim disjE) (auto simp: r_def month_start_def month_len_def split: if_splits)
  then show "(5 * (month_start mp + d - 1) + 2) div 153 = mp"
    using int_div_pos_eq [of "5 * (month_start mp + d - 1) + 2" 153 mp r] by (simp add: r_def)
  show "0 \<le> month_start mp + d - 1" "month_start mp + d - 1 \<le> (if lp then 365 else 364)"
    using twelve [OF assms(1,2)] assms(3,4)
    by (elim disjE; simp add: month_start_def month_len_def split: if_splits)+
qed

lemma day_of_month:
  fixes doy :: int
  assumes "0 \<le> doy" "doy \<le> (if lp then 365 else 364)"
  defines "mp \<equiv> (5 * doy + 2) div 153"
  shows "0 \<le> mp" "mp \<le> 11" "1 \<le> doy - month_start mp + 1"
    "doy - month_start mp + 1 \<le> month_len lp mp"
proof -
  have r: "5 * doy + 2 = mp * 153 + (5 * doy + 2) mod 153" "0 \<le> (5 * doy + 2) mod 153"
    "(5 * doy + 2) mod 153 < 153"
    unfolding mp_def by simp_all
  have d: "doy \<le> 365" using assms(2) by (simp split: if_splits)
  show mp: "0 \<le> mp" "mp \<le> 11"
    using r d assms(1) by linarith+
  show "1 \<le> doy - month_start mp + 1" "doy - month_start mp + 1 \<le> month_len lp mp"
    using twelve [OF mp] r assms(2)
    by (elim disjE; simp add: month_start_def month_len_def split: if_splits)+
qed

section \<open>Years\<close>

text \<open>A day of an era of 400 years, split into centuries, four-year cycles, years and days. The last
  century and the last year of a cycle are one day longer.\<close>

definition year_parts :: "int \<Rightarrow> int \<Rightarrow> int \<Rightarrow> int \<Rightarrow> bool" where
  "year_parts c q r doy \<longleftrightarrow> 0 \<le> c \<and> c \<le> 3 \<and> 0 \<le> q \<and> q \<le> 24 \<and> 0 \<le> r \<and> r \<le> 3 \<and> 0 \<le> doy
     \<and> doy \<le> (if r = 3 \<and> (q = 24 \<longrightarrow> c = 3) then 365 else 364)"

lemma year_partsD:
  assumes "year_parts c q r doy"
  shows "0 \<le> c" "c \<le> 3" "0 \<le> q" "q \<le> 24" "0 \<le> r" "r \<le> 3" "0 \<le> doy" "doy \<le> 365"
    "doy = 365 \<Longrightarrow> r = 3" "doy = 365 \<Longrightarrow> q = 24 \<Longrightarrow> c = 3"
  using assms by (auto simp: year_parts_def split: if_splits)

lemma year_of_doe:
  assumes "year_parts c q r doy"
  defines "doe \<equiv> 36524 * c + 1461 * q + 365 * r + doy"
  shows "(doe - doe div 1460 + doe div 36524 - doe div 146096) div 365 = 100 * c + 4 * q + r"
    and "0 \<le> doe" "doe < 146097"
proof -
  note b = year_partsD [OF assms(1)]
  show "0 \<le> doe" "doe < 146097"
    using b by (auto simp: doe_def)
  have 1: "doe div 36524 - doe div 146096 = c"
  proof (cases "doe = 146096")
    case True
    moreover have "c = 3" using True b by (simp add: doe_def)
    ultimately show ?thesis by simp
  next
    case False
    then have "doe < 146096" "0 \<le> doe" using \<open>doe < 146097\<close> \<open>0 \<le> doe\<close> by simp_all
    then have "doe div 146096 = 0" by (rule div_pos_pos_trivial [rotated])
    moreover have "1461 * q + 365 * r + doy < 36524"
    proof (cases "q = 24 \<and> r = 3 \<and> doy = 365")
      case True
      with b(10) have "c = 3" by simp
      with True False show ?thesis by (simp add: doe_def)
    next
      case False
      with b show ?thesis by linarith
    qed
    then have "doe div 36524 = c"
      using b int_div_pos_eq [of doe 36524 c "1461 * q + 365 * r + doy"] by (simp add: doe_def)
    ultimately show ?thesis by simp
  qed
  let ?e = "if 24 * c + q + 365 * r + doy < 1460 then 0 else 1 :: int"
  have 2: "doe div 1460 = 25 * c + q + ?e"
    using b int_div_pos_eq [of doe 1460 "25 * c + q + ?e" "24 * c + q + 365 * r + doy - 1460 * ?e"]
    by (simp add: doe_def)
  have "0 \<le> doy - ?e" "doy - ?e < 365"
    using b by (cases "doy = 365"; simp)+
  then show "(doe - doe div 1460 + doe div 36524 - doe div 146096) div 365 = 100 * c + 4 * q + r"
    using 1 2 int_div_pos_eq [of "doe - doe div 1460 + doe div 36524 - doe div 146096" 365
        "100 * c + 4 * q + r" "doy - ?e"]
    by (simp add: doe_def)
qed

lemma year_parts_ex:
  assumes "0 \<le> doe" "doe < 146097"
  obtains c q r doy where "year_parts c q r doy" "doe = 36524 * c + 1461 * q + 365 * r + doy"
proof -
  define c where "c = min 3 (doe div 36524)"
  define x where "x = doe - 36524 * c"
  define q where "q = x div 1461"
  define y where "y = x - 1461 * q"
  define r where "r = min 3 (y div 365)"
  define doy where "doy = y - 365 * r"
  have d: "doe = doe div 36524 * 36524 + doe mod 36524" "0 \<le> doe mod 36524" "doe mod 36524 < 36524"
    "0 \<le> doe div 36524"
    using assms by (simp_all add: pos_imp_zdiv_nonneg_iff)
  have c: "0 \<le> c" "c \<le> 3" "0 \<le> x" "x \<le> 36524" "c < 3 \<Longrightarrow> x < 36524"
    unfolding c_def x_def using d assms by (auto simp: min_def split: if_splits)
  have e: "x = q * 1461 + x mod 1461" "0 \<le> x mod 1461" "x mod 1461 < 1461"
    using c by (simp_all add: q_def)
  have q: "0 \<le> q" "q \<le> 24" "0 \<le> y" "y < 1461" "q = 24 \<Longrightarrow> c < 3 \<Longrightarrow> y < 1460"
    using c e by (auto simp: y_def)
  have f: "y = y div 365 * 365 + y mod 365" "0 \<le> y mod 365" "y mod 365 < 365" "0 \<le> y div 365"
    using q by (simp_all add: pos_imp_zdiv_nonneg_iff)
  have r: "0 \<le> r" "r \<le> 3" "0 \<le> doy" "doy \<le> 365" "r < 3 \<Longrightarrow> doy < 365"
    unfolding r_def doy_def using f q by (auto simp: min_def split: if_splits)
  show thesis
  proof (rule that)
    have "doy \<le> 364" if "\<not> (r = 3 \<and> (q = 24 \<longrightarrow> c = 3))"
      using that c(2) q(5) r by (cases "r = 3") (auto simp: doy_def)
    then show "year_parts c q r doy"
      using c(1,2) q(1,2) r(1-4) by (auto simp: year_parts_def)
    show "doe = 36524 * c + 1461 * q + 365 * r + doy"
      by (simp add: doy_def y_def x_def)
  qed
qed

text \<open>A shifted year written with the parts of its place in the era.\<close>

abbreviation year_of :: "int \<Rightarrow> int \<Rightarrow> int \<Rightarrow> int \<Rightarrow> int" where
  "year_of era c q r \<equiv> 400 * era + 100 * c + 4 * q + r"

lemma year_of_div:
  assumes "0 \<le> c" "c \<le> 3" "0 \<le> q" "q \<le> 24" "0 \<le> r" "r \<le> 3"
  shows "year_of era c q r div 4 = 100 * era + 25 * c + q"
    and "year_of era c q r div 100 = 4 * era + c" and "year_of era c q r div 400 = era"
  using assms int_div_pos_eq [of "year_of era c q r" 4 "100 * era + 25 * c + q" r]
    int_div_pos_eq [of "year_of era c q r" 100 "4 * era + c" "4 * q + r"]
    int_div_pos_eq [of "year_of era c q r" 400 era "100 * c + 4 * q + r"]
  by simp_all

lemma year_start_parts:
  assumes "year_parts c q r doy"
  shows "year_start (year_of era c q r) = 146097 * era + 36524 * c + 1461 * q + 365 * r"
  using year_of_div [of c q r era] year_partsD [OF assms] by (simp add: year_start_def)

lemma dvd_shifted: "k dvd m \<Longrightarrow> 0 < n \<Longrightarrow> n \<le> k \<Longrightarrow> k dvd m + n \<longleftrightarrow> n = k" for k m n :: int
  by (metis dvd_add_right_iff dvd_refl zdvd_imp_le order_antisym)

lemma leap_parts:
  assumes "0 \<le> c" "c \<le> 3" "0 \<le> q" "q \<le> 24" "0 \<le> r" "r \<le> 3"
  shows "leap (year_of era c q r + 1) \<longleftrightarrow> r = 3 \<and> (q = 24 \<longrightarrow> c = 3)"
proof -
  have "4 dvd (400 * era + 100 * c + 4 * q) + (r + 1) \<longleftrightarrow> r + 1 = 4"
    using assms by (intro dvd_shifted) auto
  moreover have "100 dvd (400 * era + 100 * c) + (4 * q + r + 1) \<longleftrightarrow> 4 * q + r + 1 = 100"
    using assms by (intro dvd_shifted) auto
  moreover have "400 dvd 400 * era + (100 * c + 4 * q + r + 1) \<longleftrightarrow> 100 * c + 4 * q + r + 1 = 400"
    using assms by (intro dvd_shifted) auto
  ultimately show ?thesis
    using assms by (auto simp: leap_def add.assoc)
qed

lemma year_partsI:
  assumes "0 \<le> doy" "doy \<le> (if leap (Y + 1) then 365 else 364)"
  obtains era c q r where "year_parts c q r doy" "Y = year_of era c q r"
proof -
  define x where "x = Y mod 400"
  define y where "y = x mod 100"
  have x: "0 \<le> x" "x < 400" "0 \<le> y" "y < 100" "Y = 400 * (Y div 400) + x" "x = 100 * (x div 100) + y"
    by (simp_all add: x_def y_def)
  have c: "0 \<le> x div 100" "x div 100 \<le> 3" using x by linarith+
  have q: "0 \<le> y div 4" "y div 4 \<le> 24" "0 \<le> y mod 4" "y mod 4 \<le> 3" "y = 4 * (y div 4) + y mod 4"
    using x by (simp_all add: pos_imp_zdiv_nonneg_iff)
  have Y: "Y = year_of (Y div 400) (x div 100) (y div 4) (y mod 4)"
    using x(5,6) q(5) by linarith
  have "leap (Y + 1) \<longleftrightarrow> y mod 4 = 3 \<and> (y div 4 = 24 \<longrightarrow> x div 100 = 3)"
    using leap_parts [OF c q(1-4), of "Y div 400"] Y by metis
  with assms c q have "year_parts (x div 100) (y div 4) (y mod 4) doy"
    by (auto simp: year_parts_def)
  then show thesis using Y by (rule that)
qed

lemma days_civil_eq:
  assumes "year_parts c q r doy" and "z = year_start (year_of era c q r) + doy - 719468"
  defines "mp \<equiv> (5 * doy + 2) div 153"
  shows "days_civil z = \<lparr>year = year_of era c q r + (if mp < 10 then 0 else 1),
     month = (if mp < 10 then mp + 3 else mp - 9), day = doy - month_start mp + 1\<rparr>"
proof -
  let ?doe = "36524 * c + 1461 * q + 365 * r + doy"
  note b = year_partsD [OF assms(1)]
  note doe = year_of_doe [OF assms(1)]
  have Z: "z + 719468 = 146097 * era + ?doe"
    by (simp add: assms(2) year_start_parts [OF assms(1)])
  have era: "(if 0 \<le> z + 719468 then z + 719468 else z + 719468 - 146096) sdiv 146097 = era"
    using sdiv_floor [of 146097 146096 "z + 719468"] int_div_pos_eq [OF Z doe(2,3)] by simp
  have d: "z + 719468 - era * 146097 = ?doe" using Z by simp
  have "0 \<le> (?doe - ?doe div 1460 + ?doe div 36524 - ?doe div 146096)"
    using doe(1) b by (metis add_nonneg_nonneg mult_nonneg_nonneg pos_imp_zdiv_nonneg_iff
        zero_le_numeral zero_less_numeral)
  then have yoe: "(?doe - ?doe sdiv 1460 + ?doe sdiv 36524 - ?doe sdiv 146096) sdiv 365
      = 100 * c + 4 * q + r"
    using doe(1,2) by (simp add: sdiv_nonneg)
  have "365 * (100 * c + 4 * q + r) + (100 * c + 4 * q + r) sdiv 4 - (100 * c + 4 * q + r) sdiv 100
      = 36524 * c + 1461 * q + 365 * r"
    using year_of_div [OF b(1-6), of 0] b by (simp add: sdiv_nonneg)
  then have doy: "?doe - (365 * (100 * c + 4 * q + r) + (100 * c + 4 * q + r) sdiv 4
      - (100 * c + 4 * q + r) sdiv 100) = doy"
    by simp
  have lp: "doy \<le> (if doy = 365 then 365 else 364)"
    using b by simp
  have mp: "(5 * doy + 2) sdiv 153 = mp" "0 \<le> mp" "mp \<le> 11"
    using day_of_month(1,2) [OF b(7) lp] b by (simp_all add: mp_def sdiv_nonneg)
  then have "(153 * mp + 2) sdiv 5 = month_start mp"
    by (simp add: month_start_def sdiv_nonneg)
  with mp(2,3) show ?thesis
    unfolding days_civil_def Let_def era d yoe doy mp(1) by simp
qed

section \<open>Dates in shifted form\<close>

definition unshift :: "int \<Rightarrow> int \<Rightarrow> int \<Rightarrow> ymd" where
  "unshift Y mp d = \<lparr>year = Y + (if mp < 10 then 0 else 1),
     month = (if mp < 10 then mp + 3 else mp - 9), day = d\<rparr>"

lemma month_days_len:
  assumes "0 \<le> mp" "mp \<le> 11"
  shows "month_days (year (unshift Y mp d)) (month (unshift Y mp d)) = month_len (leap (Y + 1)) mp"
  using twelve [OF assms] by (elim disjE) (simp_all add: unshift_def month_days_def month_len_def)

lemma valid_unshift:
  assumes "0 \<le> mp" "mp \<le> 11"
  shows "valid_date (unshift Y mp d) \<longleftrightarrow> 1 \<le> d \<and> d \<le> month_len (leap (Y + 1)) mp"
  using month_days_len [OF assms, of Y d] assms by (auto simp: valid_date_def unshift_def)

lemma shifted:
  assumes "valid_date dt"
  obtains Y mp d where "dt = unshift Y mp d" "0 \<le> mp" "mp \<le> 11" "1 \<le> d" "d \<le> month_len (leap (Y + 1)) mp"
proof -
  let ?mp = "if month dt > 2 then month dt - 3 else month dt + 9"
  let ?Y = "if month dt \<le> 2 then year dt - 1 else year dt"
  have dt: "dt = unshift ?Y ?mp (day dt)"
    using assms by (auto simp: unshift_def valid_date_def)
  moreover have mp: "0 \<le> ?mp" "?mp \<le> 11"
    using assms by (auto simp: valid_date_def)
  moreover have "1 \<le> day dt" "day dt \<le> month_len (leap (?Y + 1)) ?mp"
    using assms dt valid_unshift [OF mp, of ?Y "day dt"] by auto
  ultimately show thesis by (rule that)
qed

lemma days_unshift:
  assumes "0 \<le> mp" "mp \<le> 11"
  shows "civil_days (year (unshift Y mp d)) (month (unshift Y mp d)) (day (unshift Y mp d))
    = year_start Y + month_start mp + d - 719469"
  using assms by (simp add: unshift_def civil_days_eq)

lemma civil_unshift:
  assumes "0 \<le> mp" "mp \<le> 11" "1 \<le> d" "d \<le> month_len (leap (Y + 1)) mp"
  shows "days_civil (year_start Y + month_start mp + d - 719469) = unshift Y mp d"
proof -
  let ?doy = "month_start mp + d - 1"
  note m = month_of_day [OF assms]
  obtain era c q r where Y: "year_parts c q r ?doy" "Y = year_of era c q r"
    using m(2,3) by (rule year_partsI)
  have "days_civil (year_start (year_of era c q r) + ?doy - 719468) = unshift Y mp d"
    unfolding days_civil_eq [OF Y(1) refl] m(1) unshift_def Y(2) by simp
  moreover have "year_start (year_of era c q r) + ?doy - 719468 = year_start Y + month_start mp + d - 719469"
    unfolding Y(2) by linarith
  ultimately show ?thesis by (simp only:)
qed

lemma unshift_ex:
  obtains Y mp d where "z = year_start Y + month_start mp + d - 719469"
    "0 \<le> mp" "mp \<le> 11" "1 \<le> d" "d \<le> month_len (leap (Y + 1)) mp"
proof -
  let ?Z = "z + 719468"
  have "0 \<le> ?Z mod 146097" "?Z mod 146097 < 146097" by simp_all
  then obtain c q r doy where p: "year_parts c q r doy"
    "?Z mod 146097 = 36524 * c + 1461 * q + 365 * r + doy"
    by (rule year_parts_ex)
  let ?Y = "year_of (?Z div 146097) c q r"
  note b = year_partsD [OF p(1)]
  have lp: "doy \<le> (if leap (?Y + 1) then 365 else 364)"
    using p(1) by (simp only: leap_parts [OF b(1-6)] year_parts_def)
  let ?mp = "(5 * doy + 2) div 153"
  have "z = year_start ?Y + month_start ?mp + (doy - month_start ?mp + 1) - 719469"
    using p(2) div_mult_mod_eq [of ?Z 146097] by (simp add: year_start_parts [OF p(1)])
  then show thesis
    by (rule that) (rule day_of_month [OF b(7) lp])+
qed

lemma month_start_Suc:
  assumes "0 \<le> mp" "mp < 11"
  shows "month_start (mp + 1) = month_start mp + month_len lp mp"
  using twelve [of mp] assms by (auto simp: month_start_def month_len_def)

lemma next_day_unshift:
  assumes "0 \<le> mp" "mp \<le> 11" "1 \<le> d" "d \<le> month_len (leap (Y + 1)) mp"
  shows "next_day (unshift Y mp d) =
     (if d < month_len (leap (Y + 1)) mp then unshift Y mp (d + 1)
      else if mp < 11 then unshift Y (mp + 1) 1 else unshift (Y + 1) 0 1)"
proof -
  have "day (unshift Y mp d) = d" by (simp add: unshift_def)
  moreover have "month (unshift Y mp d) < 12 \<longleftrightarrow> mp \<noteq> 9"
    using assms(1,2) by (auto simp: unshift_def)
  ultimately show ?thesis
    using assms(1,2)
    by (simp add: next_day_def month_days_len) (auto simp: unshift_def)
qed

section \<open>No overflow\<close>

lemma i64_ok: "- (2 ^ 63) \<le> x \<Longrightarrow> x < 2 ^ 63 \<Longrightarrow> i64 x = Some x"
  by (simp add: i64_def)

lemma sdiv_le: "1 \<le> k \<Longrightarrow> \<bar>x sdiv k\<bar> \<le> \<bar>x\<bar>" for x k :: int
  using zdiv_mono2 [of "\<bar>x\<bar>" 1 k] pos_imp_zdiv_nonneg_iff [of k "\<bar>x\<bar>"]
  by (auto simp: signed_divide_int_def abs_mult abs_sgn_eq)

lemma i32_ok: "- (2 ^ 31) \<le> x \<Longrightarrow> x < 2 ^ 31 \<Longrightarrow> i32 x = Some x"
  by (simp add: i32_def)

lemma sint_of_int_64: "- (2 ^ 63) \<le> x \<Longrightarrow> x < 2 ^ 63 \<Longrightarrow> sint (word_of_int x :: 64 word) = x"
  by (simp add: sint_sbintrunc' signed_take_bit_int_eq_self)

lemma sint_of_int_32: "- (2 ^ 31) \<le> x \<Longrightarrow> x < 2 ^ 31 \<Longrightarrow> sint (word_of_int x :: 32 word) = x"
  by (simp add: sint_sbintrunc' signed_take_bit_int_eq_self)

text \<open>The years of the claim: those whose days 64 bits can count, up to a multiple of 400.\<close>

definition near_year :: "int \<Rightarrow> bool" where
  "near_year y \<longleftrightarrow> \<bar>y\<bar> \<le> 25 * 10 ^ 15 + 1"

lemma year_days_bound:
  assumes "near_year y" "Y = y \<or> Y = y - 1"
  shows "\<bar>Y div 400\<bar> \<le> 625 * 10 ^ 11 + 1" "0 \<le> Y mod 400" "Y mod 400 \<le> 399" "Y = Y div 400 * 400 + Y mod 400"
proof -
  show "Y = Y div 400 * 400 + Y mod 400" "0 \<le> Y mod 400" by simp_all
  have "Y mod 400 < 400" by simp
  then show "Y mod 400 \<le> 399" by linarith
  show "\<bar>Y div 400\<bar> \<le> 625 * 10 ^ 11 + 1"
    using assms \<open>Y = Y div 400 * 400 + Y mod 400\<close> \<open>Y mod 400 \<le> 399\<close> \<open>0 \<le> Y mod 400\<close>
    unfolding near_year_def by (simp add: abs_le_iff) linarith
qed

lemma days_from_civil_Some:
  assumes "1 \<le> sint m" "sint m \<le> 12" "1 \<le> sint d" "sint d \<le> 31" "near_year (sint y)"
  defines "n \<equiv> civil_days (sint y) (sint m) (sint d)"
  shows "days_from_civil y m d = Some (word_of_int n)" "\<bar>n\<bar> < 2 ^ 63 - 719468"
proof -
  obtain Y where Y: "Y = sint y - (if sint m \<le> 2 then 1 else 0)" by simp
  obtain M where M: "M = (if sint m > 2 then sint m - 3 else sint m + 9)" by simp
  have M0: "0 \<le> M" "M \<le> 11" using assms(1,2) by (auto simp: M)
  define e where "e = Y div 400"
  define r where "r = Y mod 400"
  have "Y = sint y \<or> Y = sint y - 1" by (simp add: Y)
  note b = year_days_bound [OF assms(5) this, folded e_def r_def]
  have b: "\<bar>e\<bar> \<le> 625 * 10 ^ 11 + 1" "0 \<le> r" "r \<le> 399" "Y = e * 400 + r" "Y - e * 400 = r"
    using b by simp_all
  have era: "(if 0 \<le> Y then Y else Y - 399) sdiv 400 = e"
    unfolding e_def by (rule sdiv_floor) simp_all
  have q: "r sdiv 4 = r div 4" "r sdiv 100 = r div 100" "(153 * M + 2) sdiv 5 = (153 * M + 2) div 5"
    using b(2) M0 by (simp_all add: sdiv_nonneg)
  have s: "0 \<le> r div 4" "r div 4 \<le> 99" "0 \<le> r div 100" "r div 100 \<le> 3" "0 \<le> (153 * M + 2) div 5"
    "(153 * M + 2) div 5 \<le> 337"
    using b(2,3) M0 by linarith+
  have n: "n = e * 146097 + (r * 365 + r div 4 - r div 100 + ((153 * M + 2) div 5 + sint d - 1)) - 719468"
    unfolding n_def civil_days_def Let_def Y [symmetric] M [symmetric] era b(5) q by simp
  have "\<bar>n\<bar> < 2 ^ 63 - 719468"
    using b(1-3) s assms(3,4) unfolding n abs_le_iff abs_less_iff by simp
  then show "\<bar>n\<bar> < 2 ^ 63 - 719468" .
  have y64: "i64 (sint y - (if sint m \<le> 2 then 1 else 0)) = Some Y"
    unfolding Y [symmetric] using b(1-4) by (intro i64_ok) (simp_all add: abs_le_iff)
  have y399: "(if 0 \<le> Y then Some Y else i64 (Y - 399)) = Some (if 0 \<le> Y then Y else Y - 399)"
    using b(1-4) by (simp add: i64_def abs_le_iff)
  have m32: "(if 2 < sint m then i32 (sint m - 3) else i32 (sint m + 9)) = Some M"
    using assms(1,2) by (simp add: M i32_def)
  show "days_from_civil y m d = Some (word_of_int n)"
    unfolding days_from_civil_def Let_def y64 bind.bind_lunit y399 era m32
    using b(1-3) s assms(3,4) M0 q n
    by (simp add: i64_ok i32_ok b(5) abs_le_iff)
qed

lemma civil_from_days_Some:
  assumes "sint z < 2 ^ 63 - 719468"
  defines "c \<equiv> days_civil (sint z)"
  shows "civil_from_days z = Some \<lparr>cd_year = word_of_int (year c), cd_month = word_of_int (month c),
    cd_day = word_of_int (day c)\<rparr>"
proof -
  define Z where "Z = sint z + 719468"
  define e where "e = Z div 146097"
  define doe where "doe = Z mod 146097"
  have zr: "- (2 ^ 63) \<le> sint z" "sint z < 2 ^ 63"
    using sint_ge [of z] sint_lt [of z] by simp_all
  have Z: "Z = e * 146097 + doe" "0 \<le> doe" "doe < 146097" "Z - e * 146097 = doe"
    by (simp_all add: e_def doe_def minus_div_mult_eq_mod)
  have e: "\<bar>e\<bar> \<le> 2 ^ 46"
    using Z(1-3) zr assms(1) unfolding Z_def by simp
  have z64: "i64 (sint z + 719468) = Some Z"
    unfolding Z_def using zr assms(1) by (simp add: i64_def)
  have zneg: "(if 0 \<le> Z then Some Z else i64 (Z - 146096)) = Some (if 0 \<le> Z then Z else Z - 146096)"
    unfolding Z_def using zr by (simp add: i64_def)
  have era: "(if 0 \<le> Z then Z else Z - 146096) sdiv 146097 = e"
    unfolding e_def by (rule sdiv_floor) simp_all
  have before: "i64 (e * 146097) = Some (e * 146097)" "i64 (Z - e * 146097) = Some doe"
    using Z zr assms(1) unfolding Z_def by (simp_all add: i64_def)
  define y3 where "y3 = doe - doe sdiv 1460 + doe sdiv 36524 - doe sdiv 146096"
  define yoe where "yoe = y3 sdiv 365"
  define doy where "doy = doe - (365 * yoe + yoe sdiv 4 - yoe sdiv 100)"
  define mp where "mp = (5 * doy + 2) sdiv 153"
  have c1: "\<bar>doe sdiv 1460\<bar> \<le> \<bar>doe\<bar>" "\<bar>doe sdiv 36524\<bar> \<le> \<bar>doe\<bar>" "\<bar>doe sdiv 146096\<bar> \<le> \<bar>doe\<bar>"
    by (rule sdiv_le; simp)+
  have c2: "\<bar>yoe\<bar> \<le> \<bar>y3\<bar>" "\<bar>yoe sdiv 4\<bar> \<le> \<bar>yoe\<bar>" "\<bar>yoe sdiv 100\<bar> \<le> \<bar>yoe\<bar>"
    unfolding yoe_def by (rule sdiv_le; simp)+
  have c3: "\<bar>mp\<bar> \<le> \<bar>5 * doy + 2\<bar>" "\<bar>(153 * mp + 2) sdiv 5\<bar> \<le> \<bar>153 * mp + 2\<bar>"
    unfolding mp_def by (rule sdiv_le; simp)+
  have d1: "\<bar>y3\<bar> \<le> 10 ^ 6" using c1 Z(2,3) unfolding y3_def by simp
  then have d2: "\<bar>yoe\<bar> \<le> 10 ^ 6" using c2(1) by simp
  then have d3: "\<bar>doy\<bar> \<le> 10 ^ 9" using c2(2,3) Z(2,3) unfolding doy_def by simp
  then have d4: "\<bar>mp\<bar> \<le> 10 ^ 10" using c3(1) by simp
  then have d5: "\<bar>(153 * mp + 2) sdiv 5\<bar> \<le> 10 ^ 13" using c3(2) by simp
  have s1: "i64 (doe - doe sdiv 1460) = Some (doe - doe sdiv 1460)"
    "i64 (doe - doe sdiv 1460 + doe sdiv 36524) = Some (doe - doe sdiv 1460 + doe sdiv 36524)"
    "i64 (doe - doe sdiv 1460 + doe sdiv 36524 - doe sdiv 146096) = Some y3"
    using c1 Z(2,3) by (auto simp: i64_def y3_def abs_le_iff)
  have s2: "i64 (365 * yoe) = Some (365 * yoe)" "i64 (365 * yoe + yoe sdiv 4) = Some (365 * yoe + yoe sdiv 4)"
    "i64 (365 * yoe + yoe sdiv 4 - yoe sdiv 100) = Some (365 * yoe + yoe sdiv 4 - yoe sdiv 100)"
    using d2 order_trans [OF c2(2) d2] order_trans [OF c2(3) d2] by (auto simp: i64_def abs_le_iff)
  have s3: "i64 (doe - (365 * yoe + yoe sdiv 4 - yoe sdiv 100)) = Some doy" "i64 (5 * doy) = Some (5 * doy)"
    "i64 (5 * doy + 2) = Some (5 * doy + 2)"
    using d3 unfolding doy_def [symmetric] by (auto simp: i64_def abs_le_iff)
  have s4: "(if mp < 10 then i64 (mp + 3) else i64 (mp - 9)) = Some (if mp < 10 then mp + 3 else mp - 9)"
    "i64 (153 * mp) = Some (153 * mp)" "i64 (153 * mp + 2) = Some (153 * mp + 2)"
    using d4 by (auto simp: i64_def abs_le_iff)
  have s5: "i64 (e * 400) = Some (e * 400)" "i64 (yoe + e * 400) = Some (yoe + e * 400)"
    "i64 (yoe + e * 400 + (if q then 1 else 0)) = Some (yoe + e * 400 + (if q then 1 else 0))" for q
    using d2 e by (auto simp: i64_def abs_le_iff)
  have s6: "i64 (doy - (153 * mp + 2) sdiv 5) = Some (doy - (153 * mp + 2) sdiv 5)"
    "i64 (doy - (153 * mp + 2) sdiv 5 + 1) = Some (doy - (153 * mp + 2) sdiv 5 + 1)"
    using d3 d5 by (auto simp: i64_def abs_le_iff)
  have c: "c = \<lparr>year = yoe + e * 400 + (if (if mp < 10 then mp + 3 else mp - 9) \<le> 2 then 1 else 0),
      month = (if mp < 10 then mp + 3 else mp - 9), day = doy - (153 * mp + 2) sdiv 5 + 1\<rparr>"
    unfolding c_def days_civil_def Let_def Z_def [symmetric] era Z(4) y3_def [symmetric] yoe_def [symmetric]
      doy_def [symmetric] mp_def [symmetric] by (rule refl)
  show ?thesis
    unfolding civil_from_days_def Let_def z64 bind.bind_lunit zneg era before s1 yoe_def [symmetric]
      s2 s3 mp_def [symmetric] s4 s5 s6 c by simp
qed

section \<open>The formulas follow the calendar\<close>

lemma civil_days_next:
  assumes "valid_date dt"
  shows "days_civil (civil_days (year dt) (month dt) (day dt)) = dt
    \<and> civil_days (year (next_day dt)) (month (next_day dt)) (day (next_day dt))
        = civil_days (year dt) (month dt) (day dt) + 1"
proof -
  obtain Y mp d where dt: "dt = unshift Y mp d" and v: "0 \<le> mp" "mp \<le> 11" "1 \<le> d"
    "d \<le> month_len (leap (Y + 1)) mp"
    using assms by (rule shifted)
  have last: "mp = 11 \<Longrightarrow> year_start (Y + 1) + month_start 0 = year_start Y + month_start 11
      + month_len (leap (Y + 1)) 11"
    by (simp add: year_start_Suc month_start_def month_len_def)
  have "civil_days (year (next_day dt)) (month (next_day dt)) (day (next_day dt))
      = year_start Y + month_start mp + d - 719468"
    unfolding dt next_day_unshift [OF v]
    using v last month_start_Suc [of mp "leap (Y + 1)"] by (auto simp: days_unshift)
  then show ?thesis
    using v by (simp only: dt days_unshift civil_unshift) simp
qed

text \<open>Every day number is the number of a valid date.\<close>

lemma days_civil_valid:
  "valid_date (days_civil z)
    \<and> civil_days (year (days_civil z)) (month (days_civil z)) (day (days_civil z)) = z"
proof -
  obtain Y mp d where z: "z = year_start Y + month_start mp + d - 719469"
    and v: "0 \<le> mp" "mp \<le> 11" "1 \<le> d" "d \<le> month_len (leap (Y + 1)) mp"
    by (rule unshift_ex)
  show ?thesis
    unfolding z civil_unshift [OF v] using v by (simp add: days_unshift valid_unshift)
qed


section \<open>The properties\<close>

text \<open>A date of the code as one of the calendar, and back.\<close>

definition read_date :: "civil_date \<Rightarrow> ymd" where
  "read_date dt = \<lparr>year = sint (cd_year dt), month = sint (cd_month dt), day = sint (cd_day dt)\<rparr>"

definition date_of :: "ymd \<Rightarrow> civil_date" where
  "date_of v = \<lparr>cd_year = word_of_int (year v), cd_month = word_of_int (month v), cd_day = word_of_int (day v)\<rparr>"

lemma date_of_read: "date_of (read_date dt) = dt"
  by (simp add: date_of_def read_date_def)

lemma valid_small: "valid_date v \<Longrightarrow> 1 \<le> month v \<and> month v \<le> 12 \<and> 1 \<le> day v \<and> day v \<le> 31"
  by (auto simp: valid_date_def month_days_def split: if_splits)

lemma read_date_of: "valid_date v \<Longrightarrow> near_year (year v) \<Longrightarrow> read_date (date_of v) = v"
  using valid_small [of v]
  by (auto simp: read_date_def date_of_def near_year_def abs_le_iff sint_of_int_64 sint_of_int_32)

lemma next_day_valid: "valid_date v \<Longrightarrow> valid_date (next_day v)"
  by (auto simp: valid_date_def next_day_def month_days_def)

lemma date_number:
  assumes "valid_date v" "near_year (year v)"
  defines "dt \<equiv> date_of v"
  shows "\<exists>n. days_from_civil (cd_year dt) (cd_month dt) (cd_day dt) = Some n
    \<and> sint n = civil_days (year v) (month v) (day v) \<and> civil_from_days n = Some dt"
proof -
  have r: "sint (cd_year dt) = year v" "sint (cd_month dt) = month v" "sint (cd_day dt) = day v"
    using arg_cong [OF read_date_of [OF assms(1,2)], of year] arg_cong [OF read_date_of [OF assms(1,2)], of month]
      arg_cong [OF read_date_of [OF assms(1,2)], of day] by (simp_all add: dt_def read_date_def)
  let ?n = "civil_days (year v) (month v) (day v)"
  have n: "days_from_civil (cd_year dt) (cd_month dt) (cd_day dt) = Some (word_of_int ?n)" "\<bar>?n\<bar> < 2 ^ 63 - 719468"
    using days_from_civil_Some [of "cd_month dt" "cd_day dt" "cd_year dt"] valid_small [OF assms(1)] assms(2)
    by (simp_all add: r)
  have s: "sint (word_of_int ?n :: 64 word) = ?n"
    using n(2) by (intro sint_of_int_64) (simp_all add: abs_less_iff)
  have "civil_from_days (word_of_int ?n) = Some dt"
    using civil_from_days_Some [of "word_of_int ?n"] n(2) civil_days_next [OF assms(1)]
    by (simp add: s dt_def date_of_def abs_less_iff)
  with n(1) s show ?thesis by blast
qed

text \<open>
  C37: On the valid dates of the proleptic Gregorian calendar whose year is at most \<open>25 * 10 ^ 15\<close>
  either way (a day number of 64 bits reaches no further than about one percent more), no 64-bit or 32-bit
  operation of the two routines overflows, \<^verbatim>\<open>civil_from_days\<close> undoes
  \<^verbatim>\<open>days_from_civil\<close>, and the number of the next day is the number of the day plus one.
\<close>

theorem calendar_days:
  assumes "valid_date (read_date dt)" "\<bar>sint (cd_year dt)\<bar> \<le> 25 * 10 ^ 15"
  shows "\<exists>n n' dt'. days_from_civil (cd_year dt) (cd_month dt) (cd_day dt) = Some n
    \<and> civil_from_days n = Some dt
    \<and> read_date dt' = next_day (read_date dt)
    \<and> days_from_civil (cd_year dt') (cd_month dt') (cd_day dt') = Some n'
    \<and> civil_from_days n' = Some dt' \<and> sint n' = sint n + 1"
proof -
  let ?v = "read_date dt"
  have y: "near_year (year ?v)" "near_year (year (next_day ?v))"
    using assms(2) by (auto simp: near_year_def next_day_def read_date_def abs_le_iff)
  note next_ok = next_day_valid [OF assms(1)]
  from date_number [OF assms(1) y(1)] date_number [OF next_ok y(2)] civil_days_next [OF assms(1)]
    read_date_of [OF next_ok y(2)]
  show ?thesis unfolding date_of_read by metis
qed

text \<open>The last day of February in a leap year, and a day 271822 years before the common era.\<close>

theorem calendar_days_witness:
  "(\<exists>n n' dt'. days_from_civil 2000 2 29 = Some n \<and> civil_from_days n = Some \<lparr>cd_year = 2000, cd_month = 2, cd_day = 29\<rparr>
     \<and> read_date dt' = \<lparr>year = 2000, month = 3, day = 1\<rparr>
     \<and> days_from_civil (cd_year dt') (cd_month dt') (cd_day dt') = Some n'
     \<and> civil_from_days n' = Some dt' \<and> sint n' = sint n + 1)
   \<and> (\<exists>n. days_from_civil (-271821) 4 19 = Some n \<and> civil_from_days n = Some \<lparr>cd_year = -271821, cd_month = 4, cd_day = 19\<rparr>)"
  using calendar_days [of "\<lparr>cd_year = 2000, cd_month = 2, cd_day = 29\<rparr>"]
    calendar_days [of "\<lparr>cd_year = -271821, cd_month = 4, cd_day = 19\<rparr>"]
  by (simp add: valid_date_def next_day_def month_days_def leap_def read_date_def) metis

text \<open>Where the code's \<open>static_assert\<close>s fix a value, the model computes it; the greatest year overflows.\<close>

lemma calendar_asserts:
  "days_from_civil 1970 1 1 = Some 0" "days_from_civil 2000 3 1 = Some 11017"
  "days_from_civil (-271821) 4 19 = Some (-100000001)"
  "map_option (sint \<circ> cd_year) (civil_from_days (-100000001)) = Some (-271821)"
  "map_option (sint \<circ> cd_day) (civil_from_days (-1)) = Some 31"
  "days_from_civil 9223372036854775807 1 1 = None"
  by code_simp+

end
