(* ===== verification/Url_Encoding.thy ===== *)
theory Url_Encoding
  imports Ascii Utf8
begin

text \<open>
  The text helpers of the URL parser (\<^verbatim>\<open>lib/Shell/net/url_encoding.cpp\<close>): UTF-8 to code points
  and back, the percent-encode sets, percent-encoding, and the special schemes; with
  \<^verbatim>\<open>percent_decode\<close> of \<^verbatim>\<open>url.cpp\<close>, which undoes it, and the character tests of
  \<^verbatim>\<open>url_internal.hpp\<close>. A \<^verbatim>\<open>std::u32string\<close> is a list of code points.
\<close>

section \<open>Character tests\<close>

definition is_alpha :: "code_point \<Rightarrow> bool" where
  "is_alpha c \<longleftrightarrow> byte (CHR ''a'') \<le> c \<and> c \<le> byte (CHR ''z'') \<or> byte (CHR ''A'') \<le> c \<and> c \<le> byte (CHR ''Z'')"

definition is_digit :: "code_point \<Rightarrow> bool" where
  "is_digit c \<longleftrightarrow> byte (CHR ''0'') \<le> c \<and> c \<le> byte (CHR ''9'')"

definition is_hex :: "code_point \<Rightarrow> bool" where
  "is_hex c \<longleftrightarrow> c < 0x80 \<and> hex_value (chr c) \<ge> 0"

definition lower :: "code_point \<Rightarrow> code_point" where
  "lower c = (if byte (CHR ''A'') \<le> c \<and> c \<le> byte (CHR ''Z'') then c + 0x20 else c)"

definition is_surrogate :: "code_point \<Rightarrow> bool" where
  "is_surrogate c \<longleftrightarrow> 0xD800 \<le> c \<and> c \<le> 0xDFFF"

section \<open>Code points in and out\<close>

function code_points :: "string \<Rightarrow> code_point list" where
  "code_points [] = []"
| "code_points (c # cs) =
     (let (cp, n) = decode_utf8 c cs in cp # code_points (drop (n - 1) cs))"
  by pat_completeness auto
termination
  by (relation "measure length") auto

definition scalar :: "code_point \<Rightarrow> code_point" where
  "scalar c = (if is_surrogate c \<or> c > 0x10FFFF then 0xFFFD else c)"

definition append_scalar :: "string \<Rightarrow> code_point \<Rightarrow> string" where
  "append_scalar out c = append_utf8 out (scalar c)"

definition utf8_of :: "code_point list \<Rightarrow> string" where
  "utf8_of s = foldl append_scalar [] s"

function decode_replacing :: "string \<Rightarrow> code_point list" where
  "decode_replacing [] = []"
| "decode_replacing (b # bs) =
     (let (c, n) = decode_utf8 b bs in
      (if c \<ge> 0x80 \<and> n = 1 \<or> is_surrogate c \<or> c > 0x10FFFF then 0xFFFD else c)
      # decode_replacing (drop (n - 1) bs))"
  by pat_completeness auto
termination
  by (relation "measure length") auto

definition to_usv_string :: "string \<Rightarrow> string" where
  "to_usv_string s = utf8_of (code_points s)"

section \<open>Percent-encode sets\<close>

datatype encode_set = C0 | Fragment | Query | Special_query | Path | Userinfo | Component | Form

definition set_chars :: "encode_set \<Rightarrow> string" where
  "set_chars es =
     (case es of
        C0 \<Rightarrow> []
      | Fragment \<Rightarrow> '' \"<>`''
      | Query \<Rightarrow> '' \"#<>''
      | Special_query \<Rightarrow> '' \"#<>'' @ [chr 39]
      | Path \<Rightarrow> '' \"#<>?^`{}''
      | Userinfo \<Rightarrow> '' \"#<>?^`{}/:;=@['' @ [chr 92] @ '']|''
      | Component \<Rightarrow> '' \"#<>?^`{}/:;=@['' @ [chr 92] @ '']|$%&+,''
      | Form \<Rightarrow> '' \"#<>?^`{}/:;=@['' @ [chr 92] @ '']|$%&+,!'' @ [chr 39] @ ''()~'')"

definition in_set :: "code_point \<Rightarrow> encode_set \<Rightarrow> bool" where
  "in_set c es \<longleftrightarrow> c < 0x20 \<or> c > 0x7E \<or> chr c \<in> set (set_chars es)"

definition hex_digits :: string where
  "hex_digits = ''0123456789ABCDEF''"

definition escape :: "char \<Rightarrow> string" where
  "escape each = [CHR ''%'', hex_digits ! drop_bit 4 (byte each), hex_digits ! (byte each AND 0x0F)]"

definition percent_encode_point :: "string \<Rightarrow> code_point \<Rightarrow> encode_set \<Rightarrow> string" where
  "percent_encode_point out c es =
     (if \<not> in_set c es then out @ [chr c] else out @ concat (map escape (append_scalar [] c)))"

definition percent_encode :: "code_point list \<Rightarrow> encode_set \<Rightarrow> string" where
  "percent_encode s es = foldl (\<lambda>out c. percent_encode_point out c es) [] s"

section \<open>Percent decoding\<close>

fun percent_decode :: "string \<Rightarrow> string" where
  "percent_decode [] = []"
| "percent_decode (c # h # l # rest) =
     (let high = (if c = CHR ''%'' then hex_value h else -1);
          low = (if high < 0 then -1 else hex_value l)
      in if low < 0 then c # percent_decode (h # l # rest)
         else chr (nat (high * 16 + low)) # percent_decode rest)"
| "percent_decode (c # cs) = c # percent_decode cs"

section \<open>Special schemes\<close>

definition default_port :: "string \<Rightarrow> nat option" where
  "default_port scheme =
     (if scheme = ''http'' \<or> scheme = ''ws'' then Some 80
      else if scheme = ''https'' \<or> scheme = ''wss'' then Some 443
      else if scheme = ''ftp'' then Some 21
      else None)"

definition special_scheme :: "string \<Rightarrow> bool" where
  "special_scheme scheme \<longleftrightarrow> scheme = ''file'' \<or> default_port scheme \<noteq> None"

section \<open>Scalar values\<close>

definition is_scalar :: "code_point \<Rightarrow> bool" where
  "is_scalar c \<longleftrightarrow> \<not> is_surrogate c \<and> c \<le> 0x10FFFF"

text \<open>A well-formed UTF-8 text.\<close>

definition utf8_text :: "string \<Rightarrow> bool" where
  "utf8_text s \<longleftrightarrow> (\<exists>cps. (\<forall>c \<in> set cps. is_scalar c) \<and> s = concat (map utf8 cps))"

lemma utf8_of_concat: "utf8_of s = concat (map (\<lambda>c. utf8 (scalar c)) s)"
proof -
  have "foldl append_scalar out s = out @ concat (map (\<lambda>c. utf8 (scalar c)) s)" for out
    by (induction s arbitrary: out) (simp_all add: append_scalar_def append_utf8_def)
  then show ?thesis by (simp add: utf8_of_def)
qed

lemma scalar_scalar [simp]: "is_scalar (scalar c)"
  by (simp add: scalar_def is_scalar_def is_surrogate_def)

lemma scalar_id [simp]: "is_scalar c \<Longrightarrow> scalar c = c"
  by (auto simp: scalar_def is_scalar_def)

lemma scalar_bound: "is_scalar c \<Longrightarrow> c < 0x200000"
  by (simp add: is_scalar_def)

lemma ascii_scalar [simp]: "c < 0x80 \<Longrightarrow> is_scalar c"
  by (simp add: is_scalar_def is_surrogate_def)

lemma utf8_text_utf8_of [simp]: "utf8_text (utf8_of s)"
  unfolding utf8_text_def utf8_of_concat
  by (intro exI [of _ "map scalar s"]) (simp add: comp_def)

lemma utf8_of_scalars: "\<forall>c \<in> set s. is_scalar c \<Longrightarrow> utf8_of s = concat (map utf8 s)"
  unfolding utf8_of_concat by (intro arg_cong [of _ _ concat]) simp

lemma decode_utf8_scalar:
  assumes "is_scalar v"
  obtains c cs where "utf8 v = c # cs" "decode_utf8 c (cs @ rest) = (v, Suc (length cs))"
  using decode_utf8_encoded [OF scalar_bound [OF assms], of rest] by auto

lemma code_points_encoded:
  assumes "is_scalar v"
  shows "code_points (utf8 v @ rest) = v # code_points rest"
  using assms
proof (rule decode_utf8_scalar)
  fix c cs
  assume "utf8 v = c # cs" "decode_utf8 c (cs @ rest) = (v, Suc (length cs))"
  then show ?thesis by simp
qed

lemma code_points_text: "\<forall>c \<in> set s. is_scalar c \<Longrightarrow> code_points (concat (map utf8 s)) = s"
  by (induction s) (simp_all add: code_points_encoded)

lemma utf8_one: "is_scalar v \<Longrightarrow> length (utf8 v) = Suc 0 \<longleftrightarrow> v < 0x80"
  by (simp add: utf8_def)

lemma decode_replacing_encoded:
  assumes "is_scalar v"
  shows "decode_replacing (utf8 v @ rest) = v # decode_replacing rest"
  using assms
proof (rule decode_utf8_scalar)
  fix c cs
  assume u: "utf8 v = c # cs" "decode_utf8 c (cs @ rest) = (v, Suc (length cs))"
  then have "\<not> (v \<ge> 0x80 \<and> length cs = 0)"
    using utf8_one [OF assms] by auto
  then show ?thesis
    using u assms by (auto simp: is_scalar_def)
qed

lemma decode_replacing_text: "\<forall>c \<in> set s. is_scalar c \<Longrightarrow> decode_replacing (concat (map utf8 s)) = s"
  by (induction s) (simp_all add: decode_replacing_encoded)

lemma replaced_scalar: "is_scalar (if P \<or> is_surrogate c \<or> c > 0x10FFFF then 0xFFFD else c)"
  by (auto simp: is_scalar_def is_surrogate_def)

lemma decode_replacing_scalar: "\<forall>c \<in> set (decode_replacing s). is_scalar c"
proof (induction s rule: decode_replacing.induct)
  case (2 b bs)
  obtain c n where c: "decode_utf8 b bs = (c, n)" by fastforce
  show ?case
    using 2 [OF c [symmetric] refl] replaced_scalar [of "c \<ge> 0x80 \<and> n = 1" c]
    by (simp only: decode_replacing.simps c Let_def prod.case list.set ball_simps)
qed simp

section \<open>Percent encoding\<close>

abbreviation encoded :: "encode_set \<Rightarrow> code_point \<Rightarrow> string" where
  "encoded es c \<equiv> percent_encode_point [] c es"

lemma percent_encode_point_append: "percent_encode_point out c es = out @ encoded es c"
  by (simp add: percent_encode_point_def)

lemma percent_encode_concat: "percent_encode s es = concat (map (encoded es) s)"
proof -
  have "foldl (\<lambda>out c. percent_encode_point out c es) out s = out @ concat (map (encoded es) s)" for out
  proof (induction s arbitrary: out)
    case (Cons c s)
    then show ?case
      using percent_encode_point_append [of out c es] by simp
  qed simp
  then show ?thesis by (simp add: percent_encode_def)
qed

lemma all_below: "list_all P [0..<n] \<Longrightarrow> k < n \<Longrightarrow> P k" for k :: nat
  by (auto simp: list_all_iff)

lemma hex_digit: "k < 16 \<Longrightarrow> hex_value (hex_digits ! k) = int k"
  by (rule all_below [of "\<lambda>k. hex_value (hex_digits ! k) = int k" 16])
    (simp_all add: upt_rec hex_value_def hex_digits_def between_def)

lemma hex_digit_plain: "k < 16 \<Longrightarrow> hex_digits ! k \<in> set hex_digits"
  by (rule nth_mem) (simp add: hex_digits_def)

lemma escape_hex:
  "escape c = [CHR ''%'', hex_digits ! (byte c div 16), hex_digits ! (byte c mod 16)]"
  "hex_value (hex_digits ! (byte c div 16)) = int (byte c div 16)"
  "hex_value (hex_digits ! (byte c mod 16)) = int (byte c mod 16)"
proof -
  have "byte c div 16 < 16"
    using byte_less [of c] by (intro less_mult_imp_div_less) simp
  then show "hex_value (hex_digits ! (byte c div 16)) = int (byte c div 16)"
    by (rule hex_digit)
qed (simp_all add: escape_def bits hex_digit)

lemma percent_decode_escape: "percent_decode (escape c @ rest) = c # percent_decode rest"
proof -
  have "nat (int (byte c div 16) * 16 + int (byte c mod 16)) = byte c"
    by (metis div_mult_mod_eq nat_int of_nat_add of_nat_mult of_nat_numeral)
  then show ?thesis
    by (simp add: escape_hex)
qed

lemma percent_decode_escapes: "percent_decode (concat (map escape s) @ rest) = s @ percent_decode rest"
  by (induction s) (simp_all add: percent_decode_escape)

lemma percent_decode_plain: "c \<noteq> CHR ''%'' \<Longrightarrow> percent_decode (c # rest) = c # percent_decode rest"
  by (cases rest rule: remdups_adj.cases) simp_all

lemma percent_decode_encoded:
  assumes "in_set 37 es"
  shows "percent_decode (encoded es c @ rest) = utf8 (scalar c) @ percent_decode rest"
proof (cases "in_set c es")
  case True
  then show ?thesis
    by (simp add: percent_encode_point_def append_scalar_def append_utf8_def percent_decode_escapes)
next
  case False
  then have c: "c < 0x7F" "c \<noteq> 37"
    using assms by (auto simp: in_set_def)
  then have "chr c \<noteq> CHR ''%''"
    by (simp add: chr_eq_iff)
  with False c show ?thesis
    by (simp add: percent_encode_point_def percent_decode_plain utf8_def)
qed

lemma percent_decode_encode:
  assumes "in_set 37 es"
  shows "percent_decode (percent_encode s es) = utf8_of s"
proof -
  have "percent_decode (concat (map (encoded es) s) @ []) = concat (map (\<lambda>c. utf8 (scalar c)) s)"
    by (induction s) (simp_all add: percent_decode_encoded [OF assms])
  then show ?thesis
    by (simp add: percent_encode_concat utf8_of_concat)
qed

end
