(* ===== verification/Uri.thy ===== *)
theory Uri
  imports Url_Encoding
begin

text \<open>
  \<^verbatim>\<open>decodeURI\<close> and \<^verbatim>\<open>decodeURIComponent\<close> (\<^verbatim>\<open>lib/Core/uri.cpp\<close>). The loop is a recursion over
  the unread text; \<open>None\<close> is the \<^verbatim>\<open>nullopt\<close> that becomes a URIError. What is shown: the decoder
  only lets through escapes that spell well-formed UTF-8, so well-formed text decodes to well-formed
  text, and it undoes percent-encoding.
\<close>

section \<open>The decoder\<close>

definition hex_pair :: "char \<Rightarrow> char \<Rightarrow> nat" where
  "hex_pair h l = nat (hex_value h * 16 + hex_value l)"

text \<open>The \<open>k\<close> continuation escapes after a lead byte: the bytes read and the code built.\<close>

fun uri_conts :: "nat \<Rightarrow> nat \<Rightarrow> string \<Rightarrow> (string \<times> nat) option" where
  "uri_conts 0 code s = Some ([], code)"
| "uri_conts (Suc k) code (c # h # l # rest) =
     (if c \<noteq> CHR ''%'' \<or> hex_value h < 0 \<or> hex_value l < 0 then None
      else let cont = hex_pair h l in
        if cont AND 0xC0 \<noteq> 0x80 then None
        else case uri_conts k (push_bit 6 code OR (cont AND 0x3F)) rest of
               None \<Rightarrow> None
             | Some (bytes, built) \<Rightarrow> Some (chr cont # bytes, built))"
| "uri_conts (Suc k) code s = None"

definition sequence_length :: "nat \<Rightarrow> nat" where
  "sequence_length b =
     (if b AND 0xE0 = 0xC0 then 2 else if b AND 0xF0 = 0xE0 then 3
      else if b AND 0xF8 = 0xF0 then 4 else 0)"

definition floor_of :: "nat \<Rightarrow> nat" where
  "floor_of n = [0, 0, 0x80, 0x800, 0x10000] ! n"

text \<open>A multi-byte sequence whose lead escape \<open>b\<close> has been read: the bytes of the whole sequence.\<close>

definition uri_sequence :: "nat \<Rightarrow> string \<Rightarrow> string option" where
  "uri_sequence b rest =
     (let n = sequence_length b in
      if n = 0 \<or> b < 0xC2 \<or> b > 0xF4 \<or> 3 * n > 3 + length rest then None
      else case uri_conts (n - 1) (b AND drop_bit (n + 1) 0xFF) rest of
             None \<Rightarrow> None
           | Some (bytes, code) \<Rightarrow>
               if code < floor_of n \<or> code > 0x10FFFF \<or> 0xD800 \<le> code \<and> code \<le> 0xDFFF then None
               else Some (chr b # bytes))"

function uri_decode :: "string \<Rightarrow> string \<Rightarrow> string option" where
  "uri_decode keep [] = Some []"
| "uri_decode keep (c # cs) =
     (if c \<noteq> CHR ''%'' then map_option (\<lambda>out. c # out) (uri_decode keep cs)
      else if length cs < 2 \<or> hex_value (cs ! 0) < 0 \<or> hex_value (cs ! 1) < 0 then None
      else let b = hex_pair (cs ! 0) (cs ! 1) in
        if b < 0x80 then
          map_option (\<lambda>out. (if chr b \<in> set keep then take 3 (c # cs) else [chr b]) @ out)
            (uri_decode keep (drop 2 cs))
        else case uri_sequence b (drop 2 cs) of
               None \<Rightarrow> None
             | Some bytes \<Rightarrow>
                 map_option (\<lambda>out. bytes @ out)
                   (uri_decode keep (drop (3 * sequence_length b - 1) cs)))"
  by pat_completeness auto
termination
  by (relation "measure (\<lambda>(keep, s). length s)") auto

definition decode_uri :: "string \<Rightarrow> string option" where
  "decode_uri s = uri_decode '';/?:@&=+$,#'' s"

definition decode_uri_component :: "string \<Rightarrow> string option" where
  "decode_uri_component s = uri_decode [] s"

section \<open>One escaped sequence\<close>

lemma hex_pair_less: "hex_pair h l < 256"
  using hex_value_range [of h] hex_value_range [of l] by (auto simp: hex_pair_def)

lemma hex_pair_mod [simp]: "hex_pair h l mod 256 = hex_pair h l"
  using hex_pair_less by simp

lemma byte_hex_pair: "byte (chr (hex_pair h l)) = hex_pair h l"
  using hex_pair_less by simp

text \<open>The continuation loop builds the code whose encoding it copies.\<close>

lemma uri_conts_code:
  assumes "uri_conts k code s = Some (bytes, built)"
  shows "length bytes = k \<and> (\<forall>b \<in> set bytes. cont b)
    \<and> built = foldl (\<lambda>code b. code * 64 + (byte b - 128)) code bytes"
  using assms
proof (induction k code s arbitrary: bytes built rule: uri_conts.induct)
  case (2 k code c h l rest)
  let ?c = "hex_pair h l"
  from "2.prems" obtain bs where c: "\<not> (c \<noteq> CHR ''%'' \<or> hex_value h < 0 \<or> hex_value l < 0)"
    "?c AND 0xC0 = 0x80" "bytes = chr ?c # bs"
    and IH': "uri_conts k (push_bit 6 code OR (?c AND 0x3F)) rest = Some (bs, built)"
    by (auto simp: Let_def split: if_splits option.splits)
  then have ct: "cont (chr ?c)"
    using byte_forms(4) [OF hex_pair_less] by (simp add: cont_def)
  have less: "?c - 128 < 64"
    using cont_payload [OF ct] by simp
  then have "?c AND 0x3F = ?c - 128"
    using block_mod [OF less, of 2] ct by (simp add: and_low cont_def)
  with less have "push_bit 6 code OR (?c AND 0x3F) = code * 64 + (?c - 128)"
    using or_shifted [of "?c - 128" 6 code] by (simp add: shifts)
  with "2.IH" [OF c(1) refl _ IH'] c ct show ?case
    by simp
qed auto

lemma uri_conts_numeral [simp]:
  "uri_conts (numeral k) code s = uri_conts (Suc (pred_numeral k)) code s"
  by (simp add: numeral_eq_Suc)

text \<open>The bytes of an accepted sequence are the UTF-8 of one scalar value.\<close>

lemma uri_sequence_utf8:
  assumes "uri_sequence b rest = Some bytes" and "b < 256"
  obtains v where "is_scalar v" "bytes = utf8 v" "length bytes = sequence_length b"
proof -
  let ?n = "sequence_length b"
  from assms(1) obtain cs code where n: "?n \<noteq> 0" "0xC2 \<le> b" "b \<le> 0xF4"
    and conts: "uri_conts (?n - 1) (b AND drop_bit (?n + 1) 0xFF) rest = Some (cs, code)"
    and code: "floor_of ?n \<le> code" "code \<le> 0x10FFFF" "\<not> is_surrogate code"
    and bytes: "bytes = chr b # cs"
    by (auto simp: uri_sequence_def Let_def is_surrogate_def split: if_splits option.splits)
  note cs = uri_conts_code [OF conts]
  note forms = byte_forms [OF assms(2)]
  have sc: "is_scalar code" using code by (simp add: is_scalar_def)
  have code_b: "code < 0x200000" using code by simp
  have "map byte bytes = map byte (utf8 code)"
  proof -
    consider "?n = 2" "b < 0xE0" | "?n = 3" "0xE0 \<le> b" "b < 0xF0" | "?n = 4" "0xF0 \<le> b"
      using n forms by (auto simp: sequence_length_def split: if_splits)
    then show ?thesis
    proof cases
      case 1
      then have "length cs = 1" using cs by simp
      then obtain x where x: "cs = [x]" by (auto simp: length_Suc_conv)
      have "b AND 31 = b - 192"
        using 1 n le_mod_geq [of 32 b] by (simp add: and_low mod_if)
      then have eq: "code = (b - 192) * 64 + (byte x - 128)" and ct: "cont x"
        using cs x 1 by (simp_all add: drop_bit_eq_div)
      have px: "byte x - 128 < 64" using ct by (rule cont_payload)
      have "code div 64 = b - 192" "code mod 64 = byte x - 128"
        using px by (simp_all only: eq block_div block_mod)
      moreover have "code < 0x800" "0x80 \<le> code"
        using code(1) 1 n px by (simp_all add: eq floor_of_def)
      ultimately show ?thesis
        using n ct assms(2) 1 by (simp add: utf8_bytes [OF code_b] bytes x cont_def)
    next
      case 2
      then have "length cs = Suc 1" using cs by simp
      then obtain x y where x: "cs = [x, y]" by (auto simp: length_Suc_conv)
      have "b AND 15 = b - 224"
        using 2 by (simp add: and_low mod_if)
      then have eq: "code = ((b - 224) * 64 + (byte x - 128)) * 64 + (byte y - 128)"
        and ct: "cont x" "cont y"
        using cs x 2 by (simp_all add: drop_bit_eq_div)
      have px: "byte x - 128 < 64" "byte y - 128 < 64" using ct by (auto intro: cont_payload)
      have d: "code div 64 = (b - 224) * 64 + (byte x - 128)"
        using px by (simp only: eq block_div)
      have "code mod 64 = byte y - 128"
        using px by (simp_all only: eq block_div block_mod)
      moreover from d px have "code div 64 mod 64 = byte x - 128" "code div 4096 = b - 224"
        by (simp_all only: block_div block_mod div_mult2_eq [of code 64 64, simplified])
      moreover have "0x800 \<le> code" "code < 0x10000"
        using code(1) 2 n px by (simp_all add: eq floor_of_def)
      ultimately show ?thesis
        using n ct assms(2) 2 by (simp add: utf8_bytes [OF code_b] bytes x cont_def)
    next
      case 3
      then have "length cs = Suc (Suc 1)" using cs by simp
      then obtain x y z where x: "cs = [x, y, z]" by (auto simp: length_Suc_conv)
      have "b AND 7 = b - 240"
        using 3 n by (simp add: and_low mod_if)
      then have eq: "code = (((b - 240) * 64 + (byte x - 128)) * 64 + (byte y - 128)) * 64 + (byte z - 128)"
        and ct: "cont x" "cont y" "cont z"
        using cs x 3 by (simp_all add: drop_bit_eq_div)
      have px: "byte x - 128 < 64" "byte y - 128 < 64" "byte z - 128 < 64"
        using ct by (auto intro: cont_payload)
      have d: "code div 64 = ((b - 240) * 64 + (byte x - 128)) * 64 + (byte y - 128)"
        using px by (simp only: eq block_div)
      have "code mod 64 = byte z - 128"
        using px by (simp_all only: eq block_div block_mod)
      moreover from d px have "code div 64 mod 64 = byte y - 128"
        by (simp only: block_mod)
      moreover have d2: "code div 4096 = (b - 240) * 64 + (byte x - 128)"
        using px by (simp only: d block_div div_mult2_eq [of code 64 64, simplified])
      from d2 px have "code div 4096 mod 64 = byte x - 128" "code div 262144 = b - 240"
        by (simp_all only: block_div block_mod div_mult2_eq [of code 4096 64, simplified])
      moreover have "0x10000 \<le> code"
        using code(1) 3 by (simp add: floor_of_def)
      ultimately show ?thesis
        using n ct assms(2) 3 by (simp add: utf8_bytes [OF code_b] bytes x cont_def)
    qed
  qed
  then have "bytes = utf8 code"
    by (metis (no_types, lifting) inj_map_eq_map inj_of_char)
  moreover have "length bytes = ?n"
    using cs n by (simp add: bytes)
  ultimately show thesis
    using sc that by blast
qed

section \<open>Whole texts\<close>

lemma uri_plain: "c \<noteq> CHR ''%'' \<Longrightarrow> uri_decode keep (c # cs) = map_option (\<lambda>out. c # out) (uri_decode keep cs)"
  by simp

lemma uri_plains:
  "CHR ''%'' \<notin> set s \<Longrightarrow> uri_decode keep (s @ rest) = map_option (\<lambda>out. s @ out) (uri_decode keep rest)"
  by (induction s; cases "uri_decode keep rest"; auto simp: uri_plain simp del: uri_decode.simps(2))

lemma uri_percent:
  "uri_decode keep (CHR ''%'' # h # l # r) =
     (if hex_value h < 0 \<or> hex_value l < 0 then None
      else if hex_pair h l < 0x80 then
        map_option (\<lambda>out. (if chr (hex_pair h l) \<in> set keep then [CHR ''%'', h, l]
            else [chr (hex_pair h l)]) @ out) (uri_decode keep r)
      else case uri_sequence (hex_pair h l) r of
             None \<Rightarrow> None
           | Some bytes \<Rightarrow>
               map_option (\<lambda>out. bytes @ out)
                 (uri_decode keep (drop (3 * sequence_length (hex_pair h l) - 1) (h # l # r))))"
  by (simp add: Let_def)

lemma uri_short: "length cs < 2 \<Longrightarrow> uri_decode keep (CHR ''%'' # cs) = None"
  by simp

declare uri_decode.simps(2) [simp del]

lemma utf8_text_Nil [simp]: "utf8_text []"
  unfolding utf8_text_def by (rule exI [of _ "[]"]) simp

lemma utf8_text_append: "utf8_text s \<Longrightarrow> utf8_text t \<Longrightarrow> utf8_text (s @ t)"
  unfolding utf8_text_def
proof (elim exE conjE)
  fix a b
  assume "\<forall>c \<in> set a. is_scalar c" "s = concat (map utf8 a)"
    "\<forall>c \<in> set b. is_scalar c" "t = concat (map utf8 b)"
  then show "\<exists>cps. (\<forall>c \<in> set cps. is_scalar c) \<and> s @ t = concat (map utf8 cps)"
    by (intro exI [of _ "a @ b"]) auto
qed

lemma utf8_text_utf8 [simp]: "is_scalar v \<Longrightarrow> utf8_text (utf8 v)"
  unfolding utf8_text_def by (intro exI [of _ "[v]"]) simp

lemma utf8_ascii: "byte c < 0x80 \<Longrightarrow> utf8 (byte c) = [c]"
  by (simp add: utf8_def)

lemma utf8_text_ascii [simp]: "\<forall>c \<in> set s. byte c < 0x80 \<Longrightarrow> utf8_text s"
proof (induction s)
  case (Cons c s)
  then show ?case
    using utf8_text_append [of "[c]" s] utf8_text_utf8 [of "byte c"] by (simp add: utf8_ascii)
qed simp

text \<open>A well-formed text is empty or starts with one encoded scalar value.\<close>

lemma utf8_text_cases:
  assumes "utf8_text s"
  obtains "s = []" | v t where "is_scalar v" "utf8_text t" "s = utf8 v @ t"
proof -
  from assms obtain cps where c: "\<forall>c \<in> set cps. is_scalar c" "s = concat (map utf8 cps)"
    by (auto simp: utf8_text_def)
  show thesis
  proof (cases cps)
    case Nil
    with c that(1) show thesis by simp
  next
    case (Cons v vs)
    then have "utf8_text (concat (map utf8 vs))"
      unfolding utf8_text_def using c(1) by (intro exI [of _ vs]) simp
    with c Cons show thesis
      by (intro that(2) [of v "concat (map utf8 vs)"]) simp_all
  qed
qed

lemma utf8_nonempty [simp]: "utf8 v \<noteq> []"
  by (simp add: utf8_def)

lemma utf8_lead:
  assumes "is_scalar v"
  obtains (ascii) c where "utf8 v = [c]" "byte c = v" "v < 0x80"
  | (high) "\<forall>c \<in> set (utf8 v). 0x80 \<le> byte c" "utf8 v \<noteq> []"
proof -
  have "v < 0x200000" using assms by (rule scalar_bound)
  then show thesis
    by (cases rule: utf8_cases) (use that in auto)
qed

lemma utf8_text_tail:
  assumes "utf8_text (c # s)" and "byte c < 0x80"
  shows "utf8_text s"
  using assms(1)
proof (cases rule: utf8_text_cases)
  case (2 v t)
  obtain c' r where u: "utf8 v = c' # r" by (cases "utf8 v") simp_all
  with 2 have c': "c' = c" "s = r @ t" by simp_all
  from 2(1) show ?thesis
    by (cases rule: utf8_lead) (use 2(2) u c' assms(2) in auto)
qed simp

lemma hex_value_ascii: "0 \<le> hex_value c \<Longrightarrow> byte c < 0x80"
  by (auto simp: hex_value_def between_def split: if_splits)

lemma drop_three: "drop (3 + n) (a # b # c # s) = drop n s"
  by (simp add: numeral_3_eq_3)

lemma uri_conts_tail:
  "uri_conts k code s = Some r \<Longrightarrow> utf8_text s \<Longrightarrow> utf8_text (drop (3 * k) s)"
proof (induction k code s arbitrary: r rule: uri_conts.induct)
  case (2 k code c h l rest)
  then have "byte c < 0x80" "byte h < 0x80" "byte l < 0x80"
    by (auto simp: hex_value_ascii split: if_splits)
  then have "utf8_text rest"
    using "2.prems"(2) utf8_text_tail by blast
  with 2 show ?case
    by (auto simp: Let_def drop_three split: if_splits option.splits)
qed auto

lemma uri_sequence_tail:
  assumes "uri_sequence b rest = Some bytes" "utf8_text rest"
  shows "utf8_text (drop (3 * sequence_length b - 3) rest)"
proof -
  from assms(1) obtain r where "uri_conts (sequence_length b - 1) (b AND drop_bit (sequence_length b + 1) 0xFF) rest = Some r"
    by (auto simp: uri_sequence_def Let_def split: if_splits option.splits)
  from uri_conts_tail [OF this assms(2)] show ?thesis
    by (simp add: diff_mult_distrib2)
qed

lemma uri_decode_text:
  "uri_decode keep s = Some out \<Longrightarrow> utf8_text s \<Longrightarrow> utf8_text out"
proof (induction "length s" arbitrary: s out rule: less_induct)
  case less
  from less.prems(2) show ?case
  proof (cases rule: utf8_text_cases)
    case 1
    with less.prems show ?thesis by simp
  next
    case (2 v t)
    have len: "length t < length s"
      by (simp add: 2(3))
    show ?thesis
    proof (cases "utf8 v = ''%''")
      case False
      have "CHR ''%'' \<notin> set (utf8 v)"
        using 2(1) False by (cases rule: utf8_lead) auto
      then obtain o1 where "uri_decode keep t = Some o1" "out = utf8 v @ o1"
        using less.prems(1) 2(3) by (auto simp: uri_plains)
      with less.hyps [OF len] 2 show ?thesis
        by (simp add: utf8_text_append)
    next
      case True
      with 2 less.prems(1) obtain h l r where t: "t = h # l # r" and hl: "0 \<le> hex_value h" "0 \<le> hex_value l"
        by (cases t rule: remdups_adj.cases) (auto simp: uri_percent uri_short split: if_splits)
      have r: "utf8_text r"
        using 2(2) t hl utf8_text_tail hex_value_ascii by metis
      have lens: "length (drop n r) < length s" for n using t len by simp
      let ?b = "hex_pair h l"
      show ?thesis
      proof (cases "?b < 0x80")
        case True
        then obtain o1 where o1: "uri_decode keep r = Some o1"
          "out = (if chr ?b \<in> set keep then [CHR ''%'', h, l] else [chr ?b]) @ o1"
          using less.prems(1) 2(3) t hl \<open>utf8 v = ''%''\<close> by (auto simp: uri_percent)
        have "utf8_text o1"
          using less.hyps [OF _ o1(1) r] t len by simp
        moreover have "utf8_text (if chr ?b \<in> set keep then [CHR ''%'', h, l] else [chr ?b])"
          using True hl by (auto simp: hex_value_ascii)
        ultimately show ?thesis
          unfolding o1(2) by (rule utf8_text_append [rotated])
      next
        case False
        then obtain bytes o1 where o1: "uri_sequence ?b r = Some bytes"
          "uri_decode keep (drop (3 * sequence_length ?b - 1) (h # l # r)) = Some o1" "out = bytes @ o1"
          using less.prems(1) 2(3) t hl \<open>utf8 v = ''%''\<close> by (auto simp: uri_percent split: option.splits)
        from o1(1) hex_pair_less obtain w where w: "is_scalar w" "bytes = utf8 w"
          "length bytes = sequence_length ?b" by (rule uri_sequence_utf8)
        then have "sequence_length ?b \<noteq> 0"
          by (metis length_0_conv utf8_nonempty)
        then have d: "drop (3 * sequence_length ?b - 1) (h # l # r) = drop (3 * sequence_length ?b - 3) r"
          by (cases "sequence_length ?b") (auto simp: numeral_3_eq_3)
        have "utf8_text o1"
          using less.hyps [OF lens o1(2) [unfolded d] uri_sequence_tail [OF o1(1) r]] .
        then show ?thesis
          using w by (simp add: o1(3) utf8_text_append)
      qed
    qed
  qed
qed

section \<open>Undoing percent-encoding\<close>

lemma hex_pair_escape:
  "hex_pair (hex_digits ! (byte c div 16)) (hex_digits ! (byte c mod 16)) = byte c"
  unfolding hex_pair_def escape_hex(2,3)
  by (metis div_mult_mod_eq nat_int of_nat_add of_nat_mult of_nat_numeral)

lemma hex_escape_nonneg:
  "\<not> hex_value (hex_digits ! (byte c div 16)) < 0" "\<not> hex_value (hex_digits ! (byte c mod 16)) < 0"
  by (simp_all add: escape_hex)

lemma uri_conts_escapes:
  "\<forall>b \<in> set bs. cont b \<Longrightarrow> uri_conts (length bs) code (concat (map escape bs) @ rest)
     = Some (bs, foldl (\<lambda>code b. code * 64 + (byte b - 128)) code bs)"
proof (induction bs arbitrary: code)
  case (Cons b bs)
  then have b: "byte b AND 192 = 128" "byte b - 128 < 64"
    using byte_forms(4) [of "byte b"] by (auto simp: cont_def)
  have "byte b AND 63 = byte b - 128"
    using block_mod [OF b(2), of 2] Cons.prems by (simp add: and_low cont_def)
  then have "push_bit 6 code OR (byte b AND 63) = code * 64 + (byte b - 128)"
    using or_shifted [of "byte b - 128" 6 code] b(2) by (simp add: shifts)
  with Cons b(1) show ?case
    by (simp add: escape_hex(1) hex_escape_nonneg hex_pair_escape)
qed simp

lemma uri_escape:
  "uri_decode keep (escape c @ rest) =
     (if byte c < 0x80 then
        map_option (\<lambda>out. (if c \<in> set keep then escape c else [c]) @ out) (uri_decode keep rest)
      else case uri_sequence (byte c) rest of
             None \<Rightarrow> None
           | Some bytes \<Rightarrow>
               map_option (\<lambda>out. bytes @ out)
                 (uri_decode keep (drop (3 * sequence_length (byte c) - 1) (drop 1 (escape c) @ rest))))"
  unfolding escape_hex(1) append.simps uri_percent hex_pair_escape
  by (cases "uri_decode keep rest"; cases "uri_sequence (byte c) rest"; simp add: hex_escape_nonneg)

lemma length_escapes: "length (concat (map escape bs)) = 3 * length bs"
  by (induction bs) (simp_all add: escape_def)

lemma uri_sequence_intro:
  assumes "sequence_length (byte b) = Suc (length bs)" "bs \<noteq> []"
    and "byte b AND drop_bit (length bs) 0x3F = p"
    and "foldl (\<lambda>code b. code * 64 + (byte b - 128)) p bs = v" "\<forall>b \<in> set bs. cont b"
    and "0xC2 \<le> byte b" "byte b \<le> 0xF4" "floor_of (Suc (length bs)) \<le> v" "is_scalar v"
  shows "uri_sequence (byte b) (concat (map escape bs) @ rest) = Some (b # bs)"
  using assms(6-9) uri_conts_escapes [OF assms(5), of p rest]
  by (simp add: uri_sequence_def assms(1-4) length_escapes is_scalar_def is_surrogate_def Let_def)

lemma uri_sequence_escaped:
  assumes "is_scalar v" "utf8 v = b # bs" "bs \<noteq> []"
  shows "uri_sequence (byte b) (concat (map escape bs) @ rest) = Some (utf8 v)
    \<and> sequence_length (byte b) = Suc (length bs)"
proof -
  have v: "v < 0x200000" "v \<le> 0x10FFFF"
    using assms(1) by (auto simp: is_scalar_def)
  note forms = byte_forms [of "byte b", OF byte_less]
  have "sequence_length (byte b) = Suc (length bs) \<and> 0xC2 \<le> byte b \<and> byte b \<le> 0xF4
    \<and> floor_of (Suc (length bs)) \<le> v \<and> (\<forall>b \<in> set bs. cont b)
    \<and> foldl (\<lambda>code b. code * 64 + (byte b - 128)) (byte b AND drop_bit (length bs) 0x3F) bs = v"
    using v(1)
  proof (cases rule: utf8_cases)
    case (one c)
    with assms(2,3) show ?thesis by simp
  next
    case (two c x)
    then have b: "byte b = 192 + v div 64" "bs = [x]" using assms(2) by simp_all
    have d: "2 \<le> v div 64" "v div 64 < 32"
      using two less_mult_imp_div_less [of v 32 64] by auto
    have "byte b AND 31 = v div 64"
      using block_mod [of "v div 64" 32 6] d by (simp add: b(1) and_low)
    moreover have "sequence_length (byte b) = 2" "0xC2 \<le> byte b" "byte b \<le> 0xF4"
      using forms(1) d b(1) by (simp_all add: sequence_length_def)
    ultimately show ?thesis
      using two(3,4) by (simp add: b(2) floor_of_def cont_def)
  next
    case (three c x y)
    then have b: "byte b = 224 + v div 4096" "bs = [x, y]" using assms(2) by simp_all
    have d: "v div 4096 < 16"
      using three by (intro less_mult_imp_div_less) simp
    have "byte b AND 15 = v div 4096"
      using block_mod [of "v div 4096" 16 14] d by (simp add: b(1) and_low)
    moreover have "(v div 4096 * 64 + v div 64 mod 64) * 64 + v mod 64 = v"
      by (simp add: div_mult2_eq [of v 64 64, simplified])
    moreover have "sequence_length (byte b) = 3" "0xC2 \<le> byte b" "byte b \<le> 0xF4"
      using forms(1,2) d b(1) by (simp_all add: sequence_length_def)
    ultimately show ?thesis
      using three(3-5) by (simp add: b(2) floor_of_def cont_def)
  next
    case (four c x y z)
    then have b: "byte b = 240 + v div 262144" "bs = [x, y, z]" using assms(2) by simp_all
    have d: "v div 262144 < 5"
      using v(2) by (intro less_mult_imp_div_less) simp
    have "byte b AND 7 = v div 262144"
      using block_mod [of "v div 262144" 8 30] d by (simp add: b(1) and_low)
    moreover have "((v div 262144 * 64 + v div 4096 mod 64) * 64 + v div 64 mod 64) * 64 + v mod 64 = v"
      by (simp add: div_mult2_eq [of v 64 64, simplified] div_mult2_eq [of v 4096 64, simplified])
    moreover have "sequence_length (byte b) = 4" "0xC2 \<le> byte b" "byte b \<le> 0xF4"
      using forms(1-3) d b(1) by (simp_all add: sequence_length_def)
    ultimately show ?thesis
      using four(3-6) by (simp add: b(2) floor_of_def cont_def)
  qed
  then show ?thesis
    using uri_sequence_intro [of b bs, OF _ assms(3) refl] assms(1,2) by auto
qed

text \<open>Decoding an encoded code point, for an encode set that escapes the percent sign.\<close>

lemma uri_decode_encoded:
  assumes "in_set 37 es"
  shows "uri_decode [] (encoded es c @ rest) = map_option (\<lambda>out. utf8 (scalar c) @ out) (uri_decode [] rest)"
proof (cases "in_set c es")
  case False
  then have c: "c < 0x7F" "c \<noteq> 37"
    using assms by (auto simp: in_set_def)
  then have "chr c \<noteq> CHR ''%''"
    by (simp add: chr_eq_iff)
  with False c show ?thesis
    by (simp add: percent_encode_point_def uri_plain utf8_def)
next
  case True
  have sc: "is_scalar (scalar c)" by simp
  have enc: "encoded es c = concat (map escape (utf8 (scalar c)))"
    using True by (simp add: percent_encode_point_def append_scalar_def append_utf8_def)
  from sc show ?thesis
  proof (cases rule: utf8_lead)
    case (ascii d)
    then show ?thesis by (cases "uri_decode [] rest") (simp_all add: enc uri_escape)
  next
    case high
    obtain b bs where u: "utf8 (scalar c) = b # bs" by (cases "utf8 (scalar c)") simp_all
    have "bs \<noteq> []"
    proof
      assume "bs = []"
      then have "scalar c < 0x80" using u utf8_one [OF sc] by simp
      with high u show False by (simp add: utf8_def)
    qed
    note seq = uri_sequence_escaped [OF sc u this, of rest]
    have "drop (3 * Suc (length bs) - 1) (drop 1 (escape b) @ concat (map escape bs) @ rest) = rest"
      by (simp add: length_escapes escape_def)
    with seq high u show ?thesis
      by (cases "uri_decode [] rest") (simp_all add: enc uri_escape del: drop_append)
  qed
qed

section \<open>The properties\<close>

text \<open>
  C38: Decoding never manufactures malformed text: what \<^verbatim>\<open>decodeURI\<close> and
  \<^verbatim>\<open>decodeURIComponent\<close> make of a well-formed text, when they accept it, is well-formed UTF-8.
  Truncated, overlong, surrogate and out-of-range escapes are all refused.
\<close>

theorem uri_decode_wellformed:
  assumes "utf8_text s"
  shows "(\<forall>out. decode_uri s = Some out \<longrightarrow> utf8_text out)
    \<and> (\<forall>out. decode_uri_component s = Some out \<longrightarrow> utf8_text out)"
  using uri_decode_text [OF _ assms] by (simp add: decode_uri_def decode_uri_component_def)

text \<open>An escaped euro sign is accepted, the surrogate \<^verbatim>\<open>%ED%A0%80\<close> and the overlong
  \<^verbatim>\<open>%C0%AF\<close> are not.\<close>

theorem uri_decode_wellformed_witness:
  "decode_uri_component ''%E2%82%AC'' = Some (map chr [0xE2, 0x82, 0xAC])
    \<and> utf8_text (map chr [0xE2, 0x82, 0xAC])
    \<and> decode_uri_component ''%ED%A0%80'' = None \<and> decode_uri_component ''%C0%AF'' = None"
proof -
  have accepted: "decode_uri_component ''%E2%82%AC'' = Some (map chr [0xE2, 0x82, 0xAC])"
    by (simp add: decode_uri_component_def uri_percent hex_pair_def hex_value_def between_def
        uri_sequence_def sequence_length_def floor_of_def drop_bit_eq_div bits)
  have "utf8_text (map chr [0xE2, 0x82, 0xAC])"
    using uri_decode_wellformed [of "''%E2%82%AC''"] accepted by simp
  with accepted show ?thesis
    by (simp add: decode_uri_component_def uri_percent hex_pair_def hex_value_def between_def
        uri_sequence_def sequence_length_def floor_of_def drop_bit_eq_div bits)
qed

text \<open>
  C39: \<^verbatim>\<open>decodeURIComponent\<close> and the lenient percent-decoder both undo percent-encoding with a set
  that escapes the percent sign, as the component and form sets do: the result is the UTF-8 of the
  code points, each surrogate or out-of-range value replaced by U+FFFD.
\<close>

theorem percent_round:
  assumes "es = Component \<or> es = Form"
  shows "decode_uri_component (percent_encode s es) = Some (utf8_of s)
    \<and> percent_decode (percent_encode s es) = utf8_of s"
proof -
  have es: "in_set 37 es"
    using assms by (auto simp: in_set_def set_chars_def chr_eq_iff)
  have "uri_decode [] (concat (map (encoded es) s)) = Some (concat (map (\<lambda>c. utf8 (scalar c)) s))"
    by (induction s) (simp_all add: uri_decode_encoded [OF es])
  with percent_decode_encode [OF es] show ?thesis
    by (simp add: decode_uri_component_def percent_encode_concat utf8_of_concat)
qed

theorem percent_round_witness:
  "percent_encode [37, 0x20AC] Component = ''%25%E2%82%AC''
    \<and> decode_uri_component ''%25%E2%82%AC'' = Some (utf8_of [37, 0x20AC])
    \<and> percent_decode ''%25%E2%82%AC'' = utf8_of [37, 0x20AC]"
proof -
  have "percent_encode [37, 0x20AC] Component = ''%25%E2%82%AC''"
    by (simp add: percent_encode_concat percent_encode_point_def in_set_def set_chars_def chr_eq_iff
        append_scalar_def append_utf8_def scalar_def is_surrogate_def utf8_def escape_def
        hex_digits_def bits)
  with percent_round [of Component "[37, 0x20AC]"] show ?thesis
    by simp
qed

end
