(* ===== verification/Url_Ip.thy ===== *)
theory Url_Ip
  imports Url_Encoding
begin

text \<open>
  IPv4 and IPv6 addresses in URL hosts (\<^verbatim>\<open>lib/Shell/net/url_unicode.cpp\<close>): the number parser with
  its saturation, the "ends in a number" test, the IPv4 and IPv6 parsers and the IPv6 serialiser.
  The parsers read code points; a result is the serialised address. In the IPv6 parser the eight
  pieces are a list of eight numbers, written through \<open>put\<close>, which is a fault outside of it.
\<close>

section \<open>IPv4\<close>

definition ipv4_radix :: "code_point list \<Rightarrow> nat \<times> code_point list" where
  "ipv4_radix input =
     (if length input \<ge> 2 \<and> input ! 0 = byte (CHR ''0'') \<and> lower (input ! 1) = byte (CHR ''x'')
      then (16, drop 2 input)
      else if length input \<ge> 2 \<and> input ! 0 = byte (CHR ''0'') then (8, drop 1 input)
      else (10, input))"

fun ipv4_digits :: "nat \<Rightarrow> nat \<Rightarrow> code_point list \<Rightarrow> nat option" where
  "ipv4_digits radix value [] = Some value"
| "ipv4_digits radix value (c # cs) =
     (let digit = (if c < 0x80 then hex_value (chr c) else -1) in
      if digit < 0 \<or> digit \<ge> int radix then None
      else ipv4_digits radix (min (value * radix + nat digit) (2 ^ 40)) cs)"

definition ipv4_number :: "code_point list \<Rightarrow> nat option" where
  "ipv4_number input =
     (if input = [] then None
      else let (radix, digits) = ipv4_radix input
        in if digits = [] then Some 0 else ipv4_digits radix 0 digits)"

fun split_dots :: "code_point list \<Rightarrow> code_point list list" where
  "split_dots [] = [[]]"
| "split_dots (c # cs) =
     (if c = byte (CHR ''.'') then [] # split_dots cs
      else (c # hd (split_dots cs)) # tl (split_dots cs))"

definition ends_in_a_number :: "code_point list \<Rightarrow> bool" where
  "ends_in_a_number input =
     (let parts = split_dots input in
      if last parts = [] \<and> length parts = 1 then False
      else let last_part = last (if last parts = [] then butlast parts else parts)
        in (last_part \<noteq> [] \<and> (\<forall>c \<in> set last_part. is_digit c)) \<or> ipv4_number last_part \<noteq> None)"

fun ipv4_numbers :: "code_point list list \<Rightarrow> nat list option" where
  "ipv4_numbers [] = Some []"
| "ipv4_numbers (part # parts) =
     (case ipv4_number part of
        None \<Rightarrow> None
      | Some n \<Rightarrow> map_option (\<lambda>ns. n # ns) (ipv4_numbers parts))"

text \<open>The address a list of numbers stands for: all but the last are single bytes, and the last
  fills what is left.\<close>

definition ipv4_value :: "nat list \<Rightarrow> nat option" where
  "ipv4_value numbers =
     (if \<exists>n \<in> set (butlast numbers). n > 255 then None
      else if last numbers \<ge> 2 ^ (8 * (5 - length numbers)) then None
      else Some (last numbers
             + sum_list (map (\<lambda>i. push_bit (8 * (3 - i)) (numbers ! i)) [0..<length numbers - 1])))"

definition ipv4_text :: "nat \<Rightarrow> string" where
  "ipv4_text ipv4 =
     decimal (drop_bit 24 ipv4 AND 0xFF) @ ''.'' @ decimal (drop_bit 16 ipv4 AND 0xFF) @ ''.''
     @ decimal (drop_bit 8 ipv4 AND 0xFF) @ ''.'' @ decimal (drop_bit 0 ipv4 AND 0xFF)"

definition ipv4_address :: "code_point list \<Rightarrow> nat option" where
  "ipv4_address input =
     (let parts = split_dots input;
          parts = (if last parts = [] \<and> length parts > 1 then butlast parts else parts)
      in if length parts > 4 then None
         else case ipv4_numbers parts of None \<Rightarrow> None | Some numbers \<Rightarrow> ipv4_value numbers)"

definition parse_ipv4 :: "code_point list \<Rightarrow> string option" where
  "parse_ipv4 input = map_option ipv4_text (ipv4_address input)"

section \<open>IPv6: reading\<close>

definition put :: "nat list \<Rightarrow> nat \<Rightarrow> nat \<Rightarrow> nat list outcome" where
  "put address piece v = (if piece < length address then Value (address[piece := v mod 2 ^ 16]) else Fault)"

text \<open>Up to \<open>k\<close> hex digits: the value, how many there were, and the rest of the input.\<close>

fun read_hex :: "nat \<Rightarrow> nat \<Rightarrow> code_point list \<Rightarrow> nat \<times> nat \<times> code_point list" where
  "read_hex (Suc k) value (c # cs) =
     (if is_hex c
      then let (v, len, rest) = read_hex k (value * 16 + nat (hex_value (chr c))) cs
        in (v, Suc len, rest)
      else (value, 0, c # cs))"
| "read_hex k value cs = (value, 0, cs)"

text \<open>The decimal digits of one part of an embedded IPv4 address.\<close>

fun read_octet :: "nat option \<Rightarrow> code_point list \<Rightarrow> (nat option \<times> code_point list) option" where
  "read_octet sofar (c # cs) =
     (if is_digit c
      then let number = c - byte (CHR ''0'') in
        case sofar of
          None \<Rightarrow> if number > 255 then None else read_octet (Some number) cs
        | Some v \<Rightarrow>
            if v = 0 then None
            else if v * 10 + number > 255 then None
            else read_octet (Some (v * 10 + number)) cs
      else Some (sofar, c # cs))"
| "read_octet sofar [] = Some (sofar, [])"

lemma read_octet_shorter: "read_octet sofar cs = Some (v, rest) \<Longrightarrow> length rest \<le> length cs"
  by (induction sofar cs rule: read_octet.induct)
    (auto simp: Let_def intro: le_SucI split: if_splits option.splits)

lemma read_octet_digit:
  assumes "read_octet None s = Some (v, rest)" "s \<noteq> []" "is_digit (hd s)"
  shows "length rest < length s"
proof -
  from assms(2) obtain c cs where s: "s = c # cs" by (cases s) auto
  with assms obtain n where "read_octet (Some n) cs = Some (v, rest)"
    by (auto simp: Let_def split: if_splits)
  then have "length rest \<le> length cs" by (rule read_octet_shorter)
  with s show ?thesis by simp
qed

text \<open>The embedded IPv4 address: the loop after \<open>numbers_seen\<close> parts.\<close>

function ipv6_ipv4 :: "nat list \<Rightarrow> nat \<Rightarrow> nat \<Rightarrow> code_point list \<Rightarrow> (nat list \<times> nat) outcome" where
  "ipv6_ipv4 address piece seen s =
     (if s = [] then (if seen \<noteq> 4 then Failure else Value (address, piece))
      else if seen > 0 \<and> \<not> (hd s = byte (CHR ''.'') \<and> seen < 4) then Failure
      else let s' = (if seen > 0 then tl s else s) in
        if s' = [] \<or> \<not> is_digit (hd s') then Failure
        else case read_octet None s' of
               None \<Rightarrow> Failure
             | Some (v, rest) \<Rightarrow>
                 if \<not> piece < length address then Fault
                 else ipv6_ipv4 (address[piece := (address ! piece * 0x100 + the v) mod 2 ^ 16])
                        (if seen + 1 = 2 \<or> seen + 1 = 4 then piece + 1 else piece) (seen + 1) rest)"
  by pat_completeness auto
termination
proof (relation "measure (\<lambda>(a, p, n, s). length s)")
  fix address and piece seen :: nat and s s' :: "code_point list" and v rest and r :: "nat option \<times> code_point list"
  assume "s \<noteq> []" "s' = (if seen > 0 then tl s else s)" "\<not> (s' = [] \<or> \<not> is_digit (hd s'))"
    "read_octet None s' = Some r" "(v, rest) = r"
  then have "length rest < length s'" "length s' \<le> length s"
    using read_octet_digit [of s' v rest] by (auto split: if_splits)
  then show "((address[piece := (address ! piece * 0x100 + the v) mod 2 ^ 16],
      if seen + 1 = 2 \<or> seen + 1 = 4 then piece + 1 else piece, seen + 1, rest),
      address, piece, seen, s) \<in> measure (\<lambda>(a, p, n, s). length s)"
    by simp
qed simp

declare ipv6_ipv4.simps [simp del]

lemma read_hex_shorter: "length (snd (snd (read_hex k v cs))) \<le> length cs"
  by (induction k v cs rule: read_hex.induct) (auto simp: case_prod_unfold Let_def intro: le_SucI)

text \<open>The main loop; it answers the pieces, how many are filled and where \<open>::\<close> stood.\<close>

function ipv6_loop ::
  "nat list \<Rightarrow> nat \<Rightarrow> nat option \<Rightarrow> code_point list \<Rightarrow> (nat list \<times> nat \<times> nat option) outcome" where
  "ipv6_loop address piece compress [] = Value (address, piece, compress)"
| "ipv6_loop address piece compress (c # cs) =
     (if piece = 8 then Failure
      else if c = byte (CHR '':'') then
        (if compress \<noteq> None then Failure
         else ipv6_loop address (piece + 1) (Some (piece + 1)) cs)
      else let (value, len, rest) = read_hex 4 0 (c # cs) in
        if rest \<noteq> [] \<and> hd rest = byte (CHR ''.'') then
          (if len = 0 then Failure
           else if piece > 6 then Failure
           else bind_outcome (ipv6_ipv4 address piece 0 (c # cs))
                  (\<lambda>(address, piece). Value (address, piece, compress)))
        else if rest \<noteq> [] \<and> hd rest = byte (CHR '':'') then
          (if tl rest = [] then Failure
           else case put address piece value of
                  Value address \<Rightarrow> ipv6_loop address (piece + 1) compress (tl rest)
                | Failure \<Rightarrow> Failure | Fault \<Rightarrow> Fault)
        else if rest \<noteq> [] then Failure
        else case put address piece value of
               Value address \<Rightarrow> ipv6_loop address (piece + 1) compress []
             | Failure \<Rightarrow> Failure | Fault \<Rightarrow> Fault)"
  by pat_completeness auto
termination
proof (relation "measure (\<lambda>(a, p, z, s). length s)")
  fix address address' and piece v len :: nat and compress and c :: code_point and cs rest x y
  assume "x = read_hex 4 0 (c # cs)" "(v, y) = x" "(len, rest) = y"
    "\<not> (rest \<noteq> [] \<and> hd rest = byte (CHR ''.''))" "rest \<noteq> [] \<and> hd rest = byte (CHR '':'')"
    "tl rest \<noteq> []"
  then have "rest \<noteq> []" "length rest \<le> length (c # cs)"
    using read_hex_shorter [of 4 0 "c # cs"] by (metis snd_conv)+
  then show "((address', piece + 1, compress, tl rest), address, piece, compress, c # cs)
      \<in> measure (\<lambda>(a, p, z, s). length s)"
    by (cases rest) simp_all
qed simp_all

text \<open>The pieces after \<open>::\<close> are swapped to the end; both indices stay inside the eight pieces.\<close>

fun ipv6_swaps :: "nat list \<Rightarrow> nat \<Rightarrow> nat \<Rightarrow> nat \<Rightarrow> nat list outcome" where
  "ipv6_swaps address compress (Suc piece) (Suc swaps) =
     (if Suc piece < length address \<and> compress + swaps < length address
      then ipv6_swaps
             (address[Suc piece := address ! (compress + swaps), compress + swaps := address ! Suc piece])
             compress piece swaps
      else Fault)"
| "ipv6_swaps address compress piece swaps = Value address"

definition ipv6_address :: "code_point list \<Rightarrow> nat list outcome" where
  "ipv6_address input =
     (let zero = replicate 8 0;
          loop = (if input \<noteq> [] \<and> hd input = byte (CHR '':'')
                  then if tl input \<noteq> [] \<and> hd (tl input) = byte (CHR '':'')
                       then ipv6_loop zero 1 (Some 1) (drop 2 input)
                       else Failure
                  else ipv6_loop zero 0 None input)
      in bind_outcome loop (\<lambda>(address, piece, compress).
           case compress of
             Some z \<Rightarrow> ipv6_swaps address z 7 (piece - z)
           | None \<Rightarrow> if piece \<noteq> 8 then Failure else Value address))"

section \<open>IPv6: writing\<close>

definition hex_lower :: string where
  "hex_lower = ''0123456789abcdef''"

lemma drop_nibble [termination_simp]: "0 < drop_bit 4 v \<Longrightarrow> drop_bit 4 v < v" for v :: nat
  by (cases "v = 0") (simp_all add: drop_bit_eq_div)

text \<open>The hex digits of one piece, without leading zeros.\<close>

fun hex_text :: "nat \<Rightarrow> string" where
  "hex_text v = (if drop_bit 4 v \<noteq> 0 then hex_text (drop_bit 4 v) else []) @ [hex_lower ! (v AND 0xF)]"

declare hex_text.simps [simp del]

text \<open>The first longest run of zero pieces, of two or more: \<open>(8, 1)\<close> when there is none.\<close>

definition zero_run :: "nat list \<Rightarrow> nat" where
  "zero_run pieces = length (takeWhile (\<lambda>v. v = 0) pieces)"

function best_run :: "nat \<Rightarrow> nat list \<Rightarrow> nat \<Rightarrow> nat \<Rightarrow> nat \<times> nat" where
  "best_run i [] best_start best_length = (best_start, best_length)"
| "best_run i (v # vs) best_start best_length =
     (if v \<noteq> 0 then best_run (i + 1) vs best_start best_length
      else let run = zero_run (v # vs) in
        if run > best_length then best_run (i + run) (drop run (v # vs)) i run
        else best_run (i + run) (drop run (v # vs)) best_start best_length)"
  by pat_completeness auto
termination
  by (relation "measure (\<lambda>(i, vs, b, l). length vs)") (auto simp: zero_run_def)

fun ipv6_pieces :: "nat \<Rightarrow> bool \<Rightarrow> nat \<Rightarrow> nat list \<Rightarrow> string" where
  "ipv6_pieces best_start ignore_zero i [] = []"
| "ipv6_pieces best_start ignore_zero i (v # vs) =
     (if ignore_zero \<and> v = 0 then ipv6_pieces best_start ignore_zero (i + 1) vs
      else if best_start = i
           then (if i = 0 then ''::'' else '':'') @ ipv6_pieces best_start True (i + 1) vs
      else hex_text v @ (if i \<noteq> 7 then '':'' else []) @ ipv6_pieces best_start False (i + 1) vs)"

definition ipv6_text :: "nat list \<Rightarrow> string" where
  "ipv6_text address = ''['' @ ipv6_pieces (fst (best_run 0 address 8 1)) False 0 address @ '']''"

definition parse_ipv6 :: "code_point list \<Rightarrow> string outcome" where
  "parse_ipv6 input = bind_outcome (ipv6_address input) (\<lambda>address. Value (ipv6_text address))"

section \<open>Hex numbers\<close>

lemma hex_text_nonempty [simp]: "hex_text v \<noteq> []"
  by (subst hex_text.simps) simp

definition nib :: "nat \<Rightarrow> char" where
  "nib d = hex_lower ! d"

lemma nib_value: "d < 16 \<Longrightarrow> hex_value (nib d) = int d \<and> byte (nib d) < 0x80
    \<and> nib d \<noteq> CHR '':'' \<and> nib d \<noteq> CHR ''.'' \<and> nib d \<noteq> CHR '']'' \<and> nib d \<noteq> CHR ''%''"
  by (rule all_below [of "\<lambda>d. hex_value (nib d) = int d \<and> byte (nib d) < 0x80
      \<and> nib d \<noteq> CHR '':'' \<and> nib d \<noteq> CHR ''.'' \<and> nib d \<noteq> CHR '']'' \<and> nib d \<noteq> CHR ''%''" 16])
    (simp_all add: upt_rec hex_value_def nib_def hex_lower_def between_def)

lemma nib_is_hex [simp]: "d < 16 \<Longrightarrow> is_hex (byte (nib d))"
  by (simp add: is_hex_def nib_value)

text \<open>The digits of a hex text, most significant first.\<close>

definition number :: "nat \<Rightarrow> nat list \<Rightarrow> nat" where
  "number v ds = foldl (\<lambda>v d. v * 16 + d) v ds"

lemma hex_text_digits:
  "v < 16 ^ Suc k \<Longrightarrow> \<exists>ds. hex_text v = map nib ds \<and> number 0 ds = v \<and> ds \<noteq> []
     \<and> length ds \<le> Suc k \<and> (\<forall>d \<in> set ds. d < 16)"
proof (induction k arbitrary: v)
  case 0
  then show ?case
    by (intro exI [of _ "[v]"]) (subst hex_text.simps, simp add: number_def nib_def bits)
next
  case (Suc k)
  show ?case
  proof (cases "v < 16")
    case True
    then show ?thesis
      by (intro exI [of _ "[v]"]) (subst hex_text.simps, simp add: number_def nib_def bits)
  next
    case False
    have "v div 16 < 16 ^ Suc k"
      using Suc.prems by (intro less_mult_imp_div_less) simp
    then obtain ds where ds: "hex_text (v div 16) = map nib ds" "number 0 ds = v div 16" "ds \<noteq> []"
      "length ds \<le> Suc k" "\<forall>d \<in> set ds. d < 16"
      using Suc.IH by blast
    have "hex_text v = map nib (ds @ [v mod 16])"
      using False ds(1) by (subst hex_text.simps) (simp add: nib_def bits)
    moreover have "number 0 (ds @ [v mod 16]) = v"
      using ds(2) by (simp add: number_def)
    ultimately show ?thesis
      using ds(3-5) by (intro exI [of _ "ds @ [v mod 16]"]) auto
  qed
qed

lemma read_hex_digits:
  assumes "\<forall>d \<in> set ds. d < 16" "length ds \<le> k" "rest = [] \<or> \<not> is_hex (hd rest)"
  shows "read_hex k v (map byte (map nib ds) @ rest) = (number v ds, length ds, rest)"
  using assms
proof (induction ds arbitrary: k v)
  case Nil
  then show ?case
    by (cases k; cases rest) (simp_all add: number_def)
next
  case (Cons d ds)
  then obtain j where k: "k = Suc j" "length ds \<le> j" by (cases k) auto
  have "nat (hex_value (nib d)) = d" using nib_value [of d] Cons.prems(1) by simp
  with Cons k show ?case
    by (simp add: number_def nib_value)
qed

lemma hex_text_read:
  assumes "v < 2 ^ 16" "rest = [] \<or> \<not> is_hex (hd rest)"
  obtains len where "read_hex 4 0 (map byte (hex_text v) @ rest) = (v, len, rest)"
proof -
  from hex_text_digits [of v 3] assms(1) obtain ds where ds: "hex_text v = map nib ds"
    "number 0 ds = v" "length ds \<le> 4" "\<forall>d \<in> set ds. d < 16" by auto
  with read_hex_digits [OF ds(4,3) assms(2), of 0] that show thesis by simp
qed

lemma hex_text_head:
  assumes "v < 2 ^ 16"
  obtains c cs where "hex_text v = c # cs" "byte c \<noteq> byte (CHR '':'')" "is_hex (byte c)"
proof -
  from hex_text_digits [of v 3] assms obtain ds where ds: "hex_text v = map nib ds" "ds \<noteq> []"
    "\<forall>d \<in> set ds. d < 16" by auto
  then obtain d es where "ds = d # es" "d < 16" by (cases ds) auto
  with ds(1) nib_value [of d] that [of "nib d" "map nib es"] char_eq_byte [of "nib d" "CHR '':''"]
  show thesis by simp
qed

section \<open>The shape of a serialised IPv6 address\<close>

fun joined :: "nat list \<Rightarrow> string" where
  "joined [] = []"
| "joined [v] = hex_text v"
| "joined (v # vs) = hex_text v @ '':'' @ joined vs"

definition prefixed :: "nat list \<Rightarrow> string" where
  "prefixed vs = concat (map (\<lambda>v. hex_text v @ '':'') vs)"

lemma joined_Cons: "vs \<noteq> [] \<Longrightarrow> joined (v # vs) = hex_text v @ '':'' @ joined vs"
  by (cases vs) simp_all

lemma pieces_joined:
  "b < i \<or> b = 8 \<Longrightarrow> i + length vs = 8 \<Longrightarrow> ipv6_pieces b False i vs = joined vs"
proof (induction vs arbitrary: i)
  case (Cons v vs)
  then show ?case by (cases vs) auto
qed simp

lemma pieces_prefixed:
  "i + length pre = b \<Longrightarrow> b < 8 \<Longrightarrow>
     ipv6_pieces b False i (pre @ rest) = prefixed pre @ ipv6_pieces b False b rest"
  by (induction pre arbitrary: i) (auto simp: prefixed_def)

lemma pieces_skip:
  assumes "b < i" "i + length vs = 8"
  shows "ipv6_pieces b True i vs = joined (dropWhile (\<lambda>v. v = 0) vs)"
  using assms
proof (induction vs arbitrary: i)
  case (Cons v vs)
  show ?case
  proof (cases "v = 0")
    case False
    then show ?thesis
      using pieces_joined [of b "i" "v # vs"] Cons.prems by simp
  qed (use Cons in simp)
qed simp

lemma best_run_zero:
  "best_run i vs b l = (b', l') \<Longrightarrow> b' = b \<or> i \<le> b' \<and> b' - i < length vs \<and> vs ! (b' - i) = 0"
proof (induction i vs b l rule: best_run.induct)
  case (2 i v vs b l)
  define run where "run = zero_run (v # vs)"
  have ge: "v = 0 \<Longrightarrow> 0 < run" by (simp add: run_def zero_run_def)
  have later: ?case
    if "b' = x \<or> i + run \<le> b' \<and> b' - (i + run) < length (drop run (v # vs))
      \<and> drop run (v # vs) ! (b' - (i + run)) = 0" "x = b \<or> x = i \<and> v = 0" for x
  proof -
    have "b' - i = run + (b' - (i + run))" if "i + run \<le> b'" using that by simp
    with that show ?thesis by auto
  qed
  show ?case
  proof (cases "v = 0")
    case False
    with 2(1) 2(4) show ?thesis by (auto simp: nth_Cons' Suc_diff_le)
  next
    case True
    show ?thesis
    proof (cases "run > l")
      case t: True
      with True 2(2) [OF _ run_def] 2(4) have "b' = i \<or> i + run \<le> b'
          \<and> b' - (i + run) < length (drop run (v # vs)) \<and> drop run (v # vs) ! (b' - (i + run)) = 0"
        by (simp add: Let_def run_def)
      then show ?thesis by (rule later) (simp add: True)
    next
      case False
      with True 2(3) [OF _ run_def] 2(4) have "b' = b \<or> i + run \<le> b'
          \<and> b' - (i + run) < length (drop run (v # vs)) \<and> drop run (v # vs) ! (b' - (i + run)) = 0"
        by (simp add: Let_def run_def)
      then show ?thesis by (rule later) simp
    qed
  qed
qed simp

text \<open>An address is written in full, or with one run of zeros, at least one, left out.\<close>

lemma ipv6_text_cases:
  assumes "length address = 8"
  obtains (full) "ipv6_text address = ''['' @ joined address @ '']''"
  | (short) pre k post where "address = pre @ replicate (Suc k) 0 @ post"
      "ipv6_text address = ''['' @ (if pre = [] then '':'' else prefixed pre) @ '':'' @ joined post @ '']''"
proof (cases "best_run 0 address 8 1")
  case (Pair b l)
  show thesis
  proof (cases "b < 8")
    case False
    with best_run_zero [OF Pair] assms have "b = 8" by auto
    with pieces_joined [of 8 0 address] assms full Pair show thesis
      by (simp add: ipv6_text_def)
  next
    case True
    with best_run_zero [OF Pair] assms have z: "address ! b = 0" by auto
    define pre rest where "pre = take b address" and "rest = drop (Suc b) address"
    have a: "address = pre @ 0 # rest" and l: "length pre = b"
      using True assms z id_take_nth_drop [of b address] by (simp_all add: pre_def rest_def)
    define k where "k = length (takeWhile (\<lambda>v. v = 0) rest)"
    define post where "post = dropWhile (\<lambda>v. v = 0) rest"
    have "takeWhile (\<lambda>v. v = 0) rest = replicate k 0"
      unfolding k_def by (rule replicate_length_same [symmetric]) (auto dest: set_takeWhileD)
    then have "rest = replicate k 0 @ post"
      by (metis post_def takeWhile_dropWhile_id)
    then have a': "address = pre @ replicate (Suc k) 0 @ post" using a by simp
    have len: "Suc b + length rest = 8" using a l assms by simp
    have "ipv6_pieces b False 0 address = prefixed pre @ ipv6_pieces b False b (0 # rest)"
      using a l True pieces_prefixed [of 0 pre b "0 # rest"] by simp
    also have "ipv6_pieces b False b (0 # rest) = (if b = 0 then ''::'' else '':'') @ joined post"
      using pieces_skip [of b "Suc b" rest] len by (simp add: post_def)
    finally have "ipv6_text address = ''['' @ (if pre = [] then '':'' else prefixed pre) @ '':'' @ joined post @ '']''"
      using l Pair by (auto simp: ipv6_text_def prefixed_def)
    with a' show thesis by (rule short)
  qed
qed

section \<open>Reading what was written\<close>

lemma put_next: "length xs = p \<Longrightarrow> v < 2 ^ 16 \<Longrightarrow> put (xs @ 0 # ys) p v = Value (xs @ v # ys)"
  by (simp add: put_def list_update_append)

lemma byte_colon: "byte (CHR '':'') = (58 :: nat)"
  by simp

lemma is_hex_colon [simp]: "\<not> is_hex 58"
  by (simp add: is_hex_def hex_value_def between_def)

text \<open>One hex piece at the head of the input, followed by a colon or by the end.\<close>

lemma ipv6_loop_piece:
  assumes "v < 2 ^ 16" "length xs = p" "p < 8"
    "rest = [] \<or> (\<exists>more. rest = byte (CHR '':'') # more \<and> more \<noteq> [])"
  shows "ipv6_loop (xs @ 0 # ys) p z (map byte (hex_text v) @ rest) = ipv6_loop (xs @ v # ys) (p + 1) z (tl rest)"
proof -
  from assms(1) obtain c cs where c: "hex_text v = c # cs" "byte c \<noteq> 58"
    by (rule hex_text_head) simp
  from assms(4) have "rest = [] \<or> \<not> is_hex (hd rest)" by auto
  with assms(1) obtain len where "read_hex 4 0 (map byte (hex_text v) @ rest) = (v, len, rest)"
    by (rule hex_text_read)
  then have "read_hex 4 0 (byte c # map byte cs @ rest) = (v, len, rest)"
    by (simp add: c(1))
  with c(2) assms(3,4) show ?thesis
    by (auto simp: c(1) put_next [OF assms(2,1)])
qed

lemma ipv6_loop_prefixed:
  assumes "\<forall>v \<in> set pre. v < 2 ^ 16" "length xs = p" "p + length pre < 8" "length ys = length pre"
    "\<forall>y \<in> set ys. y = 0" "rest \<noteq> []"
  shows "ipv6_loop (xs @ ys @ zs) p z (map byte (prefixed pre) @ rest)
     = ipv6_loop (xs @ pre @ zs) (p + length pre) z rest"
  using assms
proof (induction pre arbitrary: xs ys p)
  case (Cons v pre)
  then obtain ys' where ys: "ys = 0 # ys'" by (cases ys) auto
  let ?more = "map byte (prefixed pre) @ rest"
  have "ipv6_loop (xs @ 0 # ys' @ zs) p z (map byte (hex_text v) @ byte (CHR '':'') # ?more)
      = ipv6_loop (xs @ v # ys' @ zs) (p + 1) z ?more"
    using Cons.prems by (subst ipv6_loop_piece) auto
  also have "xs @ v # ys' @ zs = (xs @ [v]) @ ys' @ zs" by simp
  also have "ipv6_loop \<dots> (p + 1) z ?more = ipv6_loop ((xs @ [v]) @ pre @ zs) (p + 1 + length pre) z rest"
    using Cons.prems ys by (intro Cons.IH) auto
  finally show ?case by (simp add: ys prefixed_def)
qed (simp add: prefixed_def)

lemma joined_nonempty: "vs \<noteq> [] \<Longrightarrow> joined vs \<noteq> []"
  by (cases vs rule: joined.cases) simp_all

lemma joined_prefixed: "vs \<noteq> [] \<Longrightarrow> joined vs = prefixed (butlast vs) @ hex_text (last vs)"
  by (induction vs rule: joined.induct) (simp_all add: prefixed_def)

lemma ipv6_loop_joined:
  assumes "\<forall>v \<in> set vs. v < 2 ^ 16" "length xs = p" "p + length vs \<le> 8" "length ys = length vs"
    "\<forall>y \<in> set ys. y = 0"
  shows "ipv6_loop (xs @ ys @ zs) p z (map byte (joined vs)) = Value (xs @ vs @ zs, p + length vs, z)"
proof (cases "vs = []")
  case False
  then have vs: "vs = butlast vs @ [last vs]" by simp
  then have last: "last vs < 2 ^ 16" using assms(1) by (metis last_in_set False)
  obtain ys' where ys: "ys = ys' @ [0]" "length ys' = length (butlast vs)"
    using assms(4,5) False by (cases ys rule: rev_cases) auto
  from last obtain c cs where c: "hex_text (last vs) = c # cs" by (rule hex_text_head)
  have "0 < length vs" using False by simp
  with assms(3) have room: "p + length (butlast vs) < 8"
    unfolding length_butlast by linarith
  have "ipv6_loop (xs @ ys @ zs) p z (map byte (joined vs))
      = ipv6_loop (xs @ ys' @ 0 # zs) p z (map byte (prefixed (butlast vs)) @ map byte (hex_text (last vs)))"
    by (simp add: joined_prefixed [OF False] ys(1))
  also have "\<dots> = ipv6_loop (xs @ butlast vs @ 0 # zs) (p + length (butlast vs)) z (map byte (hex_text (last vs)) @ [])"
    unfolding append_Nil2
  proof (rule ipv6_loop_prefixed)
    show "p + length (butlast vs) < 8" by (rule room)
  qed (use assms(1,2,5) ys c in \<open>auto dest: in_set_butlastD\<close>)
  also have "xs @ butlast vs @ 0 # zs = (xs @ butlast vs) @ 0 # zs" by simp
  also have "ipv6_loop \<dots> (p + length (butlast vs)) z (map byte (hex_text (last vs)) @ [])
      = ipv6_loop ((xs @ butlast vs) @ last vs # zs) (p + length (butlast vs) + 1) z (tl [])"
    using assms(2) last room by (intro ipv6_loop_piece) auto
  also have "\<dots> = Value (xs @ vs @ zs, p + length vs, z)"
    using vs by (metis (no_types, lifting) One_nat_def add.assoc append.assoc append_Cons
        append_Nil ipv6_loop.simps(1) length_append length_Cons list.sel(2) list.size(3) plus_1_eq_Suc
        add.commute)
  finally show ?thesis .
qed (use assms in simp)

text \<open>The swaps move the pieces after the gap to the end.\<close>

lemma ipv6_swaps_move:
  assumes "length a = c" "1 \<le> c" "c + length ps + g + length ds = 8"
  shows "ipv6_swaps (a @ ps @ replicate g 0 @ ds) c (c + length ps + g - 1) (length ps)
    = Value (a @ replicate g 0 @ ps @ ds)"
  using assms
proof (induction ps arbitrary: ds rule: rev_induct)
  case Nil
  then show ?case by (cases "c + g - 1") simp_all
next
  case (snoc x ps)
  let ?l = "a @ (ps @ [x]) @ replicate g 0 @ ds"
  let ?i = "c + length ps + g" and ?s = "c + length ps"
  have i: "c + Suc (length ps) + g - 1 = Suc (?i - 1)" using snoc.prems by simp
  have at: "?l ! ?s = x" "?l ! ?i = (if g = 0 then x else 0)"
    using snoc.prems by (auto simp: nth_append)
  have "?l[Suc (?i - 1) := ?l ! ?s, ?s := ?l ! Suc (?i - 1)] = a @ ps @ replicate g 0 @ x # ds"
  proof (cases g)
    case 0
    with snoc.prems at show ?thesis
      by (simp add: list_update_append nth_append)
  next
    case (Suc h)
    have "?l = (a @ ps) @ x # replicate h 0 @ 0 # ds"
      by (simp add: Suc replicate_append_same [symmetric])
    moreover have "Suc (?i - 1) = length (a @ ps) + Suc (length (replicate h (0::nat)))"
      using snoc.prems Suc by simp
    moreover have "?l ! Suc (?i - 1) = 0" "?l ! ?s = x"
      using at Suc snoc.prems by simp_all
    ultimately show ?thesis
      using snoc.prems Suc
      by (simp add: list_update_append nth_append replicate_append_same [symmetric])
  qed
  moreover have "Suc (?i - 1) < length ?l" "?s < length ?l"
    using snoc.prems by simp_all
  ultimately have "ipv6_swaps ?l c (Suc (?i - 1)) (Suc (length ps))
      = ipv6_swaps (a @ ps @ replicate g 0 @ x # ds) c (?i - 1) (length ps)"
    by (simp del: append_assoc)
  also have "\<dots> = Value (a @ replicate g 0 @ ps @ x # ds)"
    using snoc.IH [of "x # ds"] snoc.prems by simp
  finally show ?case
    by (simp only: i length_append_singleton append_assoc append_Cons append_Nil)
qed

text \<open>The eight pieces a parse answers with are those the serialiser was given.\<close>

lemma ipv6_address_text:
  assumes "length address = 8" "\<forall>v \<in> set address. v < 2 ^ 16"
    and "ipv6_text address = ''['' @ inner @ '']''"
  shows "ipv6_address (map byte inner) = Value address"
proof (cases rule: ipv6_text_cases [OF assms(1)])
  case 1
  with assms(3) have inner: "inner = joined address" by simp
  obtain v vs where a: "address = v # vs" using assms(1) by (cases address) auto
  with assms(2) have "v < 2 ^ 16" by simp
  then obtain c cs where c: "hex_text v = c # cs" "byte c \<noteq> 58"
    by (rule hex_text_head) simp
  have "\<exists>more. joined address = c # more"
    using c(1) by (cases vs) (simp_all add: a)
  then have "\<not> (map byte inner \<noteq> [] \<and> hd (map byte inner) = 58)"
    using c(2) inner by auto
  moreover have "ipv6_loop (replicate 8 0) 0 None (map byte inner) = Value (address, 8, None)"
    using ipv6_loop_joined [of address "[]" 0 "replicate 8 0" "[]" None] assms by (simp add: inner)
  ultimately show ?thesis
    by (simp only: ipv6_address_def Let_def byte_colon if_False bind_outcome.simps prod.case
        option.case simp_thms)
next
  case (2 pre k post)
  let ?zs = "replicate k (0::nat)"
  have len: "length pre + Suc (k + length post) = 8" using assms(1) 2(1) by simp
  have small: "\<forall>v \<in> set pre. v < 2 ^ 16" "\<forall>v \<in> set post. v < 2 ^ 16"
    using assms(2) 2(1) by auto
  have tail: "ipv6_loop (pre @ 0 # replicate (length post) 0 @ ?zs) (Suc (length pre)) (Some (Suc (length pre)))
      (map byte (joined post))
    = Value (pre @ 0 # post @ ?zs, Suc (length pre) + length post, Some (Suc (length pre)))"
    using ipv6_loop_joined [of post "pre @ [0]" "Suc (length pre)" "replicate (length post) 0" ?zs] small len
    by simp
  have zero: "replicate 8 0 = replicate (length pre) 0 @ 0 # replicate (length post) 0 @ ?zs"
    using len by (simp add: replicate_add [symmetric] replicate_Suc [symmetric] ac_simps
        del: replicate_Suc)
  have loop: "(if map byte inner \<noteq> [] \<and> hd (map byte inner) = byte (CHR '':'')
        then if tl (map byte inner) \<noteq> [] \<and> hd (tl (map byte inner)) = byte (CHR '':'')
          then ipv6_loop (replicate 8 0) 1 (Some 1) (drop 2 (map byte inner)) else Failure
        else ipv6_loop (replicate 8 0) 0 None (map byte inner))
      = Value (pre @ 0 # post @ ?zs, Suc (length pre) + length post, Some (Suc (length pre)))"
  proof (cases pre)
    case Nil
    with 2(2) assms(3) have "inner = ''::'' @ joined post" by simp
    with tail Nil zero show ?thesis by (simp add: numeral_2_eq_2)
  next
    case (Cons v vs)
    with 2(2) assms(3) have inner: "inner = prefixed pre @ '':'' @ joined post" by simp
    from small Cons have "v < 2 ^ 16" by simp
    then obtain c cs where c: "hex_text v = c # cs" "byte c \<noteq> 58"
      by (rule hex_text_head) simp
    then have head: "\<not> (map byte inner \<noteq> [] \<and> hd (map byte inner) = byte (CHR '':''))"
      by (simp add: inner Cons prefixed_def)
    have "ipv6_loop (replicate 8 0) 0 None (map byte inner)
        = ipv6_loop (pre @ 0 # replicate (length post) 0 @ ?zs) (length pre) None
            (byte (CHR '':'') # map byte (joined post))"
      using ipv6_loop_prefixed [of pre "[]" 0 "replicate (length pre) 0"
          "byte (CHR '':'') # map byte (joined post)" "0 # replicate (length post) 0 @ ?zs" None] small len
      by (simp add: zero inner)
    also have "\<dots> = Value (pre @ 0 # post @ ?zs, Suc (length pre) + length post, Some (Suc (length pre)))"
      using tail len by simp
    finally show ?thesis using head by (simp only: if_False)
  qed
  have seven: "length pre + length post + k = 7" using len by simp
  have "ipv6_swaps (pre @ 0 # post @ ?zs) (Suc (length pre)) 7 (length post)
      = Value (pre @ replicate (Suc k) 0 @ post)"
    using ipv6_swaps_move [of "pre @ [0]" "Suc (length pre)" post k "[]"] len
    by (simp add: seven)
  then show ?thesis
    unfolding ipv6_address_def Let_def loop by (simp add: 2(1))
qed

section \<open>No access outside the eight pieces\<close>

lemma ipv6_ipv4_safe:
  assumes "length address = 8" "piece \<le> 6 + seen div 2" "seen \<le> 4"
  shows "ipv6_ipv4 address piece seen s \<noteq> Fault \<and>
    (\<forall>a p. ipv6_ipv4 address piece seen s = Value (a, p) \<longrightarrow>
      length a = 8 \<and> piece \<le> p \<and> p \<le> 8 \<and> ((\<forall>v \<in> set address. v < 2 ^ 16) \<longrightarrow> (\<forall>v \<in> set a. v < 2 ^ 16)))"
  using assms
proof (induction address piece seen s rule: ipv6_ipv4.induct)
  case (1 address piece seen s)
  let ?s = "if seen > 0 then tl s else s"
  show ?case
  proof (cases "s = [] \<or> seen > 0 \<and> \<not> (hd s = byte (CHR ''.'') \<and> seen < 4)
      \<or> ?s = [] \<or> \<not> is_digit (hd ?s) \<or> read_octet None ?s = None")
    case True
    then show ?thesis
      using "1.prems" by (subst (1 2) ipv6_ipv4.simps) (auto simp: Let_def)
  next
    case False
    then obtain v rest where r: "read_octet None ?s = Some (v, rest)" by auto
    have seen: "seen < 4" using False by auto
    have piece: "piece < length address" using "1.prems" seen by auto
    let ?a = "address[piece := (address ! piece * 0x100 + the v) mod 2 ^ 16]"
    let ?p = "if seen + 1 = 2 \<or> seen + 1 = 4 then piece + 1 else piece"
    have eq: "ipv6_ipv4 address piece seen s = ipv6_ipv4 ?a ?p (seen + 1) rest"
      using False r piece by (subst ipv6_ipv4.simps) (auto simp: Let_def)
    have "seen = 0 \<or> seen = 1 \<or> seen = 2 \<or> seen = 3" using seen by linarith
    then have p: "?p \<le> 6 + (seen + 1) div 2" using "1.prems"(2) by auto
    have a: "(\<forall>v \<in> set address. v < 2 ^ 16) \<longrightarrow> (\<forall>v \<in> set ?a. v < 2 ^ 16)"
      using set_update_subset_insert [of address piece] by fastforce
    have "ipv6_ipv4 ?a ?p (seen + 1) rest \<noteq> Fault \<and>
      (\<forall>a p. ipv6_ipv4 ?a ?p (seen + 1) rest = Value (a, p) \<longrightarrow> length a = 8 \<and> ?p \<le> p \<and> p \<le> 8
        \<and> ((\<forall>v \<in> set ?a. v < 2 ^ 16) \<longrightarrow> (\<forall>v \<in> set a. v < 2 ^ 16)))"
    proof (rule "1.IH" [OF _ _ refl _ r refl])
      show "s \<noteq> []" "\<not> (seen > 0 \<and> \<not> (hd s = byte (CHR ''.'') \<and> seen < 4))"
        "\<not> (?s = [] \<or> \<not> is_digit (hd ?s))"
        using False by blast+
      show "\<not> \<not> piece < length address" using piece by simp
      show "length ?a = 8" using "1.prems"(1) by simp
      show "seen + 1 \<le> 4" using seen by simp
    qed (rule p)
    note IH = this
    have le: "piece \<le> ?p" by simp
    show ?thesis
    proof (intro conjI allI impI ballI)
      show "ipv6_ipv4 address piece seen s \<noteq> Fault" unfolding eq by (rule conjunct1 [OF IH])
      fix b q
      assume "ipv6_ipv4 address piece seen s = Value (b, q)"
      then have "ipv6_ipv4 ?a ?p (seen + 1) rest = Value (b, q)" by (simp only: eq)
      note r = conjunct2 [OF IH, rule_format, OF this]
      show "length b = 8" "q \<le> 8" using r by blast+
      show "piece \<le> q" using r le by (blast intro: order_trans)
      fix v
      assume "\<forall>v \<in> set address. v < 2 ^ 16" "v \<in> set b"
      with r a show "v < 2 ^ 16" by blast
    qed
  qed
qed

definition pieces_ok :: "nat list \<times> nat \<times> nat option \<Rightarrow> bool" where
  "pieces_ok = (\<lambda>(address, piece, compress). length address = 8 \<and> (\<forall>v \<in> set address. v < 2 ^ 16)
     \<and> piece \<le> 8 \<and> (\<forall>z. compress = Some z \<longrightarrow> 1 \<le> z \<and> z \<le> piece))"

lemma put_ok:
  assumes "pieces_ok (address, piece, compress)" "piece \<noteq> 8"
  obtains a where "put address piece v = Value a" "pieces_ok (a, piece + 1, compress)"
proof -
  have "put address piece v = Value (address[piece := v mod 2 ^ 16])"
    using assms by (simp add: put_def pieces_ok_def)
  moreover have "pieces_ok (address[piece := v mod 2 ^ 16], piece + 1, compress)"
    using assms set_update_subset_insert [of address piece "v mod 2 ^ 16"]
    by (fastforce simp: pieces_ok_def)
  ultimately show thesis by (rule that)
qed

lemma ipv6_loop_safe:
  assumes "pieces_ok (address, piece, compress)"
  shows "ipv6_loop address piece compress s \<noteq> Fault \<and>
    (\<forall>r. ipv6_loop address piece compress s = Value r \<longrightarrow> pieces_ok r)"
  using assms
proof (induction address piece compress s rule: ipv6_loop.induct)
  case (2 address piece compress c cs)
  obtain v len rest where r: "read_hex 4 0 (c # cs) = (v, len, rest)" using prod_cases3 by blast
  show ?case
  proof (cases "piece = 8 \<or> c = byte (CHR '':'')")
    case True
    show ?thesis
    proof (cases "piece = 8 \<or> compress \<noteq> None")
      case True
      with \<open>piece = 8 \<or> c = byte (CHR '':'')\<close> show ?thesis by auto
    next
      case False
      then have "pieces_ok (address, piece + 1, Some (piece + 1))"
        using "2.prems" by (simp add: pieces_ok_def)
      with "2.IH"(1) True False show ?thesis by simp
    qed
  next
    case False
    then have no: "piece \<noteq> 8" "c \<noteq> byte (CHR '':'')" by simp_all
    from "2.prems" no(1) obtain a where a: "put address piece v = Value a" "pieces_ok (a, piece + 1, compress)"
      by (rule put_ok)
    consider (dot) "rest \<noteq> []" "hd rest = byte (CHR ''.'')" | (colon) "rest \<noteq> []" "hd rest = byte (CHR '':'')"
      | (other) "rest \<noteq> []" "hd rest \<noteq> byte (CHR ''.'')" "hd rest \<noteq> byte (CHR '':'')" | (over) "rest = []"
      by blast
    then show ?thesis
    proof cases
      case dot
      show ?thesis
      proof (cases "len = 0 \<or> piece > 6")
        case False
        then have "length address = 8" "piece \<le> 6 + 0 div 2"
          using "2.prems" by (simp_all add: pieces_ok_def)
        from ipv6_ipv4_safe [OF this] dot False no r "2.prems" show ?thesis
          by (auto simp: bind_outcome_eq_Fault bind_outcome_eq_Value pieces_ok_def intro: order_trans)
      qed (use dot no r in auto)
    next
      case colon
      have hd: "hd rest \<noteq> byte (CHR ''.'')" using colon by simp
      show ?thesis
      proof (cases "tl rest = []")
        case False
        from "2.IH"(2) [OF no r [symmetric] refl refl _ _ False a(1,2)] colon hd no r a(1) False
        show ?thesis by simp
      qed (use colon hd no r in simp)
    next
      case other
      then show ?thesis using no r by simp
    next
      case over
      with a no r show ?thesis by simp
    qed
  qed
qed simp

lemma ipv6_swaps_safe:
  "length a = 8 \<Longrightarrow> piece \<le> 7 \<Longrightarrow> c + swaps \<le> 8 \<Longrightarrow> \<forall>v \<in> set a. v < 2 ^ 16 \<Longrightarrow>
     \<exists>b. ipv6_swaps a c piece swaps = Value b \<and> length b = 8 \<and> (\<forall>v \<in> set b. v < 2 ^ 16)"
proof (induction a c piece swaps rule: ipv6_swaps.induct)
  case (1 a c piece swaps)
  have "a ! (c + swaps) \<in> set a" "a ! Suc piece \<in> set a"
    using 1(2-4) by (simp_all)
  then have "set (a[Suc piece := a ! (c + swaps), c + swaps := a ! Suc piece]) \<subseteq> set a"
    using set_update_subsetI by (metis insert_absorb subset_refl set_update_subset_insert order_trans)
  with 1 show ?case by (simp add: subset_iff)
qed auto

lemma ipv6_address_safe:
  "ipv6_address s \<noteq> Fault \<and>
    (\<forall>a. ipv6_address s = Value a \<longrightarrow> length a = 8 \<and> (\<forall>v \<in> set a. v < 2 ^ 16))"
proof -
  define loop where "loop = (if s \<noteq> [] \<and> hd s = byte (CHR '':'')
                  then if tl s \<noteq> [] \<and> hd (tl s) = byte (CHR '':'')
                       then ipv6_loop (replicate 8 0) 1 (Some 1) (drop 2 s)
                       else Failure
                  else ipv6_loop (replicate 8 0) 0 None s)"
  have "pieces_ok (replicate 8 0, 1, Some 1)" "pieces_ok (replicate 8 0, 0, None)"
    by (simp_all add: pieces_ok_def)
  then have loop: "loop \<noteq> Fault \<and> (\<forall>r. loop = Value r \<longrightarrow> pieces_ok r)"
    using ipv6_loop_safe by (auto simp: loop_def)
  have eq: "ipv6_address s = bind_outcome loop (\<lambda>(address, piece, compress).
      case compress of Some z \<Rightarrow> ipv6_swaps address z 7 (piece - z)
      | None \<Rightarrow> if piece \<noteq> 8 then Failure else Value address)"
    by (simp only: ipv6_address_def Let_def loop_def)
  show ?thesis
  proof (cases loop)
    case (Value r)
    obtain a p z where r: "r = (a, p, z)" by (cases r)
    with Value loop have ok: "pieces_ok (a, p, z)" by simp
    show ?thesis
    proof (cases z)
      case (Some k)
      with ok ipv6_swaps_safe [of a 7 k "p - k"] show ?thesis
        by (auto simp: eq Value r pieces_ok_def)
    qed (use ok in \<open>auto simp: eq Value r pieces_ok_def\<close>)
  qed (use loop in \<open>auto simp: eq\<close>)
qed

section \<open>Decimal octets\<close>

definition dig :: "nat \<Rightarrow> char" where
  "dig d = chr (48 + d)"

lemma dig_value: "d < 10 \<Longrightarrow> hex_value (dig d) = int d \<and> byte (dig d) = 48 + d"
  by (simp add: dig_def hex_value_def between_def)

lemma dig_chr: "d < 10 \<Longrightarrow> hex_value (chr (48 + d)) = int d"
  using dig_value by (simp add: dig_def)

lemma decimal_digs:
  "v < 10 ^ Suc k \<Longrightarrow> \<exists>ds. decimal v = map dig ds \<and> foldl (\<lambda>v d. v * 10 + d) 0 ds = v
     \<and> ds \<noteq> [] \<and> length ds \<le> Suc k \<and> (\<forall>d \<in> set ds. d < 10) \<and> (hd ds = 0 \<longrightarrow> length ds = 1)"
proof (induction k arbitrary: v)
  case 0
  then show ?case
    by (intro exI [of _ "[v]"]) (subst decimal.simps, simp add: dig_def)
next
  case (Suc k)
  show ?case
  proof (cases "v < 10")
    case True
    then show ?thesis
      by (intro exI [of _ "[v]"]) (subst decimal.simps, simp add: dig_def)
  next
    case False
    have "v div 10 < 10 ^ Suc k"
      using Suc.prems by (intro less_mult_imp_div_less) simp
    then obtain ds where ds: "decimal (v div 10) = map dig ds" "foldl (\<lambda>v d. v * 10 + d) 0 ds = v div 10"
      "ds \<noteq> []" "length ds \<le> Suc k" "\<forall>d \<in> set ds. d < 10" "hd ds = 0 \<longrightarrow> length ds = 1"
      using Suc.IH [OF \<open>v div 10 < 10 ^ Suc k\<close>] by (elim exE conjE)
    have "hd ds \<noteq> 0"
    proof
      assume "hd ds = 0"
      with ds have "ds = [0]" by (cases ds) auto
      with ds(2) False show False by simp
    qed
    moreover have "decimal v = map dig (ds @ [v mod 10])"
      using False ds(1) by (subst decimal.simps) (simp add: dig_def)
    moreover have "foldl (\<lambda>v d. v * 10 + d) 0 (ds @ [v mod 10]) = v"
      using ds(2) by simp
    ultimately show ?thesis
      using ds(3-5) by (intro exI [of _ "ds @ [v mod 10]"]) auto
  qed
qed

lemma foldl_le: "a \<le> foldl (\<lambda>v d. v * 10 + d) a ds" for a :: nat
proof (induction ds arbitrary: a)
  case (Cons d ds)
  have "a \<le> a * 10 + d" by simp
  also have "\<dots> \<le> foldl (\<lambda>v d. v * 10 + d) (a * 10 + d) ds" by (rule Cons)
  finally show ?case by simp
qed simp

lemma ipv4_digits_decimal:
  "\<forall>d \<in> set ds. d < 10 \<Longrightarrow> foldl (\<lambda>v d. v * 10 + d) a ds < 2 ^ 40 \<Longrightarrow>
     ipv4_digits 10 a (map byte (map dig ds)) = Some (foldl (\<lambda>v d. v * 10 + d) a ds)"
proof (induction ds arbitrary: a)
  case (Cons d ds)
  then have d: "d < 10" and less: "foldl (\<lambda>v d. v * 10 + d) (a * 10 + d) ds < 2 ^ 40" by simp_all
  have "a * 10 + d < 2 ^ 40"
    by (rule le_less_trans [OF foldl_le less])
  with Cons.IH [OF _ less] Cons.prems(1) d show ?case
    by (simp add: dig_value dig_chr min_def)
qed simp

lemma ipv4_number_decimal:
  assumes "n < 256"
  shows "ipv4_number (map byte (decimal n)) = Some n"
proof -
  from decimal_digs [of n 2] assms obtain ds where ds: "decimal n = map dig ds"
    "foldl (\<lambda>v d. v * 10 + d) 0 ds = n" "ds \<noteq> []" "\<forall>d \<in> set ds. d < 10" "hd ds = 0 \<longrightarrow> length ds = 1"
    by auto
  obtain d es where d: "ds = d # es" using ds(3) by (cases ds) auto
  have "ipv4_radix (map byte (decimal n)) = (10, map byte (decimal n))"
    using ds d by (auto simp: ipv4_radix_def dig_value)
  with ds assms ipv4_digits_decimal [of ds 0] show ?thesis
    by (simp add: ipv4_number_def)
qed

lemma split_dots_join:
  "\<forall>c \<in> set p. c \<noteq> 46 \<Longrightarrow> split_dots (p @ 46 # rest) = p # split_dots rest"
  by (induction p) simp_all

lemma split_dots_one: "\<forall>c \<in> set p. c \<noteq> 46 \<Longrightarrow> split_dots p = [p]"
  by (induction p) simp_all

lemma decimal_no_dot: "\<forall>c \<in> set (map byte (decimal n)). c \<noteq> 46"
  using decimal_digits [of n] by fastforce

definition octets :: "nat \<Rightarrow> nat list" where
  "octets ipv4 = [ipv4 div 2 ^ 24 mod 256, ipv4 div 2 ^ 16 mod 256, ipv4 div 2 ^ 8 mod 256, ipv4 mod 256]"

lemma ipv4_text_octets:
  "ipv4_text v = decimal (octets v ! 0) @ ''.'' @ decimal (octets v ! 1) @ ''.''
     @ decimal (octets v ! 2) @ ''.'' @ decimal (octets v ! 3)"
  by (simp add: ipv4_text_def octets_def bits)

lemma bytes_sum: "p = q * 256 + r1 \<Longrightarrow> s = p * 256 + r2 \<Longrightarrow> v = s * 256 + r3 \<Longrightarrow>
    r3 + (q * 16777216 + (r1 * 65536 + r2 * 256)) = v" for v :: nat
  by simp

lemma octets_value:
  assumes "v < 2 ^ 32"
  shows "ipv4_value (octets v) = Some v"
proof -
  have "v div 2 ^ 24 < 256" using assms by (intro less_mult_imp_div_less) simp
  then have a: "v div 2 ^ 24 mod 256 = v div 2 ^ 24" by simp
  have "v mod 256 + (v div 2 ^ 24 * 16777216 + (v div 2 ^ 16 mod 256 * 65536 + v div 2 ^ 8 mod 256 * 256)) = v"
  proof (rule bytes_sum)
    show "v div 2 ^ 16 = v div 2 ^ 24 * 256 + v div 2 ^ 16 mod 256"
      using div_mult_mod_eq [of "v div 2 ^ 16" 256] by (simp add: div_mult2_eq [symmetric])
    show "v div 2 ^ 8 = v div 2 ^ 16 * 256 + v div 2 ^ 8 mod 256"
      using div_mult_mod_eq [of "v div 2 ^ 8" 256] by (simp add: div_mult2_eq [symmetric])
    show "v = v div 2 ^ 8 * 256 + v mod 256"
      using div_mult_mod_eq [of v 256] by simp
  qed
  moreover have "n mod 256 \<le> 255" for n :: nat
    using mod_less_divisor [of 256 n] by linarith
  moreover have "v div 2 ^ 24 \<le> 255" using \<open>v div 2 ^ 24 < 256\<close> by simp
  ultimately show ?thesis
    by (simp add: ipv4_value_def not_less octets_def a [simplified] shifts upt_rec)
qed

lemma ipv4_address_text:
  assumes "v < 2 ^ 32"
  shows "ipv4_address (map byte (ipv4_text v)) = Some v"
proof -
  have "split_dots (map byte (ipv4_text v)) = map (\<lambda>n. map byte (decimal n)) (octets v)"
    unfolding ipv4_text_octets
    by (simp add: split_dots_join [OF decimal_no_dot] split_dots_one [OF decimal_no_dot] octets_def)
  moreover have "ipv4_numbers (map (\<lambda>n. map byte (decimal n)) (octets v)) = Some (octets v)"
    by (simp add: octets_def ipv4_number_decimal)
  moreover have "last (map (\<lambda>n. map byte (decimal n)) (octets v)) \<noteq> []" "length (octets v) = 4"
    by (simp_all add: octets_def)
  ultimately show ?thesis
    using octets_value [OF assms] by (simp add: ipv4_address_def)
qed

lemma ipv4_value_bound:
  assumes "ipv4_value ns = Some v" "ns \<noteq> []" "length ns \<le> 4"
  shows "v < 2 ^ 32"
proof -
  have "(\<exists>a. ns = [a]) \<or> (\<exists>a b. ns = [a, b]) \<or> (\<exists>a b c. ns = [a, b, c]) \<or> (\<exists>a b c d. ns = [a, b, c, d])"
    using assms(2,3) by (auto simp: le_Suc_eq length_Suc_conv numeral_eq_Suc)
  with assms(1) show ?thesis
    by (elim disjE exE) (auto simp: ipv4_value_def upt_rec shifts split: if_splits)
qed

lemma split_dots_nonempty [simp]: "split_dots s \<noteq> []"
  by (induction s) simp_all

lemma ipv4_numbers_length: "ipv4_numbers parts = Some ns \<Longrightarrow> length ns = length parts"
  by (induction parts arbitrary: ns) (auto split: option.splits)

lemma ipv4_address_bound:
  assumes "ipv4_address s = Some v"
  shows "v < 2 ^ 32"
proof -
  let ?parts = "if last (split_dots s) = [] \<and> length (split_dots s) > 1 then butlast (split_dots s) else split_dots s"
  from assms obtain ns where ns: "length ?parts \<le> 4" "ipv4_numbers ?parts = Some ns" "ipv4_value ns = Some v"
    by (auto simp: ipv4_address_def Let_def split: if_splits option.splits)
  have "?parts \<noteq> []" by (auto simp flip: length_greater_0_conv)
  then have "ns \<noteq> []" "length ns \<le> 4" using ipv4_numbers_length [OF ns(2)] ns(1) by auto
  with ns(3) show ?thesis by (rule ipv4_value_bound)
qed

section \<open>The properties\<close>

lemma parse_ipv6_Value:
  assumes "parse_ipv6 s = Value t"
  obtains address inner where "ipv6_address s = Value address" "t = ''['' @ inner @ '']''"
    "length address = 8" "\<forall>v \<in> set address. v < 2 ^ 16" "t = ipv6_text address"
proof -
  from assms obtain a where a: "ipv6_address s = Value a" "t = ipv6_text a"
    by (auto simp: parse_ipv6_def bind_outcome_eq_Value)
  moreover have "\<exists>inner. ipv6_text a = ''['' @ inner @ '']''"
    by (simp add: ipv6_text_def)
  ultimately show thesis
    using that ipv6_address_safe [of s] by blast
qed

text \<open>
  C29: The IPv6 parser never touches memory outside its eight pieces, whatever the input, and what it
  answers is canonical: the text between the brackets parses again, to the same pieces and the same
  text.
\<close>

theorem ipv6_canonical:
  "parse_ipv6 s \<noteq> Fault \<and> (\<forall>t. parse_ipv6 s = Value t \<longrightarrow>
     (\<exists>inner. t = ''['' @ inner @ '']'' \<and> ipv6_address (map byte inner) = ipv6_address s
        \<and> parse_ipv6 (map byte inner) = Value t))"
proof (intro conjI allI impI)
  show "parse_ipv6 s \<noteq> Fault"
    using ipv6_address_safe [of s] by (simp add: parse_ipv6_def bind_outcome_eq_Fault)
  fix t
  assume "parse_ipv6 s = Value t"
  then obtain a inner where a: "ipv6_address s = Value a" "t = ''['' @ inner @ '']''" "length a = 8"
    "\<forall>v \<in> set a. v < 2 ^ 16" "t = ipv6_text a" by (rule parse_ipv6_Value)
  then have "ipv6_address (map byte inner) = Value a"
    using ipv6_address_text [of a inner] by simp
  with a show "\<exists>inner. t = ''['' @ inner @ '']'' \<and> ipv6_address (map byte inner) = ipv6_address s
      \<and> parse_ipv6 (map byte inner) = Value t"
    by (intro exI [of _ inner]) (simp add: parse_ipv6_def)
qed

theorem ipv6_canonical_witness:
  "parse_ipv6 (map byte ''1:0:0:2::5'') = Value ''[1:0:0:2::5]''
    \<and> (\<exists>inner. ''[1:0:0:2::5]'' = ''['' @ inner @ '']''
        \<and> parse_ipv6 (map byte inner) = Value ''[1:0:0:2::5]'')"
proof -
  have "ipv6_text [1, 0, 0, 2, 0, 0, 0, 5] = ''['' @ ''1:0:0:2::5'' @ '']''"
    by (simp add: ipv6_text_def zero_run_def hex_text.simps hex_lower_def bits)
  moreover from this have "ipv6_address (map byte ''1:0:0:2::5'') = Value [1, 0, 0, 2, 0, 0, 0, 5]"
    by (rule ipv6_address_text [rotated 2]) simp_all
  ultimately have "parse_ipv6 (map byte ''1:0:0:2::5'') = Value ''[1:0:0:2::5]''"
    by (simp add: parse_ipv6_def)
  with ipv6_canonical [of "map byte ''1:0:0:2::5''"] show ?thesis
    by blast
qed

text \<open>
  C30: An IPv4 host is read as a number below \<open>2 ^ 32\<close>, in whatever decimal, octal or hex spelling,
  and is written back as four decimal bytes that are read as the same number: the serialisation
  is canonical.
\<close>

theorem ipv4_canonical:
  assumes "parse_ipv4 s = Some t"
  shows "\<exists>v < 2 ^ 32. ipv4_address s = Some v \<and> t = ipv4_text v
    \<and> ipv4_address (map byte t) = Some v \<and> parse_ipv4 (map byte t) = Some t"
proof -
  from assms obtain v where v: "ipv4_address s = Some v" "t = ipv4_text v"
    by (auto simp: parse_ipv4_def)
  then have "v < 2 ^ 32" by (auto dest: ipv4_address_bound)
  with v ipv4_address_text [OF this] show ?thesis
    by (intro exI [of _ v]) (simp add: parse_ipv4_def)
qed

text \<open>\<^verbatim>\<open>0x7f.1\<close> is loopback.\<close>

theorem ipv4_canonical_witness:
  "parse_ipv4 (map byte ''0x7f.1'') = Some ''127.0.0.1''
    \<and> (\<exists>v < 2 ^ 32. ipv4_address (map byte ''127.0.0.1'') = Some v
        \<and> parse_ipv4 (map byte ''127.0.0.1'') = Some ''127.0.0.1'')"
proof -
  have "parse_ipv4 (map byte ''0x7f.1'') = Some ''127.0.0.1''"
    by (simp add: parse_ipv4_def ipv4_address_def ipv4_number_def ipv4_radix_def lower_def
        hex_value_def between_def ipv4_value_def ipv4_text_def upt_rec bits decimal.simps chr_eq_iff)
  with ipv4_canonical [of "map byte ''0x7f.1''" "''127.0.0.1''"] show ?thesis
    by blast
qed

end
