(* ===== verification/Net_Policy.thy ===== *)
theory Net_Policy
  imports Url_Ip
begin

text \<open>
  The fetch policy (\<^verbatim>\<open>lib/Shell/net/policy.cpp\<close>): its own IPv4 and IPv6 readers, the private ranges
  and \<^verbatim>\<open>check_request\<close>. What is shown is that it reads every address the URL host parser can
  produce as the very address the host parser read, so no spelling of an address escapes it.
\<close>

section \<open>Reading addresses\<close>

text \<open>Up to \<open>k\<close> decimal digits: the value, how many there were, the rest.\<close>

fun policy_digits :: "nat \<Rightarrow> nat \<Rightarrow> string \<Rightarrow> nat \<times> nat \<times> string" where
  "policy_digits (Suc k) value (c # cs) =
     (if between (CHR ''0'') c (CHR ''9'')
      then let (v, digits, rest) = policy_digits k (value * 10 + (byte c - 48)) cs
        in (v, Suc digits, rest)
      else (value, 0, c # cs))"
| "policy_digits k value cs = (value, 0, cs)"

text \<open>The parts from number \<open>part\<close> on, each but the first behind a dot.\<close>

function policy_parts :: "nat \<Rightarrow> string \<Rightarrow> (nat list \<times> string) option" where
  "policy_parts part s =
     (if part \<ge> 4 then Some ([], s)
      else if part \<noteq> 0 \<and> (s = [] \<or> hd s \<noteq> CHR ''.'') then None
      else let (value, digits, rest) = policy_digits 3 0 (if part \<noteq> 0 then tl s else s) in
        if digits = 0 \<or> value > 255 then None
        else map_option (\<lambda>(vs, rest). (value # vs, rest)) (policy_parts (part + 1) rest))"
  by pat_completeness auto
termination
  by (relation "measure (\<lambda>(part, s). 4 - part)") auto

declare policy_parts.simps [simp del]

definition policy_ipv4 :: "string \<Rightarrow> nat list option" where
  "policy_ipv4 s =
     (case policy_parts 0 s of
        None \<Rightarrow> None
      | Some (vs, rest) \<Rightarrow> if rest \<noteq> [] then None else Some vs)"

fun policy_hex :: "nat \<Rightarrow> nat \<Rightarrow> string \<Rightarrow> nat \<times> nat \<times> string" where
  "policy_hex (Suc k) value (c # cs) =
     (if hex_value c \<ge> 0
      then let (v, digits, rest) = policy_hex k (value * 16 + nat (hex_value c)) cs
        in (v, Suc digits, rest)
      else (value, 0, c # cs))"
| "policy_hex k value cs = (value, 0, cs)"

lemma policy_hex_shorter: "length (snd (snd (policy_hex k v cs))) \<le> length cs"
  by (induction k v cs rule: policy_hex.induct) (auto simp: case_prod_unfold Let_def intro: le_SucI)

text \<open>The loop over the groups: the groups read, and after how many of them \<open>::\<close> stood. The array
  \<^verbatim>\<open>out\<close> is the list of its first \<^verbatim>\<open>count\<close> elements, which the tests keep at eight or fewer.\<close>

function policy_groups :: "nat list \<Rightarrow> nat option \<Rightarrow> string \<Rightarrow> (nat list \<times> nat option) option" where
  "policy_groups out gap s =
     (if s = [] then Some (out, gap)
      else if length out = 8 then None
      else if CHR ''.'' \<in> set s \<and> CHR '':'' \<notin> set s then
        (case policy_ipv4 s of
           None \<Rightarrow> None
         | Some v4 \<Rightarrow>
             if length out > 6 then None
             else Some (out @ [push_bit 8 (v4 ! 0) OR v4 ! 1, push_bit 8 (v4 ! 2) OR v4 ! 3], gap))
      else let (value, digits, rest) = policy_hex 4 0 s in
        if digits = 0 then None
        else if rest = [] then Some (out @ [value], gap)
        else if hd rest \<noteq> CHR '':'' then None
        else if tl rest \<noteq> [] \<and> hd (tl rest) = CHR '':'' then
          (if gap \<noteq> None then None
           else policy_groups (out @ [value]) (Some (length out + 1)) (tl (tl rest)))
        else if tl rest = [] then None
        else policy_groups (out @ [value]) gap (tl rest))"
  by pat_completeness auto
termination
proof (relation "measure (\<lambda>(out, gap, s). length s)")
  fix out gap and s :: string and v digits and rest :: string and x y
  assume "x = policy_hex 4 0 s" "(v, y) = x" "(digits, rest) = y" "rest \<noteq> []"
  then have "rest \<noteq> []" "length rest \<le> length s"
    using policy_hex_shorter [of 4 0 s] by (metis snd_conv)+
  then show "((out @ [v], Some (length out + 1), tl (tl rest)), out, gap, s)
      \<in> measure (\<lambda>(out, gap, s). length s)"
    "((out @ [v], gap, tl rest), out, gap, s) \<in> measure (\<lambda>(out, gap, s). length s)"
    by (cases rest; simp)+
qed simp

declare policy_groups.simps [simp del]

definition policy_ipv6 :: "string \<Rightarrow> nat list option" where
  "policy_ipv6 s =
     (case (if take 2 s = ''::'' then policy_groups [] (Some 0) (drop 2 s)
            else policy_groups [] None s) of
        None \<Rightarrow> None
      | Some (out, Some gap) \<Rightarrow>
          if length out = 8 then None
          else Some (take gap out @ replicate (8 - length out) 0 @ drop gap out)
      | Some (out, None) \<Rightarrow> if length out \<noteq> 8 then None else Some out)"

section \<open>Private ranges\<close>

definition private_ipv4 :: "nat list \<Rightarrow> bool" where
  "private_ipv4 a \<longleftrightarrow>
     a ! 0 = 0 \<or> a ! 0 = 10 \<or> a ! 0 = 127 \<or> (a ! 0 = 169 \<and> a ! 1 = 254)
     \<or> (a ! 0 = 172 \<and> a ! 1 AND 0xF0 = 16) \<or> (a ! 0 = 192 \<and> a ! 1 = 168)
     \<or> (a ! 0 = 100 \<and> a ! 1 AND 0xC0 = 64) \<or> a ! 0 \<ge> 224"

definition private_ipv6 :: "nat list \<Rightarrow> bool" where
  "private_ipv6 g \<longleftrightarrow>
     (if g ! 0 = 0 \<and> g ! 1 = 0 \<and> g ! 2 = 0 \<and> g ! 3 = 0 \<and> g ! 4 = 0 \<and> (g ! 5 = 0 \<or> g ! 5 = 0xFFFF)
      then (if g ! 5 = 0 \<and> g ! 6 = 0 \<and> g ! 7 \<le> 1 then True
            else private_ipv4 [drop_bit 8 (g ! 6), g ! 6 AND 0xFF, drop_bit 8 (g ! 7), g ! 7 AND 0xFF])
      else g ! 0 AND 0xFE00 = 0xFC00 \<or> g ! 0 AND 0xFFC0 = 0xFE80 \<or> g ! 0 AND 0xFFC0 = 0xFEC0
        \<or> g ! 0 AND 0xFF00 = 0xFF00)"

definition is_private_address :: "string \<Rightarrow> bool" where
  "is_private_address ip0 =
     (let ip1 = (if length ip0 > 2 \<and> hd ip0 = CHR ''['' \<and> last ip0 = CHR '']''
                 then substr ip0 1 (length ip0 - 2) else ip0);
          ip = takeWhile (\<lambda>c. c \<noteq> CHR ''%'') ip1
      in case policy_ipv4 ip of
           Some v4 \<Rightarrow> private_ipv4 v4
         | None \<Rightarrow> (case policy_ipv6 ip of Some v6 \<Rightarrow> private_ipv6 v6 | None \<Rightarrow> False))"

section \<open>The request check\<close>

record fetch_policy =
  schemes :: "string list"
  hosts :: "string list"
  allow_private_addresses :: bool
  max_body_bytes :: nat

definition default_policy :: fetch_policy where
  "default_policy = \<lparr>schemes = [''https''], hosts = [], allow_private_addresses = False,
     max_body_bytes = push_bit 20 8\<rparr>"

definition host_matches :: "string \<Rightarrow> string \<Rightarrow> bool" where
  "host_matches host allowed =
     (if take 2 allowed = ''*.''
      then let suffix = drop 1 allowed in
        length host > length suffix
        \<and> ascii_iequals (drop (length host - length suffix) host) suffix
      else ascii_iequals allowed host)"

definition loopback_name :: "string \<Rightarrow> bool" where
  "loopback_name host \<longleftrightarrow> ascii_iequals host ''localhost''
     \<or> (length host > 10 \<and> ascii_iequals (drop (length host - 10) host) ''.localhost'')"

definition check_request :: "string \<Rightarrow> string \<Rightarrow> fetch_policy \<Rightarrow> string option" where
  "check_request scheme host policy =
     (if \<not> (\<exists>allowed \<in> set (schemes policy). ascii_iequals allowed scheme)
      then Some (''the fetch policy does not allow '' @ scheme @ '':'')
      else if hosts policy \<noteq> [] \<and> \<not> (\<exists>allowed \<in> set (hosts policy). host_matches host allowed)
      then Some (''the fetch policy does not allow host '' @ host)
      else if \<not> allow_private_addresses policy \<and> (loopback_name host \<or> is_private_address host)
      then Some (''the fetch policy does not allow private address '' @ host)
      else None)"

section \<open>Addresses as the host parser writes them\<close>

lemma policy_digits_digs:
  assumes "\<forall>d \<in> set ds. d < 10" "length ds \<le> k" "rest = [] \<or> hd rest = CHR ''.''"
  shows "policy_digits k v (map dig ds @ rest) = (foldl (\<lambda>v d. v * 10 + d) v ds, length ds, rest)"
  using assms
proof (induction ds arbitrary: k v)
  case Nil
  then show ?case by (cases k; cases rest) (auto simp: between_def)
next
  case (Cons d ds)
  then obtain j where k: "k = Suc j" "length ds \<le> j" by (cases k) auto
  with Cons dig_value [of d] show ?case by (simp add: between_def)
qed

lemma policy_digits_decimal:
  assumes "n < 256" "rest = [] \<or> hd rest = CHR ''.''"
  obtains len where "policy_digits 3 0 (decimal n @ rest) = (n, Suc len, rest)"
proof -
  from decimal_digs [of n 2] assms(1) obtain ds where ds: "decimal n = map dig ds"
    "foldl (\<lambda>v d. v * 10 + d) 0 ds = n" "ds \<noteq> []" "length ds \<le> 3" "\<forall>d \<in> set ds. d < 10" by auto
  from ds(3) obtain len where "length ds = Suc len" by (cases ds) auto
  with ds policy_digits_digs [OF ds(5,4) assms(2), of 0] that show thesis by simp
qed

lemma policy_parts_decimal:
  assumes "n < 256" "part < 4" "rest = [] \<or> hd rest = CHR ''.''"
  shows "policy_parts part ((if part = 0 then [] else ''.'') @ decimal n @ rest)
     = map_option (\<lambda>(vs, r). (n # vs, r)) (policy_parts (part + 1) rest)"
proof -
  from assms(1,3) obtain len where "policy_digits 3 0 (decimal n @ rest) = (n, Suc len, rest)"
    by (rule policy_digits_decimal)
  with assms(1,2) show ?thesis
    by (subst policy_parts.simps) simp
qed

lemma policy_parts_4: "policy_parts 4 s = Some ([], s)"
  by (subst policy_parts.simps) simp

lemma policy_ipv4_text: "policy_ipv4 (ipv4_text v) = Some (octets v)"
proof -
  have o: "octets v = [octets v ! 0, octets v ! 1, octets v ! 2, octets v ! 3]"
    "octets v ! 0 < 256" "octets v ! 1 < 256" "octets v ! 2 < 256" "octets v ! 3 < 256"
    by (simp_all add: octets_def)
  have "policy_parts 0 (ipv4_text v) = Some (octets v, [])"
    unfolding ipv4_text_octets
    using policy_parts_decimal [OF o(2), of 0 "''.'' @ decimal (octets v ! 1) @ ''.'' @ decimal (octets v ! 2) @ ''.'' @ decimal (octets v ! 3)"]
      policy_parts_decimal [OF o(3), of 1 "''.'' @ decimal (octets v ! 2) @ ''.'' @ decimal (octets v ! 3)"]
      policy_parts_decimal [OF o(4), of 2 "''.'' @ decimal (octets v ! 3)"]
      policy_parts_decimal [OF o(5), of 3 "[]"]
    by (simp add: policy_parts_4) (use o(1) in \<open>simp add: numeral_2_eq_2 numeral_3_eq_3\<close>)
  then show ?thesis by (simp add: policy_ipv4_def)
qed

lemma policy_digits_subset: "set (snd (snd (policy_digits k v s))) \<subseteq> set s"
  by (induction k v s rule: policy_digits.induct) (auto simp: case_prod_unfold Let_def)

lemma policy_ipv4_no_dot:
  assumes "CHR ''.'' \<notin> set s"
  shows "policy_ipv4 s = None"
proof -
  obtain v k rest where r: "policy_digits 3 0 s = (v, k, rest)" using prod_cases3 by blast
  then have "CHR ''.'' \<notin> set rest"
    using assms policy_digits_subset [of 3 0 s] by auto
  then have "rest = [] \<or> hd rest \<noteq> CHR ''.''" by (cases rest) auto
  then have "policy_parts 1 rest = None"
    by (subst policy_parts.simps) auto
  then have "policy_parts 0 s = None"
    using r by (subst policy_parts.simps) simp
  then show ?thesis by (simp add: policy_ipv4_def)
qed

lemma policy_hex_digits:
  assumes "\<forall>d \<in> set ds. d < 16" "length ds \<le> k" "rest = [] \<or> hd rest = CHR '':''"
  shows "policy_hex k v (map nib ds @ rest) = (number v ds, length ds, rest)"
  using assms
proof (induction ds arbitrary: k v)
  case Nil
  then show ?case by (cases k; cases rest) (auto simp: number_def hex_value_def between_def)
next
  case (Cons d ds)
  then obtain j where k: "k = Suc j" "length ds \<le> j" by (cases k) auto
  with Cons nib_value [of d] show ?case by (simp add: number_def)
qed

lemma policy_hex_text:
  assumes "v < 2 ^ 16" "rest = [] \<or> hd rest = CHR '':''"
  obtains len where "policy_hex 4 0 (hex_text v @ rest) = (v, Suc len, rest)"
proof -
  from hex_text_digits [of v 3] assms(1) obtain ds where ds: "hex_text v = map nib ds"
    "number 0 ds = v" "ds \<noteq> []" "length ds \<le> 4" "\<forall>d \<in> set ds. d < 16" by auto
  from ds(3) obtain len where "length ds = Suc len" by (cases ds) auto
  with ds policy_hex_digits [OF ds(5,4) assms(2), of 0] that show thesis by simp
qed

text \<open>The characters of a serialised address are hex digits and colons.\<close>

definition address_char :: "char \<Rightarrow> bool" where
  "address_char c \<longleftrightarrow> c \<noteq> CHR ''.'' \<and> c \<noteq> CHR ''%'' \<and> c \<noteq> CHR '']''"

lemma nib_char: "d < 16 \<Longrightarrow> address_char (nib d) \<and> nib d \<noteq> CHR '':''"
  using nib_value [of d] by (auto simp: address_char_def)

lemma hex_text_chars:
  assumes "v < 2 ^ 16"
  shows "\<forall>c \<in> set (hex_text v). address_char c \<and> c \<noteq> CHR '':''"
proof -
  from hex_text_digits [of v 3] assms obtain ds where ds: "hex_text v = map nib ds"
    "\<forall>d \<in> set ds. d < 16" by auto
  from ds(2) have "\<forall>d \<in> set ds. address_char (nib d) \<and> nib d \<noteq> CHR '':''"
    by (intro ballI nib_char) simp
  then show ?thesis by (simp only: set_map ds(1) ball_simps)
qed

lemma colon_address_char: "address_char (CHR '':'')"
  by (simp add: address_char_def)

lemma address_char_append: "(\<forall>c \<in> set (s @ t). address_char c)
    \<longleftrightarrow> (\<forall>c \<in> set s. address_char c) \<and> (\<forall>c \<in> set t. address_char c)"
  by auto

lemma hex_text_address_chars: "v < 2 ^ 16 \<Longrightarrow> \<forall>c \<in> set (hex_text v). address_char c"
  using hex_text_chars by blast

lemma joined_chars: "\<forall>v \<in> set vs. v < 2 ^ 16 \<Longrightarrow> \<forall>c \<in> set (joined vs). address_char c"
proof (induction vs rule: joined.induct)
  case (2 v)
  then show ?case using hex_text_address_chars [of v] by simp
next
  case (3 v w vs)
  then show ?case
    using hex_text_address_chars [of v]
    by (simp only: joined.simps address_char_append) (simp add: colon_address_char)
qed simp

lemma prefixed_chars: "\<forall>v \<in> set vs. v < 2 ^ 16 \<Longrightarrow> \<forall>c \<in> set (prefixed vs). address_char c"
proof (induction vs)
  case (Cons v vs)
  then have "\<forall>c \<in> set (prefixed vs). address_char c" by simp
  then have "\<forall>c \<in> set ((hex_text v @ '':'') @ prefixed vs). address_char c"
    using hex_text_address_chars [of v] Cons.prems
    by (simp only: address_char_append) (simp add: colon_address_char)
  then show ?case by (simp add: prefixed_def)
qed (simp add: prefixed_def)

lemma policy_groups_piece:
  assumes "v < 2 ^ 16" "length out \<noteq> 8" "\<forall>c \<in> set rest. address_char c"
  shows "rest = [] \<Longrightarrow> policy_groups out gap (hex_text v @ rest) = Some (out @ [v], gap)"
    and "rest = CHR '':'' # CHR '':'' # tail \<Longrightarrow> gap = None \<Longrightarrow>
      policy_groups out gap (hex_text v @ rest) = policy_groups (out @ [v]) (Some (length out + 1)) tail"
    and "rest = CHR '':'' # tail \<Longrightarrow> tail \<noteq> [] \<Longrightarrow> hd tail \<noteq> CHR '':'' \<Longrightarrow>
      policy_groups out gap (hex_text v @ rest) = policy_groups (out @ [v]) gap tail"
proof -
  have dot: "CHR ''.'' \<notin> set (hex_text v @ rest)"
    using hex_text_chars [OF assms(1)] assms(3) by (auto simp: address_char_def)
  have step: "policy_groups out gap (hex_text v @ rest) =
      (if rest = [] then Some (out @ [v], gap)
       else if tl rest \<noteq> [] \<and> hd (tl rest) = CHR '':'' then
         (if gap \<noteq> None then None
          else policy_groups (out @ [v]) (Some (length out + 1)) (tl (tl rest)))
       else if tl rest = [] then None
       else policy_groups (out @ [v]) gap (tl rest))"
    if r: "rest = [] \<or> hd rest = CHR '':''"
  proof -
    from assms(1) r obtain len where "policy_hex 4 0 (hex_text v @ rest) = (v, Suc len, rest)"
      by (rule policy_hex_text)
    with r dot assms(2) show ?thesis
      by (subst policy_groups.simps) auto
  qed
  show "rest = [] \<Longrightarrow> policy_groups out gap (hex_text v @ rest) = Some (out @ [v], gap)"
    using step by simp
  show "rest = CHR '':'' # CHR '':'' # tail \<Longrightarrow> gap = None \<Longrightarrow>
      policy_groups out gap (hex_text v @ rest) = policy_groups (out @ [v]) (Some (length out + 1)) tail"
    using step by simp
  show "rest = CHR '':'' # tail \<Longrightarrow> tail \<noteq> [] \<Longrightarrow> hd tail \<noteq> CHR '':'' \<Longrightarrow>
      policy_groups out gap (hex_text v @ rest) = policy_groups (out @ [v]) gap tail"
    using step by simp
qed

lemma joined_head:
  assumes "vs \<noteq> []" "\<forall>v \<in> set vs. v < 2 ^ 16"
  shows "joined vs \<noteq> [] \<and> hd (joined vs) \<noteq> CHR '':''"
proof -
  obtain v ws where vs: "vs = v # ws" using assms(1) by (cases vs) auto
  with assms(2) have "v < 2 ^ 16" by simp
  then obtain c cs where "hex_text v = c # cs" "byte c \<noteq> byte (CHR '':'')" by (rule hex_text_head)
  then show ?thesis by (cases ws) (auto simp: vs)
qed

lemma policy_groups_joined:
  assumes "\<forall>v \<in> set vs. v < 2 ^ 16" "length out + length vs \<le> 8"
  shows "policy_groups out gap (joined vs) = Some (out @ vs, gap)"
  using assms
proof (induction vs arbitrary: out rule: joined.induct)
  case 1
  then show ?case by (subst policy_groups.simps) simp
next
  case (2 v)
  then show ?case using policy_groups_piece(1) [of v out "[]" gap] by simp
next
  case (3 v w vs)
  let ?tl = "joined (w # vs)"
  have "?tl \<noteq> [] \<and> hd ?tl \<noteq> CHR '':''" "\<forall>c \<in> set (CHR '':'' # ?tl). address_char c"
    using joined_head [of "w # vs"] joined_chars [of "w # vs"] 3 by (auto simp: address_char_def)
  then have "policy_groups out gap (hex_text v @ CHR '':'' # ?tl) = policy_groups (out @ [v]) gap ?tl"
    using 3 by (intro policy_groups_piece(3)) auto
  with 3 show ?case by simp
qed

lemma policy_groups_prefixed:
  assumes "\<forall>v \<in> set pre. v < 2 ^ 16" "length out + length pre \<le> 8" "pre \<noteq> []"
    "\<forall>c \<in> set rest. address_char c"
  shows "policy_groups out None (prefixed pre @ '':'' @ rest)
     = policy_groups (out @ pre) (Some (length out + length pre)) rest"
  using assms
proof (induction pre arbitrary: out)
  case (Cons v pre)
  show ?case
  proof (cases "pre = []")
    case True
    have "policy_groups out None (hex_text v @ CHR '':'' # CHR '':'' # rest)
        = policy_groups (out @ [v]) (Some (length out + 1)) rest"
      by (rule policy_groups_piece(2)) (use Cons.prems True in \<open>simp_all add: colon_address_char\<close>)
    then show ?thesis by (simp add: True prefixed_def)
  next
    case False
    let ?tl = "prefixed pre @ '':'' @ rest"
    have "\<forall>c \<in> set (prefixed pre @ '':'' @ rest). address_char c"
      using prefixed_chars [of pre] Cons.prems
      by (simp only: address_char_append) (simp add: colon_address_char)
    then have "\<forall>c \<in> set (CHR '':'' # ?tl). address_char c"
      by (simp add: colon_address_char)
    moreover obtain w ws where ws: "pre = w # ws" using False by (cases pre) auto
    moreover have "hd ?tl \<noteq> CHR '':''"
    proof -
      have "w < 2 ^ 16" using Cons.prems ws by simp
      then obtain c cs where "hex_text w = c # cs" "byte c \<noteq> byte (CHR '':'')" by (rule hex_text_head)
      then show ?thesis by (auto simp: ws prefixed_def)
    qed
    ultimately have "policy_groups out None (hex_text v @ CHR '':'' # ?tl) = policy_groups (out @ [v]) None ?tl"
      using Cons.prems by (intro policy_groups_piece(3)) auto
    with Cons False show ?thesis by (simp add: prefixed_def)
  qed
qed simp

lemma policy_ipv6_text:
  assumes "length address = 8" "\<forall>v \<in> set address. v < 2 ^ 16"
    and "ipv6_text address = ''['' @ inner @ '']''"
  shows "policy_ipv6 inner = Some address \<and> inner \<noteq> [] \<and> (\<forall>c \<in> set inner. address_char c)"
proof (cases rule: ipv6_text_cases [OF assms(1)])
  case 1
  with assms(3) have inner: "inner = joined address" by simp
  have "address \<noteq> []" using assms(1) by auto
  then have h: "joined address \<noteq> [] \<and> hd (joined address) \<noteq> CHR '':''"
    using joined_head [of address] assms(2) by simp
  then have "take 2 inner \<noteq> ''::''" by (cases inner) (auto simp: inner)
  moreover have "policy_groups [] None inner = Some (address, None)"
    using policy_groups_joined [of address "[]" None] assms by (simp add: inner)
  ultimately show ?thesis
    using h joined_chars [OF assms(2)] assms(1) by (simp add: policy_ipv6_def inner)
next
  case (2 pre k post)
  have len: "length pre + length post + Suc k = 8" using assms(1) 2(1) by simp
  have small: "\<forall>v \<in> set pre. v < 2 ^ 16" "\<forall>v \<in> set post. v < 2 ^ 16"
    using assms(2) 2(1) by auto
  have inner: "inner = (if pre = [] then '':'' else prefixed pre) @ '':'' @ joined post"
    using 2(2) assms(3) by auto
  have chars: "\<forall>c \<in> set inner. address_char c"
    using prefixed_chars [OF small(1)] joined_chars [OF small(2)] by (auto simp: inner address_char_def)
  have groups: "(if take 2 inner = ''::'' then policy_groups [] (Some 0) (drop 2 inner)
      else policy_groups [] None inner) = Some (pre @ post, Some (length pre))"
  proof (cases "pre = []")
    case True
    with policy_groups_joined [of post "[]" "Some 0"] small len show ?thesis by (simp add: inner)
  next
    case False
    obtain w ws where ws: "pre = w # ws" using False by (cases pre) auto
    have "w < 2 ^ 16" using small ws by simp
    then obtain c cs where "hex_text w = c # cs" "byte c \<noteq> byte (CHR '':'')" by (rule hex_text_head)
    then have "take 2 inner \<noteq> ''::''" by (auto simp: inner ws prefixed_def numeral_2_eq_2)
    moreover have "policy_groups [] None inner = policy_groups pre (Some (length pre)) (joined post)"
      using policy_groups_prefixed [of pre "[]" "joined post"] small len False joined_chars [OF small(2)]
      by (simp add: inner)
    ultimately show ?thesis
      using policy_groups_joined [of post pre] small len by simp
  qed
  have "8 - (length pre + length post) = Suc k" using len by simp
  then show ?thesis
    unfolding policy_ipv6_def groups using len chars 2(1) by (simp add: inner)
qed

lemma private_ipv6_address:
  assumes "parse_ipv6 s = Value t"
  obtains address where "ipv6_address s = Value address" "is_private_address t \<longleftrightarrow> private_ipv6 address"
proof -
  from assms obtain a inner where a: "ipv6_address s = Value a" "t = ''['' @ inner @ '']''" "length a = 8"
    "\<forall>v \<in> set a. v < 2 ^ 16" "t = ipv6_text a" by (rule parse_ipv6_Value)
  then have p: "policy_ipv6 inner = Some a" "inner \<noteq> []" "\<forall>c \<in> set inner. address_char c"
    using policy_ipv6_text [of a inner] by auto
  from p(3) have c: "\<forall>c \<in> set inner. c \<noteq> CHR ''%''" "CHR ''.'' \<notin> set inner"
    unfolding address_char_def by blast+
  from c(1) have "takeWhile (\<lambda>c. c \<noteq> CHR ''%'') inner = inner"
    by (simp only: takeWhile_eq_all_conv)
  with p c(2) policy_ipv4_no_dot [of inner] have "is_private_address t \<longleftrightarrow> private_ipv6 a"
    by (simp add: is_private_address_def a(2) substr_def del: takeWhile_eq_all_conv)
  with a(1) show thesis by (rule that)
qed

lemma private_ipv4_address: "is_private_address (ipv4_text v) \<longleftrightarrow> private_ipv4 (octets v)"
proof -
  have chars: "\<forall>c \<in> set (ipv4_text v). c \<noteq> CHR ''%'' \<and> c \<noteq> CHR ''[''"
    using decimal_digits by (fastforce simp: ipv4_text_octets)
  then have "hd (ipv4_text v) \<noteq> CHR ''[''"
    using list.set_sel(1) [of "ipv4_text v"] by (auto simp: ipv4_text_octets)
  moreover have "takeWhile (\<lambda>c. c \<noteq> CHR ''%'') (ipv4_text v) = ipv4_text v"
    using chars by (simp add: takeWhile_eq_all_conv)
  ultimately show ?thesis
    by (simp add: is_private_address_def policy_ipv4_text del: takeWhile_eq_all_conv)
qed

section \<open>The private networks\<close>

text \<open>The IPv4 networks the policy keeps closed, as a list of prefixes and their lengths.\<close>

definition private_nets :: "(nat list \<times> nat) list" where
  "private_nets = [([0, 0, 0, 0], 8), ([10, 0, 0, 0], 8), ([100, 64, 0, 0], 10), ([127, 0, 0, 0], 8),
     ([169, 254, 0, 0], 16), ([172, 16, 0, 0], 12), ([192, 168, 0, 0], 16), ([224, 0, 0, 0], 3)]"

definition in_net :: "nat \<Rightarrow> nat list \<times> nat \<Rightarrow> bool" where
  "in_net v net \<longleftrightarrow>
     drop_bit (32 - snd net) v = drop_bit (32 - snd net) (foldl (\<lambda>a d. a * 256 + d) 0 (fst net))"

definition in_private_net :: "nat \<Rightarrow> bool" where
  "in_private_net v \<longleftrightarrow> (\<exists>net \<in> set private_nets. in_net v net)"

lemma and_push_drop: "b AND push_bit n m = push_bit n (drop_bit n b AND m)" for b m :: nat
  by (rule bit_eqI) (auto simp: bit_and_iff bit_push_bit_iff bit_drop_bit_eq)

lemma and_mask_below: "b < 2 ^ n \<Longrightarrow> b AND mask n = b" for b :: nat
  by (simp add: take_bit_eq_mask [symmetric] take_bit_nat_eq_self)

lemma mask_high:
  fixes b :: nat
  assumes "b < 2 ^ (n + k)"
  shows "b AND push_bit n (mask k) = b div 2 ^ n * 2 ^ n"
proof -
  have "b div 2 ^ n < 2 ^ k"
    using assms by (intro less_mult_imp_div_less) (simp add: power_add mult.commute)
  then have "b div 2 ^ n AND mask k = b div 2 ^ n" by (rule and_mask_below)
  moreover have "b AND push_bit n (mask k) = push_bit n (b div 2 ^ n AND mask k)"
    by (simp only: and_push_drop drop_bit_eq_div)
  ultimately show ?thesis by (simp only: push_bit_eq_mult)
qed

lemma mask_high_nibble: "b < 256 \<Longrightarrow> (b AND 0xF0 = 16) = (b div 16 = 1)" for b :: nat
  using mask_high [of b 4 4] by (simp add: mask_eq_exp_minus_1 push_bit_eq_mult)

lemma mask_high_pair: "b < 256 \<Longrightarrow> (b AND 0xC0 = 64) = (b div 64 = 1)" for b :: nat
  using mask_high [of b 6 2] by (simp add: mask_eq_exp_minus_1 push_bit_eq_mult)

lemma div_pair:
  fixes a b c d k :: nat
  assumes "b < k * n" "d < n" "0 < k"
  shows "(a * (k * n) + b) div k = c * n + d \<longleftrightarrow> a = c \<and> b div k = d"
proof -
  have "b div k < n" using assms by (simp add: less_mult_imp_div_less mult.commute)
  moreover have "(a * (k * n) + b) div k = a * n + b div k"
    using div_mult_self2 [of k b "a * n"] assms(3) by (simp only: ac_simps)
  moreover have "a = c \<and> x = d" if "a * n + x = c * n + d" "x < n" for x
    using arg_cong [OF that(1), of "\<lambda>z. z div n"] arg_cong [OF that(1), of "\<lambda>z. z mod n"] that(2) assms(2)
    by simp
  ultimately show ?thesis by auto
qed
lemma top_octet: "a div 32 = 7 \<longleftrightarrow> 224 \<le> a" if "a < 256" for a :: nat 
proof
  show "a div 32 = 7 \<Longrightarrow> 224 \<le> a" using div_times_less_eq_dividend [of a 32] by simp
  assume "224 \<le> a"
  then have "7 \<le> a div 32" using div_le_mono [of 224 a 32] by simp
  moreover have "a div 32 < 8" using that by (simp add: less_mult_imp_div_less)
  ultimately show "a div 32 = 7" by simp
qed
lemma private_ipv4_nets:
  assumes "v < 2 ^ 32"
  shows "private_ipv4 (octets v) \<longleftrightarrow> in_private_net v"
proof -
  define q where "q = v div 2 ^ 16"
  define a where "a = q div 256"
  define b where "b = q mod 256"
  have small: "a < 256" "b < 256"
    using assms by (simp_all add: a_def b_def q_def less_mult_imp_div_less)
  have q: "q = a * 256 + b" by (simp add: a_def b_def)
  have o: "octets v ! 0 = a" "octets v ! 1 = b"
    using small(1) by (simp_all add: octets_def a_def b_def q_def flip: div_mult2_eq)
  have d: "v div 2 ^ 24 = q div 256" "v div 2 ^ 22 = q div 64" "v div 2 ^ 20 = q div 16" "v div 2 ^ 29 = a div 32"
    by (simp_all add: a_def q_def flip: div_mult2_eq)
  have v: "v div 16777216 = a" "v div 4194304 = q div 64" "v div 1048576 = q div 16"
    "v div 536870912 = a div 32" "v div 65536 = q"
    using d by (simp_all add: a_def q_def)
  have n: "q div 256 = a" by (simp add: a_def)
  have n16: "q = c * 256 + d \<longleftrightarrow> a = c \<and> b = d" if "d < 256" for c d
    using div_pair [of b 1 256 d a c] small that by (simp add: q)
  have n12: "q div 16 = c * 16 + d \<longleftrightarrow> a = c \<and> b div 16 = d" if "d < 16" for c d
    using div_pair [of b 16 16 d a c] small that by (simp add: q)
  have n10: "q div 64 = c * 4 + d \<longleftrightarrow> a = c \<and> b div 64 = d" if "d < 4" for c d
    using div_pair [of b 64 4 d a c] small that by (simp add: q)
  note n3 = top_octet [OF small(1)]
  show ?thesis
    using n16 [of 254 169] n16 [of 168 192] n12 [of 1 172] n10 [of 1 100]
      mask_high_nibble [OF small(2)] mask_high_pair [OF small(2)]
    by (simp add: private_ipv4_def in_private_net_def private_nets_def in_net_def o d n n3 drop_bit_eq_div
        del: One_nat_def) (auto simp: d n n3 v)
qed

section \<open>The properties\<close>

text \<open>
  C28: The two address readers of the network layer agree: whatever spelling of an IPv4 host the URL
  parser accepts, the policy calls the serialised host private exactly when the number it denotes
  lies in one of the closed networks; whatever IPv6 host it accepts, exactly when its eight pieces do.
\<close>

theorem private_address_exact:
  "(\<forall>s h. parse_ipv4 s = Some h \<longrightarrow>
      (\<exists>v < 2 ^ 32. ipv4_address s = Some v \<and> (is_private_address h \<longleftrightarrow> in_private_net v)))
   \<and> (\<forall>s h. parse_ipv6 s = Value h \<longrightarrow>
      (\<exists>address. ipv6_address s = Value address \<and> (is_private_address h \<longleftrightarrow> private_ipv6 address)))"
proof (intro conjI allI impI)
  fix s h
  assume "parse_ipv4 s = Some h"
  then obtain v where v: "ipv4_address s = Some v" "h = ipv4_text v" by (auto simp: parse_ipv4_def)
  then have "v < 2 ^ 32" by (auto dest: ipv4_address_bound)
  with v private_ipv4_nets [OF this] private_ipv4_address [of v]
  show "\<exists>v < 2 ^ 32. ipv4_address s = Some v \<and> (is_private_address h \<longleftrightarrow> in_private_net v)"
    by (intro exI [of _ v]) simp
next
  fix s h
  assume "parse_ipv6 s = Value h"
  then obtain address where "ipv6_address s = Value address"
    "is_private_address h \<longleftrightarrow> private_ipv6 address" by (rule private_ipv6_address)
  then show "\<exists>address. ipv6_address s = Value address \<and> (is_private_address h \<longleftrightarrow> private_ipv6 address)"
    by blast
qed

theorem private_address_exact_witness:
  "parse_ipv4 (map byte ''0x7f.1'') = Some ''127.0.0.1'' \<and> is_private_address ''127.0.0.1''"
proof -
  have p: "parse_ipv4 (map byte ''0x7f.1'') = Some ''127.0.0.1''"
    and a: "ipv4_address (map byte ''0x7f.1'') = Some 0x7F000001"
    by (simp_all add: parse_ipv4_def ipv4_address_def ipv4_number_def ipv4_radix_def lower_def
        hex_value_def between_def ipv4_value_def ipv4_text_def upt_rec bits decimal.simps chr_eq_iff)
  have "in_private_net 0x7F000001"
    by (simp add: in_private_net_def private_nets_def in_net_def drop_bit_eq_div)
  moreover obtain v where "ipv4_address (map byte ''0x7f.1'') = Some v"
    "is_private_address ''127.0.0.1'' \<longleftrightarrow> in_private_net v"
    using private_address_exact p by blast
  ultimately show ?thesis using p a by simp
qed

text \<open>
  C12: What the default rules let through: a request that passes while private addresses are closed
  has a listed scheme and, when hosts are listed, a listed host, is not addressed to a loopback name,
  and its host is not the serialisation of any spelling of an IPv4 or IPv6 address in a closed network.
\<close>

theorem check_request_closed:
  assumes "check_request scheme host policy = None" "\<not> allow_private_addresses policy"
  shows "(\<exists>allowed \<in> set (schemes policy). ascii_lower_copy allowed = ascii_lower_copy scheme)
    \<and> (hosts policy \<noteq> [] \<longrightarrow> (\<exists>allowed \<in> set (hosts policy). host_matches host allowed))
    \<and> ascii_lower_copy host \<noteq> ''localhost''
    \<and> (\<forall>s v. parse_ipv4 s = Some host \<and> ipv4_address s = Some v \<longrightarrow> \<not> in_private_net v)
    \<and> (\<forall>s a. parse_ipv6 s = Value host \<and> ipv6_address s = Value a \<longrightarrow> \<not> private_ipv6 a)"
proof -
  from assms have ok: "\<exists>allowed \<in> set (schemes policy). ascii_iequals allowed scheme"
    "hosts policy \<noteq> [] \<longrightarrow> (\<exists>allowed \<in> set (hosts policy). host_matches host allowed)"
    "\<not> ascii_iequals host ''localhost''" "\<not> is_private_address host"
    by (auto simp: check_request_def loopback_name_def split: if_splits)
  have v4: "\<not> in_private_net v" if "parse_ipv4 s = Some host" "ipv4_address s = Some v" for s v
    using that ok(4) private_ipv4_nets [of v] private_ipv4_address [of v] ipv4_address_bound [of s v]
    by (auto simp: parse_ipv4_def)
  have v6: "\<not> private_ipv6 a" if p: "parse_ipv6 s = Value host" and a: "ipv6_address s = Value a" for s a
    using p by (rule private_ipv6_address) (use a ok(4) in auto)
  have "ascii_lower_copy ''localhost'' = ''localhost''"
    by (simp add: ascii_lower_copy_def ascii_lower_def between_def)
  with ok have names: "\<exists>allowed \<in> set (schemes policy). ascii_lower_copy allowed = ascii_lower_copy scheme"
    "ascii_lower_copy host \<noteq> ''localhost''"
    by (simp_all add: ascii_iequals_lower)
  show ?thesis using names ok(2) v4 v6 by blast
qed

theorem check_request_closed_witness:
  "check_request ''HTTPS'' ''example.org'' default_policy = None
    \<and> (\<exists>allowed \<in> set (schemes default_policy). ascii_lower_copy allowed = ''https'')"
proof -
  have "policy_parts 0 ''example.org'' = None"
    by (subst policy_parts.simps) (simp add: between_def numeral_3_eq_3)
  then have v4: "policy_ipv4 ''example.org'' = None" by (simp add: policy_ipv4_def)
  then have "policy_groups [] None ''example.org'' = None"
    by (subst policy_groups.simps) simp
  with v4 have "\<not> is_private_address ''example.org''"
    by (simp add: is_private_address_def policy_ipv6_def)
  moreover have "\<not> loopback_name ''example.org''"
    by (simp add: loopback_name_def ascii_iequals_def ascii_lower_def between_def)
  moreover have "ascii_lower_copy ''HTTPS'' = ''https''" "ascii_lower_copy ''https'' = ''https''"
    by (simp_all add: ascii_lower_copy_def ascii_lower_def between_def chr_eq_iff)
  moreover from this have "ascii_iequals ''https'' ''HTTPS''" by (simp add: ascii_iequals_lower)
  ultimately have c: "check_request ''HTTPS'' ''example.org'' default_policy = None"
    by (simp add: check_request_def default_policy_def)
  then show ?thesis
    using check_request_closed [OF c] \<open>ascii_lower_copy ''HTTPS'' = ''https''\<close>
    by (simp add: default_policy_def)
qed

end
