(* ===== verification/Punycode.thy ===== *)
theory Punycode
  imports Url_Encoding
begin

text \<open>
  The Punycode encoder and decoder of the URL host parser (RFC 3492; \<^verbatim>\<open>punycode\<close> and
  \<^verbatim>\<open>punycode_decode\<close> of \<^verbatim>\<open>lib/Shell/net/url_unicode.cpp\<close>), with the overflow tests on their
  32-bit counters. What is shown: a label of at most 1648 Unicode scalar values is always encoded,
  and the decoder reads the label back. The bound is where the 32-bit counters of the decoder stop
  being enough in general: with a threshold of 1 at every digit the weight of the eighth digit is
  \<open>35 ^ 7 > 2 ^ 32\<close>, so a delta of \<open>35 ^ 6\<close> or more may be refused, and \<open>0x110000 * 1649 < 35 ^ 6\<close>.
\<close>

section \<open>Bias adaptation and digits\<close>

text \<open>The loop of \<^verbatim>\<open>adapt\<close>: \<open>((base - tmin) * tmax) / 2\<close> is 455.\<close>

function adapt_loop :: "nat \<Rightarrow> nat \<Rightarrow> nat \<times> nat" where
  "adapt_loop delta k = (if delta > 455 then adapt_loop (delta div 35) (k + 36) else (delta, k))"
  by pat_completeness auto
termination
  by (relation "measure fst") auto

declare adapt_loop.simps [simp del]

definition adapt :: "nat \<Rightarrow> nat \<Rightarrow> bool \<Rightarrow> nat" where
  "adapt delta points is_first =
     (let delta = (if is_first then delta div 700 else delta div 2);
          delta = delta + delta div points;
          (delta, k) = adapt_loop delta 0
      in k + (36 * delta) div (delta + 38))"

definition threshold :: "nat \<Rightarrow> nat \<Rightarrow> nat" where
  "threshold k bias = (if k \<le> bias then 1 else if k \<ge> bias + 26 then 26 else k - bias)"

definition puny_digit :: "nat \<Rightarrow> char" where
  "puny_digit d = chr (if d < 26 then byte (CHR ''a'') + d else byte (CHR ''0'') + (d - 26))"

definition digit_value :: "char \<Rightarrow> nat" where
  "digit_value c =
     (if between (CHR ''a'') c (CHR ''z'') then byte c - byte (CHR ''a'')
      else if between (CHR ''A'') c (CHR ''Z'') then byte c - byte (CHR ''A'')
      else if between (CHR ''0'') c (CHR ''9'') then byte c - byte (CHR ''0'') + 26
      else 36)"

lemma threshold_range: "1 \<le> threshold k bias \<and> threshold k bias \<le> 26"
  by (auto simp: threshold_def)

section \<open>Encoding\<close>

text \<open>The digits of one delta: the loop over \<^verbatim>\<open>q\<close> and \<^verbatim>\<open>k\<close>.\<close>

function puny_varint :: "nat \<Rightarrow> nat \<Rightarrow> nat \<Rightarrow> string" where
  "puny_varint bias k q =
     (let t = threshold k bias in
      if q < t then [puny_digit q]
      else puny_digit (t + (q - t) mod (36 - t)) # puny_varint bias (k + 36) ((q - t) div (36 - t)))"
  by pat_completeness auto
termination
proof (relation "measure (\<lambda>(bias, k, q). q)")
  fix bias k q t :: nat
  assume "t = threshold k bias" "\<not> q < t"
  then have "(q - t) div (36 - t) < q"
    using threshold_range [of k bias] div_le_dividend [of "q - t" "36 - t"] by linarith
  then show "((bias, k + 36, (q - t) div (36 - t)), bias, k, q) \<in> measure (\<lambda>(bias, k, q). q)" by simp
qed simp

declare puny_varint.simps [simp del]

text \<open>One pass over the label for the code point \<open>n\<close>. The state is the output, delta, bias and the
  number of code points handled.\<close>

type_synonym puny_state = "string \<times> nat \<times> nat \<times> nat"

fun puny_pass :: "nat \<Rightarrow> nat \<Rightarrow> code_point list \<Rightarrow> puny_state \<Rightarrow> puny_state option" where
  "puny_pass n basic [] st = Some st"
| "puny_pass n basic (c # cs) (out, delta, bias, handled) =
     (let delta = (if c < n then (delta + 1) mod 2 ^ 32 else delta) in
      if c < n \<and> delta = 0 then None
      else if c \<noteq> n then puny_pass n basic cs (out, delta, bias, handled)
      else puny_pass n basic cs
        (out @ puny_varint bias 36 delta, 0, adapt delta (handled + 1) (handled = basic), handled + 1))"

text \<open>The smallest code point of the label that is at least \<open>n\<close>, from the initial value \<open>0x110000\<close>.\<close>

definition next_point :: "nat \<Rightarrow> code_point list \<Rightarrow> code_point" where
  "next_point n input = foldl (\<lambda>m c. if c \<ge> n \<and> c < m then c else m) 0x110000 input"

text \<open>One round of the outer loop: the next value of \<open>n\<close> and the state after the round.\<close>

definition puny_round ::
    "code_point list \<Rightarrow> nat \<Rightarrow> nat \<Rightarrow> puny_state \<Rightarrow> (nat \<times> puny_state) option" where
  "puny_round input basic n st =
     (let (out, delta, bias, handled) = st;
          m = next_point n input; step = (m + 2 ^ 32 - n) mod 2 ^ 32 in
      if step > (0xFFFFFFFF - delta) div (handled + 1) then None
      else case puny_pass m basic input (out, delta + step * (handled + 1), bias, handled) of
          None \<Rightarrow> None
        | Some (out, delta, bias, handled) \<Rightarrow> Some (m + 1, out, (delta + 1) mod 2 ^ 32, bias, handled))"

text \<open>The outer loop handles at least one code point a round when all of them are below
  \<open>0x110000\<close>; the fuel is the number of rounds allowed, and \<open>Fault\<close> says that it ran out.\<close>

fun puny_loop :: "nat \<Rightarrow> code_point list \<Rightarrow> nat \<Rightarrow> nat \<Rightarrow> puny_state \<Rightarrow> string outcome" where
  "puny_loop fuel input basic n st =
     (let (out, delta, bias, handled) = st in
      if handled \<ge> length input then Value out
      else case fuel of
        0 \<Rightarrow> Fault
      | Suc fuel \<Rightarrow>
          (case puny_round input basic n st of
             None \<Rightarrow> Failure
           | Some (n, st) \<Rightarrow> puny_loop fuel input basic n st))"

declare puny_loop.simps [simp del]

definition punycode :: "code_point list \<Rightarrow> string outcome" where
  "punycode input =
     (let out = map chr (filter (\<lambda>c. c < 0x80) input); basic = length out in
      puny_loop (length input) input basic 128 (out @ (if basic > 0 then ''-'' else []), 0, 72, basic))"

section \<open>Decoding\<close>

text \<open>One delta: the accumulated index and the rest of the text.\<close>

fun puny_read :: "nat \<Rightarrow> nat \<Rightarrow> nat \<Rightarrow> nat \<Rightarrow> string \<Rightarrow> (nat \<times> string) option" where
  "puny_read bias k i w [] = None"
| "puny_read bias k i w (c # cs) =
     (let d = digit_value c; t = threshold k bias in
      if d \<ge> 36 then None
      else if d > (0xFFFFFFFF - i) div w then None
      else if d < t then Some (i + d * w, cs)
      else if w > 0xFFFFFFFF div (36 - t) then None
      else puny_read bias (k + 36) (i + d * w) (w * (36 - t)) cs)"

lemma puny_read_shorter: "puny_read bias k i w cs = Some (j, rest) \<Longrightarrow> length rest < length cs"
proof (induction bias k i w cs rule: puny_read.induct)
  case (2 bias k i w c cs)
  then show ?case
    by (auto simp: Let_def simp del: One_nat_def split: if_splits dest!: 2(1) [OF refl refl])
qed simp

function puny_decode_loop ::
    "code_point list \<Rightarrow> nat \<Rightarrow> nat \<Rightarrow> nat \<Rightarrow> string \<Rightarrow> code_point list option" where
  "puny_decode_loop out n i bias input =
     (if input = [] then Some out
      else case puny_read bias 36 i 1 input of
          None \<Rightarrow> None
        | Some (j, rest) \<Rightarrow>
            let points = length out + 1; bias = adapt (j - i) points (i = 0) in
            if j div points > 0x10FFFF - n then None
            else let n = n + j div points; j = j mod points in
              if n > 0x10FFFF \<or> is_surrogate n then None
              else puny_decode_loop (take j out @ n # drop j out) n (j + 1) bias rest)"
  by pat_completeness auto
termination
  by (relation "measure (\<lambda>(out, n, i, bias, input). length input)") (auto dest: puny_read_shorter)

declare puny_decode_loop.simps [simp del]

definition punycode_decode :: "string \<Rightarrow> code_point list option" where
  "punycode_decode input =
     (case find_last (\<lambda>c. c = CHR ''-'') input of
        None \<Rightarrow> puny_decode_loop [] 128 0 72 input
      | Some dash \<Rightarrow>
          if \<exists>c \<in> set (take dash input). byte c \<ge> 0x80 then None
          else puny_decode_loop (map byte (take dash input)) 128 0 72 (drop (dash + 1) input))"

section \<open>Reading a delta back\<close>

lemma puny_digit_value: "d < 36 \<Longrightarrow> digit_value (puny_digit d) = d \<and> puny_digit d \<noteq> CHR ''-''"
  by (rule all_below [of "\<lambda>d. digit_value (puny_digit d) = d \<and> puny_digit d \<noteq> CHR ''-''" 36])
    (simp_all add: upt_rec puny_digit_def digit_value_def between_def chr_eq_iff)

text \<open>The weight of a digit is a power of 35 as long as every threshold before it was 1.\<close>

lemma weight_fits:
  assumes "w * t < 35 ^ 6" "bias + 26 \<le> k \<or> (\<exists>a. w = 35 ^ a)" "1 \<le> t" "bias + 26 \<le> k \<longrightarrow> t = 26"
  shows "w * (36 - t) \<le> (0xFFFFFFFF :: nat)"
proof (cases "bias + 26 \<le> k")
  case True
  with assms show ?thesis by simp
next
  case False
  with assms(2) obtain a where w: "w = 35 ^ a" by blast
  have "w * 1 \<le> w * t" using assms(3) by (rule mult_le_mono2)
  then have "w < 35 ^ 6" using assms(1) by linarith
  then have "(35::nat) ^ a < 35 ^ 6" unfolding w .
  then have "a < 6" by (rule power_less_imp_less_exp [rotated]) simp
  then have "(35::nat) ^ a \<le> 35 ^ 5" by (intro power_increasing) simp_all
  then have "w * (36 - t) \<le> 35 ^ 5 * 35" unfolding w using assms(3) by (intro mult_le_mono) simp_all
  then show ?thesis by simp
qed

lemma next_weight:
  assumes "t = threshold k bias" "bias + 26 \<le> k \<or> (\<exists>a. w = (35 :: nat) ^ a)"
  shows "bias + 26 \<le> k + 36 \<or> (\<exists>a. w * (36 - t) = 35 ^ a)"
proof (cases "k \<le> bias")
  case True
  with assms obtain a where "w = 35 ^ a" "t = 1" by (auto simp: threshold_def)
  then show ?thesis by (intro disjI2 exI [of _ "Suc a"]) simp
qed simp

lemma puny_read_varint:
  assumes "i + w * q < 2 ^ 32" "w * q < 35 ^ 6" "0 < w" "bias + 26 \<le> k \<or> (\<exists>a. w = 35 ^ a)"
  shows "puny_read bias k i w (puny_varint bias k q @ rest) = Some (i + w * q, rest)"
  using assms
proof (induction bias k q arbitrary: i w rule: puny_varint.induct)
  case (1 bias k q)
  define t where "t = threshold k bias"
  have t: "1 \<le> t" "t \<le> 26" using threshold_range [of k bias] by (simp_all add: t_def)
  show ?case
  proof (cases "q < t")
    case True
    have "q \<le> (0xFFFFFFFF - i) div w"
      using 1(2,4) by (simp add: less_eq_div_iff_mult_less_eq mult.commute)
    with True t puny_digit_value [of q] show ?thesis
      by (subst puny_varint.simps) (simp add: Let_def flip: t_def)
  next
    case False
    define d where "d = t + (q - t) mod (36 - t)"
    define q' where "q' = (q - t) div (36 - t)"
    have "(q - t) mod (36 - t) < 36 - t" using t by simp
    then have d: "t \<le> d" "d < 36" by (simp_all add: d_def)
    have "(36 - t) * q' + (q - t) mod (36 - t) = q - t" unfolding q'_def by (rule mult_div_mod_eq)
    with False have q: "q = d + (36 - t) * q'" by (simp add: d_def)
    have wq: "i + w * q = (i + d * w) + (w * (36 - t)) * q'"
      by (simp add: q algebra_simps)
    have "w * t \<le> w * q" using False by (intro mult_le_mono2) simp
    then have "w * t < 35 ^ 6" using 1(3) by (rule le_less_trans)
    then have "w * (36 - t) \<le> 0xFFFFFFFF"
      using 1(5) by (rule weight_fits) (use t t_def in \<open>auto simp: threshold_def\<close>)
    then have w: "w \<le> 0xFFFFFFFF div (36 - t)"
      using t by (simp add: less_eq_div_iff_mult_less_eq)
    have "d \<le> (0xFFFFFFFF - i) div w"
      using 1(2,4) wq by (simp add: less_eq_div_iff_mult_less_eq mult.commute)
    moreover have "puny_read bias (k + 36) (i + d * w) (w * (36 - t)) (puny_varint bias (k + 36) q' @ rest)
        = Some (i + d * w + w * (36 - t) * q', rest)"
    proof (rule 1(1) [OF t_def, folded q'_def])
      show "\<not> q < t" by fact
      show "i + d * w + w * (36 - t) * q' < 2 ^ 32" using 1(2) wq by simp
      have "w * (36 - t) * q' \<le> w * q" unfolding q by (simp add: algebra_simps)
      then show "w * (36 - t) * q' < 35 ^ 6" using 1(3) by (rule le_less_trans)
      show "bias + 26 \<le> k + 36 \<or> (\<exists>a. w * (36 - t) = 35 ^ a)"
        using 1(5) by (rule next_weight [OF t_def])
      show "0 < w * (36 - t)" using 1(4) t by simp
    qed
    ultimately show ?thesis
      using d w False puny_digit_value [OF d(2)] wq
      by (subst puny_varint.simps) (simp add: Let_def flip: t_def d_def q'_def)
  qed
qed

lemma puny_varint_digits: "\<forall>c \<in> set (puny_varint bias k q). c \<noteq> CHR ''-''"
proof (induction bias k q rule: puny_varint.induct)
  case (1 bias k q)
  define t where "t = threshold k bias"
  have t: "1 \<le> t" "t \<le> 26" using threshold_range [of k bias] by (simp_all add: t_def)
  have "(q - t) mod (36 - t) < 36 - t" using t by simp
  then have "t + (q - t) mod (36 - t) < 36" by simp
  with 1 [OF t_def] t puny_digit_value show ?case
    by (subst puny_varint.simps) (auto simp: Let_def simp flip: t_def)
qed

lemma puny_varint_nonempty: "puny_varint bias k q \<noteq> []"
  by (subst puny_varint.simps) (simp add: Let_def)

section \<open>The decoder follows the encoder\<close>

text \<open>
  While the encoder is in the pass for \<open>n\<close>, behind the prefix \<open>ps\<close> of the label and before its
  rest \<open>cs\<close>, the decoder's output is the label without what the encoder has not handled; \<open>nd\<close> and
  \<open>i\<close> are the decoder's counters, and delta is the distance the decoder has still to go.
\<close>

definition in_step ::
    "nat \<Rightarrow> code_point list \<Rightarrow> code_point list \<Rightarrow> nat \<Rightarrow> nat \<Rightarrow> nat \<Rightarrow> nat \<Rightarrow> nat \<Rightarrow> bool" where
  "in_step n ps cs basic nd i delta handled \<longleftrightarrow>
     handled = length (filter (\<lambda>c. c \<le> n) ps) + length (filter (\<lambda>c. c < n) cs)
     \<and> delta + i = (n - nd) * (handled + 1) + length (filter (\<lambda>c. c \<le> n) ps)
     \<and> nd \<le> n \<and> basic \<le> handled \<and> (handled = basic \<longleftrightarrow> i = 0)"

abbreviation behind :: "nat \<Rightarrow> code_point list \<Rightarrow> code_point list \<Rightarrow> code_point list" where
  "behind n ps cs \<equiv> filter (\<lambda>c. c \<le> n) ps @ filter (\<lambda>c. c < n) cs"

lemma in_step_bound:
  assumes "in_step n ps cs basic nd i delta handled" "n < 0x110000" "length (ps @ cs) \<le> 1648"
  shows "delta + i < 0x110000 * 1649" "delta < 35 ^ 6"
proof -
  have h: "handled \<le> length (ps @ cs)" "length (filter (\<lambda>c. c \<le> n) ps) \<le> handled"
    using assms(1) by (auto simp: in_step_def intro!: add_mono)
  have "(n - nd) * (handled + 1) + handled \<le> 0x10FFFF * (handled + 1) + handled"
    using assms(2) by (intro add_right_mono mult_le_mono1) simp
  also have "\<dots> \<le> 0x110000 * 1648 + 0x10FFFF" using h(1) assms(3) by simp
  finally show b: "delta + i < 0x110000 * 1649"
    using assms(1) h(2) by (simp add: in_step_def)
  then show "delta < 35 ^ 6" by simp
qed

lemma puny_pass_decoded:
  assumes "in_step n ps cs basic nd i delta handled" "is_scalar n" "length (ps @ cs) \<le> 1648"
  shows "\<exists>e delta' bias' nd' i' handled'.
    puny_pass n basic cs (out, delta, bias, handled) = Some (out @ e, delta', bias', handled')
    \<and> (\<forall>c \<in> set e. c \<noteq> CHR ''-'')
    \<and> in_step n (ps @ cs) [] basic nd' i' delta' handled'
    \<and> (\<forall>rest. puny_decode_loop (behind n ps cs) nd i bias (e @ rest)
         = puny_decode_loop (behind n (ps @ cs) []) nd' i' bias' rest)"
  using assms
proof (induction cs arbitrary: ps nd i out delta bias handled)
  case Nil
  then show ?case by (intro exI [of _ "[]"]) auto
next
  case (Cons c cs)
  have n: "n < 0x110000" using Cons.prems(2) by (simp add: is_scalar_def)
  have len: "length ((ps @ [c]) @ cs) \<le> 1648" using Cons.prems(3) by simp
  note bound = in_step_bound [OF Cons.prems(1) n Cons.prems(3)]
  consider "c < n" | "c > n" | "c = n" by linarith
  then show ?case
  proof cases
    case 1
    then have "in_step n (ps @ [c]) cs basic nd i (delta + 1) handled"
      using Cons.prems(1) by (auto simp: in_step_def)
    from Cons.IH [OF this Cons.prems(2) len, of out bias] 1 bound show ?thesis by simp
  next
    case 2
    then have "in_step n (ps @ [c]) cs basic nd i delta handled"
      using Cons.prems(1) by (auto simp: in_step_def)
    from Cons.IH [OF this Cons.prems(2) len, of out bias] 2 show ?thesis by simp
  next
    case 3
    let ?pre = "filter (\<lambda>c. c \<le> n) ps" and ?post = "filter (\<lambda>c. c < n) cs"
    let ?j = "length ?pre"
    define points where "points = handled + 1"
    have st: "handled = ?j + length ?post" "delta + i = (n - nd) * points + ?j"
      "nd \<le> n" "handled = basic \<longleftrightarrow> i = 0" "basic \<le> handled"
      using Cons.prems(1) 3 by (auto simp: in_step_def points_def)
    have j: "?j < points" using st(1) by (simp add: points_def)
    have at: "(delta + i) div points = n - nd" "(delta + i) mod points = ?j"
      using j by (simp_all add: st(2))
    have "in_step n (ps @ [c]) cs basic n (?j + 1) 0 (handled + 1)"
      using st 3 by (auto simp: in_step_def)
    from Cons.IH [OF this Cons.prems(2) len, of "out @ puny_varint bias 36 delta"
        "adapt delta (handled + 1) (handled = basic)"]
    obtain e delta' bias' nd' i' handled' where e:
      "puny_pass n basic cs (out @ puny_varint bias 36 delta, 0,
         adapt delta (handled + 1) (handled = basic), handled + 1)
       = Some ((out @ puny_varint bias 36 delta) @ e, delta', bias', handled')"
      "\<forall>c \<in> set e. c \<noteq> CHR ''-''" "in_step n ((ps @ [c]) @ cs) [] basic nd' i' delta' handled'"
      "\<forall>rest. puny_decode_loop (behind n (ps @ [c]) cs) n (?j + 1)
           (adapt delta (handled + 1) (handled = basic)) (e @ rest)
         = puny_decode_loop (behind n ((ps @ [c]) @ cs) []) nd' i' bias' rest"
      by (elim exE conjE) (rule that)
    have "puny_decode_loop (behind n ps (c # cs)) nd i bias ((puny_varint bias 36 delta @ e) @ rest)
        = puny_decode_loop (behind n (ps @ [c]) cs) n (?j + 1)
           (adapt delta (handled + 1) (handled = basic)) (e @ rest)" for rest
    proof -
      have read: "puny_read bias 36 i 1 (puny_varint bias 36 delta @ e @ rest) = Some (i + delta, e @ rest)"
        using puny_read_varint [OF _ _ _ disjI2 [OF exI [of _ 0]], of i 1 delta bias 36 "e @ rest"] bound
        by simp
      have "length (behind n ps (c # cs)) + 1 = points" using st(1) 3 by (simp add: points_def)
      then show ?thesis
        using read at st(3,4) diff_le_mono [of n "0x10FFFF" nd] Cons.prems(2) 3 puny_varint_nonempty [of bias 36 delta]
        by (subst puny_decode_loop.simps)
          (simp add: Let_def add.commute [of i] is_scalar_def points_def)
    qed
    then have dec: "\<forall>rest. puny_decode_loop (behind n ps (c # cs)) nd i bias ((puny_varint bias 36 delta @ e) @ rest)
        = puny_decode_loop (behind n (ps @ c # cs) []) nd' i' bias' rest"
      using e(4) by simp
    have "puny_pass n basic (c # cs) (out, delta, bias, handled)
        = Some (out @ (puny_varint bias 36 delta @ e), delta', bias', handled')"
      using e(1) 3 by simp
    moreover have "\<forall>d \<in> set (puny_varint bias 36 delta @ e). d \<noteq> CHR ''-''"
      using e(2) puny_varint_digits [of bias 36 delta] by (simp only: set_append ball_Un)
    moreover have "in_step n (ps @ c # cs) [] basic nd' i' delta' handled'" using e(3) by simp
    ultimately show ?thesis using dec
      by (intro exI [of _ "puny_varint bias 36 delta @ e"] exI [of _ delta'] exI [of _ bias']
          exI [of _ nd'] exI [of _ i'] exI [of _ handled'] conjI)
  qed
qed

text \<open>At the top of a round everything below \<open>n\<close> is handled.\<close>

lemma next_point_least:
  assumes "\<exists>c \<in> set input. n \<le> c" "\<forall>c \<in> set input. c < 0x110000"
  shows "next_point n input \<in> set input \<and> n \<le> next_point n input
    \<and> (\<forall>c \<in> set input. n \<le> c \<longrightarrow> next_point n input \<le> c)"
proof -
  have "let r = foldl (\<lambda>m c. if c \<ge> n \<and> c < m then c else m) m0 xs in
      r \<le> m0 \<and> (\<forall>c \<in> set xs. n \<le> c \<longrightarrow> r \<le> c) \<and> (r \<noteq> m0 \<longrightarrow> r \<in> set xs \<and> n \<le> r)"
    for m0 :: nat and xs
  proof (induction xs arbitrary: m0)
    case (Cons x xs)
    show ?case using Cons.IH [of "if x \<ge> n \<and> x < m0 then x else m0"]
      by (auto simp: Let_def split: if_splits)
  qed simp
  from this [of "0x110000" input] assms show ?thesis
    by (fastforce simp: next_point_def Let_def)
qed

definition at_top :: "nat \<Rightarrow> code_point list \<Rightarrow> nat \<Rightarrow> nat \<Rightarrow> nat \<Rightarrow> nat \<Rightarrow> nat \<Rightarrow> bool" where
  "at_top n input basic nd i delta handled \<longleftrightarrow>
     handled = length (filter (\<lambda>c. c < n) input) \<and> delta + i = (n - nd) * (handled + 1)
     \<and> nd \<le> n \<and> basic \<le> handled \<and> (handled = basic \<longleftrightarrow> i = 0)"

lemma filter_below: "\<forall>c \<in> set xs. n \<le> c \<longrightarrow> m \<le> c \<Longrightarrow> n \<le> m \<Longrightarrow> filter (\<lambda>c. c < m) xs = filter (\<lambda>c. c < n) xs"
  for m n :: nat
  by (rule filter_cong) auto

lemma filter_below_mono: "length (filter (\<lambda>c. c < m) xs) \<le> length (filter (\<lambda>c. c \<le> m) xs)"
  for m :: nat
  by (induction xs) auto

lemma filter_below_strict:
  "m \<in> set xs \<Longrightarrow> length (filter (\<lambda>c. c < m) xs) < length (filter (\<lambda>c. c \<le> m) xs)" for m :: nat
  by (induction xs) (use filter_below_mono in \<open>auto simp: less_Suc_eq_le\<close>)

lemma puny_round_decoded:
  assumes "at_top n input basic nd i delta handled" "handled < length input"
    "\<forall>c \<in> set input. is_scalar c" "length input \<le> 1648"
  shows "\<exists>m e delta' bias' nd' i' handled'.
    puny_round input basic n (out, delta, bias, handled) = Some (m, out @ e, delta', bias', handled')
    \<and> handled < handled' \<and> (\<forall>c \<in> set e. c \<noteq> CHR ''-'')
    \<and> at_top m input basic nd' i' delta' handled'
    \<and> (\<forall>rest. puny_decode_loop (filter (\<lambda>c. c < n) input) nd i bias (e @ rest)
         = puny_decode_loop (filter (\<lambda>c. c < m) input) nd' i' bias' rest)"
proof -
  have small: "\<forall>c \<in> set input. c < 0x110000" using assms(3) by (auto simp: is_scalar_def)
  have "\<exists>c \<in> set input. n \<le> c"
  proof (rule ccontr)
    assume "\<not> (\<exists>c \<in> set input. n \<le> c)"
    then have "filter (\<lambda>c. c < n) input = input" by (intro filter_True) auto
    with assms(1,2) show False by (simp add: at_top_def)
  qed
  define m where "m = next_point n input"
  from next_point_least [OF \<open>\<exists>c \<in> set input. n \<le> c\<close> small]
  have m: "m \<in> set input" "n \<le> m" "\<forall>c \<in> set input. n \<le> c \<longrightarrow> m \<le> c" by (simp_all add: m_def)
  have scalar: "is_scalar m" "m < 0x110000" using m(1) assms(3) small by auto
  have below: "filter (\<lambda>c. c < m) input = filter (\<lambda>c. c < n) input"
    by (rule filter_below [OF m(3,2)])
  have step: "(m + 2 ^ 32 - n) mod 2 ^ 32 = m - n"
  proof -
    have "m + 2 ^ 32 - n = (m - n) + 2 ^ 32" using m(2) by simp
    moreover have "m - n < 2 ^ 32" using scalar(2) by (intro less_imp_diff_less) simp
    ultimately show ?thesis by (simp only: mod_add_self2 mod_less)
  qed
  have st: "handled = length (filter (\<lambda>c. c < n) input)" "delta + i = (n - nd) * (handled + 1)"
    "nd \<le> n" "basic \<le> handled" "handled = basic \<longleftrightarrow> i = 0"
    using assms(1) by (auto simp: at_top_def)
  define d where "d = delta + (m - n) * (handled + 1)"
  have "m - nd = (m - n) + (n - nd)" using st(3) m(2) by simp
  then have "d + i = (m - nd) * (handled + 1)"
    using st(2) by (simp only: d_def add_mult_distrib)
  then have start: "in_step m [] input basic nd i d handled"
    using st m(2) by (auto simp: in_step_def below)
  then have "d < 35 ^ 6" using in_step_bound(2) [OF start scalar(2)] assms(4) by simp
  then have "(m - n) * (handled + 1) \<le> 0xFFFFFFFF - delta" by (simp add: d_def)
  then have fits: "m - n \<le> (0xFFFFFFFF - delta) div (handled + 1)"
    by (simp only: less_eq_div_iff_mult_less_eq zero_less_Suc Suc_eq_plus1 [symmetric])
  have "length ([] @ input) \<le> 1648" using assms(4) by simp
  from puny_pass_decoded [OF start scalar(1) this, of out bias]
  obtain e delta' bias' nd' i' handled' where e:
    "puny_pass m basic input (out, d, bias, handled) = Some (out @ e, delta', bias', handled')"
    "\<forall>c \<in> set e. c \<noteq> CHR ''-''" "in_step m input [] basic nd' i' delta' handled'"
    "\<forall>rest. puny_decode_loop (filter (\<lambda>c. c < m) input) nd i bias (e @ rest)
         = puny_decode_loop (filter (\<lambda>c. c \<le> m) input) nd' i' bias' rest"
    by (elim exE conjE) (rule that, simp_all)
  have "delta' < 35 ^ 6" using in_step_bound(2) [OF e(3) scalar(2)] assms(4) by simp
  then have wrap: "(delta' + 1) mod 2 ^ 32 = delta' + 1" by simp
  have le: "filter (\<lambda>c. c \<le> m) input = filter (\<lambda>c. c < m + 1) input"
    by (rule filter_cong) auto
  have "at_top (m + 1) input basic nd' i' (delta' + 1) handled'"
    using e(3) by (auto simp: at_top_def in_step_def le [simplified] Suc_diff_le)
  moreover have "handled < handled'"
  proof -
    have "length (filter (\<lambda>c. c < m) input) < length (filter (\<lambda>c. c \<le> m) input)"
      using m(1) by (rule filter_below_strict)
    then show ?thesis using e(3) st(1) below by (simp add: in_step_def)
  qed
  moreover have "puny_round input basic n (out, delta, bias, handled)
      = Some (m + 1, out @ e, delta' + 1, bias', handled')"
    using e(1) fits step wrap by (simp add: puny_round_def Let_def d_def flip: m_def)
  moreover have "\<forall>rest. puny_decode_loop (filter (\<lambda>c. c < n) input) nd i bias (e @ rest)
      = puny_decode_loop (filter (\<lambda>c. c < m + 1) input) nd' i' bias' rest"
    by (rule e(4) [unfolded below le])
  ultimately show ?thesis
    using e(2)
    by (intro exI [of _ "m + 1"] exI [of _ e] exI [of _ "delta' + 1"] exI [of _ bias']
        exI [of _ nd'] exI [of _ i'] exI [of _ handled'] conjI)
qed

lemma puny_loop_decoded:
  assumes "at_top n input basic nd i delta handled" "length input - handled \<le> fuel"
    "\<forall>c \<in> set input. is_scalar c" "length input \<le> 1648"
  shows "\<exists>e. puny_loop fuel input basic n (out, delta, bias, handled) = Value (out @ e)
    \<and> (\<forall>c \<in> set e. c \<noteq> CHR ''-'')
    \<and> puny_decode_loop (filter (\<lambda>c. c < n) input) nd i bias e = Some input"
  using assms
proof (induction fuel arbitrary: n nd i out delta bias handled)
  case 0
  then have "length (filter (\<lambda>c. c < n) input) \<ge> length input" by (simp add: at_top_def)
  then have "filter (\<lambda>c. c < n) input = input"
    by (metis filter_True length_filter_less linorder_not_less)
  then show ?case using 0
    by (intro exI [of _ "[]"]) (simp add: puny_loop.simps puny_decode_loop.simps)
next
  case (Suc fuel)
  show ?case
  proof (cases "handled \<ge> length input")
    case True
    then have "length (filter (\<lambda>c. c < n) input) \<ge> length input"
      using Suc.prems(1) by (simp add: at_top_def)
    then have "filter (\<lambda>c. c < n) input = input"
      by (metis filter_True length_filter_less linorder_not_less)
    then show ?thesis using True
      by (intro exI [of _ "[]"]) (simp add: puny_loop.simps puny_decode_loop.simps)
  next
    case False
    then have "handled < length input" by simp
    from puny_round_decoded [OF Suc.prems(1) this Suc.prems(3,4), of out bias]
    obtain m e delta' bias' nd' i' handled' where r:
      "puny_round input basic n (out, delta, bias, handled) = Some (m, out @ e, delta', bias', handled')"
      "handled < handled'" "\<forall>c \<in> set e. c \<noteq> CHR ''-''" "at_top m input basic nd' i' delta' handled'"
      "\<forall>rest. puny_decode_loop (filter (\<lambda>c. c < n) input) nd i bias (e @ rest)
         = puny_decode_loop (filter (\<lambda>c. c < m) input) nd' i' bias' rest"
      by (elim exE conjE) (rule that)
    have "length input - handled' \<le> fuel" using r(2) Suc.prems(2) by simp
    from Suc.IH [OF r(4) this Suc.prems(3,4), of "out @ e" bias']
    obtain e' where e':
      "puny_loop fuel input basic m (out @ e, delta', bias', handled') = Value ((out @ e) @ e')"
      "\<forall>c \<in> set e'. c \<noteq> CHR ''-''"
      "puny_decode_loop (filter (\<lambda>c. c < m) input) nd' i' bias' e' = Some input"
      by (elim exE conjE) (rule that)
    with r False show ?thesis
      by (intro exI [of _ "e @ e'"]) (auto simp: puny_loop.simps)
  qed
qed

section \<open>The property\<close>

lemma find_last_append:
  "P x \<Longrightarrow> \<forall>y \<in> set ys. \<not> P y \<Longrightarrow> find_last P (xs @ x # ys) = Some (length xs)"
proof -
  assume "P x" "\<forall>y \<in> set ys. \<not> P y"
  then have "find_index P (rev ys @ x # rev xs) = Some (length ys)"
    by (simp add: find_index_Some nth_append rev_nth)
  then show ?thesis by (simp add: find_last_def)
qed

lemma find_last_none: "\<forall>y \<in> set ys. \<not> P y \<Longrightarrow> find_last P ys = None"
  by (simp add: find_last_def find_index_None)

text \<open>
  C36: Punycode round trip: the encoder turns any label of at most 1648 code points, none of them a
  surrogate (the decoder refuses those) and none above \<open>0x10FFFF\<close>, into
  text - its loops end, none of its overflow tests fires - and the decoder, for all its own overflow
  tests, reads that text back as the same label.
\<close>

theorem punycode_round:
  assumes "\<forall>c \<in> set input. is_scalar c" "length input \<le> 1648"
  shows "\<exists>s. punycode input = Value s \<and> punycode_decode s = Some input"
proof -
  let ?basic = "filter (\<lambda>c. c < 0x80) input"
  let ?out = "map chr ?basic @ (if length ?basic > 0 then ''-'' else [])"
  have "at_top 128 input (length ?basic) 128 0 0 (length ?basic)" by (simp add: at_top_def)
  from puny_loop_decoded [OF this diff_le_self assms, of ?out 72]
  obtain e where e: "puny_loop (length input) input (length ?basic) 128 (?out, 0, 72, length ?basic) = Value (?out @ e)"
    "\<forall>c \<in> set e. c \<noteq> CHR ''-''" "puny_decode_loop ?basic 128 0 72 e = Some input"
    by (elim exE conjE) (rule that)
  have "map byte (map chr ?basic) = ?basic" by (auto simp: o_def intro!: map_idI)
  then have "punycode_decode (?out @ e) = Some input"
    using e by (cases "?basic = []")
      (auto simp: punycode_decode_def find_last_append find_last_none)
  with e(1) show ?thesis
    by (simp add: punycode_def)
qed

text \<open>The label of \<^verbatim>\<open>xn--mnchen-3ya\<close>.\<close>

theorem punycode_round_witness:
  "\<exists>s. punycode [109, 0xFC, 110, 99, 104, 101, 110] = Value s
    \<and> punycode_decode s = Some [109, 0xFC, 110, 99, 104, 101, 110]"
  by (rule punycode_round) (simp_all add: is_scalar_def is_surrogate_def)

end
