(* ===== verification/Unicode_Tables.thy ===== *)
theory Unicode_Tables
  imports Url_Encoding "HOL-Library.Multiset"
begin

text \<open>
  The Unicode tables of the URL host parser and Normalization Form C
  (\<^verbatim>\<open>lib/Shell/net/url_unicode.cpp\<close>). The tables are generated (\<^verbatim>\<open>nfc_table.inc\<close>,
  \<^verbatim>\<open>idna_table.inc\<close>), so they are a parameter of the model, a \<open>unicode_data\<close> record; what the code
  relies on is that their rows are sorted (\<open>tables_sorted\<close>) and hold code points. What is shown: each
  of the binary searches is the lookup of the row that holds the code point, the insertion sort of
  \<^verbatim>\<open>to_nfc\<close> is the canonical ordering of each run of non-starters, and Hangul syllables
  survive decomposition and composition.
\<close>

section \<open>The tables\<close>

text \<open>A row for the code points from \<open>range_first\<close> to \<open>range_last\<close>.\<close>

record 'a range_row =
  range_first :: code_point
  range_last :: code_point
  row_data :: 'a

record nfd_entry =
  nfd_cp :: code_point
  nfd_at :: nat
  nfd_len :: nat

record compose_pair =
  pair_a :: code_point
  pair_b :: code_point
  pair_cp :: code_point

datatype idna_status = Idna_valid | Idna_mapped | Idna_ignored | Idna_disallowed

record idna_mapping =
  status :: idna_status
  map_at :: nat
  map_len :: nat

record unicode_data =
  nfd_table :: "nfd_entry list"
  nfd_data :: "code_point list"
  ccc_ranges :: "nat range_row list"
  compose_pairs :: "compose_pair list"
  idna_ranges :: "idna_mapping range_row list"
  idna_mappings :: "code_point list"
  combining_mark_ranges :: "unit range_row list"
  virama_ranges :: "unit range_row list"
  joining_ranges :: "char range_row list"
  bidi_ranges :: "char range_row list"

section \<open>Binary search\<close>

text \<open>What the comparisons with the middle row say: look before it, after it, or take it.\<close>

datatype probe = Before | After | Hit

function search_loop :: "('a \<Rightarrow> probe) \<Rightarrow> 'a list \<Rightarrow> nat \<Rightarrow> nat \<Rightarrow> 'a option" where
  "search_loop probe table lo hi =
     (if lo < hi
      then let mid = lo + (hi - lo) div 2 in
        (case probe (table ! mid) of
           Before \<Rightarrow> search_loop probe table lo mid
         | After \<Rightarrow> search_loop probe table (mid + 1) hi
         | Hit \<Rightarrow> Some (table ! mid))
      else None)"
  by pat_completeness auto
termination
  by (relation "measure (\<lambda>(probe, table, lo, hi). hi - lo)") auto

declare search_loop.simps [simp del]

definition search :: "('a \<Rightarrow> probe) \<Rightarrow> 'a list \<Rightarrow> 'a option" where
  "search probe table = search_loop probe table 0 (length table)"

definition range_probe :: "code_point \<Rightarrow> ('a, 'b) range_row_scheme \<Rightarrow> probe" where
  "range_probe c row =
     (if c < range_first row then Before else if c > range_last row then After else Hit)"

definition nfd_probe :: "code_point \<Rightarrow> nfd_entry \<Rightarrow> probe" where
  "nfd_probe c row = (if c < nfd_cp row then Before else if c > nfd_cp row then After else Hit)"

definition pair_probe :: "code_point \<times> code_point \<Rightarrow> compose_pair \<Rightarrow> probe" where
  "pair_probe k row =
     (let (a, b) = k in
      if a < pair_a row \<or> a = pair_a row \<and> b < pair_b row then Before
      else if a > pair_a row \<or> a = pair_a row \<and> b > pair_b row then After
      else Hit)"

text \<open>\<^verbatim>\<open>combining_class\<close>, \<^verbatim>\<open>idna_lookup\<close>, \<^verbatim>\<open>in_pairs\<close>, \<^verbatim>\<open>joining_type\<close> and \<^verbatim>\<open>bidi_class\<close>.\<close>

definition combining_class :: "unicode_data \<Rightarrow> code_point \<Rightarrow> nat" where
  "combining_class D c =
     (case search (range_probe c) (ccc_ranges D) of Some row \<Rightarrow> row_data row | None \<Rightarrow> 0)"

definition idna_lookup :: "unicode_data \<Rightarrow> code_point \<Rightarrow> idna_mapping option" where
  "idna_lookup D c = map_option row_data (search (range_probe c) (idna_ranges D))"

definition in_pairs :: "unit range_row list \<Rightarrow> code_point \<Rightarrow> bool" where
  "in_pairs table c = (search (range_probe c) table \<noteq> None)"

definition joining_type :: "unicode_data \<Rightarrow> code_point \<Rightarrow> char" where
  "joining_type D c =
     (case search (range_probe c) (joining_ranges D) of Some row \<Rightarrow> row_data row | None \<Rightarrow> CHR ''U'')"

definition bidi_class :: "unicode_data \<Rightarrow> code_point \<Rightarrow> char" where
  "bidi_class D c =
     (case search (range_probe c) (bidi_ranges D) of Some row \<Rightarrow> row_data row | None \<Rightarrow> CHR ''L'')"

section \<open>Decomposition, ordering and composition\<close>

definition decompose_into :: "unicode_data \<Rightarrow> code_point list \<Rightarrow> code_point \<Rightarrow> code_point list" where
  "decompose_into D out c =
     (if c \<ge> 0xAC00 \<and> c < 0xAC00 + 11172
      then let index = c - 0xAC00; t = index mod 28 in
        out @ [0x1100 + index div 588, 0x1161 + index mod 588 div 28]
            @ (if t \<noteq> 0 then [0x11A7 + t] else [])
      else case search (nfd_probe c) (nfd_table D) of
          Some row \<Rightarrow> out @ substr (nfd_data D) (nfd_at row) (nfd_len row)
        | None \<Rightarrow> out @ [c])"

text \<open>The primary composite, or 0.\<close>

definition compose :: "unicode_data \<Rightarrow> code_point \<Rightarrow> code_point \<Rightarrow> code_point" where
  "compose D a b =
     (if a \<ge> 0x1100 \<and> a < 0x1100 + 19 \<and> b \<ge> 0x1161 \<and> b < 0x1161 + 21
      then 0xAC00 + ((a - 0x1100) * 21 + (b - 0x1161)) * 28
      else if a \<ge> 0xAC00 \<and> a < 0xAC00 + 11172 \<and> (a - 0xAC00) mod 28 = 0 \<and> b > 0x11A7 \<and> b < 0x11A7 + 28
      then a + (b - 0x11A7)
      else case search (pair_probe (a, b)) (compose_pairs D) of Some row \<Rightarrow> pair_cp row | None \<Rightarrow> 0)"

text \<open>The insertion sort swaps a code point down past those of a higher class. The part of the array
  in front of it is kept as a list that starts with its last element.\<close>

fun sink :: "(code_point \<Rightarrow> nat) \<Rightarrow> code_point \<Rightarrow> code_point list \<Rightarrow> code_point list" where
  "sink cc c [] = [c]"
| "sink cc c (p # ps) = (if cc p > cc c then p # sink cc c ps else c # p # ps)"

definition order_step :: "(code_point \<Rightarrow> nat) \<Rightarrow> code_point list \<Rightarrow> code_point \<Rightarrow> code_point list" where
  "order_step cc front c = (if cc c = 0 then c # front else sink cc c front)"

definition canonical_order :: "(code_point \<Rightarrow> nat) \<Rightarrow> code_point list \<Rightarrow> code_point list" where
  "canonical_order cc parts = rev (foldl (order_step cc) [] parts)"

text \<open>Composition: the output, the index of the last starter, and the class before.\<close>

fun compose_loop ::
    "unicode_data \<Rightarrow> code_point list \<Rightarrow> nat \<Rightarrow> nat \<Rightarrow> code_point list \<Rightarrow> code_point list" where
  "compose_loop D out starter last_class [] = out"
| "compose_loop D out starter last_class (c # cs) =
     (let klass = combining_class D c; composed = compose D (out ! starter) c in
      if composed \<noteq> 0 \<and> (last_class < klass \<or> last_class = 0)
      then compose_loop D (out[starter := composed]) starter last_class cs
      else compose_loop D (out @ [c]) (if klass = 0 then length out else starter) klass cs)"

definition to_nfc :: "unicode_data \<Rightarrow> code_point list \<Rightarrow> code_point list" where
  "to_nfc D s =
     (if \<forall>c \<in> set s. c < 0x80 then s
      else case canonical_order (combining_class D) (foldl (decompose_into D) [] s) of
          [] \<Rightarrow> []
        | p # parts \<Rightarrow>
            compose_loop D [p] 0 (if combining_class D p \<noteq> 0 then 256 else combining_class D p) parts)"

section \<open>A table the search can be used on\<close>

lemma search_loop_Some:
  assumes "hi \<le> length table" "search_loop probe table lo hi = Some r"
  shows "r \<in> set table \<and> probe r = Hit"
  using assms
proof (induction "hi - lo" arbitrary: lo hi rule: less_induct)
  case less
  define mid where "mid = lo + (hi - lo) div 2"
  have "lo < hi" using less.prems by (subst (asm) search_loop.simps) (auto split: if_splits)
  then have mid: "lo \<le> mid" "mid < hi" by (auto simp: mid_def)
  have "search_loop probe table lo hi = (case probe (table ! mid) of
      Before \<Rightarrow> search_loop probe table lo mid | After \<Rightarrow> search_loop probe table (mid + 1) hi
    | Hit \<Rightarrow> Some (table ! mid))"
    using \<open>lo < hi\<close> by (subst search_loop.simps) (simp add: Let_def flip: mid_def)
  with less.prems less.hyps [of mid lo] less.hyps [of hi "mid + 1"] mid show ?case
    by (auto split: probe.splits)
qed

text \<open>
  What the binary search asks of a row order \<open>before\<close>: the comparison with one row decides the
  comparisons with the rows on its other side.
\<close>

locale ordered_rows =
  fixes probe :: "'a \<Rightarrow> probe" and before :: "'a \<Rightarrow> 'a \<Rightarrow> bool"
  assumes before_hit: "before r s \<Longrightarrow> probe r \<noteq> After \<Longrightarrow> probe s = Before"
    and after_hit: "before r s \<Longrightarrow> probe s \<noteq> Before \<Longrightarrow> probe r = After"
begin

lemma search_loop_finds:
  assumes "sorted_wrt before table" "hi \<le> length table" "lo \<le> i" "i < hi" "probe (table ! i) = Hit"
  shows "search_loop probe table lo hi = Some (table ! i)"
  using assms(2-4)
proof (induction "hi - lo" arbitrary: lo hi rule: less_induct)
  case less
  define mid where "mid = lo + (hi - lo) div 2"
  have mid: "lo \<le> mid" "mid < hi" using less.prems by (auto simp: mid_def)
  consider "i < mid" | "i = mid" | "mid < i" by linarith
  then show ?case
  proof cases
    case 1
    then have "probe (table ! mid) = Before"
      using assms(1,5) mid less.prems by (intro before_hit [of "table ! i"]) (auto simp: sorted_wrt_iff_nth_less)
    with 1 mid less.prems less.hyps [of mid lo] show ?thesis
      by (subst search_loop.simps) (simp add: Let_def flip: mid_def)
  next
    case 2
    with assms(5) less.prems show ?thesis
      by (subst search_loop.simps) (simp add: Let_def flip: mid_def)
  next
    case 3
    then have "probe (table ! mid) = After"
      using assms(1,5) mid less.prems by (intro after_hit [of _ "table ! i"]) (auto simp: sorted_wrt_iff_nth_less)
    with 3 mid less.prems less.hyps [of hi "mid + 1"] show ?thesis
      by (subst search_loop.simps) (simp add: Let_def flip: mid_def)
  qed
qed

lemma search_find:
  assumes "sorted_wrt before table"
  shows "search probe table = find (\<lambda>r. probe r = Hit) table"
proof (cases "find (\<lambda>r. probe r = Hit) table")
  case None
  then have "search probe table \<noteq> Some r" for r
    using search_loop_Some [of "length table" table probe 0 r] by (auto simp: search_def find_None_iff)
  with None show ?thesis by (cases "search probe table") auto
next
  case (Some r)
  then obtain i where "i < length table" "probe (table ! i) = Hit" "r = table ! i"
    by (auto simp: find_Some_iff)
  with search_loop_finds [OF assms order_refl, of 0 i] Some show ?thesis by (simp add: search_def)
qed

end

section \<open>The searches of the code\<close>

definition range_before :: "('a, 'b) range_row_scheme \<Rightarrow> ('a, 'b) range_row_scheme \<Rightarrow> bool" where
  "range_before r s \<longleftrightarrow> range_first r \<le> range_last r \<and> range_last r < range_first s
     \<and> range_first s \<le> range_last s"

definition pair_before :: "compose_pair \<Rightarrow> compose_pair \<Rightarrow> bool" where
  "pair_before r s \<longleftrightarrow> pair_a r < pair_a s \<or> pair_a r = pair_a s \<and> pair_b r < pair_b s"

interpretation ranges: ordered_rows "range_probe c" range_before for c
  by unfold_locales (auto simp: range_probe_def range_before_def split: if_splits)

interpretation decompositions: ordered_rows "nfd_probe c" "\<lambda>r s. nfd_cp r < nfd_cp s" for c
  by unfold_locales (auto simp: nfd_probe_def split: if_splits)

lemma pair_probe_cases:
  "pair_probe k row = Before \<longleftrightarrow> fst k < pair_a row \<or> fst k = pair_a row \<and> snd k < pair_b row"
  "pair_probe k row = After \<longleftrightarrow> fst k > pair_a row \<or> fst k = pair_a row \<and> snd k > pair_b row"
  by (cases k; simp add: pair_probe_def; linarith)+

interpretation compositions: ordered_rows "pair_probe k" pair_before for k
  by unfold_locales (simp add: pair_probe_cases pair_before_def; linarith)+

text \<open>The generated tables are sorted.\<close>

definition tables_sorted :: "unicode_data \<Rightarrow> bool" where
  "tables_sorted D \<longleftrightarrow>
     sorted_wrt range_before (ccc_ranges D) \<and> sorted_wrt range_before (idna_ranges D)
     \<and> sorted_wrt range_before (combining_mark_ranges D) \<and> sorted_wrt range_before (virama_ranges D)
     \<and> sorted_wrt range_before (joining_ranges D) \<and> sorted_wrt range_before (bidi_ranges D)
     \<and> sorted_wrt (\<lambda>r s. nfd_cp r < nfd_cp s) (nfd_table D)
     \<and> sorted_wrt pair_before (compose_pairs D)"

lemma range_hit: "range_probe c row = Hit \<longleftrightarrow> range_first row \<le> c \<and> c \<le> range_last row"
  by (auto simp: range_probe_def)

lemma nfd_hit: "nfd_probe c row = Hit \<longleftrightarrow> nfd_cp row = c"
  by (auto simp: nfd_probe_def)

lemma pair_hit: "pair_probe (a, b) row = Hit \<longleftrightarrow> pair_a row = a \<and> pair_b row = b"
  by (auto simp: pair_probe_def)

text \<open>
  On sorted tables each binary search of the host parser is the plain lookup of the row that
  holds the code point (or the pair): combining classes, IDNA rows, the range tests, joining types,
  bidirectional classes, and the decomposition and composition rows.
\<close>

theorem searches_lookup:
  assumes "tables_sorted D"
  shows "combining_class D c = (case find (\<lambda>r. range_first r \<le> c \<and> c \<le> range_last r) (ccc_ranges D) of
           Some row \<Rightarrow> row_data row | None \<Rightarrow> 0)
    \<and> idna_lookup D c = map_option row_data (find (\<lambda>r. range_first r \<le> c \<and> c \<le> range_last r) (idna_ranges D))
    \<and> in_pairs (combining_mark_ranges D) c = (\<exists>r \<in> set (combining_mark_ranges D). range_first r \<le> c \<and> c \<le> range_last r)
    \<and> in_pairs (virama_ranges D) c = (\<exists>r \<in> set (virama_ranges D). range_first r \<le> c \<and> c \<le> range_last r)
    \<and> joining_type D c = (case find (\<lambda>r. range_first r \<le> c \<and> c \<le> range_last r) (joining_ranges D) of
           Some row \<Rightarrow> row_data row | None \<Rightarrow> CHR ''U'')
    \<and> bidi_class D c = (case find (\<lambda>r. range_first r \<le> c \<and> c \<le> range_last r) (bidi_ranges D) of
           Some row \<Rightarrow> row_data row | None \<Rightarrow> CHR ''L'')
    \<and> search (nfd_probe c) (nfd_table D) = find (\<lambda>r. nfd_cp r = c) (nfd_table D)
    \<and> search (pair_probe (a, b)) (compose_pairs D) = find (\<lambda>r. pair_a r = a \<and> pair_b r = b) (compose_pairs D)"
proof -
  have none: "(find P xs \<noteq> None) = (\<exists>x \<in> set xs. P x)" for P and xs :: "unit range_row list"
    by (auto simp: find_None_iff)
  show ?thesis
    using assms unfolding tables_sorted_def combining_class_def idna_lookup_def in_pairs_def
      joining_type_def bidi_class_def
    by (simp only: ranges.search_find decompositions.search_find compositions.search_find
        range_hit nfd_hit pair_hit none simp_thms)
qed

theorem searches_lookup_witness:
  "\<exists>D. tables_sorted D \<and> combining_class D 0x301 = 230 \<and> combining_class D 0x61 = 0"
proof -
  define D where "D = \<lparr>nfd_table = [], nfd_data = [],
     ccc_ranges = [\<lparr>range_first = 0x300, range_last = 0x314, row_data = 230\<rparr>,
       \<lparr>range_first = 0x316, range_last = 0x319, row_data = 220\<rparr>],
     compose_pairs = [], idna_ranges = [], idna_mappings = [], combining_mark_ranges = [],
     virama_ranges = [], joining_ranges = [], bidi_ranges = []\<rparr>"
  have sorted: "tables_sorted D" by (simp add: D_def tables_sorted_def range_before_def)
  have "combining_class D 0x301 = 230" "combining_class D 0x61 = 0"
    using searches_lookup [OF sorted, of "0x301"] searches_lookup [OF sorted, of "0x61"]
    by (simp_all add: D_def)
  with sorted show ?thesis by blast
qed

section \<open>Canonical ordering\<close>

text \<open>The ordering as the Unicode Standard states it: each run of non-starters is sorted by class,
  stably.\<close>

function runs_sorted :: "(code_point \<Rightarrow> nat) \<Rightarrow> code_point list \<Rightarrow> code_point list" where
  "runs_sorted cc [] = []"
| "runs_sorted cc (c # cs) =
     (if cc c = 0 then c # runs_sorted cc cs
      else sort_key cc (c # takeWhile (\<lambda>d. cc d \<noteq> 0) cs) @ runs_sorted cc (dropWhile (\<lambda>d. cc d \<noteq> 0) cs))"
  by pat_completeness auto
termination
  by (relation "measure (\<lambda>(cc, cs). length cs)") (auto simp: le_imp_less_Suc length_dropWhile_le)

lemma mset_sink: "mset (sink cc c ps) = add_mset c (mset ps)"
  by (induction ps) auto

lemma set_sink: "set (sink cc c ps) = insert c (set ps)"
  by (induction ps) auto

lemma sink_sorted:
  "sorted (map cc (rev ps)) \<Longrightarrow> sorted (map cc (rev (sink cc c ps)))"
  by (induction ps) (auto simp: sorted_append set_sink)

lemma sink_stable:
  "filter (\<lambda>d. cc d = k) (rev (sink cc c ps)) = filter (\<lambda>d. cc d = k) (rev ps @ [c])"
  if "sorted (map cc (rev ps))"
  using that by (induction ps) (auto simp: sorted_append)

lemma sink_base:
  "base = [] \<or> cc (hd base) = 0 \<Longrightarrow> sink cc c (ps @ base) = sink cc c ps @ base"
  by (induction ps) (cases base, auto)

text \<open>A run goes into the front part sorted, and stays in front of the last starter.\<close>

lemma order_run:
  assumes "\<forall>c \<in> set xs. cc c \<noteq> 0" "base = [] \<or> cc (hd base) = 0" "sorted (map cc (rev ps))"
  shows "foldl (order_step cc) (ps @ base) xs = rev (sort_key cc (rev ps @ xs)) @ base"
  using assms
proof (induction xs arbitrary: ps)
  case Nil
  then have "sort_key cc (rev ps) = rev ps" by (intro sort_key_id_if_sorted)
  then show ?case by simp
next
  case (Cons c cs)
  have "order_step cc (ps @ base) c = sink cc c ps @ base"
    using Cons.prems(1,2) by (simp add: order_step_def sink_base)
  moreover have "sort_key cc (rev (sink cc c ps) @ cs) = sort_key cc (rev ps @ c # cs)"
  proof (rule properties_for_sort_key)
    show "mset (sort_key cc (rev ps @ c # cs)) = mset (rev (sink cc c ps) @ cs)" by (simp add: mset_sink)
    show "sorted (map cc (sort_key cc (rev ps @ c # cs)))" by simp
    fix k
    show "filter (\<lambda>x. cc k = cc x) (sort_key cc (rev ps @ c # cs))
        = filter (\<lambda>x. cc k = cc x) (rev (sink cc c ps) @ cs)"
      using sink_stable [OF Cons.prems(3), of "cc k" c]
      by (simp add: sort_key_stable eq_commute [of "cc k"])
  qed
  ultimately show ?case
    using Cons.IH [of "sink cc c ps"] Cons.prems sink_sorted [OF Cons.prems(3)] by simp
qed

lemma order_base:
  "base = [] \<or> cc (hd base) = 0 \<Longrightarrow>
     foldl (order_step cc) (ps @ base) cs = foldl (order_step cc) ps cs @ base"
proof (induction cs arbitrary: ps)
  case (Cons c cs)
  then have "order_step cc (ps @ base) c = order_step cc ps c @ base"
    by (simp add: order_step_def sink_base)
  with Cons show ?case by simp
qed simp

lemma order_starter:
  assumes "cs = [] \<or> cc (hd cs) = 0"
  shows "foldl (order_step cc) front cs = foldl (order_step cc) [] cs @ front"
proof (cases cs)
  case (Cons c cs')
  with assms have c: "cc c = 0" by simp
  with order_base [of "c # front" cc "[]" cs'] order_base [of "[c]" cc "[]" cs'] show ?thesis
    by (simp add: Cons order_step_def)
qed simp

text \<open>
  The insertion sort of \<^verbatim>\<open>to_nfc\<close> is the canonical ordering: starters stay in place and
  every run of non-starters between them is sorted by combining class, stably.
\<close>

theorem canonical_order_runs: "canonical_order cc parts = runs_sorted cc parts"
proof (induction cc parts rule: runs_sorted.induct)
  case (1 cc)
  then show ?case by (simp add: canonical_order_def)
next
  case (2 cc c cs)
  show ?case
  proof (cases "cc c = 0")
    case True
    with 2(1) order_base [of "[c]" cc "[]" cs] show ?thesis
      by (simp add: canonical_order_def order_step_def)
  next
    case False
    let ?run = "c # takeWhile (\<lambda>d. cc d \<noteq> 0) cs" and ?rest = "dropWhile (\<lambda>d. cc d \<noteq> 0) cs"
    have split: "c # cs = ?run @ ?rest" by simp
    have "\<forall>d \<in> set ?run. cc d \<noteq> 0" using False by (auto dest: set_takeWhileD)
    from order_run [OF this, of "[]" "[]"]
    have run: "foldl (order_step cc) [] ?run = rev (sort_key cc ?run)" by simp
    have "?rest = [] \<or> cc (hd ?rest) = 0" using hd_dropWhile [of "\<lambda>d. cc d \<noteq> 0" cs] by blast
    from order_starter [of ?rest cc "rev (sort_key cc ?run)", OF this]
    have "canonical_order cc (c # cs) = sort_key cc ?run @ canonical_order cc ?rest"
      unfolding canonical_order_def by (subst split) (simp only: foldl_append run rev_append rev_rev_ident)
    with 2(2) [OF False] False show ?thesis by simp
  qed
qed

section \<open>Hangul\<close>

lemma hangul_parts:
  fixes s :: nat
  assumes "s < 11172"
  shows "s div 588 < 19 \<and> s mod 588 div 28 < 21
    \<and> (s div 588 * 21 + s mod 588 div 28) * 28 + s mod 28 = s"
proof -
  have "s div 588 < 19" using assms by (intro less_mult_imp_div_less) simp
  moreover have "s mod 588 div 28 < 21" by (intro less_mult_imp_div_less) simp
  moreover have "s mod 28 = s mod 588 mod 28" by (simp add: mod_mod_cancel)
  ultimately show ?thesis
    using div_mult_mod_eq [of s 588] div_mult_mod_eq [of "s mod 588" 28] by (simp add: algebra_simps)
qed

text \<open>
  A Hangul syllable is its own normal form: the arithmetic decomposition into two or three
  conjoining letters and the arithmetic composition are inverse, whatever the tables say of other
  code points, as long as the letters are starters.
\<close>

theorem hangul_round:
  assumes "0xAC00 \<le> s" "s < 0xAC00 + 11172" "\<forall>c \<in> {0x1100..<0x1200}. combining_class D c = 0"
  shows "to_nfc D [s] = [s]
    \<and> (\<forall>c \<in> set (decompose_into D [] s). 0x1100 \<le> c \<and> c < 0x1200)"
proof -
  define i where "i = s - 0xAC00"
  define l where "l = 0x1100 + i div 588"
  define v where "v = 0x1161 + i mod 588 div 28"
  define t where "t = i mod 28"
  have s: "s = 0xAC00 + i" "i < 11172" using assms(1,2) by (simp_all add: i_def)
  have parts: "i div 588 < 19" "i mod 588 div 28 < 21" "(i div 588 * 21 + i mod 588 div 28) * 28 + t = i"
    using hangul_parts [OF s(2)] by (simp_all add: t_def)
  have t: "t < 28" by (simp add: t_def)
  have starters: "combining_class D l = 0" "combining_class D v = 0" "combining_class D (0x11A7 + t) = 0"
    using assms(3) parts t by (simp_all add: l_def v_def)
  have dec: "decompose_into D [] s = [l, v] @ (if t \<noteq> 0 then [0x11A7 + t] else [])"
    using s by (simp add: decompose_into_def Let_def l_def v_def t_def)
  define lv where "lv = 0xAC00 + (i div 588 * 21 + i mod 588 div 28) * 28"
  have lv: "compose D l v = lv" using parts by (simp add: compose_def l_def v_def lv_def)
  have lvt: "lv + t = s" using parts(3) s(1) by (simp add: lv_def)
  have "compose D lv (0x11A7 + t) = s" if "t \<noteq> 0"
  proof -
    have "\<not> lv < 0x1100 + 19" "lv < 0xAC00 + 11172" "(lv - 0xAC00) mod 28 = 0"
      using lvt s by (simp_all add: lv_def)
    with that t lvt show ?thesis by (simp add: compose_def lv_def)
  qed
  moreover have "canonical_order (combining_class D) (decompose_into D [] s) = decompose_into D [] s"
    using starters by (simp add: dec canonical_order_def order_step_def)
  moreover have "lv \<noteq> 0" by (simp add: lv_def)
  ultimately have "to_nfc D [s] = [s]"
    using s starters lv lvt dec by (auto simp: to_nfc_def)
  moreover have "\<forall>c \<in> set (decompose_into D [] s). 0x1100 \<le> c \<and> c < 0x1200"
    using parts t by (auto simp: dec l_def v_def)
  ultimately show ?thesis ..
qed

theorem hangul_round_witness:
  "\<exists>D. to_nfc D [0xD55C] = [0xD55C] \<and> decompose_into D [] 0xD55C = [0x1112, 0x1161, 0x11AB]"
proof -
  define D where "D = \<lparr>nfd_table = [], nfd_data = [], ccc_ranges = [],
     compose_pairs = [], idna_ranges = [], idna_mappings = [], combining_mark_ranges = [],
     virama_ranges = [], joining_ranges = [], bidi_ranges = []\<rparr>"
  have "\<forall>c \<in> {0x1100..<0x1200}. combining_class D c = 0"
    by (simp add: D_def combining_class_def search_def search_loop.simps)
  from hangul_round [OF _ _ this, of "0xD55C"] have "to_nfc D [0xD55C] = [0xD55C]" by simp
  moreover have "decompose_into D [] 0xD55C = [0x1112, 0x1161, 0x11AB]"
    by (simp add: decompose_into_def)
  ultimately show ?thesis by blast
qed

end
