(* ===== verification/Url_Host.thy ===== *)
theory Url_Host
  imports Punycode Unicode_Tables Url_Ip
begin

text \<open>
  Domain to ASCII and the host parser of the URL Standard (\<^verbatim>\<open>lib/Shell/net/url_unicode.cpp\<close>:
  the IDNA processing with its label checks, \<^verbatim>\<open>domain_to_ascii\<close> and \<^verbatim>\<open>parse_host\<close>). The Unicode
  tables are a parameter. What is shown: the host parser always answers, its answer is a bracketed
  IPv6 address or printable ASCII without any forbidden host code point, and plain ASCII names
  are lower-cased and nothing else.
\<close>

section \<open>Forbidden code points\<close>

definition forbidden_host :: "code_point \<Rightarrow> bool" where
  "forbidden_host c \<longleftrightarrow> c = 0 \<or> c \<in> set (map byte (chr 9 # chr 10 # chr 13 # chr 92 # '' #/:<>?@[]^|''))"

definition forbidden_domain :: "code_point \<Rightarrow> bool" where
  "forbidden_domain c \<longleftrightarrow> forbidden_host c \<or> c < 0x20 \<or> c = byte (CHR ''%'') \<or> c = 0x7F"

section \<open>Label checks\<close>

text \<open>CheckBidi for one label. The loop back over the trailing non-spacing marks is a \<open>dropWhile\<close> on
  the reversed label.\<close>

definition valid_bidi_label :: "unicode_data \<Rightarrow> code_point list \<Rightarrow> bool" where
  "valid_bidi_label D label =
     (case label of
        [] \<Rightarrow> True
      | c # _ \<Rightarrow>
          let kind = bidi_class D; kinds = map kind label;
              trimmed = dropWhile (\<lambda>c. kind c = CHR ''M'') (rev label)
          in if kind c = CHR ''R'' \<or> kind c = CHR ''A''
             then (\<forall>k \<in> set kinds. k \<in> set ''RANESCTOBM'')
               \<and> \<not> (CHR ''E'' \<in> set kinds \<and> CHR ''N'' \<in> set kinds)
               \<and> trimmed \<noteq> [] \<and> kind (hd trimmed) \<in> set ''RAEN''
             else if kind c = CHR ''L''
             then (\<forall>k \<in> set kinds. k \<in> set ''LESCTOBM'')
               \<and> trimmed \<noteq> [] \<and> kind (hd trimmed) \<in> set ''LE''
             else False)"

text \<open>The ContextJ rules at one position.\<close>

definition joiner_ok :: "unicode_data \<Rightarrow> code_point list \<Rightarrow> nat \<Rightarrow> bool" where
  "joiner_ok D label at =
     (let c = label ! at in
      if c \<noteq> 0x200C \<and> c \<noteq> 0x200D then True
      else if at > 0 \<and> in_pairs (virama_ranges D) (label ! (at - 1)) then True
      else if c = 0x200D then False
      else let before = dropWhile (\<lambda>c. joining_type D c = CHR ''T'') (rev (take at label));
               after = dropWhile (\<lambda>c. joining_type D c = CHR ''T'') (drop (at + 1) label)
        in before \<noteq> [] \<and> joining_type D (hd before) \<in> set ''LD''
           \<and> after \<noteq> [] \<and> joining_type D (hd after) \<in> set ''RD'')"

definition valid_label :: "unicode_data \<Rightarrow> code_point list \<Rightarrow> bool" where
  "valid_label D label =
     (if label = [] then True
      else if (\<exists>c \<in> set label. c \<ge> 0x80) \<and> to_nfc D label \<noteq> label then False
      else if in_pairs (combining_mark_ranges D) (hd label) then False
      else (\<forall>c \<in> set label. c \<noteq> byte (CHR ''.'')
             \<and> (case idna_lookup D c of None \<Rightarrow> False | Some row \<Rightarrow> status row = Idna_valid))
        \<and> list_all (joiner_ok D label) [0..<length label])"

section \<open>Domain to ASCII\<close>

text \<open>Step 1, the mapping.\<close>

fun idna_map :: "unicode_data \<Rightarrow> code_point list \<Rightarrow> code_point list option" where
  "idna_map D [] = Some []"
| "idna_map D (c # cs) =
     (case idna_lookup D c of
        None \<Rightarrow> None
      | Some row \<Rightarrow>
          if status row = Idna_disallowed then None
          else map_option ((@) (case status row of
                Idna_ignored \<Rightarrow> []
              | Idna_mapped \<Rightarrow> substr (idna_mappings D) (map_at row) (map_len row)
              | _ \<Rightarrow> [c]))
            (idna_map D cs))"

record label_form =
  unicode :: "code_point list"
  verbatim :: string
  keep :: bool

definition all_below_80 :: "code_point list \<Rightarrow> bool" where
  "all_below_80 s \<longleftrightarrow> (\<forall>c \<in> set s. c < 0x80)"

definition is_punycode :: "code_point list \<Rightarrow> bool" where
  "is_punycode label \<longleftrightarrow> length label \<ge> 4 \<and> lower (label ! 0) = byte (CHR ''x'')
     \<and> lower (label ! 1) = byte (CHR ''n'') \<and> label ! 2 = byte (CHR ''-'') \<and> label ! 3 = byte (CHR ''-'')"

definition convert_label :: "unicode_data \<Rightarrow> bool \<Rightarrow> code_point list \<Rightarrow> label_form option" where
  "convert_label D all_ascii label =
     (if is_punycode label
      then if \<not> all_below_80 label then None
        else let as_ascii = map chr label in
          (case punycode_decode (drop 4 as_ascii) of
             Some converted \<Rightarrow>
               if \<not> all_below_80 converted \<and> valid_label D converted
               then Some \<lparr>unicode = converted, verbatim = [], keep = False\<rparr>
               else if \<not> all_ascii then None
               else Some \<lparr>unicode = [], verbatim = as_ascii, keep = True\<rparr>
           | None \<Rightarrow>
               if \<not> all_ascii then None
               else Some \<lparr>unicode = [], verbatim = as_ascii, keep = True\<rparr>)
      else if \<not> valid_label D label then None
      else Some \<lparr>unicode = label, verbatim = [], keep = False\<rparr>)"

fun convert_labels :: "unicode_data \<Rightarrow> bool \<Rightarrow> code_point list list \<Rightarrow> label_form list option" where
  "convert_labels D all_ascii [] = Some []"
| "convert_labels D all_ascii (label # rest) =
     (case convert_label D all_ascii label of
        None \<Rightarrow> None
      | Some form \<Rightarrow> map_option ((#) form) (convert_labels D all_ascii rest))"

text \<open>Step 4.2.\<close>

definition bidi_ok :: "unicode_data \<Rightarrow> label_form list \<Rightarrow> bool" where
  "bidi_ok D labels =
     ((\<exists>l \<in> set labels. \<exists>c \<in> set (unicode l). bidi_class D c \<in> set ''RAN'')
      \<longrightarrow> (\<forall>l \<in> set labels. keep l \<or> valid_bidi_label D (unicode l)))"

text \<open>Step 5.\<close>

definition encode_label :: "label_form \<Rightarrow> string outcome" where
  "encode_label l =
     (if keep l then Value (verbatim l)
      else if all_below_80 (unicode l) then Value (map chr (unicode l))
      else bind_outcome (punycode (unicode l)) (\<lambda>encoded. Value (''xn--'' @ encoded)))"

fun encode_labels :: "label_form list \<Rightarrow> string outcome" where
  "encode_labels [] = Value []"
| "encode_labels (l # ls) =
     bind_outcome (encode_label l) (\<lambda>s. bind_outcome (encode_labels ls) (\<lambda>t. Value (s @ ''.'' @ t)))"

definition domain_to_ascii :: "unicode_data \<Rightarrow> code_point list \<Rightarrow> string outcome" where
  "domain_to_ascii D domain =
     (let all_ascii = all_below_80 domain in
      case idna_map D domain of
        None \<Rightarrow> Failure
      | Some mapped \<Rightarrow>
          (case convert_labels D all_ascii (split_dots (to_nfc D mapped)) of
             None \<Rightarrow> Failure
           | Some labels \<Rightarrow>
               if \<not> all_ascii \<and> \<not> bidi_ok D labels then Failure
               else bind_outcome (encode_labels labels)
                 (\<lambda>out. if butlast out = [] then Failure else Value (butlast out))))"

section \<open>The host parser\<close>

definition parse_host :: "unicode_data \<Rightarrow> code_point list \<Rightarrow> bool \<Rightarrow> string outcome" where
  "parse_host D input is_opaque =
     (if input \<noteq> [] \<and> hd input = byte (CHR ''['')
      then if last input \<noteq> byte (CHR '']'') then Failure
        else parse_ipv6 (substr input 1 (length input - 2))
      else if is_opaque
      then if \<exists>c \<in> set input. forbidden_host c then Failure else Value (percent_encode input C0)
      else let domain = decode_replacing (percent_decode (utf8_of input)) in
        bind_outcome (domain_to_ascii D domain) (\<lambda>ascii.
          let points = code_points ascii in
          if \<exists>c \<in> set points. forbidden_domain c then Failure
          else if ends_in_a_number points then of_option (parse_ipv4 points)
          else Value ascii))"

section \<open>Points stay points\<close>

text \<open>The generated tables hold code points.\<close>

definition tables_points :: "unicode_data \<Rightarrow> bool" where
  "tables_points D \<longleftrightarrow> (\<forall>c \<in> set (nfd_data D). c < 0x110000) \<and> (\<forall>c \<in> set (idna_mappings D). c < 0x110000)
     \<and> (\<forall>r \<in> set (compose_pairs D). pair_cp r < 0x110000)"

abbreviation points :: "code_point list \<Rightarrow> bool" where
  "points s \<equiv> \<forall>c \<in> set s. c < 0x110000"

lemma substr_points: "points s \<Longrightarrow> points (substr s at n)"
  unfolding substr_def by (auto dest: in_set_takeD in_set_dropD)

lemma decompose_points:
  assumes "tables_points D" "points out" "c < 0x110000"
  shows "points (decompose_into D out c)"
proof (cases "c \<ge> 0xAC00 \<and> c < 0xAC00 + 11172")
  case True
  then have i: "c - 0xAC00 < 11172" by linarith
  have "(c - 0xAC00) mod 28 < 28" by simp
  then have "(c - 0xAC00) mod 28 < 1109593" by linarith
  with True hangul_parts [OF i] assms(2) show ?thesis
    by (auto simp: decompose_into_def Let_def)
next
  case False
  then have "decompose_into D out c = (case search (nfd_probe c) (nfd_table D) of
      Some row \<Rightarrow> out @ substr (nfd_data D) (nfd_at row) (nfd_len row) | None \<Rightarrow> out @ [c])"
    by (simp only: decompose_into_def if_False)
  then show ?thesis
    using assms substr_points [of "nfd_data D"]
    by (simp add: tables_points_def ball_Un split: option.splits)
qed

lemma decompose_all_points:
  "tables_points D \<Longrightarrow> points out \<Longrightarrow> points s \<Longrightarrow> points (foldl (decompose_into D) out s)"
proof (induction s arbitrary: out)
  case (Cons c cs)
  then have "points (decompose_into D out c)" by (intro decompose_points) simp_all
  with Cons show ?case by simp
qed simp

lemma compose_points:
  assumes "tables_points D" "a < 0x110000"
  shows "compose D a b < 0x110000"
proof -
  have "pair_cp r < 0x110000" if "search (pair_probe (a, b)) (compose_pairs D) = Some r" for r
    using that assms(1) search_loop_Some [of "length (compose_pairs D)" "compose_pairs D"]
    by (auto simp: search_def tables_points_def)
  then show ?thesis
    using assms(2) by (auto simp: compose_def split: option.splits)
qed

lemma compose_loop_points:
  assumes "tables_points D" "points out" "points cs" "starter < length out"
  shows "points (compose_loop D out starter k cs)"
  using assms
proof (induction D out starter k cs rule: compose_loop.induct)
  case (1 D out starter k)
  then show ?case by simp
next
  case (2 D out starter k c cs)
  define composed where "composed = compose D (out ! starter) c"
  have "composed < 0x110000"
    using compose_points [OF 2(3), of "out ! starter" c] 2(4,6) by (simp add: composed_def)
  then have "points (out[starter := composed])"
    using 2(4) set_update_subset_insert [of out starter composed] by blast
  with 2 show ?case
    by (simp add: Let_def flip: composed_def)
qed

lemma set_order_step: "set (order_step cc front c) = insert c (set front)"
  by (simp add: order_step_def set_sink)

lemma set_canonical_order: "set (canonical_order cc parts) = set parts"
proof -
  have "set (foldl (order_step cc) front parts) = set front \<union> set parts" for front
    by (induction parts arbitrary: front) (auto simp: set_order_step)
  then show ?thesis by (simp add: canonical_order_def)
qed

lemma to_nfc_points:
  assumes "tables_points D" "points s"
  shows "points (to_nfc D s)"
proof (cases "canonical_order (combining_class D) (foldl (decompose_into D) [] s)")
  case Nil
  with assms show ?thesis by (auto simp: to_nfc_def)
next
  case (Cons p parts)
  have "points (foldl (decompose_into D) [] s)"
    using decompose_all_points [OF assms(1) _ assms(2), of "[]"] by simp
  then have "points (p # parts)"
    using set_canonical_order [of "combining_class D" "foldl (decompose_into D) [] s"] Cons by simp
  then have "points (compose_loop D [p] 0 k parts)" for k
    by (intro compose_loop_points [OF assms(1)]) simp_all
  with assms(2) Cons show ?thesis by (simp add: to_nfc_def)
qed

lemma idna_map_points:
  assumes "tables_points D" "points s" "idna_map D s = Some t"
  shows "points t"
  using assms(2,3)
proof (induction s arbitrary: t)
  case (Cons c cs)
  then obtain row t' where row: "idna_lookup D c = Some row" "idna_map D cs = Some t'"
    "t = (case status row of Idna_ignored \<Rightarrow> [] | Idna_mapped \<Rightarrow> substr (idna_mappings D) (map_at row) (map_len row)
      | _ \<Rightarrow> [c]) @ t'"
    by (auto split: option.splits if_splits)
  have "points (substr (idna_mappings D) (map_at row) (map_len row))"
    using assms(1) by (intro substr_points) (simp add: tables_points_def)
  with row Cons show ?case by (auto split: idna_status.splits)
qed simp

lemma split_dots_points: "points s \<Longrightarrow> \<forall>label \<in> set (split_dots s). points label"
proof (induction s)
  case (Cons c cs)
  then show ?case by (cases "split_dots cs") auto
qed simp

section \<open>Punycode always answers\<close>

lemma puny_pass_handled:
  "puny_pass n basic cs st = Some (out', delta', bias', handled') \<Longrightarrow>
     handled' = snd (snd (snd st)) + length (filter (\<lambda>c. c = n) cs)"
  by (induction n basic cs st rule: puny_pass.induct) (auto simp: Let_def split: if_splits)

lemma puny_loop_answers:
  assumes "handled = length (filter (\<lambda>c. c < n) input)" "points input" "length input - handled \<le> fuel"
  shows "puny_loop fuel input basic n (out, delta, bias, handled) \<noteq> Fault"
  using assms
proof (induction fuel arbitrary: n out delta bias handled)
  case 0
  then show ?case by (subst puny_loop.simps) simp
next
  case (Suc fuel)
  show ?case
  proof (cases "handled \<ge> length input")
    case True
    then show ?thesis by (subst puny_loop.simps) simp
  next
    case False
    have "\<exists>c \<in> set input. n \<le> c"
    proof (rule ccontr)
      assume "\<not> (\<exists>c \<in> set input. n \<le> c)"
      then have "filter (\<lambda>c. c < n) input = input" by (intro filter_True) auto
      with Suc.prems(1) False show False by simp
    qed
    define m where "m = next_point n input"
    from next_point_least [OF \<open>\<exists>c \<in> set input. n \<le> c\<close> Suc.prems(2)]
    have m: "m \<in> set input" "n \<le> m" "\<forall>c \<in> set input. n \<le> c \<longrightarrow> m \<le> c" by (simp_all add: m_def)
    show ?thesis
    proof (cases "puny_round input basic n (out, delta, bias, handled)")
      case None
      then show ?thesis by (subst puny_loop.simps) simp
    next
      case (Some r)
      obtain n' out' delta' bias' handled' where r: "r = (n', out', delta', bias', handled')"
        by (cases r)
      from Some have h: "n' = m + 1" "handled' = handled + length (filter (\<lambda>c. c = m) input)"
        by (auto simp: r puny_round_def Let_def simp flip: m_def split: if_splits option.splits
            dest!: puny_pass_handled)
      have "length (filter (\<lambda>c. c < m) input) + length (filter (\<lambda>c. c = m) input)
          = length (filter (\<lambda>c. c < m + 1) input)"
        by (induction input) auto
      then have "handled' = length (filter (\<lambda>c. c < n') input)"
        using h Suc.prems(1) filter_below [OF m(3,2)] by simp
      moreover have "handled < handled'"
      proof -
        have "filter (\<lambda>c. c = m) input \<noteq> []" using m(1) by (auto simp: filter_empty_conv)
        then show ?thesis using h by simp
      qed
      then have "length input - handled' \<le> fuel" using Suc.prems(3) by simp
      ultimately have "puny_loop fuel input basic n' (out', delta', bias', handled') \<noteq> Fault"
        using Suc.IH Suc.prems(2) by blast
      with Some False show ?thesis by (subst puny_loop.simps) (simp add: r)
    qed
  qed
qed

lemma punycode_answers: "points input \<Longrightarrow> punycode input \<noteq> Fault"
  unfolding punycode_def Let_def by (rule puny_loop_answers) simp_all

section \<open>The answer is ASCII\<close>

abbreviation ascii_text :: "string \<Rightarrow> bool" where
  "ascii_text s \<equiv> \<forall>c \<in> set s. byte c < 0x80"

lemma code_points_ascii: "ascii_text s \<Longrightarrow> code_points s = map byte s"
proof (induction s)
  case (Cons c s)
  then have "decode_utf8 c s = (byte c, 1)" by (simp add: decode_utf8_def)
  with Cons show ?case by simp
qed simp

lemma map_chr_ascii: "all_below_80 s \<Longrightarrow> ascii_text (map chr s)"
  by (auto simp: all_below_80_def)

lemma puny_digit_ascii: "d < 36 \<Longrightarrow> byte (puny_digit d) < 0x80"
  by (simp add: puny_digit_def)

lemma puny_varint_ascii: "ascii_text (puny_varint bias k q)"
proof (induction bias k q rule: puny_varint.induct)
  case (1 bias k q)
  define t where "t = threshold k bias"
  have t: "1 \<le> t" "t \<le> 26" using threshold_range [of k bias] by (simp_all add: t_def)
  have "(q - t) mod (36 - t) < 36 - t" using t by simp
  then have "t + (q - t) mod (36 - t) < 36" by simp
  with 1 [OF t_def] t puny_digit_ascii show ?case
    by (subst puny_varint.simps) (auto simp: Let_def simp flip: t_def)
qed

lemma puny_pass_ascii:
  "puny_pass n basic cs st = Some (out', st') \<Longrightarrow> ascii_text (fst st) \<Longrightarrow> ascii_text out'"
proof (induction n basic cs st rule: puny_pass.induct)
  case (2 n basic c cs out delta bias handled)
  have "ascii_text (out @ puny_varint bias 36 d)" for d
    using 2(4) puny_varint_ascii [of bias 36 d] by (simp add: ball_Un)
  with 2 show ?case by (simp add: Let_def split: if_splits)
qed simp

lemma puny_loop_ascii:
  "puny_loop fuel input basic n (out, st) = Value s \<Longrightarrow> ascii_text out \<Longrightarrow> ascii_text s"
proof (induction fuel arbitrary: n out st)
  case 0
  then show ?case by (subst (asm) puny_loop.simps) (auto split: if_splits prod.splits)
next
  case (Suc fuel)
  show ?case
  proof (cases "puny_round input basic n (out, st)")
    case None
    with Suc.prems show ?thesis by (subst (asm) puny_loop.simps) (auto split: if_splits prod.splits)
  next
    case (Some r)
    obtain n' out' st' where r: "r = (n', out', st')" by (cases r)
    then have "ascii_text out'"
      using Some Suc.prems(2)
      by (auto simp: puny_round_def Let_def split: prod.splits if_splits option.splits dest!: puny_pass_ascii)
    moreover have "puny_loop (Suc fuel) input basic n (out, st)
        = (if snd (snd st) \<ge> length input then Value out else puny_loop fuel input basic n' (out', st'))"
      using Some r by (subst puny_loop.simps) (cases st, simp)
    ultimately show ?thesis
      using Suc.prems Suc.IH [of n' out' st'] by (simp split: if_splits)
  qed
qed

lemma punycode_ascii: "punycode input = Value s \<Longrightarrow> ascii_text s"
  unfolding punycode_def Let_def by (erule puny_loop_ascii) auto

lemma encode_label_ascii:
  "encode_label l = Value s \<Longrightarrow> ascii_text (verbatim l) \<Longrightarrow> ascii_text s"
  using map_chr_ascii [of "unicode l"] punycode_ascii [of "unicode l"]
  by (auto simp: encode_label_def bind_outcome_eq_Value simp del: set_map split: if_splits)

lemma encode_labels_ascii:
  "encode_labels ls = Value s \<Longrightarrow> \<forall>l \<in> set ls. ascii_text (verbatim l) \<Longrightarrow> ascii_text s"
proof (induction ls arbitrary: s)
  case (Cons l ls)
  then obtain a b where ab: "encode_label l = Value a" "encode_labels ls = Value b" "s = a @ ''.'' @ b"
    by (auto simp: bind_outcome_eq_Value)
  from encode_label_ascii [OF ab(1)] Cons.prems(2) have "ascii_text a" by simp
  moreover from Cons.IH [OF ab(2)] Cons.prems(2) have "ascii_text b" by simp
  ultimately show ?case unfolding ab(3) set_append ball_Un by simp
qed simp

lemma puny_decode_loop_points:
  assumes "puny_decode_loop out n i bias input = Some out'" "points out"
  shows "points out'"
  using assms
proof (induction out n i bias input rule: puny_decode_loop.induct)
  case (1 out n i bias input)
  show ?case
  proof (cases "input = []")
    case True
    with 1(2,3) show ?thesis by (subst (asm) puny_decode_loop.simps) simp
  next
    case False
    with 1(2) obtain j rest where r: "puny_read bias 36 i 1 input = Some (j, rest)"
      by (subst (asm) puny_decode_loop.simps) (auto split: option.splits)
    define m where "m = n + j div (length out + 1)"
    define at where "at = j mod (length out + 1)"
    have "puny_decode_loop out n i bias input =
        (if j div (length out + 1) > 0x10FFFF - n then None
         else if m > 0x10FFFF \<or> is_surrogate m then None
         else puny_decode_loop (take at out @ m # drop at out) m (at + 1)
           (adapt (j - i) (length out + 1) (i = 0)) rest)"
      using False r by (subst puny_decode_loop.simps) (simp add: Let_def m_def at_def)
    with 1(2) have step: "\<not> j div (length out + 1) > 0x10FFFF - n" "\<not> (m > 0x10FFFF \<or> is_surrogate m)"
      "puny_decode_loop (take at out @ m # drop at out) m (at + 1) (adapt (j - i) (length out + 1) (i = 0)) rest
        = Some out'"
      by (simp_all split: if_splits)
    have "points (take at out @ m # drop at out)"
      using 1(3) step(2) by (simp add: ball_Un) (meson in_set_takeD in_set_dropD)
    then show ?thesis
      by (rule 1(1) [OF False r refl refl refl step(1) m_def at_def step(2,3)])
  qed
qed

lemma punycode_decode_points: "punycode_decode s = Some out \<Longrightarrow> points out"
proof -
  have "points (map byte t)" for t
    by (auto intro: less_trans [OF byte_less])
  then show "punycode_decode s = Some out \<Longrightarrow> points out"
    using puny_decode_loop_points [of "[]" 128 0 72 s out] puny_decode_loop_points [of "map byte t" 128 0 72 u out for t u]
    by (simp add: punycode_decode_def del: set_map split: option.splits if_splits)
qed

lemma convert_label_forms:
  assumes "convert_label D all_ascii label = Some l" "points label"
  shows "points (unicode l) \<and> ascii_text (verbatim l)"
  using assms punycode_decode_points map_chr_ascii [of label]
  by (auto simp: convert_label_def Let_def simp del: set_map split: if_splits option.splits)

lemma convert_labels_forms:
  assumes "convert_labels D all_ascii labels = Some ls" "\<forall>label \<in> set labels. points label"
  shows "\<forall>l \<in> set ls. points (unicode l) \<and> ascii_text (verbatim l)"
  using assms
  by (induction labels arbitrary: ls) (auto split: option.splits dest!: convert_label_forms)

lemma encode_labels_answers:
  "\<forall>l \<in> set ls. points (unicode l) \<Longrightarrow> encode_labels ls \<noteq> Fault"
  by (induction ls) (auto simp: bind_outcome_eq_Fault encode_label_def punycode_answers)

lemma domain_to_ascii_answers:
  assumes "tables_points D" "points domain"
  shows "domain_to_ascii D domain \<noteq> Fault
    \<and> (\<forall>s. domain_to_ascii D domain = Value s \<longrightarrow> ascii_text s \<and> s \<noteq> [])"
proof (cases "idna_map D domain")
  case None
  then show ?thesis by (simp add: domain_to_ascii_def Let_def)
next
  case (Some mapped)
  have "points (to_nfc D mapped)" using idna_map_points [OF assms Some] to_nfc_points [OF assms(1)] by blast
  then have labels: "\<forall>label \<in> set (split_dots (to_nfc D mapped)). points label" by (rule split_dots_points)
  show ?thesis
  proof (cases "convert_labels D (all_below_80 domain) (split_dots (to_nfc D mapped))")
    case None
    with Some show ?thesis by (simp add: domain_to_ascii_def Let_def)
  next
    case ls: (Some ls)
    note forms = convert_labels_forms [OF ls labels]
    then have "encode_labels ls \<noteq> Fault" using encode_labels_answers by blast
    with Some ls forms show ?thesis
      by (auto simp: domain_to_ascii_def Let_def bind_outcome_eq_Fault bind_outcome_eq_Value
          split: if_splits dest!: in_set_butlastD encode_labels_ascii)
  qed
qed

section \<open>The properties\<close>

text \<open>What can stand in a host outside the brackets of an IPv6 address.\<close>

definition host_char :: "char \<Rightarrow> bool" where
  "host_char c \<longleftrightarrow> 0x20 < byte c \<and> byte c < 0x7F \<and> \<not> forbidden_host (byte c)"

definition host_text :: "string \<Rightarrow> bool" where
  "host_text h \<longleftrightarrow>
     (\<exists>address. length address = 8 \<and> (\<forall>v \<in> set address. v < 2 ^ 16) \<and> h = ipv6_text address)
     \<or> (\<forall>c \<in> set h. host_char c)"

lemma host_char_digits: "\<forall>c \<in> set ''%.0123456789ABCDEF''. host_char c"
  by (simp add: host_char_def forbidden_host_def)

lemma escape_host: "\<forall>c \<in> set (escape e). host_char c"
proof -
  have d: "host_char (hex_digits ! k)" if "k < 16" for k
    using hex_digit_plain [OF that] host_char_digits by (auto simp: hex_digits_def)
  have "byte e div 16 < 16" using byte_less [of e] by (intro less_mult_imp_div_less) simp
  with d [of "byte e div 16"] d [of "byte e mod 16"] show ?thesis
    using host_char_digits by (simp add: escape_hex(1))
qed

lemma encoded_c0_host:
  assumes "\<not> forbidden_host c"
  shows "\<forall>d \<in> set (encoded C0 c). host_char d"
proof (cases "in_set c C0")
  case True
  then show ?thesis using escape_host by (simp add: percent_encode_point_def)
next
  case False
  then have "0x20 \<le> c" "c < 0x7F" by (auto simp: in_set_def)
  moreover have "c \<noteq> 0x20" using assms by (auto simp: forbidden_host_def)
  ultimately show ?thesis
    using assms False by (simp add: percent_encode_point_def host_char_def)
qed

lemma decimal_host: "\<forall>c \<in> set (decimal n). host_char c"
proof
  fix c
  assume "c \<in> set (decimal n)"
  then have "48 \<le> byte c \<and> byte c \<le> 57" using decimal_digits by blast
  then show "host_char c" by (auto simp: host_char_def forbidden_host_def)
qed

lemma ipv4_text_host: "\<forall>c \<in> set (ipv4_text v). host_char c"
  using decimal_host host_char_digits by (simp add: ipv4_text_octets ball_Un)

lemma parse_host_answers:
  assumes "tables_points D"
  shows "parse_host D input is_opaque \<noteq> Fault
    \<and> (\<forall>h. parse_host D input is_opaque = Value h \<longrightarrow>
          host_text h \<and> (\<not> is_opaque \<longrightarrow> h \<noteq> []))"
proof -
  let ?r = "parse_host D input is_opaque"
  consider (bracket) "input \<noteq> []" "hd input = byte (CHR ''['')"
    | (opaque) "\<not> (input \<noteq> [] \<and> hd input = byte (CHR ''[''))" "is_opaque"
    | (domain) "\<not> (input \<noteq> [] \<and> hd input = byte (CHR ''[''))" "\<not> is_opaque"
    by blast
  then show ?thesis
  proof cases
    case bracket
    define inner where "inner = substr input 1 (length input - 2)"
    have r: "?r = (if last input \<noteq> byte (CHR '']'') then Failure else parse_ipv6 inner)"
      using bracket by (simp add: parse_host_def inner_def)
    have "parse_ipv6 inner \<noteq> Fault"
      using ipv6_address_safe [of inner] by (simp add: parse_ipv6_def bind_outcome_eq_Fault)
    moreover have "host_text h \<and> h \<noteq> []" if "parse_ipv6 inner = Value h" for h
      using that by (rule parse_ipv6_Value) (auto simp: host_text_def)
    ultimately show ?thesis unfolding r by auto
  next
    case opaque
    then have r: "?r = (if \<exists>c \<in> set input. forbidden_host c then Failure else Value (percent_encode input C0))"
      by (auto simp: parse_host_def)
    have "host_text (percent_encode input C0)" if "\<not> (\<exists>c \<in> set input. forbidden_host c)"
      using that encoded_c0_host by (auto simp: host_text_def percent_encode_concat)
    with opaque show ?thesis unfolding r by auto
  next
    case domain
    define ascii where "ascii = domain_to_ascii D (decode_replacing (percent_decode (utf8_of input)))"
    have r: "?r = bind_outcome ascii (\<lambda>ascii.
        if \<exists>c \<in> set (code_points ascii). forbidden_domain c then Failure
        else if ends_in_a_number (code_points ascii) then of_option (parse_ipv4 (code_points ascii))
        else Value ascii)"
      using domain by (auto simp: parse_host_def ascii_def Let_def)
    have "points (decode_replacing t)" for t
      using decode_replacing_scalar [of t] by (auto simp: is_scalar_def)
    from domain_to_ascii_answers [OF assms this]
    have ok: "ascii \<noteq> Fault" "\<And>s. ascii = Value s \<Longrightarrow> ascii_text s \<and> s \<noteq> []" unfolding ascii_def by blast+
    have v4: "host_text h \<and> h \<noteq> []" if "parse_ipv4 p = Some h" for p h
    proof -
      from that obtain v where "h = ipv4_text v" by (auto simp: parse_ipv4_def)
      then show ?thesis using ipv4_text_host [of v] by (simp add: host_text_def ipv4_text_octets)
    qed
    have plain: "host_text s" if s: "ascii = Value s" "\<not> (\<exists>c \<in> set (code_points s). forbidden_domain c)" for s
    proof -
      have "\<forall>c \<in> set s. \<not> forbidden_domain (byte c)"
        using s ok(2) [OF s(1)] by (simp add: code_points_ascii)
      moreover have "host_char c" if "\<not> forbidden_domain (byte c)" "byte c < 0x80" for c
      proof -
        have "byte c \<noteq> 0x20" "\<not> byte c < 0x20" "byte c \<noteq> 0x7F" "\<not> forbidden_host (byte c)"
          using that by (auto simp: forbidden_domain_def forbidden_host_def)
        with that(2) show ?thesis unfolding host_char_def by linarith
      qed
      ultimately show ?thesis using ok(2) [OF s(1)] by (auto simp: host_text_def)
    qed
    show ?thesis
    proof (cases ascii)
      case (Value s)
      with ok(2) [OF this] plain [OF this] v4 domain show ?thesis unfolding r
        by (auto simp: of_option_def split: option.splits)
    qed (use ok r in auto)
  qed
qed

lemma parse_host_nonempty:
  assumes "tables_points D" "parse_host D input is_opaque = Value h" "input \<noteq> []"
  shows "h \<noteq> []"
proof (cases "is_opaque \<and> hd input \<noteq> byte (CHR ''['')")
  case True
  then have "h = percent_encode input C0" using assms(2,3) by (simp add: parse_host_def split: if_splits)
  moreover have "encoded C0 c \<noteq> []" for c
  proof -
    have "utf8 (scalar c) \<noteq> []" by (simp add: utf8_def)
    then show ?thesis
      by (simp add: percent_encode_point_def append_scalar_def append_utf8_def escape_def)
  qed
  then have "concat (map (encoded C0) input) \<noteq> []" using assms(3) by (cases input) auto
  ultimately show ?thesis by (simp add: percent_encode_concat)
next
  case False
  show ?thesis
  proof (cases is_opaque)
    case True
    with False have "hd input = byte (CHR ''['')" by simp
    then have "parse_ipv6 (substr input 1 (length input - 2)) = Value h"
      using assms(2,3) by (auto simp: parse_host_def split: if_splits)
    then show ?thesis by (rule parse_ipv6_Value) simp
  qed (use parse_host_answers [OF assms(1), of input is_opaque] assms(2) in simp)
qed

text \<open>
  C35: The host parser always answers - no access past the eight IPv6 pieces, no Punycode
  loop that goes on - and a host it accepts is the serialisation of an IPv6 address or text
  of printable ASCII characters none of which could end the host in a URL; a domain is never empty.
\<close>

theorem parse_host_safe:
  assumes "tables_points D"
  shows "parse_host D input is_opaque \<noteq> Fault
    \<and> (\<forall>h. parse_host D input is_opaque = Value h \<longrightarrow>
          host_text h \<and> (\<not> is_opaque \<longrightarrow> h \<noteq> []))"
  using assms by (rule parse_host_answers)

theorem parse_host_safe_witness:
  "\<exists>D. tables_points D \<and> parse_host D (map byte ''a%?'') True \<noteq> Fault \<and> parse_host D (map byte ''a%b'') True = Value ''a%b''
    \<and> host_text ''a%b''"
proof -
  define D where "D = \<lparr>nfd_table = [], nfd_data = [], ccc_ranges = [],
     compose_pairs = [], idna_ranges = [], idna_mappings = [], combining_mark_ranges = [],
     virama_ranges = [], joining_ranges = [], bidi_ranges = []\<rparr>"
  have t: "tables_points D" by (simp add: D_def tables_points_def)
  have "parse_host D (map byte ''a%b'') True = Value ''a%b''"
    by (simp add: parse_host_def forbidden_host_def percent_encode_def percent_encode_point_def in_set_def
        set_chars_def chr_eq_iff)
  with t parse_host_safe [OF t, of "map byte ''a%b''" True] parse_host_safe [OF t, of "map byte ''a%?''" True]
  show ?thesis by blast
qed

section \<open>Plain ASCII names\<close>

text \<open>What the IDNA tables say of ASCII: capitals are mapped to small letters, everything else is
  valid, and no ASCII code point is a combining mark.\<close>

definition ascii_rows :: "unicode_data \<Rightarrow> bool" where
  "ascii_rows D \<longleftrightarrow> (\<forall>c < 0x80. \<not> in_pairs (combining_mark_ranges D) c
     \<and> (\<exists>row. idna_lookup D c = Some row
         \<and> (if 65 \<le> c \<and> c \<le> 90
            then status row = Idna_mapped \<and> substr (idna_mappings D) (map_at row) (map_len row) = [c + 0x20]
            else status row = Idna_valid)))"

lemma lower_range: "lower c = (if 65 \<le> c \<and> c \<le> 90 then c + 0x20 else c)"
  by (simp add: lower_def)

lemma idna_map_ascii: "ascii_rows D \<Longrightarrow> all_below_80 s \<Longrightarrow> idna_map D s = Some (map lower s)"
proof (induction s)
  case (Cons c s)
  then have "c < 0x80" "idna_map D s = Some (map lower s)" by (simp_all add: all_below_80_def)
  with Cons.prems(1) obtain row where row: "idna_lookup D c = Some row"
    "if 65 \<le> c \<and> c \<le> 90
      then status row = Idna_mapped \<and> substr (idna_mappings D) (map_at row) (map_len row) = [c + 0x20]
      else status row = Idna_valid"
    unfolding ascii_rows_def by blast
  with \<open>idna_map D s = Some (map lower s)\<close> show ?case
    by (auto simp: lower_range split: if_splits)
qed simp

lemma lower_below: "all_below_80 s \<Longrightarrow> all_below_80 (map lower s)"
  by (auto simp: all_below_80_def lower_range)

lemma lower_lower [simp]: "lower (lower c) = lower c"
  by (simp add: lower_range)

lemma split_dots_lower: "split_dots (map lower s) = map (map lower) (split_dots s)"
proof (induction s)
  case (Cons c s)
  have "lower c = 46 \<longleftrightarrow> c = 46" by (auto simp: lower_range)
  with Cons show ?case by (cases "split_dots s") auto
qed simp

lemma split_dots_parts: "\<forall>label \<in> set (split_dots s). set label \<subseteq> set s - {46}"
proof (induction s)
  case (Cons c s)
  then show ?case by (cases "split_dots s") auto
qed simp

lemma split_dots_concat: "concat (map (\<lambda>label. label @ [46]) (split_dots s)) = s @ [46]"
proof (induction s)
  case (Cons c s)
  then show ?case by (cases "split_dots s") auto
qed simp

lemma valid_label_ascii:
  assumes "ascii_rows D" "all_below_80 label" "46 \<notin> set label" "\<forall>c \<in> set label. \<not> (65 \<le> c \<and> c \<le> 90)"
  shows "valid_label D label"
proof (cases "label = []")
  case False
  have rows: "\<not> in_pairs (combining_mark_ranges D) c" "\<exists>row. idna_lookup D c = Some row \<and> status row = Idna_valid"
    if "c \<in> set label" for c
    using that assms unfolding ascii_rows_def all_below_80_def by (metis (no_types, lifting))+
  have "list_all (joiner_ok D label) [0..<length label]"
  proof -
    have "joiner_ok D label at" if "at < length label" for at
    proof -
      have "label ! at < 0x80" using assms(2) that by (simp add: all_below_80_def)
      then show ?thesis by (simp add: joiner_ok_def)
    qed
    then show ?thesis by (simp add: list_all_iff)
  qed
  with rows False assms(2,3) show ?thesis
    by (fastforce simp: valid_label_def all_below_80_def)
qed (simp add: valid_label_def)

lemma is_punycode_lower: "is_punycode (map lower label) = is_punycode label"
proof -
  have "lower c = 45 \<longleftrightarrow> c = 45" for c by (simp add: lower_range)
  moreover have "map lower label ! 0 = lower (label ! 0)" if "length label \<ge> 4"
    using that by (intro nth_map) linarith
  ultimately show ?thesis by (cases "length label \<ge> 4") (simp_all add: is_punycode_def)
qed

lemma convert_labels_plain:
  assumes "\<forall>label \<in> set labels. \<not> is_punycode label \<and> valid_label D label"
  shows "convert_labels D b labels = Some (map (\<lambda>label. \<lparr>unicode = label, verbatim = [], keep = False\<rparr>) labels)"
  using assms by (induction labels) (auto simp: convert_label_def)

lemma encode_labels_plain:
  assumes "\<forall>label \<in> set labels. all_below_80 label"
  shows "encode_labels (map (\<lambda>label. \<lparr>unicode = label, verbatim = [], keep = False\<rparr>) labels)
    = Value (map chr (concat (map (\<lambda>label. label @ [byte (CHR ''.'')]) labels)))"
  using assms by (induction labels) (auto simp: encode_label_def eq_chr_iff)

lemma domain_to_ascii_plain:
  assumes "ascii_rows D" "all_below_80 s" "s \<noteq> []" "\<forall>label \<in> set (split_dots s). \<not> is_punycode label"
  shows "domain_to_ascii D s = Value (map chr (map lower s))"
proof -
  let ?labels = "split_dots (map lower s)"
  have parts: "all_below_80 label \<and> 46 \<notin> set label \<and> (\<forall>c \<in> set label. \<not> (65 \<le> c \<and> c \<le> 90))"
    if "label \<in> set ?labels" for label
  proof -
    have "set label \<subseteq> set (map lower s) - {46}" using split_dots_parts that by blast
    with lower_below [OF assms(2)] show ?thesis by (auto simp: all_below_80_def lower_range)
  qed
  have nfc: "to_nfc D (map lower s) = map lower s"
    using lower_below [OF assms(2)] by (simp add: to_nfc_def all_below_80_def)
  have "\<forall>label \<in> set ?labels. \<not> is_punycode label"
    using assms(4) by (simp add: split_dots_lower is_punycode_lower)
  then have "convert_labels D True ?labels
      = Some (map (\<lambda>label. \<lparr>unicode = label, verbatim = [], keep = False\<rparr>) ?labels)"
    using parts valid_label_ascii [OF assms(1)] by (intro convert_labels_plain) blast
  moreover have "encode_labels (map (\<lambda>label. \<lparr>unicode = label, verbatim = [], keep = False\<rparr>) ?labels)
      = Value (map chr (map lower s @ [46]))"
    using parts by (subst encode_labels_plain) (simp_all add: split_dots_concat)
  ultimately show ?thesis
    using assms(2,3) idna_map_ascii [OF assms(1,2)] nfc by (simp add: domain_to_ascii_def Let_def)
qed

lemma percent_decode_none: "CHR ''%'' \<notin> set s \<Longrightarrow> percent_decode s = s"
  by (induction s rule: percent_decode.induct) auto

lemma ascii_utf8: "all_below_80 s \<Longrightarrow> utf8_of s = map chr s"
  unfolding utf8_of_concat by (induction s) (auto simp: all_below_80_def utf8_def)

text \<open>
  A plain ASCII name - no percent sign, no forbidden code point, no label in Punycode, not an
  IPv4 address - is lower-cased and otherwise left alone, whatever else the tables hold.
\<close>

theorem plain_host_lowercased:
  assumes "ascii_rows D" "input \<noteq> []" "\<forall>c \<in> set input. c < 0x80 \<and> \<not> forbidden_domain c"
    and "\<forall>label \<in> set (split_dots input). \<not> is_punycode label" "\<not> ends_in_a_number (map lower input)"
  shows "parse_host D input False = Value (map chr (map lower input))"
proof -
  have ascii: "all_below_80 input" using assms(3) by (simp add: all_below_80_def)
  from assms(3) have "37 \<notin> set input" "91 \<notin> set input"
    by (auto simp: forbidden_domain_def forbidden_host_def)
  moreover have "hd input \<in> set input" using assms(2) by simp
  ultimately have h: "hd input \<noteq> byte (CHR ''['')" by auto
  have "CHR ''%'' \<notin> set (map chr input)"
  proof
    assume "CHR ''%'' \<in> set (map chr input)"
    then obtain c where "c \<in> set input" "CHR ''%'' = chr c" by auto
    with assms(3) \<open>37 \<notin> set input\<close> show False by (auto simp: eq_chr_iff)
  qed
  then have decoded: "percent_decode (utf8_of input) = map chr input"
    unfolding ascii_utf8 [OF ascii] by (rule percent_decode_none)
  have "map chr input = concat (map utf8 input)"
    using ascii_utf8 [OF ascii] assms(3) by (simp add: utf8_of_scalars)
  then have "decode_replacing (map chr input) = input"
    using assms(3) by (simp add: decode_replacing_text)
  then have domain: "decode_replacing (percent_decode (utf8_of input)) = input" by (simp only: decoded)
  have low: "all_below_80 (map lower input)" by (rule lower_below [OF ascii])
  have pts: "code_points (map chr (map lower input)) = map lower input"
  proof -
    have "map byte (map chr (map lower input)) = map lower input"
      using low by (auto simp: all_below_80_def)
    with map_chr_ascii [OF low] show ?thesis by (simp only: code_points_ascii)
  qed
  have "\<not> forbidden_domain (lower c)" if "c \<in> set input" for c
    using assms(3) that by (auto simp: lower_range forbidden_domain_def forbidden_host_def)
  then have "\<not> (\<exists>c \<in> set (map lower input). forbidden_domain c)" by auto
  then show ?thesis
    using h domain pts assms(5) domain_to_ascii_plain [OF assms(1) ascii assms(2,4)]
    by (simp add: parse_host_def Let_def del: map_map)
qed

theorem plain_host_lowercased_witness:
  "\<exists>D. ascii_rows D \<and> parse_host D (map byte ''Example.ORG'') False = Value ''example.org''"
proof -
  let ?row = "\<lambda>c. if 65 \<le> c \<and> c \<le> 90 then \<lparr>status = Idna_mapped, map_at = c - 65, map_len = 1\<rparr>
    else \<lparr>status = Idna_valid, map_at = 0, map_len = 0\<rparr>"
  define D where "D = \<lparr>nfd_table = [], nfd_data = [], ccc_ranges = [], compose_pairs = [],
     idna_ranges = map (\<lambda>c. \<lparr>range_first = c, range_last = c, row_data = ?row c\<rparr>) [0..<128],
     idna_mappings = [97..<123], combining_mark_ranges = [], virama_ranges = [], joining_ranges = [],
     bidi_ranges = []\<rparr>"
  have "sorted_wrt range_before (idna_ranges D)"
    by (simp only: D_def unicode_data.select_convs) (simp add: sorted_wrt_map range_before_def del: upt_rec_numeral)
  then have row: "idna_lookup D c = Some (?row c)" if "c < 128" for c
  proof -
    have "find (\<lambda>r. range_probe c r = Hit) (idna_ranges D)
        = Some \<lparr>range_first = c, range_last = c, row_data = ?row c\<rparr>"
      unfolding find_Some_iff D_def unicode_data.select_convs
      using that by (intro exI [of _ c]) (simp add: range_hit del: upt_rec_numeral)
    with \<open>sorted_wrt range_before (idna_ranges D)\<close> show ?thesis
      by (simp add: idna_lookup_def ranges.search_find)
  qed
  have "substr (idna_mappings D) (c - 65) 1 = [c + 32]" if "65 \<le> c" "c \<le> 90" for c
  proof -
    have "drop (c - 65) [97..<123] = [c + 32..<123]" using that by (simp only: drop_upt) (simp add: add.commute)
    also have "\<dots> = (c + 32) # [Suc (c + 32)..<123]" using that by (intro upt_conv_Cons) simp
    finally show ?thesis by (simp only: D_def unicode_data.select_convs substr_def) simp
  qed
  with row have rows: "ascii_rows D"
    unfolding ascii_rows_def by (simp add: in_pairs_def search_def search_loop.simps) (simp add: D_def)
  have "parse_host D (map byte ''Example.ORG'') False = Value (map chr (map lower (map byte ''Example.ORG'')))"
    using rows
    by (rule plain_host_lowercased)
      (simp_all add: forbidden_domain_def forbidden_host_def is_punycode_def ends_in_a_number_def
        ipv4_number_def ipv4_radix_def is_digit_def hex_value_def between_def lower_range Let_def)
  with rows show ?thesis by (intro exI [of _ D]) (simp add: lower_range chr_eq_iff)
qed

end
