(* ===== verification/Url_Parser.thy ===== *)
theory Url_Parser
  imports Url_Host
begin

text \<open>
  The basic URL parser of the URL Standard (\<^verbatim>\<open>lib/Shell/net/url_parser.cpp\<close>) and its record
  (\<^verbatim>\<open>url_record\<close> of \<^verbatim>\<open>include/ctbrowser/shell/net/url.hpp\<close>): one definition per state, a step
  function that dispatches on the state, and the loop. A step either goes on, returns (the record is
  modified in place, so it comes retreat on failure too), or reaches undefined behaviour: a null base,
  a null query or fragment, the first element of an empty path. The loop is total; its termination
  rests on the rank of the states.
\<close>

section \<open>The record\<close>

record url_record =
  scheme :: string
  username :: string
  password :: string
  host :: "string option"
  port :: "nat option"
  path :: "string list"
  opaque_path :: bool
  query :: "string option"
  fragment :: "string option"

definition empty_url :: url_record where
  "empty_url = \<lparr>scheme = [], username = [], password = [], host = None, port = None, path = [],
     opaque_path = False, query = None, fragment = None\<rparr>"

definition is_special :: "url_record \<Rightarrow> bool" where
  "is_special u = special_scheme (scheme u)"

definition has_credentials :: "url_record \<Rightarrow> bool" where
  "has_credentials u \<longleftrightarrow> username u \<noteq> [] \<or> password u \<noteq> []"

section \<open>Drive letters and dot segments\<close>

definition windows_drive_letter :: "code_point list \<Rightarrow> bool" where
  "windows_drive_letter s \<longleftrightarrow> length s = 2 \<and> is_alpha (s ! 0)
     \<and> (s ! 1 = byte (CHR '':'') \<or> s ! 1 = byte (CHR ''|''))"

definition normalized_windows_drive_letter :: "string \<Rightarrow> bool" where
  "normalized_windows_drive_letter s \<longleftrightarrow> length s = 2 \<and> is_alpha (byte (s ! 0)) \<and> s ! 1 = CHR '':''"

definition starts_with_windows_drive_letter :: "code_point list \<Rightarrow> bool" where
  "starts_with_windows_drive_letter s \<longleftrightarrow> length s \<ge> 2 \<and> windows_drive_letter (take 2 s)
     \<and> (length s = 2 \<or> s ! 2 \<in> set (map byte ''/?#'') \<or> s ! 2 = 92)"

definition single_dot :: "string \<Rightarrow> bool" where
  "single_dot s \<longleftrightarrow> s = ''.'' \<or> ascii_iequals s ''%2e''"

definition double_dot :: "string \<Rightarrow> bool" where
  "double_dot s \<longleftrightarrow> s = ''..'' \<or> ascii_iequals s ''.%2e'' \<or> ascii_iequals s ''%2e.''
     \<or> ascii_iequals s ''%2e%2e''"

definition shorten_path :: "url_record \<Rightarrow> url_record" where
  "shorten_path u =
     (if scheme u = ''file'' \<and> length (path u) = 1 \<and> normalized_windows_drive_letter (path u ! 0) then u
      else u\<lparr>path := butlast (path u)\<rparr>)"

section \<open>The state of the parser\<close>

datatype parser_state =
    Scheme_start | Scheme | No_scheme | Special_relative_or_authority | Path_or_authority | Relative
  | Relative_slash | Special_authority_slashes | Special_authority_ignore_slashes | Authority
  | Host | Hostname | Port | File | File_slash | File_host | Path_start | Path_state | Opaque_path
  | Query_state | Fragment_state

text \<open>What does not change during a parse: the tables of the host parser, the cleaned input, the
  base and the override.\<close>

record parse_env =
  tables :: unicode_data
  input :: "code_point list"
  base :: "url_record option"
  override :: "parser_state option"

record parser =
  st :: parser_state
  pointer :: int
  buffer :: "code_point list"
  at_sign_seen :: bool
  inside_brackets :: bool
  password_token_seen :: bool
  url :: url_record

datatype step = Next parser | Return bool url_record | Crash

definition eof :: code_point where
  "eof = 0xFFFFFFFF"

definition current :: "parse_env \<Rightarrow> parser \<Rightarrow> code_point" where
  "current env s =
     (if 0 \<le> pointer s \<and> pointer s < int (length (input env)) then input env ! nat (pointer s) else eof)"

definition remaining_starts_with :: "parse_env \<Rightarrow> parser \<Rightarrow> char \<Rightarrow> bool" where
  "remaining_starts_with env s c \<longleftrightarrow> pointer s + 2 \<le> int (length (input env))
     \<and> take 1 (drop (nat (pointer s + 1)) (input env)) = [byte c]"

definition from_pointer :: "parse_env \<Rightarrow> parser \<Rightarrow> code_point list" where
  "from_pointer env s = drop (nat (max (pointer s) 0)) (input env)"

text \<open>\<^verbatim>\<open>--p\<close> and \<^verbatim>\<open>++p\<close>.\<close>

definition retreat :: "parser \<Rightarrow> parser" where
  "retreat s = s\<lparr>pointer := pointer s - 1\<rparr>"

definition advance :: "parser \<Rightarrow> parser" where
  "advance s = s\<lparr>pointer := pointer s + 1\<rparr>"

abbreviation goto :: "parser_state \<Rightarrow> parser \<Rightarrow> parser" where
  "goto q s \<equiv> s\<lparr>st := q\<rparr>"

abbreviation on_url :: "(url_record \<Rightarrow> url_record) \<Rightarrow> parser \<Rightarrow> parser" where
  "on_url f s \<equiv> s\<lparr>url := f (url s)\<rparr>"

definition is_char :: "code_point \<Rightarrow> char \<Rightarrow> bool" where
  "is_char c d \<longleftrightarrow> c = byte d"

abbreviation slash :: "code_point \<Rightarrow> bool" where
  "slash c \<equiv> is_char c (CHR ''/'')"

abbreviation backslash :: "code_point \<Rightarrow> bool" where
  "backslash c \<equiv> c = 92"

text \<open>The end of an authority.\<close>

definition ends_authority :: "bool \<Rightarrow> code_point \<Rightarrow> bool" where
  "ends_authority special c \<longleftrightarrow> c = eof \<or> slash c \<or> is_char c (CHR ''?'') \<or> is_char c (CHR ''#'')
     \<or> special \<and> backslash c"

abbreviation no_override :: "parse_env \<Rightarrow> bool" where
  "no_override env \<equiv> override env = None"

text \<open>To the query, or to the fragment.\<close>

definition start_query :: "parser \<Rightarrow> parser" where
  "start_query s = goto Query_state (on_url (\<lambda>u. u\<lparr>query := Some []\<rparr>) s)"

definition start_fragment :: "parser \<Rightarrow> parser" where
  "start_fragment s = goto Fragment_state (on_url (\<lambda>u. u\<lparr>fragment := Some []\<rparr>) s)"

section \<open>The scheme and what follows it\<close>

definition scheme_start_step :: "parse_env \<Rightarrow> code_point \<Rightarrow> parser \<Rightarrow> step" where
  "scheme_start_step env c s =
     (if is_alpha c then Next (s\<lparr>buffer := buffer s @ [lower c], st := Scheme\<rparr>)
      else if no_override env then Next (retreat (goto No_scheme s))
      else Return False (url s))"

text \<open>The scheme setter refuses to leave the special schemes or enter them, to make a file URL of one
  that has credentials or a port, and to leave a file URL with an empty host.\<close>

definition scheme_change_refused :: "url_record \<Rightarrow> string \<Rightarrow> bool" where
  "scheme_change_refused u sch \<longleftrightarrow> special_scheme (scheme u) \<noteq> special_scheme sch
     \<or> (has_credentials u \<or> port u \<noteq> None) \<and> sch = ''file''
     \<or> scheme u = ''file'' \<and> host u = Some []"

definition scheme_end_step :: "parse_env \<Rightarrow> parser \<Rightarrow> step" where
  "scheme_end_step env s =
     (let sch = utf8_of (buffer s) in
      if \<not> no_override env
      then if scheme_change_refused (url s) sch then Return True (url s)
        else let u = (url s)\<lparr>scheme := sch\<rparr> in
          Return True (if port u \<noteq> None \<and> port u = default_port (scheme u) then u\<lparr>port := None\<rparr> else u)
      else let s = on_url (\<lambda>u. u\<lparr>scheme := sch\<rparr>) s\<lparr>buffer := []\<rparr> in
        if sch = ''file'' then Next (goto File s)
        else if is_special (url s) \<and> (case base env of Some b \<Rightarrow> scheme b = sch | None \<Rightarrow> False)
        then Next (goto Special_relative_or_authority s)
        else if is_special (url s) then Next (goto Special_authority_slashes s)
        else if remaining_starts_with env s (CHR ''/'') then Next (advance (goto Path_or_authority s))
        else Next (goto Opaque_path (on_url (\<lambda>u. u\<lparr>opaque_path := True, path := [[]]\<rparr>) s)))"

definition scheme_step :: "parse_env \<Rightarrow> code_point \<Rightarrow> parser \<Rightarrow> step" where
  "scheme_step env c s =
     (if is_alpha c \<or> is_digit c \<or> is_char c (CHR ''+'') \<or> is_char c (CHR ''-'') \<or> is_char c (CHR ''.'')
      then Next (s\<lparr>buffer := buffer s @ [lower c]\<rparr>)
      else if is_char c (CHR '':'') then scheme_end_step env s
      else if no_override env then Next (s\<lparr>buffer := [], st := No_scheme, pointer := -1\<rparr>)
      else Return False (url s))"

definition no_scheme_step :: "parse_env \<Rightarrow> code_point \<Rightarrow> parser \<Rightarrow> step" where
  "no_scheme_step env c s =
     (case base env of
        None \<Rightarrow> Return False (url s)
      | Some b \<Rightarrow>
          if opaque_path b \<and> \<not> is_char c (CHR ''#'') then Return False (url s)
          else if opaque_path b
          then Next (goto Fragment_state (on_url (\<lambda>u. u\<lparr>scheme := scheme b, path := path b,
                 opaque_path := True, query := query b, fragment := Some []\<rparr>) s))
          else if scheme b \<noteq> ''file'' then Next (retreat (goto Relative s))
          else Next (retreat (goto File s)))"

definition special_relative_or_authority_step :: "parse_env \<Rightarrow> code_point \<Rightarrow> parser \<Rightarrow> step" where
  "special_relative_or_authority_step env c s =
     (if slash c \<and> remaining_starts_with env s (CHR ''/'')
      then Next (advance (goto Special_authority_ignore_slashes s))
      else Next (retreat (goto Relative s)))"

definition path_or_authority_step :: "code_point \<Rightarrow> parser \<Rightarrow> step" where
  "path_or_authority_step c s =
     (if slash c then Next (goto Authority s) else Next (retreat (goto Path_state s)))"

definition relative_step :: "parse_env \<Rightarrow> code_point \<Rightarrow> parser \<Rightarrow> step" where
  "relative_step env c s =
     (case base env of
        None \<Rightarrow> Crash
      | Some b \<Rightarrow>
          let s = on_url (\<lambda>u. u\<lparr>scheme := scheme b\<rparr>) s in
          if slash c \<or> is_special (url s) \<and> backslash c then Next (goto Relative_slash s)
          else let s = on_url (\<lambda>u. u\<lparr>username := username b, password := password b, host := host b,
                   port := port b, path := path b, opaque_path := opaque_path b, query := query b\<rparr>) s
            in if is_char c (CHR ''?'') then Next (start_query s)
               else if is_char c (CHR ''#'') then Next (start_fragment s)
               else if c \<noteq> eof
               then Next (retreat (goto Path_state (on_url (\<lambda>u. shorten_path (u\<lparr>query := None\<rparr>)) s)))
               else Next s)"

definition relative_slash_step :: "parse_env \<Rightarrow> code_point \<Rightarrow> parser \<Rightarrow> step" where
  "relative_slash_step env c s =
     (if is_special (url s) \<and> (slash c \<or> backslash c) then Next (goto Special_authority_ignore_slashes s)
      else if slash c then Next (goto Authority s)
      else case base env of
          None \<Rightarrow> Crash
        | Some b \<Rightarrow>
            Next (retreat (goto Path_state (on_url (\<lambda>u. u\<lparr>username := username b, password := password b,
              host := host b, port := port b\<rparr>) s))))"

section \<open>The authority\<close>

definition special_authority_slashes_step :: "parse_env \<Rightarrow> code_point \<Rightarrow> parser \<Rightarrow> step" where
  "special_authority_slashes_step env c s =
     (if slash c \<and> remaining_starts_with env s (CHR ''/'')
      then Next (advance (goto Special_authority_ignore_slashes s))
      else Next (retreat (goto Special_authority_ignore_slashes s)))"

definition ignore_slashes_step :: "code_point \<Rightarrow> parser \<Rightarrow> step" where
  "ignore_slashes_step c s =
     (if \<not> slash c \<and> \<not> backslash c then Next (retreat (goto Authority s)) else Next s)"

text \<open>One code point of the credentials.\<close>

definition add_credential :: "code_point \<Rightarrow> parser \<Rightarrow> parser" where
  "add_credential each s =
     (if is_char each (CHR '':'') \<and> \<not> password_token_seen s then s\<lparr>password_token_seen := True\<rparr>
      else if password_token_seen s
      then on_url (\<lambda>u. u\<lparr>password := percent_encode_point (password u) each Userinfo\<rparr>) s
      else on_url (\<lambda>u. u\<lparr>username := percent_encode_point (username u) each Userinfo\<rparr>) s)"

definition authority_step :: "code_point \<Rightarrow> bool \<Rightarrow> parser \<Rightarrow> step" where
  "authority_step c special s =
     (if is_char c (CHR ''@'')
      then let text = (if at_sign_seen s then map byte ''%40'' @ buffer s else buffer s) in
        Next ((fold add_credential text (s\<lparr>at_sign_seen := True\<rparr>))\<lparr>buffer := []\<rparr>)
      else if ends_authority special c
      then if at_sign_seen s \<and> buffer s = [] then Return False (url s)
        else Next (s\<lparr>pointer := pointer s - (int (length (buffer s)) + 1), buffer := [], st := Host\<rparr>)
      else Next (s\<lparr>buffer := buffer s @ [c]\<rparr>))"

definition host_step :: "parse_env \<Rightarrow> code_point \<Rightarrow> bool \<Rightarrow> parser \<Rightarrow> step" where
  "host_step env c special s =
     (if \<not> no_override env \<and> scheme (url s) = ''file'' then Next (retreat (goto File_host s))
      else if is_char c (CHR '':'') \<and> \<not> inside_brackets s
      then if buffer s = [] then Return False (url s)
        else if override env = Some Hostname then Return True (url s)
        else (case parse_host (tables env) (buffer s) (\<not> special) of
            Fault \<Rightarrow> Crash
          | Failure \<Rightarrow> Return False (url s)
          | Value h \<Rightarrow> Next (goto Port (on_url (\<lambda>u. u\<lparr>host := Some h\<rparr>) s\<lparr>buffer := []\<rparr>)))
      else if ends_authority special c
      then if special \<and> buffer s = [] then Return False (url s)
        else if \<not> no_override env \<and> buffer s = [] \<and> (has_credentials (url s) \<or> port (url s) \<noteq> None)
        then Return True (url s)
        else (case parse_host (tables env) (buffer s) (\<not> special) of
            Fault \<Rightarrow> Crash
          | Failure \<Rightarrow> Return False (url s)
          | Value h \<Rightarrow>
              let s = on_url (\<lambda>u. u\<lparr>host := Some h\<rparr>) s in
              if no_override env then Next (retreat (goto Path_start (s\<lparr>buffer := []\<rparr>)))
              else Return True (url s))
      else Next (s\<lparr>inside_brackets :=
            (if is_char c (CHR '']'') then False else if is_char c (CHR ''['') then True else inside_brackets s),
          buffer := buffer s @ [c]\<rparr>))"

text \<open>The port, capped at 70000 so that the product never wraps.\<close>

definition port_value :: "code_point list \<Rightarrow> nat" where
  "port_value digits = foldl (\<lambda>port d. min (port * 10 + (d - byte (CHR ''0''))) 70000) 0 digits"

definition port_step :: "parse_env \<Rightarrow> code_point \<Rightarrow> bool \<Rightarrow> parser \<Rightarrow> step" where
  "port_step env c special s =
     (if is_digit c then Next (s\<lparr>buffer := buffer s @ [c]\<rparr>)
      else if ends_authority special c \<or> \<not> no_override env
      then if buffer s \<noteq> [] \<and> port_value (buffer s) > 65535 then Return False (url s)
        else let v = port_value (buffer s);
            s = (if buffer s \<noteq> []
                 then on_url (\<lambda>u. u\<lparr>port := (if default_port (scheme u) = Some v then None else Some v)\<rparr>) s
                        \<lparr>buffer := []\<rparr>
                 else s)
          in if \<not> no_override env then Return True (url s) else Next (retreat (goto Path_start s))
      else Return False (url s))"

section \<open>File URLs\<close>

text \<open>Whether there is a base with scheme \<^verbatim>\<open>file\<close>.\<close>

definition file_base :: "parse_env \<Rightarrow> url_record option" where
  "file_base env = (case base env of Some b \<Rightarrow> if scheme b = ''file'' then Some b else None | None \<Rightarrow> None)"

definition file_step :: "parse_env \<Rightarrow> code_point \<Rightarrow> parser \<Rightarrow> step" where
  "file_step env c s =
     (let s = on_url (\<lambda>u. u\<lparr>scheme := ''file'', host := Some []\<rparr>) s in
      if slash c \<or> backslash c then Next (goto File_slash s)
      else case file_base env of
          None \<Rightarrow> Next (retreat (goto Path_state s))
        | Some b \<Rightarrow>
            let s = on_url (\<lambda>u. u\<lparr>host := host b, path := path b, opaque_path := opaque_path b,
                  query := query b\<rparr>) s
            in if is_char c (CHR ''?'') then Next (start_query s)
               else if is_char c (CHR ''#'') then Next (start_fragment s)
               else if c \<noteq> eof
               then let s = on_url (\<lambda>u. u\<lparr>query := None\<rparr>) s;
                        s = (if \<not> starts_with_windows_drive_letter (from_pointer env s)
                             then on_url shorten_path s else on_url (\<lambda>u. u\<lparr>path := []\<rparr>) s)
                 in Next (retreat (goto Path_state s))
               else Next s)"

definition file_slash_step :: "parse_env \<Rightarrow> code_point \<Rightarrow> parser \<Rightarrow> step" where
  "file_slash_step env c s =
     (if slash c \<or> backslash c then Next (goto File_host s)
      else let s = (case file_base env of
             None \<Rightarrow> s
           | Some b \<Rightarrow>
               let s = on_url (\<lambda>u. u\<lparr>host := host b\<rparr>) s in
               if \<not> starts_with_windows_drive_letter (from_pointer env s) \<and> path b \<noteq> []
                 \<and> normalized_windows_drive_letter (path b ! 0)
               then on_url (\<lambda>u. u\<lparr>path := path u @ [path b ! 0]\<rparr>) s else s)
        in Next (retreat (goto Path_state s)))"

definition file_host_step :: "parse_env \<Rightarrow> code_point \<Rightarrow> bool \<Rightarrow> parser \<Rightarrow> step" where
  "file_host_step env c special s =
     (if ends_authority True c
      then let s = retreat s in
        if no_override env \<and> windows_drive_letter (buffer s) then Next (goto Path_state s)
        else if buffer s = []
        then let s = on_url (\<lambda>u. u\<lparr>host := Some []\<rparr>) s in
          if no_override env then Next (goto Path_start s) else Return True (url s)
        else (case parse_host (tables env) (buffer s) (\<not> special) of
            Fault \<Rightarrow> Crash
          | Failure \<Rightarrow> Return False (url s)
          | Value h \<Rightarrow>
              let s = on_url (\<lambda>u. u\<lparr>host := Some (if h = ''localhost'' then [] else h)\<rparr>) s in
              if no_override env then Next (goto Path_start (s\<lparr>buffer := []\<rparr>)) else Return True (url s))
      else Next (s\<lparr>buffer := buffer s @ [c]\<rparr>))"

section \<open>Path, query and fragment\<close>

definition path_start_step :: "parse_env \<Rightarrow> code_point \<Rightarrow> bool \<Rightarrow> parser \<Rightarrow> step" where
  "path_start_step env c special s =
     (if special
      then Next (if \<not> slash c \<and> \<not> backslash c then retreat (goto Path_state s) else goto Path_state s)
      else if no_override env \<and> is_char c (CHR ''?'') then Next (start_query s)
      else if no_override env \<and> is_char c (CHR ''#'') then Next (start_fragment s)
      else if c \<noteq> eof then Next (if \<not> slash c then retreat (goto Path_state s) else goto Path_state s)
      else if \<not> no_override env \<and> host (url s) = None
      then Next (on_url (\<lambda>u. u\<lparr>path := path u @ [[]]\<rparr>) s)
      else Next s)"

text \<open>The segment in the buffer goes into the path. The second character of a drive letter becomes a
  colon; the model says \<open>None\<close> if there were no second character to overwrite.\<close>

definition push_segment :: "code_point list \<Rightarrow> url_record \<Rightarrow> url_record option" where
  "push_segment buf u =
     (let segment = utf8_of buf in
      if scheme u = ''file'' \<and> path u = [] \<and> windows_drive_letter buf
      then if length segment > 1 then Some (u\<lparr>path := path u @ [segment[1 := CHR '':'']]\<rparr>) else None
      else Some (u\<lparr>path := path u @ [segment]\<rparr>))"

definition end_segment :: "code_point list \<Rightarrow> bool \<Rightarrow> url_record \<Rightarrow> url_record option" where
  "end_segment buf is_slash u =
     (let segment = utf8_of buf in
      if double_dot segment
      then let u = shorten_path u in Some (if \<not> is_slash then u\<lparr>path := path u @ [[]]\<rparr> else u)
      else if single_dot segment \<and> \<not> is_slash then Some (u\<lparr>path := path u @ [[]]\<rparr>)
      else if \<not> single_dot segment then push_segment buf u
      else Some u)"

definition path_step :: "parse_env \<Rightarrow> code_point \<Rightarrow> bool \<Rightarrow> parser \<Rightarrow> step" where
  "path_step env c special s =
     (let is_slash = (slash c \<or> special \<and> backslash c) in
      if c = eof \<or> is_slash \<or> no_override env \<and> (is_char c (CHR ''?'') \<or> is_char c (CHR ''#''))
      then (case end_segment (buffer s) is_slash (url s) of
          None \<Rightarrow> Crash
        | Some u \<Rightarrow>
            let s = s\<lparr>url := u, buffer := []\<rparr> in
            if is_char c (CHR ''?'') then Next (start_query s)
            else if is_char c (CHR ''#'') then Next (start_fragment s)
            else Next s)
      else Next (s\<lparr>buffer := buffer s @ map byte (percent_encode_point [] c Path)\<rparr>))"

definition opaque_path_step :: "parse_env \<Rightarrow> code_point \<Rightarrow> parser \<Rightarrow> step" where
  "opaque_path_step env c s =
     (if is_char c (CHR ''?'') then Next (start_query s)
      else if is_char c (CHR ''#'') then Next (start_fragment s)
      else if c = eof then Next s
      else case path (url s) of
          [] \<Rightarrow> Crash
        | p # ps \<Rightarrow>
            Next (on_url (\<lambda>u. u\<lparr>path :=
              (if is_char c (CHR '' '')
               then p @ (if remaining_starts_with env s (CHR ''?'') \<or> remaining_starts_with env s (CHR ''#'')
                         then ''%20'' else '' '')
               else percent_encode_point p c C0) # ps\<rparr>) s))"

definition query_step :: "parse_env \<Rightarrow> code_point \<Rightarrow> bool \<Rightarrow> parser \<Rightarrow> step" where
  "query_step env c special s =
     (if no_override env \<and> is_char c (CHR ''#'') \<or> c = eof
      then (case query (url s) of
          None \<Rightarrow> Crash
        | Some q \<Rightarrow>
            let s = on_url (\<lambda>u. u\<lparr>query :=
                  Some (q @ percent_encode (buffer s) (if special then Special_query else Query))\<rparr>) s\<lparr>buffer := []\<rparr>
            in if is_char c (CHR ''#'') then Next (start_fragment s) else Next s)
      else Next (s\<lparr>buffer := buffer s @ [c]\<rparr>))"

definition fragment_step :: "code_point \<Rightarrow> parser \<Rightarrow> step" where
  "fragment_step c s =
     (if c = eof then Next s
      else case fragment (url s) of
          None \<Rightarrow> Crash
        | Some f \<Rightarrow> Next (on_url (\<lambda>u. u\<lparr>fragment := Some (percent_encode_point f c Fragment)\<rparr>) s))"

section \<open>The machine\<close>

definition parser_step :: "parse_env \<Rightarrow> parser \<Rightarrow> step" where
  "parser_step env s =
     (let c = current env s; special = is_special (url s) in
      case st s of
        Scheme_start \<Rightarrow> scheme_start_step env c s
      | Scheme \<Rightarrow> scheme_step env c s
      | No_scheme \<Rightarrow> no_scheme_step env c s
      | Special_relative_or_authority \<Rightarrow> special_relative_or_authority_step env c s
      | Path_or_authority \<Rightarrow> path_or_authority_step c s
      | Relative \<Rightarrow> relative_step env c s
      | Relative_slash \<Rightarrow> relative_slash_step env c s
      | Special_authority_slashes \<Rightarrow> special_authority_slashes_step env c s
      | Special_authority_ignore_slashes \<Rightarrow> ignore_slashes_step c s
      | Authority \<Rightarrow> authority_step c special s
      | Host \<Rightarrow> host_step env c special s
      | Hostname \<Rightarrow> host_step env c special s
      | Port \<Rightarrow> port_step env c special s
      | File \<Rightarrow> file_step env c s
      | File_slash \<Rightarrow> file_slash_step env c s
      | File_host \<Rightarrow> file_host_step env c special s
      | Path_start \<Rightarrow> path_start_step env c special s
      | Path_state \<Rightarrow> path_step env c special s
      | Opaque_path \<Rightarrow> opaque_path_step env c s
      | Query_state \<Rightarrow> query_step env c special s
      | Fragment_state \<Rightarrow> fragment_step c s)"

text \<open>A state is followed by itself, one code point further, or by a state of a lower rank.\<close>

definition rank :: "parser_state \<Rightarrow> nat" where
  "rank q =
     (case q of
        Scheme_start \<Rightarrow> 20 | Scheme \<Rightarrow> 19 | No_scheme \<Rightarrow> 18 | Special_relative_or_authority \<Rightarrow> 17
      | Relative \<Rightarrow> 16 | Relative_slash \<Rightarrow> 15 | Special_authority_slashes \<Rightarrow> 14
      | Special_authority_ignore_slashes \<Rightarrow> 13 | Path_or_authority \<Rightarrow> 12 | Authority \<Rightarrow> 11
      | Hostname \<Rightarrow> 10 | Host \<Rightarrow> 10 | File \<Rightarrow> 9 | File_slash \<Rightarrow> 8 | File_host \<Rightarrow> 7 | Port \<Rightarrow> 6
      | Path_start \<Rightarrow> 5 | Path_state \<Rightarrow> 4 | Opaque_path \<Rightarrow> 3 | Query_state \<Rightarrow> 2 | Fragment_state \<Rightarrow> 1)"

lemmas step_defs = scheme_start_step_def scheme_step_def scheme_end_step_def no_scheme_step_def
  special_relative_or_authority_step_def path_or_authority_step_def relative_step_def
  relative_slash_step_def special_authority_slashes_step_def ignore_slashes_step_def
  authority_step_def host_step_def port_step_def file_step_def file_slash_step_def file_host_step_def
  path_start_step_def path_step_def opaque_path_step_def query_step_def fragment_step_def

lemma add_credential_machine [simp]:
  "st (add_credential c s) = st s" "pointer (add_credential c s) = pointer s"
  "buffer (add_credential c s) = buffer s" "at_sign_seen (add_credential c s) = at_sign_seen s"
  "inside_brackets (add_credential c s) = inside_brackets s"
  by (simp_all add: add_credential_def)

lemma fold_credentials_machine [simp]:
  "st (fold add_credential cs s) = st s" "pointer (fold add_credential cs s) = pointer s"
  "buffer (fold add_credential cs s) = buffer s" "at_sign_seen (fold add_credential cs s) = at_sign_seen s"
  "inside_brackets (fold add_credential cs s) = inside_brackets s"
  by (induction cs arbitrary: s) auto

lemma parser_step_progress:
  assumes "parser_step env s = Next s'"
  shows "rank (st s') < rank (st s) \<or> st s' = st s \<and> pointer s' = pointer s"
  using assms unfolding parser_step_def Let_def
  by (cases "st s")
    (auto simp: step_defs rank_def Let_def retreat_def advance_def start_query_def start_fragment_def
      split: if_splits option.splits outcome.splits list.splits)

text \<open>The loop: it leaves when the pointer has reached the end of the input, and moves it on
  otherwise. \<open>Fault\<close> is undefined behaviour.\<close>

function parser_run :: "parse_env \<Rightarrow> parser \<Rightarrow> (bool \<times> url_record) outcome" where
  "parser_run env s =
     (case parser_step env s of
        Crash \<Rightarrow> Fault
      | Return ok u \<Rightarrow> Value (ok, u)
      | Next s' \<Rightarrow>
          if pointer s' \<ge> int (length (input env)) then Value (True, url s')
          else parser_run env (advance s'))"
  by pat_completeness auto
termination
proof (relation "inv_image (less_than <*lex*> less_than)
    (\<lambda>(env, s). (rank (st s), nat (int (length (input env)) - pointer s)))")
  fix env s s'
  assume "parser_step env s = Next s'" and more: "\<not> pointer s' \<ge> int (length (input env))"
  from parser_step_progress [OF this(1)] more
  show "((env, advance s'), env, s) \<in> inv_image (less_than <*lex*> less_than)
      (\<lambda>(env, s). (rank (st s), nat (int (length (input env)) - pointer s)))"
    by (auto simp: advance_def)
qed auto

declare parser_run.simps [simp del]

section \<open>Entry\<close>

text \<open>Leading and trailing C0 controls and spaces go on a plain parse, tabs and newlines always.\<close>

definition trim_controls :: "string \<Rightarrow> string" where
  "trim_controls raw =
     rev (dropWhile (\<lambda>c. byte c \<le> 0x20) (rev (dropWhile (\<lambda>c. byte c \<le> 0x20) raw)))"

definition cleaned_input :: "string \<Rightarrow> parser_state option \<Rightarrow> code_point list" where
  "cleaned_input raw ov =
     code_points (filter (\<lambda>c. c \<noteq> chr 9 \<and> c \<noteq> chr 10 \<and> c \<noteq> chr 13)
       (if ov = None then trim_controls raw else raw))"

definition basic_parse :: "unicode_data \<Rightarrow> string \<Rightarrow> url_record option \<Rightarrow> url_record
    \<Rightarrow> parser_state option \<Rightarrow> (bool \<times> url_record) outcome" where
  "basic_parse D raw b u ov =
     parser_run \<lparr>tables = D, input = cleaned_input raw ov, base = b, override = ov\<rparr>
       \<lparr>st = (case ov of None \<Rightarrow> Scheme_start | Some q \<Rightarrow> q), pointer = 0, buffer = [],
        at_sign_seen = False, inside_brackets = False, password_token_seen = False, url = u\<rparr>"

definition parse_url :: "unicode_data \<Rightarrow> string \<Rightarrow> url_record option \<Rightarrow> url_record outcome" where
  "parse_url D raw b =
     bind_outcome (basic_parse D raw b empty_url None) (\<lambda>(ok, u). if ok then Value u else Failure)"

end
