(* ===== verification/Url_Invariant.thy ===== *)
theory Url_Invariant
  imports Url_Parser
begin

text \<open>
  What holds of every URL record the parser makes, and that the setters keep it: the characters of
  each component are already encoded, a special URL has a host and a path, credentials and a port
  need a host, the port is not the default, an opaque path stands alone. The proof is an invariant
  of the machine, one lemma per state.
\<close>

section \<open>Components\<close>

definition text_ok :: "encode_set \<Rightarrow> string \<Rightarrow> bool" where
  "text_ok es s \<longleftrightarrow> (\<forall>c \<in> set s. \<not> in_set (byte c) es)"

definition segment_ok :: "bool \<Rightarrow> string \<Rightarrow> bool" where
  "segment_ok special s \<longleftrightarrow> text_ok Path s \<and> CHR ''/'' \<notin> set s \<and> (special \<longrightarrow> chr 92 \<notin> set s)"

definition opaque_ok :: "string \<Rightarrow> bool" where
  "opaque_ok s \<longleftrightarrow> text_ok C0 s \<and> CHR ''?'' \<notin> set s \<and> CHR ''#'' \<notin> set s"

definition scheme_char :: "code_point \<Rightarrow> bool" where
  "scheme_char c \<longleftrightarrow> 97 \<le> c \<and> c \<le> 122 \<or> is_digit c \<or> c \<in> set (map byte ''+-.'')"

definition scheme_points :: "code_point list \<Rightarrow> bool" where
  "scheme_points s \<longleftrightarrow> s \<noteq> [] \<and> 97 \<le> hd s \<and> hd s \<le> 122 \<and> (\<forall>c \<in> set s. scheme_char c)"

definition scheme_ok :: "string \<Rightarrow> bool" where
  "scheme_ok s \<longleftrightarrow> scheme_points (map byte s)"

definition no_host :: "url_record \<Rightarrow> bool" where
  "no_host u \<longleftrightarrow> host u = None \<or> host u = Some []"

definition query_set :: "url_record \<Rightarrow> encode_set" where
  "query_set u = (if is_special u then Special_query else Query)"

definition path_ok :: "url_record \<Rightarrow> bool" where
  "path_ok u \<longleftrightarrow>
     (if opaque_path u
      then \<not> is_special u \<and> host u = None \<and> length (path u) = 1 \<and> opaque_ok (hd (path u))
      else \<forall>seg \<in> set (path u). segment_ok (is_special u) seg)"

definition parts_ok :: "url_record \<Rightarrow> bool" where
  "parts_ok u \<longleftrightarrow> scheme_ok (scheme u)
     \<and> text_ok Userinfo (username u) \<and> text_ok Userinfo (password u)
     \<and> (\<forall>h. host u = Some h \<longrightarrow> host_text h)
     \<and> (has_credentials u \<or> port u \<noteq> None \<longrightarrow> \<not> no_host u \<and> scheme u \<noteq> ''file'')
     \<and> (\<forall>v. port u = Some v \<longrightarrow> v < 2 ^ 16 \<and> default_port (scheme u) \<noteq> Some v)
     \<and> path_ok u
     \<and> (\<forall>q. query u = Some q \<longrightarrow> text_ok (query_set u) q)
     \<and> (\<forall>f. fragment u = Some f \<longrightarrow> text_ok Fragment f)
     \<and> (is_special u \<longrightarrow> host u \<noteq> None \<and> (scheme u \<noteq> ''file'' \<longrightarrow> host u \<noteq> Some []))"

definition record_ok :: "url_record \<Rightarrow> bool" where
  "record_ok u \<longleftrightarrow> parts_ok u \<and> (is_special u \<longrightarrow> path u \<noteq> [])"

section \<open>Encoded text\<close>

lemma text_ok_simps [simp]:
  "text_ok es []" "text_ok es (c # s) \<longleftrightarrow> \<not> in_set (byte c) es \<and> text_ok es s"
  "text_ok es (s @ t) \<longleftrightarrow> text_ok es s \<and> text_ok es t"
  by (auto simp: text_ok_def)

definition keeps_escapes :: "encode_set \<Rightarrow> bool" where
  "keeps_escapes es \<longleftrightarrow> (\<forall>c \<in> set ''%0123456789ABCDEF''. \<not> in_set (byte c) es)"

lemma keeps_escapes_sets [simp]:
  "keeps_escapes C0" "keeps_escapes Fragment" "keeps_escapes Query" "keeps_escapes Special_query"
  "keeps_escapes Path" "keeps_escapes Userinfo"
  by (simp_all add: keeps_escapes_def in_set_def set_chars_def eq_chr_iff)

lemma escape_text_ok: "keeps_escapes es \<Longrightarrow> text_ok es (escape e)"
proof -
  assume k: "keeps_escapes es"
  have d: "\<not> in_set (byte (hex_digits ! i)) es" if "i < 16" for i
    using hex_digit_plain [OF that] k by (auto simp: hex_digits_def keeps_escapes_def)
  have "byte e div 16 < 16" using byte_less [of e] by (intro less_mult_imp_div_less) simp
  with d [of "byte e div 16"] d [of "byte e mod 16"] k show ?thesis
    by (simp add: escape_hex(1) keeps_escapes_def)
qed

lemma encoded_text_ok: "keeps_escapes es \<Longrightarrow> text_ok es (encoded es c)"
proof (cases "in_set c es")
  case True
  assume "keeps_escapes es"
  with True escape_text_ok [of es] show ?thesis by (simp add: percent_encode_point_def text_ok_def)
next
  case False
  then have "c < 256" by (simp add: in_set_def)
  with False show ?thesis by (simp add: percent_encode_point_def)
qed

lemma percent_encode_point_ok:
  "keeps_escapes es \<Longrightarrow> text_ok es out \<Longrightarrow> text_ok es (percent_encode_point out c es)"
  by (subst percent_encode_point_append) (simp add: encoded_text_ok)

lemma percent_encode_ok: "keeps_escapes es \<Longrightarrow> text_ok es (percent_encode s es)"
  unfolding percent_encode_concat by (induction s) (simp_all add: encoded_text_ok)

text \<open>A character that is encoded elsewhere does not come out of encoding.\<close>

lemma encoded_not: "d \<notin> set ''%0123456789ABCDEF'' \<Longrightarrow> c \<noteq> byte d \<Longrightarrow> d \<notin> set (encoded es c)"
proof (cases "in_set c es")
  case True
  assume d: "d \<notin> set ''%0123456789ABCDEF''" "c \<noteq> byte d"
  have "d \<noteq> hex_digits ! i" if "i < 16" for i
    using hex_digit_plain [OF that] d by (auto simp: hex_digits_def)
  moreover have "byte e div 16 < 16" for e using byte_less [of e] by (intro less_mult_imp_div_less) simp
  ultimately show ?thesis
    using True d by (auto simp: percent_encode_point_def escape_hex(1))
next
  case False
  assume "c \<noteq> byte d"
  with False show ?thesis by (auto simp: percent_encode_point_def in_set_def eq_chr_iff)
qed

section \<open>The invariant of the machine\<close>

definition env_ok :: "parse_env \<Rightarrow> bool" where
  "env_ok env \<longleftrightarrow> tables_points (tables env) \<and> (\<forall>c \<in> set (input env). c < 0x200000)
     \<and> (\<forall>b. base env = Some b \<longrightarrow> record_ok b) \<and> (override env \<noteq> None \<longrightarrow> base env = None)"

definition fresh :: "string \<Rightarrow> url_record" where
  "fresh sch = empty_url\<lparr>scheme := sch\<rparr>"

definition file_url :: url_record where
  "file_url = (fresh ''file'')\<lparr>host := Some []\<rparr>"

definition origin_ok :: "parse_env \<Rightarrow> parser \<Rightarrow> bool" where
  "origin_ok env s \<longleftrightarrow> (if no_override env then url s = empty_url else record_ok (url s))"

definition authority_url :: "url_record \<Rightarrow> bool" where
  "authority_url u \<longleftrightarrow> (\<exists>sch us pw. u = (fresh sch)\<lparr>username := us, password := pw\<rparr> \<and> scheme_ok sch
     \<and> sch \<noteq> ''file'' \<and> text_ok Userinfo us \<and> text_ok Userinfo pw)"

text \<open>The buffer of the authority state is the text just read.\<close>

definition buffer_at :: "parse_env \<Rightarrow> parser \<Rightarrow> bool" where
  "buffer_at env s \<longleftrightarrow> int (length (buffer s)) \<le> pointer s
     \<and> (\<forall>i < length (buffer s). input env ! (nat (pointer s) - length (buffer s) + i) = buffer s ! i)
     \<and> (\<forall>c \<in> set (buffer s). \<not> ends_authority (is_special (url s)) c)"

definition path_point :: "bool \<Rightarrow> code_point \<Rightarrow> bool" where
  "path_point special c \<longleftrightarrow> c < 0x80 \<and> \<not> in_set c Path \<and> c \<noteq> 47 \<and> (special \<longrightarrow> c \<noteq> 92)"

definition state_inv :: "parse_env \<Rightarrow> parser \<Rightarrow> bool" where
  "state_inv env s \<longleftrightarrow>
     (case st s of
        Scheme_start \<Rightarrow> buffer s = [] \<and> origin_ok env s
      | Scheme \<Rightarrow> scheme_points (buffer s) \<and> origin_ok env s
      | No_scheme \<Rightarrow> no_override env \<and> buffer s = [] \<and> url s = empty_url
      | Special_relative_or_authority \<Rightarrow> no_override env \<and> buffer s = []
          \<and> (\<exists>b. base env = Some b \<and> is_special b \<and> scheme b \<noteq> ''file'' \<and> url s = fresh (scheme b))
      | Path_or_authority \<Rightarrow> no_override env \<and> buffer s = []
          \<and> (\<exists>sch. url s = fresh sch \<and> scheme_ok sch \<and> \<not> special_scheme sch)
      | Relative \<Rightarrow> no_override env \<and> buffer s = []
          \<and> (\<exists>b. base env = Some b \<and> scheme b \<noteq> ''file'' \<and> \<not> opaque_path b
               \<and> (url s = empty_url \<or> url s = fresh (scheme b)))
      | Relative_slash \<Rightarrow> no_override env \<and> buffer s = []
          \<and> (\<exists>b. base env = Some b \<and> scheme b \<noteq> ''file'' \<and> \<not> opaque_path b \<and> url s = fresh (scheme b))
      | Special_authority_slashes \<Rightarrow> no_override env \<and> buffer s = []
          \<and> (\<exists>sch. url s = fresh sch \<and> scheme_ok sch \<and> special_scheme sch \<and> sch \<noteq> ''file'')
      | Special_authority_ignore_slashes \<Rightarrow> no_override env \<and> buffer s = []
          \<and> (\<exists>sch. url s = fresh sch \<and> scheme_ok sch \<and> special_scheme sch \<and> sch \<noteq> ''file'')
      | Authority \<Rightarrow> no_override env \<and> authority_url (url s) \<and> buffer_at env s
          \<and> (at_sign_seen s \<or> \<not> has_credentials (url s))
      | Port \<Rightarrow> (\<forall>c \<in> set (buffer s). is_digit c) \<and> \<not> no_host (url s) \<and> scheme (url s) \<noteq> ''file''
          \<and> parts_ok (url s) \<and> (if no_override env then path (url s) = [] else record_ok (url s))
      | File \<Rightarrow> no_override env \<and> buffer s = [] \<and> (url s = empty_url \<or> url s = fresh ''file'')
      | File_slash \<Rightarrow> no_override env \<and> buffer s = [] \<and> url s = file_url
      | File_host \<Rightarrow>
          (if no_override env then url s = file_url
           else record_ok (url s) \<and> scheme (url s) = ''file'')
      | Path_start \<Rightarrow> buffer s = [] \<and> parts_ok (url s) \<and> path (url s) = [] \<and> \<not> opaque_path (url s)
      | Path_state \<Rightarrow> parts_ok (url s) \<and> \<not> opaque_path (url s)
          \<and> (\<forall>c \<in> set (buffer s). path_point (is_special (url s)) c)
      | Opaque_path \<Rightarrow> no_override env \<and> buffer s = [] \<and> parts_ok (url s) \<and> opaque_path (url s)
      | Query_state \<Rightarrow> record_ok (url s) \<and> query (url s) \<noteq> None
      | Fragment_state \<Rightarrow> record_ok (url s) \<and> fragment (url s) \<noteq> None
      | _ \<Rightarrow> \<comment> \<open>\<open>Host\<close> and \<open>Hostname\<close>\<close>
          (if no_override env
           then authority_url (url s) \<and> (at_sign_seen s \<or> \<not> has_credentials (url s))
             \<and> (buffer s = [] \<and> at_sign_seen s \<longrightarrow> \<not> ends_authority (is_special (url s)) (current env s))
           else record_ok (url s) \<and> \<not> opaque_path (url s)))"

definition in_input :: "parse_env \<Rightarrow> parser \<Rightarrow> bool" where
  "in_input env s \<longleftrightarrow> 0 \<le> pointer s \<and> pointer s \<le> int (length (input env))"

definition parser_inv :: "parse_env \<Rightarrow> parser \<Rightarrow> bool" where
  "parser_inv env s \<longleftrightarrow> in_input env s \<and> state_inv env s"

definition ok_step :: "parse_env \<Rightarrow> step \<Rightarrow> bool" where
  "ok_step env r \<longleftrightarrow>
     (case r of
        Crash \<Rightarrow> False
      | Return ok u \<Rightarrow> if no_override env then \<not> ok else record_ok u
      | Next s \<Rightarrow>
          if pointer s \<ge> int (length (input env)) then record_ok (url s)
          else parser_inv env (advance s))"

lemma current_eof: "in_input env s \<Longrightarrow> env_ok env \<Longrightarrow> current env s = eof \<longleftrightarrow> pointer s = int (length (input env))"
proof -
  assume s: "in_input env s" "env_ok env"
  have "input env ! nat (pointer s) \<noteq> eof" if "pointer s < int (length (input env))"
  proof -
    have "input env ! nat (pointer s) \<in> set (input env)" using s(1) that by (intro nth_mem) (simp add: in_input_def)
    with s(2) have "input env ! nat (pointer s) < 0x200000" by (simp add: env_ok_def)
    then show ?thesis by (simp add: eof_def)
  qed
  with s(1) show ?thesis by (auto simp: current_def in_input_def)
qed

lemma ok_retreat: "parser_inv env s \<Longrightarrow> ok_step env (Next (retreat s))"
  by (simp add: ok_step_def retreat_def advance_def parser_inv_def in_input_def)

lemma ok_next:
  assumes "in_input env s" "pointer s = int (length (input env)) \<Longrightarrow> record_ok (url s)"
    "pointer s < int (length (input env)) \<Longrightarrow> state_inv env (advance s)"
  shows "ok_step env (Next s)"
  using assms by (auto simp: ok_step_def parser_inv_def in_input_def advance_def)

lemma ok_advance:
  assumes "in_input env s" "remaining_starts_with env s c" "state_inv env (advance (advance s))"
  shows "ok_step env (Next (advance s))"
  using assms by (auto simp: ok_step_def parser_inv_def in_input_def advance_def remaining_starts_with_def)

text \<open>The states that do not look at the pointer.\<close>

lemma state_inv_advance:
  "st s \<notin> {Authority, Host, Hostname} \<Longrightarrow> state_inv env (advance s) = state_inv env s"
  by (cases "st s") (simp_all add: state_inv_def advance_def origin_ok_def)

lemma moved_simps [simp]:
  "st (advance s) = st s" "buffer (advance s) = buffer s" "url (advance s) = url s"
  "at_sign_seen (advance s) = at_sign_seen s" "pointer (advance s) = pointer s + 1"
  "st (retreat s) = st s" "buffer (retreat s) = buffer s" "url (retreat s) = url s"
  "at_sign_seen (retreat s) = at_sign_seen s" "pointer (retreat s) = pointer s - 1"
  by (simp_all add: advance_def retreat_def)

lemma remaining_goto [simp]: "remaining_starts_with env (goto q s) c = remaining_starts_with env s c"
  by (simp add: remaining_starts_with_def)

lemma ok_plain:
  assumes "in_input env s" "st s \<notin> {Authority, Host, Hostname}"
    "pointer s = int (length (input env)) \<Longrightarrow> record_ok (url s)"
    "pointer s < int (length (input env)) \<Longrightarrow> state_inv env s"
  shows "ok_step env (Next s)"
  using assms by (intro ok_next) (simp_all add: state_inv_advance)

lemma ok_advance_plain:
  assumes "in_input env s" "st s \<notin> {Authority, Host, Hostname}" "remaining_starts_with env s c"
    "state_inv env s"
  shows "ok_step env (Next (advance s))"
  using assms by (intro ok_advance) (simp_all add: state_inv_advance)

lemma in_input_cong: "pointer s = pointer t \<Longrightarrow> in_input env s = in_input env t"
  by (simp add: in_input_def)

lemma fresh_simps [simp]:
  "scheme (fresh sch) = sch" "username (fresh sch) = []" "password (fresh sch) = []"
  "host (fresh sch) = None" "port (fresh sch) = None" "path (fresh sch) = []"
  "\<not> opaque_path (fresh sch)" "query (fresh sch) = None" "fragment (fresh sch) = None"
  by (simp_all add: fresh_def empty_url_def)

lemma empty_simps [simp]:
  "scheme empty_url = []" "username empty_url = []" "password empty_url = []"
  "host empty_url = None" "port empty_url = None" "path empty_url = []"
  "\<not> opaque_path empty_url" "query empty_url = None" "fragment empty_url = None"
  by (simp_all add: empty_url_def)

section \<open>One lemma per state\<close>

lemma empty_scheme: "empty_url\<lparr>scheme := sch\<rparr> = fresh sch" "(fresh s)\<lparr>scheme := sch\<rparr> = fresh sch"
  by (simp_all add: fresh_def)

lemma scheme_start_ok:
  assumes "env_ok env" "parser_inv env s" "st s = Scheme_start"
  shows "ok_step env (scheme_start_step env (current env s) s)"
proof -
  let ?c = "current env s"
  from assms have i: "in_input env s" "buffer s = []" "origin_ok env s"
    by (simp_all add: parser_inv_def state_inv_def)
  show ?thesis
  proof (cases "is_alpha ?c")
    case True
    then have "?c \<noteq> eof" by (auto simp: is_alpha_def eof_def)
    then have "pointer s \<noteq> int (length (input env))" using current_eof [OF i(1) assms(1)] by simp
    moreover have "scheme_points [lower ?c]"
      using True by (auto simp: scheme_points_def scheme_char_def is_alpha_def lower_def)
    ultimately show ?thesis
      using True i unfolding scheme_start_step_def
      by (auto intro!: ok_plain simp: in_input_def state_inv_def origin_ok_def)
  next
    case False
    then show ?thesis
      using i by (auto simp: scheme_start_step_def origin_ok_def ok_step_def [of _ "Return _ _"]
          parser_inv_def state_inv_def in_input_def intro!: ok_retreat split: if_splits)
  qed
qed

lemma scheme_points_text:
  assumes "scheme_points s"
  shows "utf8_of s = map chr s" "scheme_ok (map chr s)"
proof -
  have small: "\<forall>c \<in> set s. c < 0x80"
    using assms by (auto simp: scheme_points_def scheme_char_def is_digit_def)
  then show "utf8_of s = map chr s" by (intro ascii_utf8) (simp add: all_below_80_def)
  have "map byte (map chr s) = s" using small by (auto intro!: map_idI)
  with assms show "scheme_ok (map chr s)" by (simp add: scheme_ok_def)
qed

lemma same_class:
  assumes "special_scheme (scheme u) = special_scheme sch"
  shows "is_special (u\<lparr>scheme := sch\<rparr>) = is_special u" "query_set (u\<lparr>scheme := sch\<rparr>) = query_set u"
    "path_ok (u\<lparr>scheme := sch\<rparr>) = path_ok u"
  using assms by (simp_all add: is_special_def query_set_def path_ok_def)

lemma special_file: "special_scheme ''file''"
  by (simp add: special_scheme_def)

lemma default_port_file: "default_port ''file'' = None"
  by (simp add: default_port_def)

lemma default_port_bound: "default_port sch = Some v \<Longrightarrow> v < 2 ^ 16"
  by (auto simp: default_port_def split: if_splits)

text \<open>A scheme that is not refused leaves a good record.\<close>

lemma change_scheme_ok:
  assumes "record_ok u" "scheme_ok sch" "\<not> scheme_change_refused u sch"
  shows "record_ok (let v = u\<lparr>scheme := sch\<rparr> in
    if port v \<noteq> None \<and> port v = default_port (scheme v) then v\<lparr>port := None\<rparr> else v)"
proof -
  have same: "special_scheme (scheme u) = special_scheme sch"
    and creds: "has_credentials u \<or> port u \<noteq> None \<longrightarrow> sch \<noteq> ''file''"
    and leave: "\<not> (scheme u = ''file'' \<and> host u = Some [])"
    using assms(3) by (auto simp: scheme_change_refused_def)
  note c = same_class [OF same]
  have p: "is_special (w\<lparr>port := x\<rparr>) = is_special w" "query_set (w\<lparr>port := x\<rparr>) = query_set w"
    "path_ok (w\<lparr>port := x\<rparr>) = path_ok w" "has_credentials (w\<lparr>port := x\<rparr>) = has_credentials w"
    "no_host (w\<lparr>port := x\<rparr>) = no_host w"
    "has_credentials (u\<lparr>scheme := sch\<rparr>) = has_credentials u" "no_host (u\<lparr>scheme := sch\<rparr>) = no_host u" for w x
    by (simp_all add: is_special_def query_set_def path_ok_def has_credentials_def no_host_def)
  have u: "parts_ok u" "is_special u \<longrightarrow> path u \<noteq> []" using assms(1) by (simp_all add: record_ok_def)
  have host: "is_special u \<longrightarrow> host u \<noteq> None \<and> host u \<noteq> Some []"
    using u(1) leave by (auto simp: parts_ok_def)
  have "record_ok ((u\<lparr>scheme := sch\<rparr>)\<lparr>port := None\<rparr>)"
    using u host creds assms(2) unfolding record_ok_def parts_ok_def p c by simp
  moreover have "record_ok (u\<lparr>scheme := sch\<rparr>)" if "\<not> (port u \<noteq> None \<and> port u = default_port sch)"
    using u host creds assms(2) that unfolding record_ok_def parts_ok_def p c by auto
  ultimately show ?thesis by (simp add: Let_def)
qed

lemma scheme_end_ok:
  assumes "env_ok env" "in_input env s" "pointer s < int (length (input env))"
    "scheme_points (buffer s)" "origin_ok env s"
  shows "ok_step env (scheme_end_step env s)"
proof -
  define sch where "sch = utf8_of (buffer s)"
  have sch: "scheme_ok sch" using scheme_points_text [OF assms(4)] by (simp add: sch_def)
  show ?thesis
  proof (cases "no_override env")
    case False
    with assms(5) have u: "record_ok (url s)" by (simp add: origin_ok_def)
    then have "record_ok (let v = (url s)\<lparr>scheme := sch\<rparr> in
        if port v \<noteq> None \<and> port v = default_port (scheme v) then v\<lparr>port := None\<rparr> else v)"
      if "\<not> scheme_change_refused (url s) sch"
      using sch that by (rule change_scheme_ok)
    with u False show ?thesis
      by (cases "scheme_change_refused (url s) sch")
        (simp_all add: scheme_end_step_def Let_def ok_step_def flip: sch_def)
  next
    case True
    with assms(5) have u: "url s = empty_url" by (simp add: origin_ok_def)
    define s' where "s' = s\<lparr>url := fresh sch, buffer := []\<rparr>"
    have r: "scheme_end_step env s =
      (if sch = ''file'' then Next (goto File s')
       else if special_scheme sch \<and> (case base env of Some b \<Rightarrow> scheme b = sch | None \<Rightarrow> False)
       then Next (goto Special_relative_or_authority s')
       else if special_scheme sch then Next (goto Special_authority_slashes s')
       else if remaining_starts_with env s' (CHR ''/'') then Next (advance (goto Path_or_authority s'))
       else Next (goto Opaque_path (on_url (\<lambda>u. u\<lparr>opaque_path := True, path := [[]]\<rparr>) s')))"
      using True u by (simp add: scheme_end_step_def Let_def s'_def is_special_def fresh_def flip: sch_def)
    have i: "in_input env s'" "pointer s' < int (length (input env))"
      using assms(2,3) by (simp_all add: s'_def in_input_def)
    have opaque: "parts_ok ((fresh sch)\<lparr>opaque_path := True, path := [[]]\<rparr>)" if "\<not> special_scheme sch"
      using sch that by (simp add: parts_ok_def path_ok_def is_special_def has_credentials_def no_host_def opaque_ok_def)
    show ?thesis
      unfolding r using i True sch opaque
      by (auto intro!: ok_plain ok_advance_plain [where c = "CHR ''/''"]
          simp: in_input_def s'_def state_inv_def is_special_def
          split: option.splits)
  qed
qed

lemma scheme_step_ok:
  assumes "env_ok env" "parser_inv env s" "st s = Scheme"
  shows "ok_step env (scheme_step env (current env s) s)"
proof -
  let ?c = "current env s"
  from assms have i: "in_input env s" "scheme_points (buffer s)" "origin_ok env s"
    by (simp_all add: parser_inv_def state_inv_def)
  consider (char) "is_alpha ?c \<or> is_digit ?c \<or> is_char ?c (CHR ''+'') \<or> is_char ?c (CHR ''-'') \<or> is_char ?c (CHR ''.'')"
    | (colon) "is_char ?c (CHR '':'')"
      "\<not> (is_alpha ?c \<or> is_digit ?c \<or> is_char ?c (CHR ''+'') \<or> is_char ?c (CHR ''-'') \<or> is_char ?c (CHR ''.''))"
    | (other) "\<not> is_char ?c (CHR '':'')"
      "\<not> (is_alpha ?c \<or> is_digit ?c \<or> is_char ?c (CHR ''+'') \<or> is_char ?c (CHR ''-'') \<or> is_char ?c (CHR ''.''))"
    by blast
  then show ?thesis
  proof cases
    case char
    then have "?c \<noteq> eof" by (auto simp: is_alpha_def is_digit_def is_char_def eof_def)
    then have "pointer s \<noteq> int (length (input env))" using current_eof [OF i(1) assms(1)] by simp
    moreover have "scheme_char (lower ?c)"
      using char by (auto simp: scheme_char_def is_alpha_def is_digit_def is_char_def lower_def)
    then have "scheme_points (buffer s @ [lower ?c])" using i(2) by (auto simp: scheme_points_def)
    ultimately show ?thesis
      using char i assms(3) unfolding scheme_step_def
      by (auto intro!: ok_plain simp: in_input_def state_inv_def origin_ok_def)
  next
    case colon
    then have "?c \<noteq> eof" by (simp add: is_char_def eof_def)
    then have "pointer s < int (length (input env))"
      using current_eof [OF i(1) assms(1)] i(1) by (simp add: in_input_def)
    with colon show ?thesis
      using scheme_end_ok [OF assms(1) i(1) _ i(2,3)] by (simp add: scheme_step_def)
  next
    case other
    then show ?thesis
      using i by (auto simp: scheme_step_def origin_ok_def ok_step_def parser_inv_def state_inv_def in_input_def)
  qed
qed

lemma retreat_ok:
  assumes "in_input env s" "state_inv env s"
  shows "ok_step env (Next (retreat s))"
  using assms by (intro ok_retreat) (simp add: parser_inv_def)

lemma env_base: "env_ok env \<Longrightarrow> base env = Some b \<Longrightarrow> record_ok b"
  by (simp add: env_ok_def)

lemma copy_record [simp]:
  "u\<lparr>scheme := scheme b, username := username b, password := password b, host := host b, port := port b,
     path := path b, opaque_path := opaque_path b, query := query b\<rparr> = b\<lparr>fragment := fragment u\<rparr>"
  for u b :: url_record
  by (cases u, cases b) simp

lemma special_update [simp]:
  "is_special (u\<lparr>path := ps\<rparr>) = is_special u" "is_special (u\<lparr>query := q\<rparr>) = is_special u"
  "is_special (u\<lparr>fragment := f\<rparr>) = is_special u" "is_special (u\<lparr>host := h\<rparr>) = is_special u"
  "is_special (u\<lparr>port := v\<rparr>) = is_special u" "is_special (u\<lparr>username := t\<rparr>) = is_special u"
  "is_special (u\<lparr>password := t\<rparr>) = is_special u" "is_special (u\<lparr>opaque_path := opq\<rparr>) = is_special u"
  "is_special (fresh sch) = special_scheme sch"
  by (simp_all add: is_special_def)

lemma credentials_update [simp]:
  "has_credentials (u\<lparr>path := ps\<rparr>) = has_credentials u" "has_credentials (u\<lparr>query := q\<rparr>) = has_credentials u"
  "has_credentials (u\<lparr>fragment := f\<rparr>) = has_credentials u" "has_credentials (u\<lparr>host := h\<rparr>) = has_credentials u"
  "has_credentials (u\<lparr>port := v\<rparr>) = has_credentials u"
  "no_host (u\<lparr>path := ps\<rparr>) = no_host u" "no_host (u\<lparr>query := q\<rparr>) = no_host u"
  "no_host (u\<lparr>fragment := f\<rparr>) = no_host u" "no_host (u\<lparr>port := v\<rparr>) = no_host u"
  "query_set (u\<lparr>path := ps\<rparr>) = query_set u" "query_set (u\<lparr>query := q\<rparr>) = query_set u"
  "query_set (u\<lparr>fragment := f\<rparr>) = query_set u" "query_set (u\<lparr>host := h\<rparr>) = query_set u"
  "query_set (u\<lparr>port := v\<rparr>) = query_set u"
  by (simp_all add: has_credentials_def no_host_def query_set_def)

lemma parts_fragment: "text_ok Fragment f \<Longrightarrow> parts_ok u \<Longrightarrow> parts_ok (u\<lparr>fragment := Some f\<rparr>)"
  by (simp add: parts_ok_def path_ok_def)

lemma parts_no_fragment: "parts_ok u \<Longrightarrow> parts_ok (u\<lparr>fragment := None\<rparr>)"
  by (simp add: parts_ok_def path_ok_def)

lemma parts_query:
  "(\<forall>t. q = Some t \<longrightarrow> text_ok (query_set u) t) \<Longrightarrow> parts_ok u \<Longrightarrow> parts_ok (u\<lparr>query := q\<rparr>)"
  by (simp add: parts_ok_def path_ok_def)

lemma record_fragment: "text_ok Fragment f \<Longrightarrow> record_ok u \<Longrightarrow> record_ok (u\<lparr>fragment := Some f\<rparr>)"
  by (simp add: record_ok_def parts_fragment)

lemma record_no_fragment: "record_ok u \<Longrightarrow> record_ok (u\<lparr>fragment := None\<rparr>)"
  by (simp add: record_ok_def parts_no_fragment)

lemma record_query:
  "(\<forall>t. q = Some t \<longrightarrow> text_ok (query_set u) t) \<Longrightarrow> record_ok u \<Longrightarrow> record_ok (u\<lparr>query := q\<rparr>)"
  by (simp add: record_ok_def parts_query)

lemma parts_path:
  "parts_ok u \<Longrightarrow> \<not> opaque_path u \<Longrightarrow> \<forall>seg \<in> set ps. segment_ok (is_special u) seg \<Longrightarrow>
     parts_ok (u\<lparr>path := ps\<rparr>)"
  by (simp add: parts_ok_def path_ok_def)

lemma segments: "parts_ok u \<Longrightarrow> \<not> opaque_path u \<Longrightarrow> seg \<in> set (path u) \<Longrightarrow> segment_ok (is_special u) seg"
  by (simp add: parts_ok_def path_ok_def)

lemma parts_shorten: "parts_ok u \<Longrightarrow> \<not> opaque_path u \<Longrightarrow> parts_ok (shorten_path u)"
  by (auto simp: shorten_path_def intro!: parts_path dest: segments in_set_butlastD)

lemma shorten_simps [simp]:
  "opaque_path (shorten_path u) = opaque_path u" "is_special (shorten_path u) = is_special u"
  "query (shorten_path u) = query u" "fragment (shorten_path u) = fragment u"
  "host (shorten_path u) = host u" "scheme (shorten_path u) = scheme u"
  by (simp_all add: shorten_path_def)

lemma no_scheme_ok:
  assumes "env_ok env" "parser_inv env s" "st s = No_scheme"
  shows "ok_step env (no_scheme_step env (current env s) s)"
proof -
  let ?c = "current env s"
  from assms have i: "in_input env s" "no_override env" "buffer s = []" "url s = empty_url"
    by (simp_all add: parser_inv_def state_inv_def)
  show ?thesis
  proof (cases "base env")
    case None
    then show ?thesis using i by (simp add: no_scheme_step_def ok_step_def)
  next
    case (Some b)
    note b = env_base [OF assms(1) Some]
    consider (fail) "opaque_path b" "\<not> is_char ?c (CHR ''#'')" | (frag) "opaque_path b" "is_char ?c (CHR ''#'')"
      | (rel) "\<not> opaque_path b" "scheme b \<noteq> ''file''" | (local) "\<not> opaque_path b" "scheme b = ''file''"
      by blast
    then show ?thesis
    proof cases
      case fail
      then show ?thesis using i Some by (simp add: no_scheme_step_def ok_step_def)
    next
      case frag
      then have none: "username b = []" "password b = []" "host b = None" "port b = None"
        using b by (auto simp: record_ok_def parts_ok_def path_ok_def no_host_def has_credentials_def)
      have "empty_url\<lparr>scheme := scheme b, path := path b, opaque_path := True, query := query b, fragment := Some []\<rparr>
          = b\<lparr>fragment := Some []\<rparr>"
        using none frag by (simp add: empty_url_def)
      moreover have "record_ok (b\<lparr>fragment := Some []\<rparr>)" using b by (intro record_fragment) simp_all
      moreover have "?c \<noteq> eof" using frag by (auto simp: is_char_def eof_def)
      then have "pointer s \<noteq> int (length (input env))" using current_eof [OF i(1) assms(1)] by simp
      ultimately show ?thesis
        using i Some frag by (auto simp: no_scheme_step_def in_input_def state_inv_def intro!: ok_plain)
    next
      case rel
      then show ?thesis using i Some
        by (auto simp: no_scheme_step_def in_input_def state_inv_def intro!: retreat_ok)
    next
      case local
      then show ?thesis using i Some
        by (auto simp: no_scheme_step_def in_input_def state_inv_def intro!: retreat_ok)
    qed
  qed
qed

text \<open>What a copy of the base, with or without its query, is.\<close>

lemma base_copy_ok:
  assumes "record_ok b"
  shows "record_ok (b\<lparr>fragment := None\<rparr>)" "record_ok (b\<lparr>query := Some [], fragment := None\<rparr>)"
    "record_ok (b\<lparr>query := q, fragment := Some []\<rparr>) \<longleftrightarrow> record_ok (b\<lparr>query := q, fragment := None\<rparr>)"
    "parts_ok (b\<lparr>query := None, fragment := None\<rparr>)" "record_ok (b\<lparr>fragment := Some []\<rparr>)"
proof -
  show "record_ok (b\<lparr>fragment := None\<rparr>)" using assms by (rule record_no_fragment)
  have q: "record_ok (b\<lparr>query := Some []\<rparr>)" "record_ok (b\<lparr>query := None\<rparr>)"
    using assms by (auto intro!: record_query)
  from record_no_fragment [OF q(1)] show "record_ok (b\<lparr>query := Some [], fragment := None\<rparr>)" by simp
  from record_no_fragment [OF q(2)] show "parts_ok (b\<lparr>query := None, fragment := None\<rparr>)"
    by (simp add: record_ok_def)
  show "record_ok (b\<lparr>fragment := Some []\<rparr>)" using assms by (intro record_fragment) simp_all
  have "record_ok (w\<lparr>fragment := Some []\<rparr>) \<longleftrightarrow> record_ok (w\<lparr>fragment := None\<rparr>)" for w
    using record_fragment [of "[]" "w\<lparr>fragment := None\<rparr>"] record_no_fragment [of "w\<lparr>fragment := Some []\<rparr>"]
    by auto
  from this [of "b\<lparr>query := q\<rparr>"]
  show "record_ok (b\<lparr>query := q, fragment := Some []\<rparr>) \<longleftrightarrow> record_ok (b\<lparr>query := q, fragment := None\<rparr>)"
    by simp
qed

lemma relative_ok:
  assumes "env_ok env" "parser_inv env s" "st s = Relative"
  shows "ok_step env (relative_step env (current env s) s)"
proof -
  let ?c = "current env s"
  from assms obtain b where i: "in_input env s" "no_override env" "buffer s = []" "base env = Some b"
    "scheme b \<noteq> ''file''" "\<not> opaque_path b" "url s = empty_url \<or> url s = fresh (scheme b)"
    by (auto simp: parser_inv_def state_inv_def)
  note b = env_base [OF assms(1) i(4)]
  note end_of_input = current_eof [OF i(1) assms(1)]
  have u: "(url s)\<lparr>scheme := scheme b\<rparr> = fresh (scheme b)"
    using i(7) by (auto simp: fresh_def)
  have copy: "(fresh (scheme b))\<lparr>username := username b, password := password b, host := host b,
      port := port b, path := path b, opaque_path := opaque_path b, query := q\<rparr>
      = b\<lparr>query := q, fragment := None\<rparr>" for q
    by (cases b) (simp add: fresh_def empty_url_def)
  have comm: "b\<lparr>fragment := None, query := None\<rparr> = b\<lparr>query := None, fragment := None\<rparr>" by (cases b) simp
  have same: "b\<lparr>query := query b, fragment := None\<rparr> = b\<lparr>fragment := None\<rparr>" by (cases b) simp
  have step: "relative_step env ?c s =
      (if slash ?c \<or> is_special b \<and> backslash ?c then Next (goto Relative_slash (s\<lparr>url := fresh (scheme b)\<rparr>))
       else if is_char ?c (CHR ''?'') then Next (s\<lparr>st := Query_state, url := b\<lparr>query := Some [], fragment := None\<rparr>\<rparr>)
       else if is_char ?c (CHR ''#'') then Next (s\<lparr>st := Fragment_state, url := b\<lparr>fragment := Some []\<rparr>\<rparr>)
       else if ?c \<noteq> eof
       then Next (retreat (goto Path_state (s\<lparr>url := shorten_path (b\<lparr>query := None, fragment := None\<rparr>)\<rparr>)))
       else Next (s\<lparr>url := b\<lparr>fragment := None\<rparr>\<rparr>))"
    using i(4) u
    by (simp add: relative_step_def Let_def start_query_def start_fragment_def is_special_def [of b] copy same comm)
  have "?c \<noteq> eof" if "slash ?c \<or> is_char ?c (CHR ''?'') \<or> is_char ?c (CHR ''#'') \<or> backslash ?c"
    using that by (auto simp: is_char_def eof_def)
  then have no: "slash ?c \<or> is_char ?c (CHR ''?'') \<or> is_char ?c (CHR ''#'') \<or> backslash ?c \<Longrightarrow>
      pointer s \<noteq> int (length (input env))"
    using end_of_input by auto
  have "parts_ok (shorten_path (b\<lparr>query := None, fragment := None\<rparr>))"
    using base_copy_ok(4) [OF b] i(6) by (intro parts_shorten) simp_all
  then have rest: "ok_step env (Next (retreat (goto Path_state
      (s\<lparr>url := shorten_path (b\<lparr>query := None, fragment := None\<rparr>)\<rparr>))))"
    using i by (intro retreat_ok) (simp_all add: in_input_def state_inv_def)
  have slashes: "ok_step env (Next (goto Relative_slash (s\<lparr>url := fresh (scheme b)\<rparr>)))"
    if "slash ?c \<or> backslash ?c"
    using i no that by (intro ok_plain) (auto simp: in_input_def state_inv_def)
  have q: "ok_step env (Next (s\<lparr>st := Query_state, url := b\<lparr>query := Some [], fragment := None\<rparr>\<rparr>))"
    using i base_copy_ok(2) [OF b] by (intro ok_plain) (simp_all add: in_input_def state_inv_def)
  have f: "ok_step env (Next (s\<lparr>st := Fragment_state, url := b\<lparr>fragment := Some []\<rparr>\<rparr>))"
    using i base_copy_ok(5) [OF b] by (intro ok_plain) (simp_all add: in_input_def state_inv_def)
  have e: "ok_step env (Next (s\<lparr>url := b\<lparr>fragment := None\<rparr>\<rparr>))" if "?c = eof"
    using i that end_of_input base_copy_ok(1) [OF b] assms(3)
    by (intro ok_plain) (simp_all add: in_input_def)
  show ?thesis
    unfolding step using rest slashes q f e by (simp split: if_splits)
qed

lemma special_relative_ok:
  assumes "env_ok env" "parser_inv env s" "st s = Special_relative_or_authority"
  shows "ok_step env (special_relative_or_authority_step env (current env s) s)"
proof -
  from assms obtain b where i: "in_input env s" "no_override env" "buffer s = []" "base env = Some b"
    "is_special b" "scheme b \<noteq> ''file''" "url s = fresh (scheme b)"
    by (auto simp: parser_inv_def state_inv_def)
  have b: "record_ok b" using env_base [OF assms(1) i(4)] .
  then have "\<not> opaque_path b" "scheme_ok (scheme b)"
    using i(5) by (auto simp: record_ok_def parts_ok_def path_ok_def)
  moreover have "special_scheme (scheme b)" using i(5) by (simp add: is_special_def)
  ultimately show ?thesis
    unfolding special_relative_or_authority_step_def using i
    by (auto intro!: ok_advance_plain [where c = "CHR ''/''"] retreat_ok simp: in_input_def state_inv_def)
qed

lemma path_or_authority_ok:
  assumes "env_ok env" "parser_inv env s" "st s = Path_or_authority"
  shows "ok_step env (path_or_authority_step (current env s) s)"
proof -
  from assms obtain sch where i: "in_input env s" "no_override env" "buffer s = []"
    "url s = fresh sch" "scheme_ok sch" "\<not> special_scheme sch"
    by (auto simp: parser_inv_def state_inv_def)
  have no: "slash (current env s) \<Longrightarrow> pointer s \<noteq> int (length (input env))"
    using current_eof [OF i(1) assms(1)] by (auto simp: is_char_def eof_def)
  have "authority_url (fresh sch)"
    unfolding authority_url_def using i(5,6) special_file
    by (intro exI [of _ sch] exI [of _ "[]"]) (auto simp: fresh_def empty_url_def)
  moreover have "parts_ok (fresh sch)" using i(5,6)
    by (simp add: parts_ok_def path_ok_def no_host_def has_credentials_def)
  ultimately show ?thesis
    unfolding path_or_authority_step_def using i no
    by (auto intro!: ok_next retreat_ok simp: in_input_def state_inv_def buffer_at_def has_credentials_def)
qed

lemma fresh_authority: "scheme_ok sch \<Longrightarrow> sch \<noteq> ''file'' \<Longrightarrow> authority_url (fresh sch)"
  unfolding authority_url_def
  by (intro exI [of _ sch] exI [of _ "[]"]) (auto simp: fresh_def empty_url_def)

lemma relative_slash_ok:
  assumes "env_ok env" "parser_inv env s" "st s = Relative_slash"
  shows "ok_step env (relative_slash_step env (current env s) s)"
proof -
  let ?c = "current env s"
  from assms obtain b where i: "in_input env s" "no_override env" "buffer s = []" "base env = Some b"
    "scheme b \<noteq> ''file''" "\<not> opaque_path b" "url s = fresh (scheme b)"
    by (auto simp: parser_inv_def state_inv_def)
  have b: "parts_ok b" "scheme_ok (scheme b)"
    using env_base [OF assms(1) i(4)] by (auto simp: record_ok_def parts_ok_def)
  have "?c \<noteq> eof" if "slash ?c \<or> backslash ?c" using that by (auto simp: is_char_def eof_def)
  then have no: "slash ?c \<or> backslash ?c \<Longrightarrow> pointer s \<noteq> int (length (input env))"
    using current_eof [OF i(1) assms(1)] by auto
  have copy: "(fresh (scheme b))\<lparr>username := username b, password := password b, host := host b, port := port b\<rparr>
      = b\<lparr>path := [], query := None, fragment := None\<rparr>"
    using i(6) by (cases b) (simp add: fresh_def empty_url_def)
  have "parts_ok (b\<lparr>path := [], query := None, fragment := None\<rparr>)"
    using b(1) i(6) by (intro parts_no_fragment parts_query parts_path) simp_all
  with b i no fresh_authority [OF b(2) i(5)] show ?thesis
    unfolding relative_slash_step_def
    by (auto intro!: ok_plain ok_next retreat_ok
        simp: in_input_def state_inv_def buffer_at_def has_credentials_def copy)
qed

lemma special_slashes_ok:
  assumes "env_ok env" "parser_inv env s" "st s = Special_authority_slashes"
  shows "ok_step env (special_authority_slashes_step env (current env s) s)"
  using assms unfolding special_authority_slashes_step_def parser_inv_def
  by (auto intro!: ok_advance_plain [where c = "CHR ''/''"] retreat_ok simp: in_input_def state_inv_def)

lemma ignore_slashes_ok:
  assumes "env_ok env" "parser_inv env s" "st s = Special_authority_ignore_slashes"
  shows "ok_step env (ignore_slashes_step (current env s) s)"
proof -
  let ?c = "current env s"
  from assms obtain sch where i: "in_input env s" "no_override env" "buffer s = []"
    "url s = fresh sch" "scheme_ok sch" "special_scheme sch" "sch \<noteq> ''file''"
    by (auto simp: parser_inv_def state_inv_def)
  have "?c \<noteq> eof" if "slash ?c \<or> backslash ?c" using that by (auto simp: is_char_def eof_def)
  then have "slash ?c \<or> backslash ?c \<Longrightarrow> pointer s \<noteq> int (length (input env))"
    using current_eof [OF i(1) assms(1)] by auto
  with i assms(3) fresh_authority [OF i(5,7)] show ?thesis
    unfolding ignore_slashes_step_def
    by (auto intro!: ok_plain retreat_ok simp: in_input_def state_inv_def buffer_at_def has_credentials_def)
qed

text \<open>Credentials.\<close>

lemma add_credentials_url:
  assumes "authority_url (url s)"
  shows "authority_url (url (fold add_credential cs s))"
  using assms
proof (induction cs arbitrary: s)
  case (Cons c cs)
  obtain sch us pw where u: "url s = (fresh sch)\<lparr>username := us, password := pw\<rparr>" "scheme_ok sch"
    "sch \<noteq> ''file''" "text_ok Userinfo us" "text_ok Userinfo pw"
    using Cons.prems by (auto simp: authority_url_def)
  have "authority_url ((fresh sch)\<lparr>username := t, password := p\<rparr>)"
    if "text_ok Userinfo t" "text_ok Userinfo p" for t p
    using that u unfolding authority_url_def by blast
  from this [of us "percent_encode_point pw c Userinfo"] this [of "percent_encode_point us c Userinfo" pw]
  have "authority_url (url (add_credential c s))"
    using u Cons.prems percent_encode_point_ok [of Userinfo]
    by (simp add: add_credential_def) (simp add: fresh_def empty_url_def)
  with Cons.IH show ?case by simp
qed simp

lemma authority_special: "url t = (fresh sch)\<lparr>username := us, password := pw\<rparr> \<Longrightarrow> is_special (url t) = special_scheme sch"
  by simp

lemma authority_ok:
  assumes "env_ok env" "parser_inv env s" "st s = Authority"
  shows "ok_step env (authority_step (current env s) (is_special (url s)) s)"
proof -
  let ?c = "current env s" and ?n = "int (length (input env))"
  from assms have i: "in_input env s" "no_override env" "authority_url (url s)" "buffer_at env s"
    "at_sign_seen s \<or> \<not> has_credentials (url s)"
    by (auto simp: parser_inv_def state_inv_def)
  note end_of_input = current_eof [OF i(1) assms(1)]
  show ?thesis
  proof (cases "is_char ?c (CHR ''@'')")
    case True
    define cs where "cs = (if at_sign_seen s then map byte ''%40'' @ buffer s else buffer s)"
    define s' where "s' = (fold add_credential cs (s\<lparr>at_sign_seen := True\<rparr>))\<lparr>buffer := []\<rparr>"
    have r: "authority_step ?c (is_special (url s)) s = Next s'"
      using True by (simp add: authority_step_def s'_def cs_def Let_def)
    have "pointer s \<noteq> ?n" using True end_of_input by (auto simp: is_char_def eof_def)
    then have "pointer s' < ?n" "0 \<le> pointer s'" using i(1) by (auto simp: s'_def in_input_def)
    moreover have "authority_url (url s')"
      using add_credentials_url [of "s\<lparr>at_sign_seen := True\<rparr>" cs] i(3) by (simp add: s'_def)
    moreover have "st s' = Authority" "buffer s' = []" "at_sign_seen s'"
      using assms(3) by (simp_all add: s'_def)
    ultimately show ?thesis
      using i(2) unfolding r
      by (intro ok_next) (simp_all add: in_input_def state_inv_def buffer_at_def)
  next
    case False
    show ?thesis
    proof (cases "ends_authority (is_special (url s)) ?c")
      case ends: True
      show ?thesis
      proof (cases "at_sign_seen s \<and> buffer s = []")
        case True
        with False ends i(2) show ?thesis by (simp add: authority_step_def ok_step_def)
      next
        case more: False
        define s' where "s' = s\<lparr>pointer := pointer s - (int (length (buffer s)) + 1), buffer := [], st := Host\<rparr>"
        have r: "authority_step ?c (is_special (url s)) s = Next s'"
          using False ends more by (simp add: authority_step_def s'_def)
        have len: "int (length (buffer s)) \<le> pointer s" using i(4) by (simp add: buffer_at_def)
        have "\<not> ends_authority (is_special (url s)) (current env (advance s'))" if "at_sign_seen s"
        proof -
          from that more have ne: "buffer s \<noteq> []" by simp
          have p: "pointer s' + 1 = pointer s - int (length (buffer s))" by (simp add: s'_def)
          have "nat (pointer s - int (length (buffer s))) = nat (pointer s) - length (buffer s)"
            using len by (simp add: nat_diff_distrib)
          moreover have "input env ! (nat (pointer s) - length (buffer s) + 0) = buffer s ! 0"
            using i(4) ne unfolding buffer_at_def by blast
          moreover have "0 < int (length (buffer s))" using ne by simp
          then have "pointer s - int (length (buffer s)) < ?n" using i(1) unfolding in_input_def by linarith
          ultimately have "current env (advance s') = buffer s ! 0"
            using len i(1) by (simp add: current_def p in_input_def)
          moreover have "buffer s ! 0 \<in> set (buffer s)" using ne by (intro nth_mem) simp
          ultimately show ?thesis using i(4) by (simp add: buffer_at_def)
        qed
        then have "state_inv env (advance s')"
          using i by (auto simp: state_inv_def s'_def)
        moreover have "pointer s' < ?n" using len i(1) by (simp add: s'_def in_input_def)
        ultimately show ?thesis
          unfolding r using len i(1) by (simp add: ok_step_def parser_inv_def in_input_def) (simp add: s'_def)
      qed
    next
      case cont: False
      define s' where "s' = s\<lparr>buffer := buffer s @ [?c]\<rparr>"
      have r: "authority_step ?c (is_special (url s)) s = Next s'"
        using False cont by (simp add: authority_step_def s'_def)
      have "?c \<noteq> eof" using cont by (auto simp: ends_authority_def)
      then have lt: "pointer s < ?n" using end_of_input i(1) by (simp add: in_input_def)
      have len: "int (length (buffer s)) \<le> pointer s" "\<forall>k < length (buffer s).
          input env ! (nat (pointer s) - length (buffer s) + k) = buffer s ! k"
        "\<forall>c \<in> set (buffer s). \<not> ends_authority (is_special (url s)) c"
        using i(4) by (simp_all add: buffer_at_def)
      have c: "?c = input env ! nat (pointer s)" using lt i(1) by (simp add: current_def in_input_def)
      have "length (buffer s) \<le> nat (pointer s)" using len(1) by simp
      moreover have "nat (pointer s + 1) = nat (pointer s) + 1" using i(1) by (simp add: in_input_def nat_add_distrib)
      ultimately have "buffer_at env (advance s')"
        using len c cont by (auto simp: buffer_at_def s'_def nth_append less_Suc_eq)
      then have "state_inv env (advance s')"
        using i assms(3) by (simp add: state_inv_def) (simp add: s'_def)
      with lt i(1) show ?thesis
        unfolding r by (intro ok_next) (simp_all add: s'_def in_input_def)
    qed
  qed
qed

text \<open>A host goes into a record that is being made, or into a good one.\<close>

lemma authority_host:
  assumes "authority_url u" "host_text h" "h = [] \<longrightarrow> \<not> has_credentials u \<and> \<not> is_special u"
  shows "parts_ok (u\<lparr>host := Some h\<rparr>)" "path u = []" "\<not> opaque_path u" "scheme u \<noteq> ''file''"
proof -
  obtain sch us pw where u: "u = (fresh sch)\<lparr>username := us, password := pw\<rparr>" "scheme_ok sch"
    "sch \<noteq> ''file''" "text_ok Userinfo us" "text_ok Userinfo pw"
    using assms(1) by (auto simp: authority_url_def)
  show "path u = []" "\<not> opaque_path u" "scheme u \<noteq> ''file''" using u by simp_all
  show "parts_ok (u\<lparr>host := Some h\<rparr>)"
    using u assms(2,3) by (auto simp: parts_ok_def path_ok_def no_host_def has_credentials_def)
qed

lemma set_host_ok:
  assumes "record_ok u" "\<not> opaque_path u" "host_text h"
    "h = [] \<longrightarrow> (is_special u \<longrightarrow> scheme u = ''file'') \<and> \<not> has_credentials u \<and> port u = None"
  shows "record_ok (u\<lparr>host := Some h\<rparr>)"
  using assms by (auto simp: record_ok_def parts_ok_def path_ok_def no_host_def)

lemma host_state_ok:
  assumes "env_ok env" "parser_inv env s" "st s = Host \<or> st s = Hostname"
  shows "ok_step env (host_step env (current env s) (is_special (url s)) s)"
proof -
  let ?c = "current env s" and ?n = "int (length (input env))" and ?special = "is_special (url s)"
  have i: "in_input env s" "if no_override env
      then authority_url (url s) \<and> (at_sign_seen s \<or> \<not> has_credentials (url s))
        \<and> (buffer s = [] \<and> at_sign_seen s \<longrightarrow> \<not> ends_authority ?special ?c)
      else record_ok (url s) \<and> \<not> opaque_path (url s)"
    using assms(2,3) by (auto simp: parser_inv_def state_inv_def)
  note end_of_input = current_eof [OF i(1) assms(1)]
  have lt: "?c \<noteq> eof \<Longrightarrow> pointer s < ?n" using end_of_input i(1) by (simp add: in_input_def)
  define r where "r = parse_host (tables env) (buffer s) (\<not> ?special)"
  have D: "tables_points (tables env)" using assms(1) by (simp add: env_ok_def)
  have r: "r \<noteq> Fault" "\<And>h. r = Value h \<Longrightarrow> host_text h \<and> (h = [] \<longrightarrow> buffer s = [] \<and> \<not> ?special)"
    using parse_host_answers [OF D, of "buffer s" "\<not> ?special"]
      parse_host_nonempty [OF D, of "buffer s" "\<not> ?special"] by (auto simp: r_def)
  consider (local) "\<not> no_override env" "scheme (url s) = ''file''"
    | (colon) "no_override env \<or> scheme (url s) \<noteq> ''file''" "is_char ?c (CHR '':'')" "\<not> inside_brackets s"
    | (ends) "no_override env \<or> scheme (url s) \<noteq> ''file''" "\<not> (is_char ?c (CHR '':'') \<and> \<not> inside_brackets s)"
        "ends_authority ?special ?c"
    | (char) "no_override env \<or> scheme (url s) \<noteq> ''file''" "\<not> (is_char ?c (CHR '':'') \<and> \<not> inside_brackets s)"
        "\<not> ends_authority ?special ?c" by argo
  then show ?thesis
  proof cases
    case local
    then show ?thesis
      using i by (auto simp: host_step_def in_input_def state_inv_def intro!: retreat_ok)
  next
    case colon
    then have "?c \<noteq> eof" by (auto simp: is_char_def eof_def)
    then have "pointer s < ?n" by (rule lt)
    show ?thesis
    proof (cases "buffer s = [] \<or> override env = Some Hostname \<or> r = Failure")
      case True
      with colon i(2) show ?thesis
        by (auto simp: host_step_def ok_step_def r_def [symmetric] split: if_splits)
    next
      case False
      then obtain h where h: "r = Value h" "host_text h" "h \<noteq> []"
        using r by (cases r) auto
      define s' where "s' = goto Port (on_url (\<lambda>u. u\<lparr>host := Some h\<rparr>) (s\<lparr>buffer := []\<rparr>))"
      have "host_step env ?c ?special s = Next s'"
        using colon False h(1) by (auto simp: host_step_def s'_def r_def)
      moreover have "state_inv env s'"
        using i(2) h authority_host [of "url s" h] set_host_ok [of "url s" h] colon(1)
        by (auto simp: state_inv_def s'_def no_host_def record_ok_def split: if_splits)
      ultimately show ?thesis
        using \<open>pointer s < ?n\<close> i(1) by (auto intro!: ok_plain simp: s'_def in_input_def)
    qed
  next
    case ends
    show ?thesis
    proof (cases "?special \<and> buffer s = [] \<or> (\<not> no_override env \<and> buffer s = []
        \<and> (has_credentials (url s) \<or> port (url s) \<noteq> None)) \<or> r = Failure")
      case True
      with ends i(2) show ?thesis
        by (auto simp: host_step_def ok_step_def r_def [symmetric] split: if_splits)
    next
      case False
      then obtain h where h: "r = Value h" "host_text h" "h = [] \<longrightarrow> buffer s = [] \<and> \<not> ?special"
        using r by (cases r) auto
      have step: "host_step env ?c ?special s =
          (if no_override env then Next (retreat (goto Path_start (on_url (\<lambda>u. u\<lparr>host := Some h\<rparr>) (s\<lparr>buffer := []\<rparr>))))
           else Return True ((url s)\<lparr>host := Some h\<rparr>))"
      proof -
        have c: "\<not> (\<not> no_override env \<and> scheme (url s) = ''file'')" using ends(1) by argo
        have f: "\<not> (?special \<and> buffer s = [])" "\<not> (\<not> no_override env \<and> buffer s = []
          \<and> (has_credentials (url s) \<or> port (url s) \<noteq> None))" using False by argo+
        have v: "parse_host (tables env) (buffer s) (\<not> ?special) = Value h" using h(1) by (simp add: r_def)
        show ?thesis
          unfolding host_step_def Let_def
          by (simp only: c f v ends(2,3) if_False if_True outcome.case) (simp add: retreat_def)
      qed
      show ?thesis
      proof (cases "no_override env")
        case True
        have "h = [] \<longrightarrow> \<not> has_credentials (url s) \<and> \<not> ?special"
          using h(3) i(2) True ends(3) by auto
        from authority_host [OF _ h(2) this] i(2) True
        show ?thesis unfolding step using i(1)
          by (auto intro!: retreat_ok simp: state_inv_def in_input_def)
      next
        case ov: False
        have "record_ok ((url s)\<lparr>host := Some h\<rparr>)"
          using ov i(2) h False by (intro set_host_ok) auto
        with ov show ?thesis unfolding step by (auto simp: ok_step_def)
      qed
    qed
  next
    case char
    then have "?c \<noteq> eof" by (auto simp: ends_authority_def)
    then have "pointer s < ?n" by (rule lt)
    define s' where "s' = s\<lparr>inside_brackets :=
        (if is_char ?c (CHR '']'') then False else if is_char ?c (CHR ''['') then True else inside_brackets s),
      buffer := buffer s @ [?c]\<rparr>"
    have "host_step env ?c ?special s = Next s'"
    proof -
      have "\<not> (\<not> no_override env \<and> scheme (url s) = ''file'')" using char(1) by argo
      then show ?thesis
        unfolding host_step_def s'_def by (simp only: char(2,3) if_False)
    qed
    moreover have s': "st s' = st s" "url s' = url s" "buffer s' \<noteq> []" "pointer s' = pointer s"
        "at_sign_seen s' = at_sign_seen s" by (simp_all add: s'_def)
    have "state_inv env (advance s')"
      using assms(3) i(2) s' by (auto simp: state_inv_def)
    ultimately show ?thesis
      using \<open>pointer s < ?n\<close> i(1) s' by (auto intro!: ok_next simp: in_input_def)
  qed
qed

lemma port_bound:
  "port_value ds \<le> 65535 \<Longrightarrow> port_value ds < 2 ^ 16"
  by simp

lemma set_port_ok:
  assumes "parts_ok u" "\<not> no_host u" "scheme u \<noteq> ''file''" "v < 2 ^ 16"
  shows "parts_ok (u\<lparr>port := if default_port (scheme u) = Some v then None else Some v\<rparr>)"
  using assms by (simp add: parts_ok_def path_ok_def)

lemma port_state_ok:
  assumes "env_ok env" "parser_inv env s" "st s = Port"
  shows "ok_step env (port_step env (current env s) (is_special (url s)) s)"
proof -
  let ?c = "current env s" and ?n = "int (length (input env))"
  from assms have i: "in_input env s" "\<forall>c \<in> set (buffer s). is_digit c" "\<not> no_host (url s)"
    "scheme (url s) \<noteq> ''file''" "parts_ok (url s)"
    "if no_override env then path (url s) = [] else record_ok (url s)"
    by (auto simp: parser_inv_def state_inv_def)
  have opq: "\<not> opaque_path (url s)"
    using i(3,5) by (auto simp: parts_ok_def path_ok_def no_host_def split: if_splits)
  consider (digit) "is_digit ?c"
    | (fail) "\<not> is_digit ?c" "ends_authority (is_special (url s)) ?c \<or> \<not> no_override env"
        "buffer s \<noteq> [] \<and> port_value (buffer s) > 65535"
    | (empty) "\<not> is_digit ?c" "ends_authority (is_special (url s)) ?c \<or> \<not> no_override env" "buffer s = []"
    | (ends) "\<not> is_digit ?c" "ends_authority (is_special (url s)) ?c \<or> \<not> no_override env" "buffer s \<noteq> []"
        "port_value (buffer s) \<le> 65535"
    | (bad) "\<not> is_digit ?c" "\<not> (ends_authority (is_special (url s)) ?c \<or> \<not> no_override env)"
    by linarith
  then show ?thesis
  proof cases
    case digit
    then have "?c \<noteq> eof" by (auto simp: is_digit_def eof_def)
    then have "pointer s < ?n" using current_eof [OF i(1) assms(1)] i(1) by (simp add: in_input_def)
    with digit i assms(3) show ?thesis
      unfolding port_step_def by (auto intro!: ok_plain simp: in_input_def state_inv_def)
  next
    case fail
    with i(6) show ?thesis by (auto simp: port_step_def ok_step_def)
  next
    case empty
    show ?thesis
    proof (cases "no_override env")
      case True
      with empty have "port_step env ?c (is_special (url s)) s = Next (retreat (goto Path_start s))"
        by (auto simp: port_step_def Let_def)
      with True i opq empty(3) show ?thesis by (auto intro!: retreat_ok simp: in_input_def state_inv_def)
    next
      case False
      with empty i(6) show ?thesis by (simp add: port_step_def ok_step_def Let_def)
    qed
  next
    case ends
    define u where "u = (url s)\<lparr>port := if default_port (scheme (url s)) = Some (port_value (buffer s))
      then None else Some (port_value (buffer s))\<rparr>"
    have "parts_ok u" unfolding u_def using i port_bound [OF ends(4)] by (intro set_port_ok)
    moreover have "is_special u = is_special (url s)" "path u = path (url s)" "\<not> opaque_path u"
      using opq by (simp_all add: u_def is_special_def)
    moreover have "port_step env ?c (is_special (url s)) s =
        (if no_override env then Next (retreat (goto Path_start (s\<lparr>url := u, buffer := []\<rparr>))) else Return True u)"
      using ends by (auto simp: port_step_def Let_def u_def)
    ultimately show ?thesis
      using i by (auto intro!: retreat_ok simp: in_input_def state_inv_def ok_step_def [of _ "Return _ _"] record_ok_def)
  next
    case bad
    then show ?thesis by (auto simp: port_step_def ok_step_def)
  qed
qed

lemma file_base_ok:
  assumes "env_ok env" "file_base env = Some b"
  shows "record_ok b" "scheme b = ''file''" "is_special b" "\<not> opaque_path b" "username b = []" "password b = []" "port b = None"
proof -
  have b: "base env = Some b" "scheme b = ''file''"
    using assms(2) by (auto simp: file_base_def split: option.splits if_splits)
  show r: "record_ok b" using env_base [OF assms(1) b(1)] .
  show "scheme b = ''file''" "is_special b" using b by (simp_all add: is_special_def special_file)
  then show "\<not> opaque_path b" "username b = []" "password b = []" "port b = None"
    using r by (auto simp: record_ok_def parts_ok_def path_ok_def has_credentials_def)
qed

lemma file_scheme_ok: "scheme_ok ''file''"
  by (simp add: scheme_ok_def scheme_points_def scheme_char_def)

lemma file_url_ok: "parts_ok file_url" "path file_url = []" "\<not> opaque_path file_url"
  "is_special file_url" "scheme file_url = ''file''"
  by (simp_all add: file_url_def parts_ok_def path_ok_def no_host_def has_credentials_def file_scheme_ok
      special_file host_text_def)

lemma file_state_ok:
  assumes "env_ok env" "parser_inv env s" "st s = File"
  shows "ok_step env (file_step env (current env s) s)"
proof -
  let ?c = "current env s"
  from assms have i: "in_input env s" "no_override env" "buffer s = []" "url s = empty_url \<or> url s = fresh ''file''"
    by (auto simp: parser_inv_def state_inv_def)
  note end_of_input = current_eof [OF i(1) assms(1)]
  have u: "(url s)\<lparr>scheme := ''file'', host := Some []\<rparr> = file_url"
    using i(4) by (auto simp: fresh_def file_url_def)
  have slashes: "ok_step env (Next (goto File_slash (s\<lparr>url := file_url\<rparr>)))" if "slash ?c \<or> backslash ?c"
  proof -
    have "?c \<noteq> eof" using that by (auto simp: is_char_def eof_def)
    with i end_of_input show ?thesis by (intro ok_plain) (simp_all add: in_input_def state_inv_def)
  qed
  show ?thesis
  proof (cases "file_base env")
    case None
    have "ok_step env (Next (retreat (goto Path_state (s\<lparr>url := file_url\<rparr>))))"
      using i file_url_ok by (intro retreat_ok) (simp_all add: in_input_def state_inv_def)
    with slashes None show ?thesis unfolding file_step_def by (simp add: Let_def u)
  next
    case (Some b)
    note b = file_base_ok [OF assms(1) Some]
    have copy: "file_url\<lparr>host := host b, path := path b, opaque_path := opaque_path b, query := q\<rparr>
        = b\<lparr>query := q, fragment := None\<rparr>" for q
      using b by (cases b) (simp add: file_url_def fresh_def empty_url_def)
    have same: "b\<lparr>query := query b, fragment := None\<rparr> = b\<lparr>fragment := None\<rparr>" by (cases b) simp
    have comm: "b\<lparr>fragment := None, query := None\<rparr> = b\<lparr>query := None, fragment := None\<rparr>" by (cases b) simp
    have "record_ok (b\<lparr>fragment := None, query := Some []\<rparr>)"
      using base_copy_ok(1) [OF b(1)] by (intro record_query) simp_all
    then have q: "ok_step env (Next (goto Query_state (s\<lparr>url := b\<lparr>fragment := None, query := Some []\<rparr>\<rparr>)))"
      using i by (intro ok_plain) (simp_all add: in_input_def state_inv_def)
    have f: "ok_step env (Next (goto Fragment_state (s\<lparr>url := b\<lparr>fragment := Some []\<rparr>\<rparr>)))"
      using i base_copy_ok(5) [OF b(1)] by (intro ok_plain) (simp_all add: in_input_def state_inv_def)
    have e: "ok_step env (Next (s\<lparr>url := b\<lparr>fragment := None\<rparr>\<rparr>))" if "?c = eof"
      using i that end_of_input base_copy_ok(1) [OF b(1)] assms(3)
      by (intro ok_plain) (simp_all add: in_input_def)
    let ?u = "b\<lparr>query := None, fragment := None\<rparr>"
    have p: "parts_ok ?u" using base_copy_ok(4) [OF b(1)] .
    have rest: "ok_step env (Next (retreat (goto Path_state (s\<lparr>url := v\<rparr>))))"
      if "parts_ok v" "\<not> opaque_path v" for v
      using i that by (intro retreat_ok) (simp_all add: in_input_def state_inv_def)
    have "ok_step env (Next (retreat (goto Path_state (s\<lparr>url := shorten_path ?u\<rparr>))))"
      using p b(4) by (intro rest parts_shorten) simp_all
    moreover have "ok_step env (Next (retreat (goto Path_state (s\<lparr>url := ?u\<lparr>path := []\<rparr>\<rparr>))))"
      using p b(4) by (intro rest parts_path) simp_all
    moreover have "from_pointer env (s\<lparr>url := w\<rparr>) = from_pointer env s" for w
      by (simp add: from_pointer_def)
    ultimately show ?thesis
      using slashes q f e Some unfolding file_step_def
      by (simp add: Let_def u copy same comm start_query_def start_fragment_def split: if_splits)
  qed
qed

lemma file_slash_ok:
  assumes "env_ok env" "parser_inv env s" "st s = File_slash"
  shows "ok_step env (file_slash_step env (current env s) s)"
proof -
  let ?c = "current env s"
  from assms have i: "in_input env s" "no_override env" "buffer s = []" "url s = file_url"
    by (auto simp: parser_inv_def state_inv_def)
  have slashes: "ok_step env (Next (goto File_host s))" if "slash ?c \<or> backslash ?c"
  proof -
    have "?c \<noteq> eof" using that by (auto simp: is_char_def eof_def)
    with i current_eof [OF i(1) assms(1)] show ?thesis
      by (intro ok_plain) (simp_all add: in_input_def state_inv_def)
  qed
  have rest: "ok_step env (Next (retreat (goto Path_state (s\<lparr>url := v\<rparr>))))"
    if "parts_ok v" "\<not> opaque_path v" for v
    using i that by (intro retreat_ok) (simp_all add: in_input_def state_inv_def)
  have plain: "goto Path_state s = goto Path_state (s\<lparr>url := file_url\<rparr>)" using i(4) by (cases s) simp
  show ?thesis
  proof (cases "file_base env")
    case None
    with slashes rest [OF file_url_ok(1,3)] show ?thesis
      by (simp add: file_slash_step_def Let_def plain)
  next
    case (Some b)
    note b = file_base_ok [OF assms(1) Some]
    have h: "parts_ok (file_url\<lparr>host := host b\<rparr>)"
      using b file_url_ok(1) unfolding record_ok_def parts_ok_def
      by (auto simp: path_ok_def file_url_def special_file has_credentials_def)
    have seg: "segment_ok True (path b ! 0)" if "path b \<noteq> []"
      using b that segments [of b "path b ! 0"] by (simp add: record_ok_def)
    have "parts_ok (file_url\<lparr>host := host b, path := [path b ! 0]\<rparr>)" if "path b \<noteq> []"
      using seg [OF that] h file_url_ok by (intro parts_path) simp_all
    moreover have "from_pointer env (s\<lparr>url := w\<rparr>) = from_pointer env s" for w
      by (simp add: from_pointer_def)
    ultimately show ?thesis
      using slashes rest h file_url_ok i(4) Some unfolding file_slash_step_def
      by (simp add: Let_def split: if_splits)
  qed
qed

lemma drive_letter_points:
  assumes "windows_drive_letter cs"
  shows "\<forall>c \<in> set cs. path_point special c"
proof -
  obtain a d where cs: "cs = [a, d]" "is_alpha a" "d = 58 \<or> d = 124"
    using assms by (auto simp: windows_drive_letter_def length_Suc_conv numeral_2_eq_2)
  have "path_point special a"
  proof -
    have "a < 0x80" "a \<noteq> 47" "a \<noteq> 92" using cs(2) by (auto simp: is_alpha_def)
    moreover have "\<not> in_set a Path"
      using cs(2) by (auto simp: in_set_def set_chars_def is_alpha_def chr_eq_iff)
    ultimately show ?thesis by (simp add: path_point_def)
  qed
  moreover have "path_point special d"
    using cs(3) by (auto simp: path_point_def in_set_def set_chars_def chr_eq_iff)
  ultimately show ?thesis by (simp add: cs(1))
qed

lemma file_record_host:
  assumes "record_ok u" "scheme u = ''file''" "host_text h"
  shows "record_ok (u\<lparr>host := Some h\<rparr>)"
proof -
  have "\<not> opaque_path u" using assms(1,2) special_file
    by (auto simp: record_ok_def parts_ok_def path_ok_def is_special_def)
  moreover have "\<not> has_credentials u" "port u = None"
    using assms(1,2) by (auto simp: record_ok_def parts_ok_def)
  ultimately show ?thesis using assms by (intro set_host_ok) simp_all
qed

lemma file_url_host: "host_text h \<Longrightarrow> parts_ok (file_url\<lparr>host := Some h\<rparr>)"
  by (simp add: file_url_def parts_ok_def path_ok_def no_host_def has_credentials_def file_scheme_ok)

lemma host_text_Nil [simp]: "host_text []"
  by (simp add: host_text_def)

lemma file_host_ok:
  assumes "env_ok env" "parser_inv env s" "st s = File_host"
  shows "ok_step env (file_host_step env (current env s) (is_special (url s)) s)"
proof -
  let ?c = "current env s" and ?n = "int (length (input env))"
  from assms have i: "in_input env s" "if no_override env then url s = file_url
      else record_ok (url s) \<and> scheme (url s) = ''file''"
    by (auto simp: parser_inv_def state_inv_def)
  define r where "r = parse_host (tables env) (buffer s) (\<not> is_special (url s))"
  have D: "tables_points (tables env)" using assms(1) by (simp add: env_ok_def)
  have r: "r \<noteq> Fault" "\<And>h. r = Value h \<Longrightarrow> host_text h"
    using parse_host_answers [OF D, of "buffer s" "\<not> is_special (url s)"] by (auto simp: r_def)
  have ret: "ok_step env (Return True ((url s)\<lparr>host := Some h\<rparr>))" if "\<not> no_override env" "host_text h" for h
    using that i(2) file_record_host by (simp add: ok_step_def)
  have start: "ok_step env (Next (retreat (goto Path_start (s\<lparr>url := (url s)\<lparr>host := Some h\<rparr>, buffer := []\<rparr>))))"
    if "no_override env" "host_text h" for h
    using that i file_url_host [OF that(2)] file_url_ok
    by (intro retreat_ok) (simp_all add: in_input_def state_inv_def)
  consider (char) "\<not> ends_authority True ?c"
    | (drive) "ends_authority True ?c" "no_override env" "windows_drive_letter (buffer s)"
    | (empty) "ends_authority True ?c" "\<not> (no_override env \<and> windows_drive_letter (buffer s))" "buffer s = []"
    | (named) "ends_authority True ?c" "\<not> (no_override env \<and> windows_drive_letter (buffer s))" "buffer s \<noteq> []"
    by argo
  then show ?thesis
  proof cases
    case char
    then have "?c \<noteq> eof" by (auto simp: ends_authority_def)
    then have "pointer s < ?n" using current_eof [OF i(1) assms(1)] i(1) by (simp add: in_input_def)
    with char i assms(3) show ?thesis
      unfolding file_host_step_def by (auto intro!: ok_plain simp: in_input_def state_inv_def)
  next
    case drive
    then have "file_host_step env ?c (is_special (url s)) s = Next (retreat (goto Path_state s))"
      by (simp add: file_host_step_def Let_def retreat_def)
    moreover have "state_inv env (goto Path_state s)"
      using i(2) drive file_url_ok drive_letter_points [OF drive(3)] by (simp add: state_inv_def)
    ultimately show ?thesis using i(1) by (auto intro!: retreat_ok simp: in_input_def)
  next
    case empty
    then have "file_host_step env ?c (is_special (url s)) s =
        (if no_override env then Next (retreat (goto Path_start (s\<lparr>url := (url s)\<lparr>host := Some []\<rparr>, buffer := []\<rparr>)))
         else Return True ((url s)\<lparr>host := Some []\<rparr>))"
      by (auto simp: file_host_step_def Let_def retreat_def windows_drive_letter_def)
    then show ?thesis using ret start by simp
  next
    case named
    show ?thesis
    proof (cases "r = Failure")
      case True
      with named i(2) show ?thesis
        by (simp add: file_host_step_def Let_def ok_step_def retreat_def r_def del: not_None_eq)
    next
      case False
      then obtain h where h: "r = Value h" "host_text h" using r by (cases r) auto
      define h' where "h' = (if h = ''localhost'' then [] else h)"
      have "file_host_step env ?c (is_special (url s)) s =
          (if no_override env then Next (retreat (goto Path_start (s\<lparr>url := (url s)\<lparr>host := Some h'\<rparr>, buffer := []\<rparr>)))
           else Return True ((url s)\<lparr>host := Some h'\<rparr>))"
        using named h(1) by (simp add: file_host_step_def Let_def retreat_def r_def h'_def del: not_None_eq)
      moreover have "host_text h'" using h(2) by (simp add: h'_def)
      ultimately show ?thesis using ret start by simp
    qed
  qed
qed

text \<open>The path.\<close>

lemma empty_segment [simp]: "segment_ok special []"
  by (simp add: segment_ok_def)

lemma push_path_ok:
  assumes "parts_ok u" "\<not> opaque_path u" "segment_ok (is_special u) seg"
  shows "parts_ok (u\<lparr>path := path u @ [seg]\<rparr>)"
  using assms segments [OF assms(1,2)] by (intro parts_path) auto

lemma push_record_ok:
  assumes "parts_ok u" "\<not> opaque_path u" "segment_ok (is_special u) seg"
  shows "record_ok (u\<lparr>path := path u @ [seg]\<rparr>)"
  using push_path_ok [OF assms] by (simp add: record_ok_def)

lemma start_query_ok:
  assumes "in_input env s" "pointer s \<noteq> int (length (input env))" "record_ok (url s)"
  shows "ok_step env (Next (start_query s))"
proof -
  have "record_ok ((url s)\<lparr>query := Some []\<rparr>)" using assms(3) by (intro record_query) simp_all
  then show ?thesis using assms(1,2)
    by (intro ok_plain) (simp_all add: start_query_def in_input_def state_inv_def)
qed

lemma start_fragment_ok:
  assumes "in_input env s" "pointer s \<noteq> int (length (input env))" "record_ok (url s)"
  shows "ok_step env (Next (start_fragment s))"
proof -
  have "record_ok ((url s)\<lparr>fragment := Some []\<rparr>)" using assms(3) by (intro record_fragment) simp_all
  then show ?thesis using assms(1,2)
    by (intro ok_plain) (simp_all add: start_fragment_def in_input_def state_inv_def)
qed

lemma path_start_ok:
  assumes "env_ok env" "parser_inv env s" "st s = Path_start"
  shows "ok_step env (path_start_step env (current env s) (is_special (url s)) s)"
proof -
  let ?c = "current env s" and ?n = "int (length (input env))"
  from assms have i: "in_input env s" "buffer s = []" "parts_ok (url s)" "path (url s) = []" "\<not> opaque_path (url s)"
    by (auto simp: parser_inv_def state_inv_def)
  note end_of_input = current_eof [OF i(1) assms(1)]
  have inv: "state_inv env (goto Path_state s)" using i by (simp add: state_inv_def)
  have ret: "ok_step env (Next (retreat (goto Path_state s)))"
    using inv i(1) by (intro retreat_ok) (simp_all add: in_input_def)
  have go: "ok_step env (Next (goto Path_state s))" if "?c \<noteq> eof"
    using inv i(1) that end_of_input by (intro ok_plain) (simp_all add: in_input_def)
  have plain: "record_ok (url s)" if "\<not> is_special (url s)" using that i(3) by (simp add: record_ok_def)
  have no: "is_char ?c (CHR ''?'') \<or> is_char ?c (CHR ''#'') \<or> slash ?c \<or> backslash ?c \<Longrightarrow> ?c \<noteq> eof"
    by (auto simp: is_char_def eof_def)
  show ?thesis
  proof (cases "is_special (url s)")
    case True
    with ret go no show ?thesis by (auto simp: path_start_step_def)
  next
    case False
    note r = plain [OF False]
    have q: "ok_step env (Next (start_query s))" "ok_step env (Next (start_fragment s))" if "?c \<noteq> eof"
      using start_query_ok [OF i(1) _ r] start_fragment_ok [OF i(1) _ r] that end_of_input by auto
    have "record_ok ((url s)\<lparr>path := path (url s) @ [[]]\<rparr>)" using i by (intro push_record_ok) simp_all
    then have e: "ok_step env (Next (on_url (\<lambda>u. u\<lparr>path := path u @ [[]]\<rparr>) s))" "ok_step env (Next s)" if "?c = eof"
      using that end_of_input i r assms(3) by (auto intro!: ok_plain simp: in_input_def)
    show ?thesis
      using False ret go no q e unfolding path_start_step_def by auto
  qed
qed

lemma path_points_text:
  assumes "\<forall>c \<in> set cs. path_point special c"
  shows "utf8_of cs = map chr cs" "segment_ok special (map chr cs)"
proof -
  have small: "\<forall>c \<in> set cs. c < 0x80" using assms by (simp add: path_point_def)
  then show "utf8_of cs = map chr cs" by (intro ascii_utf8) (simp add: all_below_80_def)
  show "segment_ok special (map chr cs)"
    using assms by (auto simp: segment_ok_def text_ok_def path_point_def eq_chr_iff)
qed

lemma end_segment_ok:
  assumes "parts_ok u" "\<not> opaque_path u" "\<forall>c \<in> set cs. path_point (is_special u) c"
  shows "\<exists>v. end_segment cs is_slash u = Some v \<and> parts_ok v \<and> \<not> opaque_path v \<and> is_special v = is_special u
    \<and> (\<not> is_slash \<longrightarrow> record_ok v)"
proof -
  note t = path_points_text [OF assms(3)]
  have pushed: "parts_ok (v\<lparr>path := path v @ [seg]\<rparr>) \<and> record_ok (v\<lparr>path := path v @ [seg]\<rparr>)"
    if "parts_ok v" "\<not> opaque_path v" "segment_ok (is_special v) seg" for v seg
    using push_path_ok [OF that] push_record_ok [OF that] ..
  have shorten: "parts_ok (shorten_path u)" using parts_shorten [OF assms(1,2)] .
  have drive: "segment_ok (is_special u) ((map chr cs)[1 := CHR '':''])" if "windows_drive_letter cs"
  proof -
    have "set ((map chr cs)[1 := CHR '':'']) \<subseteq> insert (CHR '':'') (set (map chr cs))"
      by (rule set_update_subset_insert)
    moreover have "\<not> in_set (byte (CHR '':'')) Path" by (simp add: in_set_def set_chars_def chr_eq_iff)
    moreover have "chr 92 \<noteq> CHR '':''" by (simp add: chr_eq_iff)
    ultimately show ?thesis using t(2) by (fastforce simp: segment_ok_def text_ok_def)
  qed
  have len: "length (map chr cs) > 1" if "windows_drive_letter cs"
    using that by (simp add: windows_drive_letter_def)
  let ?segment = "utf8_of cs"
  consider (double) "double_dot ?segment"
    | (single) "\<not> double_dot ?segment" "single_dot ?segment" "\<not> is_slash"
    | (skip) "\<not> double_dot ?segment" "single_dot ?segment" "is_slash"
    | (push) "\<not> double_dot ?segment" "\<not> single_dot ?segment" by blast
  then show ?thesis
  proof cases
    case double
    with pushed [of "shorten_path u" "[]"] shorten assms(2) show ?thesis
      by (simp add: end_segment_def Let_def)
  next
    case single
    with pushed [OF assms(1,2), of "[]"] assms(2) show ?thesis
      by (simp add: end_segment_def Let_def)
  next
    case skip
    with assms show ?thesis by (simp add: end_segment_def Let_def)
  next
    case push
    define seg where "seg = (if scheme u = ''file'' \<and> path u = [] \<and> windows_drive_letter cs
      then (map chr cs)[1 := CHR '':''] else map chr cs)"
    have "end_segment cs is_slash u = Some (u\<lparr>path := path u @ [seg]\<rparr>)"
      using push len t(1) by (simp add: end_segment_def push_segment_def seg_def Let_def)
    moreover have "segment_ok (is_special u) seg" using t(2) drive by (simp add: seg_def)
    ultimately show ?thesis using pushed [OF assms(1,2)] assms(2) by simp
  qed
qed

lemma path_state_ok:
  assumes "env_ok env" "parser_inv env s" "st s = Path_state"
  shows "ok_step env (path_step env (current env s) (is_special (url s)) s)"
proof -
  let ?c = "current env s" and ?n = "int (length (input env))" and ?special = "is_special (url s)"
  from assms have i: "in_input env s" "parts_ok (url s)" "\<not> opaque_path (url s)"
    "\<forall>c \<in> set (buffer s). path_point ?special c"
    by (auto simp: parser_inv_def state_inv_def)
  note end_of_input = current_eof [OF i(1) assms(1)]
  define is_slash where "is_slash \<longleftrightarrow> slash ?c \<or> ?special \<and> backslash ?c"
  show ?thesis
  proof (cases "?c = eof \<or> is_slash \<or> no_override env \<and> (is_char ?c (CHR ''?'') \<or> is_char ?c (CHR ''#''))")
    case True
    from end_segment_ok [OF i(2-4), of is_slash]
    obtain v where v: "end_segment (buffer s) is_slash (url s) = Some v" "parts_ok v" "\<not> opaque_path v"
      "is_special v = ?special" "\<not> is_slash \<longrightarrow> record_ok v" by blast
    define s' where "s' = s\<lparr>url := v, buffer := []\<rparr>"
    have s': "in_input env s'" "pointer s' = pointer s" "url s' = v" "buffer s' = []" "st s' = Path_state"
      using i(1) assms(3) by (simp_all add: s'_def in_input_def)
    have step: "path_step env ?c ?special s =
        (if is_char ?c (CHR ''?'') then Next (start_query s')
         else if is_char ?c (CHR ''#'') then Next (start_fragment s') else Next s')"
      using True v(1) by (simp add: path_step_def Let_def s'_def flip: is_slash_def)
    have no: "is_char ?c (CHR ''?'') \<or> is_char ?c (CHR ''#'') \<Longrightarrow> \<not> is_slash \<and> ?c \<noteq> eof"
      by (auto simp: is_char_def eof_def is_slash_def)
    have "record_ok v" if "?c = eof" using v(5) that by (simp add: is_slash_def is_char_def eof_def)
    then have n: "ok_step env (Next s')"
      using s' end_of_input v by (intro ok_plain) (simp_all add: state_inv_def)
    show ?thesis
      unfolding step using n no start_query_ok [OF s'(1)] start_fragment_ok [OF s'(1)] v(5) s' end_of_input
      by auto
  next
    case False
    then have step: "path_step env ?c ?special s = Next (s\<lparr>buffer := buffer s @ map byte (encoded Path ?c)\<rparr>)"
      unfolding path_step_def Let_def is_slash_def by (simp only: if_False)
    have lt: "pointer s < ?n" using False end_of_input i(1) by (simp add: in_input_def)
    have "\<forall>c \<in> set (map byte (encoded Path ?c)). path_point ?special c"
    proof -
      have enc: "text_ok Path (encoded Path ?c)" by (rule encoded_text_ok) simp
      have "byte d < 0x80 \<and> \<not> in_set (byte d) Path" if "d \<in> set (encoded Path ?c)" for d
        using enc that by (auto simp: text_ok_def in_set_def)
      moreover have "CHR ''/'' \<notin> set (encoded Path ?c)"
        using False by (intro encoded_not) (auto simp: is_slash_def is_char_def)
      moreover have "?special \<Longrightarrow> chr 92 \<notin> set (encoded Path ?c)"
        using False by (intro encoded_not) (auto simp: is_slash_def chr_eq_iff)
      moreover have "d = CHR ''/''" if "byte d = 47" for d using that by (simp add: char_eq_byte)
      moreover have "d = chr 92" if "byte d = 92" for d using that by (simp add: eq_chr_iff)
      ultimately show ?thesis by (auto simp: path_point_def)
    qed
    with i assms(3) lt show ?thesis
      unfolding step by (intro ok_plain) (auto simp: in_input_def state_inv_def)
  qed
qed

lemma opaque_state_ok:
  assumes "env_ok env" "parser_inv env s" "st s = Opaque_path"
  shows "ok_step env (opaque_path_step env (current env s) s)"
proof -
  let ?c = "current env s" and ?n = "int (length (input env))"
  from assms have i: "in_input env s" "no_override env" "buffer s = []" "parts_ok (url s)" "opaque_path (url s)"
    by (auto simp: parser_inv_def state_inv_def)
  note end_of_input = current_eof [OF i(1) assms(1)]
  have opq: "\<not> is_special (url s)" "host (url s) = None" "length (path (url s)) = 1" "opaque_ok (hd (path (url s)))"
    using i(4,5) by (simp_all add: parts_ok_def path_ok_def)
  then have r: "record_ok (url s)" using i(4) by (simp add: record_ok_def)
  obtain p where p: "path (url s) = [p]" "opaque_ok p"
    using opq(3,4) by (cases "path (url s)") auto
  have keep: "ok_step env (Next (on_url (\<lambda>u. u\<lparr>path := [t]\<rparr>) s))" if "opaque_ok t" "?c \<noteq> eof" for t
  proof -
    have "parts_ok ((url s)\<lparr>path := [t]\<rparr>)"
      using i(4,5) opq that(1) by (simp add: parts_ok_def path_ok_def)
    with i assms(3) that(2) end_of_input show ?thesis
      by (intro ok_plain) (simp_all add: in_input_def state_inv_def)
  qed
  have no: "is_char ?c (CHR ''?'') \<or> is_char ?c (CHR ''#'') \<or> is_char ?c (CHR '' '') \<Longrightarrow> ?c \<noteq> eof"
    by (auto simp: is_char_def eof_def)
  consider (q) "is_char ?c (CHR ''?'')" | (f) "is_char ?c (CHR ''#'')" | (e) "?c = eof"
    | (char) "\<not> is_char ?c (CHR ''?'')" "\<not> is_char ?c (CHR ''#'')" "?c \<noteq> eof" by blast
  then show ?thesis
  proof cases
    case q
    with start_query_ok [OF i(1) _ r] no end_of_input show ?thesis by (simp add: opaque_path_step_def)
  next
    case f
    then have "\<not> is_char ?c (CHR ''?'')" by (simp add: is_char_def)
    with f start_fragment_ok [OF i(1) _ r] no end_of_input show ?thesis by (simp add: opaque_path_step_def)
  next
    case e
    with no have "opaque_path_step env ?c s = Next s" by (auto simp: opaque_path_step_def)
    with r i assms(3) e end_of_input show ?thesis
      by (auto intro!: ok_plain simp: in_input_def)
  next
    case char
    define t where "t = (if is_char ?c (CHR '' '')
      then p @ (if remaining_starts_with env s (CHR ''?'') \<or> remaining_starts_with env s (CHR ''#'') then ''%20'' else '' '')
      else percent_encode_point p ?c C0)"
    have step: "opaque_path_step env ?c s = Next (on_url (\<lambda>u. u\<lparr>path := [t]\<rparr>) s)"
      using char p(1) by (simp add: opaque_path_step_def t_def)
    have "opaque_ok (p @ ''%20'')" "opaque_ok (p @ '' '')"
      using p(2) by (simp_all add: opaque_ok_def in_set_def set_chars_def)
    moreover have "opaque_ok (percent_encode_point p ?c C0)"
    proof -
      have "CHR ''?'' \<notin> set (encoded C0 ?c)" "CHR ''#'' \<notin> set (encoded C0 ?c)"
        using char(1,2) by (intro encoded_not; simp add: is_char_def)+
      then show ?thesis
        using p(2) encoded_text_ok [of C0 ?c] by (subst percent_encode_point_append) (simp add: opaque_ok_def)
    qed
    ultimately have "opaque_ok t" by (simp add: t_def)
    then show ?thesis unfolding step using char(3) by (rule keep)
  qed
qed

lemma query_state_ok:
  assumes "env_ok env" "parser_inv env s" "st s = Query_state"
  shows "ok_step env (query_step env (current env s) (is_special (url s)) s)"
proof -
  let ?c = "current env s" and ?n = "int (length (input env))"
  from assms obtain q where i: "in_input env s" "record_ok (url s)" "query (url s) = Some q"
    by (auto simp: parser_inv_def state_inv_def)
  note end_of_input = current_eof [OF i(1) assms(1)]
  show ?thesis
  proof (cases "no_override env \<and> is_char ?c (CHR ''#'') \<or> ?c = eof")
    case True
    define u where "u = (url s)\<lparr>query := Some (q @ percent_encode (buffer s)
      (if is_special (url s) then Special_query else Query))\<rparr>"
    have u: "record_ok u"
      unfolding u_def
    proof (rule record_query)
      have "text_ok (query_set (url s)) q" using i(2,3) by (simp add: record_ok_def parts_ok_def)
      then show "\<forall>t. Some (q @ percent_encode (buffer s) (if is_special (url s) then Special_query else Query)) = Some t
          \<longrightarrow> text_ok (query_set (url s)) t"
        by (auto simp: query_set_def intro!: percent_encode_ok)
    qed (fact i(2))
    define s' where "s' = s\<lparr>url := u, buffer := []\<rparr>"
    have s': "in_input env s'" "pointer s' = pointer s" "url s' = u" "st s' = Query_state" "query u \<noteq> None"
      using i(1) assms(3) by (simp_all add: s'_def in_input_def u_def)
    have step: "query_step env ?c (is_special (url s)) s =
        (if is_char ?c (CHR ''#'') then Next (start_fragment s') else Next s')"
      using True i(3) by (simp add: query_step_def Let_def s'_def u_def)
    have "ok_step env (Next s')"
      using s' u by (intro ok_plain) (simp_all add: state_inv_def)
    moreover have "is_char ?c (CHR ''#'') \<Longrightarrow> ?c \<noteq> eof" by (auto simp: is_char_def eof_def)
    ultimately show ?thesis
      unfolding step using start_fragment_ok [OF s'(1)] u s' end_of_input by simp
  next
    case False
    then have "query_step env ?c (is_special (url s)) s = Next (s\<lparr>buffer := buffer s @ [?c]\<rparr>)"
      unfolding query_step_def by (simp only: if_False)
    with False i assms(3) end_of_input show ?thesis
      by (auto intro!: ok_plain simp: in_input_def state_inv_def)
  qed
qed

lemma fragment_state_ok:
  assumes "env_ok env" "parser_inv env s" "st s = Fragment_state"
  shows "ok_step env (fragment_step (current env s) s)"
proof -
  let ?c = "current env s"
  from assms obtain f where i: "in_input env s" "record_ok (url s)" "fragment (url s) = Some f"
    by (auto simp: parser_inv_def state_inv_def)
  have f: "text_ok Fragment f" using i(2,3) by (simp add: record_ok_def parts_ok_def)
  then have "record_ok ((url s)\<lparr>fragment := Some (percent_encode_point f ?c Fragment)\<rparr>)"
    using i(2) by (intro record_fragment percent_encode_point_ok) simp_all
  then show ?thesis
    using i assms(3) by (auto simp: fragment_step_def in_input_def state_inv_def intro!: ok_plain)
qed

section \<open>The machine\<close>

lemma parser_step_ok:
  assumes "env_ok env" "parser_inv env s"
  shows "ok_step env (parser_step env s)"
  using assms unfolding parser_step_def Let_def
  by (cases "st s") (simp_all only: parser_state.case scheme_start_ok scheme_step_ok no_scheme_ok
      special_relative_ok path_or_authority_ok relative_ok relative_slash_ok special_slashes_ok
      ignore_slashes_ok authority_ok host_state_ok port_state_ok file_state_ok file_slash_ok
      file_host_ok path_start_ok path_state_ok opaque_state_ok query_state_ok fragment_state_ok
      simp_thms)

lemma parser_run_ok:
  assumes "env_ok env" "parser_inv env s"
  shows "\<exists>ok u. parser_run env s = Value (ok, u) \<and> (ok \<or> \<not> no_override env \<longrightarrow> record_ok u)"
  using assms
proof (induction env s rule: parser_run.induct)
  case (1 env s)
  have step: "ok_step env (parser_step env s)" using 1(2,3) by (rule parser_step_ok)
  show ?case
  proof (cases "parser_step env s")
    case (Next s')
    show ?thesis
    proof (cases "pointer s' \<ge> int (length (input env))")
      case True
      with step Next have "record_ok (url s')" by (simp add: ok_step_def)
      moreover have "parser_run env s = Value (True, url s')"
        using True Next by (subst parser_run.simps) simp
      ultimately show ?thesis by blast
    next
      case False
      then have "parser_inv env (advance s')" using step Next by (simp add: ok_step_def)
      from 1(1) [OF Next False 1(2) this] False Next show ?thesis by (subst parser_run.simps) simp
    qed
  next
    case (Return ok u)
    with step show ?thesis by (subst parser_run.simps) (auto simp: ok_step_def split: if_splits)
  next
    case Crash
    with step show ?thesis by (simp add: ok_step_def)
  qed
qed

section \<open>The number of steps\<close>

text \<open>The machine with a bound on its steps: \<open>None\<close> when the bound is too low.\<close>

fun run_for :: "nat \<Rightarrow> parse_env \<Rightarrow> parser \<Rightarrow> (bool \<times> url_record) outcome option" where
  "run_for 0 env s = None"
| "run_for (Suc k) env s =
     (case parser_step env s of
        Crash \<Rightarrow> Some Fault
      | Return ok u \<Rightarrow> Some (Value (ok, u))
      | Next s' \<Rightarrow>
          if pointer s' \<ge> int (length (input env)) then Some (Value (True, url s'))
          else run_for k env (advance s'))"

definition steps_left :: "parse_env \<Rightarrow> parser \<Rightarrow> nat" where
  "steps_left env s = rank (st s) * (length (input env) + 2) + nat (int (length (input env)) - pointer s)"

lemma steps_decrease:
  assumes "parser_step env s = Next s'" "\<not> pointer s' \<ge> int (length (input env))"
    "in_input env s" "in_input env (advance s')"
  shows "steps_left env (advance s') < steps_left env s"
proof (cases "rank (st s') < rank (st s)")
  case True
  then have "(rank (st s') + 1) * (length (input env) + 2) \<le> rank (st s) * (length (input env) + 2)"
    by (intro mult_le_mono1) simp
  then have "rank (st s') * (length (input env) + 2) + (length (input env) + 2)
      \<le> rank (st s) * (length (input env) + 2)" by (simp only: add_mult_distrib mult_1)
  moreover have "nat (int (length (input env)) - pointer (advance s')) \<le> length (input env)"
    using assms(4) unfolding in_input_def nat_le_iff by linarith
  ultimately show ?thesis unfolding steps_left_def moved_simps by linarith
next
  case False
  with parser_step_progress [OF assms(1)] assms(2) show ?thesis by (simp add: steps_left_def)
qed

lemma run_for_enough:
  assumes "env_ok env" "parser_inv env s" "steps_left env s < k"
  shows "run_for k env s = Some (parser_run env s)"
  using assms
proof (induction k arbitrary: s)
  case (Suc k)
  have step: "ok_step env (parser_step env s)" using Suc.prems(1,2) by (rule parser_step_ok)
  show ?case
  proof (cases "parser_step env s")
    case (Next s')
    show ?thesis
    proof (cases "pointer s' \<ge> int (length (input env))")
      case True
      with Next show ?thesis by (subst parser_run.simps) simp
    next
      case False
      then have inv: "parser_inv env (advance s')" using step Next by (simp add: ok_step_def)
      have "steps_left env (advance s') < steps_left env s"
        using Suc.prems(2) inv by (intro steps_decrease [OF Next False]) (simp_all add: parser_inv_def)
      then have "run_for k env (advance s') = Some (parser_run env (advance s'))"
        using Suc inv by simp
      with Next False show ?thesis by (subst parser_run.simps) simp
    qed
  next
    case (Return ok u)
    then show ?thesis by (subst parser_run.simps) simp
  next
    case Crash
    then show ?thesis by (subst parser_run.simps) simp
  qed
qed simp

section \<open>Plain parses and the setters\<close>

lemma code_points_bound: "\<forall>c \<in> set (code_points s). c < 0x200000"
proof (induction s rule: code_points.induct)
  case (2 c cs)
  obtain cp n where d: "decode_utf8 c cs = (cp, n)" by fastforce
  with decode_utf8_bound [of c cs] have "cp < 0x200000" by simp
  with 2 d show ?case by simp
qed simp

lemma cleaned_bound: "\<forall>c \<in> set (cleaned_input raw ov). c < 0x200000"
  unfolding cleaned_input_def by (rule code_points_bound)

text \<open>The environment and the first state of a parse.\<close>

definition start_env :: "unicode_data \<Rightarrow> string \<Rightarrow> url_record option \<Rightarrow> parser_state option \<Rightarrow> parse_env" where
  "start_env D raw b ov = \<lparr>tables = D, input = cleaned_input raw ov, base = b, override = ov\<rparr>"

definition start_state :: "url_record \<Rightarrow> parser_state option \<Rightarrow> parser" where
  "start_state u ov =
     \<lparr>st = (case ov of None \<Rightarrow> Scheme_start | Some q \<Rightarrow> q), pointer = 0, buffer = [],
      at_sign_seen = False, inside_brackets = False, password_token_seen = False, url = u\<rparr>"

lemma basic_parse_start: "basic_parse D raw b u ov = parser_run (start_env D raw b ov) (start_state u ov)"
  by (simp add: basic_parse_def start_env_def start_state_def)

lemma start_env_ok:
  assumes "tables_points D" "\<forall>r. b = Some r \<longrightarrow> record_ok r" "ov \<noteq> None \<longrightarrow> b = None"
  shows "env_ok (start_env D raw b ov)"
  using assms cleaned_bound [of raw ov] by (simp add: env_ok_def start_env_def)

lemma start_plain_inv: "parser_inv (start_env D raw b None) (start_state empty_url None)"
  by (simp add: parser_inv_def in_input_def state_inv_def origin_ok_def start_env_def start_state_def)

lemma parse_url_answers:
  assumes "tables_points D" "\<forall>r. b = Some r \<longrightarrow> record_ok r"
  shows "parse_url D raw b \<noteq> Fault \<and> (\<forall>u. parse_url D raw b = Value u \<longrightarrow> record_ok u)"
proof -
  have "env_ok (start_env D raw b None)" using assms by (intro start_env_ok) simp_all
  from parser_run_ok [OF this start_plain_inv]
  obtain ok u where r: "basic_parse D raw b empty_url None = Value (ok, u)" "ok \<longrightarrow> record_ok u"
    by (auto simp: basic_parse_start start_env_def)
  then show ?thesis by (simp add: parse_url_def)
qed

end
