(* ===== verification/Url.thy ===== *)
theory Url
  imports Url_Invariant Base64
begin

text \<open>
  The public URL operations (\<^verbatim>\<open>lib/Shell/net/url.cpp\<close>): the accessors and the serialiser of a
  record, its origin, the setters, \<^verbatim>\<open>application/x-www-form-urlencoded\<close>, what the network and the
  DOM see of a URL, resolution and \<^verbatim>\<open>data:\<close> URLs. Shown: parsing always answers with a good
  record, within a linear number of steps; the setters keep it good; the form format reads back; the
  serialisation is printable ASCII and its hash sign starts the fragment.
\<close>

section \<open>Accessors and serialisation\<close>

definition cannot_have_credentials_or_port :: "url_record \<Rightarrow> bool" where
  "cannot_have_credentials_or_port u \<longleftrightarrow> host u = None \<or> host u = Some [] \<or> scheme u = ''file''"

definition protocol :: "url_record \<Rightarrow> string" where
  "protocol u = scheme u @ '':''"

definition hostname :: "url_record \<Rightarrow> string" where
  "hostname u = (case host u of None \<Rightarrow> [] | Some h \<Rightarrow> h)"

definition host_and_port :: "url_record \<Rightarrow> string" where
  "host_and_port u =
     (case host u of
        None \<Rightarrow> []
      | Some h \<Rightarrow> (case port u of None \<Rightarrow> h | Some v \<Rightarrow> h @ '':'' @ decimal v))"

definition port_text :: "url_record \<Rightarrow> string" where
  "port_text u = (case port u of None \<Rightarrow> [] | Some v \<Rightarrow> decimal v)"

definition pathname :: "url_record \<Rightarrow> string" where
  "pathname u =
     (if opaque_path u then (case path u of [] \<Rightarrow> [] | p # _ \<Rightarrow> p)
      else concat (map (\<lambda>segment. ''/'' @ segment) (path u)))"

definition url_search :: "url_record \<Rightarrow> string" where
  "url_search u = (case query u of Some (c # q) \<Rightarrow> ''?'' @ c # q | _ \<Rightarrow> [])"

definition url_hash :: "url_record \<Rightarrow> string" where
  "url_hash u = (case fragment u of Some (c # f) \<Rightarrow> ''#'' @ c # f | _ \<Rightarrow> [])"

definition serialize :: "bool \<Rightarrow> url_record \<Rightarrow> string" where
  "serialize exclude_fragment u =
     scheme u @ '':''
     @ (case host u of
          Some _ \<Rightarrow> ''//''
            @ (if has_credentials u
               then username u @ (if password u \<noteq> [] then '':'' @ password u else []) @ ''@'' else [])
            @ host_and_port u
        | None \<Rightarrow> if \<not> opaque_path u \<and> length (path u) > 1 \<and> hd (path u) = [] then ''/.'' else [])
     @ pathname u
     @ (case query u of None \<Rightarrow> [] | Some q \<Rightarrow> ''?'' @ q)
     @ (if exclude_fragment then [] else case fragment u of None \<Rightarrow> [] | Some f \<Rightarrow> ''#'' @ f)"

text \<open>The origin of a URL that is not a blob URL.\<close>

definition tuple_origin :: "url_record \<Rightarrow> string" where
  "tuple_origin u =
     (if scheme u \<in> {''ftp'', ''http'', ''https'', ''ws'', ''wss''} then scheme u @ ''://'' @ host_and_port u
      else ''null'')"

definition origin :: "unicode_data \<Rightarrow> url_record \<Rightarrow> string outcome" where
  "origin D u =
     (if scheme u = ''blob''
      then (case parse_url D (pathname u) None of
          Fault \<Rightarrow> Fault
        | Failure \<Rightarrow> Value ''null''
        | Value inner \<Rightarrow>
            if scheme inner = ''http'' \<or> scheme inner = ''https'' then Value (tuple_origin inner)
            else Value ''null'')
      else Value (tuple_origin u))"

section \<open>Parsing and setting\<close>

text \<open>The overload that takes the base as a string.\<close>

definition parse_url_base :: "unicode_data \<Rightarrow> string \<Rightarrow> string \<Rightarrow> url_record outcome" where
  "parse_url_base D raw b =
     bind_outcome (parse_url D b None) (\<lambda>parsed. parse_url D raw (Some parsed))"

datatype url_part = Href | Protocol_part | Username_part | Password_part | Host_part | Hostname_part
  | Port_part | Pathname_part | Search_part | Hash_part

definition with_override ::
    "unicode_data \<Rightarrow> url_record \<Rightarrow> string \<Rightarrow> parser_state \<Rightarrow> (bool \<times> url_record) outcome" where
  "with_override D u raw ov = bind_outcome (basic_parse D raw None u (Some ov)) (\<lambda>(_, v). Value (True, v))"

definition set_url_part ::
    "unicode_data \<Rightarrow> url_record \<Rightarrow> url_part \<Rightarrow> string \<Rightarrow> (bool \<times> url_record) outcome" where
  "set_url_part D u part v =
     (case part of
        Href \<Rightarrow>
          (case parse_url D v None of
             Fault \<Rightarrow> Fault | Failure \<Rightarrow> Value (False, u) | Value parsed \<Rightarrow> Value (True, parsed))
      | Protocol_part \<Rightarrow> with_override D u (v @ '':'') Scheme_start
      | Username_part \<Rightarrow>
          if cannot_have_credentials_or_port u then Value (True, u)
          else Value (True, u\<lparr>username := percent_encode (code_points v) Userinfo\<rparr>)
      | Password_part \<Rightarrow>
          if cannot_have_credentials_or_port u then Value (True, u)
          else Value (True, u\<lparr>password := percent_encode (code_points v) Userinfo\<rparr>)
      | Host_part \<Rightarrow> if opaque_path u then Value (True, u) else with_override D u v Host
      | Hostname_part \<Rightarrow> if opaque_path u then Value (True, u) else with_override D u v Hostname
      | Port_part \<Rightarrow>
          if cannot_have_credentials_or_port u then Value (True, u)
          else if v = [] then Value (True, u\<lparr>port := None\<rparr>)
          else with_override D u v Port
      | Pathname_part \<Rightarrow>
          if opaque_path u then Value (True, u) else with_override D (u\<lparr>path := []\<rparr>) v Path_start
      | Search_part \<Rightarrow>
          if v = [] then Value (True, u\<lparr>query := None\<rparr>)
          else with_override D (u\<lparr>query := Some []\<rparr>) (if hd v = CHR ''?'' then tl v else v) Query_state
      | Hash_part \<Rightarrow>
          if v = [] then Value (True, u\<lparr>fragment := None\<rparr>)
          else with_override D (u\<lparr>fragment := Some []\<rparr>) (if hd v = CHR ''#'' then tl v else v) Fragment_state)"

section \<open>application/x-www-form-urlencoded\<close>

type_synonym form_pairs = "(string \<times> string) list"

text \<open>The sequences between the ampersands.\<close>

fun split_amp :: "string \<Rightarrow> string list" where
  "split_amp [] = [[]]"
| "split_amp (c # cs) =
     (if c = CHR ''&'' then [] # split_amp cs else (c # hd (split_amp cs)) # tl (split_amp cs))"

definition plus_to_space :: "string \<Rightarrow> string" where
  "plus_to_space s = map (\<lambda>c. if c = CHR ''+'' then CHR '' '' else c) s"

definition form_decode :: "string \<Rightarrow> string" where
  "form_decode s = utf8_of (decode_replacing (percent_decode (plus_to_space s)))"

definition form_pair :: "string \<Rightarrow> string \<times> string" where
  "form_pair sequence =
     (form_decode (takeWhile (\<lambda>c. c \<noteq> CHR ''='') sequence),
      form_decode (drop 1 (dropWhile (\<lambda>c. c \<noteq> CHR ''='') sequence)))"

definition parse_form_urlencoded :: "string \<Rightarrow> form_pairs" where
  "parse_form_urlencoded q = map form_pair (filter (\<lambda>sequence. sequence \<noteq> []) (split_amp q))"

definition form_append :: "string \<Rightarrow> string \<Rightarrow> string" where
  "form_append out s =
     foldl (\<lambda>out c. if c = byte (CHR '' '') then out @ ''+'' else percent_encode_point out c Form) out (code_points s)"

definition serialize_form_urlencoded :: "form_pairs \<Rightarrow> string" where
  "serialize_form_urlencoded pairs =
     foldl (\<lambda>out (name, v). form_append (form_append (if out \<noteq> [] then out @ ''&'' else out) name @ ''='') v) [] pairs"

section \<open>The views of the network and the DOM\<close>

record fetch_url =
  fetch_scheme :: string
  fetch_host :: string
  fetch_port :: string
  fetch_target :: string
  fetch_authority :: string
  valid :: bool

definition empty_fetch :: fetch_url where
  "empty_fetch = \<lparr>fetch_scheme = [], fetch_host = [], fetch_port = [], fetch_target = ''/'', fetch_authority = [],
     valid = False\<rparr>"

definition fetch_parts :: "url_record \<Rightarrow> fetch_url" where
  "fetch_parts u =
     (if scheme u \<noteq> ''http'' \<and> scheme u \<noteq> ''https'' \<or> hostname u = [] then empty_fetch
      else let h = hostname u in
        \<lparr>fetch_scheme = scheme u,
         fetch_host = (if length h > 2 \<and> hd h = CHR ''['' then substr h 1 (length h - 2) else h),
         fetch_port = (case port u of Some v \<Rightarrow> decimal v | None \<Rightarrow> if scheme u = ''https'' then ''443'' else ''80''),
         fetch_target = pathname u @ (case query u of None \<Rightarrow> [] | Some q \<Rightarrow> ''?'' @ q),
         fetch_authority = host_and_port u,
         valid = True\<rparr>)"

definition parse_absolute :: "unicode_data \<Rightarrow> string \<Rightarrow> fetch_url outcome" where
  "parse_absolute D raw =
     (case parse_url D raw None of
        Fault \<Rightarrow> Fault | Failure \<Rightarrow> Value empty_fetch | Value u \<Rightarrow> Value (fetch_parts u))"

record location_url =
  l_href :: string
  l_protocol :: string
  l_username :: string
  l_password :: string
  l_host :: string
  l_hostname :: string
  l_port :: string
  l_pathname :: string
  l_search :: string
  l_hash :: string
  l_origin :: string

definition location_parts :: "unicode_data \<Rightarrow> string \<Rightarrow> location_url outcome" where
  "location_parts D raw =
     (case parse_url D raw None of
        Fault \<Rightarrow> Fault
      | Failure \<Rightarrow> Value \<lparr>l_href = [], l_protocol = [], l_username = [], l_password = [], l_host = [],
          l_hostname = [], l_port = [], l_pathname = [], l_search = [], l_hash = [], l_origin = []\<rparr>
      | Value u \<Rightarrow> bind_outcome (origin D u) (\<lambda>orig.
          Value \<lparr>l_href = serialize False u, l_protocol = protocol u, l_username = username u,
            l_password = password u, l_host = host_and_port u, l_hostname = hostname u,
            l_port = port_text u, l_pathname = pathname u, l_search = url_search u, l_hash = url_hash u,
            l_origin = orig\<rparr>))"

definition resolve :: "unicode_data \<Rightarrow> string \<Rightarrow> string \<Rightarrow> string outcome" where
  "resolve D b reference =
     (case parse_url_base D reference b of
        Fault \<Rightarrow> Fault | Failure \<Rightarrow> Value reference | Value u \<Rightarrow> Value (serialize False u))"

section \<open>Data URLs\<close>

record data_url =
  mime :: string
  bytes :: string

definition is_data_url :: "string \<Rightarrow> bool" where
  "is_data_url s \<longleftrightarrow> length s \<ge> 5 \<and> map ascii_lower (take 5 s) = ''data:''"

definition parse_data_url :: "(string \<Rightarrow> string option) \<Rightarrow> string \<Rightarrow> data_url option" where
  "parse_data_url simd s =
     (if \<not> is_data_url s then None
      else let rest = drop 5 s in
        (case find_index (\<lambda>c. c = CHR '','') rest of
           None \<Rightarrow> None
         | Some comma \<Rightarrow>
             let meta = take comma rest; payload = drop (comma + 1) rest;
                 is_base64 = (length meta \<ge> 7 \<and> ascii_iequals (drop (length meta - 7) meta) '';base64'');
                 meta = (if is_base64 then take (length meta - 7) meta else meta);
                 kind = takeWhile (\<lambda>c. c \<noteq> CHR '';'') meta
             in Some \<lparr>mime = (if kind \<noteq> [] then ascii_lower_copy kind else ''text/plain''),
                      bytes = (if is_base64 then base64_decode simd payload else percent_decode payload)\<rparr>))"

section \<open>Parsing answers\<close>

text \<open>The setters, one by one. Each starts the machine in a state that admits the record.\<close>

lemma with_override_ok:
  assumes "tables_points D" "parser_inv (start_env D raw None (Some ov)) (start_state u (Some ov))"
  shows "\<exists>v. with_override D u raw ov = Value (True, v) \<and> record_ok v"
proof -
  have e: "env_ok (start_env D raw None (Some ov))" using assms(1) by (intro start_env_ok) simp_all
  obtain ok v where "parser_run (start_env D raw None (Some ov)) (start_state u (Some ov)) = Value (ok, v)"
    "record_ok v"
    using parser_run_ok [OF e assms(2)] by (auto simp: start_env_def)
  then show ?thesis by (simp add: with_override_def basic_parse_start)
qed

lemma setter_inv:
  assumes "state_inv (start_env D raw None (Some ov)) (start_state u (Some ov))"
  shows "parser_inv (start_env D raw None (Some ov)) (start_state u (Some ov))"
  using assms by (simp add: parser_inv_def in_input_def start_state_def)

lemma clear_path_ok: "record_ok u \<Longrightarrow> \<not> opaque_path u \<Longrightarrow> parts_ok (u\<lparr>path := []\<rparr>)"
  by (simp add: record_ok_def parts_ok_def path_ok_def)

lemma set_url_part_answers:
  assumes "tables_points D" "record_ok u"
  shows "\<exists>ok v. set_url_part D u part raw = Value (ok, v) \<and> record_ok v \<and> (\<not> ok \<longrightarrow> v = u)"
proof (cases part)
  case Href
  then show ?thesis using parse_url_answers [OF assms(1), of None raw] assms(2)
    by (cases "parse_url D raw None") (auto simp: set_url_part_def)
next
  case Protocol_part
  have "state_inv (start_env D (raw @ '':'') None (Some Scheme_start)) (start_state u (Some Scheme_start))"
    using assms(2) by (simp add: state_inv_def start_state_def start_env_def origin_ok_def)
  from with_override_ok [OF assms(1) setter_inv [OF this]] Protocol_part show ?thesis
    by (auto simp: set_url_part_def)
next
  case Host_part
  have "\<exists>v. with_override D u raw Host = Value (True, v) \<and> record_ok v" if "\<not> opaque_path u"
    using assms(2) that
    by (intro with_override_ok [OF assms(1)] setter_inv) (simp add: state_inv_def start_state_def start_env_def)
  with Host_part assms(2) show ?thesis by (auto simp: set_url_part_def)
next
  case Hostname_part
  have "\<exists>v. with_override D u raw Hostname = Value (True, v) \<and> record_ok v" if "\<not> opaque_path u"
    using assms(2) that
    by (intro with_override_ok [OF assms(1)] setter_inv) (simp add: state_inv_def start_state_def start_env_def)
  with Hostname_part assms(2) show ?thesis by (auto simp: set_url_part_def)
next
  case Port_part
  have "\<exists>v. with_override D u raw Port = Value (True, v) \<and> record_ok v"
    if "\<not> cannot_have_credentials_or_port u"
    using assms(2) that
    by (intro with_override_ok [OF assms(1)] setter_inv)
      (simp add: state_inv_def start_state_def start_env_def no_host_def record_ok_def cannot_have_credentials_or_port_def)
  moreover have "record_ok (u\<lparr>port := None\<rparr>)"
    using assms(2) by (simp add: record_ok_def parts_ok_def path_ok_def no_host_def)
  ultimately show ?thesis using Port_part assms(2) by (auto simp: set_url_part_def)
next
  case Pathname_part
  have "\<exists>v. with_override D (u\<lparr>path := []\<rparr>) raw Path_start = Value (True, v) \<and> record_ok v"
    if "\<not> opaque_path u"
    using clear_path_ok [OF assms(2) that] that
    by (intro with_override_ok [OF assms(1)] setter_inv) (simp add: state_inv_def start_state_def start_env_def)
  with Pathname_part assms(2) show ?thesis by (auto simp: set_url_part_def)
next
  case Search_part
  have q: "record_ok (u\<lparr>query := None\<rparr>)" "record_ok (u\<lparr>query := Some []\<rparr>)"
    using assms(2) by (auto intro!: record_query)
  then have set: "\<exists>v. with_override D (u\<lparr>query := Some []\<rparr>) t Query_state = Value (True, v) \<and> record_ok v" for t
    by (intro with_override_ok [OF assms(1)] setter_inv) (simp add: state_inv_def start_state_def start_env_def)
  from set [of raw] set [of "tl raw"] Search_part q show ?thesis by (auto simp: set_url_part_def)
next
  case Hash_part
  have f: "record_ok (u\<lparr>fragment := None\<rparr>)" "record_ok (u\<lparr>fragment := Some []\<rparr>)"
    using assms(2) by (simp_all add: record_fragment record_no_fragment)
  then have set: "\<exists>v. with_override D (u\<lparr>fragment := Some []\<rparr>) t Fragment_state = Value (True, v) \<and> record_ok v" for t
    by (intro with_override_ok [OF assms(1)] setter_inv) (simp add: state_inv_def start_state_def start_env_def)
  from set [of raw] set [of "tl raw"] Hash_part f show ?thesis by (auto simp: set_url_part_def)
next
  case Username_part
  have "record_ok (u\<lparr>username := percent_encode s Userinfo\<rparr>)" if "\<not> cannot_have_credentials_or_port u" for s
    using assms(2) that
    by (simp add: record_ok_def parts_ok_def path_ok_def no_host_def cannot_have_credentials_or_port_def query_set_def
        percent_encode_ok)
  with Username_part assms(2) show ?thesis by (auto simp: set_url_part_def)
next
  case Password_part
  have "record_ok (u\<lparr>password := percent_encode s Userinfo\<rparr>)" if "\<not> cannot_have_credentials_or_port u" for s
    using assms(2) that
    by (simp add: record_ok_def parts_ok_def path_ok_def no_host_def cannot_have_credentials_or_port_def query_set_def
        percent_encode_ok)
  with Password_part assms(2) show ?thesis by (auto simp: set_url_part_def)
qed

section \<open>The form format reads back\<close>

definition form_char :: "code_point \<Rightarrow> string" where
  "form_char c = (if c = 32 then ''+'' else encoded Form c)"

definition form_text :: "string \<Rightarrow> string" where
  "form_text s = concat (map form_char (code_points s))"

lemma form_append_text: "form_append out s = out @ form_text s"
proof -
  have "foldl (\<lambda>out c. if c = byte (CHR '' '') then out @ ''+'' else percent_encode_point out c Form) out cs
      = out @ concat (map form_char cs)" for cs
  proof (induction cs arbitrary: out)
    case (Cons c cs)
    show ?case
    proof (cases "c = 32")
      case True
      with Cons [of "out @ ''+''"] show ?thesis by (simp add: form_char_def)
    next
      case False
      with Cons [of "percent_encode_point out c Form"] percent_encode_point_append [of out c Form]
      show ?thesis by (simp add: form_char_def)
    qed
  qed simp
  then show ?thesis by (simp add: form_append_def form_text_def)
qed

lemma escaped_not: "d \<notin> set ''%0123456789ABCDEF'' \<Longrightarrow> in_set c es \<Longrightarrow> d \<notin> set (encoded es c)"
proof -
  assume d: "d \<notin> set ''%0123456789ABCDEF''" and c: "in_set c es"
  have "d \<noteq> hex_digits ! i" if "i < 16" for i
    using hex_digit_plain [OF that] d by (auto simp: hex_digits_def)
  moreover have "byte e div 16 < 16" for e using byte_less [of e] by (intro less_mult_imp_div_less) simp
  ultimately show ?thesis
    using c d by (auto simp: percent_encode_point_def escape_hex(1))
qed

lemma form_char_plain:
  assumes "d \<in> {CHR ''&'', CHR ''=''}"
  shows "d \<notin> set (form_char c)"
proof -
  have d: "d \<notin> set ''%0123456789ABCDEF''" using assms by auto
  have "in_set (byte d) Form" using assms by (auto simp: in_set_def set_chars_def)
  then have "d \<notin> set (encoded Form c)"
    using escaped_not [OF d, of c Form] encoded_not [OF d, of c Form] by (cases "c = byte d") simp_all
  then show ?thesis using assms by (auto simp: form_char_def)
qed

lemma form_text_plain: "d \<in> {CHR ''&'', CHR ''=''} \<Longrightarrow> d \<notin> set (form_text s)"
  using form_char_plain by (simp add: form_text_def)


lemma plus_plain: "CHR ''+'' \<notin> set s \<Longrightarrow> plus_to_space s = s"
  by (induction s) (auto simp: plus_to_space_def)

lemma plus_to_space_append: "plus_to_space (s @ t) = plus_to_space s @ plus_to_space t"
  by (simp add: plus_to_space_def)

lemma decode_form_char: "percent_decode (plus_to_space (form_char c) @ rest) = utf8 (scalar c) @ percent_decode rest"
proof (cases "c = 32")
  case True
  then show ?thesis by (simp add: form_char_def plus_to_space_def percent_decode_plain utf8_def eq_chr_iff)
next
  case False
  have d: "CHR ''+'' \<notin> set ''%0123456789ABCDEF''" by simp
  have "in_set 43 Form" "in_set 37 Form" by (simp_all add: in_set_def set_chars_def chr_eq_iff)
  then have "CHR ''+'' \<notin> set (encoded Form c)"
    using escaped_not [OF d, of c Form] encoded_not [OF d, of c Form] by (cases "c = 43") simp_all
  with False percent_decode_encoded [OF \<open>in_set 37 Form\<close>] show ?thesis
    by (simp add: form_char_def plus_plain)
qed

lemma decode_form_text: "form_decode (form_text s) = to_usv_string s"
proof -
  have "percent_decode (plus_to_space (concat (map form_char cs))) = concat (map (\<lambda>c. utf8 (scalar c)) cs)" for cs
  proof (induction cs)
    case (Cons c cs)
    then show ?case by (simp add: plus_to_space_append decode_form_char)
  qed (simp add: plus_to_space_def)
  then have "percent_decode (plus_to_space (form_text s)) = concat (map utf8 (map scalar (code_points s)))"
    by (simp add: form_text_def comp_def)
  then have "form_decode (form_text s) = utf8_of (map scalar (code_points s))"
    unfolding form_decode_def by (simp only: decode_replacing_text set_map ball_simps scalar_scalar ball_triv)
      (simp add: decode_replacing_text del: map_map)
  then show ?thesis by (simp add: utf8_of_concat to_usv_string_def comp_def)
qed

text \<open>The serialisation as a join.\<close>

definition form_piece :: "string \<times> string \<Rightarrow> string" where
  "form_piece p = form_text (fst p) @ ''='' @ form_text (snd p)"

lemma form_piece_plain: "CHR ''&'' \<notin> set (form_piece p)" "form_piece p \<noteq> []"
  using form_text_plain [of "CHR ''&''"] by (simp_all add: form_piece_def)

lemma form_pair_piece: "form_pair (form_piece p) = (to_usv_string (fst p), to_usv_string (snd p))"
proof -
  have "\<forall>c \<in> set (form_text (fst p)). c \<noteq> CHR ''=''" using form_text_plain [of "CHR ''=''"] by auto
  then have "takeWhile (\<lambda>c. c \<noteq> CHR ''='') (form_piece p) = form_text (fst p)"
    "dropWhile (\<lambda>c. c \<noteq> CHR ''='') (form_piece p) = ''='' @ form_text (snd p)"
    by (simp_all add: form_piece_def takeWhile_append2 dropWhile_append2)
  then show ?thesis by (simp add: form_pair_def decode_form_text)
qed

lemma split_amp_plain: "CHR ''&'' \<notin> set s \<Longrightarrow> split_amp s = [s]"
  by (induction s) auto

lemma split_amp_append:
  "CHR ''&'' \<notin> set t \<Longrightarrow> split_amp (s @ ''&'' @ t) = split_amp s @ [t]"
proof (induction s)
  case (Cons c s)
  moreover have "split_amp s \<noteq> []" by (cases s) auto
  ultimately show ?case by (cases "split_amp s") auto
qed (simp add: split_amp_plain)

lemma serialize_form_snoc:
  "serialize_form_urlencoded (pairs @ [p])
   = (let out = serialize_form_urlencoded pairs in (if out \<noteq> [] then out @ ''&'' else out) @ form_piece p)"
  by (cases p) (simp add: serialize_form_urlencoded_def form_append_text form_piece_def)

lemma serialize_form_Nil [simp]: "serialize_form_urlencoded [] = []"
  by (simp add: serialize_form_urlencoded_def)

lemma serialize_form_nonempty: "serialize_form_urlencoded pairs = [] \<longleftrightarrow> pairs = []"
proof (induction pairs rule: rev_induct)
  case (snoc p pairs)
  show ?case by (simp add: serialize_form_snoc Let_def form_piece_plain)
qed simp

text \<open>C33. A serialised list of pairs parses to the same pairs, in the same order, each string made
  of scalar values: for well-formed text the format reads back exactly.\<close>

theorem form_round:
  "parse_form_urlencoded (serialize_form_urlencoded pairs)
   = map (\<lambda>(name, v). (to_usv_string name, to_usv_string v)) pairs"
proof (induction pairs rule: rev_induct)
  case Nil
  then show ?case by (simp add: parse_form_urlencoded_def)
next
  case (snoc p pairs)
  have "split_amp (serialize_form_urlencoded (pairs @ [p]))
      = (if pairs = [] then [] else split_amp (serialize_form_urlencoded pairs)) @ [form_piece p]"
    using form_piece_plain(1) [of p]
    by (simp add: serialize_form_snoc Let_def serialize_form_nonempty split_amp_plain
        split_amp_append [simplified])
  with snoc form_piece_plain(2) [of p] show ?case
    by (cases p) (auto simp: parse_form_urlencoded_def form_pair_piece)
qed

section \<open>Properties of parsing\<close>

text \<open>Tables with no rows, for the witnesses.\<close>

definition no_tables :: unicode_data where
  "no_tables = \<lparr>nfd_table = [], nfd_data = [], ccc_ranges = [], compose_pairs = [], idna_ranges = [],
     idna_mappings = [], combining_mark_ranges = [], virama_ranges = [], joining_ranges = [], bidi_ranges = []\<rparr>"

lemma no_tables_points [simp]: "tables_points no_tables"
  by (simp add: no_tables_def tables_points_def)


text \<open>Evaluation of the machine, one step per unfolding of the loop.\<close>

lemmas machine_eval = parser_step_def step_defs current_def start_state_def is_alpha_def is_digit_def
  is_char_def eof_def Let_def advance_def retreat_def lower_def is_special_def special_scheme_def
  default_port_def remaining_starts_with_def ends_authority_def end_segment_def push_segment_def
  single_dot_def double_dot_def ascii_iequals_def start_query_def start_fragment_def
  percent_encode_concat percent_encode_point_def in_set_def set_chars_def
  eq_chr_iff chr_eq_iff utf8_of_concat utf8_def scalar_def is_surrogate_def

text \<open>Three code points, four steps: \<^verbatim>\<open>a:b\<close> is a scheme and an opaque path.\<close>

lemma parse_a_b:
  "parse_url no_tables ''a:b'' None = Value (empty_url\<lparr>scheme := ''a'', path := [''b''], opaque_path := True\<rparr>)"
proof -
  define E where "E = start_env no_tables ''a:b'' None None"
  have "cleaned_input ''a:b'' None = map byte ''a:b''" by code_simp
  then have E: "input E = map byte ''a:b''" "base E = None" "override E = None"
    by (simp_all add: E_def start_env_def)
  have "parser_run E (start_state empty_url None)
      = Value (True, empty_url\<lparr>scheme := ''a'', path := [''b''], opaque_path := True\<rparr>)"
    by (subst parser_run.simps, simp add: E machine_eval del: moved_simps)+
  then show ?thesis by (simp add: parse_url_def basic_parse_start E_def)
qed

lemma host_loopback: "parse_host no_tables (map byte ''[::1]'') False = Value ''[::1]''"
proof -
  have t: "ipv6_text [0, 0, 0, 0, 0, 0, 0, 1] = ''['' @ ''::1'' @ '']''"
    by (simp add: ipv6_text_def zero_run_def hex_text.simps hex_lower_def bits)
  have "ipv6_address (map byte ''::1'') = Value [0, 0, 0, 0, 0, 0, 0, 1]"
    by (rule ipv6_address_text [OF _ _ t]) simp_all
  with t show ?thesis by (simp add: parse_host_def parse_ipv6_def substr_def)
qed

text \<open>A special URL with an address for a host, a path and a query.\<close>

lemma parse_loopback:
  "parse_url no_tables ''http://[::1]/p?q'' None
   = Value (empty_url\<lparr>scheme := ''http'', host := Some ''[::1]'', path := [''p''], query := Some ''q''\<rparr>)"
proof -
  define E where "E = start_env no_tables ''http://[::1]/p?q'' None None"
  have "cleaned_input ''http://[::1]/p?q'' None = map byte ''http://[::1]/p?q''" by code_simp
  then have E: "input E = map byte ''http://[::1]/p?q''" "base E = None" "override E = None"
    "tables E = no_tables" by (simp_all add: E_def start_env_def)
  have "parser_run E (start_state empty_url None)
      = Value (True, (empty_url\<lparr>scheme := ''http'', host := Some ''[::1]'', path := [''p''], query := Some ''q''\<rparr>))"
    by (subst parser_run.simps, simp add: E machine_eval host_loopback [simplified] del: moved_simps)+
  then show ?thesis by (simp add: parse_url_def basic_parse_start E_def)
qed

text \<open>C1. Parsing never reaches undefined behaviour, whatever the input, and a record it answers with
  is well formed: its scheme is a scheme in lower case, its parts are in the alphabets of their
  percent-encode sets, a port fits 16 bits and is not the default one, credentials and ports have a host
  to go with, a special URL has a host and a path, an opaque path is alone.\<close>

theorem parse_url_well_formed:
  assumes "tables_points D" "\<forall>r. b = Some r \<longrightarrow> record_ok r"
  shows "parse_url D raw b \<noteq> Fault \<and> (\<forall>u. parse_url D raw b = Value u \<longrightarrow> record_ok u)"
  using assms by (rule parse_url_answers)

theorem parse_url_well_formed_witness:
  "\<exists>u. parse_url no_tables ''a:b'' None = Value u \<and> record_ok u \<and> opaque_path u
     \<and> parse_url no_tables ''?q'' (Some u) \<noteq> Fault"
proof -
  obtain u where u: "parse_url no_tables ''a:b'' None = Value u" "opaque_path u"
    using parse_a_b by simp
  then have "record_ok u" using parse_url_well_formed [OF no_tables_points, of None "''a:b''"] by simp
  with u parse_url_well_formed [OF no_tables_points, of "Some u" "''?q''"] show ?thesis by auto
qed

lemma code_points_length: "length (code_points s) \<le> length s"
proof (induction s rule: code_points.induct)
  case (2 c cs)
  obtain cp n where d: "decode_utf8 c cs = (cp, n)" by fastforce
  from 2 [OF d [symmetric] refl] d show ?case by simp
qed simp

lemma trimmed_length: "length (rev (dropWhile P (rev (dropWhile P s)))) \<le> length s"
  using length_dropWhile_le [of P s] length_dropWhile_le [of P "rev (dropWhile P s)"] by simp

lemma cleaned_length: "length (cleaned_input raw ov) \<le> length raw"
proof -
  let ?keep = "\<lambda>c. c \<noteq> chr 9 \<and> c \<noteq> chr 10 \<and> c \<noteq> chr 13"
  define body where "body = (if ov = None then trim_controls raw else raw)"
  have "length body \<le> length raw" by (simp add: body_def trim_controls_def trimmed_length del: length_rev)
  with length_filter_le [of ?keep body] code_points_length [of "filter ?keep body"] show ?thesis
    unfolding cleaned_input_def body_def [symmetric] by linarith
qed

text \<open>C27. The loop takes a number of steps linear in the input: \<open>21 (n + 2)\<close> of them give the answer
  for a text of \<open>n\<close> bytes.\<close>

theorem parse_url_linear:
  assumes "tables_points D" "\<forall>r. b = Some r \<longrightarrow> record_ok r"
  shows "run_for (21 * (length raw + 2)) (start_env D raw b None) (start_state empty_url None)
    = Some (basic_parse D raw b empty_url None)"
proof -
  let ?E = "start_env D raw b None" and ?s = "start_state empty_url None"
  have "env_ok ?E" using assms by (intro start_env_ok) simp_all
  moreover have "steps_left ?E ?s < 21 * (length raw + 2)"
    using cleaned_length [of raw None] by (simp add: steps_left_def start_env_def start_state_def rank_def)
  ultimately show ?thesis
    unfolding basic_parse_start by (intro run_for_enough start_plain_inv)
qed

theorem parse_url_linear_witness:
  "run_for 105 (start_env no_tables ''a:b'' None None) (start_state empty_url None)
   = Some (Value (True, empty_url\<lparr>scheme := ''a'', path := [''b''], opaque_path := True\<rparr>))"
proof -
  have "basic_parse no_tables ''a:b'' None empty_url None
      = Value (True, empty_url\<lparr>scheme := ''a'', path := [''b''], opaque_path := True\<rparr>)"
    using parse_a_b by (auto simp: parse_url_def bind_outcome_eq_Value split: if_splits)
  with parse_url_linear [OF no_tables_points, of None "''a:b''"] show ?thesis by simp
qed

text \<open>C14. Every setter, on every value, leaves a well-formed record well formed, never reaches
  undefined behaviour, and reports a failure only when it left the record as it was.\<close>

theorem set_url_part_keeps:
  assumes "tables_points D" "record_ok u"
  shows "\<exists>ok v. set_url_part D u part raw = Value (ok, v) \<and> record_ok v \<and> (\<not> ok \<longrightarrow> v = u)"
  using assms by (rule set_url_part_answers)

theorem set_url_part_keeps_witness:
  "\<exists>u v ok. parse_url no_tables ''a:b'' None = Value u \<and> set_url_part no_tables u Hash_part ''#x y'' = Value (ok, v)
     \<and> record_ok v"
proof -
  obtain u where u: "parse_url no_tables ''a:b'' None = Value u" using parse_a_b by simp
  then have "record_ok u" using parse_url_answers [OF no_tables_points, of None "''a:b''"] by simp
  from u set_url_part_keeps [OF no_tables_points this, of Hash_part "''#x y''"] show ?thesis by blast
qed

section \<open>The alphabet of a serialised URL\<close>

definition printable :: "string \<Rightarrow> bool" where
  "printable s \<longleftrightarrow> (\<forall>c \<in> set s. 0x20 \<le> byte c \<and> byte c \<le> 0x7E)"

lemma printable_simps [simp]:
  "printable []" "printable (c # s) \<longleftrightarrow> 0x20 \<le> byte c \<and> byte c \<le> 0x7E \<and> printable s"
  "printable (s @ t) \<longleftrightarrow> printable s \<and> printable t"
  by (auto simp: printable_def)

lemma printable_concat: "printable (concat ss) \<longleftrightarrow> (\<forall>s \<in> set ss. printable s)"
  by (induction ss) simp_all

definition address_char :: "char \<Rightarrow> bool" where
  "address_char c \<longleftrightarrow> 0x20 < byte c \<and> byte c \<le> 0x7E \<and> c \<noteq> CHR ''#'' \<and> c \<noteq> CHR ''?'' \<and> c \<noteq> CHR ''/''"

lemma hex_text_address: "\<forall>c \<in> set (hex_text v). address_char c"
proof (induction v rule: hex_text.induct)
  case (1 v)
  have "v mod 16 < length hex_lower" by (simp add: hex_lower_def)
  moreover have "\<forall>c \<in> set hex_lower. address_char c" by (simp add: hex_lower_def address_char_def)
  ultimately have "address_char (hex_lower ! (v mod 16))" by (simp only: nth_mem)
  then show ?case using 1 by (subst hex_text.simps) (simp add: bits ball_Un)
qed

lemma ipv6_pieces_chars: "\<forall>c \<in> set (ipv6_pieces b skipping i vs). address_char c"
proof (induction b skipping i vs rule: ipv6_pieces.induct)
  case (2 b skipping i v vs)
  have "address_char (CHR '':'')" by (simp add: address_char_def)
  with 2 hex_text_address [of v] show ?case by (simp add: ball_Un)
qed simp

lemma ipv6_text_chars: "\<forall>c \<in> set (ipv6_text address). address_char c"
  using ipv6_pieces_chars [of "fst (best_run 0 address 8 1)" False 0 address]
  by (simp add: ipv6_text_def ball_Un address_char_def [of "CHR ''[''"] address_char_def [of "CHR '']''"])

lemma host_text_chars:
  assumes "host_text h"
  shows "printable h" "CHR ''#'' \<notin> set h" "CHR ''?'' \<notin> set h" "CHR ''/'' \<notin> set h"
proof -
  consider (v6) a where "h = ipv6_text a" | (chars) "\<forall>c \<in> set h. host_char c"
    using assms by (auto simp: host_text_def)
  then have "printable h \<and> CHR ''#'' \<notin> set h \<and> CHR ''?'' \<notin> set h \<and> CHR ''/'' \<notin> set h"
  proof cases
    case v6
    have "\<not> address_char (CHR ''#'')" "\<not> address_char (CHR ''?'')" "\<not> address_char (CHR ''/'')"
      by (simp_all add: address_char_def)
    moreover have "printable (ipv6_text a)"
      using ipv6_text_chars [of a] by (simp add: printable_def address_char_def less_imp_le)
    ultimately show ?thesis using ipv6_text_chars [of a] unfolding v6 by blast
  next
    case chars
    then have "\<forall>c \<in> set h. 0x20 \<le> byte c \<and> byte c \<le> 0x7E" by (auto simp: host_char_def)
    moreover have "\<not> host_char (CHR ''#'')" "\<not> host_char (CHR ''?'')" "\<not> host_char (CHR ''/'')"
      by (simp_all add: host_char_def forbidden_host_def)
    ultimately show ?thesis using chars unfolding printable_def by blast
  qed
  then show "printable h" "CHR ''#'' \<notin> set h" "CHR ''?'' \<notin> set h" "CHR ''/'' \<notin> set h" by simp_all
qed

lemma text_ok_printable: "text_ok es s \<Longrightarrow> printable s"
  by (auto simp: text_ok_def printable_def in_set_def not_less)

lemma text_ok_not: "text_ok es s \<Longrightarrow> in_set (byte d) es \<Longrightarrow> d \<notin> set s"
  by (auto simp: text_ok_def)

lemma encoded_delimiters:
  "in_set 35 Query" "in_set 35 Special_query" "in_set 35 Path" "in_set 63 Path"
  "in_set 35 Userinfo" "in_set 63 Userinfo" "in_set 47 Userinfo"
  by (simp_all add: in_set_def set_chars_def chr_eq_iff)

lemma decimal_chars: "printable (decimal n)" "CHR ''#'' \<notin> set (decimal n)" "CHR ''?'' \<notin> set (decimal n)"
  using decimal_digits [of n] by (auto simp: printable_def)

lemma scheme_chars:
  assumes "scheme_ok s"
  shows "printable s" "CHR ''#'' \<notin> set s" "CHR ''?'' \<notin> set s"
  using assms by (auto simp: scheme_ok_def scheme_points_def scheme_char_def is_digit_def printable_def)

definition plain_text :: "string \<Rightarrow> bool" where
  "plain_text s \<longleftrightarrow> printable s \<and> CHR ''#'' \<notin> set s \<and> CHR ''?'' \<notin> set s"

lemma plain_simps [simp]:
  "plain_text []" "plain_text (s @ t) \<longleftrightarrow> plain_text s \<and> plain_text t"
  "plain_text (c # s) \<longleftrightarrow> 0x20 \<le> byte c \<and> byte c \<le> 0x7E \<and> c \<noteq> CHR ''#'' \<and> c \<noteq> CHR ''?'' \<and> plain_text s"
  by (auto simp: plain_text_def)

lemma plain_concat: "plain_text (concat ss) \<longleftrightarrow> (\<forall>s \<in> set ss. plain_text s)"
  by (induction ss) simp_all

lemma plain_userinfo: "text_ok Userinfo s \<Longrightarrow> plain_text s"
  by (simp add: plain_text_def text_ok_printable text_ok_not encoded_delimiters)

lemma plain_segment: "segment_ok special s \<Longrightarrow> plain_text s"
  using text_ok_not [of Path s "CHR ''#''"] text_ok_not [of Path s "CHR ''?''"] text_ok_printable [of Path s]
  by (simp add: plain_text_def segment_ok_def encoded_delimiters)

lemma plain_opaque: "opaque_ok s \<Longrightarrow> plain_text s"
  using text_ok_printable [of C0 s] by (simp add: plain_text_def opaque_ok_def)

lemma plain_pathname: "path_ok u \<Longrightarrow> plain_text (pathname u)"
  by (cases "path u") (auto simp: path_ok_def pathname_def plain_concat plain_opaque plain_segment split: if_splits)

lemma plain_host: "host_text h \<Longrightarrow> plain_text h"
  by (simp add: plain_text_def host_text_chars)

lemma plain_authority: "parts_ok u \<Longrightarrow> plain_text (host_and_port u)"
  by (auto simp: host_and_port_def parts_ok_def plain_host plain_text_def [of "decimal _"] decimal_chars
      split: option.splits)

lemma plain_before_query: "record_ok u \<Longrightarrow> plain_text (serialize True (u\<lparr>query := None\<rparr>))"
proof -
  assume "record_ok u"
  then have u: "parts_ok u" "path_ok u" "scheme_ok (scheme u)" "text_ok Userinfo (username u)"
    "text_ok Userinfo (password u)" by (simp_all add: record_ok_def parts_ok_def)
  have "plain_text (scheme u)" using u(3) by (simp add: plain_text_def scheme_chars)
  moreover have "pathname (u\<lparr>query := None\<rparr>) = pathname u" "host_and_port (u\<lparr>query := None\<rparr>) = host_and_port u"
    "has_credentials (u\<lparr>query := None\<rparr>) = has_credentials u"
    by (simp_all add: pathname_def host_and_port_def has_credentials_def cong: option.case_cong list.case_cong if_cong)
  ultimately show ?thesis using u plain_pathname [OF u(2)] plain_authority [OF u(1)]
    by (simp add: serialize_def plain_userinfo split: option.splits)
qed

lemma serialize_query:
  "serialize True u = serialize True (u\<lparr>query := None\<rparr>) @ (case query u of None \<Rightarrow> [] | Some q \<Rightarrow> ''?'' @ q)"
  "serialize False u = serialize True u @ (case fragment u of None \<Rightarrow> [] | Some f \<Rightarrow> ''#'' @ f)"
  by (simp_all add: serialize_def pathname_def host_and_port_def has_credentials_def
      cong: option.case_cong list.case_cong if_cong)

lemma query_chars:
  assumes "record_ok u" "query u = Some q"
  shows "printable q" "CHR ''#'' \<notin> set q"
proof -
  have t: "text_ok (query_set u) q" using assms by (simp add: record_ok_def parts_ok_def)
  then show "printable q" by (rule text_ok_printable)
  show "CHR ''#'' \<notin> set q" using text_ok_not [OF t, of "CHR ''#''"]
    by (simp add: query_set_def encoded_delimiters split: if_splits)
qed

text \<open>C26. A serialised record is printable ASCII and its delimiters say where its parts are: the first
  hash sign starts the fragment, and the first question mark before it the query.\<close>

theorem serialize_delimited:
  assumes "record_ok u"
  shows "printable (serialize False u)
    \<and> takeWhile (\<lambda>c. c \<noteq> CHR ''#'') (serialize False u) = serialize True u
    \<and> takeWhile (\<lambda>c. c \<noteq> CHR ''#'' \<and> c \<noteq> CHR ''?'') (serialize False u) = serialize True (u\<lparr>query := None\<rparr>)"
proof -
  let ?h = "serialize True (u\<lparr>query := None\<rparr>)"
  have h: "plain_text ?h" using assms by (rule plain_before_query)
  have f: "printable f" if "fragment u = Some f" for f
    using assms that by (auto simp: record_ok_def parts_ok_def intro: text_ok_printable)
  have all: "\<forall>c \<in> set ?h. c \<noteq> CHR ''#''" "\<forall>c \<in> set ?h. c \<noteq> CHR ''#'' \<and> c \<noteq> CHR ''?''"
    using h unfolding plain_text_def by blast+
  have q: "\<forall>c \<in> set q. c \<noteq> CHR ''#''" if "query u = Some q" for q
    using query_chars(2) [OF assms that] by blast
  have "printable (serialize False u)"
    using h f query_chars(1) [OF assms] unfolding serialize_query(2) serialize_query(1) [of u] plain_text_def by (simp split: option.split)
  moreover have "takeWhile (\<lambda>c. c \<noteq> CHR ''#'') (serialize False u) = serialize True u"
    using all(1) q unfolding serialize_query(2) serialize_query(1) [of u]
    by (cases "query u"; cases "fragment u") (simp_all add: takeWhile_append2 takeWhile_eq_all_conv [THEN iffD2])
  moreover have "takeWhile (\<lambda>c. c \<noteq> CHR ''#'' \<and> c \<noteq> CHR ''?'') (serialize False u) = ?h"
    using all(2) unfolding serialize_query(2) serialize_query(1) [of u]
    by (cases "query u"; cases "fragment u") (simp_all add: takeWhile_append2 takeWhile_eq_all_conv [THEN iffD2])
  ultimately show ?thesis by blast
qed

theorem serialize_delimited_witness:
  "\<exists>u. parse_url no_tables ''a:b'' None = Value u \<and> printable (serialize False u) \<and> serialize False u = ''a:b''"
proof -
  obtain u where u: "parse_url no_tables ''a:b'' None = Value u" "serialize False u = ''a:b''"
    using parse_a_b by (simp add: serialize_def pathname_def)
  then have "record_ok u" using parse_url_answers [OF no_tables_points, of None "''a:b''"] by simp
  from u serialize_delimited [OF this] show ?thesis by blast
qed

section \<open>What goes over the wire\<close>

text \<open>No space, no control, no hash sign: text that cannot end a request line or a header line.\<close>

definition wire_text :: "string \<Rightarrow> bool" where
  "wire_text s \<longleftrightarrow> (\<forall>c \<in> set s. 0x20 < byte c \<and> byte c < 0x7F \<and> c \<noteq> CHR ''#'')"

lemma wire_simps [simp]:
  "wire_text []" "wire_text (s @ t) \<longleftrightarrow> wire_text s \<and> wire_text t"
  "wire_text (c # s) \<longleftrightarrow> 0x20 < byte c \<and> byte c < 0x7F \<and> c \<noteq> CHR ''#'' \<and> wire_text s"
  by (auto simp: wire_text_def)

lemma wire_concat: "wire_text (concat ss) \<longleftrightarrow> (\<forall>s \<in> set ss. wire_text s)"
  by (induction ss) simp_all

lemma text_ok_wire:
  assumes "text_ok es s" "in_set 32 es" "in_set 35 es"
  shows "wire_text s"
  unfolding wire_text_def
proof
  fix c assume "c \<in> set s"
  with assms(1) have c: "\<not> in_set (byte c) es" by (simp add: text_ok_def)
  moreover from c have "byte c \<ge> 0x20" "byte c \<le> 0x7E" by (simp_all add: in_set_def not_less)
  ultimately have "byte c \<ge> 0x20" "byte c \<le> 0x7E" "byte c \<noteq> 32" "byte c \<noteq> 35"
    using assms(2,3) by metis+
  then show "0x20 < byte c \<and> byte c < 0x7F \<and> c \<noteq> CHR ''#''" by auto
qed

lemma encoded_spaces: "in_set 32 Query" "in_set 32 Special_query" "in_set 32 Path"
  by (simp_all add: in_set_def set_chars_def chr_eq_iff)

lemma wire_host: "host_text h \<Longrightarrow> wire_text h"
proof -
  have v6: "wire_text (ipv6_text a)" for a
    using ipv6_text_chars [of a] unfolding wire_text_def by (fastforce simp: address_char_def)
  have "\<not> host_char (CHR ''#'')" by (simp add: host_char_def forbidden_host_def)
  then have "wire_text s" if "\<forall>c \<in> set s. host_char c" for s
    using that unfolding wire_text_def by (metis host_char_def)
  moreover assume "host_text h"
  ultimately show ?thesis using v6 by (auto simp: host_text_def)
qed

lemma wire_authority: "parts_ok u \<Longrightarrow> wire_text (host_and_port u)"
proof -
  have "wire_text (decimal n)" for n using decimal_digits [of n] by (auto simp: wire_text_def)
  then show "parts_ok u \<Longrightarrow> wire_text (host_and_port u)"
    by (simp add: host_and_port_def parts_ok_def wire_host split: option.split)
qed

lemma wire_path:
  assumes "record_ok u" "is_special u"
  shows "wire_text (pathname u)" "\<exists>p. pathname u = CHR ''/'' # p"
proof -
  have o: "\<not> opaque_path u" "\<forall>seg \<in> set (path u). segment_ok True seg" "path u \<noteq> []"
    using assms by (auto simp: record_ok_def parts_ok_def path_ok_def split: if_splits)
  then have "\<forall>seg \<in> set (path u). wire_text seg"
    using text_ok_wire [OF _ encoded_spaces(3) encoded_delimiters(3)] by (simp add: segment_ok_def)
  then show "wire_text (pathname u)" using o(1) by (simp add: pathname_def wire_concat)
  show "\<exists>p. pathname u = CHR ''/'' # p" using o by (cases "path u") (simp_all add: pathname_def)
qed

lemma wire_query:
  assumes "record_ok u" "query u = Some q"
  shows "wire_text q"
proof -
  have "text_ok (query_set u) q" using assms by (simp add: record_ok_def parts_ok_def)
  then show ?thesis
    by (rule text_ok_wire) (simp_all add: query_set_def encoded_delimiters encoded_spaces)
qed

text \<open>C2. What the network sees of a URL: parsing for a fetch always answers, and when the answer is
  valid the scheme is http or https, there is a host, the port is a number of 16 bits, the target
  starts with a slash, and neither the target nor the authority has a space, a control character or
  a hash sign in it, so nothing a page writes can end the request line or the Host header.\<close>

theorem fetch_is_safe:
  assumes "tables_points D"
  shows "\<exists>f. parse_absolute D raw = Value f
    \<and> (valid f \<longrightarrow> (fetch_scheme f = ''http'' \<or> fetch_scheme f = ''https'') \<and> fetch_authority f \<noteq> []
       \<and> (\<exists>p < 2 ^ 16. fetch_port f = decimal p) \<and> (\<exists>t. fetch_target f = CHR ''/'' # t)
       \<and> wire_text (fetch_target f) \<and> wire_text (fetch_authority f))"
proof (cases "parse_url D raw None")
  case (Value u)
  then have ok: "record_ok u" using parse_url_answers [OF assms, of None raw] by simp
  show ?thesis
  proof (cases "scheme u \<noteq> ''http'' \<and> scheme u \<noteq> ''https'' \<or> hostname u = []")
    case True
    then have "fetch_parts u = empty_fetch" unfolding fetch_parts_def by (simp only: if_True)
    with Value show ?thesis by (simp add: parse_absolute_def empty_fetch_def)
  next
    case False
    then have special: "is_special u" by (auto simp: is_special_def special_scheme_def default_port_def)
    have "\<exists>p < 2 ^ 16. (case port u of Some v \<Rightarrow> decimal v | None \<Rightarrow> if scheme u = ''https'' then ''443'' else ''80'')
        = decimal p"
    proof (cases "port u")
      case None
      have "decimal 443 = ''443''" "decimal 80 = ''80''" by (simp_all add: decimal.simps chr_eq_iff)
      with None show ?thesis
        by (intro exI [of _ "if scheme u = ''https'' then 443 else 80"]) simp
    next
      case (Some v)
      with ok show ?thesis by (auto simp: record_ok_def parts_ok_def)
    qed
    moreover have "host_and_port u \<noteq> []" using False
      by (auto simp: hostname_def host_and_port_def split: option.splits)
    moreover have "wire_text (case query u of None \<Rightarrow> [] | Some q \<Rightarrow> ''?'' @ q)"
      using wire_query [OF ok] by (simp split: option.split)
    moreover have "wire_text (host_and_port u)" using ok by (intro wire_authority) (simp add: record_ok_def)
    moreover have "\<not> (scheme u \<noteq> ''http'' \<and> scheme u \<noteq> ''https'' \<or> hostname u = [])" using False .
    ultimately show ?thesis
      using wire_path [OF ok special]
      unfolding parse_absolute_def Value outcome.case fetch_parts_def Let_def
      by (simp only: if_False) auto
  qed
qed (use parse_url_answers [OF assms, of None raw] in \<open>simp_all add: parse_absolute_def empty_fetch_def\<close>)
theorem fetch_is_safe_witness:
  "\<exists>f. parse_absolute no_tables ''http://[::1]/p?q'' = Value f \<and> valid f \<and> fetch_target f = ''/p?q''
     \<and> wire_text (fetch_target f) \<and> fetch_authority f = ''[::1]'' \<and> fetch_host f = ''::1'' \<and> fetch_port f = ''80''"
proof -
  obtain f where f: "parse_absolute no_tables ''http://[::1]/p?q'' = Value f" "valid f" "fetch_target f = ''/p?q''"
    "fetch_authority f = ''[::1]''" "fetch_host f = ''::1''" "fetch_port f = ''80''"
    unfolding parse_absolute_def parse_loopback
    by (simp add: fetch_parts_def hostname_def pathname_def host_and_port_def substr_def)
  with fetch_is_safe [OF no_tables_points, of "''http://[::1]/p?q''"] show ?thesis by auto
qed

section \<open>Data URLs read back\<close>

lemma find_comma: "CHR '','' \<notin> set m \<Longrightarrow> find_index (\<lambda>c. c = CHR '','') (m @ CHR '','' # t) = Some (length m)"
  by (induction m) auto

text \<open>C34. A data URL built from a media type and the base64 of some bytes, padded or not, with the scheme
  and the base64 marker in any mixture of cases, parses to that media type in lower case, without its
  parameters, and to the same bytes; without a media type the default of the RFC is answered.\<close>

theorem data_url_round:
  assumes "simd_agrees simd" "CHR '','' \<notin> set m"
    and "map ascii_lower scheme_text = ''data:''" "map ascii_lower marker = '';base64''"
  shows "parse_data_url simd (scheme_text @ m @ marker @ '','' @ base64_encode bs False omit)
    = Some \<lparr>mime = (let kind = takeWhile (\<lambda>c. c \<noteq> CHR '';'') m in
              if kind \<noteq> [] then ascii_lower_copy kind else ''text/plain''),
            bytes = bs\<rparr>"
proof -
  let ?s = "scheme_text @ m @ marker @ '','' @ base64_encode bs False omit"
  have len: "length scheme_text = 5" "length marker = 7"
    using arg_cong [OF assms(3), of length] arg_cong [OF assms(4), of length] by simp_all
  then have d: "is_data_url ?s" using assms(3) by (simp add: is_data_url_def)
  have rest: "drop 5 ?s = (m @ marker) @ CHR '','' # base64_encode bs False omit" using len by simp
  have "CHR '','' \<notin> set marker"
  proof
    assume "CHR '','' \<in> set marker"
    then have "ascii_lower (CHR '','') \<in> set '';base64''" unfolding assms(4) [symmetric] by simp
    then show False by (simp add: ascii_lower_def between_def chr_eq_iff)
  qed
  then have comma: "find_index (\<lambda>c. c = CHR '','') (drop 5 ?s) = Some (length m + 7)"
    unfolding rest using assms(2) len by (subst find_comma) auto
  have b: "base64_decode simd (base64_encode bs False omit) = bs"
    using assms(1) lenient_encoded [of omit bs]
    by (auto simp: simd_agrees_def base64_decode_def base64_encode_def
        simp del: lenient_loop.simps base64_loop.simps split: option.splits)
  have parts: "take (length m + 7) (drop 5 ?s) = m @ marker"
    "drop (length m + 7 + 1) (drop 5 ?s) = base64_encode bs False omit"
    unfolding rest using len by simp_all
  have "ascii_iequals marker '';base64''"
    by (simp add: ascii_iequals_lower ascii_lower_copy_def assms(4)) (simp add: ascii_lower_def between_def chr_eq_iff)
  then show ?thesis
    unfolding parse_data_url_def Let_def comma option.case parts using d b len
    by simp
qed

theorem data_url_round_witness:
  "parse_data_url strict_abcd ''data:Image/PNG;x=1;Base64,QUJD'' = Some \<lparr>mime = ''image/png'', bytes = ''ABC''\<rparr>"
  using data_url_round [OF strict_abcd_agrees, of "''Image/PNG;x=1''" "''data:''" "'';Base64''" "''ABC''" False]
  by (simp add: base64_encode_def base64_turn base64_alphabet_def ascii_lower_copy_def ascii_lower_def
      between_def chr_eq_iff)

end
