(* ===== verification/Css_Token.thy ===== *)
theory Css_Token
  imports Ascii Utf8
begin

text \<open>
  The CSS tokenizer (\<^verbatim>\<open>lib/Style/css/token.cpp\<close>, \<^verbatim>\<open>include/ctbrowser/style/css/token.hpp\<close>):
  input preprocessing, one definition per consume-a-token algorithm, and the loop. The lexer is a
  position in the preprocessed input and the buffer of decoded escapes; a token's text is an offset
  into the pool, which is the input followed by that buffer. Offsets and lengths are written with the
  casts to 32 and 16 bits of the source. Shown: where the tokens of a stream lie, and (in
  \<^verbatim>\<open>Css_Escape\<close>) that serialised identifiers and strings read back.
\<close>

section \<open>Characters\<close>

definition is_newline :: "char \<Rightarrow> bool" where
  "is_newline c \<longleftrightarrow> c = chr 10"

definition is_whitespace :: "char \<Rightarrow> bool" where
  "is_whitespace c \<longleftrightarrow> c = chr 10 \<or> c = chr 9 \<or> c = CHR '' ''"

definition css_digit :: "char \<Rightarrow> bool" where
  "css_digit c \<longleftrightarrow> between (CHR ''0'') c (CHR ''9'')"

definition is_name_start :: "char \<Rightarrow> bool" where
  "is_name_start c \<longleftrightarrow> between (CHR ''a'') c (CHR ''z'') \<or> between (CHR ''A'') c (CHR ''Z'') \<or> c = CHR ''_''
     \<or> byte c \<ge> 0x80"

definition is_name :: "char \<Rightarrow> bool" where
  "is_name c \<longleftrightarrow> is_name_start c \<or> css_digit c \<or> c = CHR ''-''"

abbreviation backslash_char :: char where
  "backslash_char \<equiv> CHR 0x5C"

definition is_valid_escape :: "string \<Rightarrow> nat \<Rightarrow> bool" where
  "is_valid_escape s at \<longleftrightarrow> at < length s \<and> s ! at = backslash_char
     \<and> (at + 1 \<ge> length s \<or> \<not> is_newline (s ! (at + 1)))"

definition append_code_point :: "string \<Rightarrow> code_point \<Rightarrow> string" where
  "append_code_point out cp =
     append_utf8 out (if cp = 0 \<or> cp > 0x10FFFF \<or> 0xD800 \<le> cp \<and> cp \<le> 0xDFFF then 0xFFFD else cp)"

section \<open>Preprocessing\<close>

fun preprocess_from :: "string \<Rightarrow> string" where
  "preprocess_from [] = []"
| "preprocess_from (c # cs) =
     (if c = chr 13
      then chr 10 # preprocess_from (if cs \<noteq> [] \<and> hd cs = chr 10 then drop 1 cs else cs)
      else if c = chr 12 then chr 10 # preprocess_from cs
      else if c = chr 0 then append_code_point [] 0xFFFD @ preprocess_from cs
      else if byte c = 0xED \<and> length cs \<ge> 2 \<and> 0xA0 \<le> byte (hd cs) \<and> byte (hd cs) \<le> 0xBF
      then append_code_point [] 0xFFFD @ preprocess_from (drop 2 cs)
      else c # preprocess_from cs)"

definition has_bom :: "string \<Rightarrow> bool" where
  "has_bom css \<longleftrightarrow> length css \<ge> 3 \<and> map byte (take 3 css) = [0xEF, 0xBB, 0xBF]"

definition preprocess :: "string \<Rightarrow> string" where
  "preprocess css = preprocess_from (if has_bom css then drop 3 css else css)"

section \<open>Tokens\<close>

datatype token_type =
    Eof | Whitespace | Ident | Function | At_keyword | Hash | String_token | Bad_string | Url_token
  | Bad_url | Number | Percentage | Dimension | Delim | Cdo | Cdc | Colon | Semicolon | Comma
  | Open_square | Close_square | Open_paren | Close_paren | Open_curly | Close_curly

text \<open>The number is the sign and the digits that are handed to \<^verbatim>\<open>std::from_chars\<close>: the double is
  its reading of them, times the sign, and zero when the number is out of range. \<open>None\<close> is the zero of
  the tokens that are not numeric.\<close>

record css_token =
  t_type :: token_type
  t_flags :: nat
  t_unit :: nat
  t_text :: nat
  t_length :: nat
  t_number :: "(bool \<times> string) option"

definition flag_id_hash :: nat where
  "flag_id_hash = 1"

definition flag_integer :: nat where
  "flag_integer = 2"

record lexer =
  pos :: nat
  decoded :: string

definition u32 :: "nat \<Rightarrow> nat" where
  "u32 n = n mod 2 ^ 32"

definition u16 :: "nat \<Rightarrow> nat" where
  "u16 n = n mod 2 ^ 16"

definition plain_token :: "token_type \<Rightarrow> nat \<Rightarrow> nat \<Rightarrow> css_token" where
  "plain_token kind at len =
     \<lparr>t_type = kind, t_flags = 0, t_unit = 0, t_text = u32 at, t_length = u32 len, t_number = None\<rparr>"

text \<open>A slice of the source, and text rebuilt at the end of the decoded buffer.\<close>

abbreviation slice_token :: "token_type \<Rightarrow> nat \<Rightarrow> nat \<Rightarrow> css_token" where
  "slice_token kind start stop \<equiv> plain_token kind start (stop - start)"

abbreviation tail_token :: "token_type \<Rightarrow> string \<Rightarrow> nat \<Rightarrow> string \<Rightarrow> css_token" where
  "tail_token kind s out_start d \<equiv> plain_token kind (length s + out_start) (length d - out_start)"

definition peek :: "string \<Rightarrow> nat \<Rightarrow> nat \<Rightarrow> char" where
  "peek s at ahead = (if at + ahead < length s then s ! (at + ahead) else chr 0)"

text \<open>\<^verbatim>\<open>while (at < s.size() && P(s[at])) { ++at; }\<close>\<close>

definition scan_while :: "(char \<Rightarrow> bool) \<Rightarrow> string \<Rightarrow> nat \<Rightarrow> nat" where
  "scan_while P s at = at + length (takeWhile P (drop at s))"

section \<open>Comments\<close>

text \<open>\<^verbatim>\<open>find("*/")\<close> in what is left.\<close>

fun find_close :: "string \<Rightarrow> nat option" where
  "find_close (a # b # cs) =
     (if a = CHR ''*'' \<and> b = CHR ''/'' then Some 0 else map_option Suc (find_close (b # cs)))"
| "find_close _ = None"

function skip_comments :: "string \<Rightarrow> nat \<Rightarrow> nat" where
  "skip_comments s at =
     (if at + 1 < length s \<and> s ! at = CHR ''/'' \<and> s ! (at + 1) = CHR ''*''
      then skip_comments s (case find_close (drop (at + 2) s) of None \<Rightarrow> length s | Some k \<Rightarrow> at + 2 + k + 2)
      else at)"
  by pat_completeness auto
termination
  by (relation "measure (\<lambda>(s, at). length s - at)") (auto split: option.splits)

declare skip_comments.simps [simp del]

section \<open>What starts an identifier or a number\<close>

definition starts_ident :: "string \<Rightarrow> nat \<Rightarrow> bool" where
  "starts_ident s from \<longleftrightarrow> from < length s
     \<and> (is_name_start (s ! from) \<or> is_valid_escape s from
        \<or> s ! from = CHR ''-'' \<and> from + 1 < length s
          \<and> (is_name_start (s ! (from + 1)) \<or> s ! (from + 1) = CHR ''-'' \<or> is_valid_escape s (from + 1)))"

definition starts_number :: "string \<Rightarrow> nat \<Rightarrow> bool" where
  "starts_number s from \<longleftrightarrow> from < length s
     \<and> (let c = s ! from in
        if css_digit c then True
        else if c = CHR ''.'' then from + 1 < length s \<and> css_digit (s ! (from + 1))
        else if c \<noteq> CHR ''+'' \<and> c \<noteq> CHR ''-'' then False
        else if from + 1 \<ge> length s then False
        else if css_digit (s ! (from + 1)) then True
        else s ! (from + 1) = CHR ''.'' \<and> from + 2 < length s \<and> css_digit (s ! (from + 2)))"

section \<open>Escapes\<close>

text \<open>A decoded code point, or the bytes to take over.\<close>

datatype escape_value = Point code_point | Verbatim string

definition hex_char :: "char \<Rightarrow> bool" where
  "hex_char c \<longleftrightarrow> hex_value c \<ge> 0"

definition continuation_byte :: "char \<Rightarrow> bool" where
  "continuation_byte c \<longleftrightarrow> byte c \<ge> 0x80 \<and> byte c < 0xC0"

definition hex_number :: "string \<Rightarrow> nat" where
  "hex_number digits = foldl (\<lambda>v c. v * 16 + nat (hex_value c)) 0 digits"

definition consume_escape :: "string \<Rightarrow> nat \<Rightarrow> escape_value \<times> nat" where
  "consume_escape s at =
     (let start = at + 1 in
      if start \<ge> length s then (Point 0xFFFD, start)
      else if \<not> hex_char (s ! start)
      then let stop = scan_while continuation_byte s (start + 1) in (Verbatim (substr s start (stop - start)), stop)
      else let digits = takeWhile hex_char (take 6 (drop start s));
               after = start + length digits;
               v = hex_number digits
        in (Point (if v = 0 then 0xFFFD else v),
            if after < length s \<and> is_whitespace (s ! after) then after + 1 else after))"

definition put_escape :: "string \<Rightarrow> escape_value \<Rightarrow> string" where
  "put_escape d e = (case e of Point cp \<Rightarrow> append_code_point d cp | Verbatim v \<Rightarrow> d @ v)"

lemma scan_while_ge [simp]: "at \<le> scan_while P s at"
  by (simp add: scan_while_def)

lemma scan_while_after [simp]: "n \<le> at \<Longrightarrow> n \<le> scan_while P s at"
  by (simp add: scan_while_def)

lemma scan_while_le: "at \<le> length s \<Longrightarrow> scan_while P s at \<le> length s"
  using length_takeWhile_le [of P "drop at s"] by (simp add: scan_while_def)

lemma consume_escape_advances: "at < snd (consume_escape s at)"
proof -
  have "at + 1 < scan_while continuation_byte s (at + 2)"
    using scan_while_ge [of "at + 2" continuation_byte s] by linarith
  then show ?thesis by (auto simp: consume_escape_def Let_def)
qed

section \<open>Names\<close>

function name_loop :: "string \<Rightarrow> nat \<Rightarrow> string \<Rightarrow> nat \<times> string" where
  "name_loop s at d =
     (if at < length s
      then if is_valid_escape s at
        then name_loop s (snd (consume_escape s at)) (put_escape d (fst (consume_escape s at)))
        else if \<not> is_name (s ! at) then (at, d)
        else name_loop s (at + 1) (d @ [s ! at])
      else (at, d))"
  by pat_completeness auto
termination
  by (relation "measure (\<lambda>(s, at, d). length s - at)") (auto intro: diff_less_mono2 consume_escape_advances)

declare name_loop.simps [simp del]

text \<open>The scan stops at a backslash, which is not a name character: a token without one is a slice of
  the input, and one with it is rebuilt, its prefix included.\<close>

definition consume_name_token :: "string \<Rightarrow> token_type \<Rightarrow> nat \<Rightarrow> lexer \<Rightarrow> css_token \<times> lexer" where
  "consume_name_token s kind start l =
     (let scan = scan_while is_name s (pos l) in
      if scan \<ge> length s \<or> s ! scan \<noteq> backslash_char
      then (slice_token kind start scan, l\<lparr>pos := scan\<rparr>)
      else let out_start = length (decoded l);
               (at, d) = name_loop s (pos l) (decoded l @ substr s start (pos l - start))
        in (tail_token kind s out_start d, \<lparr>pos = at, decoded = d\<rparr>))"

section \<open>Strings\<close>

function string_loop :: "string \<Rightarrow> char \<Rightarrow> nat \<Rightarrow> string \<Rightarrow> nat \<times> string" where
  "string_loop s quote at d =
     (if at < length s \<and> s ! at \<noteq> quote \<and> \<not> is_newline (s ! at)
      then if s ! at = backslash_char
        then if at + 1 < length s \<and> is_newline (s ! (at + 1)) then string_loop s quote (at + 2) d
          else string_loop s quote (snd (consume_escape s at)) (put_escape d (fst (consume_escape s at)))
        else string_loop s quote (at + 1) (d @ [s ! at])
      else (at, d))"
  by pat_completeness auto
termination
  by (relation "measure (\<lambda>(s, quote, at, d). length s - at)")
    (auto intro: diff_less_mono2 consume_escape_advances)

declare string_loop.simps [simp del]

definition consume_string :: "string \<Rightarrow> char \<Rightarrow> lexer \<Rightarrow> css_token \<times> lexer" where
  "consume_string s quote l =
     (let start = pos l;
          scan = scan_while (\<lambda>c. c \<noteq> quote \<and> \<not> is_newline c \<and> c \<noteq> backslash_char) s (start + 1)
      in if \<not> (scan < length s \<and> s ! scan \<noteq> quote \<and> s ! scan = backslash_char)
         then if scan < length s \<and> is_newline (s ! scan)
           then (slice_token Bad_string start scan, l\<lparr>pos := scan\<rparr>)
           else if scan < length s
           then (slice_token String_token start (scan + 1), l\<lparr>pos := scan + 1\<rparr>)
           else let d = decoded l @ drop start s @ [quote]
             in (tail_token String_token s (length (decoded l)) d, \<lparr>pos = length s, decoded = d\<rparr>)
         else let (at, d) = string_loop s quote (start + 1) (decoded l @ [quote]);
                  unterminated = (at \<ge> length s \<or> is_newline (s ! at));
                  after = (if \<not> unterminated then at + 1 else at);
                  d = d @ [quote]
           in (tail_token (if unterminated \<and> after < length s then Bad_string else String_token)
                 s (length (decoded l)) d, \<lparr>pos = after, decoded = d\<rparr>))"

section \<open>Numbers\<close>

text \<open>A fraction, and an exponent: the position after it, and whether the number is still an integer.\<close>

definition scan_fraction :: "string \<Rightarrow> nat \<Rightarrow> nat \<times> bool" where
  "scan_fraction s at =
     (if peek s at 0 = CHR ''.'' \<and> css_digit (peek s at 1) then (scan_while css_digit s (at + 2), False)
      else (at, True))"

definition scan_exponent :: "string \<Rightarrow> nat \<times> bool \<Rightarrow> nat \<times> bool" where
  "scan_exponent s r =
     (let at = fst r in
      if peek s at 0 = CHR ''e'' \<or> peek s at 0 = CHR ''E''
      then let look = (if at + 1 < length s \<and> (s ! (at + 1) = CHR ''+'' \<or> s ! (at + 1) = CHR ''-'')
                       then at + 2 else at + 1)
        in if look < length s \<and> css_digit (s ! look) then (scan_while css_digit s look, False) else r
      else r)"

text \<open>The end of the number, and whether it is an integer.\<close>

definition scan_number :: "string \<Rightarrow> nat \<Rightarrow> nat \<times> bool" where
  "scan_number s start =
     (let at = (if peek s start 0 = CHR ''+'' \<or> peek s start 0 = CHR ''-'' then start + 1 else start)
      in scan_exponent s (scan_fraction s (scan_while css_digit s at)))"

definition signed_digits :: "string \<Rightarrow> bool \<times> string" where
  "signed_digits digits =
     (if digits \<noteq> [] \<and> (hd digits = CHR ''+'' \<or> hd digits = CHR ''-'')
      then (hd digits = CHR ''-'', tl digits) else (False, digits))"

definition consume_numeric :: "string \<Rightarrow> lexer \<Rightarrow> css_token \<times> lexer" where
  "consume_numeric s l =
     (let start = pos l;
          (at, integer) = scan_number s start;
          v = Some (signed_digits (substr s start (at - start)));
          flags = (if integer then flag_integer else 0)
      in if starts_ident s at
         then let (t, l) = consume_name_token s Dimension start (l\<lparr>pos := at\<rparr>)
           in (t\<lparr>t_number := v, t_flags := t_flags t OR flags, t_unit := u16 (t_length t - (at - start))\<rparr>, l)
         else if peek s at 0 = CHR ''%''
         then ((slice_token Percentage start (at + 1))\<lparr>t_number := v\<rparr>, l\<lparr>pos := at + 1\<rparr>)
         else ((slice_token Number start at)\<lparr>t_number := v, t_flags := flags\<rparr>, l\<lparr>pos := at\<rparr>))"

section \<open>URLs and identifier-like tokens\<close>

text \<open>The body of a URL: where it stops, whether it is bad, whether it had an escape.\<close>

function url_scan :: "string \<Rightarrow> nat \<Rightarrow> bool \<Rightarrow> nat \<times> bool \<times> bool" where
  "url_scan s at escaped =
     (if at < length s
      then let c = s ! at in
        if c = CHR '')'' then (at, False, escaped)
        else if is_whitespace c
        then let look = scan_while is_whitespace s at in (look, look < length s \<and> s ! look \<noteq> CHR '')'', escaped)
        else if c = CHR 0x22 \<or> c = CHR 0x27 \<or> c = CHR ''('' then (at, True, escaped)
        else if c = backslash_char
        then if \<not> is_valid_escape s at then (at, True, escaped)
          else url_scan s (snd (consume_escape s at)) True
        else url_scan s (at + 1) escaped
      else (at, False, escaped))"
  by pat_completeness auto
termination
  by (relation "measure (\<lambda>(s, at, e). length s - at)") (auto intro: diff_less_mono2 consume_escape_advances)

declare url_scan.simps [simp del]

function bad_url_end :: "string \<Rightarrow> nat \<Rightarrow> nat" where
  "bad_url_end s at =
     (if at < length s \<and> s ! at \<noteq> CHR '')''
      then bad_url_end s (if is_valid_escape s at then at + 2 else at + 1) else at)"
  by pat_completeness auto
termination
  by (relation "measure (\<lambda>(s, at). length s - at)") auto

declare bad_url_end.simps [simp del]

function url_decode :: "string \<Rightarrow> nat \<Rightarrow> nat \<Rightarrow> string \<Rightarrow> string" where
  "url_decode s i body_end d =
     (if i < body_end
      then if s ! i = backslash_char \<and> i + 1 < body_end
        then url_decode s (snd (consume_escape s i)) body_end (put_escape d (fst (consume_escape s i)))
        else url_decode s (i + 1) body_end (d @ [s ! i])
      else d)"
  by pat_completeness auto
termination
  by (relation "measure (\<lambda>(s, i, stop, d). stop - i)") (auto intro: diff_less_mono2 consume_escape_advances)

declare url_decode.simps [simp del]

definition consume_url :: "string \<Rightarrow> nat \<Rightarrow> lexer \<Rightarrow> css_token \<times> lexer" where
  "consume_url s start l =
     (let body = scan_while is_whitespace s (pos l);
          (body_end, bad, escaped) = url_scan s body False
      in if bad
         then let at = bad_url_end s body_end; at = (if at < length s then at + 1 else at)
           in (slice_token Bad_url start at, l\<lparr>pos := at\<rparr>)
         else let at = (if body_end < length s then body_end + 1 else body_end) in
           if \<not> escaped then (slice_token Url_token body body_end, l\<lparr>pos := at\<rparr>)
           else let d = url_decode s body body_end (decoded l)
             in (tail_token Url_token s (length (decoded l)) d, \<lparr>pos = at, decoded = d\<rparr>))"

text \<open>The value of a name just consumed, in the input or in the decoded buffer.\<close>

definition name_text :: "string \<Rightarrow> css_token \<Rightarrow> lexer \<Rightarrow> string" where
  "name_text s t l =
     (if t_length t = 0 then []
      else if t_text t \<ge> length s then substr (decoded l) (t_text t - length s) (t_length t)
      else substr s (t_text t) (t_length t))"

definition consume_ident_like :: "string \<Rightarrow> lexer \<Rightarrow> css_token \<times> lexer" where
  "consume_ident_like s l =
     (let start = pos l; (t, l) = consume_name_token s Ident start l in
      if peek s (pos l) 0 \<noteq> CHR ''('' then (t, l)
      else let is_url = ascii_iequals (name_text s t l) ''url'';
               l = l\<lparr>pos := pos l + 1\<rparr>;
               look = scan_while is_whitespace s (pos l)
        in if is_url \<and> (look \<ge> length s \<or> s ! look \<noteq> CHR 0x22 \<and> s ! look \<noteq> CHR 0x27)
           then consume_url s start l
           else (t\<lparr>t_type := Function, t_length := u32 (t_length t + 1)\<rparr>, l))"

section \<open>The next token\<close>

definition simple :: "token_type \<Rightarrow> nat \<Rightarrow> lexer \<Rightarrow> css_token \<times> lexer" where
  "simple kind n l = (plain_token kind (pos l) n, l\<lparr>pos := pos l + n\<rparr>)"

definition consume_hash :: "string \<Rightarrow> lexer \<Rightarrow> css_token \<times> lexer" where
  "consume_hash s l =
     (if is_name (peek s (pos l) 1) \<or> is_valid_escape s (pos l + 1)
      then let start = pos l; l = l\<lparr>pos := pos l + 1\<rparr>; id_like = starts_ident s (pos l);
               (t, l) = consume_name_token s Hash start l
        in (if id_like then t\<lparr>t_flags := t_flags t OR flag_id_hash\<rparr> else t, l)
      else simple Delim 1 l)"

text \<open>The characters that are tokens of their own.\<close>

definition punctuation :: "char \<Rightarrow> token_type option" where
  "punctuation c = map_of [(CHR ''('', Open_paren), (CHR '')'', Close_paren), (CHR ''['', Open_square),
     (CHR '']'', Close_square), (CHR ''{'', Open_curly), (CHR ''}'', Close_curly), (CHR '','', Comma),
     (CHR '':'', Colon), (CHR '';'', Semicolon)] c"

definition next_token :: "string \<Rightarrow> lexer \<Rightarrow> css_token \<times> lexer" where
  "next_token s l =
     (let at = pos l; c = peek s at 0 in
      if is_whitespace c
      then let stop = scan_while is_whitespace s at in (slice_token Whitespace at stop, l\<lparr>pos := stop\<rparr>)
      else if c = CHR 0x22 \<or> c = CHR 0x27 then consume_string s c l
      else case punctuation c of
          Some kind \<Rightarrow> simple kind 1 l
        | None \<Rightarrow>
            if c = CHR ''#'' then consume_hash s l
            else if c = CHR ''+'' \<or> c = CHR ''.''
            then if starts_number s at then consume_numeric s l else simple Delim 1 l
            else if c = CHR ''-''
            then if starts_number s at then consume_numeric s l
              else if peek s at 1 = CHR ''-'' \<and> peek s at 2 = CHR ''>'' then simple Cdc 3 l
              else if starts_ident s at then consume_ident_like s l
              else simple Delim 1 l
            else if c = CHR ''<''
            then if peek s at 1 = CHR ''!'' \<and> peek s at 2 = CHR ''-'' \<and> peek s at 3 = CHR ''-'' then simple Cdo 4 l
              else simple Delim 1 l
            else if c = CHR ''@''
            then if starts_ident s (at + 1) then consume_name_token s At_keyword at (l\<lparr>pos := at + 1\<rparr>)
              else simple Delim 1 l
            else if c = backslash_char
            then if is_valid_escape s at then consume_ident_like s l else simple Delim 1 l
            else if css_digit c then consume_numeric s l
            else if is_name_start c then consume_ident_like s l
            else simple Delim 1 l)"

section \<open>Where a token lies\<close>

text \<open>A token is a slice of the input between the old and the new position, or the text the step added
  to the decoded buffer. Two kinds of token overshoot by one: the last character of a bad URL when it
  ends in an escaped end of input, and the parenthesis of a function whose name was rebuilt.\<close>

definition placed :: "string \<Rightarrow> lexer \<Rightarrow> css_token \<Rightarrow> lexer \<Rightarrow> bool" where
  "placed s l t l' \<longleftrightarrow> (\<exists>a n. t_text t = u32 a \<and> t_length t = u32 n
     \<and> (pos l \<le> a \<and> a + n \<le> pos l'
        \<or> length s + length (decoded l) \<le> a
          \<and> a + n = length s + length (decoded l') + (if t_type t = Function then 1 else 0)))"

definition good_step :: "string \<Rightarrow> lexer \<Rightarrow> css_token \<times> lexer \<Rightarrow> bool" where
  "good_step s l r \<longleftrightarrow> pos l < pos (snd r) \<and> pos (snd r) \<le> length s + (if t_type (fst r) = Bad_url then 1 else 0)
     \<and> (\<exists>x. decoded (snd r) = decoded l @ x) \<and> placed s l (fst r) (snd r) \<and> t_type (fst r) \<noteq> Eof"

lemma consume_escape_le: "at < length s \<Longrightarrow> snd (consume_escape s at) \<le> length s"
proof -
  assume at: "at < length s"
  have "length (takeWhile hex_char (take 6 (drop (at + 1) s))) \<le> length s - (at + 1)"
    using length_takeWhile_le [of hex_char "take 6 (drop (at + 1) s)"] by simp
  moreover have "at + 2 \<le> length s \<Longrightarrow> scan_while continuation_byte s (at + 2) \<le> length s"
    by (rule scan_while_le)
  ultimately show ?thesis using at by (auto simp: consume_escape_def Let_def)
qed

lemma put_escape_append: "\<exists>x. put_escape d e = d @ x"
  by (cases e) (simp_all add: put_escape_def append_code_point_def append_utf8_def)

lemma name_loop_grows:
  assumes "at \<le> length s"
  shows "at \<le> fst (name_loop s at d) \<and> fst (name_loop s at d) \<le> length s
    \<and> (\<exists>x. snd (name_loop s at d) = d @ x)"
  using assms
proof (induction s at d rule: name_loop.induct)
  case (1 s at d)
  consider (over) "\<not> at < length s" | (escape) "at < length s" "is_valid_escape s at"
    | (stop) "at < length s" "\<not> is_valid_escape s at" "\<not> is_name (s ! at)"
    | (char) "at < length s" "\<not> is_valid_escape s at" "is_name (s ! at)" by blast
  then show ?case
  proof cases
    case escape
    have le: "snd (consume_escape s at) \<le> length s" using escape(1) by (rule consume_escape_le)
    obtain x where x: "put_escape d (fst (consume_escape s at)) = d @ x" using put_escape_append by blast
    from 1(1) [OF escape le] x consume_escape_advances [of at s] escape show ?thesis
      by (subst (1 2 3) name_loop.simps) auto
  next
    case char
    from 1(2) [OF char(1,2)] char show ?thesis by (subst (1 2 3) name_loop.simps) auto
  qed (use 1(3) in \<open>subst (1 2 3) name_loop.simps; simp\<close>)+
qed

lemma string_loop_grows:
  assumes "at \<le> length s"
  shows "at \<le> fst (string_loop s quote at d) \<and> fst (string_loop s quote at d) \<le> length s
    \<and> (\<exists>x. snd (string_loop s quote at d) = d @ x)"
  using assms
proof (induction s quote at d rule: string_loop.induct)
  case (1 s quote at d)
  show ?case
  proof (cases "at < length s \<and> s ! at \<noteq> quote \<and> \<not> is_newline (s ! at)")
    case c: True
    consider (newline) "s ! at = backslash_char" "at + 1 < length s \<and> is_newline (s ! (at + 1))"
      | (escape) "s ! at = backslash_char" "\<not> (at + 1 < length s \<and> is_newline (s ! (at + 1)))"
      | (char) "s ! at \<noteq> backslash_char" by blast
    then show ?thesis
    proof cases
      case newline
      from 1(1) [OF c newline] newline c show ?thesis by (subst (1 2 3) string_loop.simps) auto
    next
      case escape
      have le: "snd (consume_escape s at) \<le> length s" using c by (intro consume_escape_le) simp
      obtain x where x: "put_escape d (fst (consume_escape s at)) = d @ x" using put_escape_append by blast
      from 1(2) [OF c escape le] x consume_escape_advances [of at s] escape c show ?thesis
        by (subst (1 2 3) string_loop.simps) auto
    next
      case char
      from 1(3) [OF c char] char c show ?thesis by (subst (1 2 3) string_loop.simps) auto
    qed
  qed (use 1(4) in \<open>subst (1 2 3) string_loop.simps; auto\<close>)
qed

lemma url_scan_range:
  assumes "at \<le> length s"
  shows "at \<le> fst (url_scan s at e) \<and> fst (url_scan s at e) \<le> length s"
  using assms
proof (induction s at e rule: url_scan.induct)
  case (1 s at e)
  have w: "scan_while is_whitespace s at \<le> length s" using 1(3) by (rule scan_while_le)
  show ?case
  proof (cases "at < length s \<and> s ! at = backslash_char \<and> is_valid_escape s at")
    case True
    then have le: "snd (consume_escape s at) \<le> length s" by (intro consume_escape_le) simp
    have c: "s ! at \<noteq> CHR '')''" "\<not> is_whitespace (s ! at)"
      "\<not> (s ! at = CHR 0x22 \<or> s ! at = CHR 0x27 \<or> s ! at = CHR ''('')" "s ! at = backslash_char"
      "\<not> \<not> is_valid_escape s at" "at < length s"
      using True by (simp_all add: is_whitespace_def eq_chr_iff)
    have "snd (consume_escape s at) \<le> fst (url_scan s (snd (consume_escape s at)) True)
        \<and> fst (url_scan s (snd (consume_escape s at)) True) \<le> length s"
      using 1(1) [OF c(6) refl c(1-5) le] .
    then have "at \<le> fst (url_scan s (snd (consume_escape s at)) True)
        \<and> fst (url_scan s (snd (consume_escape s at)) True) \<le> length s"
      using consume_escape_advances [of at s] by linarith
    with c show ?thesis by (subst (1 2) url_scan.simps) (simp add: Let_def)
  next
    case False
    have "at \<le> fst (url_scan s (at + 1) e) \<and> fst (url_scan s (at + 1) e) \<le> length s"
      if "at < length s" "s ! at \<noteq> CHR '')''" "\<not> is_whitespace (s ! at)"
        "\<not> (s ! at = CHR 0x22 \<or> s ! at = CHR 0x27 \<or> s ! at = CHR ''('')" "s ! at \<noteq> backslash_char"
      using 1(2) [OF that(1) refl that(2-5)] that(1) by simp
    with False w 1(3) show ?thesis by (subst (1 2) url_scan.simps) (auto simp: Let_def)
  qed
qed

lemma bad_url_end_range:
  assumes "at \<le> length s + 1"
  shows "at \<le> bad_url_end s at \<and> bad_url_end s at \<le> length s + 1"
  using assms
proof (induction s at rule: bad_url_end.induct)
  case (1 s at)
  then show ?case by (subst (1 2) bad_url_end.simps) auto
qed

lemma url_decode_grows: "\<exists>x. url_decode s i stop d = d @ x"
proof (induction s i stop d rule: url_decode.induct)
  case (1 s i stop d)
  obtain x where x: "put_escape d (fst (consume_escape s i)) = d @ x" using put_escape_append by blast
  show ?case using 1 x by (subst url_decode.simps) auto
qed

lemma name_token_placed:
  assumes "start \<le> pos l" "pos l \<le> length s" "consume_name_token s kind start l = (t, l')"
  shows "pos l \<le> pos l'" "pos l' \<le> length s" "\<exists>x. decoded l' = decoded l @ x" "t_type t = kind" "t_flags t = 0"
    "t_text t = u32 start \<and> t_length t = u32 (pos l' - start) \<and> decoded l' = decoded l
     \<or> t_text t = u32 (length s + length (decoded l)) \<and> t_length t = u32 (length (decoded l') - length (decoded l))"
    "pos l < length s \<Longrightarrow> is_name (s ! pos l) \<or> is_valid_escape s (pos l) \<Longrightarrow> pos l < pos l'"
proof -
  let ?scan = "scan_while is_name s (pos l)"
  let ?d = "decoded l @ substr s start (pos l - start)"
  have le: "pos l \<le> ?scan" "?scan \<le> length s" using scan_while_le [OF assms(2)] by simp_all
  have step: "name_loop s (pos l) ?d = name_loop s (pos l + 1) (?d @ [s ! pos l])"
    if "pos l < length s" "is_name (s ! pos l)" "\<not> is_valid_escape s (pos l)"
    using that by (subst name_loop.simps) simp
  have esc: "name_loop s (pos l) ?d = name_loop s (snd (consume_escape s (pos l))) (put_escape ?d (fst (consume_escape s (pos l))))"
    if "is_valid_escape s (pos l)"
    using that by (subst name_loop.simps) (simp add: is_valid_escape_def)
  have "pos l < fst (name_loop s (pos l) ?d)"
    if p: "pos l < length s" "is_name (s ! pos l) \<or> is_valid_escape s (pos l)"
  proof (cases "is_valid_escape s (pos l)")
    case True
    have "snd (consume_escape s (pos l)) \<le> length s" using p(1) by (rule consume_escape_le)
    from name_loop_grows [OF this, of "put_escape ?d (fst (consume_escape s (pos l)))"]
      consume_escape_advances [of "pos l" s] esc [OF True] show ?thesis by simp
  next
    case False
    with p step name_loop_grows [of "pos l + 1" s "?d @ [s ! pos l]"] show ?thesis by simp
  qed
  moreover have "pos l < ?scan" if "pos l < length s" "is_name (s ! pos l)"
    using that by (simp add: scan_while_def Cons_nth_drop_Suc [symmetric])
  moreover have "?scan = pos l" if "is_valid_escape s (pos l)"
  proof -
    have "pos l < length s" "\<not> is_name (s ! pos l)"
      using that by (auto simp: is_valid_escape_def is_name_def is_name_start_def css_digit_def between_def)
    then show ?thesis by (simp add: scan_while_def Cons_nth_drop_Suc [symmetric])
  qed
  ultimately have moves: "pos l < pos l'" if "pos l < length s" "is_name (s ! pos l) \<or> is_valid_escape s (pos l)"
    using that assms(3) by (auto simp: consume_name_token_def Let_def is_valid_escape_def split: if_splits prod.splits)
  show "pos l \<le> pos l'" "pos l' \<le> length s" "t_type t = kind" "t_flags t = 0" "\<exists>x. decoded l' = decoded l @ x"
    "t_text t = u32 start \<and> t_length t = u32 (pos l' - start) \<and> decoded l' = decoded l
     \<or> t_text t = u32 (length s + length (decoded l)) \<and> t_length t = u32 (length (decoded l') - length (decoded l))"
    using assms(3) le name_loop_grows [OF assms(2), of ?d]
    by (auto simp: consume_name_token_def Let_def plain_token_def split: if_splits prod.splits)
  show "pos l < length s \<Longrightarrow> is_name (s ! pos l) \<or> is_valid_escape s (pos l) \<Longrightarrow> pos l < pos l'"
    using moves .
qed

lemma good_slice_on:
  assumes "pos l < pos l'" "pos l' \<le> length s + (if kind = Bad_url then 1 else 0)" "\<exists>x. decoded l' = decoded l @ x"
    and "pos l \<le> a" "a + n \<le> pos l'" "kind \<noteq> Eof"
  shows "good_step s l (plain_token kind a n, l')"
proof -
  have "placed s l (plain_token kind a n) l'"
    unfolding placed_def using assms by (intro exI [of _ a] exI [of _ n]) (simp add: plain_token_def)
  with assms show ?thesis by (simp add: good_step_def plain_token_def)
qed

lemma good_slice:
  assumes "pos l < stop" "stop \<le> length s" "pos l \<le> a" "a + n \<le> stop" "kind \<noteq> Eof"
  shows "good_step s l (plain_token kind a n, l\<lparr>pos := stop\<rparr>)"
  using assms by (intro good_slice_on) simp_all

lemma good_tail_on:
  assumes "pos l < p" "p \<le> length s" "\<exists>x. decoded m = decoded l @ x" "\<exists>x. d = decoded m @ x" "kind \<noteq> Eof" "kind \<noteq> Function"
  shows "good_step s l (tail_token kind s (length (decoded m)) d, \<lparr>pos = p, decoded = d\<rparr>)"
proof -
  obtain x y where "decoded m = decoded l @ x" "d = decoded l @ x @ y" using assms(3,4) by auto
  then have "placed s l (tail_token kind s (length (decoded m)) d) \<lparr>pos = p, decoded = d\<rparr>"
    unfolding placed_def using assms(6)
    by (intro exI [of _ "length s + length (decoded m)"] exI [of _ "length d - length (decoded m)"])
      (simp add: plain_token_def)
  with assms show ?thesis by (auto simp: good_step_def plain_token_def)
qed

lemma good_tail:
  assumes "pos l < p" "p \<le> length s" "\<exists>x. d = decoded l @ x" "kind \<noteq> Eof" "kind \<noteq> Function"
  shows "good_step s l (tail_token kind s (length (decoded l)) d, \<lparr>pos = p, decoded = d\<rparr>)"
  using assms by (intro good_tail_on) simp_all

lemma good_if: "(b \<Longrightarrow> good_step s l x) \<Longrightarrow> (\<not> b \<Longrightarrow> good_step s l y) \<Longrightarrow> good_step s l (if b then x else y)"
  by simp

lemma good_simple: "pos l + n \<le> length s \<Longrightarrow> 0 < n \<Longrightarrow> kind \<noteq> Eof \<Longrightarrow> good_step s l (simple kind n l)"
  unfolding simple_def by (rule good_slice) simp_all

lemma good_string:
  assumes "pos l < length s"
  shows "good_step s l (consume_string s quote l)"
proof -
  let ?P = "\<lambda>c. c \<noteq> quote \<and> \<not> is_newline c \<and> c \<noteq> backslash_char"
  define scan where "scan = scan_while ?P s (pos l + 1)"
  have scan: "pos l + 1 \<le> scan" "scan \<le> length s"
    using scan_while_le [of "pos l + 1" s ?P] assms by (simp_all add: scan_def)
  obtain at d where loop: "string_loop s quote (pos l + 1) (decoded l @ [quote]) = (at, d)" by fastforce
  have "pos l + 1 \<le> length s" using assms by simp
  from string_loop_grows [OF this, of quote "decoded l @ [quote]"]
  have at: "pos l + 1 \<le> at" "at \<le> length s" and ex: "\<exists>x. d = (decoded l @ [quote]) @ x"
    unfolding loop fst_conv snd_conv by simp_all
  from ex obtain x where x: "d = decoded l @ x" by auto
  show ?thesis
    unfolding consume_string_def Let_def scan_def [symmetric] loop prod.case
    using scan at(1,2) x assms
    by (intro good_if good_slice good_tail) (simp_all split: if_splits)
qed

lemma scan_digits: "look < length s \<Longrightarrow> look \<le> scan_while css_digit s look \<and> scan_while css_digit s look \<le> length s"
  using scan_while_le [of look s css_digit] by simp

lemma scan_exponent_range:
  "fst r \<le> length s \<Longrightarrow> fst r \<le> fst (scan_exponent s r) \<and> fst (scan_exponent s r) \<le> length s"
  using scan_digits [of "fst r + 1" s] scan_digits [of "fst r + 2" s]
  by (simp add: scan_exponent_def Let_def)

lemma scan_fraction_range:
  assumes "at \<le> length s"
  shows "at \<le> fst (scan_fraction s at) \<and> fst (scan_fraction s at) \<le> length s"
    and "at < length s \<Longrightarrow> s ! at = CHR ''.'' \<Longrightarrow> css_digit (peek s at 1) \<Longrightarrow> at < fst (scan_fraction s at)"
proof -
  have "at + 2 \<le> length s" if "css_digit (peek s at 1)"
    using that by (simp add: peek_def css_digit_def between_def split: if_splits)
  with assms scan_while_le [of "at + 2" s css_digit] scan_while_ge [of "at + 2" css_digit s]
  show "at \<le> fst (scan_fraction s at) \<and> fst (scan_fraction s at) \<le> length s"
    and "at < length s \<Longrightarrow> s ! at = CHR ''.'' \<Longrightarrow> css_digit (peek s at 1) \<Longrightarrow> at < fst (scan_fraction s at)"
    by (auto simp: scan_fraction_def peek_def Suc_le_eq simp del: scan_while_ge)
qed

lemma scan_number_range:
  assumes "start \<le> length s"
  shows "start \<le> fst (scan_number s start) \<and> fst (scan_number s start) \<le> length s
    \<and> (starts_number s start \<longrightarrow> start < fst (scan_number s start))"
proof -
  define at1 where "at1 = (if peek s start 0 = CHR ''+'' \<or> peek s start 0 = CHR ''-'' then start + 1 else start)"
  define at2 where "at2 = scan_while css_digit s at1"
  define at3 where "at3 = fst (scan_fraction s at2)"
  have 1: "start \<le> at1" "at1 \<le> length s" using assms by (auto simp: at1_def peek_def chr_eq_iff split: if_splits)
  have 2: "at1 \<le> at2" "at2 \<le> length s" using scan_while_le [OF 1(2)] by (simp_all add: at2_def)
  have 3: "at2 \<le> at3" "at3 \<le> length s" using scan_fraction_range(1) [OF 2(2)] by (simp_all add: at3_def)
  have 4: "at3 \<le> fst (scan_number s start)" "fst (scan_number s start) \<le> length s"
    using scan_exponent_range [of "scan_fraction s at2" s] 3
    by (simp_all add: scan_number_def Let_def at1_def [symmetric] at2_def [symmetric] at3_def)
  have "start < at3" if n: "starts_number s start"
  proof -
    have len: "start < length s" using n by (simp add: starts_number_def)
    consider (digit) "css_digit (s ! start)" | (point) "s ! start = CHR ''.''" "css_digit (peek s start 1)"
      | (sign) "s ! start = CHR ''+'' \<or> s ! start = CHR ''-''"
      using n by (auto simp: starts_number_def Let_def peek_def split: if_splits)
    then show ?thesis
    proof cases
      case digit
      then have "at1 = start" using len by (auto simp: at1_def peek_def css_digit_def between_def)
      with digit len have "start < at2" by (simp add: at2_def scan_while_def Cons_nth_drop_Suc [symmetric])
      with 3 show ?thesis by simp
    next
      case point
      then have "at1 = start" using len by (auto simp: at1_def peek_def)
      moreover have "\<not> css_digit (CHR ''.'')" by (simp add: css_digit_def between_def)
      ultimately have "at2 = start" using len point(1) by (simp add: at2_def scan_while_def Cons_nth_drop_Suc [symmetric])
      with point len scan_fraction_range(2) [OF 2(2)] show ?thesis by (simp add: at3_def)
    next
      case sign
      then have "at1 = start + 1" using len by (simp add: at1_def peek_def)
      with 2 3 show ?thesis by simp
    qed
  qed
  with 1 2 3 4 show ?thesis by auto
qed

lemma placed_named:
  assumes "start \<le> pos m" "pos m \<le> length s" "consume_name_token s kind start m = (t, l')"
    and "pos l \<le> start" "decoded m = decoded l" "t_text u = t_text t" "t_length u = t_length t" "t_type u \<noteq> Function"
  shows "placed s l u l'"
proof -
  from name_token_placed(3) [OF assms(1-3)] obtain x where x: "decoded l' = decoded m @ x" by blast
  consider (slice) "t_text t = u32 start" "t_length t = u32 (pos l' - start)"
    | (tail) "t_text t = u32 (length s + length (decoded m))" "t_length t = u32 (length (decoded l') - length (decoded m))"
    using name_token_placed(6) [OF assms(1-3)] by blast
  then show ?thesis
  proof cases
    case slice
    with name_token_placed(1) [OF assms(1-3)] assms show ?thesis
      unfolding placed_def by (intro exI [of _ start] exI [of _ "pos l' - start"]) simp
  next
    case tail
    with x assms show ?thesis
      unfolding placed_def
      by (intro exI [of _ "length s + length (decoded m)"] exI [of _ "length (decoded l') - length (decoded m)"]) simp
  qed
qed

lemma good_named:
  assumes "start \<le> pos m" "pos m \<le> length s" "pos l \<le> start" "decoded m = decoded l"
    and "pos l < pos (snd (consume_name_token s kind start m))" "kind \<noteq> Eof" "kind \<noteq> Function"
  shows "good_step s l (consume_name_token s kind start m)"
proof (cases "consume_name_token s kind start m")
  case (Pair t l')
  from name_token_placed [OF assms(1,2) Pair] placed_named [OF assms(1,2) Pair assms(3,4) refl refl]
  show ?thesis using assms by (simp add: good_step_def Pair)
qed

lemma starts_ident_name: "starts_ident s at \<Longrightarrow> at < length s \<and> (is_name (s ! at) \<or> is_valid_escape s at)"
  by (auto simp: starts_ident_def is_name_def)

lemma good_numeric:
  assumes "starts_number s (pos l)"
  shows "good_step s l (consume_numeric s l)"
proof -
  have len: "pos l \<le> length s" using assms by (simp add: starts_number_def)
  obtain at integer where n: "scan_number s (pos l) = (at, integer)" by fastforce
  with scan_number_range [OF len] assms have at: "pos l < at" "at \<le> length s" by simp_all
  obtain t l' where named: "consume_name_token s Dimension (pos l) (l\<lparr>pos := at\<rparr>) = (t, l')" by fastforce
  have "pos l \<le> pos (l\<lparr>pos := at\<rparr>)" "pos (l\<lparr>pos := at\<rparr>) \<le> length s" using at by simp_all
  note facts = name_token_placed [OF this named]
  have pl: "placed s l u l'" if "t_text u = t_text t" "t_length u = t_length t" "t_type u \<noteq> Function" for u
    using at that by (intro placed_named [OF _ _ named]) simp_all
  have dim: "good_step s l (t\<lparr>t_number := v, t_flags := f, t_unit := w\<rparr>, l')" for v f w
    using facts at by (auto simp: good_step_def intro!: pl)
  have slice: "good_step s l ((slice_token kind (pos l) stop)\<lparr>t_number := v, t_flags := f\<rparr>, l\<lparr>pos := stop\<rparr>)"
    if "at \<le> stop" "stop \<le> length s" "kind \<noteq> Eof" for kind stop v f
    using that at good_slice [of l stop s "pos l" "stop - pos l" kind]
    by (simp add: good_step_def placed_def plain_token_def)
  have slice': "good_step s l ((slice_token kind (pos l) stop)\<lparr>t_number := v\<rparr>, l\<lparr>pos := stop\<rparr>)"
    if "at \<le> stop" "stop \<le> length s" "kind \<noteq> Eof" for kind stop v
    using that at good_slice [of l stop s "pos l" "stop - pos l" kind]
    by (simp add: good_step_def placed_def plain_token_def)
  have "at + 1 \<le> length s" if "peek s at 0 = CHR ''%''"
    using that by (simp add: peek_def chr_eq_iff split: if_splits)
  then show ?thesis
    unfolding consume_numeric_def Let_def n prod.case named
    using at(2) by (intro good_if dim slice slice') simp_all
qed

lemma good_url:
  assumes "start < pos l" "pos l \<le> length s" "pos m \<le> start" "\<exists>x. decoded l = decoded m @ x"
  shows "good_step s m (consume_url s start l)"
proof -
  define body where "body = scan_while is_whitespace s (pos l)"
  have body: "pos l \<le> body" "body \<le> length s" using scan_while_le [OF assms(2)] by (simp_all add: body_def)
  obtain stop bad escaped where scan: "url_scan s body False = (stop, bad, escaped)" by (metis prod_cases3)
  have stop: "body \<le> stop" "stop \<le> length s" using url_scan_range [OF body(2), of False] scan by simp_all
  define at where "at = bad_url_end s stop"
  have at: "stop \<le> at" "at \<le> length s + 1" using bad_url_end_range [of stop s] stop by (simp_all add: at_def)
  define d where "d = url_decode s body stop (decoded l)"
  have d: "\<exists>x. d = decoded l @ x" unfolding d_def by (rule url_decode_grows)
  show ?thesis
    unfolding consume_url_def Let_def body_def [symmetric] scan prod.case at_def [symmetric] d_def [symmetric]
    using body stop at d assms by (intro good_if good_slice_on good_tail_on) (simp_all split: if_splits)
qed

lemma good_ident_like:
  assumes "pos l < length s" "is_name (s ! pos l) \<or> is_valid_escape s (pos l)"
  shows "good_step s l (consume_ident_like s l)"
proof -
  obtain t m where named: "consume_name_token s Ident (pos l) l = (t, m)" by fastforce
  have "pos l \<le> length s" using assms(1) by simp
  note facts = name_token_placed [OF order_refl this named]
  have moved: "pos l < pos m" using facts(7) assms by simp
  have "good_step s l (consume_name_token s Ident (pos l) l)"
    using moved named \<open>pos l \<le> length s\<close> by (intro good_named) simp_all
  then have ident: "good_step s l (t, m)" unfolding named .
  have len: "pos m + 1 \<le> length s" if "peek s (pos m) 0 = CHR ''(''"
    using that by (simp add: peek_def chr_eq_iff split: if_splits)
  have call: "good_step s l (t\<lparr>t_type := Function, t_length := u32 (t_length t + 1)\<rparr>, m\<lparr>pos := pos m + 1\<rparr>)"
    if "pos m + 1 \<le> length s"
  proof -
    obtain x where x: "decoded m = decoded l @ x" using facts(3) by blast
    have wrap: "u32 (u32 n + 1) = u32 (n + 1)" for n unfolding u32_def by (rule mod_add_left_eq)
    have "placed s l (t\<lparr>t_type := Function, t_length := u32 (t_length t + 1)\<rparr>) (m\<lparr>pos := pos m + 1\<rparr>)"
      using facts(6)
    proof
      assume "t_text t = u32 (pos l) \<and> t_length t = u32 (pos m - pos l) \<and> decoded m = decoded l"
      then show ?thesis using wrap [of "pos m - pos l"] moved unfolding placed_def
        by (intro exI [of _ "pos l"] exI [of _ "pos m - pos l + 1"]) simp
    next
      assume "t_text t = u32 (length s + length (decoded l)) \<and> t_length t = u32 (length (decoded m) - length (decoded l))"
      then show ?thesis using wrap [of "length x"] x unfolding placed_def
        by (intro exI [of _ "length s + length (decoded l)"] exI [of _ "length x + 1"]) simp
    qed
    with x moved that show ?thesis by (simp add: good_step_def)
  qed
  have url: "good_step s l (consume_url s (pos l) (m\<lparr>pos := pos m + 1\<rparr>))" if "pos m + 1 \<le> length s"
    using moved that facts(3) by (intro good_url) simp_all
  show ?thesis
    unfolding consume_ident_like_def Let_def named prod.case
    using len by (intro good_if ident call url) simp_all
qed

lemma good_hash: "pos l < length s \<Longrightarrow> good_step s l (consume_hash s l)"
proof -
  assume len: "pos l < length s"
  let ?m = "l\<lparr>pos := pos l + 1\<rparr>"
  obtain t l' where named: "consume_name_token s Hash (pos l) ?m = (t, l')" by fastforce
  have le: "pos l \<le> pos ?m" "pos ?m \<le> length s" using len by simp_all
  note facts = name_token_placed [OF le named]
  have "good_step s l (consume_name_token s Hash (pos l) ?m)"
    using facts(1) named by (intro good_named le) simp_all
  then have "good_step s l (t, l')" unfolding named .
  then have flagged: "good_step s l (t\<lparr>t_flags := f\<rparr>, l')" for f
    by (simp add: good_step_def placed_def)
  with \<open>good_step s l (t, l')\<close> show ?thesis
    unfolding consume_hash_def Let_def named prod.case using len
    by (auto intro!: good_simple)
qed

lemma starts_number_digit: "at < length s \<Longrightarrow> css_digit (s ! at) \<Longrightarrow> starts_number s at"
  by (simp add: starts_number_def)

lemma punctuation_kind: "punctuation c = Some kind \<Longrightarrow> kind \<noteq> Eof"
  by (auto simp: punctuation_def split: if_splits)

lemma next_token_good:
  assumes "pos l < length s"
  shows "good_step s l (next_token s l)"
proof -
  have c: "peek s (pos l) 0 = s ! pos l" using assms by (simp add: peek_def)
  have ws: "good_step s l (slice_token Whitespace (pos l) stop, l\<lparr>pos := stop\<rparr>)"
    if "is_whitespace (s ! pos l)" "stop = scan_while is_whitespace s (pos l)" for stop
  proof -
    have "pos l < stop" using that assms by (simp add: scan_while_def Cons_nth_drop_Suc [symmetric])
    moreover have "stop \<le> length s" using assms that scan_while_le [of "pos l" s] by simp
    ultimately show ?thesis by (intro good_slice) simp_all
  qed
  have long: "pos l + n \<le> length s" if "peek s (pos l) k = d" "byte d \<noteq> 0" "n = k + 1" for n k d
    using that by (auto simp: peek_def chr_eq_iff split: if_splits)
  have at: "good_step s l (consume_name_token s At_keyword (pos l) (l\<lparr>pos := pos l + 1\<rparr>))"
  proof -
    let ?m = "l\<lparr>pos := pos l + 1\<rparr>"
    obtain t l' where named: "consume_name_token s At_keyword (pos l) ?m = (t, l')" by fastforce
    have le: "pos l \<le> pos ?m" "pos ?m \<le> length s" using assms by simp_all
    from name_token_placed(1) [OF le named] named show ?thesis by (intro good_named le) simp_all
  qed
  have ident: "is_valid_escape s (pos l) \<Longrightarrow> good_step s l (consume_ident_like s l)"
    "is_name_start (s ! pos l) \<Longrightarrow> good_step s l (consume_ident_like s l)"
    "starts_ident s (pos l) \<Longrightarrow> good_step s l (consume_ident_like s l)"
    using good_ident_like [OF assms] starts_ident_name [of s "pos l"] by (simp_all add: is_name_def)
  have one: "good_step s l (simple kind 1 l)" if "kind \<noteq> Eof" for kind
    using assms that by (intro good_simple) simp_all
  have cdc: "good_step s l (simple Cdc 3 l)" if "peek s (pos l) 1 = CHR ''-'' \<and> peek s (pos l) 2 = CHR ''>''"
  proof -
    have "pos l + 3 \<le> length s" using that by (intro long [of 2 "CHR ''>''"]) simp_all
    then show ?thesis by (rule good_simple) simp_all
  qed
  have cdo: "good_step s l (simple Cdo 4 l)"
    if "peek s (pos l) 1 = CHR ''!'' \<and> peek s (pos l) 2 = CHR ''-'' \<and> peek s (pos l) 3 = CHR ''-''"
  proof -
    have "pos l + 4 \<le> length s" using that by (intro long [of 3 "CHR ''-''"]) simp_all
    then show ?thesis by (rule good_simple) simp_all
  qed
  note numeric = good_numeric [of s l] good_numeric [OF starts_number_digit [OF assms]]
  show ?thesis
  proof (cases "punctuation (s ! pos l)")
    case None
    show ?thesis
      unfolding next_token_def Let_def c None option.case
      by (intro good_if; (rule ws ident one cdc cdo at numeric good_string [OF assms] good_hash [OF assms];
            (assumption | simp)))
  next
    case (Some kind)
    then show ?thesis
      unfolding next_token_def Let_def c Some option.case
      by (intro good_if ws good_string [OF assms] one punctuation_kind [OF Some]) simp_all
  qed
qed

section \<open>The token stream\<close>

lemma skip_comments_ge: "at \<le> skip_comments s at"
proof (induction s at rule: skip_comments.induct)
  case (1 s at)
  then show ?case by (subst skip_comments.simps) (force split: option.splits)
qed

function lex_run :: "string \<Rightarrow> lexer \<Rightarrow> css_token list \<times> string" where
  "lex_run s l =
     (if skip_comments s (pos l) \<ge> length s then ([], decoded l)
      else let r = next_token s (l\<lparr>pos := skip_comments s (pos l)\<rparr>); rest = lex_run s (snd r)
        in (fst r # fst rest, snd rest))"
  by pat_completeness auto
termination
proof (relation "measure (\<lambda>(s, l). length s - pos l)")
  fix s l r
  assume at: "\<not> length s \<le> skip_comments s (pos l)" and r: "r = next_token s (l\<lparr>pos := skip_comments s (pos l)\<rparr>)"
  have "good_step s (l\<lparr>pos := skip_comments s (pos l)\<rparr>) r" unfolding r using at by (intro next_token_good) simp
  then have "pos l < pos (snd r)" "pos l < length s"
    using skip_comments_ge [of "pos l" s] at by (simp_all add: good_step_def)
  then show "((s, snd r), s, l) \<in> measure (\<lambda>(s, l). length s - pos l)"
    by (simp add: diff_less_mono2)
qed simp

declare lex_run.simps [simp del]

record token_stream =
  pool :: string
  tokens :: "css_token list"
  source_length :: nat

definition tokenize :: "string \<Rightarrow> token_stream" where
  "tokenize css =
     (let s = preprocess css; (ts, d) = lex_run s \<lparr>pos = 0, decoded = []\<rparr>
      in \<lparr>pool = s @ d, tokens = ts @ [plain_token Eof (length s) 0], source_length = u32 (length s)\<rparr>)"

definition text_of :: "token_stream \<Rightarrow> css_token \<Rightarrow> string" where
  "text_of ts t = substr (pool ts) (t_text t) (t_length t)"

definition unit_of :: "token_stream \<Rightarrow> css_token \<Rightarrow> string" where
  "unit_of ts t =
     (if t_type t \<noteq> Dimension \<or> t_unit t = 0 then []
      else substr (pool ts) (t_text t + t_length t - t_unit t) (t_unit t))"

definition value_of :: "token_stream \<Rightarrow> css_token \<Rightarrow> string" where
  "value_of ts t =
     (let raw = text_of ts t in
      if t_type t = String_token \<and> length raw \<ge> 2 then substr raw 1 (length raw - 2)
      else if t_type t = Hash \<and> raw \<noteq> [] then drop 1 raw
      else if t_type t = At_keyword \<and> raw \<noteq> [] then drop 1 raw
      else raw)"

text \<open>The source text of the tokens \<open>[first, stop)\<close>, widened over the delimiters of a URL token at
  either end. The indices are the caller's; the loops move an end over whitespace.\<close>

fun widen_left :: "string \<Rightarrow> nat \<Rightarrow> nat" where
  "widen_left source 0 = 0"
| "widen_left source (Suc b) = (if is_whitespace (source ! b) then widen_left source b else Suc b)"

definition url_left :: "string \<Rightarrow> nat \<Rightarrow> nat" where
  "url_left source begin0 =
     (let b = widen_left source begin0 in
      if b \<ge> 4 \<and> source ! (b - 1) = CHR ''('' \<and> ascii_iequals (substr source (b - 4) 3) ''url'' then b - 4 else b)"

definition url_right :: "string \<Rightarrow> nat \<Rightarrow> nat" where
  "url_right source end0 =
     (let e = scan_while is_whitespace source end0 in
      if e < length source \<and> source ! e = CHR '')'' then e + 1 else e)"

definition source_run :: "token_stream \<Rightarrow> nat \<Rightarrow> nat \<Rightarrow> string" where
  "source_run ts first stop =
     (if first \<ge> stop then []
      else let a = tokens ts ! first; b = tokens ts ! (stop - 1) in
        if t_text a \<ge> source_length ts \<or> t_text b \<ge> source_length ts \<or> t_text b + t_length b < t_text a then []
        else let source = take (source_length ts) (pool ts);
                 left = (if t_type a = Url_token then url_left source (t_text a) else t_text a);
                 right = (if t_type b = Url_token then url_right source (t_text b + t_length b)
                          else t_text b + t_length b)
          in substr source left (right - left))"

section \<open>The tokens of a stream\<close>

lemma next_token_at:
  assumes "\<not> skip_comments s (pos l) \<ge> length s"
  shows "good_step s (l\<lparr>pos := skip_comments s (pos l)\<rparr>) (next_token s (l\<lparr>pos := skip_comments s (pos l)\<rparr>))"
  using assms by (intro next_token_good) simp

text \<open>How far a token may overshoot.\<close>

definition overshoot :: "css_token \<Rightarrow> nat" where
  "overshoot t = (if t_type t = Bad_url \<or> t_type t = Function then 1 else 0)"

definition within :: "string \<Rightarrow> nat \<Rightarrow> nat \<Rightarrow> css_token \<Rightarrow> bool" where
  "within s start extra t \<longleftrightarrow> (\<exists>a n. t_text t = u32 a \<and> t_length t = u32 n
     \<and> (start \<le> a \<and> a + n \<le> length s + overshoot t \<or> length s \<le> a \<and> a + n \<le> length s + extra + overshoot t))"

lemma lex_run_tokens:
  "\<exists>x. snd (lex_run s l) = decoded l @ x
   \<and> (\<forall>t \<in> set (fst (lex_run s l)). t_type t \<noteq> Eof \<and> within s (pos l) (length (snd (lex_run s l))) t)"
proof (induction s l rule: lex_run.induct)
  case (1 s l)
  show ?case
  proof (cases "skip_comments s (pos l) \<ge> length s")
    case True
    then show ?thesis by (subst (1 2 3) lex_run.simps) simp
  next
    case False
    define m where "m = l\<lparr>pos := skip_comments s (pos l)\<rparr>"
    obtain t l' where r: "next_token s m = (t, l')" by fastforce
    have good: "good_step s m (t, l')" using next_token_at [OF False] by (simp add: m_def [symmetric] r)
    then obtain x where x: "decoded l' = decoded l @ x" by (auto simp: good_step_def m_def)
    have run: "lex_run s l = (t # fst (lex_run s l'), snd (lex_run s l'))"
      using False by (subst lex_run.simps) (simp add: Let_def m_def [symmetric] r)
    from 1 [OF False refl] r obtain y where y: "snd (lex_run s l') = decoded l' @ y"
      "\<forall>u \<in> set (fst (lex_run s l')). t_type u \<noteq> Eof \<and> within s (pos l') (length (snd (lex_run s l'))) u"
      unfolding m_def [symmetric] by auto
    have ge: "pos l \<le> pos m" "pos m < pos l'" "pos l' \<le> length s + overshoot t"
      using good skip_comments_ge [of "pos l" s] by (auto simp: good_step_def m_def overshoot_def)
    have "within s (pos l) (length (snd (lex_run s l'))) t"
    proof -
      from good obtain a n where an: "t_text t = u32 a" "t_length t = u32 n"
        "pos m \<le> a \<and> a + n \<le> pos l' \<or> length s + length (decoded m) \<le> a
          \<and> a + n = length s + length (decoded l') + (if t_type t = Function then 1 else 0)"
        by (auto simp: good_step_def placed_def)
      then have "pos l \<le> a \<and> a + n \<le> length s + overshoot t
          \<or> length s \<le> a \<and> a + n \<le> length s + length (snd (lex_run s l')) + overshoot t"
        using ge y(1) by (auto simp: overshoot_def)
      with an show ?thesis by (auto simp: within_def)
    qed
    moreover have "within s (pos l) k u" if "within s (pos l') k u" for k u
      using that ge unfolding within_def by (meson le_trans less_imp_le)
    ultimately show ?thesis using x y good by (auto simp: run good_step_def)
  qed
qed

lemma u32_id: "n < 2 ^ 32 \<Longrightarrow> u32 n = n"
  by (simp add: u32_def)

lemma tokenize_parts:
  "pool (tokenize css) = preprocess css @ snd (lex_run (preprocess css) \<lparr>pos = 0, decoded = []\<rparr>)"
  "tokens (tokenize css) = fst (lex_run (preprocess css) \<lparr>pos = 0, decoded = []\<rparr>)
     @ [plain_token Eof (length (preprocess css)) 0]"
  "source_length (tokenize css) = u32 (length (preprocess css))"
  by (simp_all add: tokenize_def Let_def split_beta)

text \<open>C5. The tokens of a style sheet lie in the pool: each is a slice of the source or of the decoded
  escapes, except that a bad URL may overshoot its end by one character and so may a function; the
  stream ends in an end-of-file token at the end of the source, and there is no other.\<close>

theorem tokens_in_pool:
  assumes "length (pool (tokenize css)) + 1 < 2 ^ 32"
  shows "\<exists>ts e. tokens (tokenize css) = ts @ [e] \<and> t_type e = Eof \<and> t_text e = source_length (tokenize css)
    \<and> t_length e = 0
    \<and> (\<forall>t \<in> set ts. t_type t \<noteq> Eof
        \<and> (t_text t + t_length t \<le> source_length (tokenize css) + overshoot t
           \<or> source_length (tokenize css) \<le> t_text t
             \<and> t_text t + t_length t \<le> length (pool (tokenize css)) + overshoot t))"
proof -
  let ?s = "preprocess css"
  define ts d where "ts = fst (lex_run ?s \<lparr>pos = 0, decoded = []\<rparr>)" and "d = snd (lex_run ?s \<lparr>pos = 0, decoded = []\<rparr>)"
  note parts = tokenize_parts [of css, folded ts_def d_def]
  have small: "length ?s + length d + 1 < 2 ^ 32" using assms by (simp add: parts)
  have "t_text t + t_length t \<le> length ?s + overshoot t
      \<or> length ?s \<le> t_text t \<and> t_text t + t_length t \<le> length ?s + length d + overshoot t"
    if t: "within ?s 0 (length d) t" for t
  proof -
    from t obtain a n where an: "t_text t = u32 a" "t_length t = u32 n"
      "a + n \<le> length ?s + overshoot t \<or> length ?s \<le> a \<and> a + n \<le> length ?s + length d + overshoot t"
      by (auto simp: within_def)
    have "overshoot t \<le> 1" by (simp add: overshoot_def)
    then have "a < 2 ^ 32" "n < 2 ^ 32" using an(3) small by linarith+
    with an show ?thesis by (simp add: u32_id)
  qed
  moreover have "\<forall>t \<in> set ts. t_type t \<noteq> Eof \<and> within ?s 0 (length d) t"
    using lex_run_tokens [of ?s "\<lparr>pos = 0, decoded = []\<rparr>"] by (auto simp: ts_def d_def)
  ultimately show ?thesis
    using small by (intro exI [of _ ts] exI [of _ "plain_token Eof (length ?s) 0"])
      (simp add: parts plain_token_def u32_id)
qed

section \<open>Evaluation\<close>

lemmas css_eval = tokenize_def preprocess_def has_bom_def lex_run.simps skip_comments.simps Let_def next_token_def peek_def
  is_whitespace_def punctuation_def consume_string_def consume_numeric_def consume_ident_like_def consume_hash_def
  consume_name_token_def consume_url_def scan_while_def simple_def plain_token_def u32_def u16_def starts_ident_def
  starts_number_def is_valid_escape_def is_name_def is_name_start_def css_digit_def between_def is_newline_def
  name_loop.simps string_loop.simps url_scan.simps url_decode.simps bad_url_end.simps consume_escape_def put_escape_def
  append_code_point_def append_utf8_def utf8_def hex_char_def hex_value_def hex_number_def continuation_byte_def
  name_text_def substr_def ascii_iequals_def ascii_lower_def eq_chr_iff chr_eq_iff bits text_of_def overshoot_def

theorem tokens_in_pool_witness:
  "\<exists>ts e. tokens (tokenize ''a:b'') = ts @ [e] \<and> t_type e = Eof \<and> t_text e = source_length (tokenize ''a:b'')"
  using tokens_in_pool [of "''a:b''"] by (simp add: css_eval)

end
