(* ===== verification/Css_Escape.thy ===== *)
theory Css_Escape
  imports Css_Token
begin

text \<open>
  The serialisers of CSSOM 2.1 (\<^verbatim>\<open>serialize_identifier\<close> of \<^verbatim>\<open>lib/Style/css/properties/table.cpp\<close> and
  \<^verbatim>\<open>string_text\<close> of \<^verbatim>\<open>grammar.cpp\<close>), and what the tokenizer reads back from them: one token with
  the text that was serialised, its NULs replaced.
\<close>

section \<open>The serialisers\<close>

definition escape_digit :: "nat \<Rightarrow> char" where
  "escape_digit n = ''0123456789abcdef'' ! n"

definition hex_escape :: "char \<Rightarrow> string" where
  "hex_escape c =
     backslash_char # (if byte c \<ge> 16 then [escape_digit (drop_bit 4 (byte c))] else [])
       @ [escape_digit (byte c AND 15), CHR '' '']"

definition identifier_char :: "string \<Rightarrow> nat \<Rightarrow> string" where
  "identifier_char text i =
     (let c = text ! i in
      if byte c = 0 then map chr [0xEF, 0xBF, 0xBD]
      else if byte c \<le> 0x1F \<or> byte c = 0x7F then hex_escape c
      else if between (CHR ''0'') c (CHR ''9'') \<and> (i = 0 \<or> i = 1 \<and> text ! 0 = CHR ''-'') then hex_escape c
      else if c = CHR ''-'' \<and> length text = 1 then [backslash_char, CHR ''-'']
      else if is_name c then [c]
      else [backslash_char, c])"

definition serialize_identifier :: "string \<Rightarrow> string" where
  "serialize_identifier text = concat (map (identifier_char text) [0..<length text])"

definition string_char :: "char \<Rightarrow> string" where
  "string_char c =
     (if byte c = 0 then map chr [0xEF, 0xBF, 0xBD]
      else if byte c \<le> 0x1F \<or> byte c = 0x7F then hex_escape c
      else (if c = CHR 0x22 \<or> c = backslash_char then [backslash_char] else []) @ [c])"

definition string_text :: "string \<Rightarrow> string" where
  "string_text body = CHR 0x22 # concat (map string_char body) @ [CHR 0x22]"

section \<open>Input that preprocessing leaves alone\<close>

text \<open>The text a style sheet can hold: NUL is replaced.\<close>

definition scrub :: "string \<Rightarrow> string" where
  "scrub s = concat (map (\<lambda>c. if c = chr 0 then utf8 0xFFFD else [c]) s)"

definition surrogate_pair :: "char \<Rightarrow> char \<Rightarrow> bool" where
  "surrogate_pair a b \<longleftrightarrow> byte a = 0xED \<and> 0xA0 \<le> byte b \<and> byte b \<le> 0xBF"

fun clean :: "string \<Rightarrow> bool" where
  "clean [] \<longleftrightarrow> True"
| "clean (c # cs) \<longleftrightarrow> byte c \<notin> {0, 12, 13} \<and> (cs \<noteq> [] \<longrightarrow> \<not> surrogate_pair c (hd cs)) \<and> clean cs"

text \<open>No surrogate in the encoding: what well-formed UTF-8 gives.\<close>

fun no_surrogates :: "string \<Rightarrow> bool" where
  "no_surrogates [] \<longleftrightarrow> True"
| "no_surrogates (c # cs) \<longleftrightarrow> (cs \<noteq> [] \<longrightarrow> \<not> surrogate_pair c (hd cs)) \<and> no_surrogates cs"

lemma preprocess_clean: "clean s \<Longrightarrow> preprocess_from s = s"
proof (induction s)
  case (Cons c cs)
  from Cons have "\<not> (byte c = 0xED \<and> length cs \<ge> 2 \<and> 0xA0 \<le> byte (hd cs) \<and> byte (hd cs) \<le> 0xBF)"
    by (auto simp: surrogate_pair_def)
  with Cons show ?case by (auto simp: eq_chr_iff)
qed simp

lemma escape_digit_hex: "n < 16 \<Longrightarrow> byte (escape_digit n) < 128 \<and> hex_value (escape_digit n) = int n
    \<and> byte (escape_digit n) > 13"
proof -
  have "\<forall>n \<in> set [0..<16]. byte (escape_digit n) < 128 \<and> hex_value (escape_digit n) = int n \<and> byte (escape_digit n) > 13"
    by code_simp
  then show "n < 16 \<Longrightarrow> ?thesis" by simp
qed

text \<open>A unit of the output: ASCII that starts with a backslash, the replacement character or the character itself.\<close>

definition unit_for :: "char \<Rightarrow> string \<Rightarrow> bool" where
  "unit_for c u \<longleftrightarrow> u = [c] \<and> byte c \<notin> {0, 12, 13} \<or> byte c = 0 \<and> u = map chr [0xEF, 0xBF, 0xBD]
     \<or> u \<noteq> [] \<and> hd u = backslash_char \<and> (\<forall>x \<in> set u. byte x < 128 \<and> byte x \<notin> {0, 12, 13})"

lemma clean_ascii: "\<forall>x \<in> set u. byte x < 128 \<and> byte x \<notin> {0, 12, 13} \<Longrightarrow> clean rest \<Longrightarrow> clean (u @ rest)"
  by (induction u) (auto simp: surrogate_pair_def)

lemma clean_units:
  assumes "list_all2 unit_for cs us" "no_surrogates cs"
  shows "clean (concat us) \<and> (concat us \<noteq> [] \<and> 0xA0 \<le> byte (hd (concat us)) \<and> byte (hd (concat us)) \<le> 0xBF
    \<longrightarrow> cs \<noteq> [] \<and> hd cs = hd (concat us))"
  using assms
proof (induction cs us rule: list_all2_induct)
  case (Cons c cs u us)
  then consider (same) "u = [c]" "byte c \<notin> {0, 12, 13}" | (null) "u = map chr [0xEF, 0xBF, 0xBD]"
    | (escape) "u \<noteq> []" "hd u = backslash_char" "\<forall>x \<in> set u. byte x < 128 \<and> byte x \<notin> {0, 12, 13}"
    by (auto simp: unit_for_def)
  then show ?case
  proof cases
    case same
    with Cons show ?thesis by (auto simp: surrogate_pair_def)
  next
    case null
    with Cons show ?thesis by (auto simp: surrogate_pair_def)
  next
    case escape
    with Cons show ?thesis by (auto simp: hd_append intro!: clean_ascii)
  qed
qed simp

lemma hex_escape_unit: "byte c < 128 \<Longrightarrow> unit_for c (hex_escape c)"
proof -
  assume c: "byte c < 128"
  then have "drop_bit 4 (byte c) < 16" "byte c AND 15 < 16" by (simp_all add: bits)
  then show ?thesis
    using escape_digit_hex [of "drop_bit 4 (byte c)"] escape_digit_hex [of "byte c AND 15"]
    by (auto simp: unit_for_def hex_escape_def)
qed

lemma string_char_unit: "unit_for c (string_char c)"
proof (cases "byte c \<noteq> 0 \<and> (byte c \<le> 0x1F \<or> byte c = 0x7F)")
  case True
  then show ?thesis using hex_escape_unit [of c] by (auto simp: string_char_def)
qed (auto simp: string_char_def unit_for_def)

lemma not_name_ascii: "\<not> is_name c \<Longrightarrow> byte c < 128"
  by (simp add: is_name_def is_name_start_def)

lemma identifier_char_unit: "unit_for (text ! i) (identifier_char text i)"
proof -
  let ?c = "text ! i"
  have digit: "between (CHR ''0'') ?c (CHR ''9'') \<Longrightarrow> byte ?c < 128" by (simp add: between_def)
  have hex: "byte ?c < 128 \<Longrightarrow> unit_for ?c (hex_escape ?c)" by (rule hex_escape_unit)
  have minus: "unit_for ?c [backslash_char, CHR ''-'']" by (simp add: unit_for_def)
  have plain: "unit_for ?c [?c]" "\<not> is_name ?c \<Longrightarrow> unit_for ?c [backslash_char, ?c]"
    if "byte ?c \<noteq> 0" "\<not> (byte ?c \<le> 0x1F \<or> byte ?c = 0x7F)"
    using that not_name_ascii [of ?c] by (auto simp: unit_for_def)
  have null: "byte ?c = 0 \<Longrightarrow> unit_for ?c [chr 239, chr 191, chr 189]" by (simp add: unit_for_def)
  show ?thesis
    using digit hex minus plain null unfolding identifier_char_def Let_def by auto
qed

section \<open>Reading the units back\<close>

lemma consume_hex_escape:
  assumes "drop at s = hex_escape c @ rest" "byte c < 128" "byte c \<noteq> 0"
  shows "consume_escape s at = (Point (byte c), at + length (hex_escape c))"
proof -
  define ds where "ds = (if byte c \<ge> 16 then [escape_digit (drop_bit 4 (byte c))] else []) @ [escape_digit (byte c AND 15)]"
  have lt: "drop_bit 4 (byte c) < 16" "byte c AND 15 < 16" using assms(2) by (simp_all add: bits)
  note digits = escape_digit_hex [OF lt(1)] escape_digit_hex [OF lt(2)]
  have hex: "\<forall>x \<in> set ds. hex_char x" "ds \<noteq> []" "length ds \<le> 2" by (auto simp: ds_def hex_char_def digits)
  have num: "hex_number ds = byte c"
    using digits assms(2) by (simp add: ds_def hex_number_def bits split: if_splits)
  have shape: "hex_escape c = backslash_char # ds @ [CHR '' '']" by (simp add: hex_escape_def ds_def)
  have d: "drop (at + 1) s = ds @ CHR '' '' # rest"
    using assms(1) by (simp add: shape drop_Suc [of at s] tl_drop [symmetric])
  have len: "at + 1 + length ds < length s"
    using arg_cong [OF d, of length] by simp
  have sp: "s ! (at + 1 + length ds) = CHR '' ''"
    using nth_drop [of "at + 1" s "length ds"] len unfolding d by simp
  have first: "s ! (at + 1) = hd ds" using hd_drop_conv_nth [of "at + 1" s] d hex(2) len by simp
  have "\<not> hex_char (CHR '' '')" by (simp add: hex_char_def hex_value_def between_def)
  then have "takeWhile hex_char (take 6 (drop (at + 1) s)) = ds"
    using hex unfolding d by (simp add: take_append) (cases "6 - length ds"; simp add: takeWhile_append2)
  then show ?thesis
    using len sp first hex num assms(3) by (simp add: consume_escape_def Let_def shape is_whitespace_def)
qed

lemma consume_plain_escape:
  assumes "drop at s = backslash_char # c # rest" "\<not> hex_char c"
  shows "consume_escape s at
    = (Verbatim (c # takeWhile continuation_byte rest), at + 2 + length (takeWhile continuation_byte rest))"
proof -
  have d: "drop (at + 1) s = c # rest" "drop (at + 2) s = rest"
    using assms(1) by (metis add.commute drop_drop drop_Suc_Cons drop0 One_nat_def,
        metis add.commute drop_drop drop_Suc_Cons drop0 numeral_2_eq_2)
  then have "at + 1 < length s" "s ! (at + 1) = c"
    using hd_drop_conv_nth [of "at + 1" s] by (metis drop_all leI list.distinct(1), metis drop_all leI list.distinct(1) list.sel(1))
  moreover have "substr s (at + 1) (Suc (length (takeWhile continuation_byte rest))) = c # takeWhile continuation_byte rest"
    using d by (simp add: substr_def takeWhile_eq_take [symmetric])
  ultimately show ?thesis
    using assms(2) d by (simp add: consume_escape_def Let_def scan_while_def)
qed

lemma drop_next:
  assumes "drop at s = u @ rest" "u \<noteq> []"
  shows "at < length s" "s ! at = hd u" "drop (at + length u) s = rest" "at + length u \<le> length s"
proof -
  show "at < length s" using assms by (metis append_is_Nil_conv drop_all not_le)
  then show "s ! at = hd u" using assms hd_drop_conv_nth [of at s] by simp
  show "drop (at + length u) s = rest" using assms(1) by (metis add.commute append_eq_conv_conj drop_drop)
  show "at + length u \<le> length s" using arg_cong [OF assms(1), of length] \<open>at < length s\<close> by simp
qed

lemma put_point: "0 < byte c \<Longrightarrow> byte c < 128 \<Longrightarrow> put_escape d (Point (byte c)) = d @ [c]"
  by (simp add: put_escape_def append_code_point_def append_utf8_def utf8_def)

text \<open>What a unit stands for, when \<open>P\<close> are the characters taken as they are.\<close>

definition reads :: "(char \<Rightarrow> bool) \<Rightarrow> string \<Rightarrow> string \<Rightarrow> bool" where
  "reads P u w \<longleftrightarrow> u = w \<and> u \<noteq> [] \<and> (\<forall>x \<in> set u. P x)
     \<or> (\<exists>c. u = hex_escape c \<and> w = [c] \<and> 0 < byte c \<and> byte c < 128)
     \<or> (\<exists>c. u = [backslash_char, c] \<and> w = [c] \<and> \<not> hex_char c \<and> \<not> is_newline c)"

lemma hex_escape_parts:
  assumes "byte c < 128"
  obtains e es where "hex_escape c = backslash_char # e # es" "\<not> is_newline e"
proof -
  have lt: "drop_bit 4 (byte c) < 16" "byte c AND 15 < 16" using assms by (simp_all add: bits)
  note digits = escape_digit_hex [OF lt(1)] escape_digit_hex [OF lt(2)]
  have "\<not> is_newline (escape_digit (drop_bit 4 (byte c)))" "\<not> is_newline (escape_digit (byte c AND 15))"
    using digits by (auto simp: is_newline_def eq_chr_iff)
  with that show thesis by (cases "byte c \<ge> 16") (auto simp: hex_escape_def)
qed

text \<open>A loop that takes the characters of \<open>P\<close> as they are and decodes valid escapes: those of names and
  of strings.\<close>

locale escape_loop =
  fixes loop :: "string \<Rightarrow> nat \<Rightarrow> string \<Rightarrow> nat \<times> string"
    and P :: "char \<Rightarrow> bool"
  assumes takes: "at < length s \<Longrightarrow> P (s ! at) \<Longrightarrow> loop s at d = loop s (at + 1) (d @ [s ! at])"
    and decodes: "at + 1 < length s \<Longrightarrow> is_valid_escape s at
      \<Longrightarrow> loop s at d = loop s (snd (consume_escape s at)) (put_escape d (fst (consume_escape s at)))"
    and continues: "continuation_byte c \<Longrightarrow> P c"
begin

lemma takes_all:
  "drop at s = k @ rest \<Longrightarrow> \<forall>x \<in> set k. P x \<Longrightarrow> loop s at d = loop s (at + length k) (d @ k)"
proof (induction k arbitrary: at d)
  case (Cons x k)
  have *: "drop at s = [x] @ k @ rest" using Cons(2) by simp
  from Cons(1) [of "at + 1" "d @ [x]"] Cons(3) drop_next [OF *] takes [of at s d] show ?case by simp
qed simp

lemma reads_unit:
  assumes "drop at s = u @ rest" "reads P u w"
  shows "loop s at d = loop s (at + length u) (d @ w)"
proof -
  consider (same) "u = w" "\<forall>x \<in> set u. P x"
    | (hex) c where "u = hex_escape c" "w = [c]" "0 < byte c" "byte c < 128"
    | (plain) c where "u = [backslash_char, c]" "w = [c]" "\<not> hex_char c" "\<not> is_newline c"
    using assms(2) by (auto simp: reads_def)
  then show ?thesis
  proof cases
    case same
    with assms(1) takes_all show ?thesis by simp
  next
    case hex
    obtain e es where e: "hex_escape c = backslash_char # e # es" "\<not> is_newline e" using hex_escape_parts hex(4) .
    have "drop at s = [backslash_char, e] @ es @ rest" using assms(1) hex(1) e(1) by simp
    note n = drop_next [OF this]
    have "drop at s = [backslash_char] @ e # es @ rest" using assms(1) hex(1) e(1) by simp
    from drop_next [OF this] have "drop (at + 1) s = [e] @ es @ rest" by simp
    from drop_next [OF this] n e have "is_valid_escape s at" "at + 1 < length s" by (simp_all add: is_valid_escape_def)
    with decodes [of at s d] consume_hex_escape [of at s c rest] assms(1) hex show ?thesis by (simp add: put_point)
  next
    case plain
    let ?k = "takeWhile continuation_byte rest"
    have *: "drop at s = backslash_char # c # rest" using assms(1) plain(1) by simp
    have "drop at s = [backslash_char] @ c # rest" using * by simp
    note n = drop_next [OF this]
    have "drop (at + 1) s = [c] @ rest" using n(3) by simp
    from drop_next [OF this] n plain have v: "is_valid_escape s at" "at + 1 < length s"
      and rest: "drop (at + 2) s = rest" by (simp_all add: is_valid_escape_def)
    have "loop s at d = loop s (at + 2 + length ?k) (d @ c # ?k)"
      using decodes [OF v(2,1), of d] consume_plain_escape [OF * plain(3)] by (simp add: put_escape_def)
    moreover have "loop s (at + 2) (d @ [c]) = loop s (at + 2 + length ?k) ((d @ [c]) @ ?k)"
      using takes_all [of "at + 2" s ?k "dropWhile continuation_byte rest" "d @ [c]"] rest
      by (auto dest: set_takeWhileD intro: continues)
    ultimately show ?thesis using plain(1,2) by simp
  qed
qed

lemma reads_units:
  "list_all2 (reads P) us ws \<Longrightarrow> drop at s = concat us @ rest
   \<Longrightarrow> loop s at d = loop s (at + length (concat us)) (d @ concat ws)"
proof (induction us ws arbitrary: at d rule: list_all2_induct)
  case (Cons u us w ws)
  have *: "drop at s = u @ concat us @ rest" using Cons(4) by simp
  have "drop (at + length u) s = concat us @ rest"
    using * by (metis add.commute append_eq_conv_conj drop_drop)
  with Cons(3) [of "at + length u" "d @ w"] reads_unit [OF * Cons(1), of d] show ?case by (simp add: add.assoc)
qed simp

end

lemma continuation_name: "continuation_byte c \<Longrightarrow> is_name c"
  by (simp add: continuation_byte_def is_name_def is_name_start_def)

lemma name_not_backslash: "is_name c \<Longrightarrow> c \<noteq> backslash_char"
  by (auto simp: is_name_def is_name_start_def css_digit_def between_def)

interpretation name: escape_loop name_loop is_name
proof
  fix s at d
  show "at < length s \<Longrightarrow> is_name (s ! at) \<Longrightarrow> name_loop s at d = name_loop s (at + 1) (d @ [s ! at])"
    using name_not_backslash by (subst name_loop.simps) (auto simp: is_valid_escape_def)
  show "at + 1 < length s \<Longrightarrow> is_valid_escape s at
    \<Longrightarrow> name_loop s at d = name_loop s (snd (consume_escape s at)) (put_escape d (fst (consume_escape s at)))"
    by (subst name_loop.simps) simp
qed (rule continuation_name)

definition string_plain :: "char \<Rightarrow> bool" where
  "string_plain c \<longleftrightarrow> c \<noteq> CHR 0x22 \<and> \<not> is_newline c \<and> c \<noteq> backslash_char"

interpretation quoted: escape_loop "\<lambda>s. string_loop s (CHR 0x22)" string_plain
proof
  fix s at d
  show "at < length s \<Longrightarrow> string_plain (s ! at)
    \<Longrightarrow> string_loop s (CHR 0x22) at d = string_loop s (CHR 0x22) (at + 1) (d @ [s ! at])"
    by (subst string_loop.simps) (simp add: string_plain_def)
  show "at + 1 < length s \<Longrightarrow> is_valid_escape s at \<Longrightarrow> string_loop s (CHR 0x22) at d
    = string_loop s (CHR 0x22) (snd (consume_escape s at)) (put_escape d (fst (consume_escape s at)))"
    by (subst string_loop.simps) (simp add: is_valid_escape_def is_newline_def eq_chr_iff)
next
  show "continuation_byte c \<Longrightarrow> string_plain c" for c
    by (auto simp: continuation_byte_def string_plain_def is_newline_def eq_chr_iff)
qed

section \<open>A text that is one token\<close>

lemma units_split:
  "list_all2 (reads P) us ws
   \<Longrightarrow> list_all P (concat us) \<and> concat us = concat ws
     \<or> (\<exists>k r. concat us = k @ backslash_char # r \<and> list_all P k)"
proof (induction us ws rule: list_all2_induct)
  case (Cons u us w ws)
  show ?case
  proof (cases "u = w \<and> list_all P u")
    case True
    from Cons(3) show ?thesis
    proof
      assume "\<exists>k r. concat us = k @ backslash_char # r \<and> list_all P k"
      then obtain k r where "concat us = k @ backslash_char # r" "list_all P k" by blast
      then have "concat (u # us) = (u @ k) @ backslash_char # r" "list_all P (u @ k)" using True by auto
      then show ?thesis by blast
    next
      assume "list_all P (concat us) \<and> concat us = concat ws"
      then show ?thesis using True by (metis concat.simps(2) list_all_append)
    qed
  next
    case False
    with Cons(1) have "u \<noteq> [] \<and> hd u = backslash_char" by (auto simp: reads_def hex_escape_def list_all_iff)
    then have "concat (u # us) = [] @ backslash_char # (tl u @ concat us)" by (cases u) simp_all
    moreover have "list_all P []" by simp
    ultimately show ?thesis by blast
  qed
qed simp

lemma scan_while_to:
  assumes "drop at s = k @ rest" "list_all P k" "rest = [] \<or> \<not> P (hd rest)"
  shows "scan_while P s at = at + length k"
proof -
  have "takeWhile P (k @ rest) = k"
    using assms(2,3) by (cases rest) (auto simp: takeWhile_append2 takeWhile_eq_all_conv list_all_iff)
  with assms(1) show ?thesis by (simp add: scan_while_def)
qed

lemma tokenize_one:
  assumes "preprocess css = s" "s \<noteq> []" "hd s \<noteq> CHR ''/''"
    and "next_token s \<lparr>pos = 0, decoded = []\<rparr> = (t, l')" "pos l' = length s"
  shows "pool (tokenize css) = s @ decoded l'" "tokens (tokenize css) = [t, plain_token Eof (length s) 0]"
proof -
  have skip: "skip_comments s 0 = 0" "skip_comments s (length s) = length s"
    using assms(2,3) by (subst skip_comments.simps, simp add: hd_conv_nth)+
  have "lex_run s l' = ([], decoded l')" using skip assms(5) by (subst lex_run.simps) simp
  then have "lex_run s \<lparr>pos = 0, decoded = []\<rparr> = ([t], decoded l')"
    using skip assms(2,4) by (subst lex_run.simps) (simp add: Let_def)
  with assms(1) show "pool (tokenize css) = s @ decoded l'" "tokens (tokenize css) = [t, plain_token Eof (length s) 0]"
    by (simp_all add: tokenize_parts)
qed

lemma scrub_Nil [simp]: "scrub [] = []"
  by (simp add: scrub_def)

lemma scrub_length: "length (scrub s) \<le> 3 * length s"
  by (induction s) (auto simp: scrub_def utf8_def)

lemma replacement_bytes: "utf8 0xFFFD = map chr [0xEF, 0xBF, 0xBD]"
  by (simp add: utf8_def bits)

lemma hex_escape_length: "length (hex_escape c) \<le> 4"
  by (simp add: hex_escape_def)

section \<open>Strings\<close>

lemma string_char_reads: "reads string_plain (string_char c) (if c = chr 0 then utf8 0xFFFD else [c])"
proof -
  have "reads string_plain (hex_escape c) [c]" if "0 < byte c" "byte c \<le> 0x1F \<or> byte c = 0x7F"
    using that by (auto simp: reads_def)
  moreover have "reads string_plain (map chr [0xEF, 0xBF, 0xBD]) (map chr [0xEF, 0xBF, 0xBD])"
    by (simp add: reads_def string_plain_def is_newline_def chr_eq_iff)
  moreover have "reads string_plain [backslash_char, c] [c]" if "c = CHR 0x22 \<or> c = backslash_char"
    using that by (auto simp: reads_def hex_char_def hex_value_def between_def is_newline_def eq_chr_iff)
  moreover have "reads string_plain [c] [c]" if "byte c > 0x1F" "c \<noteq> CHR 0x22" "c \<noteq> backslash_char"
    using that by (auto simp: reads_def string_plain_def is_newline_def eq_chr_iff)
  ultimately show ?thesis
    by (auto simp: string_char_def replacement_bytes eq_chr_iff simp del: list.map)
qed

lemma string_units: "list_all2 (reads string_plain) (map string_char body) (map (\<lambda>c. if c = chr 0 then utf8 0xFFFD else [c]) body)"
  using string_char_reads by (simp add: list_all2_conv_all_nth)

lemma no_surrogates_snoc: "no_surrogates s \<Longrightarrow> no_surrogates (s @ [CHR 0x22])"
proof (induction s)
  case (Cons c s)
  then show ?case by (cases s) (simp_all add: surrogate_pair_def)
qed simp

lemma string_text_clean:
  assumes "no_surrogates body"
  shows "preprocess (string_text body) = string_text body"
proof -
  have quote: "unit_for (CHR 0x22) [CHR 0x22]" by (simp add: unit_for_def)
  have "list_all2 unit_for body (map string_char body)"
    using string_char_unit by (simp add: list_all2_conv_all_nth)
  then have u: "list_all2 unit_for (CHR 0x22 # body @ [CHR 0x22]) ([CHR 0x22] # map string_char body @ [[CHR 0x22]])"
    using quote by (simp add: list_all2_appendI)
  have "no_surrogates (CHR 0x22 # body @ [CHR 0x22])"
    using no_surrogates_snoc [OF assms] by (simp add: surrogate_pair_def)
  from clean_units [OF u this] have "clean (string_text body)" by (simp add: string_text_def)
  then show ?thesis using preprocess_clean [of "string_text body"] by (simp add: preprocess_def has_bom_def string_text_def)
qed

lemma consume_string_text:
  assumes "s = string_text body"
  obtains t l' where "consume_string s (CHR 0x22) \<lparr>pos = 0, decoded = []\<rparr> = (t, l')" "pos l' = length s"
    and "t = plain_token String_token 0 (length s) \<and> decoded l' = [] \<and> s = CHR 0x22 # scrub body @ [CHR 0x22]
      \<or> t = plain_token String_token (length s) (length (decoded l'))
        \<and> decoded l' = CHR 0x22 # scrub body @ [CHR 0x22]"
proof -
  let ?us = "concat (map string_char body)"
  have d: "drop 1 s = ?us @ [CHR 0x22]" by (simp add: assms string_text_def)
  have len: "length s = length ?us + 2" by (simp add: assms string_text_def)
  have last: "s ! (length ?us + 1) = CHR 0x22" using d nth_drop [of 1 s "length ?us"] len by simp
  have loop: "string_loop s (CHR 0x22) 1 e = (length ?us + 1, e @ scrub body)" for e
  proof -
    have "string_loop s (CHR 0x22) 1 e = string_loop s (CHR 0x22) (1 + length ?us) (e @ scrub body)"
      using quoted.reads_units [OF string_units d] by (simp add: scrub_def)
    also have "\<dots> = (length ?us + 1, e @ scrub body)" using last by (subst string_loop.simps) simp
    finally show ?thesis .
  qed
  have plain: "(\<lambda>c. c \<noteq> CHR 0x22 \<and> \<not> is_newline c \<and> c \<noteq> backslash_char) = string_plain"
    by (simp add: fun_eq_iff string_plain_def)
  have not_plain: "\<not> string_plain (CHR 0x22)" "\<not> string_plain backslash_char" by (simp_all add: string_plain_def)
  have newline: "\<not> is_newline (CHR 0x22)" "\<not> is_newline backslash_char" by (simp_all add: is_newline_def eq_chr_iff)
  from units_split [OF string_units [of body]] show thesis
  proof
    assume same: "list_all string_plain ?us \<and> ?us = concat (map (\<lambda>c. if c = chr 0 then utf8 0xFFFD else [c]) body)"
    then have "scan_while string_plain s 1 = 1 + length ?us"
      using not_plain by (intro scan_while_to [OF d]) (blast, simp)
    then have "consume_string s (CHR 0x22) \<lparr>pos = 0, decoded = []\<rparr>
        = (plain_token String_token 0 (length s), \<lparr>pos = length s, decoded = []\<rparr>)"
      using len last newline by (simp add: consume_string_def Let_def plain)
    moreover have "s = CHR 0x22 # scrub body @ [CHR 0x22]"
      using same by (simp add: assms string_text_def scrub_def)
    ultimately show thesis using that by simp
  next
    assume "\<exists>k r. ?us = k @ backslash_char # r \<and> list_all string_plain k"
    then obtain k r where k: "?us = k @ backslash_char # r" "list_all string_plain k" by blast
    have d': "drop 1 s = k @ backslash_char # r @ [CHR 0x22]" using d k by simp
    then have scan: "scan_while string_plain s 1 = 1 + length k"
      using not_plain k by (intro scan_while_to [OF d']) simp_all
    have at: "1 + length k < length s" "s ! (1 + length k) = backslash_char"
      using len k d' nth_drop [of 1 s "length k"] by simp_all
    have "consume_string s (CHR 0x22) \<lparr>pos = 0, decoded = []\<rparr>
        = (plain_token String_token (length s) (length (scrub body) + 2),
           \<lparr>pos = length s, decoded = CHR 0x22 # scrub body @ [CHR 0x22]\<rparr>)"
      using at len last loop [of "[CHR 0x22]"] scan
      by (simp add: consume_string_def Let_def plain newline)
    then show thesis using that by simp
  qed
qed

lemma string_text_length: "length (string_text body) \<le> 4 * length body + 2"
proof -
  have "length (string_char c) \<le> 4" for c using hex_escape_length [of c] by (simp add: string_char_def)
  then have "length (concat (map string_char body)) \<le> 4 * length body"
    by (induction body) (simp_all add: add_mono)
  then show ?thesis by (simp add: string_text_def)
qed

text \<open>C23. A serialised string is one string token, and its value is the string that was serialised, with
  U+FFFD for each NUL: for every string below 512 MB that is free of encoded surrogates.\<close>

theorem string_round:
  assumes "no_surrogates body" "length body < 2 ^ 29"
  shows "\<exists>t e. tokens (tokenize (string_text body)) = [t, e] \<and> t_type t = String_token \<and> t_type e = Eof
    \<and> value_of (tokenize (string_text body)) t = scrub body"
proof -
  let ?s = "string_text body"
  obtain t l' where t: "consume_string ?s (CHR 0x22) \<lparr>pos = 0, decoded = []\<rparr> = (t, l')" "pos l' = length ?s"
    and shape: "t = plain_token String_token 0 (length ?s) \<and> decoded l' = [] \<and> ?s = CHR 0x22 # scrub body @ [CHR 0x22]
      \<or> t = plain_token String_token (length ?s) (length (decoded l'))
        \<and> decoded l' = CHR 0x22 # scrub body @ [CHR 0x22]"
    using consume_string_text [OF refl] by blast
  have head: "?s \<noteq> []" "?s ! 0 = CHR 0x22" "hd ?s \<noteq> CHR ''/''" by (simp_all add: string_text_def)
  then have "next_token ?s \<lparr>pos = 0, decoded = []\<rparr> = (t, l')"
    using t by (simp add: next_token_def peek_def is_whitespace_def eq_chr_iff)
  note tok = tokenize_one [OF string_text_clean [OF assms(1)] head(1) _ this t(2)]
  have small: "length ?s < 2 ^ 32" "length (scrub body) + 2 < 2 ^ 32"
    using string_text_length [of body] scrub_length [of body] assms(2) by simp_all
  have "text_of (tokenize ?s) t = CHR 0x22 # scrub body @ [CHR 0x22]" "t_type t = String_token"
  proof -
    have "text_of (tokenize ?s) t = CHR 0x22 # scrub body @ [CHR 0x22] \<and> t_type t = String_token"
      using shape
    proof
      assume a: "t = plain_token String_token 0 (length ?s) \<and> decoded l' = [] \<and> ?s = CHR 0x22 # scrub body @ [CHR 0x22]"
      then have "length ?s = length (scrub body) + 2" by simp
      with a small show ?thesis
        unfolding text_of_def tok(1) [OF head(3)] by (simp add: plain_token_def substr_def u32_id)
    next
      assume b: "t = plain_token String_token (length ?s) (length (decoded l'))
        \<and> decoded l' = CHR 0x22 # scrub body @ [CHR 0x22]"
      with small show ?thesis
        unfolding text_of_def tok(1) [OF head(3)] by (simp add: plain_token_def substr_def u32_id)
    qed
    then show "text_of (tokenize ?s) t = CHR 0x22 # scrub body @ [CHR 0x22]" "t_type t = String_token" by simp_all
  qed
  then have "value_of (tokenize ?s) t = scrub body" by (simp add: value_of_def Let_def substr_def)
  with tok(2) [OF head(3)] \<open>t_type t = String_token\<close> show ?thesis by (simp add: plain_token_def)
qed

section \<open>Identifiers\<close>

lemma identifier_char_reads:
  "reads is_name (identifier_char body i) (if body ! i = chr 0 then utf8 0xFFFD else [body ! i])"
proof -
  let ?c = "body ! i"
  have "reads is_name (hex_escape ?c) [?c]" if "0 < byte ?c" "byte ?c < 128"
    using that by (auto simp: reads_def)
  moreover have "reads is_name (map chr [0xEF, 0xBF, 0xBD]) (map chr [0xEF, 0xBF, 0xBD])"
    by (simp add: reads_def is_name_def is_name_start_def)
  moreover have "reads is_name [backslash_char, ?c] [?c]" if "\<not> is_name ?c \<or> ?c = CHR ''-''" "byte ?c > 0x1F"
    using that by (auto simp: reads_def hex_char_def hex_value_def between_def is_newline_def eq_chr_iff
        is_name_def is_name_start_def css_digit_def)
  moreover have "reads is_name [?c] [?c]" if "is_name ?c"
    using that by (simp add: reads_def)
  moreover have "byte ?c < 128" if "between (CHR ''0'') ?c (CHR ''9'')" using that by (simp add: between_def)
  ultimately show ?thesis
    by (auto simp: identifier_char_def Let_def replacement_bytes eq_chr_iff simp del: list.map)
qed

lemma identifier_units:
  "list_all2 (reads is_name) (map (identifier_char body) [0..<length body])
     (map (\<lambda>c. if c = chr 0 then utf8 0xFFFD else [c]) body)"
  using identifier_char_reads [of body] by (simp add: list_all2_conv_all_nth)

text \<open>A unit begins with a name character or with a valid escape; a digit or a lone minus at the front is escaped.\<close>

lemma identifier_char_head:
  obtains (name) c rest where "identifier_char body i = c # rest" "is_name c"
      "css_digit c \<Longrightarrow> i \<noteq> 0 \<and> (i = 1 \<longrightarrow> body ! 0 \<noteq> CHR ''-'')"
      "c = CHR ''-'' \<Longrightarrow> rest = [] \<and> body ! i = CHR ''-'' \<and> length body \<noteq> 1"
  | (escape) e es where "identifier_char body i = backslash_char # e # es" "\<not> is_newline e"
proof -
  let ?c = "body ! i"
  have hex: thesis if "identifier_char body i = hex_escape ?c" "byte ?c < 128"
    using that hex_escape_parts escape by metis
  have e: "\<not> is_newline (CHR ''-'')" "\<not> is_newline ?c" if "byte ?c > 0x1F"
    using that by (auto simp: is_newline_def eq_chr_iff)
  have d: "byte ?c < 128" if "between (CHR ''0'') ?c (CHR ''9'')" using that by (simp add: between_def)
  consider (null) "byte ?c = 0" | (control) "byte ?c \<noteq> 0" "byte ?c \<le> 0x1F \<or> byte ?c = 0x7F"
    | (digit) "byte ?c > 0x1F" "between (CHR ''0'') ?c (CHR ''9'') \<and> (i = 0 \<or> i = 1 \<and> body ! 0 = CHR ''-'')"
    | (other) "byte ?c > 0x1F" "byte ?c \<noteq> 0x7F"
        "\<not> (between (CHR ''0'') ?c (CHR ''9'') \<and> (i = 0 \<or> i = 1 \<and> body ! 0 = CHR ''-''))"
    by linarith
  then show thesis
  proof cases
    case null
    then have "identifier_char body i = chr 0xEF # map chr [0xBF, 0xBD]" by (simp add: identifier_char_def)
    then show thesis
      by (rule name) (simp_all add: is_name_def is_name_start_def css_digit_def between_def chr_eq_iff)
  next
    case control
    then show thesis using hex by (auto simp: identifier_char_def)
  next
    case digit
    then have "identifier_char body i = hex_escape ?c" by (simp add: identifier_char_def Let_def)
    with hex digit d show thesis by blast
  next
    case other
    show thesis
    proof (cases "is_name ?c \<and> \<not> (?c = CHR ''-'' \<and> length body = 1)")
      case True
      with other have "identifier_char body i = ?c # []" by (auto simp: identifier_char_def)
      then show thesis by (rule name) (use True other in \<open>auto simp: css_digit_def\<close>)
    next
      case False
      with other have "identifier_char body i = backslash_char # ?c # []"
        by (auto simp: identifier_char_def is_name_def)
      then show thesis using escape e other(1) by blast
    qed
  qed
qed

lemma serialize_step:
  "i < length body \<Longrightarrow> concat (map (identifier_char body) [i..<length body])
    = identifier_char body i @ concat (map (identifier_char body) [Suc i..<length body])"
  by (simp add: upt_conv_Cons)

text \<open>What a name can go on with, so that it is an identifier.\<close>

definition name_next :: "string \<Rightarrow> bool" where
  "name_next s \<longleftrightarrow> s = [] \<or> is_name (hd s) \<or> is_valid_escape s 0"

lemma units_next: "name_next (concat (map (identifier_char body) [i..<length body]))"
proof (cases "i < length body")
  case True
  show ?thesis
    unfolding serialize_step [OF True]
    by (cases rule: identifier_char_head [of body i]) (auto simp: name_next_def is_valid_escape_def)
qed (simp add: name_next_def)

lemma next_token_ident:
  assumes "s \<noteq> []" "starts_ident s 0" "\<not> starts_number s 0"
    and "\<not> (peek s 0 0 = CHR ''-'' \<and> peek s 0 1 = CHR ''-'' \<and> peek s 0 2 = CHR ''>'')"
  shows "next_token s \<lparr>pos = 0, decoded = []\<rparr> = consume_ident_like s \<lparr>pos = 0, decoded = []\<rparr>"
proof -
  have p: "peek s 0 0 = s ! 0" using assms(1) by (simp add: peek_def)
  consider (start) "is_name_start (s ! 0)" | (escape) "is_valid_escape s 0" | (minus) "s ! 0 = CHR ''-''"
    using assms(2) by (auto simp: starts_ident_def)
  then show ?thesis
  proof cases
    case start
    then have "byte (s ! 0) \<notin> {9, 10, 32}" "s ! 0 \<notin> set ([CHR 0x22, CHR 0x27, CHR 0x5C] @ '' ()[]{},:;#+.-<@'')"
      by (auto simp: is_name_start_def between_def)
    moreover have "\<not> css_digit (s ! 0)" using start by (auto simp: is_name_start_def css_digit_def between_def)
    ultimately show ?thesis using start
      by (simp add: next_token_def p is_whitespace_def eq_chr_iff punctuation_def Let_def)
  next
    case escape
    then have "s ! 0 = backslash_char" by (simp add: is_valid_escape_def)
    with escape p show ?thesis by (simp add: next_token_def is_whitespace_def eq_chr_iff punctuation_def)
  next
    case minus
    with p assms show ?thesis by (auto simp: next_token_def is_whitespace_def eq_chr_iff punctuation_def)
  qed
qed

lemma identifier_starts:
  assumes "body \<noteq> []" "s = serialize_identifier body"
  shows "s \<noteq> []" "starts_ident s 0" "\<not> starts_number s 0" "hd s \<noteq> CHR ''/''"
    and "\<not> (peek s 0 0 = CHR ''-'' \<and> peek s 0 1 = CHR ''-'' \<and> peek s 0 2 = CHR ''>'')"
proof -
  have len: "0 < length body" using assms(1) by simp
  have s: "s = identifier_char body 0 @ concat (map (identifier_char body) [Suc 0..<length body])"
    using assms(2) serialize_step [OF len] by (simp add: serialize_identifier_def)
  let ?goal = "s \<noteq> [] \<and> starts_ident s 0 \<and> \<not> starts_number s 0 \<and> hd s \<noteq> CHR ''/''
    \<and> \<not> (peek s 0 0 = CHR ''-'' \<and> peek s 0 1 = CHR ''-'' \<and> peek s 0 2 = CHR ''>'')"
  have ?goal
  proof (cases rule: identifier_char_head [of body 0])
    case (escape e es)
    then have "s = backslash_char # e # es @ concat (map (identifier_char body) [Suc 0..<length body])" using s by simp
    then show ?goal using escape(2)
      by (simp add: starts_ident_def is_valid_escape_def starts_number_def css_digit_def between_def peek_def)
  next
    case (name c rest)
    then have c: "s ! 0 = c" "s \<noteq> []" "hd s = c" "\<not> css_digit c" using s by auto
    have slash: "c \<noteq> CHR ''/''" "c \<noteq> CHR ''.''" "c \<noteq> CHR ''+''"
      using name(2) by (auto simp: is_name_def is_name_start_def css_digit_def between_def)
    show ?goal
    proof (cases "c = CHR ''-''")
      case False
      with name(2) c(4) have "is_name_start c" by (simp add: is_name_def)
      with False c slash show ?goal by (simp add: starts_ident_def starts_number_def peek_def)
    next
      case True
      with name(4) have m: "rest = []" "body ! 0 = CHR ''-''" "length body \<noteq> 1" by simp_all
      then have len: "Suc 0 < length body" using assms(1) by (cases body) auto
      define r where "r = concat (map (identifier_char body) [Suc (Suc 0)..<length body])"
      have s': "s = CHR ''-'' # identifier_char body 1 @ r"
        using s name(1) m(1) True serialize_step [OF len] by (simp add: r_def)
      have after: "name_next r" unfolding r_def by (rule units_next)
      show ?goal
      proof (cases rule: identifier_char_head [of body 1])
        case (escape e es)
        then have "s = CHR ''-'' # backslash_char # e # es @ r" using s' by simp
        then show ?goal using escape(2)
          by (simp add: starts_ident_def is_valid_escape_def starts_number_def css_digit_def between_def peek_def)
      next
        case (name d rest')
        with m(2) have d: "\<not> css_digit d" "d \<noteq> CHR ''.''" "is_name_start d \<or> d = CHR ''-''"
          by (auto simp: is_name_def is_name_start_def css_digit_def between_def)
        have s'': "s = CHR ''-'' # d # rest' @ r" using s' name(1) by simp
        have "peek s 0 2 \<noteq> CHR ''>''" if "d = CHR ''-''"
        proof -
          have "s = CHR ''-'' # CHR ''-'' # r" using s'' name(4) that by simp
          with after show ?thesis
            by (cases r) (auto simp: peek_def name_next_def is_valid_escape_def is_name_def is_name_start_def
                css_digit_def between_def chr_eq_iff)
        qed
        moreover have "starts_ident s 0" "\<not> starts_number s 0"
          using s'' d by (auto simp: starts_ident_def starts_number_def css_digit_def between_def)
        ultimately show ?goal using s'' by (auto simp: peek_def)
      qed
    qed
  qed
  then show "s \<noteq> []" "starts_ident s 0" "\<not> starts_number s 0" "hd s \<noteq> CHR ''/''"
    "\<not> (peek s 0 0 = CHR ''-'' \<and> peek s 0 1 = CHR ''-'' \<and> peek s 0 2 = CHR ''>'')" by simp_all
qed

lemma consume_identifier_text:
  assumes "s = serialize_identifier body"
  obtains t l' where "consume_name_token s Ident 0 \<lparr>pos = 0, decoded = []\<rparr> = (t, l')" "pos l' = length s"
    and "t = plain_token Ident 0 (length s) \<and> decoded l' = [] \<and> s = scrub body
      \<or> t = plain_token Ident (length s) (length (decoded l')) \<and> decoded l' = scrub body"
proof -
  have d: "drop 0 s = concat (map (identifier_char body) [0..<length body]) @ []"
    using assms by (simp add: serialize_identifier_def)
  have loop: "name_loop s 0 [] = (length s, scrub body)"
  proof -
    have "name_loop s 0 [] = name_loop s (length s) (scrub body)"
      using name.reads_units [OF identifier_units d, of "[]"] d by (simp add: scrub_def)
    also have "\<dots> = (length s, scrub body)" by (subst name_loop.simps) simp
    finally show ?thesis .
  qed
  have s: "concat (map (identifier_char body) [0..<length body]) = s" using d by simp
  from units_split [OF identifier_units [of body]] show thesis
  proof
    assume same: "list_all is_name (concat (map (identifier_char body) [0..<length body]))
      \<and> concat (map (identifier_char body) [0..<length body])
        = concat (map (\<lambda>c. if c = chr 0 then utf8 0xFFFD else [c]) body)"
    then have n: "list_all is_name s" "s = scrub body" unfolding s by (blast, simp add: scrub_def)
    have "scan_while is_name s 0 = 0 + length s" using n by (intro scan_while_to [of 0 s s "[]"]) simp_all
    then have "consume_name_token s Ident 0 \<lparr>pos = 0, decoded = []\<rparr>
        = (plain_token Ident 0 (length s), \<lparr>pos = length s, decoded = []\<rparr>)"
      by (simp add: consume_name_token_def Let_def)
    with that n show thesis by simp
  next
    assume "\<exists>k r. concat (map (identifier_char body) [0..<length body]) = k @ backslash_char # r \<and> list_all is_name k"
    then obtain k r where k: "s = k @ backslash_char # r" "list_all is_name k" unfolding s by blast
    have "\<not> is_name backslash_char" using name_not_backslash by blast
    with k have "scan_while is_name s 0 = 0 + length k" by (intro scan_while_to [of 0 s k "backslash_char # r"]) simp_all
    then have "consume_name_token s Ident 0 \<lparr>pos = 0, decoded = []\<rparr>
        = (plain_token Ident (length s) (length (scrub body)), \<lparr>pos = length s, decoded = scrub body\<rparr>)"
      using k(1) loop by (simp add: consume_name_token_def substr_def Let_def)
    with that show thesis by simp
  qed
qed

lemma identifier_text_length: "length (serialize_identifier body) \<le> 4 * length body"
proof -
  have "length (identifier_char body i) \<le> 4" for i
    using hex_escape_length [of "body ! i"] by (simp add: identifier_char_def Let_def)
  then have "length (concat (map (identifier_char body) xs)) \<le> 4 * length xs" for xs
    by (induction xs) (simp_all add: add_mono)
  from this [of "[0..<length body]"] show ?thesis by (simp add: serialize_identifier_def)
qed

lemma unit_peel:
  assumes "list_all2 unit_for cs us" "concat us = x # r" "128 \<le> byte x" "byte x = 0xEF \<Longrightarrow> r \<noteq> [] \<and> byte (hd r) \<noteq> 0xBF"
  obtains cs' us' where "cs = x # cs'" "list_all2 unit_for cs' us'" "concat us' = r"
proof -
  obtain u us' where us: "us = u # us'" using assms(2) by (cases us) auto
  then obtain c cs' where cs: "cs = c # cs'" "unit_for c u" "list_all2 unit_for cs' us'"
    using assms(1) by (auto simp: list_all2_Cons2)
  have cat: "u @ concat us' = x # r" using us assms(2) by simp
  have "u = [c]"
  proof (rule ccontr)
    assume "u \<noteq> [c]"
    then consider "u = map chr [0xEF, 0xBF, 0xBD]" | "u \<noteq> []" "hd u = backslash_char" using cs(2) by (auto simp: unit_for_def)
    then show False
    proof cases
      case 1
      with cat have "x = chr 0xEF" "hd r = chr 0xBF" by auto
      with assms(4) show False by simp
    next
      case 2
      with cat have "x = backslash_char" by (cases u) auto
      with assms(3) show False by simp
    qed
  qed
  with cat cs that show thesis by simp
qed

lemma has_bom_shape:
  "has_bom s \<Longrightarrow> \<exists>x y z r. s = x # y # z # r \<and> byte x = 0xEF \<and> byte y = 0xBB \<and> byte z = 0xBF"
  by (cases s rule: remdups_adj.cases; cases "drop 2 s") (auto simp: has_bom_def)

lemma identifier_text_clean:
  assumes "no_surrogates body" "\<not> has_bom body"
  shows "preprocess (serialize_identifier body) = serialize_identifier body"
proof -
  let ?us = "map (identifier_char body) [0..<length body]"
  have u: "list_all2 unit_for body ?us"
    using identifier_char_unit [of body] by (simp add: list_all2_conv_all_nth)
  have "clean (serialize_identifier body)"
    unfolding serialize_identifier_def using clean_units [OF u assms(1)] by (rule conjunct1)
  moreover have "\<not> has_bom (serialize_identifier body)"
  proof
    assume "has_bom (serialize_identifier body)"
    from has_bom_shape [OF this] obtain x y z r where s: "serialize_identifier body = x # y # z # r"
      and b: "byte x = 0xEF" "byte y = 0xBB" "byte z = 0xBF" by (elim exE conjE)
    have r: "concat ?us = x # y # z # r" using s unfolding serialize_identifier_def .
    obtain cs us where 1: "body = x # cs" "list_all2 unit_for cs us" "concat us = y # z # r"
      using u r by (rule unit_peel) (use b in simp_all)
    obtain cs' us' where 2: "cs = y # cs'" "list_all2 unit_for cs' us'" "concat us' = z # r"
      using 1(2,3) by (rule unit_peel) (use b in simp_all)
    obtain cs'' us'' where 3: "cs' = z # cs''" "list_all2 unit_for cs'' us''" "concat us'' = r"
      using 2(2,3) by (rule unit_peel) (use b in simp_all)
    from 1(1) 2(1) 3(1) b assms(2) show False by (simp add: has_bom_def)
  qed
  ultimately show ?thesis by (simp add: preprocess_def preprocess_clean)
qed

text \<open>C13. A serialised identifier is one identifier token, and its text is the name that was serialised,
  with U+FFFD for each NUL: for every nonempty name below 512 MB that does not start with a byte order
  mark and is free of encoded surrogates, digits, minuses and punctuation at the front included.\<close>

theorem identifier_round:
  assumes "body \<noteq> []" "no_surrogates body" "\<not> has_bom body" "length body < 2 ^ 29"
  shows "\<exists>t e. tokens (tokenize (serialize_identifier body)) = [t, e] \<and> t_type t = Ident \<and> t_type e = Eof
    \<and> text_of (tokenize (serialize_identifier body)) t = scrub body"
proof -
  let ?s = "serialize_identifier body"
  obtain t l' where t: "consume_name_token ?s Ident 0 \<lparr>pos = 0, decoded = []\<rparr> = (t, l')" "pos l' = length ?s"
    and shape: "t = plain_token Ident 0 (length ?s) \<and> decoded l' = [] \<and> ?s = scrub body
      \<or> t = plain_token Ident (length ?s) (length (decoded l')) \<and> decoded l' = scrub body"
    using consume_identifier_text [OF refl] by blast
  note starts = identifier_starts [OF assms(1) refl]
  have "consume_ident_like ?s \<lparr>pos = 0, decoded = []\<rparr> = (t, l')"
    using t by (simp add: consume_ident_like_def peek_def chr_eq_iff)
  with next_token_ident [OF starts(1-3,5)] have "next_token ?s \<lparr>pos = 0, decoded = []\<rparr> = (t, l')" by simp
  note tok = tokenize_one [OF identifier_text_clean [OF assms(2,3)] starts(1,4) this t(2)]
  have small: "length ?s < 2 ^ 32" "length (scrub body) < 2 ^ 32"
    using identifier_text_length [of body] scrub_length [of body] assms(4) by simp_all
  from shape have "text_of (tokenize ?s) t = scrub body \<and> t_type t = Ident"
  proof
    assume a: "t = plain_token Ident 0 (length ?s) \<and> decoded l' = [] \<and> ?s = scrub body"
    then have "length ?s = length (scrub body)" by simp
    with a small show ?thesis unfolding text_of_def tok(1) by (simp add: plain_token_def substr_def u32_id)
  next
    assume "t = plain_token Ident (length ?s) (length (decoded l')) \<and> decoded l' = scrub body"
    with small show ?thesis unfolding text_of_def tok(1) by (simp add: plain_token_def substr_def u32_id)
  qed
  with tok(2) show ?thesis by (simp add: plain_token_def)
qed

theorem identifier_round_witness:
  "\<exists>t e. tokens (tokenize (serialize_identifier ''-1.a'')) = [t, e] \<and> t_type t = Ident \<and> t_type e = Eof
    \<and> text_of (tokenize (serialize_identifier ''-1.a'')) t = ''-1.a''"
  using identifier_round [of "''-1.a''"] by (simp add: has_bom_def surrogate_pair_def scrub_def chr_eq_iff eq_chr_iff)

theorem string_round_witness:
  "\<exists>t e. tokens (tokenize (string_text [CHR 0x22, chr 10, CHR 0x5C])) = [t, e] \<and> t_type t = String_token \<and> t_type e = Eof
    \<and> value_of (tokenize (string_text [CHR 0x22, chr 10, CHR 0x5C])) t = [CHR 0x22, chr 10, CHR 0x5C]"
  using string_round [of "[CHR 0x22, chr 10, CHR 0x5C]"] by (simp add: surrogate_pair_def scrub_def chr_eq_iff eq_chr_iff)

text \<open>Four ways the tokenizer leaves its specification, at the end of the input and after escapes. An
  escaped function name lacks its parenthesis and the token ends past the pool; a bad URL that ends in a
  backslash ends past the source; an escaped end of input is dropped in a URL, where it should be U+FFFD,
  and is U+FFFD in a string, where it should be dropped.\<close>

theorem tokenizer_end_errors:
  "tokenize (CHR 0x5C # ''66('')
     = \<lparr>pool = CHR 0x5C # ''66(f'', tokens = [plain_token Function 4 2, plain_token Eof 4 0], source_length = 4\<rparr>
   \<and> tokenize (''url(('' @ [CHR 0x5C])
     = \<lparr>pool = ''url(('' @ [CHR 0x5C], tokens = [plain_token Bad_url 0 7, plain_token Eof 6 0], source_length = 6\<rparr>
   \<and> tokenize (''url(a'' @ [CHR 0x5C])
     = \<lparr>pool = ''url(a'' @ [CHR 0x5C] @ ''a'' @ [CHR 0x5C], tokens = [plain_token Url_token 6 2, plain_token Eof 6 0],
        source_length = 6\<rparr>
   \<and> value_of (tokenize (CHR 0x22 # ''a'' @ [CHR 0x5C])) (plain_token String_token 3 6) = ''a'' @ map chr [0xEF, 0xBF, 0xBD]"
  by (intro conjI) (simp_all add: css_eval value_of_def)

end
