(* ===== verification/Dom_Pi.thy ===== *)
theory Dom_Pi
  imports Atoms Utf8
begin

text \<open>
  The attributes of a processing instruction (\<^verbatim>\<open>parse_pseudo_attributes\<close> and
  \<^verbatim>\<open>serialize_pseudo_attributes\<close> of \<^verbatim>\<open>lib/DOM/document.cpp\<close>) and the attribute record of
  \<^verbatim>\<open>include/ctbrowser/dom/node.hpp\<close>. The position in the data is the rest of it. Shown: parsing reads
  back every map that the serialiser wrote, its names being XML names.
\<close>

section \<open>Attributes\<close>

text \<open>A qualified name, a namespace (the empty atom is the null namespace) and a value.\<close>

record attribute =
  a_name :: nat
  a_ns :: nat
  a_value :: string

definition after_colon :: "string \<Rightarrow> string" where
  "after_colon qualified =
     (case find_index (\<lambda>c. c = CHR '':'') qualified of None \<Rightarrow> qualified | Some i \<Rightarrow> drop (i + 1) qualified)"

definition before_colon :: "string \<Rightarrow> string" where
  "before_colon qualified =
     (case find_index (\<lambda>c. c = CHR '':'') qualified of None \<Rightarrow> [] | Some i \<Rightarrow> take i qualified)"

definition attribute_local_name :: "atom_table \<Rightarrow> attribute \<Rightarrow> string" where
  "attribute_local_name t a = (if a_ns a = 0 then atom_text t (a_name a) else after_colon (atom_text t (a_name a)))"

definition attribute_prefix :: "atom_table \<Rightarrow> attribute \<Rightarrow> string" where
  "attribute_prefix t a = (if a_ns a = 0 then [] else before_colon (atom_text t (a_name a)))"

definition attribute_is :: "atom_table \<Rightarrow> attribute \<Rightarrow> string \<Rightarrow> string \<Rightarrow> bool" where
  "attribute_is t a ns local_name \<longleftrightarrow> atom_text t (a_ns a) = ns \<and> attribute_local_name t a = local_name"

section \<open>Parsing pseudo-attributes\<close>

definition xml_space :: "char \<Rightarrow> bool" where
  "xml_space c \<longleftrightarrow> c \<in> {CHR '' '', chr 9, chr 13, chr 10}"

definition pi_name_start :: "char \<Rightarrow> bool" where
  "pi_name_start c \<longleftrightarrow> between (CHR ''a'') c (CHR ''z'') \<or> between (CHR ''A'') c (CHR ''Z'') \<or> c = CHR ''_''
     \<or> c = CHR '':'' \<or> byte c \<ge> 0x80"

definition pi_name_char :: "char \<Rightarrow> bool" where
  "pi_name_char c \<longleftrightarrow> pi_name_start c \<or> between (CHR ''0'') c (CHR ''9'') \<or> c = CHR ''-'' \<or> c = CHR ''.''"

definition predefined :: "string \<Rightarrow> char option" where
  "predefined = map_of [(''amp'', CHR ''&''), (''lt'', CHR ''<''), (''gt'', CHR ''>''), (''quot'', CHR 0x22),
     (''apos'', CHR 0x27)]"

fun reference_code :: "bool \<Rightarrow> nat \<Rightarrow> string \<Rightarrow> nat option" where
  "reference_code hex code [] = Some code"
| "reference_code hex code (d # ds) =
     (let v = (if hex then hex_value d
               else if between (CHR ''0'') d (CHR ''9'') then int (byte d) - int (byte (CHR ''0'')) else -1)
      in if v < 0 \<or> code > 0x10FFFF then None
         else reference_code hex (code * (if hex then 16 else 10) + nat v) ds)"

definition xml_char :: "nat \<Rightarrow> bool" where
  "xml_char code \<longleftrightarrow> code = 0x9 \<or> code = 0xA \<or> code = 0xD \<or> 0x20 \<le> code \<and> code \<le> 0xD7FF
     \<or> 0xE000 \<le> code \<and> code \<le> 0xFFFD \<or> 0x10000 \<le> code \<and> code \<le> 0x10FFFF"

definition reference_text :: "string \<Rightarrow> string option" where
  "reference_text body =
     (case predefined body of
        Some c \<Rightarrow> Some [c]
      | None \<Rightarrow>
          if length body < 2 \<or> hd body \<noteq> CHR ''#'' then None
          else let hex = (body ! 1 = CHR ''x''); digits = drop (if hex then 2 else 1) body
            in if digits = [] then None
               else case reference_code hex 0 digits of
                   None \<Rightarrow> None
                 | Some code \<Rightarrow> if xml_char code then Some (append_utf8 [] code) else None)"

text \<open>A reference, the rest being at its ampersand: its text and what is left.\<close>

definition pi_reference :: "string \<Rightarrow> (string \<times> string) option" where
  "pi_reference rest =
     (case find_index (\<lambda>c. c = CHR '';'') rest of
        None \<Rightarrow> None
      | Some end \<Rightarrow>
          map_option (\<lambda>s. (s, drop (end + 1) rest)) (reference_text (take (end - 1) (drop 1 rest))))"

function pi_value :: "char \<Rightarrow> string \<Rightarrow> string \<Rightarrow> (string \<times> string) option" where
  "pi_value quote [] v = None"
| "pi_value quote (c # cs) v =
     (if c = quote then Some (v, cs)
      else if c = CHR ''<'' then None
      else if c = CHR ''&''
      then (case pi_reference (c # cs) of None \<Rightarrow> None | Some (s, rest) \<Rightarrow> pi_value quote rest (v @ s))
      else pi_value quote cs (v @ [c]))"
  by pat_completeness auto
termination
  by (relation "measure (\<lambda>(quote, rest, v). length rest)")
    (auto simp: pi_reference_def split: option.splits dest: find_index_bound)

definition skip_space :: "string \<Rightarrow> string" where
  "skip_space = dropWhile xml_space"

lemma skip_space_le: "length (skip_space s) \<le> length s"
  by (simp add: skip_space_def length_dropWhile_le)

lemma pi_value_shorter: "pi_value quote rest v = Some (w, rest') \<Longrightarrow> length rest' < length rest"
proof (induction quote rest v rule: pi_value.induct)
  case (2 quote c cs v)
  have "length r < length (c # cs)" if "pi_reference (c # cs) = Some (s, r)" for s r
    using that by (auto simp: pi_reference_def split: option.splits dest: find_index_bound)
  with 2 show ?case by (fastforce split: if_splits option.splits)
qed simp

function pi_loop :: "atom_table \<Rightarrow> attribute list \<Rightarrow> string \<Rightarrow> atom_table \<times> attribute list option" where
  "pi_loop t out rest =
     (let r = skip_space rest; spaced = (r \<noteq> rest) in
      if r = [] then (t, Some out)
      else if out \<noteq> [] \<and> \<not> spaced then (t, None)
      else if \<not> pi_name_start (hd r) then (t, None)
      else let name = takeWhile pi_name_char r; r = skip_space (dropWhile pi_name_char r) in
        if r = [] \<or> hd r \<noteq> CHR ''='' then (t, None)
        else let r = skip_space (tl r) in
          if r = [] \<or> hd r \<noteq> CHR 0x22 \<and> hd r \<noteq> CHR 0x27 then (t, None)
          else case pi_value (hd r) (tl r) [] of
              None \<Rightarrow> (t, None)
            | Some (v, r) \<Rightarrow>
                let (t, key) = intern t name in
                if \<exists>a \<in> set out. a_name a = key then (t, None)
                else pi_loop t (out @ [\<lparr>a_name = key, a_ns = 0, a_value = v\<rparr>]) r)"
  by pat_completeness auto
termination
proof (relation "measure (\<lambda>(t, out, rest). length rest)", goal_cases)
  case (2 t out rest r spaced name r1 r2 p v r3 q t' key)
  have "length r3 < length (tl r2)" using 2 by (auto dest: pi_value_shorter)
  also have "\<dots> \<le> length r2" by simp
  also have "\<dots> \<le> length (tl r1)" unfolding 2 by (rule skip_space_le)
  also have "\<dots> \<le> length r1" by simp
  also have "\<dots> \<le> length (dropWhile pi_name_char r)" unfolding 2 by (rule skip_space_le)
  also have "\<dots> \<le> length r" by (rule length_dropWhile_le)
  also have "\<dots> \<le> length rest" unfolding 2 by (rule skip_space_le)
  finally show ?case by simp
qed simp

declare pi_loop.simps [simp del]

definition parse_pseudo_attributes :: "atom_table \<Rightarrow> string \<Rightarrow> atom_table \<times> attribute list option" where
  "parse_pseudo_attributes t data = pi_loop t [] data"

section \<open>Serialising them\<close>

definition pi_escape :: "char \<Rightarrow> string" where
  "pi_escape c =
     (if c = CHR ''&'' then ''&amp;'' else if c = CHR ''<'' then ''&lt;'' else if c = CHR ''>'' then ''&gt;''
      else if c = CHR 0x22 then ''&quot;'' else [c])"

definition serialize_pseudo_attributes :: "atom_table \<Rightarrow> attribute list \<Rightarrow> string" where
  "serialize_pseudo_attributes t as =
     foldl (\<lambda>data a. (if data \<noteq> [] then data @ '' '' else data) @ atom_text t (a_name a) @ ''='' @ [CHR 0x22]
        @ concat (map pi_escape (a_value a)) @ [CHR 0x22]) [] as"

section \<open>The round trip\<close>

text \<open>An attribute whose name is an XML name of the table.\<close>

definition pi_attribute :: "atom_table \<Rightarrow> attribute \<Rightarrow> bool" where
  "pi_attribute t a \<longleftrightarrow> a_ns a = 0 \<and> index t (atom_text t (a_name a)) = Some (a_name a)
     \<and> atom_text t (a_name a) \<noteq> [] \<and> pi_name_start (hd (atom_text t (a_name a)))
     \<and> list_all pi_name_char (atom_text t (a_name a))"

definition pi_text :: "atom_table \<Rightarrow> attribute \<Rightarrow> string" where
  "pi_text t a = atom_text t (a_name a) @ ''='' @ [CHR 0x22] @ concat (map pi_escape (a_value a)) @ [CHR 0x22]"

lemma serialize_snoc:
  "serialize_pseudo_attributes t (as @ [a])
   = serialize_pseudo_attributes t as @ (if as = [] then [] else '' '') @ pi_text t a"
proof -
  have "serialize_pseudo_attributes t as = [] \<longleftrightarrow> as = []"
    by (cases as rule: rev_cases) (auto simp: serialize_pseudo_attributes_def)
  then show ?thesis by (simp add: serialize_pseudo_attributes_def pi_text_def)
qed

lemma serialize_Cons:
  "serialize_pseudo_attributes t (a # as)
   = pi_text t a @ concat (map (\<lambda>b. '' '' @ pi_text t b) as)"
proof (induction as rule: rev_induct)
  case Nil
  then show ?case by (simp add: serialize_pseudo_attributes_def pi_text_def)
next
  case (snoc b as)
  then show ?case using serialize_snoc [of t "a # as" b] by simp
qed

lemma reference_reads:
  assumes "pi_escape c = CHR ''&'' # name @ '';''" "CHR '';'' \<notin> set name" "reference_text name = Some [c]"
  shows "pi_value (CHR 0x22) (pi_escape c @ rest) v = pi_value (CHR 0x22) rest (v @ [c])"
proof -
  have "find_index (\<lambda>x. x = CHR '';'') (name @ CHR '';'' # rest) = Some (length name)"
    using assms(2) by (induction name) auto
  then show ?thesis using assms(1,3) by (simp add: pi_reference_def)
qed

lemma value_reads:
  "pi_value (CHR 0x22) (concat (map pi_escape cs) @ CHR 0x22 # rest) v = Some (v @ cs, rest)"
proof (induction cs arbitrary: v)
  case (Cons c cs)
  have *: "concat (map pi_escape (c # cs)) @ CHR 0x22 # rest
    = pi_escape c @ concat (map pi_escape cs) @ CHR 0x22 # rest" by simp
  consider "c = CHR ''&''" | "c = CHR ''<''" | "c = CHR ''>''" | "c = CHR 0x22"
    | "c \<notin> {CHR ''&'', CHR ''<'', CHR ''>'', CHR 0x22}" by blast
  then have "pi_value (CHR 0x22) (pi_escape c @ r) v = pi_value (CHR 0x22) r (v @ [c])" for r
  proof cases
    case 1
    then show ?thesis by (intro reference_reads [where name = "''amp''"]) (simp_all add: pi_escape_def reference_text_def predefined_def)
  next
    case 2
    then show ?thesis by (intro reference_reads [where name = "''lt''"]) (simp_all add: pi_escape_def reference_text_def predefined_def)
  next
    case 3
    then show ?thesis by (intro reference_reads [where name = "''gt''"]) (simp_all add: pi_escape_def reference_text_def predefined_def)
  next
    case 4
    then show ?thesis by (intro reference_reads [where name = "''quot''"]) (simp_all add: pi_escape_def reference_text_def predefined_def)
  next
    case 5
    then show ?thesis by (simp add: pi_escape_def)
  qed
  with Cons show ?case unfolding * by simp
qed simp

lemma name_start_not_space: "pi_name_start c \<Longrightarrow> \<not> xml_space c"
  by (auto simp: pi_name_start_def xml_space_def between_def eq_chr_iff)

lemma pi_attribute_reads:
  assumes a: "pi_attribute t a" "\<forall>b \<in> set out. a_name b \<noteq> a_name a" and spaced: "out = [] \<or> sp \<noteq> []"
    and sp: "list_all xml_space sp"
  shows "pi_loop t out (sp @ pi_text t a @ rest) = pi_loop t (out @ [a]) rest"
proof -
  let ?n = "atom_text t (a_name a)"
  let ?v = "concat (map pi_escape (a_value a)) @ CHR 0x22 # rest"
  have n: "?n \<noteq> []" "pi_name_start (hd ?n)" "\<forall>c \<in> set ?n. pi_name_char c" "index t ?n = Some (a_name a)" "a_ns a = 0"
    using a(1) by (simp_all add: pi_attribute_def list_all_iff)
  let ?r = "?n @ CHR ''='' # CHR 0x22 # ?v"
  have as_text: "pi_text t a @ rest = ?r" by (simp add: pi_text_def)
  have "\<not> xml_space (hd ?r)" using n(1,2) name_start_not_space by simp
  then have r: "skip_space (sp @ ?r) = ?r"
    using sp n(1) unfolding skip_space_def
    by (subst dropWhile_append2) (auto simp: list_all_iff dropWhile_eq_self_iff)
  have eq: "\<not> pi_name_char (CHR ''='')" "\<not> xml_space (CHR ''='')" "\<not> xml_space (CHR 0x22)"
    by (simp_all add: pi_name_char_def pi_name_start_def between_def xml_space_def eq_chr_iff)
  have split: "takeWhile pi_name_char ?r = ?n" "dropWhile pi_name_char ?r = CHR ''='' # CHR 0x22 # ?v"
    using n(3) eq by (simp_all add: takeWhile_append2 dropWhile_append2)
  have i: "intern t ?n = (t, a_name a)" using n(4) by (simp add: intern_def intern_read_def)
  have sk: "skip_space (CHR ''='' # x) = CHR ''='' # x" "skip_space (CHR 0x22 # x) = CHR 0x22 # x" for x
    using eq by (simp_all add: skip_space_def)
  define body where "body = ?r"
  have "body \<noteq> []" "hd body = hd ?n" using n(1) by (simp_all add: body_def)
  moreover have "sp @ body \<noteq> body \<or> out = []" using spaced by auto
  moreover have "\<lparr>a_name = a_name a, a_ns = 0, a_value = a_value a\<rparr> = a" using n(5) by (cases a) simp
  moreover have "\<not> (\<exists>b \<in> set out. a_name b = a_name a)" using a(2) by blast
  moreover have "pi_value (CHR 0x22) ?v [] = Some (a_value a, rest)" using value_reads [of "a_value a" rest "[]"] by simp
  ultimately have "pi_loop t out (sp @ body) = pi_loop t (out @ [a]) rest"
    using n(2) r split by (subst pi_loop.simps) (auto simp: Let_def body_def [symmetric] i sk)
  then show ?thesis unfolding as_text body_def .
qed

text \<open>The data that an attribute write on a processing instruction stores parses back to the
  attributes it was made from, whatever their values: for attributes without a namespace whose names are
  distinct XML names.\<close>

theorem pi_attributes_round:
  assumes "list_all (pi_attribute t) as" "distinct (map a_name as)"
  shows "parse_pseudo_attributes t (serialize_pseudo_attributes t as) = (t, Some as)"
proof -
  have finished: "pi_loop t out [] = (t, Some out)" for out by (subst pi_loop.simps) (simp add: skip_space_def)
  have more: "pi_loop t out (concat (map (\<lambda>b. '' '' @ pi_text t b) bs)) = (t, Some (out @ bs))"
    if "list_all (pi_attribute t) bs" "distinct (map a_name (out @ bs))" for out bs
    using that
  proof (induction bs arbitrary: out)
    case (Cons b bs)
    have "pi_loop t out ('' '' @ pi_text t b @ concat (map (\<lambda>b. '' '' @ pi_text t b) bs))
      = pi_loop t (out @ [b]) (concat (map (\<lambda>b. '' '' @ pi_text t b) bs))"
      using Cons.prems by (intro pi_attribute_reads) (auto simp: xml_space_def image_iff)
    with Cons show ?case by simp
  qed (simp add: finished)
  show ?thesis
  proof (cases as)
    case Nil
    then show ?thesis by (simp add: parse_pseudo_attributes_def serialize_pseudo_attributes_def finished)
  next
    case (Cons a bs)
    have "pi_loop t [] ([] @ pi_text t a @ concat (map (\<lambda>b. '' '' @ pi_text t b) bs))
      = pi_loop t ([] @ [a]) (concat (map (\<lambda>b. '' '' @ pi_text t b) bs))"
      using assms Cons by (intro pi_attribute_reads) auto
    with more [of bs "[a]"] assms Cons show ?thesis by (simp add: parse_pseudo_attributes_def serialize_Cons)
  qed
qed

theorem pi_attributes_round_witness:
  "parse_pseudo_attributes (fst (intern new_table ''href''))
     (serialize_pseudo_attributes (fst (intern new_table ''href'')) [\<lparr>a_name = 1, a_ns = 0, a_value = ''a<&'' @ [CHR 0x22]\<rparr>])
   = (fst (intern new_table ''href''), Some [\<lparr>a_name = 1, a_ns = 0, a_value = ''a<&'' @ [CHR 0x22]\<rparr>])"
  by (rule pi_attributes_round)
    (simp_all add: pi_attribute_def intern_def intern_read_def intern_write_def new_table_def atom_text_def
      pi_name_start_def pi_name_char_def between_def)

end
