(* ===== verification/Dom.thy ===== *)
theory Dom
  imports Dom_Pi Slab
begin

text \<open>
  The live document (\<^verbatim>\<open>include/ctbrowser/dom/document.hpp\<close>, \<^verbatim>\<open>node.hpp\<close>, \<^verbatim>\<open>lib/DOM/document.cpp\<close>): its
  nodes, in a slab, and the operations that read, create and write them. A pointer that \<^verbatim>\<open>find\<close> returned
  and that is written through is \<open>edit_node\<close>. The loops that follow parent pointers are
  \<open>partial_function\<close>s: \<open>None\<close> is a walk that never ends, or one that reads through a null pointer.
  Allocation failures and the assertions of debug builds are left out.
\<close>

section \<open>Nodes\<close>

datatype node_kind =
    Document | Element | Text | Comment | Document_fragment | Document_type | Processing_instruction
  | Cdata_section

datatype node_ns = Html | Svg | Other

type_synonym node_id = handle

definition null_id :: node_id where
  "null_id = \<lparr>h_slot = 0, h_generation = 0\<rparr>"

record node =
  n_kind :: node_kind
  n_ns :: node_ns
  n_prefixed :: bool
  n_tag :: nat
  n_parent :: node_id
  n_children :: "node_id list"
  n_attributes :: "attribute list"
  n_text :: string

definition new_node :: "node_kind \<Rightarrow> nat \<Rightarrow> node_ns \<Rightarrow> bool \<Rightarrow> node" where
  "new_node k a ns has_prefix =
     \<lparr>n_kind = k, n_ns = ns, n_prefixed = has_prefix, n_tag = a, n_parent = null_id, n_children = [],
      n_attributes = [], n_text = []\<rparr>"

definition is_text_kind :: "node_kind \<Rightarrow> bool" where
  "is_text_kind k \<longleftrightarrow> k = Text \<or> k = Cdata_section"

definition max_dom_depth :: nat where
  "max_dom_depth = 512"

section \<open>The document\<close>

datatype dom_error =
    No_such_node | Not_an_element | Would_cycle | Is_root | Invalid_attribute_name | Invalid_shadow_host
  | Shadow_root_exists | Too_deep

record data_edit =
  offset :: nat
  count :: nat
  added :: nat

datatype edit = Attribute_edit | Data_edit | Inserted | Removed

record write_note =
  w_node :: node_id
  w_name :: nat
  w_text :: bool
  w_existed :: bool
  w_removal :: bool
  w_kind :: edit
  w_child :: node_id
  w_index :: "32 word"
  w_data :: data_edit

definition blank_note :: "node_id \<Rightarrow> write_note" where
  "blank_note h =
     \<lparr>w_node = h, w_name = 0, w_text = False, w_existed = False, w_removal = False, w_kind = Attribute_edit,
      w_child = null_id, w_index = 0, w_data = \<lparr>offset = 0, count = 0, added = 0\<rparr>\<rparr>"

record shadow_tree =
  s_host :: node_id
  s_open :: bool
  s_delegates_focus :: bool
  s_manual_slots :: bool
  s_clonable :: bool
  s_serializable :: bool
  s_declarative :: bool
  s_null_registry :: bool

record document =
  nodes :: "node slab"
  atoms :: atom_table
  root :: node_id
  document_node :: node_id
  version :: "64 word"
  log_on :: bool
  writes :: "write_note list"
  template_contents :: "(node_id \<times> node_id) list"
  parser_forms :: "(node_id \<times> node_id) list"
  element_namespaces :: "64 word \<rightharpoonup> nat"
  null_registries :: "64 word set"
  shadow_roots :: "64 word \<rightharpoonup> node_id"
  shadow_hosts :: "64 word \<rightharpoonup> shadow_tree"
  quirks :: bool
  xml :: bool
  scripting :: bool
  declarative_shadow_roots :: bool
  encoding_name :: string
  shadow_disabled_hook :: "(node_id \<Rightarrow> bool) option"
  custom_state_hook :: "(node_id \<Rightarrow> bool option) option"

definition shadow_key :: "node_id \<Rightarrow> 64 word" where
  "shadow_key h = push_bit 32 (ucast (h_generation h)) OR ucast (h_slot h)"

definition find_node :: "document \<Rightarrow> node_id \<Rightarrow> node option" where
  "find_node D h = slab_lookup (nodes D) h"

text \<open>A write through the pointer that \<^verbatim>\<open>get\<close> returned.\<close>

definition slab_put :: "handle \<Rightarrow> 'a \<Rightarrow> 'a slab \<Rightarrow> 'a slab" where
  "slab_put h v s = s\<lparr>slots := (slots s)[unat (h_slot h) := (slots s ! unat (h_slot h))\<lparr>storage := Some v\<rparr>]\<rparr>"

definition edit_node :: "node_id \<Rightarrow> (node \<Rightarrow> node) \<Rightarrow> document \<Rightarrow> document" where
  "edit_node h f D = (case find_node D h of None \<Rightarrow> D | Some n \<Rightarrow> D\<lparr>nodes := slab_put h (f n) (nodes D)\<rparr>)"

definition bump_version :: "document \<Rightarrow> document" where
  "bump_version D = D\<lparr>version := version D + 1\<rparr>"

definition new_document :: "atom_table \<Rightarrow> document" where
  "new_document t =
     (let (s, h) = slab_ins (new_node Document 0 Html False) slab_empty in
      \<lparr>nodes = s, atoms = t, root = h, document_node = h, version = 1, log_on = False, writes = [],
       template_contents = [], parser_forms = [], element_namespaces = Map.empty, null_registries = {},
       shadow_roots = Map.empty, shadow_hosts = Map.empty, quirks = True, xml = False, scripting = True,
       declarative_shadow_roots = False, encoding_name = ''UTF-8'', shadow_disabled_hook = None,
       custom_state_hook = None\<rparr>)"

section \<open>Reading\<close>

definition contains :: "document \<Rightarrow> node_id \<Rightarrow> bool" where
  "contains D h \<longleftrightarrow> find_node D h \<noteq> None"

definition kind :: "document \<Rightarrow> node_id \<Rightarrow> dom_error + node_kind" where
  "kind D h = (case find_node D h of None \<Rightarrow> Inl No_such_node | Some n \<Rightarrow> Inr (n_kind n))"

definition tag :: "document \<Rightarrow> node_id \<Rightarrow> dom_error + nat" where
  "tag D h =
     (case find_node D h of
        None \<Rightarrow> Inl No_such_node
      | Some n \<Rightarrow> if n_kind n \<noteq> Element then Inl Not_an_element else Inr (n_tag n))"

definition node_name :: "document \<Rightarrow> node_id \<Rightarrow> nat" where
  "node_name D h =
     (case find_node D h of
        None \<Rightarrow> 0
      | Some n \<Rightarrow> if n_kind n \<in> {Element, Document_type, Processing_instruction} then n_tag n else 0)"

text \<open>The two identifiers of a doctype, one NUL between them.\<close>

definition public_id :: "document \<Rightarrow> node_id \<Rightarrow> string" where
  "public_id D h =
     (case find_node D h of
        None \<Rightarrow> []
      | Some n \<Rightarrow> if n_kind n \<noteq> Document_type then [] else takeWhile (\<lambda>c. c \<noteq> chr 0) (n_text n))"

definition system_id :: "document \<Rightarrow> node_id \<Rightarrow> string" where
  "system_id D h =
     (case find_node D h of
        None \<Rightarrow> []
      | Some n \<Rightarrow>
          if n_kind n \<noteq> Document_type then []
          else case find_index (\<lambda>c. c = chr 0) (n_text n) of None \<Rightarrow> [] | Some i \<Rightarrow> drop (i + 1) (n_text n))"

definition element_ns :: "document \<Rightarrow> node_id \<Rightarrow> node_ns" where
  "element_ns D h = (case find_node D h of None \<Rightarrow> Html | Some n \<Rightarrow> n_ns n)"

definition prefixed :: "document \<Rightarrow> node_id \<Rightarrow> bool" where
  "prefixed D h = (case find_node D h of None \<Rightarrow> False | Some n \<Rightarrow> n_kind n = Element \<and> n_prefixed n)"

definition qualified_name :: "document \<Rightarrow> node_id \<Rightarrow> string" where
  "qualified_name D h = atom_text (atoms D) (case tag D h of Inl _ \<Rightarrow> 0 | Inr a \<Rightarrow> a)"

definition local_name :: "document \<Rightarrow> node_id \<Rightarrow> string" where
  "local_name D h = (if \<not> prefixed D h then qualified_name D h else after_colon (qualified_name D h))"

definition name_prefix :: "document \<Rightarrow> node_id \<Rightarrow> string" where
  "name_prefix D h = (if \<not> prefixed D h then [] else before_colon (qualified_name D h))"

definition parent :: "document \<Rightarrow> node_id \<Rightarrow> node_id" where
  "parent D h = (case find_node D h of None \<Rightarrow> null_id | Some n \<Rightarrow> n_parent n)"

definition children :: "document \<Rightarrow> node_id \<Rightarrow> node_id list" where
  "children D h = (case find_node D h of None \<Rightarrow> [] | Some n \<Rightarrow> n_children n)"

definition attributes :: "document \<Rightarrow> node_id \<Rightarrow> attribute list" where
  "attributes D h = (case find_node D h of None \<Rightarrow> [] | Some n \<Rightarrow> n_attributes n)"

definition node_text :: "document \<Rightarrow> node_id \<Rightarrow> string" where
  "node_text D h = (case find_node D h of None \<Rightarrow> [] | Some n \<Rightarrow> n_text n)"

definition find_attribute :: "document \<Rightarrow> node_id \<Rightarrow> nat \<Rightarrow> attribute option" where
  "find_attribute D h name = find (\<lambda>a. a_name a = name) (attributes D h)"

definition find_attribute_ns :: "document \<Rightarrow> node_id \<Rightarrow> string \<Rightarrow> string \<Rightarrow> attribute option" where
  "find_attribute_ns D h ns local = find (\<lambda>a. attribute_is (atoms D) a ns local) (attributes D h)"

definition attribute_value :: "document \<Rightarrow> node_id \<Rightarrow> nat \<Rightarrow> string" where
  "attribute_value D h name = (case find_attribute D h name of None \<Rightarrow> [] | Some a \<Rightarrow> a_value a)"

definition has_attribute :: "document \<Rightarrow> node_id \<Rightarrow> nat \<Rightarrow> bool" where
  "has_attribute D h name \<longleftrightarrow> find_attribute D h name \<noteq> None"

definition has_attribute_ns :: "document \<Rightarrow> node_id \<Rightarrow> string \<Rightarrow> string \<Rightarrow> bool" where
  "has_attribute_ns D h ns local \<longleftrightarrow> find_attribute_ns D h ns local \<noteq> None"

partial_function (option) is_ancestor_of :: "document \<Rightarrow> node_id \<Rightarrow> node_id \<Rightarrow> bool option" where
  "is_ancestor_of D ancestor at =
     (if \<not> handle_bool at then Some False
      else if at = ancestor then Some True
      else is_ancestor_of D ancestor (parent D at))"

definition is_document_child :: "document \<Rightarrow> node_id \<Rightarrow> bool" where
  "is_document_child D h \<longleftrightarrow>
     handle_bool h \<and> (parent D h = document_node D \<or> h = root D \<and> kind D h = Inr Element)"

definition dom_parent :: "document \<Rightarrow> node_id \<Rightarrow> node_id" where
  "dom_parent D h = (if is_document_child D h then document_node D else parent D h)"

section \<open>Side tables\<close>

definition template_content :: "document \<Rightarrow> node_id \<Rightarrow> node_id" where
  "template_content D element =
     (case map_of (template_contents D) element of None \<Rightarrow> null_id | Some fragment \<Rightarrow> fragment)"

fun put_pair :: "node_id \<Rightarrow> node_id \<Rightarrow> (node_id \<times> node_id) list \<Rightarrow> (node_id \<times> node_id) list" where
  "put_pair k v [] = [(k, v)]"
| "put_pair k v ((k', v') # ps) = (if k' = k then (k', v) # ps else (k', v') # put_pair k v ps)"

definition set_template_content :: "node_id \<Rightarrow> node_id \<Rightarrow> document \<Rightarrow> document" where
  "set_template_content element fragment D =
     D\<lparr>template_contents := put_pair element fragment (template_contents D)\<rparr>"

definition template_of :: "document \<Rightarrow> node_id \<Rightarrow> node_id" where
  "template_of D fragment =
     (if \<not> handle_bool fragment then null_id
      else case find (\<lambda>p. snd p = fragment) (template_contents D) of None \<Rightarrow> null_id | Some p \<Rightarrow> fst p)"

definition element_namespace :: "document \<Rightarrow> node_id \<Rightarrow> nat" where
  "element_namespace D element = (case element_namespaces D (shadow_key element) of None \<Rightarrow> 0 | Some a \<Rightarrow> a)"

definition set_element_namespace :: "node_id \<Rightarrow> nat \<Rightarrow> document \<Rightarrow> document" where
  "set_element_namespace element uri D =
     D\<lparr>element_namespaces := (element_namespaces D)(shadow_key element \<mapsto> uri)\<rparr>"

definition set_null_custom_element_registry :: "node_id \<Rightarrow> document \<Rightarrow> document" where
  "set_null_custom_element_registry element D =
     D\<lparr>null_registries := insert (shadow_key element) (null_registries D)\<rparr>"

definition null_custom_element_registry :: "document \<Rightarrow> node_id \<Rightarrow> bool" where
  "null_custom_element_registry D element \<longleftrightarrow> shadow_key element \<in> null_registries D"

definition shadow_root_of :: "document \<Rightarrow> node_id \<Rightarrow> node_id" where
  "shadow_root_of D h =
     (if \<not> handle_bool h then null_id
      else case shadow_roots D (shadow_key h) of None \<Rightarrow> null_id | Some r \<Rightarrow> r)"

definition shadow_tree_of :: "document \<Rightarrow> node_id \<Rightarrow> shadow_tree option" where
  "shadow_tree_of D r = (if \<not> handle_bool r then None else shadow_hosts D (shadow_key r))"

definition set_shadow_declarative :: "node_id \<Rightarrow> bool \<Rightarrow> document \<Rightarrow> document" where
  "set_shadow_declarative r declarative D =
     (if \<not> handle_bool r then D
      else case shadow_hosts D (shadow_key r) of
          None \<Rightarrow> D
        | Some s \<Rightarrow> D\<lparr>shadow_hosts := (shadow_hosts D)(shadow_key r \<mapsto> s\<lparr>s_declarative := declarative\<rparr>)\<rparr>)"

definition set_parser_form :: "node_id \<Rightarrow> node_id \<Rightarrow> document \<Rightarrow> document" where
  "set_parser_form element form D = D\<lparr>parser_forms := parser_forms D @ [(element, form)]\<rparr>"

definition parser_form :: "document \<Rightarrow> node_id \<Rightarrow> node_id" where
  "parser_form D element = (case map_of (parser_forms D) element of None \<Rightarrow> null_id | Some form \<Rightarrow> form)"

text \<open>The settings of a document: the flags, the encoding and the two hooks of the shell.\<close>

definition set_quirks :: "bool \<Rightarrow> document \<Rightarrow> document" where
  "set_quirks on D = D\<lparr>quirks := on\<rparr>"

definition set_xml :: "bool \<Rightarrow> document \<Rightarrow> document" where
  "set_xml on D = D\<lparr>xml := on\<rparr>"

definition set_scripting :: "bool \<Rightarrow> document \<Rightarrow> document" where
  "set_scripting on D = D\<lparr>scripting := on\<rparr>"

definition set_allow_declarative_shadow_roots :: "bool \<Rightarrow> document \<Rightarrow> document" where
  "set_allow_declarative_shadow_roots on D = D\<lparr>declarative_shadow_roots := on\<rparr>"

definition set_encoding :: "string \<Rightarrow> document \<Rightarrow> document" where
  "set_encoding name D = D\<lparr>encoding_name := name\<rparr>"

definition set_shadow_disabled_hook :: "(node_id \<Rightarrow> bool) option \<Rightarrow> document \<Rightarrow> document" where
  "set_shadow_disabled_hook hook D = D\<lparr>shadow_disabled_hook := hook\<rparr>"

definition shadow_disabled :: "document \<Rightarrow> node_id \<Rightarrow> bool" where
  "shadow_disabled D h = (case shadow_disabled_hook D of None \<Rightarrow> False | Some hook \<Rightarrow> hook h)"

definition set_custom_state_hook :: "(node_id \<Rightarrow> bool option) option \<Rightarrow> document \<Rightarrow> document" where
  "set_custom_state_hook hook D = D\<lparr>custom_state_hook := hook\<rparr>"

definition custom_element_defined :: "document \<Rightarrow> node_id \<Rightarrow> bool option" where
  "custom_element_defined D h = (case custom_state_hook D of None \<Rightarrow> None | Some hook \<Rightarrow> hook h)"

text \<open>The top of a tree, through shadow hosts when \<open>composed\<close>: at most 4096 steps.\<close>

fun climb_to_root :: "nat \<Rightarrow> document \<Rightarrow> bool \<Rightarrow> node_id \<Rightarrow> node_id" where
  "climb_to_root 0 D composed at = at"
| "climb_to_root (Suc k) D composed at =
     (if \<not> handle_bool at then at
      else if handle_bool (parent D at) then climb_to_root k D composed (parent D at)
      else if \<not> composed then at
      else case shadow_tree_of D at of
          None \<Rightarrow> at
        | Some t \<Rightarrow> if \<not> handle_bool (s_host t) then at else climb_to_root k D composed (s_host t))"

definition root_of_tree :: "document \<Rightarrow> bool \<Rightarrow> node_id \<Rightarrow> node_id" where
  "root_of_tree D composed from = climb_to_root 4096 D composed from"

section \<open>The write log\<close>

definition log_writes :: "bool \<Rightarrow> document \<Rightarrow> document" where
  "log_writes on D = (if on then D\<lparr>log_on := True\<rparr> else D\<lparr>log_on := False, writes := []\<rparr>)"

definition take_writes :: "document \<Rightarrow> document \<times> write_note list" where
  "take_writes D = (D\<lparr>writes := []\<rparr>, writes D)"

definition log_note :: "write_note \<Rightarrow> document \<Rightarrow> document" where
  "log_note w D = (if log_on D then D\<lparr>writes := writes D @ [w]\<rparr> else D)"

definition note_write :: "node_id \<Rightarrow> nat \<Rightarrow> bool \<Rightarrow> bool \<Rightarrow> bool \<Rightarrow> document \<Rightarrow> document" where
  "note_write h name text existed removal =
     log_note ((blank_note h)\<lparr>w_name := name, w_text := text, w_existed := existed, w_removal := removal,
             w_kind := (if text then Data_edit else Attribute_edit)\<rparr>)"

definition note_edit :: "edit \<Rightarrow> node_id \<Rightarrow> node_id \<Rightarrow> nat \<Rightarrow> document \<Rightarrow> document" where
  "note_edit k p c i =
     log_note ((blank_note p)\<lparr>w_kind := k, w_child := c, w_index := word_of_nat i\<rparr>)"

section \<open>Creation\<close>

definition create :: "node \<Rightarrow> document \<Rightarrow> document \<times> node_id" where
  "create n D = (let (s, h) = slab_ins n (nodes D) in (D\<lparr>nodes := s\<rparr>, h))"

definition create_element :: "nat \<Rightarrow> node_ns \<Rightarrow> bool \<Rightarrow> document \<Rightarrow> document \<times> node_id" where
  "create_element a ns has_prefix = create (new_node Element a ns has_prefix)"

definition create_character_data :: "node_kind \<Rightarrow> string \<Rightarrow> document \<Rightarrow> document \<times> node_id" where
  "create_character_data k v D =
     (let (D, h) = create (new_node k 0 Html False) D in (edit_node h (\<lambda>n. n\<lparr>n_text := v\<rparr>) D, h))"

abbreviation create_text :: "string \<Rightarrow> document \<Rightarrow> document \<times> node_id" where
  "create_text \<equiv> create_character_data Text"

abbreviation create_comment :: "string \<Rightarrow> document \<Rightarrow> document \<times> node_id" where
  "create_comment \<equiv> create_character_data Comment"

abbreviation create_cdata_section :: "string \<Rightarrow> document \<Rightarrow> document \<times> node_id" where
  "create_cdata_section \<equiv> create_character_data Cdata_section"

definition create_fragment :: "document \<Rightarrow> document \<times> node_id" where
  "create_fragment = create (new_node Document_fragment 0 Html False)"

definition create_document_type :: "nat \<Rightarrow> string \<Rightarrow> string \<Rightarrow> document \<Rightarrow> document \<times> node_id" where
  "create_document_type name public system D =
     (let (D, h) = create (new_node Document_type name Html False) D
      in (edit_node h (\<lambda>n. n\<lparr>n_text := public @ [chr 0] @ system\<rparr>) D, h))"

definition update_pi_attributes :: "node_id \<Rightarrow> string \<Rightarrow> document \<Rightarrow> document" where
  "update_pi_attributes h data D =
     (let (t, parsed) = parse_pseudo_attributes (atoms D) data
      in edit_node h (\<lambda>n. n\<lparr>n_attributes := (case parsed of None \<Rightarrow> [] | Some as \<Rightarrow> as)\<rparr>) (D\<lparr>atoms := t\<rparr>))"

definition create_processing_instruction :: "nat \<Rightarrow> string \<Rightarrow> document \<Rightarrow> document \<times> node_id" where
  "create_processing_instruction target data D =
     (let (D, h) = create (new_node Processing_instruction target Html False) D
      in (update_pi_attributes h data (edit_node h (\<lambda>n. n\<lparr>n_text := data\<rparr>) D), h))"

definition set_element_prefix :: "node_id \<Rightarrow> nat \<Rightarrow> document \<Rightarrow> document" where
  "set_element_prefix element qualified D =
     (case find_node D element of
        None \<Rightarrow> D
      | Some n \<Rightarrow>
          if n_kind n \<noteq> Element then D
          else bump_version (edit_node element (\<lambda>n. n\<lparr>n_tag := qualified, n_prefixed := True\<rparr>) D))"

end
