(* ===== verification/Dom_Write.thy ===== *)
theory Dom_Write
  imports Dom
begin

text \<open>
  The writes of the live document (\<^verbatim>\<open>lib/DOM/document.cpp\<close>): moving nodes in the tree, attributes and text,
  shadow roots, and the parser's builder. A write that fails answers its error and leaves the document
  as it was. The outer option of the tree writes is that of their walks.
\<close>

section \<open>Positions in a child list\<close>

text \<open>\<^verbatim>\<open>std::ranges::find\<close> as an index: the length when there is none.\<close>

definition index_of :: "'a \<Rightarrow> 'a list \<Rightarrow> nat" where
  "index_of x xs = length (takeWhile (\<lambda>y. y \<noteq> x) xs)"

definition insert_at :: "nat \<Rightarrow> 'a \<Rightarrow> 'a list \<Rightarrow> 'a list" where
  "insert_at i x xs = take i xs @ x # drop i xs"

definition without :: "'a \<Rightarrow> 'a list \<Rightarrow> 'a list" where
  "without x xs = filter (\<lambda>y. y \<noteq> x) xs"

section \<open>The parser's form associations\<close>

partial_function (option) tree_top :: "document \<Rightarrow> node_id \<Rightarrow> node_id option" where
  "tree_top D at =
     (case find_node D at of
        None \<Rightarrow> Some at
      | Some n \<Rightarrow> if \<not> handle_bool (n_parent n) then Some at else tree_top D (n_parent n))"

fun severed :: "document \<Rightarrow> (node_id \<times> node_id) list \<Rightarrow> (node_id \<times> node_id) list option" where
  "severed D [] = Some []"
| "severed D ((c, f) # ps) =
     (case (tree_top D c, tree_top D f, severed D ps) of
        (Some a, Some b, Some qs) \<Rightarrow> Some (if a \<noteq> b then qs else (c, f) # qs)
      | _ \<Rightarrow> None)"

definition sever_parser_forms :: "document \<Rightarrow> document option" where
  "sever_parser_forms D = map_option (\<lambda>ps. D\<lparr>parser_forms := ps\<rparr>) (severed D (parser_forms D))"

definition forget_parser_form :: "node_id \<Rightarrow> nat \<Rightarrow> document \<Rightarrow> document" where
  "forget_parser_form element name D =
     (if parser_forms D = [] \<or> atom_text (atoms D) name \<noteq> ''form'' then D
      else case find_node D element of
          None \<Rightarrow> D
        | Some n \<Rightarrow>
            if atom_text (atoms D) (n_tag n) = ''img'' then D
            else D\<lparr>parser_forms := filter (\<lambda>p. fst p \<noteq> element) (parser_forms D)\<rparr>)"

section \<open>Depth\<close>

definition up :: "document \<Rightarrow> node_id \<Rightarrow> node_id" where
  "up D h =
     (case find_node D h of
        None \<Rightarrow> null_id
      | Some n \<Rightarrow>
          if h = root D \<and> h \<noteq> document_node D then document_node D
          else if handle_bool (n_parent n) \<or> n_kind n \<noteq> Document_fragment then n_parent n
          else case shadow_tree_of D h of Some t \<Rightarrow> s_host t | None \<Rightarrow> template_of D h)"

fun levels_up :: "nat \<Rightarrow> document \<Rightarrow> node_id \<Rightarrow> nat" where
  "levels_up 0 D at = 0"
| "levels_up (Suc k) D at = (if handle_bool at then Suc (levels_up k D (up D at)) else 0)"

definition depth :: "document \<Rightarrow> node_id \<Rightarrow> nat" where
  "depth D h = levels_up max_dom_depth D (up D h)"

text \<open>What a node has below it, in the order they are pushed: its children, its shadow root and its
  template contents.\<close>

definition node_below :: "document \<Rightarrow> node_id \<Rightarrow> node_id list" where
  "node_below D at =
     (case find_node D at of
        None \<Rightarrow> []
      | Some n \<Rightarrow> n_children n
          @ (if n_kind n \<noteq> Element then []
             else (if handle_bool (shadow_root_of D at) then [shadow_root_of D at] else [])
                @ (if handle_bool (template_content D at) then [template_content D at] else [])))"

text \<open>The stack has its top first. A popped entry is replaced by as many as its node has below it, one
  level down, and the loop stops at the cap: that is what ends it.\<close>

definition widest :: "document \<Rightarrow> nat" where
  "widest D = 3 + sum_list (map (\<lambda>e. case storage e of None \<Rightarrow> 0 | Some n \<Rightarrow> length (n_children n)) (slots (nodes D)))"

definition stack_weight :: "document \<Rightarrow> (node_id \<times> nat) list \<Rightarrow> nat" where
  "stack_weight D todo = sum_list (map (\<lambda>p. widest D ^ (max_dom_depth + 1 - snd p)) todo)"

lemma find_node_slot: "find_node D at = Some n \<Longrightarrow> \<exists>e \<in> set (slots (nodes D)). storage e = Some n"
  unfolding find_node_def slab_lookup_def slab_get_def
  by (auto simp: Let_def split: if_splits option.splits lookup.splits)

lemma node_below_widest: "length (node_below D at) < widest D"
proof (cases "find_node D at")
  case (Some n)
  then obtain e where e: "e \<in> set (slots (nodes D))" "storage e = Some n" using find_node_slot by blast
  let ?f = "\<lambda>e. case storage e of None \<Rightarrow> 0 | Some n \<Rightarrow> length (n_children n)"
  have "?f e \<le> sum_list (map ?f (slots (nodes D)))" using e(1) by (intro member_le_sum_list) auto
  with e Some show ?thesis by (simp add: node_below_def widest_def)
qed (simp add: node_below_def widest_def)

function height_loop :: "document \<Rightarrow> nat \<Rightarrow> (node_id \<times> nat) list \<Rightarrow> nat" where
  "height_loop D tallest [] = tallest"
| "height_loop D tallest ((at, below) # todo) =
     (if tallest \<ge> max_dom_depth then tallest
      else height_loop D (max tallest below) (rev (map (\<lambda>x. (x, below + 1)) (node_below D at)) @ todo))"
  by pat_completeness auto
termination
proof (relation "measures [\<lambda>(D, tallest, todo). if tallest < max_dom_depth then 1 else 0,
    \<lambda>(D, tallest, todo). stack_weight D todo]", goal_cases)
  case (2 D tallest at below todo)
  show ?case
  proof (cases "below \<le> max_dom_depth")
    case True
    have "sum_list (map (\<lambda>p. widest D ^ (max_dom_depth + 1 - snd p)) (rev (map (\<lambda>x. (x, below + 1)) (node_below D at))))
      = length (node_below D at) * widest D ^ (max_dom_depth - below)"
      by (simp add: rev_map [symmetric] o_def sum_list_triv)
    also have "\<dots> < widest D * widest D ^ (max_dom_depth - below)"
      using node_below_widest by (simp add: widest_def)
    also have "\<dots> = widest D ^ (max_dom_depth + 1 - below)" using True by (simp add: Suc_diff_le)
    finally show ?thesis using 2 by (simp add: stack_weight_def)
  next
    case False
    then show ?thesis using 2 by simp
  qed
qed simp

declare height_loop.simps(2) [simp del]

definition height :: "document \<Rightarrow> node_id \<Rightarrow> nat" where
  "height D h = height_loop D 0 [(h, 0)]"

definition too_deep :: "document \<Rightarrow> node_id \<Rightarrow> node_id \<Rightarrow> bool" where
  "too_deep D p c \<longleftrightarrow> depth D p + 1 + height D c \<ge> max_dom_depth"

section \<open>Moving nodes\<close>

definition detach :: "node_id \<Rightarrow> document \<Rightarrow> document option" where
  "detach c D =
     (case find_node D c of
        None \<Rightarrow> Some D
      | Some n \<Rightarrow>
          if \<not> handle_bool (n_parent n) then Some D
          else case find_node D (n_parent n) of
              None \<Rightarrow> Some D
            | Some p \<Rightarrow>
                let D = note_edit Removed (n_parent n) c (index_of c (n_children p)) D;
                    D = edit_node (n_parent n) (\<lambda>p. p\<lparr>n_children := without c (n_children p)\<rparr>) D;
                    D = edit_node c (\<lambda>n. n\<lparr>n_parent := null_id\<rparr>) D
                in if parser_forms D \<noteq> [] then sever_parser_forms D else Some D)"

text \<open>Whether \<open>c\<close> is at or above \<open>at\<close>: the walk of \<^verbatim>\<open>append_child\<close> and \<^verbatim>\<open>insert_before\<close>.\<close>

partial_function (option) at_or_above :: "document \<Rightarrow> node_id \<Rightarrow> node_id \<Rightarrow> bool option" where
  "at_or_above D c at =
     (if \<not> handle_bool at then Some False
      else if at = c then Some True
      else case find_node D at of None \<Rightarrow> None | Some n \<Rightarrow> at_or_above D c (n_parent n))"

definition append_child :: "node_id \<Rightarrow> node_id \<Rightarrow> document \<Rightarrow> (dom_error + document) option" where
  "append_child p c D =
     (if find_node D p = None \<or> find_node D c = None then Some (Inl No_such_node)
      else case at_or_above D c p of
          None \<Rightarrow> None
        | Some True \<Rightarrow> Some (Inl Would_cycle)
        | Some False \<Rightarrow>
            if too_deep D p c then Some (Inl Too_deep)
            else case detach c D of
                None \<Rightarrow> None
              | Some D \<Rightarrow>
                  let D = edit_node p (\<lambda>n. n\<lparr>n_children := n_children n @ [c]\<rparr>) D;
                      D = edit_node c (\<lambda>n. n\<lparr>n_parent := p\<rparr>) D;
                      D = note_edit Inserted p c (length (children D p) - 1) D
                  in Some (Inr (bump_version D)))"

text \<open>The next sibling, for a node that is inserted before itself.\<close>

definition next_of :: "node_id \<Rightarrow> node_id list \<Rightarrow> node_id" where
  "next_of c items = (let i = index_of c items in if i + 1 \<ge> length items then null_id else items ! (i + 1))"

definition insert_before :: "node_id \<Rightarrow> node_id \<Rightarrow> node_id \<Rightarrow> document \<Rightarrow> (dom_error + document) option" where
  "insert_before p c before D =
     (if find_node D p = None \<or> find_node D c = None then Some (Inl No_such_node)
      else case at_or_above D c p of
          None \<Rightarrow> None
        | Some True \<Rightarrow> Some (Inl Would_cycle)
        | Some False \<Rightarrow>
            if too_deep D p c then Some (Inl Too_deep)
            else let before = (if before = c then next_of c (children D p) else before) in
              case detach c D of
                None \<Rightarrow> None
              | Some D \<Rightarrow>
                  let at = index_of before (children D p);
                      D = edit_node p (\<lambda>n. n\<lparr>n_children := insert_at at c (n_children n)\<rparr>) D;
                      D = edit_node c (\<lambda>n. n\<lparr>n_parent := p\<rparr>) D;
                      D = note_edit Inserted p c at D
                  in Some (Inr (bump_version D)))"

definition remove_child :: "node_id \<Rightarrow> document \<Rightarrow> (dom_error + document) option" where
  "remove_child c D =
     (if find_node D c = None then Some (Inl No_such_node)
      else if c = root D then Some (Inl Is_root)
      else map_option (\<lambda>D. Inr (bump_version D)) (detach c D))"

text \<open>The document element: the Document node has it in its children, it has no parent.\<close>

definition set_document_element :: "node_id \<Rightarrow> node_id \<Rightarrow> document \<Rightarrow> document option" where
  "set_document_element h before D =
     (let previous = root D; D = D\<lparr>root := h\<rparr> in
      if find_node D (document_node D) = None \<or> h = document_node D \<or> h = previous then Some D
      else case (if find_node D h = None then Some D else detach h D) of
          None \<Rightarrow> None
        | Some D \<Rightarrow>
            let d = document_node D; items = without h (children D d);
                slot = index_of previous items;
                D = (if slot < length items
                     then note_edit Inserted d h slot (note_edit Removed d previous slot
                            (edit_node d (\<lambda>n. n\<lparr>n_children := items[slot := h]\<rparr>) D))
                     else let at = index_of before items
                       in note_edit Inserted d h at (edit_node d (\<lambda>n. n\<lparr>n_children := insert_at at h items\<rparr>) D))
            in Some (bump_version D))"

definition remove_document_element :: "document \<Rightarrow> document" where
  "remove_document_element D =
     (if root D = document_node D then D
      else case find_node D (document_node D) of
          None \<Rightarrow> D
        | Some n \<Rightarrow>
            let d = document_node D; at = index_of (root D) (n_children n);
                D = (if at < length (n_children n) then note_edit Removed d (root D) at D else D);
                D = edit_node d (\<lambda>n. n\<lparr>n_children := without (root D) (n_children n)\<rparr>) D
            in bump_version (D\<lparr>root := d\<rparr>))"

section \<open>Attributes and text\<close>

definition update_pi_data :: "node_id \<Rightarrow> document \<Rightarrow> document" where
  "update_pi_data h D =
     (case find_node D h of
        None \<Rightarrow> D
      | Some n \<Rightarrow>
          if n_kind n \<noteq> Processing_instruction then D
          else note_write h 0 True False False
            (edit_node h (\<lambda>n. n\<lparr>n_text := serialize_pseudo_attributes (atoms D) (n_attributes n)\<rparr>) D))"

text \<open>The first attribute that satisfies \<open>P\<close> gets the value, or a new one comes last.\<close>

definition put_attribute :: "(attribute \<Rightarrow> bool) \<Rightarrow> attribute \<Rightarrow> attribute list \<Rightarrow> attribute list" where
  "put_attribute P a as =
     (case find_index P as of None \<Rightarrow> as @ [a] | Some i \<Rightarrow> as[i := (as ! i)\<lparr>a_value := a_value a\<rparr>])"

definition drop_attribute :: "(attribute \<Rightarrow> bool) \<Rightarrow> attribute list \<Rightarrow> attribute list" where
  "drop_attribute P as = (case find_index P as of None \<Rightarrow> as | Some i \<Rightarrow> take i as @ drop (i + 1) as)"

definition set_attribute :: "node_id \<Rightarrow> nat \<Rightarrow> string \<Rightarrow> document \<Rightarrow> dom_error + document" where
  "set_attribute h name v D =
     (case find_node D h of
        None \<Rightarrow> Inl No_such_node
      | Some n \<Rightarrow>
          if n_kind n \<noteq> Element \<and> n_kind n \<noteq> Processing_instruction then Inl Not_an_element
          else let existed = (\<exists>a \<in> set (n_attributes n). a_name a = name);
                   new = \<lparr>a_name = name, a_ns = 0, a_value = v\<rparr>;
                   D = edit_node h (\<lambda>n. n\<lparr>n_attributes := put_attribute (\<lambda>a. a_name a = name) new (n_attributes n)\<rparr>) D
            in Inr (note_write h name False existed False
                 (bump_version (forget_parser_form h name (update_pi_data h D)))))"

definition set_attribute_ns :: "node_id \<Rightarrow> nat \<Rightarrow> nat \<Rightarrow> string \<Rightarrow> document \<Rightarrow> dom_error + document" where
  "set_attribute_ns h ns name v D =
     (case find_node D h of
        None \<Rightarrow> Inl No_such_node
      | Some n \<Rightarrow>
          if n_kind n \<noteq> Element then Inl Not_an_element
          else let wanted = \<lparr>a_name = name, a_ns = ns, a_value = v\<rparr>;
                   P = (\<lambda>a. attribute_is (atoms D) a (atom_text (atoms D) ns) (attribute_local_name (atoms D) wanted));
                   existed = (\<exists>a \<in> set (n_attributes n). P a);
                   D = edit_node h (\<lambda>n. n\<lparr>n_attributes := put_attribute P wanted (n_attributes n)\<rparr>) D;
                   D = (if atom_text (atoms D) ns = [] then forget_parser_form h name D else D)
            in Inr (note_write h name False existed False (bump_version D)))"

definition set_attribute_held :: "node_id \<Rightarrow> attribute \<Rightarrow> document \<Rightarrow> dom_error + document" where
  "set_attribute_held h held D = set_attribute_ns h (a_ns held) (a_name held) (a_value held) D"

definition remove_attribute :: "node_id \<Rightarrow> nat \<Rightarrow> document \<Rightarrow> dom_error + document" where
  "remove_attribute h name D =
     (case find_node D h of
        None \<Rightarrow> Inl No_such_node
      | Some n \<Rightarrow>
          if \<not> (\<exists>a \<in> set (n_attributes n). a_name a = name) then Inr D
          else let D = edit_node h (\<lambda>n. n\<lparr>n_attributes := drop_attribute (\<lambda>a. a_name a = name) (n_attributes n)\<rparr>) D
            in Inr (note_write h name False True True
                 (bump_version (forget_parser_form h name (update_pi_data h D)))))"

definition remove_attribute_ns :: "node_id \<Rightarrow> string \<Rightarrow> string \<Rightarrow> document \<Rightarrow> dom_error + document" where
  "remove_attribute_ns h ns local D =
     (case find_node D h of
        None \<Rightarrow> Inl No_such_node
      | Some n \<Rightarrow>
          let P = (\<lambda>a. attribute_is (atoms D) a ns local) in
          case find P (n_attributes n) of
            None \<Rightarrow> Inr D
          | Some gone \<Rightarrow>
              let D = edit_node h (\<lambda>n. n\<lparr>n_attributes := drop_attribute P (n_attributes n)\<rparr>) D;
                  D = (if ns = [] then forget_parser_form h (a_name gone) D else D)
              in Inr (note_write h (a_name gone) False True True (bump_version D)))"

text \<open>UTF-16 code units of UTF-8 text.\<close>

function units :: "string \<Rightarrow> nat" where
  "units [] = 0"
| "units (c # cs) =
     (let (cp, n) = decode_utf8 c cs in (if cp \<ge> 0x10000 then 2 else 1) + units (drop (n - 1) cs))"
  by pat_completeness auto
termination
  by (relation "measure length") auto

definition units_length :: "string \<Rightarrow> nat" where
  "units_length v = units v mod 2 ^ 32"

definition set_text :: "node_id \<Rightarrow> string \<Rightarrow> data_edit option \<Rightarrow> document \<Rightarrow> dom_error + document" where
  "set_text h v given D =
     (case find_node D h of
        None \<Rightarrow> Inl No_such_node
      | Some n \<Rightarrow>
          let e = (case given of Some e \<Rightarrow> e
                   | None \<Rightarrow> \<lparr>offset = 0, count = units_length (n_text n), added = units_length v\<rparr>);
              D = edit_node h (\<lambda>n. n\<lparr>n_text := v\<rparr>) D;
              D = (if n_kind n = Processing_instruction then update_pi_attributes h v D else D)
          in Inr (log_note ((blank_note h)\<lparr>w_text := True, w_kind := Data_edit, w_data := e\<rparr>) (bump_version D)))"

section \<open>Shadow roots\<close>

definition ordinary_hosts :: "string list" where
  "ordinary_hosts = [''article'', ''aside'', ''blockquote'', ''body'', ''div'', ''footer'', ''h1'', ''h2'', ''h3'',
     ''h4'', ''h5'', ''h6'', ''header'', ''main'', ''nav'', ''p'', ''section'', ''span'']"

definition reserved_names :: "string list" where
  "reserved_names = [''annotation-xml'', ''color-profile'', ''font-face'', ''font-face-src'', ''font-face-uri'',
     ''font-face-format'', ''font-face-name'', ''missing-glyph'']"

definition valid_shadow_host_name :: "string \<Rightarrow> bool" where
  "valid_shadow_host_name name \<longleftrightarrow>
     name \<in> set ordinary_hosts
     \<or> length name \<ge> 2 \<and> between (CHR ''a'') (hd name) (CHR ''z'') \<and> CHR ''-'' \<in> set name
       \<and> list_all (\<lambda>c. \<not> between (CHR ''A'') c (CHR ''Z'')) name \<and> name \<notin> set reserved_names"

definition attach_shadow :: "node_id \<Rightarrow> shadow_tree \<Rightarrow> document \<Rightarrow> dom_error + document \<times> node_id" where
  "attach_shadow h how D =
     (if \<not> contains D h then Inl No_such_node
      else if kind D h \<noteq> Inr Element \<or> element_ns D h \<noteq> Html \<or> \<not> valid_shadow_host_name (local_name D h)
      then Inl Invalid_shadow_host
      else if handle_bool (shadow_root_of D h) then Inl Shadow_root_exists
      else if depth D h + 1 \<ge> max_dom_depth then Inl Too_deep
      else let (D, r) = create_fragment D
        in Inr (D\<lparr>shadow_roots := (shadow_roots D)(shadow_key h \<mapsto> r),
                  shadow_hosts := (shadow_hosts D)(shadow_key r \<mapsto> how\<lparr>s_host := h\<rparr>)\<rparr>, r))"

section \<open>The parser's builder\<close>

definition builder_append :: "node_id \<Rightarrow> node_id \<Rightarrow> document \<Rightarrow> document" where
  "builder_append p c D =
     (if find_node D p = None \<or> find_node D c = None then D
      else let D = edit_node p (\<lambda>n. n\<lparr>n_children := n_children n @ [c]\<rparr>) D;
               D = edit_node c (\<lambda>n. n\<lparr>n_parent := p\<rparr>) D
        in note_edit Inserted p c (length (children D p) - 1) D)"

definition builder_reparent :: "node_id \<Rightarrow> node_id \<Rightarrow> document \<Rightarrow> document" where
  "builder_reparent c new_parent D =
     (case find_node D c of
        None \<Rightarrow> D
      | Some n \<Rightarrow>
          let q = n_parent n;
              D = (if find_node D q = None then D
                   else edit_node q (\<lambda>p. p\<lparr>n_children := without c (n_children p)\<rparr>)
                     (note_edit Removed q c (index_of c (children D q)) D))
          in builder_append new_parent c D)"

definition builder_insert_before :: "node_id \<Rightarrow> node_id \<Rightarrow> node_id \<Rightarrow> document \<Rightarrow> document" where
  "builder_insert_before p c before D =
     (if find_node D p = None \<or> find_node D c = None then D
      else let at = index_of before (children D p);
               D = edit_node p (\<lambda>n. n\<lparr>n_children := insert_at at c (n_children n)\<rparr>) D;
               D = edit_node c (\<lambda>n. n\<lparr>n_parent := p\<rparr>) D
        in note_edit Inserted p c at D)"

definition xlink_namespace :: string where
  "xlink_namespace = ''http://www.w3.org/1999/xlink''"

definition xml_namespace :: string where
  "xml_namespace = ''http://www.w3.org/XML/1998/namespace''"

definition xmlns_namespace :: string where
  "xmlns_namespace = ''http://www.w3.org/2000/xmlns/''"

text \<open>The namespace that the HTML parser puts an attribute of a foreign element in.\<close>

definition foreign_namespace :: "string \<Rightarrow> string option" where
  "foreign_namespace name =
     (case find_index (\<lambda>c. c = CHR '':'') name of
        None \<Rightarrow> if name = ''xmlns'' then Some xmlns_namespace else None
      | Some colon \<Rightarrow>
          let p = take colon name; local = drop (colon + 1) name in
          if p = ''xlink''
          then if local \<in> {''actuate'', ''arcrole'', ''href'', ''role'', ''show'', ''title'', ''type''}
            then Some xlink_namespace else None
          else if p = ''xml'' then if local = ''lang'' \<or> local = ''space'' then Some xml_namespace else None
          else if p = ''xmlns'' then if local = ''xlink'' then Some xmlns_namespace else None
          else None)"

definition foreign_namespace_of :: "node_ns \<Rightarrow> nat \<Rightarrow> document \<Rightarrow> document \<times> nat" where
  "foreign_namespace_of ns name D =
     (if ns = Html then (D, 0)
      else case foreign_namespace (atom_text (atoms D) name) of
          None \<Rightarrow> (D, 0)
        | Some uri \<Rightarrow> let (t, a) = intern (atoms D) uri in (D\<lparr>atoms := t\<rparr>, a))"

definition builder_set_attribute :: "node_id \<Rightarrow> nat \<Rightarrow> string \<Rightarrow> document \<Rightarrow> document" where
  "builder_set_attribute h name v D =
     (case find_node D h of
        None \<Rightarrow> D
      | Some n \<Rightarrow>
          let (D, uri) = foreign_namespace_of (n_ns n) name D
          in edit_node h (\<lambda>n. n\<lparr>n_attributes := n_attributes n @ [\<lparr>a_name = name, a_ns = uri, a_value = v\<rparr>]\<rparr>) D)"

end
