(* ===== verification/Dom_Tree.thy ===== *)
theory Dom_Tree
  imports Dom_Write
begin

text \<open>
  The tree of a document: what makes it one (\<open>tree_ok\<close>), that every operation on nodes keeps it, what
  the operations that move nodes do to it, and that their walks end.
\<close>

section \<open>Writing through a pointer\<close>

named_theorems dom \<open>what the parts of a write leave alone\<close>

lemma slab_put_lookup:
  assumes "slab_lookup s h = Some v"
  shows "slab_lookup (slab_put h w s) x = (if x = h then Some w else slab_lookup s x)"
proof -
  have h: "handle_bool h" "unat (h_slot h) < length (slots s)" "generation (slots s ! unat (h_slot h)) = h_generation h"
    using assms by (auto simp: slab_lookup_def slab_get_def Let_def split: if_splits option.splits)
  show ?thesis
  proof (cases "h_slot x = h_slot h")
    case True
    have "x = h \<longleftrightarrow> h_generation x = h_generation h" using True by (cases x; cases h) simp
    with True h show ?thesis by (auto simp: slab_lookup_def slab_get_def slab_put_def Let_def split: option.splits)
  next
    case False
    then have "x \<noteq> h" "unat (h_slot x) \<noteq> unat (h_slot h)" by (auto simp: word_unat_eq_iff)
    then show ?thesis by (simp add: slab_lookup_def slab_get_def slab_put_def Let_def)
  qed
qed

lemma slab_put_inv:
  assumes "slab_inv s" "slab_lookup s h = Some v"
  shows "slab_inv (slab_put h w s)"
proof -
  let ?i = "unat (h_slot h)"
  let ?e = "(slots s ! ?i)\<lparr>storage := Some w\<rparr>"
  have i: "?i < length (slots s)" and e: "storage (slots s ! ?i) = Some v"
    using assms(2) by (auto simp: slab_lookup_def slab_get_def Let_def split: if_splits option.splits lookup.splits)
  have live: "is_live (generation (slots s ! ?i))"
    using assms(1) i e by (auto simp: slab_inv_def list_all_length entry_ok_def)
  have slots: "free_slots ((slots s)[?i := ?e]) = free_slots (slots s)" "live_slots ((slots s)[?i := ?e]) = live_slots (slots s)"
    using i live by (simp_all add: free_slots_update live_slots_update) (auto simp: free_slots_def live_slots_def)
  obtain fl where fl: "distinct fl" "set fl = free_slots (slots s)" "chain (slots s) (free_head s) fl"
    using assms(1) by (auto simp: slab_inv_def)
  have "?i \<notin> set fl" using fl(2) live by (simp add: free_slots_def)
  with fl have "chain ((slots s)[?i := ?e]) (free_head s) fl" by (simp add: chain_frame)
  moreover have "list_all entry_ok ((slots s)[?i := ?e])"
    using assms(1) live by (intro list_all_update) (simp_all add: slab_inv_def entry_ok_def)
  ultimately show ?thesis
    using assms(1) fl(1,2) slots by (auto simp: slab_inv_def slab_put_def)
qed

lemma find_edit [dom]:
  "find_node (edit_node h f D) x = (if x = h then map_option f (find_node D h) else find_node D x)"
  by (auto simp: edit_node_def find_node_def slab_put_lookup split: option.split)

lemma edit_inv: "slab_inv (nodes D) \<Longrightarrow> slab_inv (nodes (edit_node h f D))"
  by (auto simp: edit_node_def find_node_def slab_put_inv split: option.split)

lemma edit_fields [dom]:
  "atoms (edit_node h f D) = atoms D" "root (edit_node h f D) = root D"
  "document_node (edit_node h f D) = document_node D" "version (edit_node h f D) = version D"
  "log_on (edit_node h f D) = log_on D" "writes (edit_node h f D) = writes D"
  "template_contents (edit_node h f D) = template_contents D" "parser_forms (edit_node h f D) = parser_forms D"
  "shadow_roots (edit_node h f D) = shadow_roots D" "shadow_hosts (edit_node h f D) = shadow_hosts D"
  by (simp_all add: edit_node_def split: option.split)

lemma log_fields [dom]:
  "nodes (log_note w D) = nodes D" "atoms (log_note w D) = atoms D" "root (log_note w D) = root D"
  "document_node (log_note w D) = document_node D" "version (log_note w D) = version D"
  "log_on (log_note w D) = log_on D" "writes (log_note w D) = writes D @ (if log_on D then [w] else [])"
  "template_contents (log_note w D) = template_contents D" "parser_forms (log_note w D) = parser_forms D"
  "shadow_roots (log_note w D) = shadow_roots D" "shadow_hosts (log_note w D) = shadow_hosts D"
  by (simp_all add: log_note_def)

lemma bump_fields [dom]:
  "nodes (bump_version D) = nodes D" "atoms (bump_version D) = atoms D" "root (bump_version D) = root D"
  "document_node (bump_version D) = document_node D" "version (bump_version D) = version D + 1"
  "log_on (bump_version D) = log_on D" "writes (bump_version D) = writes D"
  "template_contents (bump_version D) = template_contents D" "parser_forms (bump_version D) = parser_forms D"
  "shadow_roots (bump_version D) = shadow_roots D" "shadow_hosts (bump_version D) = shadow_hosts D"
  by (simp_all add: bump_version_def)

text \<open>A lookup reads the nodes alone.\<close>

lemma find_nodes: "nodes D' = nodes D \<Longrightarrow> find_node D' = find_node D"
  by (simp add: find_node_def fun_eq_iff)

lemma find_log [dom]: "find_node (log_note w D) = find_node D"
  by (rule find_nodes) (simp add: dom)

lemma find_note_edit [dom]: "find_node (note_edit k p c i D) = find_node D"
  by (simp add: note_edit_def dom)

lemma find_bump [dom]: "find_node (bump_version D) = find_node D"
  by (rule find_nodes) (simp add: dom)

lemma note_edit_fields [dom]:
  "nodes (note_edit k p c i D) = nodes D" "root (note_edit k p c i D) = root D"
  "document_node (note_edit k p c i D) = document_node D" "parser_forms (note_edit k p c i D) = parser_forms D"
  "log_on (note_edit k p c i D) = log_on D"
  by (simp_all add: note_edit_def dom)

section \<open>What a tree is\<close>

text \<open>The parent in the tree: the document element's is the Document node, though it stores none.\<close>

definition owner :: "document \<Rightarrow> node_id \<Rightarrow> node_id" where
  "owner D h = (if h = root D \<and> h \<noteq> document_node D \<and> contains D h then document_node D else parent D h)"

definition owners :: "document \<Rightarrow> (node_id \<times> node_id) set" where
  "owners D = {(owner D c, c) | c. contains D c \<and> handle_bool (owner D c)}"

definition tree_ok :: "document \<Rightarrow> bool" where
  "tree_ok D \<longleftrightarrow> slab_inv (nodes D)
     \<and> (\<forall>h. handle_bool (parent D h) \<or> parent D h = null_id)
     \<and> contains D (document_node D) \<and> parent D (document_node D) = null_id
     \<and> contains D (root D) \<and> parent D (root D) = null_id
     \<and> (\<forall>h. distinct (children D h))
     \<and> (\<forall>h c. handle_bool h \<longrightarrow> (c \<in> set (children D h) \<longleftrightarrow> contains D c \<and> owner D c = h))
     \<and> acyclic (owners D)"

lemma finite_handles [simp]: "finite (A :: handle set)"
proof -
  have "A \<subseteq> (\<lambda>(a, b). \<lparr>h_slot = a, h_generation = b\<rparr>) ` UNIV"
  proof
    fix h assume "h \<in> A"
    have "h = (\<lambda>(a, b). \<lparr>h_slot = a, h_generation = b\<rparr>) (h_slot h, h_generation h)" by simp
    then show "h \<in> (\<lambda>(a, b). \<lparr>h_slot = a, h_generation = b\<rparr>) ` UNIV" by (rule image_eqI) simp
  qed
  then show ?thesis by (rule finite_subset) simp
qed

lemma wf_owners: "acyclic (owners D) \<Longrightarrow> wf (owners D)"
proof (rule finite_acyclic_wf)
  have "owners D \<subseteq> (\<lambda>c. (owner D c, c)) ` UNIV" by (auto simp: owners_def)
  then show "finite (owners D)" by (rule finite_subset) (rule finite_imageI, simp)
qed

lemma null_not_bool [simp]: "\<not> handle_bool null_id"
  by (simp add: handle_bool_def null_id_def)

lemma contains_bool: "contains D h \<Longrightarrow> handle_bool h"
  by (auto simp: contains_def find_node_def slab_lookup_def slab_get_def split: if_splits)

section \<open>Walks end\<close>

definition parents :: "document \<Rightarrow> (node_id \<times> node_id) set" where
  "parents D = {(parent D c, c) | c. contains D c \<and> handle_bool (parent D c)}"

lemma parents_owners: "tree_ok D \<Longrightarrow> parents D \<subseteq> owners D"
proof
  fix e assume ok: "tree_ok D" and "e \<in> parents D"
  then obtain c where c: "e = (parent D c, c)" "contains D c" "handle_bool (parent D c)" by (auto simp: parents_def)
  with ok have "owner D c = parent D c" by (auto simp: tree_ok_def owner_def)
  with c show "e \<in> owners D" by (auto simp: owners_def)
qed

lemma wf_parents: "tree_ok D \<Longrightarrow> wf (parents D)"
  by (rule wf_subset [OF wf_owners parents_owners]) (simp_all add: tree_ok_def)

lemma owner_contains:
  assumes "tree_ok D" "contains D c" "handle_bool (owner D c)"
  shows "contains D (owner D c)"
proof -
  have "c \<in> set (children D (owner D c))" using assms by (simp add: tree_ok_def)
  then show ?thesis by (cases "find_node D (owner D c)") (simp_all add: children_def contains_def)
qed

lemma parent_contains:
  assumes "tree_ok D" "contains D c" "handle_bool (parent D c)"
  shows "contains D (parent D c)" "c \<in> set (children D (parent D c))" "c \<noteq> root D" "c \<noteq> document_node D"
proof -
  show "c \<noteq> root D" "c \<noteq> document_node D" using assms by (auto simp: tree_ok_def)
  then have "owner D c = parent D c" by (simp add: owner_def)
  with assms owner_contains [OF assms(1,2)] show "contains D (parent D c)" "c \<in> set (children D (parent D c))"
    by (simp_all add: tree_ok_def)
qed

lemma above_step:
  assumes "p \<noteq> c" "contains D p"
  shows "(c, p) \<in> (parents D)\<^sup>* \<longleftrightarrow> handle_bool (parent D p) \<and> (c, parent D p) \<in> (parents D)\<^sup>*"
proof
  assume "(c, p) \<in> (parents D)\<^sup>*"
  then obtain y where "(c, y) \<in> (parents D)\<^sup>*" "(y, p) \<in> parents D" using assms(1) by (auto elim: rtranclE)
  then show "handle_bool (parent D p) \<and> (c, parent D p) \<in> (parents D)\<^sup>*" by (auto simp: parents_def)
next
  assume "handle_bool (parent D p) \<and> (c, parent D p) \<in> (parents D)\<^sup>*"
  moreover have "(parent D p, p) \<in> parents D" if "handle_bool (parent D p)" using that assms(2) by (auto simp: parents_def)
  ultimately show "(c, p) \<in> (parents D)\<^sup>*" by (meson rtrancl.rtrancl_into_rtrancl)
qed

text \<open>The walk up from a node: induction over its ancestors.\<close>

lemma ancestor_induct [consumes 2, case_names step]:
  assumes "tree_ok D" "contains D at"
    and "\<And>at. contains D at \<Longrightarrow> (handle_bool (parent D at) \<Longrightarrow> contains D (parent D at) \<Longrightarrow> P (parent D at)) \<Longrightarrow> P at"
  shows "P at"
  using assms(2)
proof (induction at rule: wf_induct_rule [OF wf_parents [OF assms(1)]])
  case (1 at)
  show ?case
  proof (rule assms(3) [OF 1(2)])
    assume p: "handle_bool (parent D at)" "contains D (parent D at)"
    with 1(2) have "(parent D at, at) \<in> parents D" by (auto simp: parents_def)
    then show "P (parent D at)" using p(2) by (rule 1(1))
  qed
qed

lemma at_or_above_eq:
  assumes "tree_ok D" "contains D c" "contains D p"
  shows "at_or_above D c p = Some ((c, p) \<in> (parents D)\<^sup>*)"
  using assms(1,3)
proof (induction rule: ancestor_induct)
  case (step at)
  then obtain n where n: "find_node D at = Some n" by (auto simp: contains_def)
  show ?case
  proof (cases "at = c")
    case True
    then show ?thesis using contains_bool [OF step(1)] by (subst at_or_above.simps) simp
  next
    case False
    have p: "n_parent n = parent D at" using n by (simp add: parent_def)
    have "at_or_above D c at = at_or_above D c (parent D at)"
      using False contains_bool [OF step(1)] n p by (subst at_or_above.simps) simp
    also have "\<dots> = Some ((c, at) \<in> (parents D)\<^sup>*)"
    proof (cases "handle_bool (parent D at)")
      case True
      with step(2) parent_contains(1) [OF assms(1) step(1)] above_step [OF False step(1)] show ?thesis by simp
    next
      case outside: False
      with above_step [OF False step(1)] show ?thesis by (subst at_or_above.simps) simp
    qed
    finally show ?thesis .
  qed
qed

lemma is_ancestor_of_eq:
  assumes "tree_ok D" "contains D at"
  shows "is_ancestor_of D a at = Some ((a, at) \<in> (parents D)\<^sup>*)"
  using assms
proof (induction rule: ancestor_induct)
  case (step at)
  show ?case
  proof (cases "at = a")
    case True
    then show ?thesis using contains_bool [OF step(1)] by (subst is_ancestor_of.simps) simp
  next
    case False
    have "is_ancestor_of D a at = is_ancestor_of D a (parent D at)"
      using False contains_bool [OF step(1)] by (subst is_ancestor_of.simps) simp
    also have "\<dots> = Some ((a, at) \<in> (parents D)\<^sup>*)"
    proof (cases "handle_bool (parent D at)")
      case True
      with step(2) parent_contains(1) [OF assms(1) step(1)] above_step [OF False step(1)] show ?thesis by simp
    next
      case outside: False
      with above_step [OF False step(1)] show ?thesis by (subst is_ancestor_of.simps) simp
    qed
    finally show ?thesis .
  qed
qed

lemma tree_top_returns:
  assumes "wf (parents D)"
  shows "\<exists>t. tree_top D at = Some t"
  using assms
proof (induction at rule: wf_induct_rule)
  case (less at)
  show ?case
  proof (cases "find_node D at")
    case (Some n)
    have "\<exists>t. tree_top D (n_parent n) = Some t" if "handle_bool (n_parent n)"
    proof (rule less)
      show "(n_parent n, at) \<in> parents D" using that Some by (auto simp: parents_def contains_def parent_def)
    qed
    with Some show ?thesis by (subst tree_top.simps) auto
  qed (subst tree_top.simps, simp)
qed

lemma severed_returns: "wf (parents D) \<Longrightarrow> \<exists>qs. severed D ps = Some qs"
proof (induction ps)
  case (Cons p ps)
  obtain c f where "p = (c, f)" by (cases p)
  with Cons tree_top_returns [OF Cons(2), of c] tree_top_returns [OF Cons(2), of f] show ?case by auto
qed simp

section \<open>What the tree writes do\<close>

text \<open>Everything but the nodes, the log and the form associations.\<close>

definition same_frame :: "document \<Rightarrow> document \<Rightarrow> bool" where
  "same_frame D D' \<longleftrightarrow> root D' = root D \<and> document_node D' = document_node D \<and> atoms D' = atoms D
     \<and> version D' = version D \<and> log_on D' = log_on D \<and> template_contents D' = template_contents D
     \<and> shadow_roots D' = shadow_roots D \<and> shadow_hosts D' = shadow_hosts D"

text \<open>A node moves: it leaves the list that has it, and is put into the list of its new parent.\<close>

definition relocate :: "node_id \<Rightarrow> node_id \<Rightarrow> (node_id list \<Rightarrow> node_id list) \<Rightarrow> node_id \<Rightarrow> node \<Rightarrow> node" where
  "relocate c p place h n =
     n\<lparr>n_children := (if h = p then place (without c (n_children n)) else without c (n_children n)),
       n_parent := (if h = c then p else n_parent n)\<rparr>"

lemma without_id: "c \<notin> set xs \<Longrightarrow> without c xs = xs"
  by (auto simp: without_def filter_id_conv)

lemma set_without [simp]: "set (without c xs) = set xs - {c}"
  by (auto simp: without_def)

lemma distinct_without [simp]: "distinct xs \<Longrightarrow> distinct (without c xs)"
  by (simp add: without_def)

text \<open>What the removal of a child from its parent notes.\<close>

definition removal_notes :: "document \<Rightarrow> node_id \<Rightarrow> write_note list" where
  "removal_notes D c =
     (if log_on D \<and> handle_bool (parent D c) \<and> contains D (parent D c)
      then [(blank_note (parent D c))\<lparr>w_kind := Removed, w_child := c,
              w_index := word_of_nat (index_of c (children D (parent D c)))\<rparr>] else [])"

lemma detach_find:
  assumes wf: "wf (parents D)" and c: "find_node D c = Some n" and inv: "slab_inv (nodes D)"
  obtains D1 where "detach c D = Some D1" "same_frame D D1" "slab_inv (nodes D1)" "writes D1 = writes D @ removal_notes D c"
    and "\<And>h. find_node D1 h = (if handle_bool (n_parent n) \<and> contains D (n_parent n)
           then map_option (\<lambda>m. m\<lparr>n_children := (if h = n_parent n then without c (n_children m) else n_children m),
                  n_parent := (if h = c then null_id else n_parent m)\<rparr>) (find_node D h)
           else find_node D h)"
proof (cases "handle_bool (n_parent n) \<and> contains D (n_parent n)")
  case False
  then have "detach c D = Some D" using c by (simp add: detach_def contains_def)
  moreover have "removal_notes D c = []" using False c by (auto simp: removal_notes_def parent_def)
  ultimately show thesis using that inv False by (simp add: same_frame_def)
next
  case True
  then obtain m where m: "find_node D (n_parent n) = Some m" by (auto simp: contains_def)
  define D1 where "D1 = edit_node c (\<lambda>n. n\<lparr>n_parent := null_id\<rparr>)
    (edit_node (n_parent n) (\<lambda>p. p\<lparr>n_children := without c (n_children p)\<rparr>)
      (note_edit Removed (n_parent n) c (index_of c (n_children m)) D))"
  have find: "find_node D1 h = map_option (\<lambda>m. m\<lparr>n_children := (if h = n_parent n then without c (n_children m) else n_children m),
                  n_parent := (if h = c then null_id else n_parent m)\<rparr>) (find_node D h)" for h
    by (cases "find_node D h") (auto simp: D1_def dom)
  have "parents D1 \<subseteq> parents D"
    by (auto simp: parents_def contains_def parent_def find split: if_splits option.splits)
  then have "wf (parents D1)" by (rule wf_subset [OF wf])
  then obtain qs where qs: "severed D1 (parser_forms D1) = Some qs" using severed_returns by blast
  define D2 where "D2 = (if parser_forms D1 \<noteq> [] then D1\<lparr>parser_forms := qs\<rparr> else D1)"
  have "detach c D = Some D2"
    using True c m qs by (simp add: detach_def D1_def [symmetric] D2_def sever_parser_forms_def Let_def)
  moreover have "same_frame D D2" by (simp add: same_frame_def D2_def D1_def note_edit_def dom)
  moreover have "slab_inv (nodes D2)" using inv by (simp add: D2_def D1_def edit_inv dom)
  moreover have "writes D2 = writes D @ removal_notes D c"
  proof -
    have "parent D c = n_parent n" "children D (n_parent n) = n_children m" using c m by (simp_all add: parent_def children_def)
    then have "removal_notes D c = (if log_on D then [(blank_note (n_parent n))\<lparr>w_kind := Removed, w_child := c,
        w_index := word_of_nat (index_of c (n_children m))\<rparr>] else [])"
      using True by (simp add: removal_notes_def)
    then show ?thesis by (simp add: D2_def D1_def note_edit_def dom)
  qed
  moreover have "find_node D2 h = (if handle_bool (n_parent n) \<and> contains D (n_parent n)
           then map_option (\<lambda>m. m\<lparr>n_children := (if h = n_parent n then without c (n_children m) else n_children m),
                  n_parent := (if h = c then null_id else n_parent m)\<rparr>) (find_node D h)
           else find_node D h)" for h
  proof -
    have "nodes D2 = nodes D1" by (simp add: D2_def)
    then have same: "find_node D2 h = find_node D1 h" by (simp add: find_node_def)
    show ?thesis unfolding if_P [OF True] same by (rule find)
  qed
  ultimately show thesis by (rule that)
qed

lemma relocated:
  assumes "\<And>h. find_node D' h = map_option (relocate c p place h) (find_node D h)"
  shows "contains D' h \<longleftrightarrow> contains D h" "contains D c \<Longrightarrow> parent D' h = (if h = c then p else parent D h)"
    and "contains D h \<Longrightarrow> children D' h = (if h = p then place (without c (children D h)) else without c (children D h))"
    and "\<not> contains D h \<Longrightarrow> children D' h = []"
  using assms by (auto simp: contains_def parent_def children_def relocate_def split: option.splits)

lemma owners_parents:
  assumes ok: "tree_ok D" and c: "contains D c" "c \<noteq> document_node D" and path: "(c, x) \<in> (owners D)\<^sup>*"
  shows "(c, x) \<in> (parents D)\<^sup>*"
  using path
proof (induction rule: rtrancl_induct)
  case (step y z)
  then have z: "y = owner D z" "contains D z" "handle_bool y" by (auto simp: owners_def)
  show ?case
  proof (cases "z = root D \<and> z \<noteq> document_node D")
    case True
    then have "y = document_node D" using z(1,2) unfolding owner_def by auto
    moreover have "\<not> handle_bool (parent D (document_node D))" using ok by (simp add: tree_ok_def)
    ultimately show ?thesis using step(3) c(2) by (auto elim!: rtranclE simp: parents_def)
  next
    case False
    then have "parent D z = y" using z(1) by (auto simp: owner_def)
    with z have "(y, z) \<in> parents D" by (auto simp: parents_def)
    with step(3) show ?thesis by (rule rtrancl.rtrancl_into_rtrancl)
  qed
qed simp

lemma tree_ok_relocate:
  assumes ok: "tree_ok D" and c: "contains D c" "c \<noteq> root D" "c \<noteq> document_node D"
    and p: "p = null_id \<or> contains D p \<and> (c, p) \<notin> (parents D)\<^sup>*"
    and place: "\<And>xs. distinct xs \<Longrightarrow> c \<notin> set xs \<Longrightarrow> distinct (place xs) \<and> set (place xs) = insert c (set xs)"
    and find: "\<And>h. find_node D' h = map_option (relocate c p place h) (find_node D h)"
    and frame: "root D' = root D" "document_node D' = document_node D" "slab_inv (nodes D')"
  shows "tree_ok D'"
proof -
  note r = relocated [OF find]
  have par: "parent D' h = (if h = c then p else parent D h)" for h using r(2) c(1) by blast
  have own: "owner D' h = (if h = c then p else owner D h)" for h
    using c(2) unfolding owner_def by (auto simp: par frame r(1))
  have live: "children D h = []" if "\<not> contains D h" for h using that by (simp add: children_def contains_def)
  have list: "children D' h = (if h = p \<and> contains D h then place (without c (children D h)) else without c (children D h))" for h
    using r(3,4) [of h] live [of h] by (cases "contains D h") (auto simp: without_def)
  have dist: "distinct (without c (children D h))" for h using ok by (simp add: tree_ok_def)
  have pl: "distinct (place (without c (children D h)))" "set (place (without c (children D h))) = insert c (set (children D h))" for h
    using place [OF dist] by auto
  have mem: "x \<in> set (children D' h) \<longleftrightarrow> contains D' x \<and> owner D' x = h" if h: "handle_bool h" for h x
  proof -
    have "x \<in> set (children D h) \<longleftrightarrow> contains D x \<and> owner D x = h" using ok h by (simp add: tree_ok_def)
    moreover have "contains D p" if "h = p" using p h that by auto
    ultimately show ?thesis using c(1) by (auto simp: list own r(1) pl(2))
  qed
  have "acyclic (owners D')"
  proof -
    have sub: "owners D' \<subseteq> (if handle_bool p then insert (p, c) (owners D) else owners D)"
      by (auto simp: owners_def own r(1))
    have "acyclic (if handle_bool p then insert (p, c) (owners D) else owners D)"
    proof (cases "handle_bool p")
      case True
      then have "(c, p) \<notin> (owners D)\<^sup>*" using p owners_parents [OF ok c(1,3)] by auto
      with True ok show ?thesis by (simp add: acyclic_insert tree_ok_def)
    qed (use ok in \<open>simp add: tree_ok_def\<close>)
    then show ?thesis using sub by (rule acyclic_subset)
  qed
  moreover have "distinct (children D' h)" for h using dist pl(1) by (simp add: list)
  moreover have "handle_bool p \<or> p = null_id" using p contains_bool by blast
  ultimately show ?thesis
    using ok c mem unfolding tree_ok_def by (auto simp: frame r(1) par)
qed

text \<open>A node that is not the document element leaves the list it is in.\<close>

lemma detach_relocates:
  assumes ok: "tree_ok D" and c: "contains D c" "c \<noteq> root D" "c \<noteq> document_node D"
  obtains D1 where "detach c D = Some D1" "same_frame D D1" "slab_inv (nodes D1)" "writes D1 = writes D @ removal_notes D c"
    and "\<And>h. find_node D1 h = map_option (relocate c null_id id h) (find_node D h)"
proof -
  obtain n where n: "find_node D c = Some n" using c(1) by (auto simp: contains_def)
  have "slab_inv (nodes D)" using ok by (simp add: tree_ok_def)
  from detach_find [OF wf_parents [OF ok] n this] obtain D1 where D1: "detach c D = Some D1" "same_frame D D1"
    "slab_inv (nodes D1)" "writes D1 = writes D @ removal_notes D c"
    and find: "\<And>h. find_node D1 h = (if handle_bool (n_parent n) \<and> contains D (n_parent n)
           then map_option (\<lambda>m. m\<lparr>n_children := (if h = n_parent n then without c (n_children m) else n_children m),
                  n_parent := (if h = c then null_id else n_parent m)\<rparr>) (find_node D h)
           else find_node D h)" by blast
  have p: "parent D c = n_parent n" using n by (simp add: parent_def)
  then have own: "owner D c = n_parent n" using c by (simp add: owner_def)
  have others: "without c (n_children m) = n_children m" if "find_node D h = Some m" "h \<noteq> n_parent n" for h m
  proof (rule without_id)
    have "contains D h" using that(1) by (simp add: contains_def)
    then have "handle_bool h" by (rule contains_bool)
    then have "c \<in> set (children D h) \<longleftrightarrow> contains D c \<and> owner D c = h" using ok by (simp add: tree_ok_def)
    with own that show "c \<notin> set (n_children m)" by (auto simp: children_def)
  qed
  have "find_node D1 h = map_option (relocate c null_id id h) (find_node D h)" for h
  proof (cases "find_node D h")
    case (Some m)
    show ?thesis
    proof (cases "handle_bool (n_parent n)")
      case True
      with parent_contains(1) [OF ok c(1)] p have "contains D (n_parent n)" by simp
      with True Some find [of h] others [OF Some] show ?thesis by (simp add: relocate_def)
    next
      case False
      then have "n_parent n = null_id" using ok p by (metis tree_ok_def)
      moreover have "h \<noteq> n_parent n" using False contains_bool [of D h] Some by (auto simp: contains_def)
      moreover have "h = c \<Longrightarrow> m = n" using Some n by simp
      ultimately show ?thesis using False find [of h] Some others [OF Some] by (auto simp: relocate_def)
    qed
  qed (use find [of h] in simp)
  with D1 that show thesis by blast
qed

section \<open>The operations\<close>

definition insertion_notes :: "document \<Rightarrow> node_id \<Rightarrow> node_id \<Rightarrow> nat \<Rightarrow> write_note list" where
  "insertion_notes D p c i =
     (if log_on D then [(blank_note p)\<lparr>w_kind := Inserted, w_child := c, w_index := word_of_nat i\<rparr>] else [])"

text \<open>A node has moved under \<open>p\<close>, into its list by \<open>place\<close>: nothing else of the tree has changed, the version
  is the next one, and the log has the removal and the insertion.\<close>

definition moved :: "document \<Rightarrow> node_id \<Rightarrow> node_id \<Rightarrow> (node_id list \<Rightarrow> node_id list) \<Rightarrow> write_note list \<Rightarrow> document \<Rightarrow> bool" where
  "moved D c p place notes D' \<longleftrightarrow>
     (\<forall>h. find_node D' h = map_option (relocate c p place h) (find_node D h))
     \<and> root D' = root D \<and> document_node D' = document_node D \<and> atoms D' = atoms D
     \<and> version D' = version D + 1 \<and> writes D' = writes D @ notes \<and> log_on D' = log_on D
     \<and> template_contents D' = template_contents D \<and> shadow_roots D' = shadow_roots D
     \<and> shadow_hosts D' = shadow_hosts D \<and> slab_inv (nodes D')"

lemma insert_at_place:
  "distinct xs \<Longrightarrow> c \<notin> set xs \<Longrightarrow> distinct (insert_at i c xs) \<and> set (insert_at i c xs) = insert c (set xs)"
proof -
  assume a: "distinct xs" "c \<notin> set xs"
  have "set (take i xs) \<union> set (drop i xs) = set xs" by (metis append_take_drop_id set_append)
  with a show ?thesis
    using set_take_subset [of i xs] set_drop_subset [of i xs] set_take_disj_set_drop_if_distinct [of xs i i]
    by (auto simp: insert_at_def)
qed

lemma insert_at_end: "xs @ [c] = insert_at (length xs) c xs"
  by (simp add: insert_at_def)

text \<open>The second half of both insertions.\<close>

lemma inserted:
  assumes d: "same_frame D D1" "slab_inv (nodes D1)" "writes D1 = writes D @ removal_notes D c"
    and find: "\<And>h. find_node D1 h = map_option (relocate c null_id id h) (find_node D h)"
    and live: "contains D p" "contains D c"
  shows "moved D c p (insert_at i c) (removal_notes D c @ insertion_notes D p c i)
    (bump_version (note_edit Inserted p c i (edit_node c (\<lambda>n. n\<lparr>n_parent := p\<rparr>)
      (edit_node p (\<lambda>n. n\<lparr>n_children := insert_at i c (n_children n)\<rparr>) D1))))"
proof -
  have "p \<noteq> null_id" "c \<noteq> null_id" using live contains_bool by fastforce+
  then have "find_node (edit_node c (\<lambda>n. n\<lparr>n_parent := p\<rparr>)
      (edit_node p (\<lambda>n. n\<lparr>n_children := insert_at i c (n_children n)\<rparr>) D1)) h
    = map_option (relocate c p (insert_at i c) h) (find_node D h)" for h
    using live by (cases "find_node D h") (auto simp: dom find relocate_def contains_def)
  then show ?thesis
    using d by (simp add: moved_def dom same_frame_def note_edit_def insertion_notes_def edit_inv)
qed

lemma append_child_moves:
  assumes ok: "tree_ok D" and live: "contains D p" "contains D c" and c: "c \<noteq> root D" "c \<noteq> document_node D"
    and "(c, p) \<notin> (parents D)\<^sup>*" "\<not> too_deep D p c"
  obtains D' where "append_child p c D = Some (Inr D')"
    and "let i = length (without c (children D p)) in
      moved D c p (insert_at i c) (removal_notes D c @ insertion_notes D p c i) D'"
proof -
  from detach_relocates [OF ok live(2) c] obtain D1 where D1: "detach c D = Some D1" "same_frame D D1"
    "slab_inv (nodes D1)" "writes D1 = writes D @ removal_notes D c"
    and find: "\<And>h. find_node D1 h = map_option (relocate c null_id id h) (find_node D h)" by blast
  define i where "i = length (without c (children D p))"
  obtain n where n: "find_node D p = Some n" using live(1) by (auto simp: contains_def)
  have p: "p \<noteq> null_id" using live(1) contains_bool by fastforce
  have find1: "find_node D1 p = Some (relocate c null_id id p n)" using find [of p] n by simp
  have kids: "n_children (relocate c null_id id p n) = without c (children D p)"
    using p n by (simp add: relocate_def children_def)
  let ?D = "edit_node c (\<lambda>n. n\<lparr>n_parent := p\<rparr>) (edit_node p (\<lambda>n. n\<lparr>n_children := n_children n @ [c]\<rparr>) D1)"
  have eq: "edit_node p (\<lambda>n. n\<lparr>n_children := n_children n @ [c]\<rparr>) D1
    = edit_node p (\<lambda>n. n\<lparr>n_children := insert_at i c (n_children n)\<rparr>) D1"
    using find1 kids by (simp add: edit_node_def i_def insert_at_end)
  have "length (children ?D p) - 1 = i"
    using find1 kids by (simp add: children_def dom i_def) (auto simp: children_def dom)
  then have "append_child p c D = Some (Inr (bump_version (note_edit Inserted p c i (edit_node c (\<lambda>n. n\<lparr>n_parent := p\<rparr>)
      (edit_node p (\<lambda>n. n\<lparr>n_children := insert_at i c (n_children n)\<rparr>) D1)))))"
    using assms at_or_above_eq [OF ok live(2,1)] D1(1) by (simp add: append_child_def contains_def Let_def eq)
  with that inserted [OF D1(2-4) find live, of i] show thesis by (simp add: i_def)
qed

text \<open>Where \<^verbatim>\<open>insert_before\<close> puts a node: at the reference, or at the end when there is no such child.\<close>

definition insert_index :: "document \<Rightarrow> node_id \<Rightarrow> node_id \<Rightarrow> node_id \<Rightarrow> nat" where
  "insert_index D p c before =
     index_of (if before = c then next_of c (children D p) else before) (without c (children D p))"

lemma insert_before_moves:
  assumes ok: "tree_ok D" and live: "contains D p" "contains D c" and c: "c \<noteq> root D" "c \<noteq> document_node D"
    and "(c, p) \<notin> (parents D)\<^sup>*" "\<not> too_deep D p c"
  obtains D' where "insert_before p c before D = Some (Inr D')"
    and "let i = insert_index D p c before in
      moved D c p (insert_at i c) (removal_notes D c @ insertion_notes D p c i) D'"
proof -
  from detach_relocates [OF ok live(2) c] obtain D1 where D1: "detach c D = Some D1" "same_frame D D1"
    "slab_inv (nodes D1)" "writes D1 = writes D @ removal_notes D c"
    and find: "\<And>h. find_node D1 h = map_option (relocate c null_id id h) (find_node D h)" by blast
  define i where "i = insert_index D p c before"
  have "p \<noteq> null_id" using live(1) contains_bool by fastforce
  then have "children D1 p = without c (children D p)"
    using live(1) by (auto simp: children_def find contains_def relocate_def)
  then have "insert_before p c before D = Some (Inr (bump_version (note_edit Inserted p c i (edit_node c (\<lambda>n. n\<lparr>n_parent := p\<rparr>)
      (edit_node p (\<lambda>n. n\<lparr>n_children := insert_at i c (n_children n)\<rparr>) D1)))))"
    using assms at_or_above_eq [OF ok live(2,1)] D1(1)
    by (simp add: insert_before_def contains_def Let_def i_def insert_index_def)
  with that inserted [OF D1(2-4) find live, of i] show thesis by (simp add: i_def)
qed

lemma remove_child_moves:
  assumes ok: "tree_ok D" and live: "contains D c" and c: "c \<noteq> root D" "c \<noteq> document_node D"
  obtains D' where "remove_child c D = Some (Inr D')" "moved D c null_id id (removal_notes D c) D'"
proof -
  from detach_relocates [OF ok live c] obtain D1 where D1: "detach c D = Some D1" "same_frame D D1"
    "slab_inv (nodes D1)" "writes D1 = writes D @ removal_notes D c"
    and find: "\<And>h. find_node D1 h = map_option (relocate c null_id id h) (find_node D h)" by blast
  have "remove_child c D = Some (Inr (bump_version D1))" using live c D1(1) by (simp add: remove_child_def contains_def)
  moreover have "moved D c null_id id (removal_notes D c) (bump_version D1)"
    using D1 find by (simp add: moved_def dom same_frame_def)
  ultimately show thesis using that by blast
qed

lemma moved_ok:
  assumes "tree_ok D" "contains D c" "c \<noteq> root D" "c \<noteq> document_node D" "moved D c p place notes D'"
    and "p = null_id \<or> contains D p \<and> (c, p) \<notin> (parents D)\<^sup>*"
    and "place = insert_at i c \<or> p = null_id \<and> place = id"
  shows "tree_ok D'"
proof -
  have frame: "root D' = root D" "document_node D' = document_node D" "slab_inv (nodes D')"
    using assms(5) by (simp_all add: moved_def)
  have "\<exists>i. \<forall>h. find_node D' h = map_option (relocate c p (insert_at i c) h) (find_node D h)"
  proof (cases "place = insert_at i c")
    case True
    with assms(5) show ?thesis by (auto simp: moved_def)
  next
    case False
    then have p: "p = null_id" "place = id" using assms(7) by auto
    have none: "find_node D null_id = None" using contains_bool [of D null_id] by (cases "find_node D null_id") (simp_all add: contains_def)
    have "find_node D' h = map_option (relocate c p (insert_at 0 c) h) (find_node D h)" for h
      using assms(5) none p by (cases "h = null_id"; cases "find_node D h") (simp_all add: moved_def relocate_def)
    then show ?thesis by blast
  qed
  then obtain j where j: "\<And>h. find_node D' h = map_option (relocate c p (insert_at j c) h) (find_node D h)" by blast
  show ?thesis by (rule tree_ok_relocate [OF assms(1-4,6) insert_at_place j frame])
qed



section \<open>The document element\<close>

lemma index_of_less: "index_of x xs < length xs \<longleftrightarrow> x \<in> set xs"
  by (induction xs) (auto simp: index_of_def)

lemma nth_index_of: "x \<in> set xs \<Longrightarrow> xs ! index_of x xs = x"
  using nth_length_takeWhile [of "\<lambda>y. y \<noteq> x" xs] index_of_less [of x xs] by (auto simp: index_of_def)

lemma replace_at_index:
  assumes "distinct xs" "x \<in> set xs" "y \<notin> set xs"
  shows "distinct (xs[index_of x xs := y])" "set (xs[index_of x xs := y]) = insert y (set xs - {x})"
  using assms index_of_less [of x xs] nth_index_of [of x xs]
  by (simp_all add: distinct_list_update set_update_distinct)

text \<open>The document element is exchanged: it leaves its list, and the Document node gets \<open>items\<close>.\<close>

lemma set_document_element_find:
  assumes ok: "tree_ok D" and h: "contains D h" "h \<noteq> document_node D" "h \<noteq> root D"
  obtains D' items where "set_document_element h before D = Some D'"
    and "\<And>x. find_node D' x = map_option (\<lambda>m. m\<lparr>n_children := (if x = document_node D then items else without h (n_children m)),
           n_parent := (if x = h then null_id else n_parent m)\<rparr>) (find_node D x)"
    and "root D' = h" "document_node D' = document_node D" "slab_inv (nodes D')"
    and "distinct items" "set items = insert h (set (children D (document_node D)) - {root D})"
proof -
  let ?d = "document_node D"
  let ?D0 = "D\<lparr>root := h\<rparr>"
  obtain n where n: "find_node D h = Some n" using h(1) by (auto simp: contains_def)
  have same: "find_node ?D0 = find_node D" by (rule find_nodes) simp
  then have "parents ?D0 = parents D" by (simp add: parents_def contains_def parent_def)
  then have wf: "wf (parents ?D0)" using wf_parents [OF ok] by simp
  have inv: "slab_inv (nodes ?D0)" using ok by (simp add: tree_ok_def)
  have n0: "find_node ?D0 h = Some n" using n same by simp
  obtain D1 where D1: "detach h ?D0 = Some D1" "same_frame ?D0 D1" "slab_inv (nodes D1)"
    and find1: "\<And>x. find_node D1 x = (if handle_bool (n_parent n) \<and> contains ?D0 (n_parent n)
           then map_option (\<lambda>m. m\<lparr>n_children := (if x = n_parent n then without h (n_children m) else n_children m),
                  n_parent := (if x = h then null_id else n_parent m)\<rparr>) (find_node ?D0 x)
           else find_node ?D0 x)"
    by (rule detach_find [OF wf n0 inv]) blast
  have p: "parent D h = n_parent n" using n by (simp add: parent_def)
  have own: "owner D h = n_parent n" using h(3) p by (simp add: owner_def)
  have others: "without h (n_children m) = n_children m" if "find_node D x = Some m" "x \<noteq> n_parent n" for x m
  proof (rule without_id)
    have "contains D x" using that(1) by (simp add: contains_def)
    then have "handle_bool x" by (rule contains_bool)
    then have "h \<in> set (children D x) \<longleftrightarrow> contains D h \<and> owner D h = x" using ok by (simp add: tree_ok_def)
    with own that show "h \<notin> set (n_children m)" by (auto simp: children_def)
  qed
  have find: "find_node D1 x = map_option (\<lambda>m. m\<lparr>n_children := without h (n_children m),
      n_parent := (if x = h then null_id else n_parent m)\<rparr>) (find_node D x)" for x
  proof (cases "find_node D x")
    case (Some m)
    show ?thesis
    proof (cases "handle_bool (n_parent n)")
      case True
      with parent_contains(1) [OF ok h(1)] p have "contains ?D0 (n_parent n)" by (simp add: contains_def same)
      with True Some find1 [of x] others [OF Some] show ?thesis by (simp add: same)
    next
      case False
      then have "n_parent n = null_id" using ok p by (metis tree_ok_def)
      moreover have "x \<noteq> n_parent n" using False contains_bool [of D x] Some by (auto simp: contains_def)
      moreover have "x = h \<Longrightarrow> m = n" using Some n by simp
      ultimately show ?thesis using False find1 [of x] Some others [OF Some] by (auto simp: same)
    qed
  qed (use find1 [of x] in \<open>simp add: same\<close>)
  obtain k where k: "find_node D ?d = Some k" using ok by (auto simp: tree_ok_def contains_def)
  have kids: "children D ?d = n_children k" using k by (simp add: children_def)
  have kids1: "children D1 ?d = without h (n_children k)" using k find [of ?d] by (simp add: children_def)
  define items where "items = without h (n_children k)"
  have items: "distinct items" "h \<notin> set items" by (simp_all add: items_def) (metis distinct_without kids ok tree_ok_def)
  have frame1: "document_node D1 = ?d" "root D1 = h" using D1(2) by (simp_all add: same_frame_def)
  have start: "find_node ?D0 ?d = Some k" "find_node ?D0 h = Some n" using k n same by simp_all
  have twice: "without h (without h xs) = without h xs" for xs by (rule without_id) simp
  define slot at where "slot = index_of (root D) items" and "at = index_of before items"
  define new where "new = (if slot < length items then items[slot := h] else insert_at at h items)"
  define D2 where "D2 = bump_version (if slot < length items
      then note_edit Inserted ?d h slot (note_edit Removed ?d (root D) slot (edit_node ?d (\<lambda>n. n\<lparr>n_children := items[slot := h]\<rparr>) D1))
      else note_edit Inserted ?d h at (edit_node ?d (\<lambda>n. n\<lparr>n_children := insert_at at h items\<rparr>) D1))"
  have "set_document_element h before D = Some D2"
    using h start D1(1) kids1 frame1
    by (simp add: set_document_element_def Let_def D2_def slot_def at_def items_def twice)
  moreover have "find_node D2 x = map_option (\<lambda>m. m\<lparr>n_children := (if x = document_node D then new else without h (n_children m)),
           n_parent := (if x = h then null_id else n_parent m)\<rparr>) (find_node D x)" for x
    by (cases "find_node D x") (auto simp: D2_def new_def dom find)
  moreover have "root D2 = h" "document_node D2 = ?d" "slab_inv (nodes D2)"
    using frame1 D1(3) by (simp_all add: D2_def dom edit_inv)
  moreover have set_items: "set items = set (children D ?d) - {h}" by (simp add: items_def kids)
  have "distinct new \<and> set new = insert h (set (children D ?d) - {root D})"
  proof (cases "slot < length items")
    case True
    then have "root D \<in> set items" by (simp add: slot_def index_of_less)
    note r = replace_at_index [OF items(1) this items(2)]
    have "new = items[index_of (root D) items := h]" using True by (simp add: new_def slot_def)
    then show ?thesis using r set_items by (simp only:) blast
  next
    case False
    then have "root D \<notin> set items" by (simp add: slot_def index_of_less)
    moreover have "new = insert_at at h items" using False by (simp add: new_def)
    ultimately show ?thesis using insert_at_place [OF items, of at] h(3) set_items by (simp only:) blast
  qed
  ultimately show thesis using that by blast
qed

lemma document_no_owner:
  "tree_ok D \<Longrightarrow> \<not> handle_bool (parent D (document_node D))" "tree_ok D \<Longrightarrow> \<not> handle_bool (parent D (root D))"
  by (simp_all add: tree_ok_def)

lemma owner_not_root: "tree_ok D \<Longrightarrow> x \<noteq> root D \<Longrightarrow> owner D x = parent D x"
  by (simp add: owner_def)

lemma no_path_to_document: "tree_ok D \<Longrightarrow> (h, document_node D) \<in> (parents D)\<^sup>* \<Longrightarrow> h = document_node D"
proof -
  assume ok: "tree_ok D" and path: "(h, document_node D) \<in> (parents D)\<^sup>*"
  have "(y, document_node D) \<notin> parents D" for y using document_no_owner(1) [OF ok] by (auto simp: parents_def)
  with path show "h = document_node D" by (blast elim: rtranclE)
qed

lemma set_document_element_ok:
  assumes ok: "tree_ok D" and h: "contains D h" "h \<noteq> document_node D"
  obtains D' where "set_document_element h before D = Some D'" "tree_ok D'" "root D' = h"
    "document_node D' = document_node D" "\<And>x. contains D' x \<longleftrightarrow> contains D x"
proof (cases "h = root D")
  case True
  then have "set_document_element h before D = Some D" by (simp add: set_document_element_def Let_def)
  with that ok True show thesis by blast
next
  case False
  let ?d = "document_node D"
  obtain D' items where D': "set_document_element h before D = Some D'"
    and find: "\<And>x. find_node D' x = map_option (\<lambda>m. m\<lparr>n_children := (if x = ?d then items else without h (n_children m)),
           n_parent := (if x = h then null_id else n_parent m)\<rparr>) (find_node D x)"
    and frame: "root D' = h" "document_node D' = ?d" "slab_inv (nodes D')"
    and items: "distinct items" "set items = insert h (set (children D ?d) - {root D})"
    by (rule set_document_element_find [OF ok h False, of before]) blast
  have live: "contains D' x \<longleftrightarrow> contains D x" for x by (simp add: contains_def find)
  have par: "parent D' x = (if x = h then null_id else parent D x)" for x
    by (simp add: parent_def find split: option.split)
  have own: "owner D' x = (if x = h then ?d else parent D x)" for x
    using h unfolding owner_def by (auto simp: frame live par)
  have dead: "children D x = []" if "\<not> contains D x" for x using that by (simp add: children_def contains_def)
  have d: "contains D ?d" using ok by (simp add: tree_ok_def)
  have kids: "children D' x = (if x = ?d then items else without h (children D x))" for x
    using d by (cases "find_node D x") (auto simp: children_def find contains_def without_def)
  have mem: "x \<in> set (children D' y) \<longleftrightarrow> contains D' x \<and> owner D' x = y" if y: "handle_bool y" for x y
  proof -
    have old: "x \<in> set (children D y) \<longleftrightarrow> contains D x \<and> owner D x = y" using ok y by (simp add: tree_ok_def)
    have r: "parent D (root D) \<noteq> y" using document_no_owner(2) [OF ok] y by auto
    have ro: "owner D (root D) = (if root D = ?d then parent D ?d else ?d)" using ok by (auto simp: owner_def tree_ok_def)
    show ?thesis
      using old r ro owner_not_root [OF ok, of x] h(1) by (cases "x = root D") (auto simp: kids items(2) own live)
  qed
  have "acyclic (owners D')"
  proof -
    have "acyclic (parents D)" using wf_parents [OF ok] by (rule wf_acyclic)
    moreover have "(h, ?d) \<notin> (parents D)\<^sup>*" using no_path_to_document [OF ok] h(2) by blast
    ultimately have "acyclic (insert (?d, h) (parents D))" by (simp add: acyclic_insert)
    moreover have "owners D' \<subseteq> insert (?d, h) (parents D)" by (auto simp: owners_def parents_def own live)
    ultimately show ?thesis by (rule acyclic_subset)
  qed
  moreover have "distinct (children D' x)" for x using ok items(1) by (simp add: kids tree_ok_def)
  ultimately have "tree_ok D'"
    using ok h(1) mem unfolding tree_ok_def by (auto simp: frame live par)
  with that D' frame live show thesis by blast
qed

lemma remove_document_element_ok:
  assumes ok: "tree_ok D"
  shows "tree_ok (remove_document_element D)" "contains (remove_document_element D) x \<longleftrightarrow> contains D x"
    "document_node (remove_document_element D) = document_node D"
proof -
  let ?d = "document_node D"
  let ?D = "remove_document_element D"
  obtain k where k: "find_node D ?d = Some k" using ok by (auto simp: tree_ok_def contains_def)
  have "tree_ok ?D \<and> (\<forall>x. contains ?D x \<longleftrightarrow> contains D x) \<and> document_node ?D = ?d"
  proof (cases "root D = ?d")
    case True
    with ok show ?thesis by (simp add: remove_document_element_def)
  next
    case False
    have find: "find_node ?D x = map_option (\<lambda>m. if x = ?d then m\<lparr>n_children := without (root D) (n_children m)\<rparr> else m) (find_node D x)" for x
    proof -
      have upd: "find_node (E\<lparr>root := r\<rparr>) = find_node E" for E r by (rule find_nodes) simp
      show ?thesis using False k
        by (cases "find_node D x") (auto simp: remove_document_element_def Let_def dom upd)
    qed
    have frame: "root ?D = ?d" "document_node ?D = ?d" "slab_inv (nodes ?D)"
      using False k ok by (auto simp: remove_document_element_def Let_def dom edit_inv tree_ok_def)
    have live: "contains ?D x \<longleftrightarrow> contains D x" for x by (simp add: contains_def find)
    have par: "parent ?D x = parent D x" for x by (simp add: parent_def find split: option.split)
    have own: "owner ?D x = parent D x" for x unfolding owner_def frame par by auto
    have kids: "children ?D x = (if x = ?d then without (root D) (children D x) else children D x)" for x
      by (cases "find_node D x") (auto simp: children_def find without_def)
    have mem: "x \<in> set (children ?D y) \<longleftrightarrow> contains ?D x \<and> owner ?D x = y" if y: "handle_bool y" for x y
    proof -
      have old: "x \<in> set (children D y) \<longleftrightarrow> contains D x \<and> owner D x = y" using ok y by (simp add: tree_ok_def)
      have r: "parent D (root D) \<noteq> y" using document_no_owner(2) [OF ok] y by auto
      have ro: "owner D (root D) = ?d" using ok False by (auto simp: owner_def tree_ok_def)
      show ?thesis
        using old r ro owner_not_root [OF ok, of x] by (cases "x = root D") (auto simp: kids own live)
    qed
    have "owners ?D \<subseteq> parents D" by (auto simp: owners_def parents_def own live)
    then have "acyclic (owners ?D)" by (rule acyclic_subset [OF wf_acyclic [OF wf_parents [OF ok]]])
    moreover have "distinct (children ?D x)" for x using ok by (simp add: kids tree_ok_def)
    ultimately have "tree_ok ?D" using ok mem unfolding tree_ok_def by (auto simp: frame live par)
    with live frame show ?thesis by blast
  qed
  then show "tree_ok ?D" "contains ?D x \<longleftrightarrow> contains D x" "document_node ?D = ?d" by simp_all
qed

section \<open>Creation, attributes and text\<close>

lemma slab_lookup_issued: "slab_inv s \<Longrightarrow> slab_lookup s h = Some v \<Longrightarrow> handle_issued h"
  using slab_inv_entry [of s "unat (h_slot h)"]
  by (auto simp: slab_lookup_def slab_get_def Let_def handle_issued_def split: if_splits option.splits)

lemma create_find:
  assumes "slab_inv (nodes D)" "slab_room (nodes D)"
  shows "find_node (fst (create n D)) x = (if x = snd (create n D) then Some n else find_node D x)"
    and "find_node D (snd (create n D)) = None" "slab_inv (nodes (fst (create n D)))"
    and "handle_bool (snd (create n D))"
proof -
  have c: "nodes (fst (create n D)) = fst (slab_ins n (nodes D))" "snd (create n D) = snd (slab_ins n (nodes D))"
    by (simp_all add: create_def split_beta)
  note issued = slab_store.ins_issued [OF assms, of n]
  show "find_node D (snd (create n D)) = None"
    using slab_store.ins_fresh [OF assms, of n] by (simp add: find_node_def c)
  show inv: "slab_inv (nodes (fst (create n D)))" using slab_store.ins_inv [OF assms] by (simp add: c)
  show "handle_bool (snd (create n D))"
    using issued by (auto simp: c handle_issued_def handle_bool_def is_live_def)
  show "find_node (fst (create n D)) x = (if x = snd (create n D) then Some n else find_node D x)"
  proof (cases "handle_issued x")
    case True
    with slab_store.ins_lookup [OF assms True] show ?thesis by (simp add: find_node_def c)
  next
    case False
    then have "find_node D x = None" "find_node (fst (create n D)) x = None"
      using slab_lookup_issued assms(1) inv by (metis find_node_def not_Some_eq)+
    with False issued show ?thesis by (auto simp: c)
  qed
qed

lemma create_frame [dom]:
  "root (fst (create n D)) = root D" "document_node (fst (create n D)) = document_node D"
  "shadow_roots (fst (create n D)) = shadow_roots D" "shadow_hosts (fst (create n D)) = shadow_hosts D"
  "template_contents (fst (create n D)) = template_contents D" "atoms (fst (create n D)) = atoms D"
  by (simp_all add: create_def split_beta)

lemma create_ok:
  assumes ok: "tree_ok D" and room: "slab_room (nodes D)" and n: "n_parent n = null_id" "n_children n = []"
  shows "tree_ok (fst (create n D))"
proof -
  let ?D = "fst (create n D)" and ?new = "snd (create n D)"
  have inv: "slab_inv (nodes D)" using ok by (simp add: tree_ok_def)
  note find = create_find [OF inv room, of n]
  have live: "contains ?D x \<longleftrightarrow> x = ?new \<or> contains D x" for x by (simp add: contains_def find)
  have old: "\<not> contains D ?new" by (simp add: contains_def find)
  have par: "parent ?D x = parent D x" for x using n find(2) by (auto simp: parent_def find(1))
  have kids: "children ?D x = children D x" for x using n find(2) by (auto simp: children_def find(1))
  have new: "parent D ?new = null_id" using find(2) by (simp add: parent_def)
  have fresh: "root D \<noteq> ?new" "document_node D \<noteq> ?new" using ok old by (auto simp: tree_ok_def)
  have own: "owner ?D x = owner D x" for x using fresh unfolding owner_def par create_frame live by auto
  have newo: "\<not> handle_bool (owner D ?new)" using fresh new unfolding owner_def by auto
  have "owners ?D = owners D" using newo by (auto simp: owners_def own live)
  then show ?thesis
    using ok find(3) newo unfolding tree_ok_def by (auto simp: dom live par kids own)
qed

text \<open>A write that leaves the shape of the tree alone.\<close>

definition same_shape :: "document \<Rightarrow> document \<Rightarrow> bool" where
  "same_shape D D' \<longleftrightarrow> root D' = root D \<and> document_node D' = document_node D
     \<and> (\<forall>x. contains D' x \<longleftrightarrow> contains D x) \<and> (\<forall>x. parent D' x = parent D x) \<and> (\<forall>x. children D' x = children D x)
     \<and> (slab_inv (nodes D) \<longrightarrow> slab_inv (nodes D'))"

lemma same_shape_ok: "same_shape D D' \<Longrightarrow> tree_ok D \<Longrightarrow> tree_ok D'"
proof -
  assume s: "same_shape D D'" and ok: "tree_ok D"
  then have own: "owner D' x = owner D x" for x unfolding owner_def same_shape_def by auto
  then have "owners D' = owners D" using s by (simp add: owners_def same_shape_def)
  with s ok own show ?thesis by (simp add: tree_ok_def same_shape_def)
qed

lemma same_shape_refl [simp]: "same_shape D D"
  by (simp add: same_shape_def)

lemma same_shape_trans: "same_shape D D1 \<Longrightarrow> same_shape D1 D2 \<Longrightarrow> same_shape D D2"
  by (simp add: same_shape_def)

lemma same_shape_edit:
  assumes "\<And>n. n_parent (f n) = n_parent n" "\<And>n. n_children (f n) = n_children n"
  shows "same_shape D (edit_node h f D)"
  using assms by (auto simp: same_shape_def dom contains_def parent_def children_def edit_inv split: option.split)

lemma same_shape_nodes: "nodes D' = nodes D \<Longrightarrow> root D' = root D \<Longrightarrow> document_node D' = document_node D \<Longrightarrow> same_shape D D'"
  by (simp add: same_shape_def contains_def parent_def children_def find_node_def)

lemma same_shape_notes [simp]:
  "same_shape D (log_note w D)" "same_shape D (note_write h a t e r D)" "same_shape D (bump_version D)"
  "same_shape D (forget_parser_form h a D)"
  by (rule same_shape_nodes; simp add: dom note_write_def forget_parser_form_def split: option.split)+

lemma same_shape_pi: "same_shape D (update_pi_data h D)" "same_shape D (update_pi_attributes h v D)"
proof -
  have "same_shape D (note_write h 0 True False False
      (edit_node h (\<lambda>n. n\<lparr>n_text := serialize_pseudo_attributes (atoms D) (n_attributes n)\<rparr>) D))"
    by (rule same_shape_trans [OF same_shape_edit same_shape_notes(2)]) simp_all
  then show "same_shape D (update_pi_data h D)" by (simp add: update_pi_data_def split: option.split)
  have "same_shape D (D\<lparr>atoms := t\<rparr>)" for t by (rule same_shape_nodes) simp_all
  then have "same_shape D (edit_node h f (D\<lparr>atoms := t\<rparr>))"
    if "\<And>n. n_parent (f n) = n_parent n" "\<And>n. n_children (f n) = n_children n" for f t
    using same_shape_trans same_shape_edit that by metis
  then show "same_shape D (update_pi_attributes h v D)" by (simp add: update_pi_attributes_def split_beta)
qed

lemma same_shape_attribute:
  "same_shape D (edit_node h (\<lambda>n. n\<lparr>n_attributes := f (n_attributes n)\<rparr>) D)"
  "same_shape D (edit_node h (\<lambda>n. n\<lparr>n_text := v\<rparr>) D)"
  "same_shape D (edit_node h (\<lambda>n. n\<lparr>n_tag := q, n_prefixed := True\<rparr>) D)"
  by (rule same_shape_edit; simp)+

lemmas shapes = same_shape_notes same_shape_pi same_shape_attribute

lemma attribute_writes_shape:
  "set_attribute h a v D = Inr D' \<Longrightarrow> same_shape D D'"
  "set_attribute_ns h ns a v D = Inr D' \<Longrightarrow> same_shape D D'"
  "remove_attribute h a D = Inr D' \<Longrightarrow> same_shape D D'"
  "remove_attribute_ns h uri l D = Inr D' \<Longrightarrow> same_shape D D'"
  "set_text h v e D = Inr D' \<Longrightarrow> same_shape D D'"
  "same_shape D (set_element_prefix h q D)"
  unfolding set_attribute_def set_attribute_ns_def remove_attribute_def remove_attribute_ns_def set_text_def
    set_element_prefix_def Let_def
  by (auto split: option.splits if_splits intro!: shapes intro: same_shape_trans [OF _ shapes(1)]
      same_shape_trans [OF _ shapes(2)] same_shape_trans [OF _ shapes(3)] same_shape_trans [OF _ shapes(4)]
      same_shape_trans [OF _ shapes(5)] same_shape_trans [OF _ shapes(6)])

end
