(* ===== verification/Dom_Reach.thy ===== *)
theory Dom_Reach
  imports Dom_Tree
begin

text \<open>
  A document as a state machine: one step is one successful operation of its public interface (the parser's
  builder and insertions of the document element left out), and the
  documents that can be reached from a new one are trees. Then the contracts of the tree writes: which
  error they answer, what a move does to the child lists, that the write log replays it, and that the
  iterative height is the recursive one.
\<close>

section \<open>Steps\<close>

text \<open>The document element and the Document node are not moved by the insertions: \<open>set_document_element\<close>
  places the one, and nothing may move the other.\<close>

inductive dom_step :: "document \<Rightarrow> document \<Rightarrow> bool" where
  element: "slab_room (nodes D) \<Longrightarrow> dom_step D (fst (create_element a ns q D))"
| data: "slab_room (nodes D) \<Longrightarrow> dom_step D (fst (create_character_data k v D))"
| fragment: "slab_room (nodes D) \<Longrightarrow> dom_step D (fst (create_fragment D))"
| doctype: "slab_room (nodes D) \<Longrightarrow> dom_step D (fst (create_document_type a p s D))"
| instruction: "slab_room (nodes D) \<Longrightarrow> dom_step D (fst (create_processing_instruction a v D))"
| append: "append_child p c D = Some (Inr D') \<Longrightarrow> c \<noteq> root D \<Longrightarrow> c \<noteq> document_node D \<Longrightarrow> dom_step D D'"
| insertion: "insert_before p c b D = Some (Inr D') \<Longrightarrow> c \<noteq> root D \<Longrightarrow> c \<noteq> document_node D \<Longrightarrow> dom_step D D'"
| removal: "remove_child c D = Some (Inr D') \<Longrightarrow> c \<noteq> document_node D \<Longrightarrow> dom_step D D'"
| rooting: "set_document_element h b D = Some D' \<Longrightarrow> contains D h \<Longrightarrow> h \<noteq> document_node D \<Longrightarrow> dom_step D D'"
| unrooting: "dom_step D (remove_document_element D)"
| set_attr: "set_attribute h a v D = Inr D' \<Longrightarrow> dom_step D D'"
| set_attr_ns: "set_attribute_ns h ns a v D = Inr D' \<Longrightarrow> dom_step D D'"
| remove_attr: "remove_attribute h a D = Inr D' \<Longrightarrow> dom_step D D'"
| remove_attr_ns: "remove_attribute_ns h uri l D = Inr D' \<Longrightarrow> dom_step D D'"
| set_data: "set_text h v e D = Inr D' \<Longrightarrow> dom_step D D'"
| prefixing: "dom_step D (set_element_prefix h q D)"
| shadow: "attach_shadow h how D = Inr (D', r) \<Longrightarrow> slab_room (nodes D) \<Longrightarrow> dom_step D D'"
| template: "dom_step D (set_template_content h f D)"
| form: "dom_step D (set_parser_form h f D)"
| logging: "dom_step D (log_writes b D)"
| drained: "dom_step D (fst (take_writes D))"
| declarative: "dom_step D (set_shadow_declarative h b D)"
| settings: "f \<in> {set_quirks b, set_xml b, set_scripting b, set_allow_declarative_shadow_roots b, set_encoding s,
    set_shadow_disabled_hook dh, set_custom_state_hook sh, set_element_namespace h a,
    set_null_custom_element_registry h, bump_version} \<Longrightarrow> dom_step D (f D)"

inductive_cases dom_stepE: "dom_step D D'"

lemma new_node_fields [simp]: "n_parent (new_node k a ns q) = null_id" "n_children (new_node k a ns q) = []"
  by (simp_all add: new_node_def)

lemma created_shape:
  assumes "tree_ok D" "slab_room (nodes D)" "same_shape (fst (create (new_node k a ns q) D)) D'"
  shows "tree_ok D'"
  using create_ok [OF assms(1,2)] assms(3) by (auto intro: same_shape_ok)

lemma success_live:
  "append_child p c D = Some (Inr D') \<Longrightarrow> contains D p \<and> contains D c \<and> at_or_above D c p = Some False \<and> \<not> too_deep D p c"
  "insert_before p c b D = Some (Inr D') \<Longrightarrow> contains D p \<and> contains D c \<and> at_or_above D c p = Some False \<and> \<not> too_deep D p c"
  by (auto simp: append_child_def insert_before_def contains_def split: if_splits option.splits bool.splits)

lemma append_child_ok:
  assumes "tree_ok D" "append_child p c D = Some (Inr D')" "c \<noteq> root D" "c \<noteq> document_node D"
  shows "tree_ok D'"
proof -
  from success_live(1) [OF assms(2)] have live: "contains D p" "contains D c"
    and no: "at_or_above D c p = Some False" "\<not> too_deep D p c" by simp_all
  with at_or_above_eq [OF assms(1) live(2,1)] have above: "(c, p) \<notin> (parents D)\<^sup>*" by simp
  from append_child_moves [OF assms(1) live assms(3,4) above no(2)] assms(2) obtain i where
    "moved D c p (insert_at i c) (removal_notes D c @ insertion_notes D p c i) D'" by (auto simp: Let_def)
  with live above assms show ?thesis by (intro moved_ok [OF assms(1) live(2) assms(3,4)]) auto
qed

lemma insert_before_ok:
  assumes "tree_ok D" "insert_before p c b D = Some (Inr D')" "c \<noteq> root D" "c \<noteq> document_node D"
  shows "tree_ok D'"
proof -
  from success_live(2) [OF assms(2)] have live: "contains D p" "contains D c"
    and no: "at_or_above D c p = Some False" "\<not> too_deep D p c" by simp_all
  with at_or_above_eq [OF assms(1) live(2,1)] have above: "(c, p) \<notin> (parents D)\<^sup>*" by simp
  from insert_before_moves [OF assms(1) live assms(3,4) above no(2), of b] assms(2) obtain i where
    "moved D c p (insert_at i c) (removal_notes D c @ insertion_notes D p c i) D'" by (auto simp: Let_def)
  with live above assms show ?thesis by (intro moved_ok [OF assms(1) live(2) assms(3,4)]) auto
qed

lemma remove_child_ok:
  assumes "tree_ok D" "remove_child c D = Some (Inr D')" "c \<noteq> document_node D"
  shows "tree_ok D'"
proof -
  from assms(2) have live: "contains D c" "c \<noteq> root D" by (auto simp: remove_child_def contains_def split: if_splits)
  from remove_child_moves [OF assms(1) live assms(3)] assms(2) have
    "moved D c null_id id (removal_notes D c) D'" by auto
  with live assms show ?thesis by (intro moved_ok [OF assms(1) live assms(3)]) auto
qed

lemma attach_shadow_shape:
  "attach_shadow h how D = Inr (D', r) \<Longrightarrow> same_shape (fst (create_fragment D)) D'"
  by (auto simp: attach_shadow_def Let_def split: if_splits prod.splits intro!: same_shape_nodes)

lemma edited_shape:
  "same_shape (fst (create (new_node k a ns q) D))
     (fst (let (D, h) = create (new_node k a ns q) D in (edit_node h (\<lambda>n. n\<lparr>n_text := v\<rparr>) D, h)))"
  by (simp add: split_beta same_shape_attribute)

lemma dom_step_ok:
  assumes "dom_step D D'" "tree_ok D"
  shows "tree_ok D'"
  using assms(1)
proof cases
  case (element a ns q)
  then show ?thesis using assms(2) by (simp add: create_element_def create_ok)
next
  case (data k v)
  show ?thesis
    unfolding data(1) create_character_data_def by (rule created_shape [OF assms(2) data(2) edited_shape])
next
  case fragment
  then show ?thesis using assms(2) by (simp add: create_fragment_def create_ok)
next
  case (doctype a p s)
  show ?thesis
    unfolding doctype(1) create_document_type_def by (rule created_shape [OF assms(2) doctype(2) edited_shape])
next
  case (instruction a v)
  have "same_shape (fst (create (new_node Processing_instruction a Html False) D)) D'"
    using same_shape_trans [OF same_shape_attribute(2) same_shape_pi(2)]
    by (simp add: instruction create_processing_instruction_def split_beta)
  with instruction created_shape [OF assms(2)] show ?thesis by blast
next
  case (shadow h how r)
  then have "same_shape (fst (create_fragment D)) D'" using attach_shadow_shape by simp
  with shadow created_shape [OF assms(2)] show ?thesis by (simp add: create_fragment_def)
next
  case (rooting h b)
  then show ?thesis using set_document_element_ok [OF assms(2), of h b] by fastforce
next
  case (append p c)
  with assms(2) show ?thesis by (blast intro: append_child_ok)
next
  case (insertion p c b)
  with assms(2) show ?thesis by (blast intro: insert_before_ok)
next
  case (removal c)
  with assms(2) show ?thesis by (blast intro: remove_child_ok)
next
  case unrooting
  with assms(2) show ?thesis by (simp add: remove_document_element_ok)
next
  case (template h f)
  show ?thesis unfolding template by (rule same_shape_ok [OF same_shape_nodes assms(2)]) (simp_all add: set_template_content_def)
next
  case (form h f)
  show ?thesis unfolding form by (rule same_shape_ok [OF same_shape_nodes assms(2)]) (simp_all add: set_parser_form_def)
next
  case (logging b)
  show ?thesis unfolding logging by (rule same_shape_ok [OF same_shape_nodes assms(2)]) (simp_all add: log_writes_def)
next
  case drained
  show ?thesis unfolding drained by (rule same_shape_ok [OF same_shape_nodes assms(2)]) (simp_all add: take_writes_def)
next
  case (declarative h b)
  show ?thesis unfolding declarative
    by (rule same_shape_ok [OF same_shape_nodes assms(2)]) (simp_all add: set_shadow_declarative_def split: option.split)
next
  case (settings f)
  then have "same_shape D D'"
    by (auto intro!: same_shape_nodes simp: set_quirks_def set_xml_def set_scripting_def set_allow_declarative_shadow_roots_def
        set_encoding_def set_shadow_disabled_hook_def set_custom_state_hook_def set_element_namespace_def
        set_null_custom_element_registry_def bump_version_def)
  then show ?thesis using assms(2) by (rule same_shape_ok)
qed (blast intro: same_shape_ok [OF _ assms(2)] attribute_writes_shape)+

lemma new_document_ok: "tree_ok (new_document t)"
proof -
  obtain s h where s: "slab_ins (new_node Document 0 Html False) slab_empty = (s, h)" by fastforce
  have room: "slab_room (slab_empty :: node slab)" by (simp add: slab_room_def slab_empty_def)
  define E :: document where "E = (new_document t)\<lparr>nodes := slab_empty\<rparr>"
  have E: "nodes E = slab_empty" by (simp add: E_def)
  have c: "nodes (fst (create (new_node Document 0 Html False) E)) = s" "snd (create (new_node Document 0 Html False) E) = h"
    by (simp_all add: create_def E s)
  have none: "find_node E x = None" for x
    by (simp add: find_node_def E slab_lookup_def slab_get_def slab_empty_def)
  have inv: "slab_inv (nodes E)" "slab_room (nodes E)" using slab_empty_inv room by (simp_all add: E)
  note f = create_find [OF inv, of "new_node Document 0 Html False", unfolded c]
  have nd: "nodes (new_document t) = s" "root (new_document t) = h" "document_node (new_document t) = h"
    by (simp_all add: new_document_def s)
  have find: "find_node (new_document t) x = (if x = h then Some (new_node Document 0 Html False) else None)" for x
    using f(1) [of x] none by (simp add: find_node_def nd c)
  have "parent (new_document t) x = null_id" "children (new_document t) x = []" "contains (new_document t) x \<longleftrightarrow> x = h" for x
    by (simp_all add: parent_def children_def contains_def find)
  moreover from this have "owner (new_document t) x = null_id" for x by (simp add: owner_def nd)
  moreover from this have "owners (new_document t) = {}" by (auto simp: owners_def)
  ultimately show ?thesis using f(3) by (auto simp: tree_ok_def nd acyclic_def)
qed

section \<open>What the tree writes promise\<close>

text \<open>C3. Every document that the steps above reach from a new one is a tree: a node is in exactly the
  list of its parent, once, the Document node and the document element have no parent, and no node is
  below itself. The steps create nodes while the slab has room for them; they insert nodes other than the
  Document node and the document element (\<open>set_document_element\<close> places that one; moved by an insertion it
  ends in two lists, see \<open>root_in_two_lists\<close>), remove nodes other than the Document node, and write
  attributes, text, shadow roots and settings. The operations of the parser's builder are not among them.\<close>

theorem reachable_tree:
  assumes "dom_step\<^sup>*\<^sup>* (new_document t) D"
  shows "tree_ok D"
  using assms by (induction rule: rtranclp_induct) (auto intro: new_document_ok dom_step_ok)

theorem reachable_tree_witness:
  "tree_ok (remove_document_element (fst (create_element 1 Html False (new_document new_table))))"
proof (rule reachable_tree)
  let ?D = "new_document new_table"
  have "slab_room (nodes ?D)"
    by (simp add: new_document_def slab_ins_def slab_insert_def take_slot_def slab_empty_def slab_room_def Let_def)
  then have "dom_step ?D (fst (create_element 1 Html False ?D))" by (rule dom_step.element)
  moreover have "dom_step (fst (create_element 1 Html False ?D)) (remove_document_element (fst (create_element 1 Html False ?D)))"
    by (rule dom_step.unrooting)
  ultimately show "dom_step\<^sup>*\<^sup>* ?D (remove_document_element (fst (create_element 1 Html False ?D)))"
    by (metis rtranclp.rtrancl_into_rtrancl rtranclp.rtrancl_refl)
qed

lemma detach_returns: "tree_ok D \<Longrightarrow> contains D c \<Longrightarrow> \<exists>D1. detach c D = Some D1"
proof -
  assume ok: "tree_ok D" and "contains D c"
  then obtain n where n: "find_node D c = Some n" by (auto simp: contains_def)
  have "slab_inv (nodes D)" using ok by (simp add: tree_ok_def)
  from detach_find [OF wf_parents [OF ok] n this] show "\<exists>D1. detach c D = Some D1" by metis
qed

text \<open>C6. The two insertions always answer: \<open>No_such_node\<close> for a stale handle, \<open>Would_cycle\<close> exactly when the
  node is the parent or above it, \<open>Too_deep\<close> exactly when the depth cap would be passed, in this order,
  and otherwise a new document. Their walks end and never read through a null pointer.\<close>

theorem insertion_answers:
  assumes "tree_ok D" and f: "f = append_child p c \<or> f = insert_before p c before"
  shows "\<exists>r. f D = Some r
    \<and> (r = Inl No_such_node \<longleftrightarrow> \<not> (contains D p \<and> contains D c))
    \<and> (r = Inl Would_cycle \<longleftrightarrow> contains D p \<and> contains D c \<and> (c, p) \<in> (parents D)\<^sup>*)
    \<and> (r = Inl Too_deep \<longleftrightarrow> contains D p \<and> contains D c \<and> (c, p) \<notin> (parents D)\<^sup>* \<and> too_deep D p c)
    \<and> (\<forall>e. r = Inl e \<longrightarrow> e \<in> {No_such_node, Would_cycle, Too_deep})"
proof (cases "contains D p \<and> contains D c")
  case False
  then show ?thesis using f by (auto simp: append_child_def insert_before_def contains_def)
next
  case live: True
  then obtain n m where n: "find_node D p = Some n" "find_node D c = Some m" by (auto simp: contains_def)
  note walk = at_or_above_eq [OF assms(1), of c p]
  obtain D1 where "detach c D = Some D1" using detach_returns [OF assms(1)] live by blast
  then show ?thesis
    using live walk f n by (cases "(c, p) \<in> (parents D)\<^sup>*"; cases "too_deep D p c")
      (auto simp: append_child_def insert_before_def Let_def)
qed

theorem insertion_answers_witness:
  "\<exists>r. append_child null_id null_id (new_document new_table) = Some r \<and> r = Inl No_such_node"
  using insertion_answers [OF new_document_ok, of "append_child null_id null_id" null_id null_id null_id new_table]
    contains_bool [of "new_document new_table" null_id] by auto

section \<open>Where an insertion puts a node\<close>

lemma moved_lists:
  assumes ok: "tree_ok D" and live: "contains D p" "contains D c" and m: "moved D c p place notes D'"
  shows "parent D' = (parent D)(c := p)" "children D' p = place (without c (children D p))"
    and "h \<noteq> p \<Longrightarrow> children D' h = without c (children D h)" "contains D' = contains D"
proof -
  have find: "\<And>h. find_node D' h = map_option (relocate c p place h) (find_node D h)" using m by (simp add: moved_def)
  note r = relocated [OF find]
  show "parent D' = (parent D)(c := p)" using r(2) live(2) by (simp add: fun_eq_iff)
  show "children D' p = place (without c (children D p))" using r(3) live(1) by simp
  show "contains D' = contains D" using r(1) by (simp add: fun_eq_iff)
  assume "h \<noteq> p"
  then show "children D' h = without c (children D h)"
    using r(3,4) [of h] by (cases "contains D h") (auto simp: without_def children_def contains_def)
qed

lemma split_at_index:
  assumes "b \<in> set xs"
  shows "\<exists>ys zs. xs = ys @ b # zs \<and> insert_at (index_of b xs) c xs = ys @ c # b # zs"
proof -
  obtain ys zs where s: "xs = ys @ b # zs" "b \<notin> set ys" using assms by (meson split_list_first)
  then have "takeWhile (\<lambda>y. y \<noteq> b) xs = ys" by (auto simp: takeWhile_append takeWhile_eq_all_conv)
  with s(1) show ?thesis by (auto simp: insert_at_def index_of_def)
qed

lemma index_of_absent: "b \<notin> set xs \<Longrightarrow> insert_at (index_of b xs) c xs = xs @ [c]"
proof -
  assume "b \<notin> set xs"
  then have all: "takeWhile (\<lambda>y. y \<noteq> b) xs = xs" by (auto simp: takeWhile_eq_all_conv)
  show ?thesis unfolding insert_at_def index_of_def all by simp
qed

lemma reinsert_before_next:
  assumes "distinct xs" "c \<in> set xs" "null \<notin> set xs" "null = null_id"
  shows "insert_at (index_of (next_of c xs) (without c xs)) c (without c xs) = xs"
proof -
  obtain ys zs where s: "xs = ys @ c # zs" using assms(2) by (meson split_list)
  with assms(1) have not_in: "c \<notin> set ys" "c \<notin> set zs" "set ys \<inter> set zs = {}" by auto
  have "without c xs = without c ys @ without c zs" using s by (simp add: without_def)
  then have w: "without c xs = ys @ zs" using not_in by (simp add: without_id)
  have i: "index_of c xs = length ys"
  proof -
    have "takeWhile (\<lambda>y. y \<noteq> c) xs = ys" using s not_in by (auto simp: takeWhile_append takeWhile_eq_all_conv)
    then show ?thesis by (simp add: index_of_def)
  qed
  show ?thesis
  proof (cases zs)
    case Nil
    then have "next_of c xs = null_id" using i s by (simp add: next_of_def Let_def)
    moreover have "null_id \<notin> set (without c xs)" using assms(3,4) by simp
    ultimately have "insert_at (index_of (next_of c xs) (without c xs)) c (without c xs) = without c xs @ [c]"
      by (intro index_of_absent) simp
    then show ?thesis using w Nil s by simp
  next
    case (Cons z zs')
    then have n: "next_of c xs = z" using i s by (simp add: next_of_def Let_def nth_append)
    have "takeWhile (\<lambda>y. y \<noteq> z) (ys @ zs) = ys"
      using not_in Cons by (subst takeWhile_append2) auto
    then show ?thesis using w n s Cons by (simp add: insert_at_def index_of_def)
  qed
qed

section \<open>What an insertion leaves alone\<close>

text \<open>The fields of the document a tree write touches are the nodes, the version, the log and the parser's
  form associations.\<close>

definition touches :: "document \<Rightarrow> document \<Rightarrow> bool" where
  "touches D D' \<longleftrightarrow> D' = D\<lparr>nodes := nodes D', version := version D', writes := writes D', parser_forms := parser_forms D'\<rparr>"

lemma touches_trans: "touches D E \<Longrightarrow> touches E F \<Longrightarrow> touches D F"
  by (cases D; cases E; cases F) (simp add: touches_def)

lemma touches_refl: "touches D D"
  by (simp add: touches_def)

lemma touches_edit: "touches D (edit_node h f D)"
  by (simp add: touches_def edit_node_def split: option.split)

lemma touches_note: "touches D (note_edit k p c i D)"
  by (simp add: touches_def note_edit_def log_note_def)

lemma touches_bump: "touches D (bump_version D)"
  by (simp add: touches_def bump_version_def)

lemma touches_sever: "sever_parser_forms D = Some D' \<Longrightarrow> touches D D'"
  by (auto simp: touches_def sever_parser_forms_def)

lemmas touches_steps = touches_trans [OF _ touches_edit] touches_trans [OF _ touches_note]
  touches_trans [OF _ touches_bump]

lemma forms_steps:
  "parser_forms (edit_node h f D) = parser_forms D" "parser_forms (note_edit k p c i D) = parser_forms D"
  "parser_forms (bump_version D) = parser_forms D"
  by (auto simp: edit_node_def note_edit_def log_note_def bump_version_def split: option.split)

lemma severed_filter: "severed D ps = Some qs \<Longrightarrow> qs = filter (\<lambda>(c, f). tree_top D c = tree_top D f) ps"
  by (induction D ps arbitrary: qs rule: severed.induct) (auto split: option.splits if_splits)

lemma detach_frame:
  assumes "detach c D = Some D'"
  shows "touches D D'" "\<exists>keep. parser_forms D' = filter keep (parser_forms D)"
    "\<not> handle_bool (parent D c) \<Longrightarrow> parser_forms D' = parser_forms D"
proof -
  consider (same) "D' = D" | (out) E where "touches D E" "parser_forms E = parser_forms D" "handle_bool (parent D c)"
      "D' = E \<or> sever_parser_forms E = Some D'"
  proof (cases "find_node D c")
    case (Some n)
    show thesis
    proof (cases "\<not> handle_bool (n_parent n) \<or> find_node D (n_parent n) = None")
      case True
      with Some assms have "D' = D" by (auto simp: detach_def split: if_splits)
      then show thesis by (rule same)
    next
      case False
      then obtain m where m: "find_node D (n_parent n) = Some m" "handle_bool (n_parent n)" by auto
      define E where "E = edit_node c (\<lambda>n. n\<lparr>n_parent := null_id\<rparr>)
        (edit_node (n_parent n) (\<lambda>p. p\<lparr>n_children := without c (n_children p)\<rparr>)
          (note_edit Removed (n_parent n) c (index_of c (n_children m)) D))"
      have "detach c D = (if parser_forms E \<noteq> [] then sever_parser_forms E else Some E)"
        using m(2) unfolding detach_def Some option.case m(1) Let_def E_def by (simp only: simp_thms if_False)
      with assms have "D' = E \<or> sever_parser_forms E = Some D'" by (simp split: if_splits)
      moreover have t: "touches D E" unfolding E_def by (intro touches_steps touches_refl)
      moreover have "parser_forms E = parser_forms D" unfolding E_def by (simp only: forms_steps)
      moreover have "handle_bool (parent D c)" using Some m(2) by (simp add: parent_def)
      ultimately show thesis by (intro out [of E])
    qed
  qed (use assms in \<open>simp add: detach_def\<close>)
  note cases = this
  have all: "\<exists>keep. xs = filter keep xs" for xs :: "(node_id \<times> node_id) list"
    by (rule exI [of _ "\<lambda>_. True"]) simp
  show "touches D D'"
    by (cases rule: cases) (auto intro: touches_refl touches_trans [OF _ touches_sever])
  show "\<exists>keep. parser_forms D' = filter keep (parser_forms D)"
    by (cases rule: cases) (use all in \<open>auto simp: sever_parser_forms_def dest!: severed_filter\<close>)
  show "\<not> handle_bool (parent D c) \<Longrightarrow> parser_forms D' = parser_forms D"
    by (cases rule: cases) auto
qed

lemma insert_before_frame:
  assumes "insert_before p c before D = Some (Inr D')"
  shows "touches D D'" "\<exists>keep. parser_forms D' = filter keep (parser_forms D)"
    "\<not> handle_bool (parent D c) \<Longrightarrow> parser_forms D' = parser_forms D"
proof -
  have answers: "find_node D p \<noteq> None" "find_node D c \<noteq> None" "at_or_above D c p = Some False" "\<not> too_deep D p c"
    using success_live(2) [OF assms] by (simp_all add: contains_def)
  obtain b where b: "b = (if before = c then next_of c (children D p) else before)" by simp
  have "detach c D \<noteq> None"
  proof
    assume "detach c D = None"
    with assms answers show False by (simp add: insert_before_def Let_def)
  qed
  then obtain E where E: "detach c D = Some E" by blast
  define i where "i = index_of b (children E p)"
  have D': "D' = bump_version (note_edit Inserted p c i
      (edit_node c (\<lambda>n. n\<lparr>n_parent := p\<rparr>) (edit_node p (\<lambda>n. n\<lparr>n_children := insert_at i c (n_children n)\<rparr>) E)))"
    using assms answers unfolding insert_before_def Let_def b [symmetric] by (simp add: E i_def)
  note d = detach_frame [OF E]
  have f: "parser_forms D' = parser_forms E" by (simp add: D' forms_steps)
  show "touches D D'" unfolding D' using d(1) by (intro touches_steps)
  show "\<exists>keep. parser_forms D' = filter keep (parser_forms D)" using d(2) f by simp
  show "\<not> handle_bool (parent D c) \<Longrightarrow> parser_forms D' = parser_forms D" using d(3) f by simp
qed

text \<open>C15. A successful \<^verbatim>\<open>insert_before\<close> of a node other than the Document node and the document element makes
  the node a child of the parent and takes it out of every other
  list: it goes immediately before the reference when that is another child of the parent, stays where it
  is when it is inserted before itself, and goes to the end otherwise; the other children keep their
  order, and no other node gets another parent. No node appears or disappears, every node keeps its kind,
  name, attributes, text and whatever else it has beside its parent and children, and of the document's own
  fields - namespaces, shadow roots, template contents, registries, flags - only four change: the nodes, the
  version (one higher), the log (it grows) and the parser's form associations, of which the removal of a node
  that had a parent may drop some.\<close>

theorem insert_before_places:
  assumes ok: "tree_ok D" and success: "insert_before p c before D = Some (Inr D')"
    and c: "c \<noteq> root D" "c \<noteq> document_node D"
  shows "parent D' = (parent D)(c := p) \<and> (\<forall>h. h \<noteq> p \<longrightarrow> children D' h = without c (children D h))
    \<and> (before \<noteq> c \<longrightarrow> before \<in> set (children D p)
        \<longrightarrow> (\<exists>xs ys. without c (children D p) = xs @ before # ys \<and> children D' p = xs @ c # before # ys))
    \<and> (before = c \<longrightarrow> c \<in> set (children D p) \<longrightarrow> children D' p = children D p)
    \<and> (before \<notin> set (children D p) \<longrightarrow> children D' p = without c (children D p) @ [c])
    \<and> (\<forall>h. find_node D' h = map_option (\<lambda>n. n\<lparr>n_parent := parent D' h, n_children := children D' h\<rparr>) (find_node D h))
    \<and> D' = D\<lparr>nodes := nodes D', version := version D + 1, writes := writes D', parser_forms := parser_forms D'\<rparr>
    \<and> (\<exists>notes. writes D' = writes D @ notes) \<and> (\<exists>keep. parser_forms D' = filter keep (parser_forms D))
    \<and> (handle_bool (parent D c) \<or> parser_forms D' = parser_forms D)"
proof -
  from success_live(2) [OF success] have live: "contains D p" "contains D c"
    and no: "at_or_above D c p = Some False" "\<not> too_deep D p c" by simp_all
  with at_or_above_eq [OF ok live(2,1)] have above: "(c, p) \<notin> (parents D)\<^sup>*" by simp
  define i where "i = insert_index D p c before"
  from insert_before_moves [OF ok live c above no(2), of before] success obtain ws where
    m: "moved D c p (insert_at i c) ws D'" by (auto simp: Let_def i_def)
  note lists = moved_lists [OF ok live m]
  have kids: "children D' p = insert_at i c (without c (children D p))" by (rule lists(2))
  have dist: "distinct (children D p)" using ok by (simp add: tree_ok_def)
  have "\<not> contains D null_id" using contains_bool by fastforce
  then have null: "null_id \<notin> set (children D p)" using ok contains_bool [OF live(1)] by (auto simp: tree_ok_def)
  have "\<exists>xs ys. without c (children D p) = xs @ before # ys \<and> children D' p = xs @ c # before # ys"
    if "before \<noteq> c" "before \<in> set (children D p)"
  proof -
    have "before \<in> set (without c (children D p))" using that by simp
    from split_at_index [OF this, of c] show ?thesis using that by (simp add: kids i_def insert_index_def)
  qed
  moreover have "children D' p = children D p" if "before = c" "c \<in> set (children D p)"
    using reinsert_before_next [OF dist that(2) null refl] that(1) by (simp add: kids i_def insert_index_def)
  moreover have "children D' p = without c (children D p) @ [c]" if b: "before \<notin> set (children D p)"
  proof -
    have "(if before = c then next_of c (children D p) else before) \<notin> set (without c (children D p))"
    proof (cases "before = c")
      case True
      with b have "index_of c (children D p) = length (children D p)"
        using index_of_less [of c "children D p"] length_takeWhile_le [of "\<lambda>y. y \<noteq> c" "children D p"]
        by (simp add: index_of_def)
      then have "next_of c (children D p) = null_id" by (simp add: next_of_def Let_def)
      with True null show ?thesis by simp
    qed (use b in simp)
    then show ?thesis unfolding kids i_def insert_index_def by (rule index_of_absent)
  qed
  moreover have "find_node D' h = map_option (\<lambda>n. n\<lparr>n_parent := parent D' h, n_children := children D' h\<rparr>) (find_node D h)" for h
    using m by (cases "find_node D h") (auto simp: moved_def parent_def children_def relocate_def)
  moreover have "D' = D\<lparr>nodes := nodes D', version := version D + 1, writes := writes D', parser_forms := parser_forms D'\<rparr>"
    using insert_before_frame(1) [OF success] m unfolding touches_def moved_def by simp
  moreover have "\<exists>notes. writes D' = writes D @ notes" using m by (auto simp: moved_def)
  moreover note insert_before_frame(2,3) [OF success]
  ultimately show ?thesis using lists(1,3) by blast
qed

section \<open>A document with two elements\<close>

definition two_elements :: document where
  "two_elements =
     log_writes True (fst (create_element 1 Html False (fst (create_element 1 Html False (new_document new_table)))))"

abbreviation node_at :: "32 word \<Rightarrow> node_id" where
  "node_at i \<equiv> \<lparr>h_slot = i, h_generation = 1\<rparr>"

lemmas dom_eval = new_document_def create_element_def create_def slab_ins_def slab_insert_def take_slot_def
  slab_empty_def new_node_def Let_def null_id_def

lemma two_fields:
  "slots (nodes two_elements) = [\<lparr>generation = 1, next_free = 0, storage = Some (new_node Document 0 Html False)\<rparr>,
    \<lparr>generation = 1, next_free = 0, storage = Some (new_node Element 1 Html False)\<rparr>,
    \<lparr>generation = 1, next_free = 0, storage = Some (new_node Element 1 Html False)\<rparr>]"
  "root two_elements = node_at 0" "document_node two_elements = node_at 0" "log_on two_elements"
  "template_contents two_elements = []" "shadow_roots two_elements = Map.empty" "writes two_elements = []"
  by (simp_all add: two_elements_def dom_eval log_writes_def)

lemma two_find:
  "find_node two_elements (node_at 1) = Some (new_node Element 1 Html False)"
  "find_node two_elements (node_at 2) = Some (new_node Element 1 Html False)"
  by (simp_all add: find_node_def slab_lookup_def slab_get_def two_fields handle_bool_def)

lemma two_ok: "tree_ok two_elements"
  unfolding two_elements_def
  by (intro dom_step_ok [OF dom_step.logging] dom_step_ok [OF dom_step.element] new_document_ok) (simp_all add: dom_eval slab_room_def)

lemma levels_up_null [simp]: "levels_up k D null_id = 0"
  by (cases k) simp_all

lemma two_shallow: "\<not> too_deep two_elements (node_at 1) (node_at 2)"
proof -
  have "node_below two_elements (node_at 2) = []" "up two_elements (node_at 1) = null_id"
    by (simp_all add: node_below_def up_def two_find two_fields shadow_root_of_def template_content_def)
      (simp_all add: new_node_def)
  then show ?thesis by (simp add: too_deep_def depth_def height_def height_loop.simps(2) max_dom_depth_def)
qed

lemma two_apart: "(node_at 2, node_at 1) \<notin> (parents two_elements)\<^sup>*"
proof -
  have "\<not> handle_bool (parent two_elements (node_at 1))" by (simp add: parent_def two_find)
  then show ?thesis
    using above_step [of "node_at 1" "node_at 2" two_elements] by (simp add: contains_def two_find)
qed

lemma two_insert:
  obtains D' where "insert_before (node_at 1) (node_at 2) b two_elements = Some (Inr D')"
proof -
  have "contains two_elements (node_at 1)" "contains two_elements (node_at 2)" by (simp_all add: contains_def two_find)
  from insert_before_moves [OF two_ok this _ _ two_apart two_shallow, of b] that two_fields show thesis by auto
qed

theorem insert_before_places_witness:
  "\<exists>D'. insert_before (node_at 1) (node_at 2) null_id two_elements = Some (Inr D')
    \<and> children D' (node_at 1) = [node_at 2]"
proof -
  obtain D' where D': "insert_before (node_at 1) (node_at 2) null_id two_elements = Some (Inr D')"
    using two_insert [of null_id] by blast
  have none: "children two_elements (node_at 1) = []" by (simp add: children_def two_find)
  have "children D' (node_at 1) = without (node_at 2) (children two_elements (node_at 1)) @ [node_at 2]"
    using insert_before_places [OF two_ok D'] by (simp add: two_fields none)
  with D' none show ?thesis by (simp add: without_def)
qed

section \<open>The height of a subtree\<close>

text \<open>The recursive definition: the longest path down, counted up to \<open>k\<close> levels.\<close>

fun levels_down :: "nat \<Rightarrow> document \<Rightarrow> node_id \<Rightarrow> nat" where
  "levels_down 0 D h = 0"
| "levels_down (Suc k) D h = Max (insert 0 ((\<lambda>x. Suc (levels_down k D x)) ` set (node_below D h)))"

lemma levels_down_le: "levels_down k D h \<le> k"
  by (induction k D h rule: levels_down.induct) auto

text \<open>What the stack will still find, and what has been found.\<close>

definition stack_height :: "document \<Rightarrow> (node_id \<times> nat) list \<Rightarrow> nat" where
  "stack_height D todo = Max (insert 0 ((\<lambda>(at, below). below + levels_down (max_dom_depth - below) D at) ` set todo))"

lemma stack_height_Cons:
  "stack_height D ((at, below) # todo) = max (below + levels_down (max_dom_depth - below) D at) (stack_height D todo)"
proof -
  let ?A = "(\<lambda>(at, below). below + levels_down (max_dom_depth - below) D at) ` set todo"
  have "insert 0 (insert (below + levels_down (max_dom_depth - below) D at) ?A)
    = insert (below + levels_down (max_dom_depth - below) D at) (insert 0 ?A)" by auto
  then show ?thesis by (simp add: stack_height_def)
qed

lemma stack_height_push:
  assumes "below < max_dom_depth"
  shows "max below (stack_height D (rev (map (\<lambda>x. (x, below + 1)) (node_below D at)) @ todo))
    = stack_height D ((at, below) # todo)"
proof -
  let ?k = "max_dom_depth - (below + 1)"
  have k: "max_dom_depth - below = Suc ?k" using assms by simp
  let ?S = "set (node_below D at)"
  have "stack_height D (map (\<lambda>x. (x, below + 1)) xs @ todo)
    = max (Max (insert 0 ((\<lambda>x. below + 1 + levels_down ?k D x) ` set xs))) (stack_height D todo)" for xs
  proof (induction xs)
    case (Cons x xs)
    have "Max (insert 0 ((\<lambda>x. below + 1 + levels_down ?k D x) ` set (x # xs)))
      = max (below + 1 + levels_down ?k D x) (Max (insert 0 ((\<lambda>x. below + 1 + levels_down ?k D x) ` set xs)))"
      by (simp add: insert_commute [of 0])
    with Cons show ?case by (simp add: stack_height_Cons max.assoc)
  qed simp
  from this [of "rev (node_below D at)"]
  have push: "stack_height D (rev (map (\<lambda>x. (x, below + 1)) (node_below D at)) @ todo)
    = max (Max (insert 0 ((\<lambda>x. below + 1 + levels_down ?k D x) ` ?S))) (stack_height D todo)"
    by (simp add: rev_map)
  have "max below (Max (insert 0 ((\<lambda>x. below + 1 + levels_down ?k D x) ` ?S)))
    = below + levels_down (max_dom_depth - below) D at"
  proof (cases "?S = {}")
    case False
    have "Max ((\<lambda>x. Suc (levels_down ?k D x) + below) ` ?S) = Max ((\<lambda>x. Suc (levels_down ?k D x)) ` ?S) + below"
      by (rule Max_add_commute) (use False in simp_all)
    then have "Max ((\<lambda>x. below + 1 + levels_down ?k D x) ` ?S) = below + Max ((\<lambda>x. Suc (levels_down ?k D x)) ` ?S)"
      by (simp add: add.commute)
    with False show ?thesis by (simp add: k)
  qed (simp add: k)
  with push show ?thesis by (simp add: stack_height_Cons max.assoc [symmetric])
qed

lemma stack_height_le: "\<forall>e \<in> set todo. snd e \<le> max_dom_depth \<Longrightarrow> stack_height D todo \<le> max_dom_depth"
proof (induction todo)
  case (Cons e todo)
  obtain at below where e: "e = (at, below)" by (cases e)
  have "below + levels_down (max_dom_depth - below) D at \<le> max_dom_depth"
  proof -
    have "below \<le> max_dom_depth" using Cons(2) e by simp
    with levels_down_le [of "max_dom_depth - below" D at] show ?thesis by linarith
  qed
  with Cons e show ?case by (simp add: stack_height_Cons)
qed (simp add: stack_height_def)

lemma height_loop_stop: "tallest \<ge> max_dom_depth \<Longrightarrow> height_loop D tallest todo = tallest"
  by (cases todo) (auto simp: height_loop.simps(2))

lemma height_loop_eq:
  "\<forall>e \<in> set todo. snd e \<le> max_dom_depth \<Longrightarrow> tallest \<le> max_dom_depth
   \<Longrightarrow> height_loop D tallest todo = max tallest (stack_height D todo)"
proof (induction D tallest todo rule: height_loop.induct)
  case (1 D tallest)
  then show ?case by (simp add: stack_height_def)
next
  case (2 D tallest at below todo)
  show ?case
  proof (cases "tallest \<ge> max_dom_depth")
    case True
    with 2(3) have "tallest = max_dom_depth" by simp
    with stack_height_le [OF 2(2), of D] height_loop_stop show ?thesis by simp
  next
    case False
    let ?push = "rev (map (\<lambda>x. (x, below + 1)) (node_below D at)) @ todo"
    have step: "height_loop D tallest ((at, below) # todo) = height_loop D (max tallest below) ?push"
      using False by (simp add: height_loop.simps(2))
    show ?thesis
    proof (cases "below < max_dom_depth")
      case True
      then have "\<forall>e \<in> set ?push. snd e \<le> max_dom_depth" "max tallest below \<le> max_dom_depth"
        using 2(2,3) by auto
      from 2(1) [OF False this] step stack_height_push [OF True, of D at todo]
      show ?thesis by (simp add: max.assoc)
    next
      case deepest: False
      with 2(2) have "below = max_dom_depth" by simp
      with step height_loop_stop [of "max tallest below"] 2(3) stack_height_le [OF 2(2), of D]
      show ?thesis by (auto simp: stack_height_Cons max_def)
    qed
  qed
qed

text \<open>C32. The iterative height, which walks the subtree with a stack and stops at the depth cap, is the
  recursive one: the longest path down through children, shadow roots and template contents, counted up
  to the cap. It holds on every document, also one whose templates form a cycle.\<close>

theorem height_recursive: "height D h = levels_down max_dom_depth D h"
proof -
  have "height_loop D 0 [(h, 0)] = max 0 (stack_height D [(h, 0)])" by (rule height_loop_eq) simp_all
  then show ?thesis by (simp add: height_def stack_height_def)
qed

section \<open>Replaying the write log\<close>

text \<open>What a reader of the log does to its own copy of the child lists.\<close>

definition apply_note :: "write_note \<Rightarrow> (node_id \<Rightarrow> node_id list) \<Rightarrow> node_id \<Rightarrow> node_id list" where
  "apply_note w f =
     (let h = w_node w; i = unat (w_index w) in
      if w_kind w = Inserted then f(h := insert_at i (w_child w) (f h))
      else if w_kind w = Removed then f(h := take i (f h) @ drop (i + 1) (f h))
      else f)"

definition replay :: "write_note list \<Rightarrow> (node_id \<Rightarrow> node_id list) \<Rightarrow> node_id \<Rightarrow> node_id list" where
  "replay ws f = fold apply_note ws f"

lemma in_children: "c \<in> set (children D h) \<Longrightarrow> handle_bool h"
  using contains_bool [of D h] by (cases "find_node D h") (simp_all add: children_def contains_def)

lemma children_bound: "tree_ok D \<Longrightarrow> length (children D h) < 2 ^ 32"
proof -
  assume ok: "tree_ok D"
  let ?slot = "\<lambda>c. unat (h_slot c)"
  have live: "contains D c" if "c \<in> set (children D h)" for c
  proof -
    have "handle_bool h" using that by (rule in_children)
    with ok that show ?thesis by (simp add: tree_ok_def)
  qed
  have slot: "?slot c < length (slots (nodes D)) \<and> generation (slots (nodes D) ! ?slot c) = h_generation c"
    if "contains D c" for c
    using that by (auto simp: contains_def find_node_def slab_lookup_def slab_get_def Let_def split: if_splits option.splits)
  have "inj_on ?slot (set (children D h))"
  proof (rule inj_onI)
    fix a b assume "a \<in> set (children D h)" "b \<in> set (children D h)" "?slot a = ?slot b"
    with slot [OF live] have "h_generation a = h_generation b" "h_slot a = h_slot b" by (metis, metis word_unat_eq_iff)
    then show "a = b" by (cases a; cases b) simp
  qed
  moreover have "?slot ` set (children D h) \<subseteq> {..<length (slots (nodes D))}" using slot live by auto
  ultimately have "card (set (children D h)) \<le> length (slots (nodes D))"
    by (metis card_image card_lessThan card_mono finite_lessThan)
  moreover have "length (slots (nodes D)) < 2 ^ 32" "distinct (children D h)"
    using ok by (simp_all add: tree_ok_def slab_inv_def)
  ultimately show ?thesis by (simp add: distinct_card)
qed

lemma cut_at_index:
  "distinct xs \<Longrightarrow> c \<in> set xs \<Longrightarrow> take (index_of c xs) xs @ drop (index_of c xs + 1) xs = without c xs"
proof -
  assume d: "distinct xs" "c \<in> set xs"
  then obtain ys zs where s: "xs = ys @ c # zs" by (meson split_list)
  with d have n: "c \<notin> set ys" "c \<notin> set zs" by auto
  have "takeWhile (\<lambda>y. y \<noteq> c) xs = ys" using s n by (auto simp: takeWhile_append takeWhile_eq_all_conv)
  then have "index_of c xs = length ys" by (simp add: index_of_def)
  moreover have "without c xs = without c ys @ without c zs" using s by (simp add: without_def)
  ultimately show ?thesis using s n by (simp add: without_id)
qed

lemma unat_index: "n < 2 ^ 32 \<Longrightarrow> unat (word_of_nat n :: 32 word) = n"
  by (simp add: unat_of_nat take_bit_nat_eq_self)

lemma replay_removal:
  assumes ok: "tree_ok D" and c: "contains D c" "c \<noteq> root D" and on: "log_on D"
  shows "replay (removal_notes D c) (children D) = (\<lambda>h. without c (children D h))"
proof -
  have own: "owner D c = parent D c" using c by (simp add: owner_def)
  have others: "without c (children D h) = children D h" if "h \<noteq> parent D c \<or> \<not> handle_bool (parent D c)" for h
  proof (rule without_id)
    show "c \<notin> set (children D h)"
    proof
      assume a: "c \<in> set (children D h)"
      then have "handle_bool h" by (rule in_children)
      with a ok have "owner D c = h" by (simp add: tree_ok_def)
      with that own \<open>handle_bool h\<close> show False by auto
    qed
  qed
  show ?thesis
  proof (cases "handle_bool (parent D c)")
    case True
    note par = parent_contains [OF ok c(1) True]
    let ?xs = "children D (parent D c)"
    have dist: "distinct ?xs" using ok by (simp add: tree_ok_def)
    have "index_of c ?xs < length ?xs" using par(2) by (simp add: index_of_less)
    then have "unat (word_of_nat (index_of c ?xs) :: 32 word) = index_of c ?xs"
      using children_bound [OF ok, of "parent D c"] by (intro unat_index) simp
    then have "replay (removal_notes D c) (children D) = (children D)(parent D c := without c ?xs)"
      using True par on cut_at_index [OF dist par(2)]
      by (simp add: replay_def removal_notes_def apply_note_def blank_note_def Let_def)
    with others show ?thesis by (auto simp: fun_eq_iff)
  next
    case False
    then have "removal_notes D c = []" by (simp add: removal_notes_def)
    with others False show ?thesis by (simp add: replay_def fun_eq_iff)
  qed
qed

lemma replay_insertion:
  assumes ok: "tree_ok D" and on: "log_on D" and i: "i \<le> length (without c (children D p))"
    and f: "f p = without c (children D p)"
  shows "replay (insertion_notes D p c i) f = f(p := insert_at i c (without c (children D p)))"
proof -
  have "length (without c (children D p)) \<le> length (children D p)" by (simp add: without_def)
  with i children_bound [OF ok, of p] have "unat (word_of_nat i :: 32 word) = i" by (intro unat_index) simp
  with on f show ?thesis by (simp add: replay_def insertion_notes_def apply_note_def blank_note_def)
qed

lemma moved_replay:
  assumes ok: "tree_ok D" and live: "contains D p" "contains D c" and c: "c \<noteq> root D" and on: "log_on D"
    and i: "i \<le> length (without c (children D p))"
    and m: "moved D c p (insert_at i c) (removal_notes D c @ insertion_notes D p c i) D'"
  shows "children D' = replay (drop (length (writes D)) (writes D')) (children D)"
proof -
  have w: "drop (length (writes D)) (writes D') = removal_notes D c @ insertion_notes D p c i"
    using m by (simp add: moved_def)
  have "replay (removal_notes D c @ insertion_notes D p c i) (children D)
    = replay (insertion_notes D p c i) (\<lambda>h. without c (children D h))"
    using replay_removal [OF ok live(2) c on] by (simp add: replay_def)
  also have "\<dots> = (\<lambda>h. without c (children D h))(p := insert_at i c (without c (children D p)))"
    using ok on i by (rule replay_insertion) simp
  also have "\<dots> = children D'" using moved_lists [OF ok live m] by (auto simp: fun_eq_iff)
  finally show ?thesis by (simp add: w)
qed

lemma index_of_le: "index_of x xs \<le> length xs"
  by (simp add: index_of_def length_takeWhile_le)

text \<open>C31. The write log says what a move did: a reader that replays the notes of an append, an insertion or
  a removal on the child lists as they were, each at the index it names, has the child lists as they are.\<close>

theorem log_replays:
  assumes ok: "tree_ok D" and on: "log_on D" and c: "c \<noteq> root D" "c \<noteq> document_node D"
    and r: "r = append_child p c D \<or> r = insert_before p c before D \<or> r = remove_child c D" and success: "r = Some (Inr D')"
  shows "children D' = replay (drop (length (writes D)) (writes D')) (children D)"
proof -
  consider (append) "append_child p c D = Some (Inr D')" | (insertion) "insert_before p c before D = Some (Inr D')"
    | (removal) "remove_child c D = Some (Inr D')" using r success by auto
  then show ?thesis
  proof cases
    case append
    from success_live(1) [OF append] have live: "contains D p" "contains D c"
      and no: "at_or_above D c p = Some False" "\<not> too_deep D p c" by simp_all
    with at_or_above_eq [OF ok live(2,1)] have above: "(c, p) \<notin> (parents D)\<^sup>*" by simp
    from append_child_moves [OF ok live c above no(2)] append
    have "moved D c p (insert_at (length (without c (children D p))) c)
      (removal_notes D c @ insertion_notes D p c (length (without c (children D p)))) D'" by (auto simp: Let_def)
    then show ?thesis by (rule moved_replay [OF ok live c(1) on order_refl])
  next
    case insertion
    from success_live(2) [OF insertion] have live: "contains D p" "contains D c"
      and no: "at_or_above D c p = Some False" "\<not> too_deep D p c" by simp_all
    with at_or_above_eq [OF ok live(2,1)] have above: "(c, p) \<notin> (parents D)\<^sup>*" by simp
    from insert_before_moves [OF ok live c above no(2), of before] insertion
    have "moved D c p (insert_at (insert_index D p c before) c)
      (removal_notes D c @ insertion_notes D p c (insert_index D p c before)) D'" by (auto simp: Let_def)
    then show ?thesis by (rule moved_replay [OF ok live c(1) on, rotated]) (simp add: insert_index_def index_of_le)
  next
    case removal
    then have live: "contains D c" by (auto simp: remove_child_def contains_def split: if_splits)
    from remove_child_moves [OF ok live c] removal have m: "moved D c null_id id (removal_notes D c) D'" by auto
    then have "children D' h = without c (children D h)" for h
      by (cases "find_node D h") (auto simp: moved_def children_def relocate_def without_def)
    then have "children D' = (\<lambda>h. without c (children D h))" by (simp add: fun_eq_iff)
    with replay_removal [OF ok live c(1) on] m show ?thesis by (simp add: moved_def)
  qed
qed

theorem log_replays_witness:
  "\<exists>D'. insert_before (node_at 1) (node_at 2) null_id two_elements = Some (Inr D')
    \<and> children D' = replay (writes D') (children two_elements)"
proof -
  obtain D' where D': "insert_before (node_at 1) (node_at 2) null_id two_elements = Some (Inr D')"
    using two_insert [of null_id] by blast
  have "children D' = replay (drop (length (writes two_elements)) (writes D')) (children two_elements)"
    by (rule log_replays [OF two_ok two_fields(4) _ _ disjI2 [OF disjI1 [OF refl]] D']) (simp_all add: two_fields)
  with D' show ?thesis by (simp add: two_fields)
qed

text \<open>Appending the document element elsewhere leaves it in the list of the Document node as well: it is in
  two child lists, and the document is no tree any more.\<close>

theorem root_in_two_lists:
  assumes ok: "tree_ok D" and r: "root D \<noteq> document_node D" "p \<noteq> document_node D"
    and success: "append_child p (root D) D = Some (Inr D')"
  shows "root D \<in> set (children D' p) \<and> root D \<in> set (children D' (document_node D)) \<and> \<not> tree_ok D'"
proof -
  from success_live(1) [OF success] have live: "contains D p" "contains D (root D)"
    and no: "at_or_above D (root D) p = Some False" "\<not> too_deep D p (root D)" by simp_all
  have par: "parent D (root D) = null_id" using ok by (simp add: tree_ok_def)
  then have "detach (root D) D = Some D"
    by (auto simp: detach_def parent_def split: option.splits)
  then have D': "D' = bump_version (note_edit Inserted p (root D)
      (length (children (edit_node (root D) (\<lambda>n. n\<lparr>n_parent := p\<rparr>) (edit_node p (\<lambda>n. n\<lparr>n_children := n_children n @ [root D]\<rparr>) D)) p) - 1)
      (edit_node (root D) (\<lambda>n. n\<lparr>n_parent := p\<rparr>) (edit_node p (\<lambda>n. n\<lparr>n_children := n_children n @ [root D]\<rparr>) D)))"
    using success no live by (simp add: append_child_def contains_def Let_def split: if_splits)
  have own: "owner D (root D) = document_node D" using r(1) live(2) by (simp add: owner_def)
  have "contains D (document_node D)" using ok by (simp add: tree_ok_def)
  then have mem: "root D \<in> set (children D (document_node D))"
    using ok live(2) own contains_bool by (simp add: tree_ok_def)
  have kids: "children D' h = (if h = p then children D p @ [root D] else children D h)" for h
    using live(1) by (cases "find_node D h") (auto simp: D' children_def dom contains_def)
  have frame: "root D' = root D" "parent D' (root D) = p"
    using live by (auto simp: D' dom parent_def contains_def)
  have "p \<noteq> null_id" using contains_bool [OF live(1)] by auto
  with frame have "\<not> tree_ok D'" by (auto simp: tree_ok_def)
  with mem kids r(2) show ?thesis by simp
qed

definition rooted :: document where
  "rooted = (case set_document_element (node_at 1) null_id two_elements of Some D \<Rightarrow> D | None \<Rightarrow> two_elements)"

lemma rooted_eq:
  "rooted = bump_version (note_edit Inserted (node_at 0) (node_at 1) 0
     (edit_node (node_at 0) (\<lambda>n. n\<lparr>n_children := [node_at 1]\<rparr>) (two_elements\<lparr>root := node_at 1\<rparr>)))"
proof -
  let ?D = "two_elements\<lparr>root := node_at 1\<rparr>"
  have f: "find_node ?D = find_node two_elements" by (rule find_nodes) simp
  have d: "find_node two_elements (node_at 0) = Some (new_node Document 0 Html False)"
    by (simp add: find_node_def slab_lookup_def slab_get_def two_fields handle_bool_def)
  have "detach (node_at 1) ?D = Some ?D" by (simp add: detach_def f two_find)
  moreover have "children ?D (node_at 0) = []" by (simp add: children_def f d)
  ultimately show ?thesis
    by (simp add: rooted_def set_document_element_def Let_def two_fields f d two_find without_def index_of_def insert_at_def)
qed

lemma rooted_ok: "tree_ok rooted" "root rooted = node_at 1" "document_node rooted = node_at 0"
proof -
  have "contains two_elements (node_at 1)" "node_at 1 \<noteq> document_node two_elements"
    by (simp_all add: contains_def two_find two_fields)
  then obtain D' where D': "set_document_element (node_at 1) null_id two_elements = Some D'" "tree_ok D'" "root D' = node_at 1"
    "document_node D' = document_node two_elements" by (rule set_document_element_ok [OF two_ok]) blast
  then have "rooted = D'" by (simp add: rooted_def)
  with D' show "tree_ok rooted" "root rooted = node_at 1" "document_node rooted = node_at 0" by (simp_all add: two_fields)
qed

lemma rooted_find:
  "find_node rooted (node_at 1) = Some (new_node Element 1 Html False)"
  "find_node rooted (node_at 2) = Some (new_node Element 1 Html False)"
proof -
  have f: "find_node (two_elements\<lparr>root := r\<rparr>) = find_node two_elements" for r by (rule find_nodes) simp
  show "find_node rooted (node_at 1) = Some (new_node Element 1 Html False)"
    "find_node rooted (node_at 2) = Some (new_node Element 1 Html False)"
    by (simp_all add: rooted_eq dom f two_find)
qed

theorem root_in_two_lists_witness:
  "\<exists>D'. append_child (node_at 2) (node_at 1) rooted = Some (Inr D')
    \<and> node_at 1 \<in> set (children D' (node_at 2)) \<and> node_at 1 \<in> set (children D' (node_at 0))"
proof -
  have live: "contains rooted (node_at 1)" "contains rooted (node_at 2)" by (simp_all add: contains_def rooted_find)
  have "\<not> handle_bool (parent rooted (node_at 2))" by (simp add: parent_def rooted_find)
  then have "(node_at 1, node_at 2) \<notin> (parents rooted)\<^sup>*"
    using above_step [of "node_at 2" "node_at 1" rooted] live(2) by simp
  then have walk: "at_or_above rooted (node_at 1) (node_at 2) = Some False"
    using at_or_above_eq [OF rooted_ok(1) live] by simp
  have "node_below rooted (node_at 1) = []" "up rooted (node_at 2) = null_id"
    by (simp_all add: node_below_def up_def rooted_find rooted_ok shadow_root_of_def template_content_def)
      (simp_all add: rooted_eq dom two_fields note_edit_def new_node_def)
  then have "\<not> too_deep rooted (node_at 2) (node_at 1)"
    by (simp add: too_deep_def depth_def height_def height_loop.simps(2) max_dom_depth_def)
  moreover have "detach (node_at 1) rooted = Some rooted" by (simp add: detach_def rooted_find)
  ultimately obtain D' where D': "append_child (node_at 2) (node_at 1) rooted = Some (Inr D')"
    using walk live by (simp add: append_child_def contains_def Let_def)
  have "append_child (node_at 2) (root rooted) rooted = Some (Inr D')" using D' rooted_ok(2) by simp
  from root_in_two_lists [OF rooted_ok(1) _ _ this] D' rooted_ok show ?thesis by auto
qed

end
