(* ===== verification/Dom_Element.thy ===== *)
theory Dom_Element
  imports Dom_Write Dom_Tree
begin

text \<open>
  The element API over the document's attributes: \<^verbatim>\<open>lib/DOM/element.cpp\<close> (named attributes with the case
  folding of HTML), \<^verbatim>\<open>lib/DOM/token_list.cpp\<close> (\<^verbatim>\<open>DOMTokenList\<close>, the ordered set of tokens kept in an
  attribute) and \<^verbatim>\<open>lib/DOM/dataset.cpp\<close> (\<^verbatim>\<open>data-*\<close> attributes and their property names). An operation that
  interns a name or writes returns the document afterwards; a nested \<^verbatim>\<open>std::expected\<close> is a nested sum.
\<close>

section \<open>Named attributes\<close>

text \<open>A borrowed element: \<open>None\<close> is the null owner.\<close>

definition validate_element :: "document option \<Rightarrow> node_id \<Rightarrow> dom_error + unit" where
  "validate_element owner_doc h =
     (case owner_doc of
        None \<Rightarrow> Inl No_such_node
      | Some D \<Rightarrow> (case kind D h of
            Inl e \<Rightarrow> Inl e
          | Inr k \<Rightarrow> if k \<noteq> Element then Inl Not_an_element else Inr ()))"

definition is_valid_attribute_name :: "string \<Rightarrow> bool" where
  "is_valid_attribute_name nm \<longleftrightarrow> nm \<noteq> []
     \<and> (\<forall>c \<in> set nm. c \<notin> {chr 9, chr 10, chr 12, chr 13, CHR '' '', CHR ''/'', CHR ''='', CHR ''>''})
     \<and> chr 0 \<notin> set nm"

definition attribute_key :: "node_id \<Rightarrow> string \<Rightarrow> document \<Rightarrow> document \<times> nat" where
  "attribute_key h qualified D =
     (let folds = (element_ns D h = Html \<and> \<not> xml D);
          (t, a) = (if folds then intern_lower (atoms D) qualified else intern (atoms D) qualified)
      in (D\<lparr>atoms := t\<rparr>, a))"

definition get_element_attribute :: "node_id \<Rightarrow> string \<Rightarrow> document \<Rightarrow> document \<times> string option" where
  "get_element_attribute h nm D =
     (let (D, key) = attribute_key h nm D in (D, map_option a_value (find_attribute D h key)))"

definition set_element_attribute :: "node_id \<Rightarrow> string \<Rightarrow> string \<Rightarrow> document \<Rightarrow> dom_error + document" where
  "set_element_attribute h nm v D =
     (if \<not> is_valid_attribute_name nm then Inl Invalid_attribute_name
      else let (D, key) = attribute_key h nm D in set_attribute h key v D)"

record attribute_toggle_result =
  at_present :: bool
  at_update :: "dom_error + bool"

definition toggle_element_attribute ::
    "node_id \<Rightarrow> string \<Rightarrow> bool option \<Rightarrow> document \<Rightarrow> (dom_error + attribute_toggle_result) \<times> document" where
  "toggle_element_attribute h nm force D =
     (if \<not> is_valid_attribute_name nm then (Inl Invalid_attribute_name, D)
      else let (D, key) = attribute_key h nm D;
               present = has_attribute D h key;
               want = (case force of None \<Rightarrow> \<not> present | Some b \<Rightarrow> b)
        in if want = present then (Inr \<lparr>at_present = present, at_update = Inr False\<rparr>, D)
           else case (if want then set_attribute h key [] D else remove_attribute h key D) of
               Inl e \<Rightarrow> (Inr \<lparr>at_present = want, at_update = Inl e\<rparr>, D)
             | Inr D \<Rightarrow> (Inr \<lparr>at_present = want, at_update = Inr True\<rparr>, D))"

section \<open>Token lists\<close>

datatype token_error = Empty | Whitespace

abbreviation ws :: "char \<Rightarrow> bool" where
  "ws c \<equiv> c \<in> set html_whitespace"

lemma token_progress:
  assumes "dropWhile ws s \<noteq> []"
  shows "length (dropWhile ws s) - length (takeWhile (\<lambda>c. \<not> ws c) (dropWhile ws s)) < length s"
proof -
  obtain a r where r: "dropWhile ws s = a # r" using assms by (cases "dropWhile ws s") auto
  then have "\<not> ws a" using hd_dropWhile [of ws s] by simp
  moreover have "length (a # r) \<le> length s" using length_dropWhile_le [of ws s] r by simp
  ultimately show ?thesis by (simp add: r less_le_trans)
qed

function token_loop :: "string \<Rightarrow> string list \<Rightarrow> string list" where
  "token_loop text out =
     (let rest = dropWhile ws text in
      if rest = [] then out
      else let token = takeWhile (\<lambda>c. \<not> ws c) rest
        in token_loop (drop (length token) rest) (if token \<in> set out then out else out @ [token]))"
  by pat_completeness auto
termination
  by (relation "measure (\<lambda>(s, out). length s)") (auto simp: token_progress)

declare token_loop.simps [simp del]

definition parse_ordered_tokens :: "string \<Rightarrow> string list" where
  "parse_ordered_tokens text = token_loop text []"

definition validate_token :: "string \<Rightarrow> token_error option" where
  "validate_token token =
     (if token = [] then Some Empty
      else if \<exists>c \<in> set token. ws c then Some Whitespace
      else None)"

definition join_tokens :: "string list \<Rightarrow> string" where
  "join_tokens tokens = foldl (\<lambda>text token. (if text \<noteq> [] then text @ '' '' else text) @ token) [] tokens"

definition update_tokens :: "node_id \<Rightarrow> nat \<Rightarrow> string list \<Rightarrow> document \<Rightarrow> (dom_error + bool) \<times> document" where
  "update_tokens h name tokens D =
     (if tokens = [] \<and> \<not> has_attribute D h name then (Inr False, D)
      else case set_attribute h name (join_tokens tokens) D of
          Inl e \<Rightarrow> (Inl e, D)
        | Inr D' \<Rightarrow> (Inr True, D'))"

definition contains_token :: "string \<Rightarrow> string \<Rightarrow> bool" where
  "contains_token attribute_text token \<longleftrightarrow> token \<in> set (parse_ordered_tokens attribute_text)"

fun first_fault :: "nat \<Rightarrow> string list \<Rightarrow> (nat \<times> token_error) option" where
  "first_fault i [] = None"
| "first_fault i (t # ts) = (case validate_token t of Some e \<Rightarrow> Some (i, e) | None \<Rightarrow> first_fault (i + 1) ts)"

definition change_token :: "bool \<Rightarrow> string list \<Rightarrow> string \<Rightarrow> string list" where
  "change_token add tokens token =
     (if add then if token \<in> set tokens then tokens else tokens @ [token]
      else filter (\<lambda>t. t \<noteq> token) tokens)"

definition change_tokens ::
    "node_id \<Rightarrow> nat \<Rightarrow> string list \<Rightarrow> bool \<Rightarrow> document \<Rightarrow> ((nat \<times> token_error) + (dom_error + bool)) \<times> document" where
  "change_tokens h name given add D =
     (case first_fault 0 given of
        Some fault \<Rightarrow> (Inl fault, D)
      | None \<Rightarrow>
          let tokens = foldl (change_token add) (parse_ordered_tokens (attribute_value D h name)) given;
              (r, D) = update_tokens h name tokens D
          in (Inr r, D))"

definition add_tokens :: "node_id \<Rightarrow> nat \<Rightarrow> string list \<Rightarrow> document \<Rightarrow> ((nat \<times> token_error) + (dom_error + bool)) \<times> document" where
  "add_tokens h name tokens D = change_tokens h name tokens True D"

definition remove_tokens :: "node_id \<Rightarrow> nat \<Rightarrow> string list \<Rightarrow> document \<Rightarrow> ((nat \<times> token_error) + (dom_error + bool)) \<times> document" where
  "remove_tokens h name tokens D = change_tokens h name tokens False D"

record token_toggle_result =
  tt_present :: bool
  tt_update :: "dom_error + bool"

definition toggle_token ::
    "node_id \<Rightarrow> nat \<Rightarrow> string \<Rightarrow> bool option \<Rightarrow> document \<Rightarrow> (token_error + token_toggle_result) \<times> document" where
  "toggle_token h name token force D =
     (case validate_token token of
        Some e \<Rightarrow> (Inl e, D)
      | None \<Rightarrow>
          let tokens = parse_ordered_tokens (attribute_value D h name);
              present = (token \<in> set tokens)
          in if force = Some present then (Inr \<lparr>tt_present = present, tt_update = Inr False\<rparr>, D)
             else let tokens = (if present then filter (\<lambda>t. t \<noteq> token) tokens else tokens @ [token]);
                      (r, D) = update_tokens h name tokens D
               in (Inr \<lparr>tt_present = \<not> present, tt_update = r\<rparr>, D))"

section \<open>Dataset names\<close>

abbreviation upper :: "char \<Rightarrow> bool" where
  "upper c \<equiv> between (CHR ''A'') c (CHR ''Z'')"

abbreviation lower :: "char \<Rightarrow> bool" where
  "lower c \<equiv> between (CHR ''a'') c (CHR ''z'')"

fun dataset_rest :: "string \<Rightarrow> string option" where
  "dataset_rest [] = Some []"
| "dataset_rest (c # cs) =
     (if upper c then None
      else case cs of
          [] \<Rightarrow> Some [c]
        | d # ds \<Rightarrow>
            if c = CHR ''-'' \<and> lower d then map_option (Cons (ascii_upper d)) (dataset_rest ds)
            else map_option (Cons c) (dataset_rest cs))"

definition dataset_name_of :: "string \<Rightarrow> string option" where
  "dataset_name_of attribute_name =
     (if take 5 attribute_name \<noteq> ''data-'' then None else dataset_rest (drop 5 attribute_name))"

datatype dataset_fault = No_fault | Syntax_fault | Character_fault

text \<open>The loop of \<^verbatim>\<open>dataset_attribute_of\<close>: whether it ends without a fault, and what it has written.\<close>

fun dataset_dashed :: "string \<Rightarrow> bool \<times> string" where
  "dataset_dashed [] = (True, [])"
| "dataset_dashed (c # cs) =
     (if c = CHR ''-'' \<and> cs \<noteq> [] \<and> lower (hd cs) then (False, [])
      else let (ok, s) = dataset_dashed cs in (ok, (if upper c then [CHR ''-'', ascii_lower c] else [c]) @ s))"

definition dataset_attribute_of :: "string \<Rightarrow> dataset_fault \<times> string" where
  "dataset_attribute_of idl =
     (let (ok, s) = dataset_dashed idl; out = ''data-'' @ s in
      (if \<not> ok then Syntax_fault else if is_valid_attribute_name out then No_fault else Character_fault, out))"

definition dataset_value :: "document \<Rightarrow> node_id \<Rightarrow> string \<Rightarrow> string option" where
  "dataset_value D h key =
     map_option a_value (find (\<lambda>a. a_ns a = 0 \<and> dataset_name_of (atom_text (atoms D) (a_name a)) = Some key) (attributes D h))"

fun dataset_pairs :: "atom_table \<Rightarrow> attribute list \<Rightarrow> (string \<times> string) list" where
  "dataset_pairs t [] = []"
| "dataset_pairs t (a # as) =
     (case (if a_ns a \<noteq> 0 then None else dataset_name_of (atom_text t (a_name a))) of
        None \<Rightarrow> dataset_pairs t as
      | Some nm \<Rightarrow> (nm, a_value a) # dataset_pairs t as)"

definition dataset_entries :: "document \<Rightarrow> node_id \<Rightarrow> (string \<times> string) list" where
  "dataset_entries D h = dataset_pairs (atoms D) (attributes D h)"

section \<open>Reading back an attribute\<close>

lemma put_attribute_find:
  "find (\<lambda>a. a_name a = k) (put_attribute (\<lambda>a. a_name a = k) \<lparr>a_name = k, a_ns = n, a_value = v\<rparr> as)
     = Some (case find (\<lambda>a. a_name a = k) as of None \<Rightarrow> \<lparr>a_name = k, a_ns = n, a_value = v\<rparr> | Some a \<Rightarrow> a\<lparr>a_value := v\<rparr>)"
  by (induction as) (auto simp: put_attribute_def split: option.splits)

lemma set_attribute_reads:
  assumes "set_attribute h k v D = Inr D'"
  shows "find_attribute D' h k
      = Some (case find_attribute D h k of None \<Rightarrow> \<lparr>a_name = k, a_ns = 0, a_value = v\<rparr> | Some a \<Rightarrow> a\<lparr>a_value := v\<rparr>)"
    "attribute_value D' h k = v" "atoms D' = atoms D" "element_ns D' h = element_ns D h" "xml D' = xml D"
proof -
  obtain n where n: "find_node D h = Some n" using assms by (auto simp: set_attribute_def split: option.splits)
  define new where "new = \<lparr>a_name = k, a_ns = 0, a_value = v\<rparr>"
  define E where "E = edit_node h (\<lambda>n. n\<lparr>n_attributes := put_attribute (\<lambda>a. a_name a = k) new (n_attributes n)\<rparr>) D"
  obtain b where D': "D' = note_write h k False b False (bump_version (forget_parser_form h k (update_pi_data h E)))"
    using assms n by (auto simp: set_attribute_def Let_def new_def E_def split: if_splits)
  have keep: "find_node (note_write h k False b False (bump_version (forget_parser_form h k F))) x = find_node F x"
    "atoms (note_write h k False b False (bump_version (forget_parser_form h k F))) = atoms F"
    "xml (note_write h k False b False (bump_version (forget_parser_form h k F))) = xml F" for F x
    by (simp_all add: note_write_def forget_parser_form_def dom find_node_def log_note_def bump_version_def split: option.split)
  have E: "find_node E h = Some (n\<lparr>n_attributes := put_attribute (\<lambda>a. a_name a = k) new (n_attributes n)\<rparr>)" "atoms E = atoms D" "xml E = xml D"
    using n by (simp_all add: E_def dom) (simp add: edit_node_def)
  have x: "xml (edit_node h f F) = xml F" "xml (log_note w F) = xml F" for f w F
    by (simp_all add: edit_node_def log_note_def split: option.split)
  have "\<exists>m. find_node (update_pi_data h E) h = Some m
      \<and> n_attributes m = put_attribute (\<lambda>a. a_name a = k) new (n_attributes n) \<and> n_ns m = n_ns n"
    using E by (cases "n_kind n = Processing_instruction") (simp_all add: update_pi_data_def note_write_def dom)
  then obtain m where m: "find_node (update_pi_data h E) h = Some m" "n_ns m = n_ns n"
      "n_attributes m = put_attribute (\<lambda>a. a_name a = k) new (n_attributes n)" by blast
  have m': "atoms (update_pi_data h E) = atoms D" "xml (update_pi_data h E) = xml D"
    using E by (simp_all add: update_pi_data_def note_write_def dom x split: option.split)
  show f: "find_attribute D' h k
      = Some (case find_attribute D h k of None \<Rightarrow> \<lparr>a_name = k, a_ns = 0, a_value = v\<rparr> | Some a \<Rightarrow> a\<lparr>a_value := v\<rparr>)"
    by (simp add: find_attribute_def attributes_def D' keep m n new_def put_attribute_find)
  then show "attribute_value D' h k = v" by (simp add: attribute_value_def split: option.split)
  show "atoms D' = atoms D" "xml D' = xml D" "element_ns D' h = element_ns D h"
    by (simp_all add: D' keep m m' n element_ns_def)
qed

section \<open>Token lists are ordered sets\<close>

definition plain_tokens :: "string list \<Rightarrow> bool" where
  "plain_tokens ts \<longleftrightarrow> distinct ts \<and> (\<forall>t \<in> set ts. validate_token t = None)"

lemma valid_token: "validate_token t = None \<longleftrightarrow> t \<noteq> [] \<and> (\<forall>c \<in> set t. \<not> ws c)"
  by (auto simp: validate_token_def)

lemma token_loop_plain: "plain_tokens out \<Longrightarrow> plain_tokens (token_loop s out)"
proof (induction s out rule: token_loop.induct)
  case (1 s out)
  define rest where "rest = dropWhile ws s"
  show ?case
  proof (cases "rest = []")
    case True
    then show ?thesis using 1(2) by (subst token_loop.simps) (simp add: rest_def)
  next
    case False
    define tok where "tok = takeWhile (\<lambda>c. \<not> ws c) rest"
    have "validate_token tok = None"
      using False hd_dropWhile [of ws s] by (auto simp: valid_token tok_def rest_def takeWhile_eq_Nil_iff dest: set_takeWhileD)
    with 1(2) have "plain_tokens (if tok \<in> set out then out else out @ [tok])" by (auto simp: plain_tokens_def)
    from 1(1) [OF rest_def False tok_def this] show ?thesis
      by (subst token_loop.simps) (simp add: rest_def [symmetric] tok_def [symmetric] False)
  qed
qed

lemma parse_plain: "plain_tokens (parse_ordered_tokens s)"
  unfolding parse_ordered_tokens_def by (rule token_loop_plain) (simp add: plain_tokens_def)

lemma join_tokens_snoc: "join_tokens (ts @ [t]) = (if join_tokens ts \<noteq> [] then join_tokens ts @ '' '' else []) @ t"
  by (simp add: join_tokens_def)

lemma join_tokens_Cons: "t \<noteq> [] \<Longrightarrow> join_tokens (t # ts) = t @ concat (map (\<lambda>u. '' '' @ u) ts)"
proof (induction ts rule: rev_induct)
  case Nil
  then show ?case by (simp add: join_tokens_def)
next
  case (snoc u ts)
  then have "join_tokens ((t # ts) @ [u]) = (join_tokens (t # ts) @ '' '') @ u"
    by (subst join_tokens_snoc) simp
  with snoc show ?case by simp
qed

lemma token_loop_spaced:
  "plain_tokens (out @ ts) \<Longrightarrow> token_loop (concat (map (\<lambda>u. '' '' @ u) ts)) out = out @ ts"
proof (induction ts arbitrary: out)
  case Nil
  then show ?case by (subst token_loop.simps) simp
next
  case (Cons t ts)
  have t: "t \<noteq> []" "\<forall>c \<in> set t. \<not> ws c" "t \<notin> set out"
    using Cons.prems by (auto simp: plain_tokens_def valid_token)
  define more where "more = concat (map (\<lambda>u. '' '' @ u) ts)"
  have m: "more = [] \<or> hd more = CHR '' ''" by (cases ts) (simp_all add: more_def)
  have w: "ws (CHR '' '')" by (simp add: html_whitespace_def)
  have rest: "dropWhile ws ('' '' @ t @ more) = t @ more"
    using t w by (cases t) simp_all
  have tok: "takeWhile (\<lambda>c. \<not> ws c) (t @ more) = t"
    using t m w by (cases more) (simp_all add: takeWhile_append2)
  have "token_loop ('' '' @ t @ more) out = token_loop more (out @ [t])"
    using t by (subst token_loop.simps) (simp only: rest Let_def tok, simp)
  also have "\<dots> = (out @ [t]) @ ts"
    unfolding more_def by (rule Cons.IH) (use Cons.prems in simp)
  finally show ?case by (simp add: more_def)
qed

lemma parse_join: "plain_tokens ts \<Longrightarrow> parse_ordered_tokens (join_tokens ts) = ts"
proof (cases ts)
  case Nil
  then show ?thesis by (simp add: join_tokens_def parse_ordered_tokens_def token_loop.simps)
next
  case (Cons t us)
  assume p: "plain_tokens ts"
  then have "t \<noteq> []" by (simp add: Cons plain_tokens_def valid_token)
  then have "join_tokens ts = t @ concat (map (\<lambda>u. '' '' @ u) us)" by (simp add: Cons join_tokens_Cons)
  moreover have "dropWhile ws (t @ r) = t @ r" for r
    using p \<open>t \<noteq> []\<close> by (cases t) (simp_all add: Cons plain_tokens_def valid_token)
  then have "token_loop (t @ concat (map (\<lambda>u. '' '' @ u) us)) [] = token_loop ('' '' @ t @ concat (map (\<lambda>u. '' '' @ u) us)) []"
    by (subst (1 2) token_loop.simps) (simp add: html_whitespace_def)
  ultimately show ?thesis
    using token_loop_spaced [of "[]" ts] p by (simp add: Cons parse_ordered_tokens_def)
qed

lemma parsed: "t \<in> set (parse_ordered_tokens s) \<Longrightarrow> validate_token t = None"
  using parse_plain [of s] by (simp add: plain_tokens_def)

lemma update_tokens_reads:
  assumes "update_tokens h k ts D = (Inr changed, D')" "plain_tokens ts"
  shows "parse_ordered_tokens (attribute_value D' h k) = ts" "\<not> changed \<Longrightarrow> D' = D"
proof -
  show "\<not> changed \<Longrightarrow> D' = D" using assms(1) by (auto simp: update_tokens_def split: if_splits sum.splits)
  show "parse_ordered_tokens (attribute_value D' h k) = ts"
  proof (cases "ts = [] \<and> \<not> has_attribute D h k")
    case True
    then have "attribute_value D h k = []" by (simp add: has_attribute_def attribute_value_def)
    with True assms(1) show ?thesis
      by (simp add: update_tokens_def parse_ordered_tokens_def token_loop.simps)
  next
    case False
    with assms(1) have "set_attribute h k (join_tokens ts) D = Inr D'"
      by (auto simp: update_tokens_def split: sum.splits)
    then show ?thesis using set_attribute_reads(2) parse_join [OF assms(2)] by simp
  qed
qed

lemma set_attribute_version:
  assumes "set_attribute h k v D = Inr D'"
  shows "version D' = version D + 1"
proof -
  have n: "version (note_write i a b c d F) = version F" for i a b c d F
    by (simp add: note_write_def log_note_def split: option.split)
  have e: "version (edit_node i f F) = version F" for i f F
    by (simp add: edit_node_def split: option.split)
  have g: "version (forget_parser_form i a F) = version F" for i a F
    by (simp add: forget_parser_form_def split: option.split)
  have u: "version (update_pi_data i F) = version F" for i F
    by (simp add: update_pi_data_def e n Let_def split: option.split)
  have b: "version (bump_version F) = version F + 1" for F
    by (simp add: bump_version_def)
  obtain x where x: "find_node D h = Some x" using assms by (auto simp: set_attribute_def split: option.splits)
  obtain y z where "D' = note_write h k False z False (bump_version (forget_parser_form h k (update_pi_data h (edit_node h y D))))"
    using assms unfolding set_attribute_def x option.case Let_def by (auto split: if_splits)
  then show ?thesis by (simp only: n b g u e)
qed

text \<open>What the update steps do: nothing at all when the attribute is absent and the set empty, else the
  attribute is rewritten, even with the text it had.\<close>

lemma update_tokens_writes:
  assumes "update_tokens h k ts D = (Inr changed, D')"
  shows "changed = (length ts > 0 \<or> has_attribute D h k)"
    "if changed then version D' = version D + 1 \<and> has_attribute D' h k \<and> attribute_value D' h k = join_tokens ts else D' = D"
  using assms set_attribute_reads(1,2) set_attribute_version
  by (auto simp: update_tokens_def has_attribute_def split: if_splits sum.splits)

lemma update_tokens_fails:
  "update_tokens h k ts D = (Inl e, D') \<Longrightarrow> D' = D \<and> set_attribute h k (join_tokens ts) D = Inl e"
  by (auto simp: update_tokens_def split: if_splits sum.splits)

lemma set_attribute_fails: "set_attribute h k v D = Inl e \<Longrightarrow> kind D h \<notin> {Inr Element, Inr Processing_instruction}"
  by (auto simp: set_attribute_def kind_def split: option.splits if_splits)

lemma first_fault_Some:
  "first_fault i ts = Some (j, e) \<Longrightarrow> i \<le> j \<and> j - i < length ts \<and> validate_token (ts ! (j - i)) = Some e
     \<and> (\<forall>l < j - i. validate_token (ts ! l) = None)"
proof (induction ts arbitrary: i)
  case Nil
  then show ?case by simp
next
  case (Cons t ts)
  show ?case
  proof (cases "validate_token t")
    case None
    with Cons.prems have "first_fault (i + 1) ts = Some (j, e)" by simp
    note ih = Cons.IH [OF this]
    then obtain m where "j = i + 1 + m" using le_Suc_ex [of "i + 1" j] by blast
    with ih None show ?thesis by (auto simp: nth_Cons' less_Suc_eq_0_disj)
  qed (use Cons.prems in simp)
qed

lemma first_fault_None: "first_fault i ts = None \<longleftrightarrow> (\<forall>t \<in> set ts. validate_token t = None)"
  by (induction ts arbitrary: i) (auto split: option.splits)

lemma change_tokens_fold:
  assumes "plain_tokens old" "\<forall>t \<in> set given. validate_token t = None"
  shows "plain_tokens (foldl (change_token add) old given)
    \<and> (if add then \<exists>more. foldl (change_token add) old given = old @ more \<and> set more = set given - set old
       else foldl (change_token add) old given = filter (\<lambda>t. t \<notin> set given) old)"
  using assms
proof (induction given rule: rev_induct)
  case Nil
  then show ?case by simp
next
  case (snoc t given)
  define r where "r = foldl (change_token add) old given"
  have ih: "plain_tokens r" "if add then \<exists>more. r = old @ more \<and> set more = set given - set old else r = filter (\<lambda>t. t \<notin> set given) old"
    using snoc unfolding r_def by fastforce+
  have "plain_tokens (change_token add r t)"
    using ih(1) snoc.prems(2) by (auto simp: plain_tokens_def change_token_def)
  moreover have "if add then \<exists>more. change_token add r t = old @ more \<and> set more = set (given @ [t]) - set old
      else change_token add r t = filter (\<lambda>u. u \<notin> set (given @ [t])) old"
  proof (cases add)
    case True
    with ih(2) obtain more where "r = old @ more" "set more = set given - set old" by auto
    with True show ?thesis by (cases "t \<in> set r") (auto simp: change_token_def)
  next
    case False
    with ih(2) show ?thesis by (auto simp: change_token_def intro: filter_cong)
  qed
  ultimately show ?case unfolding r_def by (cases add) simp_all
qed

text \<open>C19. A token list is the ordered set its attribute parses to, whatever the attribute's text: adding appends
  the given tokens that are new, removing takes the given ones out and keeps the order of the rest, toggling
  takes the token out or appends it, or does neither when the forced answer is the one it has; reading the
  attribute back gives exactly that list. The first bad argument is the one reported and a refused change
  leaves the document as it was. The update steps write nothing exactly when the attribute is absent and the
  set is empty, or when a toggle is forced to what it has: then the document is unchanged; in every other
  case the attribute is there afterwards, holds the tokens joined by single spaces and the version of the
  document is one higher, even when the list is the one it was.\<close>

theorem token_list_answers:
  "(case change_tokens h k given add D of
      (Inl (i, e), D') \<Rightarrow> D' = D \<and> i < length given \<and> validate_token (given ! i) = Some e
        \<and> list_all (\<lambda>t. validate_token t = None) (take i given)
    | (Inr (Inl e), D') \<Rightarrow> D' = D \<and> kind D h \<notin> {Inr Element, Inr Processing_instruction}
    | (Inr (Inr changed), D') \<Rightarrow>
        (let old = parse_ordered_tokens (attribute_value D h k); new = parse_ordered_tokens (attribute_value D' h k)
         in (if add then \<exists>more. new = old @ more \<and> distinct new \<and> set more = set given - set old
             else new = filter (\<lambda>t. t \<notin> set given) old)
            \<and> changed = (length new > 0 \<or> has_attribute D h k)
            \<and> (if changed then version D' = version D + 1 \<and> has_attribute D' h k \<and> attribute_value D' h k = join_tokens new
                else D' = D)))
   \<and> (case toggle_token h k token force D of
      (Inl e, D') \<Rightarrow> D' = D \<and> validate_token token = Some e
    | (Inr r, D') \<Rightarrow>
        let old = parse_ordered_tokens (attribute_value D h k); there = (token \<in> set old); idle = (force = Some there);
            new = (if idle then old else if there then filter (\<lambda>t. t \<noteq> token) old else old @ [token])
        in tt_present r = (case force of None \<Rightarrow> \<not> there | Some b \<Rightarrow> b)
        \<and> (case tt_update r of
             Inl e \<Rightarrow> D' = D \<and> kind D h \<notin> {Inr Element, Inr Processing_instruction}
           | Inr changed \<Rightarrow> parse_ordered_tokens (attribute_value D' h k) = new
               \<and> changed = (\<not> idle)
               \<and> (if changed then version D' = version D + 1 \<and> has_attribute D' h k \<and> attribute_value D' h k = join_tokens new
                   else D' = D)))"
proof (intro conjI)
  define old where "old = parse_ordered_tokens (attribute_value D h k)"
  have old: "plain_tokens old" unfolding old_def by (rule parse_plain)
  show "case change_tokens h k given add D of
      (Inl (i, e), D') \<Rightarrow> D' = D \<and> i < length given \<and> validate_token (given ! i) = Some e
        \<and> list_all (\<lambda>t. validate_token t = None) (take i given)
    | (Inr (Inl e), D') \<Rightarrow> D' = D \<and> kind D h \<notin> {Inr Element, Inr Processing_instruction}
    | (Inr (Inr changed), D') \<Rightarrow>
        (let old = parse_ordered_tokens (attribute_value D h k); new = parse_ordered_tokens (attribute_value D' h k)
         in (if add then \<exists>more. new = old @ more \<and> distinct new \<and> set more = set given - set old
             else new = filter (\<lambda>t. t \<notin> set given) old)
            \<and> changed = (length new > 0 \<or> has_attribute D h k)
            \<and> (if changed then version D' = version D + 1 \<and> has_attribute D' h k \<and> attribute_value D' h k = join_tokens new
                else D' = D))"
  proof (cases "first_fault 0 given")
    case (Some f)
    then show ?thesis
      using first_fault_Some [of 0 given "fst f" "snd f"] by (cases f) (simp add: change_tokens_def list_all_length)
  next
    case None
    then have valid: "\<forall>t \<in> set given. validate_token t = None" by (simp add: first_fault_None)
    define new where "new = foldl (change_token add) old given"
    note fold = change_tokens_fold [OF old valid, of add, folded new_def]
    have new: "plain_tokens new"
      "if add then \<exists>more. new = old @ more \<and> set more = set given - set old else new = filter (\<lambda>t. t \<notin> set given) old"
      by (rule conjunct1 [OF fold], rule conjunct2 [OF fold])
    obtain r D' where r: "update_tokens h k new D = (r, D')" by (cases "update_tokens h k new D")
    then have eq: "change_tokens h k given add D = (Inr r, D')"
      using None by (simp add: change_tokens_def old_def [symmetric] new_def [symmetric])
    show ?thesis
    proof (cases r)
      case (Inl e)
      with update_tokens_fails [of h k new D e D'] r set_attribute_fails eq show ?thesis by auto
    next
      case (Inr changed)
      have r: "update_tokens h k new D = (Inr changed, D')" using r Inr by simp
      have "distinct new" using new(1) by (simp add: plain_tokens_def)
      with new(2) have "if add then \<exists>more. new = old @ more \<and> distinct new \<and> set more = set given - set old
          else new = filter (\<lambda>t. t \<notin> set given) old" by (cases add) simp_all
      then show ?thesis
        unfolding eq Inr prod.case sum.case Let_def update_tokens_reads(1) [OF r new(1)] old_def [symmetric]
        by (intro conjI update_tokens_writes [OF r])
    qed
  qed
  show "case toggle_token h k token force D of
      (Inl e, D') \<Rightarrow> D' = D \<and> validate_token token = Some e
    | (Inr r, D') \<Rightarrow>
        let old = parse_ordered_tokens (attribute_value D h k); there = (token \<in> set old); idle = (force = Some there);
            new = (if idle then old else if there then filter (\<lambda>t. t \<noteq> token) old else old @ [token])
        in tt_present r = (case force of None \<Rightarrow> \<not> there | Some b \<Rightarrow> b)
        \<and> (case tt_update r of
             Inl e \<Rightarrow> D' = D \<and> kind D h \<notin> {Inr Element, Inr Processing_instruction}
           | Inr changed \<Rightarrow> parse_ordered_tokens (attribute_value D' h k) = new
               \<and> changed = (\<not> idle)
               \<and> (if changed then version D' = version D + 1 \<and> has_attribute D' h k \<and> attribute_value D' h k = join_tokens new
                   else D' = D))"
  proof (cases "validate_token token")
    case (Some e)
    then show ?thesis by (simp add: toggle_token_def)
  next
    case None
    define there where "there \<longleftrightarrow> token \<in> set old"
    show ?thesis
    proof (cases "force = Some there")
      case True
      then show ?thesis
        using None by (simp add: toggle_token_def old_def [symmetric] there_def [symmetric] Let_def)
    next
      case False
      define new where "new = (if there then filter (\<lambda>t. t \<noteq> token) old else old @ [token])"
      have new: "plain_tokens new"
        using old None by (auto simp: new_def plain_tokens_def there_def)
      obtain r D' where r: "update_tokens h k new D = (r, D')" by (cases "update_tokens h k new D")
      then have eq: "toggle_token h k token force D = (Inr \<lparr>tt_present = \<not> there, tt_update = r\<rparr>, D')"
        using None False by (simp add: toggle_token_def old_def [symmetric] there_def [symmetric] new_def [symmetric])
      have p: "(case force of None \<Rightarrow> token \<notin> set old | Some b \<Rightarrow> b) = (\<not> there)"
        using False by (auto simp: there_def split: option.split)
      show ?thesis
      proof (cases r)
        case (Inl e)
        with update_tokens_fails [of h k new D e D'] r set_attribute_fails [of h k "join_tokens new" D e]
        show ?thesis by (simp add: eq Let_def old_def [symmetric] there_def [symmetric] p)
      next
        case (Inr changed)
        have r: "update_tokens h k new D = (Inr changed, D')" using r Inr by simp
        have "length new > 0 \<or> has_attribute D h k"
        proof (cases there)
          case True
          then have "attribute_value D h k \<noteq> []"
            by (auto simp: there_def old_def parse_ordered_tokens_def token_loop.simps)
          then show ?thesis by (auto simp: has_attribute_def attribute_value_def split: option.splits)
        qed (simp add: new_def)
        then have "changed" using update_tokens_writes(1) [OF r] by simp
        then show ?thesis
          using update_tokens_reads(1) [OF r new] update_tokens_writes(2) [OF r] False
          by (simp add: eq Inr Let_def old_def [symmetric] there_def [symmetric] p) (simp add: new_def)
      qed
    qed
  qed
qed

section \<open>Dataset names are a bijection\<close>

lemma letters:
  "upper c \<Longrightarrow> lower (ascii_lower c) \<and> ascii_upper (ascii_lower c) = c"
  "lower c \<Longrightarrow> upper (ascii_upper c) \<and> ascii_lower (ascii_upper c) = c"
  "upper c \<Longrightarrow> \<not> lower c" "\<not> upper (CHR ''-'')" "\<not> lower (CHR ''-'')"
  by (simp_all add: ascii_lower_def ascii_upper_def between_def) (auto simp: eq_chr_iff chr_eq_iff)

lemma dashed_head:
  "dataset_dashed k = (True, s) \<Longrightarrow> s \<noteq> [] \<Longrightarrow> lower (hd s) \<Longrightarrow> k \<noteq> [] \<and> hd k = hd s"
  by (cases k) (auto simp: letters split: if_splits prod.splits)

lemma dashed_empty: "dataset_dashed k = (True, []) \<Longrightarrow> k = []"
  by (cases k) (auto split: if_splits prod.splits)

lemma rest_of_dashed: "dataset_dashed k = (True, s) \<Longrightarrow> dataset_rest s = Some k"
proof (induction k arbitrary: s)
  case Nil
  then show ?case by simp
next
  case (Cons c cs)
  then obtain r where r: "dataset_dashed cs = (True, r)" "s = (if upper c then [CHR ''-'', ascii_lower c] else [c]) @ r"
    and no: "\<not> (c = CHR ''-'' \<and> cs \<noteq> [] \<and> lower (hd cs))"
    by (auto split: if_splits prod.splits)
  from Cons.IH [OF r(1)] have ih: "dataset_rest r = Some cs" .
  show ?case
  proof (cases "upper c")
    case True
    with r(2) ih letters(1) [of c] show ?thesis by (simp add: letters(4))
  next
    case False
    have "\<not> (c = CHR ''-'' \<and> lower d)" if "r = d # ds" for d ds
      using dashed_head [OF r(1)] that no by auto
    with False r(2) ih dashed_empty [of cs] r(1) show ?thesis by (cases r) auto
  qed
qed

lemma rest_head: "dataset_rest (d # ds) = Some k \<Longrightarrow> \<not> lower d \<Longrightarrow> k \<noteq> [] \<and> \<not> lower (hd k)"
  by (cases ds) (auto simp: letters split: if_splits)

lemma dashed_of_rest: "dataset_rest s = Some k \<Longrightarrow> dataset_dashed k = (True, s)"
proof (induction s arbitrary: k rule: dataset_rest.induct)
  case 1
  then show ?case by simp
next
  case (2 c cs)
  then have up: "\<not> upper c" by (auto split: if_splits)
  show ?case
  proof (cases cs)
    case Nil
    with 2(3) up show ?thesis by auto
  next
    case (Cons d ds)
    show ?thesis
    proof (cases "c = CHR ''-'' \<and> lower d")
      case True
      with 2(3) up Cons obtain r where r: "dataset_rest ds = Some r" "k = ascii_upper d # r" by auto
      have "dataset_dashed r = (True, ds)" by (rule 2(1) [OF up Cons True r(1)])
      with r True Cons letters(2) [of d] show ?thesis by (auto simp: letters(4))
    next
      case False
      with 2(3) up Cons obtain r where r: "dataset_rest cs = Some r" "k = c # r" by auto
      have "dataset_dashed r = (True, cs)" by (rule 2(2) [OF up Cons False r(1)])
      moreover have "\<not> (c = CHR ''-'' \<and> r \<noteq> [] \<and> lower (hd r))"
        using False r(1) rest_head [of d ds r] Cons by auto
      ultimately show ?thesis using r(2) up by simp
    qed
  qed
qed

text \<open>C24. The two name conversions of a dataset are inverse: a property name maps to an attribute name without a
  fault exactly when that attribute's name is valid and maps to the property name; so no two keys share an
  attribute and no two attributes share a key. The value of a key is that of its first entry.\<close>

theorem dataset_names:
  "(dataset_attribute_of k = (No_fault, nm) \<longleftrightarrow> dataset_name_of nm = Some k \<and> is_valid_attribute_name nm)
   \<and> (fst (dataset_attribute_of k) = Syntax_fault \<longleftrightarrow> (\<nexists>nm. dataset_name_of nm = Some k))
   \<and> dataset_value D h k = map_of (dataset_entries D h) k"
proof (intro conjI)
  show iff: "dataset_attribute_of k = (No_fault, nm) \<longleftrightarrow> dataset_name_of nm = Some k \<and> is_valid_attribute_name nm"
  proof
    assume a: "dataset_attribute_of k = (No_fault, nm)"
    then obtain s where s: "dataset_dashed k = (True, s)" "nm = ''data-'' @ s" "is_valid_attribute_name nm"
      by (auto simp: dataset_attribute_of_def Let_def split: prod.splits if_splits)
    with rest_of_dashed [OF s(1)] show "dataset_name_of nm = Some k \<and> is_valid_attribute_name nm"
      by (simp add: dataset_name_of_def)
  next
    assume a: "dataset_name_of nm = Some k \<and> is_valid_attribute_name nm"
    then have "take 5 nm = ''data-''" "dataset_rest (drop 5 nm) = Some k"
      by (auto simp: dataset_name_of_def split: if_splits)
    with dashed_of_rest have "dataset_dashed k = (True, drop 5 nm)" "''data-'' @ drop 5 nm = nm"
      by (blast, metis append_take_drop_id)
    with a show "dataset_attribute_of k = (No_fault, nm)"
      unfolding dataset_attribute_of_def by simp
  qed
  show "fst (dataset_attribute_of k) = Syntax_fault \<longleftrightarrow> (\<nexists>nm. dataset_name_of nm = Some k)"
  proof (cases "dataset_dashed k")
    case (Pair ok s)
    show ?thesis
    proof (cases ok)
      case True
      with rest_of_dashed Pair have "dataset_name_of (''data-'' @ s) = Some k" by (simp add: dataset_name_of_def)
      with True Pair show ?thesis by (auto simp: dataset_attribute_of_def Let_def split: if_splits)
    next
      case False
      then have "dataset_rest t \<noteq> Some k" for t using Pair dashed_of_rest by auto
      with False Pair show ?thesis by (simp add: dataset_attribute_of_def dataset_name_of_def)
    qed
  qed
  have "map_option a_value (find (\<lambda>a. a_ns a = 0 \<and> dataset_name_of (atom_text t (a_name a)) = Some k) as)
      = map_of (dataset_pairs t as) k" for t as
    by (induction as) (auto split: option.split)
  then show "dataset_value D h k = map_of (dataset_entries D h) k"
    by (simp add: dataset_value_def dataset_entries_def)
qed

section \<open>An attribute reads back under its name\<close>

text \<open>The name an element files an attribute under.\<close>

definition filed_name :: "node_id \<Rightarrow> document \<Rightarrow> string \<Rightarrow> string" where
  "filed_name h D nm = (if element_ns D h = Html \<and> \<not> xml D then ascii_lower_copy nm else nm)"

lemma attribute_key_intern:
  "attribute_key h nm D = (D\<lparr>atoms := fst (intern (atoms D) (filed_name h D nm))\<rparr>, snd (intern (atoms D) (filed_name h D nm)))"
  by (simp add: attribute_key_def filed_name_def intern_lower_def split_beta Let_def)

lemma intern_again:
  "table_inv t \<Longrightarrow> intern (fst (intern t s)) s = (fst (intern t s), snd (intern t s))"
  by (auto simp: intern_def intern_read_def intern_write_def Let_def split: option.split)

text \<open>C25. What \<^verbatim>\<open>setAttribute\<close> wrote is what \<^verbatim>\<open>getAttribute\<close> reads, on an element of an HTML document under
  any spelling of the name that differs in ASCII case only, elsewhere under the same name.\<close>

theorem element_attribute_round:
  assumes "table_inv (atoms D)" "set_element_attribute h nm v D = Inr D'" "filed_name h D nm' = filed_name h D nm"
  shows "snd (get_element_attribute h nm' D') = Some v"
proof -
  define t where "t = fst (intern (atoms D) (filed_name h D nm))"
  define k where "k = snd (intern (atoms D) (filed_name h D nm))"
  from assms(2) have set: "set_attribute h k v (D\<lparr>atoms := t\<rparr>) = Inr D'"
    by (simp add: set_element_attribute_def attribute_key_intern t_def k_def split: if_splits)
  note reads = set_attribute_reads [OF set]
  have ns: "element_ns (D\<lparr>atoms := t\<rparr>) h = element_ns D h" by (simp add: element_ns_def find_node_def)
  have "filed_name h D' nm' = filed_name h D nm"
    using reads(4,5) assms(3) ns by (simp add: filed_name_def)
  moreover have "intern t (filed_name h D nm) = (t, k)"
    using intern_again [OF assms(1), of "filed_name h D nm"] by (simp add: t_def k_def)
  ultimately have key: "attribute_key h nm' D' = (D'\<lparr>atoms := t\<rparr>, k)"
    using reads(3) by (simp add: attribute_key_intern)
  have "find_attribute (D'\<lparr>atoms := t\<rparr>) h k = find_attribute D' h k"
    by (simp add: find_attribute_def attributes_def find_node_def)
  then show ?thesis
    using reads(1) by (simp add: get_element_attribute_def key split: option.split)
qed

definition titled :: document where
  "titled = fst (create_element 1 Html False (new_document new_table))"

theorem element_attribute_round_witness:
  "\<exists>D'. set_element_attribute (\<lparr>h_slot = 1, h_generation = 1\<rparr>) ''title'' ''x'' titled = Inr D'
    \<and> snd (get_element_attribute (\<lparr>h_slot = 1, h_generation = 1\<rparr>) ''TITLE'' D') = Some ''x''"
proof -
  let ?h = "\<lparr>h_slot = 1, h_generation = 1\<rparr> :: node_id"
  note eval = titled_def new_document_def create_element_def create_def slab_ins_def slab_insert_def take_slot_def slab_empty_def
        new_node_def Let_def null_id_def find_node_def slab_lookup_def slab_get_def handle_bool_def
  have f: "find_node titled ?h = Some (new_node Element 1 Html False)" by (simp add: eval)
  have a: "atoms titled = new_table" "\<not> xml titled" by (simp_all add: eval)
  have v: "is_valid_attribute_name ''title''" by code_simp
  have "find_node (titled\<lparr>atoms := t\<rparr>) ?h = Some (new_node Element 1 Html False)" for t
    using f by (simp add: find_node_def)
  then obtain D' where D': "set_element_attribute ?h ''title'' ''x'' titled = Inr D'"
    using v by (simp add: set_element_attribute_def attribute_key_intern set_attribute_def new_node_def)
  have "ascii_lower_copy ''TITLE'' = ascii_lower_copy ''title''" by code_simp
  then have "filed_name ?h titled ''TITLE'' = filed_name ?h titled ''title''"
    using f a by (simp add: filed_name_def element_ns_def new_node_def)
  with element_attribute_round [OF _ D', of "''TITLE''"] D' a new_table_inv show ?thesis by simp
qed

end
