(* ===== verification/Html_Token.thy ===== *)
theory Html_Token
  imports Ascii Utf8
begin

text \<open>
  The HTML tokenizer (\<^verbatim>\<open>include/ctbrowser/dom/tokenizer.hpp\<close>, \<^verbatim>\<open>lib/DOM/tokenizer.cpp\<close>,
  \<^verbatim>\<open>lib/DOM/tokenizer/references.cpp\<close>, \<^verbatim>\<open>include/ctbrowser/dom/entities.hpp\<close>). The record
  \<open>tokenizer\<close> has the fields of the class and every state of the machine is one definition that takes
  the tokenizer and returns what the method returns with the tokenizer afterwards; the loops of the
  states are functions of their own. A state that emits nothing and calls \<^verbatim>\<open>next_token\<close> again
  returns \<open>None\<close>, and \<open>next_token\<close> goes round. The table of named references is generated data and
  a parameter.
\<close>

declare One_nat_def [simp del]

section \<open>Tokens and the tokenizer's state\<close>

datatype token_kind =
    Doctype | Start_tag | End_tag | Comment | Processing_instruction | Character | End_of_file
  | Incomplete

record token_attribute =
  attr_name :: string
  attr_value :: string

record token =
  tok_kind :: token_kind
  tok_name :: string
  tok_data :: string
  tok_attributes :: "token_attribute list"
  tok_public_id :: string
  tok_system_id :: string
  system_id_present :: bool
  self_closing :: bool
  force_quirks :: bool
  source_begin :: nat
  source_end :: nat

definition blank :: "token_kind \<Rightarrow> token" where
  "blank k = \<lparr>tok_kind = k, tok_name = [], tok_data = [], tok_attributes = [], tok_public_id = [],
     tok_system_id = [], system_id_present = False, self_closing = False, force_quirks = False,
     source_begin = 0, source_end = 0\<rparr>"

datatype content_model = Data | Rcdata | Rawtext | Script | Plaintext

record tokenizer =
  input :: string
  at :: nat
  model :: content_model
  close_tag :: string
  script_escape :: nat
  cdata_allowed :: bool
  truncated :: bool
  starved :: bool

definition new_tokenizer :: "string \<Rightarrow> tokenizer" where
  "new_tokenizer s = \<lparr>input = s, at = 0, model = Data, close_tag = [], script_escape = 0,
     cdata_allowed = False, truncated = False, starved = False\<rparr>"

definition set_content_model :: "content_model \<Rightarrow> string \<Rightarrow> tokenizer \<Rightarrow> tokenizer" where
  "set_content_model m for_tag t = t\<lparr>model := m, close_tag := for_tag, script_escape := 0\<rparr>"

definition set_cdata_allowed :: "bool \<Rightarrow> tokenizer \<Rightarrow> tokenizer" where
  "set_cdata_allowed b t = t\<lparr>cdata_allowed := b\<rparr>"

definition set_input :: "string \<Rightarrow> bool \<Rightarrow> tokenizer \<Rightarrow> tokenizer" where
  "set_input s b t = t\<lparr>input := s, truncated := b\<rparr>"

definition at_end :: "tokenizer \<Rightarrow> bool" where
  "at_end t \<longleftrightarrow> at t \<ge> length (input t)"

section \<open>Reading the input\<close>

abbreviation nul :: char where
  "nul \<equiv> CHR 0x00"

abbreviation cr :: char where
  "cr \<equiv> CHR 0x0D"

abbreviation lf :: char where
  "lf \<equiv> CHR 0x0A"

abbreviation quotation :: char where
  "quotation \<equiv> CHR 0x22"

abbreviation apostrophe :: char where
  "apostrophe \<equiv> CHR 0x27"

abbreviation lt :: char where
  "lt \<equiv> CHR ''<''"

abbreviation gt :: char where
  "gt \<equiv> CHR ''>''"

definition replacement :: string where
  "replacement = map chr [0xEF, 0xBF, 0xBD]"

definition eof :: "tokenizer \<Rightarrow> nat \<Rightarrow> bool" where
  "eof t ahead \<longleftrightarrow> at t + ahead \<ge> length (input t)"

definition cur :: "tokenizer \<Rightarrow> char" where
  "cur t = input t ! at t"

definition peek :: "tokenizer \<Rightarrow> nat \<Rightarrow> char" where
  "peek t ahead = (if at t + ahead < length (input t) then input t ! (at t + ahead) else nul)"

definition advance :: "nat \<Rightarrow> tokenizer \<Rightarrow> tokenizer" where
  "advance n t = t\<lparr>at := at t + n\<rparr>"

definition starve :: "tokenizer \<Rightarrow> tokenizer" where
  "starve t = (if truncated t then t\<lparr>starved := True\<rparr> else t)"

definition looking_at :: "tokenizer \<Rightarrow> string \<Rightarrow> bool" where
  "looking_at t what \<longleftrightarrow> substr (input t) (at t) (length what) = what"

definition looking_at_ci :: "tokenizer \<Rightarrow> string \<Rightarrow> bool" where
  "looking_at_ci t what \<longleftrightarrow> length (input t) - at t \<ge> length what
     \<and> ascii_iequals (substr (input t) (at t) (length what)) what"

definition is_alpha :: "char \<Rightarrow> bool" where
  "is_alpha c \<longleftrightarrow> between (CHR ''a'') c (CHR ''z'') \<or> between (CHR ''A'') c (CHR ''Z'')"

definition is_alnum :: "char \<Rightarrow> bool" where
  "is_alnum c \<longleftrightarrow> is_alpha c \<or> between (CHR ''0'') c (CHR ''9'')"

definition is_space :: "char \<Rightarrow> bool" where
  "is_space c \<longleftrightarrow> c \<in> set html_whitespace"

text \<open>The end of the run of characters satisfying \<open>P\<close> from position \<open>i\<close> on.\<close>

definition run_end :: "(char \<Rightarrow> bool) \<Rightarrow> string \<Rightarrow> nat \<Rightarrow> nat" where
  "run_end P s i = i + length (takeWhile P (drop i s))"

text \<open>One input character, with the newline normalisation.\<close>

definition append_text :: "tokenizer \<Rightarrow> string \<Rightarrow> string \<times> tokenizer" where
  "append_text t data =
     (let c = cur t; t = advance 1 t in
      if c = nul \<and> model t \<noteq> Data then (data @ replacement, t)
      else if c \<noteq> cr then (data @ [c], t)
      else (data @ [lf], if \<not> eof t 0 \<and> cur t = lf then advance 1 t else t))"

definition cut_at :: "tokenizer \<Rightarrow> nat \<Rightarrow> bool" where
  "cut_at t pos =
     (if \<not> truncated t then False
      else let c = input t ! pos; size = length (input t) in
        if c = cr then pos + 1 \<ge> size
        else if c = lt then pos + 1 \<ge> size
        else if c \<noteq> CHR ''&'' then False
        else let i = pos + 1;
                 i = (if i < size \<and> input t ! i = CHR ''#''
                      then let i = i + 1 in
                        if i < size \<and> (input t ! i = CHR ''x'' \<or> input t ! i = CHR ''X'') then i + 1 else i
                      else i)
          in run_end is_alnum (input t) i \<ge> size)"

section \<open>Going on in the input\<close>

text \<open>What every state leaves behind: the tokenizer further on in the same input, never past its end,
  starved if it was and otherwise only when the view is truncated; nothing else changes.\<close>

definition onward :: "tokenizer \<Rightarrow> tokenizer \<Rightarrow> bool" where
  "onward t u \<longleftrightarrow> at t \<le> at u \<and> (at t \<le> length (input t) \<longrightarrow> at u \<le> length (input t))
     \<and> (starved t \<longrightarrow> starved u) \<and> (starved u \<longrightarrow> starved t \<or> truncated t)
     \<and> u = t\<lparr>at := at u, starved := starved u\<rparr>"

named_theorems onward \<open>what goes on in the input\<close>

lemma onward_refl [simp]: "onward t t"
  by (simp add: onward_def)

lemma onward_trans [trans]:
  assumes "onward t u" "onward u v"
  shows "onward t v"
proof -
  have u: "u = t\<lparr>at := at u, starved := starved u\<rparr>" and v: "v = u\<lparr>at := at v, starved := starved v\<rparr>"
    using assms by (auto simp: onward_def)
  have "input u = input t" by (subst u) simp
  moreover have "truncated u = truncated t" by (subst u) simp
  moreover have "v = t\<lparr>at := at v, starved := starved v\<rparr>"
    by (subst v, subst u) simp
  ultimately show ?thesis
    using assms by (auto simp: onward_def)
qed

lemma onwardD:
  assumes "onward t u"
  shows "at t \<le> at u" "input u = input t" "model u = model t" "close_tag u = close_tag t"
    "script_escape u = script_escape t" "cdata_allowed u = cdata_allowed t" "truncated u = truncated t"
    "at t \<le> length (input t) \<Longrightarrow> at u \<le> length (input t)" "starved t \<Longrightarrow> starved u"
    "starved u \<Longrightarrow> starved t \<or> truncated t"
proof -
  have eq: "u = t\<lparr>at := at u, starved := starved u\<rparr>"
    using assms by (simp add: onward_def)
  show "input u = input t" by (subst eq) simp
  show "model u = model t" by (subst eq) simp
  show "close_tag u = close_tag t" by (subst eq) simp
  show "script_escape u = script_escape t" by (subst eq) simp
  show "cdata_allowed u = cdata_allowed t" by (subst eq) simp
  show "truncated u = truncated t" by (subst eq) simp
qed (use assms in \<open>auto simp: onward_def\<close>)

lemma onward_starve [simp]: "onward t (starve t)"
  by (simp add: onward_def starve_def)

lemma starve_simps [simp]:
  "at (starve t) = at t" "input (starve t) = input t" "truncated (starve t) = truncated t"
  by (simp_all add: starve_def)

lemma advance_simps [simp]:
  "at (advance n t) = at t + n" "input (advance n t) = input t" "truncated (advance n t) = truncated t"
  "model (advance n t) = model t" "starved (advance n t) = starved t"
  by (simp_all add: advance_def)

lemma onward_advance: "at t + n \<le> length (input t) \<Longrightarrow> onward t (advance n t)"
  by (simp add: onward_def advance_def)

lemma onward_one [simp]: "\<not> eof t 0 \<Longrightarrow> onward t (advance 1 t)"
  by (rule onward_advance) (simp add: eof_def)

lemma onward_starved [simp]: "onward t u \<Longrightarrow> onward t (starve u)"
  by (rule onward_trans [OF _ onward_starve])

lemma onward_oneI: "\<not> eof t 0 \<Longrightarrow> onward (advance 1 t) u \<Longrightarrow> onward t u"
  by (rule onward_trans [OF onward_one])

lemma onward_two [simp]: "\<not> eof t 0 \<Longrightarrow> \<not> eof (advance 1 t) 0 \<Longrightarrow> onward t (advance 1 (advance 1 t))"
  by (rule onward_oneI) simp_all

lemma onward_three [simp]:
  "\<not> eof t 0 \<Longrightarrow> \<not> eof (advance 1 t) 0 \<Longrightarrow> \<not> eof (advance 1 (advance 1 t)) 0
    \<Longrightarrow> onward t (advance 1 (advance 1 (advance 1 t)))"
  by (rule onward_oneI) simp_all

lemma run_end_ge [simp]: "i \<le> run_end P s i"
  by (simp add: run_end_def)

lemma run_end_le: "i \<le> length s \<Longrightarrow> run_end P s i \<le> length s"
  using length_takeWhile_le [of P "drop i s"] by (simp add: run_end_def)

lemma run_end_stop: "run_end P s i < length s \<Longrightarrow> \<not> P (s ! run_end P s i)"
  using nth_length_takeWhile [of P "drop i s"] by (simp add: run_end_def)

lemma onward_run [simp]: "onward t (t\<lparr>at := run_end P (input t) (at t)\<rparr>)"
  by (simp add: onward_def run_end_le)

lemma onward_append_text [simp]: "\<not> eof t 0 \<Longrightarrow> onward t (snd (append_text t data))"
  by (auto simp: append_text_def Let_def onward_def advance_def eof_def)

lemma append_text_forward [simp]: "at t < at (snd (append_text t data))"
  by (simp add: append_text_def Let_def advance_def)

section \<open>Character references\<close>

record entity_ref =
  ent_name :: string
  ent_first :: code_point
  ent_second :: code_point

text \<open>The order of \<^verbatim>\<open>std::string_view\<close>: bytes, as unsigned numbers.\<close>

fun view_less :: "string \<Rightarrow> string \<Rightarrow> bool" where
  "view_less _ [] = False"
| "view_less [] (y # ys) = True"
| "view_less (x # xs) (y # ys) = (byte x < byte y \<or> x = y \<and> view_less xs ys)"

definition find_entity :: "entity_ref list \<Rightarrow> string \<Rightarrow> entity_ref option" where
  "find_entity E nm =
     (let it = length (takeWhile (\<lambda>e. view_less (ent_name e) nm) E) in
      if it < length E \<and> ent_name (E ! it) = nm then Some (E ! it) else None)"

definition legacy_names :: "string list" where
  "legacy_names =
    [''AElig'', ''AMP'', ''Aacute'', ''Acirc'', ''Agrave'', ''Aring'', ''Atilde'', ''Auml'', ''COPY'',
     ''Ccedil'', ''ETH'', ''Eacute'', ''Ecirc'', ''Egrave'', ''Euml'', ''GT'', ''Iacute'', ''Icirc'',
     ''Igrave'', ''Iuml'', ''LT'', ''Ntilde'', ''Oacute'', ''Ocirc'', ''Ograve'', ''Oslash'', ''Otilde'',
     ''Ouml'', ''QUOT'', ''REG'', ''THORN'', ''Uacute'', ''Ucirc'', ''Ugrave'', ''Uuml'', ''Yacute'',
     ''aacute'', ''acirc'', ''acute'', ''aelig'', ''agrave'', ''amp'', ''aring'', ''atilde'', ''auml'',
     ''brvbar'', ''ccedil'', ''cedil'', ''cent'', ''copy'', ''curren'', ''deg'', ''divide'', ''eacute'',
     ''ecirc'', ''egrave'', ''eth'', ''euml'', ''frac12'', ''frac14'', ''frac34'', ''gt'', ''iacute'',
     ''icirc'', ''iexcl'', ''igrave'', ''iquest'', ''iuml'', ''laquo'', ''lt'', ''macr'', ''micro'',
     ''middot'', ''nbsp'', ''not'', ''ntilde'', ''oacute'', ''ocirc'', ''ograve'', ''ordf'', ''ordm'',
     ''oslash'', ''otilde'', ''ouml'', ''para'', ''plusmn'', ''pound'', ''quot'', ''raquo'', ''reg'',
     ''sect'', ''shy'', ''sup1'', ''sup2'', ''sup3'', ''szlig'', ''thorn'', ''times'', ''uacute'',
     ''ucirc'', ''ugrave'', ''uml'', ''uuml'', ''yacute'', ''yen'', ''yuml'']"

definition is_legacy_name :: "string \<Rightarrow> bool" where
  "is_legacy_name nm \<longleftrightarrow> nm \<in> set legacy_names"

definition c1_table :: "(nat \<times> code_point) list" where
  "c1_table =
    [(0x80, 0x20AC), (0x82, 0x201A), (0x83, 0x0192), (0x84, 0x201E), (0x85, 0x2026), (0x86, 0x2020),
     (0x87, 0x2021), (0x88, 0x02C6), (0x89, 0x2030), (0x8A, 0x0160), (0x8B, 0x2039), (0x8C, 0x0152),
     (0x8E, 0x017D), (0x91, 0x2018), (0x92, 0x2019), (0x93, 0x201C), (0x94, 0x201D), (0x95, 0x2022),
     (0x96, 0x2013), (0x97, 0x2014), (0x98, 0x02DC), (0x99, 0x2122), (0x9A, 0x0161), (0x9B, 0x203A),
     (0x9C, 0x0153), (0x9E, 0x017E), (0x9F, 0x0178)]"

definition numeric_reference_code :: "nat \<Rightarrow> code_point" where
  "numeric_reference_code code =
     (if code = 0 \<or> code > 0x10FFFF \<or> 0xD800 \<le> code \<and> code \<le> 0xDFFF then 0xFFFD
      else case map_of c1_table code of Some to \<Rightarrow> to | None \<Rightarrow> code)"

text \<open>The loop over the digits. The guard keeps the 32-bit accumulator below \<open>0x1100000\<close>, so it never
  wraps.\<close>

function number_loop :: "bool \<Rightarrow> tokenizer \<Rightarrow> nat \<Rightarrow> bool \<Rightarrow> nat \<times> bool \<times> tokenizer" where
  "number_loop hex t code any =
     (if eof t 0 then (code, any, t)
      else let digit = hex_value (cur t) in
        if digit < 0 \<or> \<not> hex \<and> digit > 9 then (code, any, t)
        else number_loop hex (advance 1 t)
               (if code < 0x110000 then code * (if hex then 16 else 10) + nat digit else code) True)"
  by pat_completeness auto
termination
  by (relation "measure (\<lambda>(hex, t, code, any). length (input t) - at t)") (auto simp: eof_def)

declare number_loop.simps [simp del]

text \<open>The longest legacy name that is a prefix of the run, from \<open>n\<close> characters down.\<close>

fun legacy_search :: "entity_ref list \<Rightarrow> string \<Rightarrow> nat \<Rightarrow> (entity_ref \<times> nat) option" where
  "legacy_search E run 0 = None"
| "legacy_search E run (Suc n) =
     (if is_legacy_name (take (Suc n) run)
      then (case find_entity E (take (Suc n) run) of
              Some e \<Rightarrow> Some (e, Suc n)
            | None \<Rightarrow> legacy_search E run n)
      else legacy_search E run n)"

definition numeric_reference :: "nat \<Rightarrow> tokenizer \<Rightarrow> string \<Rightarrow> string \<times> tokenizer" where
  "numeric_reference start t out =
     (let t = advance 1 t;
          hex = (\<not> eof t 0 \<and> (cur t = CHR ''x'' \<or> cur t = CHR ''X''));
          t = (if hex then advance 1 t else t);
          (code, any, t) = number_loop hex t 0 False
      in if \<not> any then (out @ substr (input t) start (at t - start), t)
         else let t = (if \<not> eof t 0 \<and> cur t = CHR '';'' then advance 1 t else t)
           in (append_utf8 out (numeric_reference_code code), t))"

definition find_reference :: "entity_ref list \<Rightarrow> string \<Rightarrow> bool \<Rightarrow> (entity_ref \<times> nat) option" where
  "find_reference E run semicolon =
     (case (if semicolon then find_entity E run else None) of
        Some e \<Rightarrow> Some (e, length run + 1)
      | None \<Rightarrow> legacy_search E run (min (length run) 6))"

definition named_reference :: "entity_ref list \<Rightarrow> bool \<Rightarrow> tokenizer \<Rightarrow> string \<Rightarrow> string \<times> tokenizer" where
  "named_reference E in_attribute t out =
     (let stop = run_end is_alnum (input t) (at t);
          run = substr (input t) (at t) (stop - at t);
          semicolon = (stop < length (input t) \<and> input t ! stop = CHR '';'')
      in case find_reference E run semicolon of
           None \<Rightarrow> (out @ ''&'', t)
         | Some (e, consumed) \<Rightarrow>
             if in_attribute \<and> \<not> consumed > length run \<and>
                (peek t consumed = CHR ''='' \<or> is_alnum (peek t consumed))
             then (out @ ''&'', t)
             else let out = append_utf8 out (ent_first e)
               in (if ent_second e \<noteq> 0 then append_utf8 out (ent_second e) else out, advance consumed t))"

definition character_reference ::
    "entity_ref list \<Rightarrow> bool \<Rightarrow> tokenizer \<Rightarrow> string \<Rightarrow> string \<times> tokenizer" where
  "character_reference E in_attribute t out =
     (let start = at t; t = advance 1 t in
      if eof t 0 then (out @ ''&'', t)
      else if cur t = CHR ''#'' then numeric_reference start t out
      else if \<not> is_alnum (cur t) then (out @ ''&'', t)
      else named_reference E in_attribute t out)"

section \<open>Tags\<close>

definition skip_space :: "tokenizer \<Rightarrow> tokenizer" where
  "skip_space t = t\<lparr>at := run_end is_space (input t) (at t)\<rparr>"

text \<open>The loop of the tag name state.\<close>

function tag_name_loop :: "tokenizer \<Rightarrow> string \<Rightarrow> string \<times> tokenizer" where
  "tag_name_loop t nm =
     (if eof t 0 then (nm, t)
      else let c = cur t in
        if is_space c \<or> c = CHR ''/'' \<or> c = gt then (nm, t)
        else if c = nul then tag_name_loop (advance 1 t) (nm @ replacement)
        else tag_name_loop (advance 1 t) (nm @ [ascii_lower c]))"
  by pat_completeness auto
termination
  by (relation "measure (\<lambda>(t, nm). length (input t) - at t)") (auto simp: eof_def advance_def)

declare tag_name_loop.simps [simp del]

function attribute_name_loop :: "tokenizer \<Rightarrow> string \<Rightarrow> string \<times> tokenizer" where
  "attribute_name_loop t nm =
     (if eof t 0 then (nm, t)
      else let c = cur t in
        if is_space c \<or> c = CHR ''/'' \<or> c = gt \<or> c = CHR ''='' then (nm, t)
        else attribute_name_loop (advance 1 t) (nm @ (if c = nul then replacement else [ascii_lower c])))"
  by pat_completeness auto
termination
  by (relation "measure (\<lambda>(t, nm). length (input t) - at t)") (auto simp: eof_def advance_def)

declare attribute_name_loop.simps [simp del]

lemma number_loop_onward: "onward t (snd (snd (number_loop hex t code any)))"
proof (induction hex t code any rule: number_loop.induct)
  case (1 hex t code any)
  show ?case
    using 1 onward_trans [OF onward_one [of t]]
    by (subst number_loop.simps) (auto simp: Let_def)
qed

lemma onward_if: "(b \<Longrightarrow> onward t u) \<Longrightarrow> onward t (if b then u else t)"
  by simp

lemma numeric_reference_onward:
  assumes "\<not> eof t 0"
  shows "onward t (snd (numeric_reference start t out))" "at t < at (snd (numeric_reference start t out))"
proof -
  define u where "u = advance 1 t"
  define hex where "hex = (\<not> eof u 0 \<and> (cur u = CHR ''x'' \<or> cur u = CHR ''X''))"
  define v where "v = (if hex then advance 1 u else u)"
  define w where "w = snd (snd (number_loop hex v 0 False))"
  have u: "onward t u" "at t < at u"
    using assms by (simp_all add: u_def)
  have "onward u v"
    by (simp add: v_def hex_def)
  also have "onward v w"
    by (simp add: w_def number_loop_onward)
  finally have w: "onward u w" .
  have "onward w (if \<not> eof w 0 \<and> cur w = CHR '';'' then advance 1 w else w)"
    by simp
  with w have x: "onward u (if \<not> eof w 0 \<and> cur w = CHR '';'' then advance 1 w else w)"
    by (rule onward_trans)
  have "snd (numeric_reference start t out) = w
      \<or> snd (numeric_reference start t out) = (if \<not> eof w 0 \<and> cur w = CHR '';'' then advance 1 w else w)"
    by (simp add: numeric_reference_def Let_def w_def v_def hex_def u_def split: prod.split)
  with w x have "onward u (snd (numeric_reference start t out))"
    by auto
  then show "onward t (snd (numeric_reference start t out))" "at t < at (snd (numeric_reference start t out))"
    using u onward_trans [OF u(1)] onwardD(1) [of u] by (blast, fastforce)
qed

lemma legacy_search_length: "legacy_search E run n = Some (e, k) \<Longrightarrow> k \<le> n"
  by (induction n) (auto split: if_splits option.splits)

lemma find_reference_length:
  "find_reference E run semicolon = Some (e, k) \<Longrightarrow> k \<le> length run \<or> semicolon \<and> k = length run + 1"
  using legacy_search_length [of E run "min (length run) 6" e k]
  by (auto simp: find_reference_def split: option.splits if_splits)

lemma named_reference_onward: "\<not> eof t 0 \<Longrightarrow> onward t (snd (named_reference E b t out))"
proof -
  assume e: "\<not> eof t 0"
  define stop where "stop = run_end is_alnum (input t) (at t)"
  define run where "run = substr (input t) (at t) (stop - at t)"
  define semicolon where "semicolon = (stop < length (input t) \<and> input t ! stop = CHR '';'')"
  have stop: "at t \<le> stop" "stop \<le> length (input t)"
    using e by (simp_all add: stop_def run_end_le eof_def)
  then have run: "length run = stop - at t"
    by (simp add: run_def substr_def)
  have "at t + k \<le> length (input t)" if "find_reference E run semicolon = Some (e, k)" for e k
    using find_reference_length [OF that] stop run by (auto simp: semicolon_def)
  then show ?thesis
    unfolding named_reference_def Let_def stop_def [symmetric] run_def [symmetric] semicolon_def [symmetric]
    by (auto split: option.split intro: onward_advance)
qed

lemma character_reference_onward:
  assumes "\<not> eof t 0"
  shows "onward t (snd (character_reference E b t out))" "at t < at (snd (character_reference E b t out))"
proof -
  have "onward (advance 1 t) (snd (character_reference E b t out))"
    using numeric_reference_onward [of "advance 1 t" "at t" out] named_reference_onward [of "advance 1 t" E b out]
    by (simp add: character_reference_def Let_def)
  then show "onward t (snd (character_reference E b t out))"
    by (rule onward_oneI [OF assms])
  show "at t < at (snd (character_reference E b t out))"
    using onwardD(1) [OF \<open>onward (advance 1 t) (snd (character_reference E b t out))\<close>] by simp
qed

lemma character_reference_input: "\<not> eof t 0 \<Longrightarrow> input (snd (character_reference E b t out)) = input t"
  by (rule onwardD(2) [OF character_reference_onward(1)])

text \<open>The attribute value states; \<open>None\<close> is the unquoted one, the NUL of the source.\<close>

function attribute_value ::
    "entity_ref list \<Rightarrow> char option \<Rightarrow> tokenizer \<Rightarrow> string \<Rightarrow> string \<times> tokenizer" where
  "attribute_value E quote t out =
     (if eof t 0 then (out, t)
      else let c = cur t in
        if (case quote of Some q \<Rightarrow> c = q | None \<Rightarrow> is_space c \<or> c = gt) then (out, t)
        else if c = CHR ''&''
        then if cut_at t (at t) then (out, starve t)
          else attribute_value E quote (snd (character_reference E True t out))
                 (fst (character_reference E True t out))
        else if c = nul then attribute_value E quote (advance 1 t) (out @ replacement)
        else if c = cr \<and> cut_at t (at t) then (out, starve t)
        else attribute_value E quote (snd (append_text t out)) (fst (append_text t out)))"
  by pat_completeness auto
termination
proof (relation "measure (\<lambda>(E, quote, t, out). length (input t) - at t)", goal_cases)
  case (2 E quote t out c)
  then show ?case using character_reference_onward [of t E True out]
    by (auto simp: eof_def dest: onwardD(2))
next
  case (4 E quote t out c)
  then show ?case using append_text_forward [of t out] onward_append_text [of t out]
    by (auto simp: eof_def simp del: append_text_forward onward_append_text dest: onwardD(2))
qed (auto simp: eof_def)

declare attribute_value.simps [simp del]

text \<open>The first attribute of a name wins; \<open>names\<close> is the hash set that takes over from the linear
  scan past \<open>scan_limit\<close> attributes.\<close>

definition scan_limit :: nat where
  "scan_limit = 64"

definition add_attribute :: "token_attribute \<Rightarrow> token \<Rightarrow> string set \<Rightarrow> token \<times> string set" where
  "add_attribute a out names =
     (let (seen, names) =
        (if length (tok_attributes out) < scan_limit
         then (\<exists>held \<in> set (tok_attributes out). attr_name held = attr_name a, names)
         else let names = (if names = {} then set (map attr_name (tok_attributes out)) else names)
           in (attr_name a \<in> names, insert (attr_name a) names))
      in (if seen then out else out\<lparr>tok_attributes := tok_attributes out @ [a]\<rparr>, names))"

text \<open>What follows an attribute's name, from the \<open>=\<close> on: \<open>None\<close> where the loop breaks.\<close>

definition attribute_rest :: "entity_ref list \<Rightarrow> tokenizer \<Rightarrow> string option \<times> tokenizer" where
  "attribute_rest E t =
     (if cur t \<noteq> CHR ''='' then (Some [], t)
      else let t = skip_space (advance 1 t) in
        if eof t 0 then (None, t)
        else if cur t = quotation \<or> cur t = apostrophe
        then let (v, t) = attribute_value E (Some (cur t)) (advance 1 t) []
          in if eof t 0 then (None, t) else (Some v, advance 1 t)
        else let (v, t) = attribute_value E None t []
          in if eof t 0 then (None, t) else (Some v, t))"

definition end_token :: token where
  "end_token = blank End_of_file"

lemma skip_space_onward [simp]: "onward t (skip_space t)"
  by (simp add: skip_space_def)

lemma attribute_value_onward: "onward t (snd (attribute_value E q t out))"
proof (induction E q t out rule: attribute_value.induct)
  case (1 E quote t out)
  note IH = 1
  show ?case
  proof (cases "eof t 0 \<or> (case quote of Some q \<Rightarrow> cur t = q | None \<Rightarrow> is_space (cur t) \<or> cur t = gt)")
    case True
    then show ?thesis by (subst attribute_value.simps) (auto simp: Let_def)
  next
    case False
    then have e: "\<not> eof t 0" "\<not> (case quote of Some q \<Rightarrow> cur t = q | None \<Rightarrow> is_space (cur t) \<or> cur t = gt)"
      by auto
    then show ?thesis
      using onward_trans [OF character_reference_onward(1) [OF e(1)] IH(1) [OF e(1) refl e(2)]]
        onward_oneI [OF e(1) IH(2) [OF e(1) refl e(2)]]
        onward_trans [OF onward_append_text [OF e(1)] IH(3) [OF e(1) refl e(2)]]
      by (subst attribute_value.simps) (simp add: Let_def)
  qed
qed

lemma attribute_name_loop_onward: "onward t (snd (attribute_name_loop t nm))"
proof (induction t nm rule: attribute_name_loop.induct)
  case (1 t nm)
  then show ?case
    by (subst attribute_name_loop.simps) (auto simp: Let_def intro: onward_trans [OF onward_one])
qed

lemma attribute_name_loop_moves:
  assumes "\<not> eof t 0" "\<not> (is_space (cur t) \<or> cur t = CHR ''/'' \<or> cur t = gt \<or> cur t = CHR ''='')"
  shows "at t < at (snd (attribute_name_loop t nm))"
  using assms onwardD(1) [OF attribute_name_loop_onward, of "advance 1 t"]
  by (subst attribute_name_loop.simps) (auto simp: Let_def intro: less_le_trans [of _ "at t + 1"])

lemma attribute_rest_onward:
  assumes "\<not> eof t 0"
  shows "onward t (snd (attribute_rest E t))"
proof -
  define u where "u = skip_space (advance 1 t)"
  have u: "onward t u"
    using onward_trans [OF onward_one [OF assms] skip_space_onward] by (simp add: u_def)
  have q: "onward u (snd (attribute_value E (Some (cur u)) (advance 1 u) []))" if "\<not> eof u 0"
    using onward_trans [OF onward_one [OF that] attribute_value_onward] .
  have "onward u (snd (attribute_rest E t)) \<or> snd (attribute_rest E t) = t"
    using q attribute_value_onward [of u E None "[]"]
    by (auto simp: attribute_rest_def Let_def case_prod_beta u_def [symmetric] intro: onward_trans)
  then show ?thesis
    using onward_trans [OF u] by auto
qed

function attribute_loop :: "entity_ref list \<Rightarrow> tokenizer \<Rightarrow> token \<Rightarrow> string set \<Rightarrow> token \<times> tokenizer" where
  "attribute_loop E t out names =
     (let t = skip_space t in
      if eof t 0 then (end_token, starve t)
      else let c = cur t in
        if c = gt then (out, advance 1 t)
        else if c = CHR ''/''
        then let t = advance 1 t in
          if eof t 0 then (end_token, starve t)
          else if cur t = gt then (out\<lparr>self_closing := True\<rparr>, advance 1 t)
          else attribute_loop E t out names
        else let nm = attribute_name_loop (if c = CHR ''='' then advance 1 t else t)
                        (if c = CHR ''='' then ''='' else []);
                 t = skip_space (snd nm)
          in if eof t 0 then (end_token, starve t)
            else let r = attribute_rest E t in
              case fst r of
                None \<Rightarrow> (end_token, starve (snd r))
              | Some v \<Rightarrow>
                  let a = add_attribute \<lparr>attr_name = fst nm, attr_value = v\<rparr> out names
                  in attribute_loop E (snd r) (fst a) (snd a))"
  by pat_completeness auto
termination
proof (relation "measure (\<lambda>(E, t, out, names). length (input t) - at t)", goal_cases)
  case (2 E t out names u c v)
  then show ?case using onwardD(1,2) [OF skip_space_onward [of t]] by (auto simp: eof_def)
next
  case (3 E t out names u c nm v r w a)
  have u: "at t \<le> at u" "input u = input t" "\<not> eof u 0"
    using 3 onwardD(1,2) [OF skip_space_onward [of t]] by auto
  have "at u < at (snd nm) \<and> input (snd nm) = input u"
  proof (cases "c = CHR ''=''")
    case True
    then show ?thesis
      using onwardD(1,2) [OF attribute_name_loop_onward, of "advance 1 u" "''=''"] 3 by simp
  next
    case False
    have "\<not> is_space (cur u)"
      using 3 u run_end_stop [of is_space "input t" "at t"]
      by (auto simp: skip_space_def cur_def eof_def)
    with False 3 show ?thesis
      using attribute_name_loop_moves [of u "[]"] onwardD(1,2) [OF attribute_name_loop_onward, of u "[]"] by simp
  qed
  then have "at u < at v" "input v = input u" "\<not> eof v 0"
    using 3 onwardD(1,2) [OF skip_space_onward [of "snd nm"]] by auto
  then show ?case
    using 3 u onwardD(1,2) [OF attribute_rest_onward [of v E]] by (auto simp: eof_def)
qed auto

declare attribute_loop.simps [simp del]

definition attributes :: "entity_ref list \<Rightarrow> tokenizer \<Rightarrow> token \<Rightarrow> token \<times> tokenizer" where
  "attributes E t out = attribute_loop E t out {}"

definition tag_name_state :: "entity_ref list \<Rightarrow> tokenizer \<Rightarrow> token \<Rightarrow> token \<times> tokenizer" where
  "tag_name_state E t out =
     (let (nm, t) = tag_name_loop t (tok_name out) in
      if eof t 0 then (end_token, starve t) else attributes E t (out\<lparr>tok_name := nm\<rparr>))"

section \<open>Comments, DOCTYPE, CDATA and processing instructions\<close>

text \<open>How one round of a comment loop ends: the method returns, or the main loop continues.\<close>

datatype flow = Return string tokenizer | Continue string tokenizer

text \<open>The inner loop of the comment end state, \<^verbatim>\<open>--\<close> seen.\<close>

function comment_end :: "tokenizer \<Rightarrow> string \<Rightarrow> flow" where
  "comment_end t data =
     (if eof t 0 then Return data (starve t)
      else let e = cur t in
        if e = gt then Return data (advance 1 t)
        else if e = CHR ''!''
        then let t = advance 1 t in
          if eof t 0 then Return data (starve t)
          else if cur t = CHR ''-''
          then let data = data @ ''--!''; t = advance 1 t in
            if eof t 0 then Return data (starve t)
            else if cur t = CHR ''-'' then comment_end (advance 1 t) data
            else Continue (data @ ''-'') t
          else if cur t = gt then Return data (advance 1 t)
          else Continue (data @ ''--!'') t
        else if e = CHR ''-'' then comment_end (advance 1 t) (data @ ''-'')
        else Continue (data @ ''--'') t)"
  by pat_completeness auto
termination
  by (relation "measure (\<lambda>(t, data). length (input t) - at t)") (auto simp: eof_def advance_def)

declare comment_end.simps [simp del]

text \<open>A run of one character, appended to the data and passed.\<close>

definition take_run :: "char \<Rightarrow> tokenizer \<Rightarrow> string \<Rightarrow> string \<times> tokenizer" where
  "take_run c t data =
     (let stop = run_end (\<lambda>d. d = c) (input t) (at t)
      in (data @ substr (input t) (at t) (stop - at t), t\<lparr>at := stop\<rparr>))"

text \<open>\<^verbatim>\<open><!--\<close> inside a comment, after its second hyphen.\<close>

definition nested_comment_end :: "tokenizer \<Rightarrow> string \<Rightarrow> flow" where
  "nested_comment_end t data =
     (if eof t 0 then Return data (starve t)
      else if cur t = gt then Return data (advance 1 t)
      else if cur t = CHR ''!''
      then let t = advance 1 t in
        if eof t 0 then Return data (starve t)
        else if cur t = gt then Return data (advance 1 t)
        else Continue (data @ ''--!'') t
      else if cur t = CHR ''-''
      then let (data, t) = take_run (CHR ''-'') (advance 1 t) (data @ ''-'') in
        if eof t 0 then Return data (starve t)
        else if cur t = gt then Return data (advance 1 t)
        else Continue (data @ ''--'') t
      else Continue (data @ ''--'') t)"

definition comment_less_than :: "tokenizer \<Rightarrow> string \<Rightarrow> flow" where
  "comment_less_than t data =
     (let (data, t) = take_run lt (advance 1 t) (data @ ''<'') in
      if \<not> eof t 0 \<and> cur t = CHR ''!''
      then let data = data @ ''!''; t = advance 1 t in
        if \<not> eof t 0 \<and> cur t = CHR ''-''
        then let t = advance 1 t in
          if \<not> eof t 0 \<and> cur t = CHR ''-'' then nested_comment_end (advance 1 t) data
          else if eof t 0 then Return data (starve t)
          else Continue (data @ ''-'') t
        else Continue data t
      else Continue data t)"

definition comment_dash :: "tokenizer \<Rightarrow> string \<Rightarrow> flow" where
  "comment_dash t data =
     (let t = advance 1 t in
      if eof t 0 then Return data (starve t)
      else if cur t \<noteq> CHR ''-'' then Continue (data @ ''-'') t
      else comment_end (advance 1 t) data)"

definition comment_step :: "tokenizer \<Rightarrow> string \<Rightarrow> flow" where
  "comment_step t data =
     (if eof t 0 then Return data (starve t)
      else let c = cur t in
        if c = lt then comment_less_than t data
        else if c = CHR ''-'' then comment_dash t data
        else if c = nul then Continue (data @ replacement) (advance 1 t)
        else if c = cr \<and> cut_at t (at t) then Return data (starve t)
        else Continue (fst (append_text t data)) (snd (append_text t data)))"

lemma take_run_onward [simp]: "onward t (snd (take_run c t data))"
  by (simp add: take_run_def Let_def)

text \<open>Where a round of a comment loop leaves the tokenizer.\<close>

fun flow_state :: "flow \<Rightarrow> tokenizer" where
  "flow_state (Return d t) = t"
| "flow_state (Continue d t) = t"

lemma comment_end_onward: "onward t (flow_state (comment_end t data))"
proof (induction t data rule: comment_end.induct)
  case (1 t data)
  show ?case
    using 1 onward_oneI [of t] onward_trans [OF onward_two [of t]] onward_trans [OF onward_three [of t]]
    by (subst comment_end.simps) (auto simp: Let_def)
qed

lemma onward_after_run [simp]:
  assumes "\<not> eof t 0"
  shows "onward t (snd (take_run c (advance 1 t) d))"
    and "\<not> eof (snd (take_run c (advance 1 t) d)) 0 \<Longrightarrow> onward t (advance 1 (snd (take_run c (advance 1 t) d)))"
proof -
  show *: "onward t (snd (take_run c (advance 1 t) d))"
    by (rule onward_oneI [OF assms take_run_onward])
  show "onward t (advance 1 (snd (take_run c (advance 1 t) d)))" if "\<not> eof (snd (take_run c (advance 1 t) d)) 0"
    by (rule onward_trans [OF * onward_one [OF that]])
qed

lemma nested_comment_end_onward: "onward t (flow_state (nested_comment_end t data))"
  by (simp add: nested_comment_end_def Let_def case_prod_beta)

lemma comment_less_than_onward:
  assumes "\<not> eof t 0"
  shows "onward (advance 1 t) (flow_state (comment_less_than t data))"
proof -
  obtain d u where r: "take_run lt (advance 1 t) (data @ ''<'') = (d, u)"
    by (metis prod.exhaust)
  then have u: "onward (advance 1 t) u"
    using take_run_onward [of "advance 1 t" lt "data @ ''<''"] by simp
  have one: "onward u (advance 1 u)" if "\<not> eof u 0"
    using that by simp
  have two: "onward u (advance 1 (advance 1 u))" if "\<not> eof u 0" "\<not> eof (advance 1 u) 0"
    using onward_trans [OF onward_one onward_one] that by blast
  have three: "onward u (advance 1 (advance 1 (advance 1 u)))"
    if "\<not> eof u 0" "\<not> eof (advance 1 u) 0" "\<not> eof (advance 1 (advance 1 u)) 0"
    using onward_trans [OF two onward_one] that by blast
  have "onward u (flow_state (comment_less_than t data))"
    using one two onward_trans [OF two onward_starve] onward_trans [OF three nested_comment_end_onward]
    by (auto simp: comment_less_than_def Let_def r)
  with u show ?thesis
    by (rule onward_trans)
qed

lemma comment_dash_onward:
  assumes "\<not> eof t 0"
  shows "onward (advance 1 t) (flow_state (comment_dash t data))"
  using onward_trans [OF onward_one comment_end_onward, of "advance 1 t"]
  by (auto simp: comment_dash_def Let_def)

lemma comment_step_onward: "onward t (flow_state (comment_step t data))"
  using onward_trans [OF onward_one comment_less_than_onward, of t]
    onward_trans [OF onward_one comment_dash_onward, of t]
  by (auto simp: comment_step_def Let_def)

lemma comment_step_forward:
  assumes "comment_step t data = Continue d u"
  shows "at t < at u \<and> at t < length (input t) \<and> input u = input t"
proof -
  have e: "\<not> eof t 0"
    using assms by (auto simp: comment_step_def)
  have "at t < at u"
    using assms e onwardD(1) [OF comment_less_than_onward [OF e, of data]]
      onwardD(1) [OF comment_dash_onward [OF e, of data]] append_text_forward [of t data]
    by (auto simp: comment_step_def Let_def split: if_splits simp del: append_text_forward)
  then show ?thesis
    using e onwardD(2) [OF comment_step_onward [of t data]] assms by (auto simp: eof_def)
qed

function comment_loop :: "tokenizer \<Rightarrow> string \<Rightarrow> string \<times> tokenizer" where
  "comment_loop t data =
     (case comment_step t data of
        Return d u \<Rightarrow> (d, u)
      | Continue d u \<Rightarrow> comment_loop u d)"
  by pat_completeness auto
termination
  by (relation "measure (\<lambda>(t, data). length (input t) - at t)")
    (auto dest!: comment_step_forward)

declare comment_loop.simps [simp del]

definition comment_state :: "tokenizer \<Rightarrow> token \<times> tokenizer" where
  "comment_state t =
     (let out = blank Comment in
      if peek t 0 = gt \<and> \<not> eof t 0 then (out, advance 1 t)
      else if peek t 0 = CHR ''-'' \<and> \<not> eof t 0 \<and> eof t 1 then (out, advance 1 (starve t))
      else if peek t 0 = CHR ''-'' \<and> \<not> eof t 0 \<and> peek t 1 = gt then (out, advance 2 t)
      else let (data, t) = comment_loop t [] in (out\<lparr>tok_data := data\<rparr>, t))"

function bogus_comment_loop :: "tokenizer \<Rightarrow> string \<Rightarrow> string \<times> tokenizer" where
  "bogus_comment_loop t data =
     (if eof t 0 then (data, starve t)
      else let c = cur t in
        if c = gt then (data, advance 1 t)
        else if c = nul then bogus_comment_loop (advance 1 t) (data @ replacement)
        else if c = cr \<and> cut_at t (at t) then (data, starve t)
        else bogus_comment_loop (snd (append_text t data)) (fst (append_text t data)))"
  by pat_completeness auto
termination
proof (relation "measure (\<lambda>(t, data). length (input t) - at t)", goal_cases)
  case (3 t data c)
  then show ?case using append_text_forward [of t data] onwardD(2) [OF onward_append_text [of t data]]
    by (auto simp: eof_def simp del: append_text_forward)
qed (auto simp: eof_def)

declare bogus_comment_loop.simps [simp del]

definition bogus_comment_state :: "tokenizer \<Rightarrow> token \<times> tokenizer" where
  "bogus_comment_state t =
     (let (data, t) = bogus_comment_loop t [] in ((blank Comment)\<lparr>tok_data := data\<rparr>, t))"

text \<open>\<^verbatim>\<open>std::string_view::find\<close> of a string.\<close>

fun find_text :: "string \<Rightarrow> string \<Rightarrow> nat option" where
  "find_text what [] = (if what = [] then Some 0 else None)"
| "find_text what (c # cs) =
     (if take (length what) (c # cs) = what then Some 0 else map_option Suc (find_text what cs))"

function append_until :: "nat \<Rightarrow> tokenizer \<Rightarrow> string \<Rightarrow> string \<times> tokenizer" where
  "append_until stop t data =
     (if at t < stop then append_until stop (snd (append_text t data)) (fst (append_text t data))
      else (data, t))"
  by pat_completeness auto
termination
proof (relation "measure (\<lambda>(stop, t, data). stop - at t)", goal_cases)
  case (2 stop t data)
  then show ?case using append_text_forward [of t data] by (auto simp del: append_text_forward)
qed auto

declare append_until.simps [simp del]

definition cdata_section_state :: "tokenizer \<Rightarrow> token \<times> tokenizer" where
  "cdata_section_state t =
     (let found = map_option (\<lambda>i. at t + i) (find_text '']]>'' (drop (at t) (input t)));
          stop = (case found of None \<Rightarrow> length (input t) | Some e \<Rightarrow> e);
          (data, t) = append_until stop t [];
          out = (blank Character)\<lparr>tok_data := data\<rparr>
      in case found of
           None \<Rightarrow> (out, starve t)
         | Some e \<Rightarrow> (out, t\<lparr>at := e + 3\<rparr>))"

definition doctype_at_eof :: "token \<Rightarrow> tokenizer \<Rightarrow> token \<times> tokenizer" where
  "doctype_at_eof out t = (out\<lparr>force_quirks := True\<rparr>, starve t)"

definition bogus_doctype :: "bool \<Rightarrow> token \<Rightarrow> tokenizer \<Rightarrow> token \<times> tokenizer" where
  "bogus_doctype quirks out t =
     (let out = (if quirks then out\<lparr>force_quirks := True\<rparr> else out);
          t = t\<lparr>at := run_end (\<lambda>c. c \<noteq> gt) (input t) (at t)\<rparr>
      in if eof t 0 then (out, starve t) else (out, advance 1 t))"

definition doctype_name :: "string \<Rightarrow> string" where
  "doctype_name run = concat (map (\<lambda>c. if c = nul then replacement else [ascii_lower c]) run)"

definition in_doctype_name :: "char \<Rightarrow> bool" where
  "in_doctype_name c \<longleftrightarrow> \<not> (is_space c \<or> c = gt)"

text \<open>The identifier (quoted) states, the quote passed: the identifier, whether its quote closed it,
  whether a \<^verbatim>\<open>>\<close> did.\<close>

function quoted_identifier :: "char \<Rightarrow> tokenizer \<Rightarrow> string \<Rightarrow> string \<times> bool \<times> bool \<times> tokenizer" where
  "quoted_identifier quote t into =
     (if eof t 0 then (into, False, False, t)
      else let c = cur t in
        if c = quote then (into, True, False, advance 1 t)
        else if c = gt then (into, False, True, advance 1 t)
        else quoted_identifier quote (advance 1 t) (into @ (if c = nul then replacement else [c])))"
  by pat_completeness auto
termination
  by (relation "measure (\<lambda>(quote, t, into). length (input t) - at t)") (auto simp: eof_def advance_def)

declare quoted_identifier.simps [simp del]

text \<open>After the system identifier.\<close>

definition after_system :: "token \<Rightarrow> tokenizer \<Rightarrow> token \<times> tokenizer" where
  "after_system out t =
     (let t = skip_space t in
      if eof t 0 then doctype_at_eof out t
      else if cur t = gt then (out, advance 1 t)
      else bogus_doctype False out t)"

definition system_identifier :: "token \<Rightarrow> tokenizer \<Rightarrow> token \<times> tokenizer" where
  "system_identifier out t =
     (let (sys, closed, quirks, u) = quoted_identifier (cur t) (advance 1 t) [];
          out = out\<lparr>system_id_present := True, tok_system_id := sys,
                    force_quirks := force_quirks out \<or> quirks\<rparr>
      in if \<not> closed then if eof u 0 then doctype_at_eof out u else (out, u)
         else after_system out u)"

definition public_doctype :: "token \<Rightarrow> tokenizer \<Rightarrow> token \<times> tokenizer" where
  "public_doctype out t =
     (let t = skip_space t in
      if eof t 0 then doctype_at_eof out t
      else if cur t \<noteq> quotation \<and> cur t \<noteq> apostrophe
      then if cur t = gt then (out\<lparr>force_quirks := True\<rparr>, advance 1 t) else bogus_doctype True out t
      else let (pub, closed, quirks, u) = quoted_identifier (cur t) (advance 1 t) [];
               out = out\<lparr>tok_public_id := pub, force_quirks := force_quirks out \<or> quirks\<rparr>
        in if \<not> closed then if eof u 0 then doctype_at_eof out u else (out, u)
           else let t = skip_space u in
             if eof t 0 then doctype_at_eof out t
             else if cur t = gt then (out, advance 1 t)
             else if cur t \<noteq> quotation \<and> cur t \<noteq> apostrophe then bogus_doctype True out t
             else system_identifier out t)"

definition system_doctype :: "token \<Rightarrow> tokenizer \<Rightarrow> token \<times> tokenizer" where
  "system_doctype out t =
     (let t = skip_space t in
      if eof t 0 then doctype_at_eof out t
      else if cur t \<noteq> quotation \<and> cur t \<noteq> apostrophe
      then if cur t = gt then (out\<lparr>force_quirks := True\<rparr>, advance 1 t) else bogus_doctype True out t
      else system_identifier out t)"

definition doctype_state :: "tokenizer \<Rightarrow> token \<times> tokenizer" where
  "doctype_state t =
     (let out = blank Doctype; t = skip_space t in
      if eof t 0 then doctype_at_eof out t
      else if cur t = gt then (out\<lparr>force_quirks := True\<rparr>, advance 1 t)
      else let stop = run_end in_doctype_name (input t) (at t);
               out = out\<lparr>tok_name := doctype_name (substr (input t) (at t) (stop - at t))\<rparr>;
               t = t\<lparr>at := stop\<rparr>
        in if eof t 0 then doctype_at_eof out t
           else let t = skip_space t in
             if eof t 0 then doctype_at_eof out t
             else if cur t = gt then (out, advance 1 t)
             else if looking_at_ci t ''public'' then public_doctype out (advance 6 t)
             else if looking_at_ci t ''system'' then system_doctype out (advance 6 t)
             else bogus_doctype True out t)"

definition target_char :: "char \<Rightarrow> bool" where
  "target_char c \<longleftrightarrow> is_alnum c \<or> c = CHR ''-'' \<or> c = CHR ''_''"

function pi_data_loop :: "tokenizer \<Rightarrow> string \<Rightarrow> string \<times> tokenizer" where
  "pi_data_loop t data =
     (if \<not> eof t 0 \<and> cur t \<noteq> gt
      then pi_data_loop (snd (append_text t data)) (fst (append_text t data))
      else (data, t))"
  by pat_completeness auto
termination
proof (relation "measure (\<lambda>(t, data). length (input t) - at t)", goal_cases)
  case (2 t data)
  then show ?case using append_text_forward [of t data] onwardD(2) [OF onward_append_text [of t data]]
    by (auto simp: eof_def simp del: append_text_forward)
qed auto

declare pi_data_loop.simps [simp del]

definition processing_instruction_state :: "tokenizer \<Rightarrow> token \<times> tokenizer" where
  "processing_instruction_state t =
     (if eof t 1 then (end_token, (starve t)\<lparr>at := length (input t)\<rparr>)
      else if \<not> (is_alpha (peek t 1) \<or> peek t 1 = CHR ''_'') then bogus_comment_state t
      else let pos = run_end target_char (input t) (at t + 1) in
        if pos \<ge> length (input t) then (end_token, (starve t)\<lparr>at := length (input t)\<rparr>)
        else let target = substr (input t) (at t + 1) (pos - at t - 1); after = input t ! pos in
          if \<not> (is_space after \<or> after = CHR ''?'' \<or> after = gt) \<or> ascii_iequals target ''xml''
             \<or> ascii_iequals target ''xml-stylesheet''
          then bogus_comment_state t
          else let (data, t) = pi_data_loop (skip_space (t\<lparr>at := pos\<rparr>)) [] in
            if eof t 0 then (end_token, starve t)
            else ((blank Processing_instruction)
                    \<lparr>tok_name := target,
                     tok_data := (if data \<noteq> [] \<and> last data = CHR ''?'' then butlast data else data)\<rparr>,
                  advance 1 t))"

text \<open>The prefixes of a declaration that a truncated view may still complete.\<close>

definition declaration_cut :: "tokenizer \<Rightarrow> bool" where
  "declaration_cut t \<longleftrightarrow> truncated t \<and> length (input t) - at t < 8
     \<and> (\<exists>want \<in> set [''!--'', ''!doctype'', ''![CDATA['']. length (drop (at t) (input t)) < length want
          \<and> ascii_iequals (drop (at t) (input t)) (take (length (drop (at t) (input t))) want))"

definition markup_declaration_open_state :: "tokenizer \<Rightarrow> token \<times> tokenizer" where
  "markup_declaration_open_state t =
     (if declaration_cut t then (blank Character, starve t)
      else if looking_at t ''!--'' then comment_state (advance 3 t)
      else if looking_at_ci t ''!doctype'' then doctype_state (advance 8 t)
      else if looking_at t ''![CDATA[''
      then if cdata_allowed t then cdata_section_state (advance 8 t) else bogus_comment_state (advance 1 t)
      else bogus_comment_state (advance 1 t))"

section \<open>Text states\<close>

text \<open>One round of the loop of a text state: it goes on, or it stops with the data of the run, and
  whether the state then goes on to \<^verbatim>\<open>tag_open_state\<close> (only before any data).\<close>

datatype text_flow = Go_on string tokenizer | Stop string bool tokenizer

fun flow_tokenizer :: "text_flow \<Rightarrow> tokenizer" where
  "flow_tokenizer (Go_on d t) = t"
| "flow_tokenizer (Stop d b t) = t"

text \<open>The run is cut by the end of a truncated view.\<close>

definition starve_run :: "string \<Rightarrow> tokenizer \<Rightarrow> text_flow" where
  "starve_run data t = Stop data False (if data = [] then starve t else t)"

definition text_append :: "tokenizer \<Rightarrow> string \<Rightarrow> text_flow" where
  "text_append t data = Go_on (fst (append_text t data)) (snd (append_text t data))"

definition text_reference :: "entity_ref list \<Rightarrow> tokenizer \<Rightarrow> string \<Rightarrow> text_flow" where
  "text_reference E t data =
     Go_on (fst (character_reference E False t data)) (snd (character_reference E False t data))"

definition opens_markup :: "char \<Rightarrow> bool" where
  "opens_markup c \<longleftrightarrow> is_alpha c \<or> c = CHR ''/'' \<or> c = CHR ''!'' \<or> c = CHR ''?''"

definition data_step :: "entity_ref list \<Rightarrow> tokenizer \<Rightarrow> string \<Rightarrow> text_flow" where
  "data_step E t data =
     (if eof t 0 then Stop data False t
      else if cut_at t (at t) then starve_run data t
      else if cur t = lt \<and> opens_markup (peek t 1) then Stop data (data = []) t
      else if cur t = CHR ''&'' then text_reference E t data
      else text_append t data)"

definition appropriate_end_tag_ahead :: "tokenizer \<Rightarrow> bool \<times> tokenizer" where
  "appropriate_end_tag_ahead t =
     (if close_tag t = [] then (False, t)
      else let stop = at t + 2 + length (close_tag t) in
        if stop > length (input t)
        then let have = drop (at t + 2) (input t) in
          (False, if truncated t \<and> ascii_iequals have (take (length have) (close_tag t)) then starve t else t)
        else if \<not> ascii_iequals (substr (input t) (at t + 2) (length (close_tag t))) (close_tag t) then (False, t)
        else if stop = length (input t) then (False, starve t)
        else let follows = input t ! stop in (is_space follows \<or> follows = CHR ''/'' \<or> follows = gt, t))"

definition raw_less_than :: "tokenizer \<Rightarrow> string \<Rightarrow> text_flow" where
  "raw_less_than t data =
     (if truncated t \<and> eof t 1 then starve_run data t
      else let (ends, t) = (if peek t 1 = CHR ''/'' then appropriate_end_tag_ahead t else (False, t)) in
        if ends then if data \<noteq> [] then Stop data False t else Stop data True (t\<lparr>model := Data\<rparr>)
        else if starved t then Stop data False t
        else text_append t data)"

definition raw_step :: "entity_ref list \<Rightarrow> bool \<Rightarrow> tokenizer \<Rightarrow> string \<Rightarrow> text_flow" where
  "raw_step E decode_references t data =
     (if eof t 0 then Stop data False t
      else if cur t = lt then raw_less_than t data
      else if decode_references \<and> cur t = CHR ''&''
      then if cut_at t (at t) then starve_run data t else text_reference E t data
      else if cur t = cr \<and> cut_at t (at t) then starve_run data t
      else text_append t data)"

definition ends_tag_name :: "char \<Rightarrow> bool" where
  "ends_tag_name c \<longleftrightarrow> is_space c \<or> c = CHR ''/'' \<or> c = gt"

text \<open>The double escape start and end states: the name at \<open>skip\<close> is copied, and when it is
  \<^verbatim>\<open>script\<close> followed by the end of a tag name the escape level changes.\<close>

definition script_name :: "nat \<Rightarrow> nat \<Rightarrow> tokenizer \<Rightarrow> string \<Rightarrow> text_flow" where
  "script_name skip level t data =
     (let i = run_end is_alnum (input t) (at t + skip) in
      if truncated t \<and> i \<ge> length (input t) then starve_run data t
      else let nm = substr (input t) (at t + skip) (i - at t - skip);
               follows = (if i < length (input t) then input t ! i else nul);
               u = (if ascii_iequals nm ''script'' \<and> ends_tag_name follows then t\<lparr>script_escape := level\<rparr> else t)
        in Go_on (data @ substr (input t) (at t) (i - at t)) (u\<lparr>at := i\<rparr>))"

definition script_less_than :: "tokenizer \<Rightarrow> string \<Rightarrow> text_flow" where
  "script_less_than t data =
     (if truncated t \<and> eof t 1 then starve_run data t
      else if peek t 1 = CHR ''/''
      then let (ends, t) = (if script_escape t \<noteq> 2 then appropriate_end_tag_ahead t else (False, t)) in
        if ends
        then if data \<noteq> [] then Stop data False t else Stop data True (t\<lparr>model := Data, script_escape := 0\<rparr>)
        else if starved t then Stop data False t
        else if script_escape t = 2 then script_name 2 1 t data
        else text_append t data
      else if peek t 1 = CHR ''!'' \<and> script_escape t = 0
      then if truncated t \<and> length (input t) - at t < 4 then starve_run data t
        else if looking_at t ''<!--'' then Go_on (data @ ''<!--'') (advance 4 (t\<lparr>script_escape := 1\<rparr>))
        else text_append t data
      else if script_escape t = 1 \<and> is_alpha (peek t 1) then script_name 1 2 t data
      else text_append t data)"

definition script_step :: "tokenizer \<Rightarrow> string \<Rightarrow> text_flow" where
  "script_step t data =
     (if eof t 0 then Stop data False t
      else if cur t = lt then script_less_than t data
      else if cur t = CHR ''-'' \<and> script_escape t \<noteq> 0
      then if truncated t \<and> length (input t) - at t < 3 then starve_run data t
        else if looking_at t ''-->'' then Go_on (data @ ''-->'') (advance 3 (t\<lparr>script_escape := 0\<rparr>))
        else text_append t data
      else if cur t = cr \<and> cut_at t (at t) then starve_run data t
      else text_append t data)"

definition plaintext_step :: "tokenizer \<Rightarrow> string \<Rightarrow> text_flow" where
  "plaintext_step t data =
     (if eof t 0 then Stop data False t
      else if cur t = cr \<and> cut_at t (at t) then starve_run data t
      else text_append t data)"

text \<open>A round that goes on goes forward.\<close>

lemma appropriate_end_tag_ahead_onward [simp]: "onward t (snd (appropriate_end_tag_ahead t))"
  by (simp add: appropriate_end_tag_ahead_def Let_def)

lemma appropriate_end_tag_ahead_at [simp]:
  "at (snd (appropriate_end_tag_ahead t)) = at t" "input (snd (appropriate_end_tag_ahead t)) = input t"
  "script_escape (snd (appropriate_end_tag_ahead t)) = script_escape t"
  by (simp_all add: appropriate_end_tag_ahead_def Let_def starve_def)

lemma starve_run_stops [simp]: "starve_run data t \<noteq> Go_on d u"
  by (simp add: starve_run_def)

lemma text_append_forward:
  "text_append t data = Go_on d u \<Longrightarrow> at t < at u \<and> input u = input t"
  using append_text_forward [of t data]
  by (auto simp: text_append_def append_text_def Let_def simp del: append_text_forward)

lemma text_reference_forward:
  "text_reference E t data = Go_on d u \<Longrightarrow> \<not> eof t 0 \<Longrightarrow> at t < at u \<and> input u = input t"
  using character_reference_onward(2) [of t E False data] character_reference_input [of t E False data]
  by (auto simp: text_reference_def)

lemma script_name_forward:
  assumes "0 < skip" "script_name skip level t data = Go_on d u"
  shows "at t < at u \<and> input u = input t"
proof -
  define i where "i = run_end is_alnum (input t) (at t + skip)"
  have "at t < i"
    using assms(1) run_end_ge [of "at t + skip" is_alnum "input t"] unfolding i_def by linarith
  moreover have "at u = i \<and> input u = input t"
    using assms(2) unfolding script_name_def Let_def i_def [symmetric]
    by (auto split: if_split_asm)
  ultimately show ?thesis by simp
qed

lemma data_step_forward:
  assumes "data_step E t data = Go_on d u"
  shows "at t < at u \<and> input u = input t \<and> at t < length (input t)"
  using assms text_append_forward [of t data d u] text_reference_forward [of E t data d u]
  by (auto simp: data_step_def eof_def split: if_splits)

lemma raw_step_forward:
  assumes "raw_step E r t data = Go_on d u"
  shows "at t < at u \<and> input u = input t \<and> at t < length (input t)"
proof -
  define v where "v = snd (if peek t 1 = CHR ''/'' then appropriate_end_tag_ahead t else (False, t))"
  have v: "at v = at t" "input v = input t"
    by (simp_all add: v_def)
  show ?thesis
    using assms text_append_forward [of t data d u] text_append_forward [of v data d u]
      text_reference_forward [of E t data d u] v
    by (auto simp: raw_step_def raw_less_than_def Let_def case_prod_beta v_def [symmetric] eof_def split: if_splits)
qed

lemma script_less_than_forward:
  assumes "script_less_than t data = Go_on d u"
  shows "at t < at u \<and> input u = input t"
proof -
  define v where "v = snd (if script_escape t \<noteq> 2 then appropriate_end_tag_ahead t else (False, t))"
  have v: "at v = at t" "input v = input t"
    by (simp_all add: v_def)
  consider "script_name 2 1 v data = Go_on d u" | "text_append v data = Go_on d u"
    | "script_name 1 2 t data = Go_on d u" | "text_append t data = Go_on d u"
    | "u = advance 4 (t\<lparr>script_escape := 1\<rparr>)"
    using assms unfolding script_less_than_def Let_def case_prod_beta v_def [symmetric]
    by (metis text_flow.distinct(1) text_flow.inject(1) starve_run_stops)
  then show ?thesis
    using v script_name_forward [of 1 2 t data d u] script_name_forward [of 2 1 v data d u]
      text_append_forward [of t data d u] text_append_forward [of v data d u]
    by cases auto
qed

lemma script_step_forward:
  assumes "script_step t data = Go_on d u"
  shows "at t < at u \<and> input u = input t \<and> at t < length (input t)"
  using assms script_less_than_forward [of t data d u] text_append_forward [of t data d u]
  by (auto simp: script_step_def eof_def split: if_splits)

lemma plaintext_step_forward:
  assumes "plaintext_step t data = Go_on d u"
  shows "at t < at u \<and> input u = input t \<and> at t < length (input t)"
  using assms text_append_forward [of t data d u]
  by (auto simp: plaintext_step_def eof_def split: if_splits)

text \<open>The loops.\<close>

function data_loop :: "entity_ref list \<Rightarrow> tokenizer \<Rightarrow> string \<Rightarrow> string \<times> bool \<times> tokenizer" where
  "data_loop E t data =
     (case data_step E t data of Stop d opens u \<Rightarrow> (d, opens, u) | Go_on d u \<Rightarrow> data_loop E u d)"
  by pat_completeness auto
termination
  by (relation "measure (\<lambda>(E, t, data). length (input t) - at t)") (auto dest!: data_step_forward)

function raw_loop ::
    "entity_ref list \<Rightarrow> bool \<Rightarrow> tokenizer \<Rightarrow> string \<Rightarrow> string \<times> bool \<times> tokenizer" where
  "raw_loop E decode_references t data =
     (case raw_step E decode_references t data of
        Stop d opens u \<Rightarrow> (d, opens, u)
      | Go_on d u \<Rightarrow> raw_loop E decode_references u d)"
  by pat_completeness auto
termination
  by (relation "measure (\<lambda>(E, r, t, data). length (input t) - at t)") (auto dest!: raw_step_forward)

function script_loop :: "tokenizer \<Rightarrow> string \<Rightarrow> string \<times> bool \<times> tokenizer" where
  "script_loop t data =
     (case script_step t data of Stop d opens u \<Rightarrow> (d, opens, u) | Go_on d u \<Rightarrow> script_loop u d)"
  by pat_completeness auto
termination
  by (relation "measure (\<lambda>(t, data). length (input t) - at t)") (auto dest!: script_step_forward)

function plaintext_loop :: "tokenizer \<Rightarrow> string \<Rightarrow> string \<times> bool \<times> tokenizer" where
  "plaintext_loop t data =
     (case plaintext_step t data of Stop d opens u \<Rightarrow> (d, opens, u) | Go_on d u \<Rightarrow> plaintext_loop u d)"
  by pat_completeness auto
termination
  by (relation "measure (\<lambda>(t, data). length (input t) - at t)") (auto dest!: plaintext_step_forward)

declare data_loop.simps [simp del] raw_loop.simps [simp del] script_loop.simps [simp del]
  plaintext_loop.simps [simp del]

section \<open>The next token\<close>

definition character_token :: "string \<Rightarrow> token" where
  "character_token data = (blank Character)\<lparr>tok_data := data\<rparr>"

definition emit :: "token \<times> tokenizer \<Rightarrow> token option \<times> tokenizer" where
  "emit r = (Some (fst r), snd r)"

definition end_tag_open_state :: "entity_ref list \<Rightarrow> tokenizer \<Rightarrow> token option \<times> tokenizer" where
  "end_tag_open_state E t =
     (let t = advance 1 t in
      if eof t 0 then (Some (character_token ''</''), starve t)
      else if is_alpha (cur t) then emit (tag_name_state E t (blank End_tag))
      else if cur t = gt then (None, advance 1 t)
      else emit (bogus_comment_state t))"

definition tag_open_state :: "entity_ref list \<Rightarrow> tokenizer \<Rightarrow> token option \<times> tokenizer" where
  "tag_open_state E t =
     (let t = advance 1 t in
      if eof t 0 then (Some (character_token ''<''), starve t)
      else if cur t = CHR ''!'' then emit (markup_declaration_open_state t)
      else if cur t = CHR ''/'' then end_tag_open_state E t
      else if cur t = CHR ''?'' then emit (processing_instruction_state t)
      else if is_alpha (cur t) then emit (tag_name_state E t (blank Start_tag))
      else (Some (character_token ''<''), t))"

text \<open>A text state: its loop, then the tag it ran into, if any.\<close>

definition text_state ::
    "entity_ref list \<Rightarrow> string \<times> bool \<times> tokenizer \<Rightarrow> token option \<times> tokenizer" where
  "text_state E r =
     (case r of (data, opens, t) \<Rightarrow>
        if opens then tag_open_state E t else (Some (character_token data), t))"

definition data_state :: "entity_ref list \<Rightarrow> tokenizer \<Rightarrow> token option \<times> tokenizer" where
  "data_state E t = text_state E (data_loop E t [])"

definition rcdata_or_rawtext_state ::
    "entity_ref list \<Rightarrow> bool \<Rightarrow> tokenizer \<Rightarrow> token option \<times> tokenizer" where
  "rcdata_or_rawtext_state E decode_references t = text_state E (raw_loop E decode_references t [])"

definition script_data_state :: "entity_ref list \<Rightarrow> tokenizer \<Rightarrow> token option \<times> tokenizer" where
  "script_data_state E t = text_state E (script_loop t [])"

definition plaintext_state :: "entity_ref list \<Rightarrow> tokenizer \<Rightarrow> token option \<times> tokenizer" where
  "plaintext_state E t = text_state E (plaintext_loop t [])"

text \<open>The \<^verbatim>\<open></>\<close>s that emit nothing.\<close>

function skip_empty_end_tags :: "tokenizer \<Rightarrow> tokenizer" where
  "skip_empty_end_tags t =
     (if model t = Data \<and> looking_at t ''</>'' then skip_empty_end_tags (advance 3 t) else t)"
  by pat_completeness auto
termination
  by (relation "measure (\<lambda>t. length (input t) - at t)")
    (auto simp: looking_at_def substr_def dest!: arg_cong [where f = length])

declare skip_empty_end_tags.simps [simp del]

definition state_of_model :: "entity_ref list \<Rightarrow> tokenizer \<Rightarrow> token option \<times> tokenizer" where
  "state_of_model E t =
     (case model t of
        Data \<Rightarrow> data_state E t
      | Rcdata \<Rightarrow> rcdata_or_rawtext_state E True t
      | Rawtext \<Rightarrow> rcdata_or_rawtext_state E False t
      | Script \<Rightarrow> script_data_state E t
      | Plaintext \<Rightarrow> plaintext_state E t)"

section \<open>Every state goes on\<close>

lemma tag_name_loop_onward: "onward t (snd (tag_name_loop t nm))"
proof (induction t nm rule: tag_name_loop.induct)
  case (1 t nm)
  then show ?case
    by (subst tag_name_loop.simps) (auto simp: Let_def intro: onward_oneI)
qed

lemma onward_skip_after: "onward t u \<Longrightarrow> onward t (skip_space u)"
  by (rule onward_trans [OF _ skip_space_onward])

lemma onward_one_after: "onward t u \<Longrightarrow> \<not> eof u 0 \<Longrightarrow> onward t (advance 1 u)"
  by (rule onward_trans [OF _ onward_one])

lemma attribute_loop_onward: "onward t (snd (attribute_loop E t out names))"
proof (induction E t out names rule: attribute_loop.induct)
  case (1 E t out names)
  define u where "u = skip_space t"
  define nm where "nm = attribute_name_loop (if cur u = CHR ''='' then advance 1 u else u)
                          (if cur u = CHR ''='' then ''='' else [])"
  define v where "v = skip_space (snd nm)"
  define r where "r = attribute_rest E v"
  have u: "onward t u"
    by (simp add: u_def)
  show ?case
  proof (cases "eof u 0 \<or> cur u = gt")
    case True
    with u show ?thesis
      by (subst attribute_loop.simps) (auto simp: Let_def u_def [symmetric] intro: onward_one_after)
  next
    case False
    then have e: "\<not> eof u 0" "cur u \<noteq> gt"
      by auto
    show ?thesis
    proof (cases "cur u = CHR ''/''")
      case True
      have w: "onward t (advance 1 u)"
        by (rule onward_one_after [OF u e(1)])
      have "onward t (snd (attribute_loop E (advance 1 u) out names))"
        if "\<not> eof (advance 1 u) 0" "cur (advance 1 u) \<noteq> gt"
        using onward_trans [OF w 1(1) [OF u_def e(1) refl e(2) True refl that]] .
      with True e w show ?thesis
        by (subst attribute_loop.simps) (auto simp: Let_def u_def [symmetric] intro: onward_one_after)
    next
      case False
      have "onward t (if cur u = CHR ''='' then advance 1 u else u)"
        using u e by (auto intro: onward_one_after)
      then have "onward t (snd nm)"
        unfolding nm_def by (rule onward_trans [OF _ attribute_name_loop_onward])
      then have v: "onward t v"
        unfolding v_def by (rule onward_skip_after)
      have r: "onward t (snd r)" if "\<not> eof v 0"
        unfolding r_def by (rule onward_trans [OF v attribute_rest_onward [OF that]])
      have "onward t (snd (attribute_loop E (snd r)
              (fst (add_attribute \<lparr>attr_name = fst nm, attr_value = x\<rparr> out names))
              (snd (add_attribute \<lparr>attr_name = fst nm, attr_value = x\<rparr> out names))))"
        if "\<not> eof v 0" "fst r = Some x" for x
        using onward_trans [OF r [OF that(1)] 1(2) [OF u_def e(1) refl e(2) False nm_def v_def that(1) r_def that(2) refl]] .
      with False e v r show ?thesis
        by (subst attribute_loop.simps)
          (auto simp: Let_def u_def [symmetric] nm_def [symmetric] v_def [symmetric] r_def [symmetric]
            split: option.split)
    qed
  qed
qed

lemma tag_name_state_onward: "onward t (snd (tag_name_state E t out))"
  using tag_name_loop_onward [of t "tok_name out"]
  by (auto simp: tag_name_state_def Let_def case_prod_beta attributes_def
      intro: onward_trans attribute_loop_onward)

lemma comment_loop_onward: "onward t (snd (comment_loop t data))"
proof (induction t data rule: comment_loop.induct)
  case (1 t data)
  then show ?case
    using comment_step_onward [of t data]
    by (subst comment_loop.simps) (auto split: flow.split intro: onward_trans)
qed

lemma comment_state_onward: "onward t (snd (comment_state t))"
proof -
  have "onward t (advance 1 (starve t))" if "\<not> eof t 0"
    using onward_trans [OF onward_starve onward_one, of t] that by (simp add: eof_def)
  moreover have "onward t (advance 2 t)" if "peek t 1 = gt"
    using that by (intro onward_advance) (auto simp: peek_def split: if_splits)
  ultimately show ?thesis
    using comment_loop_onward [of t "[]"]
    by (auto simp: comment_state_def Let_def case_prod_beta)
qed

lemma bogus_comment_loop_onward: "onward t (snd (bogus_comment_loop t data))"
proof (induction t data rule: bogus_comment_loop.induct)
  case (1 t data)
  then show ?case
    by (subst bogus_comment_loop.simps)
      (auto simp: Let_def intro: onward_oneI onward_trans [OF onward_append_text])
qed

lemma bogus_comment_state_onward: "onward t (snd (bogus_comment_state t))"
  using bogus_comment_loop_onward [of t "[]"] by (simp add: bogus_comment_state_def case_prod_beta)

lemma append_until_onward:
  "stop \<le> length (input t) \<Longrightarrow> onward t (snd (append_until stop t data))"
proof (induction stop t data rule: append_until.induct)
  case (1 stop t data)
  have e: "\<not> eof t 0" if "at t < stop"
    using that 1(2) by (simp add: eof_def)
  show ?case
    using 1 onward_trans [OF onward_append_text [OF e]] onwardD(2) [OF onward_append_text [OF e], of data]
    by (subst append_until.simps) auto
qed

lemma append_text_stops:
  assumes "at t < stop" "stop < length (input t) \<Longrightarrow> input t ! stop \<noteq> lf"
  shows "at (snd (append_text t data)) \<le> stop"
proof -
  have "at t + 1 \<noteq> stop" if "\<not> eof (advance 1 t) 0" "cur (advance 1 t) = lf"
    using that assms(2) by (auto simp: eof_def cur_def)
  then show ?thesis
    using assms(1) by (auto simp: append_text_def Let_def)
qed

lemma append_until_stops:
  assumes "at t \<le> stop" "stop \<le> length (input t)" "stop < length (input t) \<Longrightarrow> input t ! stop \<noteq> lf"
  shows "at (snd (append_until stop t data)) = stop"
  using assms
proof (induction stop t data rule: append_until.induct)
  case (1 stop t data)
  show ?case
  proof (cases "at t < stop")
    case True
    then have e: "\<not> eof t 0"
      using 1(3) by (simp add: eof_def)
    have "input (snd (append_text t data)) = input t"
      using onwardD(2) [OF onward_append_text [OF e]] .
    with True 1 show ?thesis
      using append_text_stops [OF True 1(4)]
      by (subst append_until.simps) simp
  next
    case False
    with 1(2) show ?thesis
      by (subst append_until.simps) simp
  qed
qed

lemma find_text_Some:
  "find_text what s = Some i \<Longrightarrow> i + length what \<le> length s \<and> take (length what) (drop i s) = what"
proof (induction what s arbitrary: i rule: find_text.induct)
  case (2 what c cs)
  show ?case
  proof (cases "take (length what) (c # cs) = what")
    case True
    moreover from this have "length what \<le> length (c # cs)"
      by (metis length_take min.cobounded1)
    ultimately show ?thesis
      using 2(2) by auto
  next
    case False
    with 2(2) obtain j where "find_text what cs = Some j" "i = Suc j"
      by auto
    with 2(1) [OF False] show ?thesis by auto
  qed
qed (auto split: if_splits)

lemma onward_at:
  assumes "onward t u" "at u \<le> n" "n \<le> length (input t)"
  shows "onward t (u\<lparr>at := n\<rparr>)"
proof -
  have eq: "u = t\<lparr>at := at u, starved := starved u\<rparr>"
    using assms(1) by (simp add: onward_def)
  have "u\<lparr>at := n\<rparr> = t\<lparr>at := n, starved := starved u\<rparr>"
    by (subst eq) simp
  with assms onwardD(1,9,10) [OF assms(1)] show ?thesis
    unfolding onward_def by simp
qed

lemma cdata_section_state_onward: "onward t (snd (cdata_section_state t))"
proof (cases "find_text '']]>'' (drop (at t) (input t))")
  case None
  then show ?thesis
    using append_until_onward [of "length (input t)" t "[]"]
    by (simp add: cdata_section_state_def Let_def case_prod_beta)
next
  case (Some i)
  from find_text_Some [OF this]
  have i: "at t + i + 3 \<le> length (input t)" and eq: "take 3 (drop (at t + i) (input t)) = '']]>''"
    by (auto simp: add.commute numeral_3_eq_3 One_nat_def)
  have "input t ! (at t + i) = take 3 (drop (at t + i) (input t)) ! 0"
    using i by simp
  also have "\<dots> \<noteq> lf"
    unfolding eq by simp
  finally have "input t ! (at t + i) \<noteq> lf" .
  then have "at (snd (append_until (at t + i) t [])) = at t + i"
    using i(1) by (intro append_until_stops) auto
  with Some i show ?thesis
    using append_until_onward [of "at t + i" t "[]"]
    by (simp add: cdata_section_state_def Let_def case_prod_beta onward_at)
qed

lemma doctype_at_eof_onward [simp]: "onward t (snd (doctype_at_eof out t))"
  by (simp add: doctype_at_eof_def)

lemma bogus_doctype_onward [simp]: "onward t (snd (bogus_doctype b out t))"
  using onward_run [of t "\<lambda>c. c \<noteq> gt"]
  by (auto simp: bogus_doctype_def Let_def intro: onward_one_after)

lemma quoted_identifier_onward: "onward t (snd (snd (snd (quoted_identifier q t into))))"
proof (induction q t into rule: quoted_identifier.induct)
  case (1 quote t into)
  then show ?case
    by (subst quoted_identifier.simps) (auto simp: Let_def intro: onward_oneI)
qed

lemma after_system_onward: "onward t (snd (after_system out t))"
  using onward_trans [OF skip_space_onward doctype_at_eof_onward] onward_trans [OF skip_space_onward bogus_doctype_onward]
  by (simp add: after_system_def Let_def onward_one_after onward_skip_after)

lemma system_identifier_onward:
  assumes "\<not> eof t 0"
  shows "onward t (snd (system_identifier out t))"
proof -
  define q where "q = quoted_identifier (cur t) (advance 1 t) []"
  have u: "onward t (snd (snd (snd q)))"
    unfolding q_def by (rule onward_oneI [OF assms quoted_identifier_onward])
  then show ?thesis
    using onward_trans [OF u doctype_at_eof_onward] onward_trans [OF u after_system_onward]
    by (simp add: system_identifier_def Let_def case_prod_beta q_def [symmetric])
qed

lemma system_doctype_onward: "onward t (snd (system_doctype out t))"
proof -
  define u where "u = skip_space t"
  have u: "onward t u"
    by (simp add: u_def)
  show ?thesis
    using onward_trans [OF u doctype_at_eof_onward] onward_trans [OF u bogus_doctype_onward]
      onward_trans [OF u system_identifier_onward] onward_one_after [OF u]
    by (simp add: system_doctype_def Let_def u_def [symmetric])
qed

lemma public_doctype_onward: "onward t (snd (public_doctype out t))"
proof -
  define u where "u = skip_space t"
  define q where "q = quoted_identifier (cur u) (advance 1 u) []"
  define v where "v = snd (snd (snd q))"
  define w where "w = skip_space v"
  have u: "onward t u"
    by (simp add: u_def)
  have v: "onward t v" and w: "onward t w" if "\<not> eof u 0"
    using onward_trans [OF u onward_oneI [OF that quoted_identifier_onward]]
    by (simp_all add: v_def q_def w_def onward_skip_after)
  show ?thesis
    using onward_trans [OF u doctype_at_eof_onward] onward_trans [OF u bogus_doctype_onward] onward_one_after [OF u]
      v w onward_trans [OF v doctype_at_eof_onward] onward_trans [OF w doctype_at_eof_onward]
      onward_one_after [OF w] onward_trans [OF w bogus_doctype_onward] onward_trans [OF w system_identifier_onward]
    by (simp add: public_doctype_def Let_def case_prod_beta u_def [symmetric] q_def [symmetric] v_def [symmetric]
        w_def [symmetric])
qed

lemma looking_at_ci_bound: "looking_at_ci t what \<Longrightarrow> what \<noteq> [] \<Longrightarrow> at t + length what \<le> length (input t)"
  by (cases "at t \<le> length (input t)") (auto simp: looking_at_ci_def)

lemma looking_at_bound: "looking_at t what \<Longrightarrow> what \<noteq> [] \<Longrightarrow> at t + length what \<le> length (input t)"
  by (cases "at t \<le> length (input t)") (auto simp: looking_at_def substr_def dest!: arg_cong [where f = length])

lemma doctype_state_onward: "onward t (snd (doctype_state t))"
proof -
  define u where "u = skip_space t"
  define v where "v = u\<lparr>at := run_end in_doctype_name (input u) (at u)\<rparr>"
  define w where "w = skip_space v"
  have u: "onward t u"
    by (simp add: u_def)
  have v: "onward t v"
    unfolding v_def by (rule onward_trans [OF u onward_run])
  have w: "onward t w"
    unfolding w_def by (rule onward_skip_after [OF v])
  have k: "onward t (advance 6 w)" if "looking_at_ci w ''public'' \<or> looking_at_ci w ''system''"
    using that looking_at_ci_bound [of w "''public''"] looking_at_ci_bound [of w "''system''"]
    by (intro onward_trans [OF w onward_advance]) auto
  show ?thesis
    using onward_trans [OF u doctype_at_eof_onward] onward_one_after [OF u] onward_trans [OF v doctype_at_eof_onward]
      onward_trans [OF w doctype_at_eof_onward] onward_one_after [OF w] onward_trans [OF w bogus_doctype_onward]
      onward_trans [OF k public_doctype_onward] onward_trans [OF k system_doctype_onward]
    by (simp add: doctype_state_def Let_def u_def [symmetric] v_def [symmetric] w_def [symmetric])
qed

lemma pi_data_loop_onward: "onward t (snd (pi_data_loop t data))"
proof (induction t data rule: pi_data_loop.induct)
  case (1 t data)
  then show ?case
    by (subst pi_data_loop.simps) (auto intro: onward_trans [OF onward_append_text])
qed

lemma processing_instruction_state_onward:
  assumes "at t \<le> length (input t)"
  shows "onward t (snd (processing_instruction_state t))"
proof -
  define pos where "pos = run_end target_char (input t) (at t + 1)"
  define r where "r = pi_data_loop (skip_space (t\<lparr>at := pos\<rparr>)) []"
  have e: "onward t ((starve t)\<lparr>at := length (input t)\<rparr>)"
    using assms by (intro onward_at) simp_all
  have "at t \<le> pos"
    using run_end_ge [of "at t + 1" target_char "input t"] unfolding pos_def by linarith
  then have "onward t (t\<lparr>at := pos\<rparr>)" if "pos < length (input t)"
    using that by (intro onward_at) auto
  then have r: "onward t (snd r)" if "pos < length (input t)"
    unfolding r_def using that by (blast intro: onward_trans onward_skip_after pi_data_loop_onward)
  show ?thesis
    using e bogus_comment_state_onward [of t] r onward_one_after [OF r]
    by (simp add: processing_instruction_state_def Let_def case_prod_beta pos_def [symmetric] r_def [symmetric])
qed

lemma markup_declaration_open_state_onward:
  assumes "\<not> eof t 0"
  shows "onward t (snd (markup_declaration_open_state t))"
proof -
  have a: "onward t (advance 3 t)" if "looking_at t ''!--''"
    using looking_at_bound [OF that] by (intro onward_advance) simp
  have b: "onward t (advance 8 t)" if "looking_at_ci t ''!doctype'' \<or> looking_at t ''![CDATA[''"
    using that looking_at_ci_bound [of t "''!doctype''"] looking_at_bound [of t "''![CDATA[''"]
    by (intro onward_advance) auto
  show ?thesis
    using onward_trans [OF a comment_state_onward] onward_trans [OF b doctype_state_onward]
      onward_trans [OF b cdata_section_state_onward] onward_oneI [OF assms bogus_comment_state_onward]
    by (simp add: markup_declaration_open_state_def)
qed

lemma end_tag_open_state_onward:
  assumes "\<not> eof t 0"
  shows "onward (advance 1 t) (snd (end_tag_open_state E t))"
    and "fst (end_tag_open_state E t) = None \<Longrightarrow> at t + 1 < at (snd (end_tag_open_state E t))"
  using tag_name_state_onward [of "advance 1 t" E] bogus_comment_state_onward [of "advance 1 t"]
  by (auto simp: end_tag_open_state_def Let_def emit_def)

lemma tag_open_state_onward:
  assumes "\<not> eof t 0"
  shows "onward (advance 1 t) (snd (tag_open_state E t))"
    and "fst (tag_open_state E t) = None \<Longrightarrow> at t < at (snd (tag_open_state E t))"
proof -
  have "onward (advance 1 t) (snd (end_tag_open_state E (advance 1 t)))" if "\<not> eof (advance 1 t) 0"
    by (rule onward_oneI [OF that end_tag_open_state_onward(1) [OF that]])
  then show "onward (advance 1 t) (snd (tag_open_state E t))"
    using markup_declaration_open_state_onward [of "advance 1 t"] processing_instruction_state_onward [of "advance 1 t"]
      tag_name_state_onward [of "advance 1 t" E]
    by (auto simp: tag_open_state_def Let_def emit_def eof_def)
  then show "at t < at (snd (tag_open_state E t))"
    using onwardD(1) by fastforce
qed

text \<open>The text states also change the content model and the script escape level.\<close>

definition further :: "tokenizer \<Rightarrow> tokenizer \<Rightarrow> bool" where
  "further t u \<longleftrightarrow> onward t (u\<lparr>model := model t, script_escape := script_escape t\<rparr>)"

lemma onward_update: "onward t u \<Longrightarrow> onward (t\<lparr>model := m, script_escape := e\<rparr>) (u\<lparr>model := m, script_escape := e\<rparr>)"
proof -
  assume o: "onward t u"
  have eq: "u = t\<lparr>at := at u, starved := starved u\<rparr>"
    using o by (simp add: onward_def)
  have "u\<lparr>model := m, script_escape := e\<rparr>
      = t\<lparr>model := m, script_escape := e, at := at u, starved := starved u\<rparr>"
    by (subst eq) simp
  then show ?thesis
    using onwardD(1,8,9,10) [OF o] unfolding onward_def by simp
qed

lemma further_onward [simp]: "onward t u \<Longrightarrow> further t u"
  using onward_update [where t = t and u = u and m = "model t" and e = "script_escape t"] by (simp add: further_def)

lemma further_refl [simp]: "further t t"
  by simp

lemma further_trans [trans]: "further t u \<Longrightarrow> further u v \<Longrightarrow> further t v"
  using onward_update [where t = u and u = "v\<lparr>model := model u, script_escape := script_escape u\<rparr>"
      and m = "model t" and e = "script_escape t"]
    onward_trans [of t "u\<lparr>model := model t, script_escape := script_escape t\<rparr>"
      "v\<lparr>model := model t, script_escape := script_escape t\<rparr>"]
  by (simp add: further_def)

lemma furtherD:
  assumes "further t u"
  shows "at t \<le> at u" "input u = input t" "close_tag u = close_tag t" "cdata_allowed u = cdata_allowed t"
    "truncated u = truncated t" "at t \<le> length (input t) \<Longrightarrow> at u \<le> length (input t)"
    "starved t \<Longrightarrow> starved u" "starved u \<Longrightarrow> starved t \<or> truncated t"
  using onwardD(1,2,4,6-10) [OF assms [unfolded further_def]] by simp_all

lemma further_model [simp]: "further t (t\<lparr>model := m\<rparr>)" "further t (t\<lparr>script_escape := e\<rparr>)"
    "further t (t\<lparr>model := m, script_escape := e\<rparr>)"
  by (simp_all add: further_def)

lemma further_at: "further t u \<Longrightarrow> at u \<le> n \<Longrightarrow> n \<le> length (input t) \<Longrightarrow> further t (u\<lparr>at := n\<rparr>)"
proof -
  assume a: "further t u" "at u \<le> n" "n \<le> length (input t)"
  have "onward t (u\<lparr>model := model t, script_escape := script_escape t, at := n\<rparr>)"
    by (rule onward_at) (use a in \<open>simp_all add: further_def\<close>)
  moreover have eq: "u\<lparr>at := n, model := model t, script_escape := script_escape t\<rparr>
      = u\<lparr>model := model t, script_escape := script_escape t, at := n\<rparr>"
    by simp
  ultimately show ?thesis
    unfolding further_def eq by blast
qed

lemma starve_run_further [simp]: "further t (flow_tokenizer (starve_run data t))"
  by (simp add: starve_run_def)

lemma text_append_further [simp]: "\<not> eof t 0 \<Longrightarrow> further t (flow_tokenizer (text_append t data))"
  by (simp add: text_append_def)

lemma text_reference_further [simp]: "\<not> eof t 0 \<Longrightarrow> further t (flow_tokenizer (text_reference E t data))"
  by (simp add: text_reference_def character_reference_onward(1))

lemma script_name_further:
  assumes "at t + skip \<le> length (input t)"
  shows "further t (flow_tokenizer (script_name skip level t data))"
proof -
  define i where "i = run_end is_alnum (input t) (at t + skip)"
  have "at t \<le> i" "i \<le> length (input t)"
    using assms run_end_ge [of "at t + skip" is_alnum "input t"] run_end_le [OF assms, of is_alnum]
    unfolding i_def by linarith+
  then show ?thesis
    unfolding script_name_def Let_def i_def [symmetric]
    by (auto intro!: further_at)
qed

lemma peek_bound: "peek t k = c \<Longrightarrow> c \<noteq> nul \<Longrightarrow> at t + k < length (input t)"
  by (auto simp: peek_def split: if_splits)

lemma data_step_further: "further t (flow_tokenizer (data_step E t data))"
  by (simp add: data_step_def)

lemma raw_step_further: "further t (flow_tokenizer (raw_step E r t data))"
proof -
  define p where "p = (if peek t 1 = CHR ''/'' then appropriate_end_tag_ahead t else (False, t))"
  have p: "further t (snd p)" "at (snd p) = at t" "input (snd p) = input t"
    by (simp_all add: p_def)
  have "further t (flow_tokenizer (text_append (snd p) data))" if "\<not> eof t 0"
    using that p by (intro further_trans [OF p(1)] text_append_further) (simp add: eof_def)
  moreover have "further t (snd p\<lparr>model := Data\<rparr>)"
    by (rule further_trans [OF p(1)]) simp
  ultimately have "further t (flow_tokenizer (raw_less_than t data))" if "\<not> eof t 0"
    using that p(1) unfolding raw_less_than_def Let_def case_prod_beta p_def [symmetric] by auto
  then show ?thesis
    by (simp add: raw_step_def)
qed

lemma script_less_than_further:
  assumes "\<not> eof t 0"
  shows "further t (flow_tokenizer (script_less_than t data))"
proof -
  define p where "p = (if script_escape t \<noteq> 2 then appropriate_end_tag_ahead t else (False, t))"
  have p: "further t (snd p)" "at (snd p) = at t" "input (snd p) = input t" "script_escape (snd p) = script_escape t"
    by (simp_all add: p_def)
  have q: "further t (snd p\<lparr>model := Data, script_escape := 0\<rparr>)"
    by (rule further_trans [OF p(1)]) simp
  have a: "further t (flow_tokenizer (text_append (snd p) data))"
    using assms p by (intro further_trans [OF p(1)] text_append_further) (simp add: eof_def)
  have b: "further t (flow_tokenizer (script_name 2 1 (snd p) data))" if "peek t 1 = CHR ''/''"
    using peek_bound [OF that] p by (intro further_trans [OF p(1)] script_name_further) simp
  have c: "further t (flow_tokenizer (script_name 1 2 t data))"
    using assms by (intro script_name_further) (simp add: eof_def)
  have d: "further t (advance 4 (t\<lparr>script_escape := 1\<rparr>))" if "looking_at t ''<!--''"
    using looking_at_bound [OF that]
    by (intro further_trans [OF further_model(2) [of t 1]] further_onward onward_advance) simp
  show ?thesis
    using p(1) q a b c d assms
    unfolding script_less_than_def Let_def case_prod_beta p_def [symmetric]
    by (auto simp: p(4))
qed

lemma script_step_further: "further t (flow_tokenizer (script_step t data))"
proof -
  have "further t (advance 3 (t\<lparr>script_escape := 0\<rparr>))" if "looking_at t ''-->''"
    using looking_at_bound [OF that]
    by (intro further_trans [OF further_model(2) [of t 0]] further_onward onward_advance) simp
  then show ?thesis
    using script_less_than_further [of t data] by (simp add: script_step_def)
qed

lemma plaintext_step_further: "further t (flow_tokenizer (plaintext_step t data))"
  by (simp add: plaintext_step_def)

text \<open>What the four text states share: rounds that go forward, and that stop in front of a character
  when they hand over to the tag open state.\<close>

locale text_loop =
  fixes step :: "tokenizer \<Rightarrow> string \<Rightarrow> text_flow"
    and loop :: "tokenizer \<Rightarrow> string \<Rightarrow> string \<times> bool \<times> tokenizer"
  assumes loop_step: "loop t data =
      (case step t data of Stop d opens u \<Rightarrow> (d, opens, u) | Go_on d u \<Rightarrow> loop u d)"
    and step_further: "further t (flow_tokenizer (step t data))"
    and step_forward: "step t data = Go_on d u \<Longrightarrow> at t < at u \<and> input u = input t \<and> at t < length (input t)"
    and step_opens: "step t data = Stop d True u \<Longrightarrow> \<not> eof u 0"
begin

lemma loop_induct [consumes 0, case_names round]:
  assumes "\<And>t data. (\<And>d u. step t data = Go_on d u \<Longrightarrow> P u d) \<Longrightarrow> P t data"
  shows "P t data"
proof (induction "length (input t) - at t" arbitrary: t data rule: less_induct)
  case (less t data)
  have *: "P u d" if "step t data = Go_on d u" for d u
    using step_forward [OF that] by (intro less) auto
  show ?case
    by (rule assms) (rule *)
qed

lemma loop_further: "further t (snd (snd (loop t data)))"
proof (induction t data rule: loop_induct)
  case (round t data)
  show ?case
    using step_further [of t data] round
    by (subst loop_step) (auto split: text_flow.split intro: further_trans)
qed

lemma loop_opens: "fst (snd (loop t data)) \<Longrightarrow> \<not> eof (snd (snd (loop t data))) 0"
proof (induction t data rule: loop_induct)
  case (round t data)
  then show ?case
    using step_opens [of t data]
    by (subst (asm) (2) loop_step, subst (1) loop_step) (auto split: text_flow.splits)
qed

end

interpretation data: text_loop "data_step E" "data_loop E"
  by unfold_locales
    (rule data_loop.simps, rule data_step_further, erule data_step_forward,
      auto simp: data_step_def starve_run_def text_append_def text_reference_def split: if_splits)

interpretation raw: text_loop "raw_step E r" "raw_loop E r"
proof
  fix t data d u
  assume "raw_step E r t data = Stop d True u"
  then show "\<not> eof u 0"
    by (auto simp: raw_step_def raw_less_than_def Let_def case_prod_beta starve_run_def text_append_def
        text_reference_def eof_def split: if_splits)
qed (rule raw_loop.simps, rule raw_step_further, erule raw_step_forward)

interpretation script: text_loop script_step script_loop
proof
  fix t data d u
  assume "script_step t data = Stop d True u"
  then show "\<not> eof u 0"
    by (auto simp: script_step_def script_less_than_def Let_def case_prod_beta starve_run_def
        script_name_def text_append_def eof_def split: if_splits)
qed (rule script_loop.simps, rule script_step_further, erule script_step_forward)

interpretation plaintext: text_loop plaintext_step plaintext_loop
  by unfold_locales
    (rule plaintext_loop.simps, rule plaintext_step_further, erule plaintext_step_forward,
      auto simp: plaintext_step_def starve_run_def text_append_def split: if_splits)

lemma text_state_further:
  assumes "further t (snd (snd r))" "fst (snd r) \<Longrightarrow> \<not> eof (snd (snd r)) 0"
  shows "further t (snd (text_state E r))"
    and "fst (text_state E r) = None \<Longrightarrow> at t < at (snd (text_state E r))"
proof -
  obtain data opens u where r: "r = (data, opens, u)"
    by (cases r)
  have "further u (snd (tag_open_state E u))" if opens
    using tag_open_state_onward(1) [of u E] onward_oneI [of u] assms that by (auto simp: r)
  then show "further t (snd (text_state E r))"
    using assms(1) by (auto simp: text_state_def r intro: further_trans)
  show "at t < at (snd (text_state E r))" if "fst (text_state E r) = None"
    using that tag_open_state_onward(2) [of u E] assms furtherD(1) [OF assms(1)]
    by (auto simp: text_state_def r split: if_splits)
qed

lemma state_of_model_further:
  "further t (snd (state_of_model E t))"
  "fst (state_of_model E t) = None \<Longrightarrow> at t < at (snd (state_of_model E t))"
  using text_state_further [OF data.loop_further data.loop_opens]
    text_state_further [OF raw.loop_further raw.loop_opens]
    text_state_further [OF script.loop_further script.loop_opens]
    text_state_further [OF plaintext.loop_further plaintext.loop_opens]
  by (auto simp: state_of_model_def data_state_def rcdata_or_rawtext_state_def script_data_state_def
      plaintext_state_def split: content_model.split)

lemma skip_empty_end_tags_onward: "onward t (skip_empty_end_tags t)"
proof (induction t rule: skip_empty_end_tags.induct)
  case (1 t)
  have "onward t (advance 3 t)" if "looking_at t ''</>''"
    using looking_at_bound [OF that] by (intro onward_advance) simp
  with 1 show ?case
    by (subst skip_empty_end_tags.simps) (auto intro: onward_trans)
qed

function next_token :: "entity_ref list \<Rightarrow> tokenizer \<Rightarrow> token \<times> tokenizer" where
  "next_token E t =
     (let t = skip_empty_end_tags t in
      if eof t 0 then (end_token, starve t)
      else case state_of_model E t of
          (Some out, t) \<Rightarrow> (out, t)
        | (None, t) \<Rightarrow> next_token E t)"
  by pat_completeness auto
termination
proof (relation "measure (\<lambda>(E, t). length (input t) - at t)", goal_cases)
  case (2 E t u v x)
  have u: "at t \<le> at u" "input u = input t"
    using 2(1) onwardD(1,2) [OF skip_empty_end_tags_onward [of t]] by simp_all
  have "fst (state_of_model E u) = None" "snd (state_of_model E u) = x"
    using 2(3,4) by (metis fst_conv, metis snd_conv)
  then have "at u < at x" "input x = input u"
    using state_of_model_further(2) [where E = E and t = u] furtherD(2) [OF state_of_model_further(1) [of u E]]
    by auto
  with u 2(2) show ?case
    by (auto simp: eof_def)
qed auto

declare next_token.simps [simp del]

definition next_tok :: "entity_ref list \<Rightarrow> tokenizer \<Rightarrow> token \<times> tokenizer" where
  "next_tok E t =
     (let (out, u) = next_token E (t\<lparr>starved := False\<rparr>);
          (out, u) =
            (if starved u
             then (blank Incomplete, u\<lparr>at := at t, model := model t, script_escape := script_escape t\<rparr>)
             else (out, u))
      in (out\<lparr>source_begin := at t, source_end := at u\<rparr>, u))"

end
