(* ===== verification/Html_Resume.thy ===== *)
theory Html_Resume
  imports Html_Token
begin

text \<open>
  Reading a stream as it arrives. \<open>complete r t\<close> is the tokenizer over the whole stream, of which
  \<open>t\<close> sees a prefix. A state that does not starve over the prefix does the same over the whole stream;
  the lemmas go through the states in their order.
\<close>

declare One_nat_def [simp del]

definition complete :: "string \<Rightarrow> tokenizer \<Rightarrow> tokenizer" where
  "complete r t = t\<lparr>input := input t @ r, truncated := False\<rparr>"

lemma complete_simps [simp]:
  "at (complete r t) = at t" "input (complete r t) = input t @ r" "model (complete r t) = model t"
  "close_tag (complete r t) = close_tag t" "script_escape (complete r t) = script_escape t"
  "cdata_allowed (complete r t) = cdata_allowed t" "truncated (complete r t) = False"
  "starved (complete r t) = starved t"
  by (simp_all add: complete_def)

lemma complete_update [simp]:
  "(complete r t)\<lparr>at := n\<rparr> = complete r (t\<lparr>at := n\<rparr>)"
  "(complete r t)\<lparr>model := m\<rparr> = complete r (t\<lparr>model := m\<rparr>)"
  "(complete r t)\<lparr>script_escape := e\<rparr> = complete r (t\<lparr>script_escape := e\<rparr>)"
  "(complete r t)\<lparr>starved := b\<rparr> = complete r (t\<lparr>starved := b\<rparr>)"
  "advance n (complete r t) = complete r (advance n t)"
  by (simp_all add: complete_def advance_def)

lemma starve_complete [simp]: "starve (complete r t) = complete r t"
  by (simp add: starve_def)

lemma cut_at_complete [simp]: "\<not> cut_at (complete r t) i"
  by (simp add: cut_at_def)

lemma starved_starve [simp]: "truncated t \<Longrightarrow> starved (starve t)"
  by (simp add: starve_def)

lemma eof_complete [simp]: "\<not> eof t k \<Longrightarrow> \<not> eof (complete r t) k"
  by (simp add: eof_def)

lemma cur_complete [simp]: "\<not> eof t 0 \<Longrightarrow> cur (complete r t) = cur t"
  by (simp add: cur_def eof_def nth_append)

lemma peek_complete [simp]: "\<not> eof t k \<Longrightarrow> peek (complete r t) k = peek t k"
  by (simp add: peek_def eof_def nth_append)

lemma not_eof_forward: "onward t u \<Longrightarrow> \<not> eof u 0 \<Longrightarrow> \<not> eof t 0"
  using onwardD(1,2) [of t u] by (auto simp: eof_def)

lemma run_end_complete: "run_end P s i < length s \<Longrightarrow> run_end P (s @ r) i = run_end P s i"
proof -
  assume a: "run_end P s i < length s"
  then have i: "i \<le> length s"
    by (simp add: run_end_def)
  have "takeWhile P (drop i s) \<noteq> drop i s"
  proof
    assume "takeWhile P (drop i s) = drop i s"
    with a i show False by (simp add: run_end_def)
  qed
  then have "\<exists>x \<in> set (drop i s). \<not> P x"
    by (simp add: takeWhile_eq_all_conv)
  then have "takeWhile P (drop i s @ drop (i - length s) r) = takeWhile P (drop i s)"
    by (meson takeWhile_append1)
  then show ?thesis
    by (simp add: run_end_def)
qed

lemma substr_complete: "i + n \<le> length s \<Longrightarrow> substr (s @ r) i n = substr s i n"
  by (simp add: substr_def)

lemma append_text_complete:
  assumes "\<not> eof t 0" "truncated t" "cur t = cr \<longrightarrow> \<not> cut_at t (at t)"
  shows "append_text (complete r t) data = apsnd (complete r) (append_text t data)"
proof (cases "cur t = cr")
  case True
  then have "\<not> eof (advance 1 t) 0"
    using assms by (simp add: cut_at_def cur_def eof_def)
  then show ?thesis
    using assms(1) by (simp add: append_text_def Let_def)
next
  case False
  then show ?thesis
    using assms(1) by (simp add: append_text_def Let_def)
qed

lemma append_text_complete':
  assumes "\<not> eof t 0" "truncated t" "\<not> eof (snd (append_text t data)) 0"
  shows "append_text (complete r t) data = apsnd (complete r) (append_text t data)"
proof (rule append_text_complete [OF assms(1,2)], rule impI)
  assume "cur t = cr"
  with assms(3) have "\<not> eof (advance 1 t) 0"
    by (auto simp: append_text_def Let_def eof_def split: if_splits)
  then show "\<not> cut_at t (at t)"
    using \<open>cur t = cr\<close> by (simp add: cut_at_def cur_def eof_def)
qed

section \<open>Character references\<close>

lemma number_loop_complete:
  "\<not> eof (snd (snd (number_loop hex t code any))) 0
    \<Longrightarrow> number_loop hex (complete r t) code any = apsnd (apsnd (complete r)) (number_loop hex t code any)"
proof (induction hex t code any rule: number_loop.induct)
  case (1 hex t code any)
  have e: "\<not> eof t 0"
    by (rule not_eof_forward [OF number_loop_onward 1(2)])
  show ?case
  proof (cases "hex_value (cur t) < 0 \<or> \<not> hex \<and> hex_value (cur t) > 9")
    case True
    with e show ?thesis
      by (subst (1 2) number_loop.simps) (simp add: Let_def)
  next
    case False
    have *: "number_loop hex t code any = number_loop hex (advance 1 t)
        (if code < 0x110000 then code * (if hex then 16 else 10) + nat (hex_value (cur t)) else code) True"
      using e False by (subst number_loop.simps) (auto simp: Let_def)
    have "number_loop hex (complete r t) code any = number_loop hex (complete r (advance 1 t))
        (if code < 0x110000 then code * (if hex then 16 else 10) + nat (hex_value (cur t)) else code) True"
      using e False by (subst number_loop.simps) (auto simp: Let_def)
    also have "\<dots> = apsnd (apsnd (complete r)) (number_loop hex t code any)"
      using 1(1) [OF e refl False] 1(2) unfolding * by simp
    finally show ?thesis .
  qed
qed

lemma hex_digit_alnum: "hex_value c \<ge> 0 \<Longrightarrow> is_alnum c"
  by (auto simp: hex_value_def is_alnum_def is_alpha_def between_def split: if_splits)

lemma run_end_step: "i < length s \<Longrightarrow> P (s ! i) \<Longrightarrow> run_end P s i = run_end P s (i + 1)"
  by (simp add: run_end_def Cons_nth_drop_Suc [symmetric] One_nat_def)

lemma number_loop_run: "at (snd (snd (number_loop hex t code any))) \<le> run_end is_alnum (input t) (at t)"
proof (induction hex t code any rule: number_loop.induct)
  case (1 hex t code any)
  show ?case
  proof (cases "eof t 0 \<or> hex_value (cur t) < 0 \<or> \<not> hex \<and> hex_value (cur t) > 9")
    case True
    then show ?thesis
      by (subst number_loop.simps) (auto simp: Let_def)
  next
    case False
    then have e: "\<not> eof t 0" "\<not> (hex_value (cur t) < 0 \<or> \<not> hex \<and> hex_value (cur t) > 9)"
      by auto
    then have "run_end is_alnum (input t) (at t) = run_end is_alnum (input t) (at t + 1)"
      using hex_digit_alnum [of "cur t"] by (intro run_end_step) (auto simp: eof_def cur_def)
    then show ?thesis
      using 1 [OF e(1) refl e(2)] e by (subst number_loop.simps) (auto simp: Let_def)
  qed
qed

lemma numeric_reference_complete:
  assumes "\<not> eof t 0" "start \<le> at t" "i = (let i = at t + 1 in
      if i < length (input t) \<and> (input t ! i = CHR ''x'' \<or> input t ! i = CHR ''X'') then i + 1 else i)"
    "run_end is_alnum (input t) i < length (input t)"
  shows "numeric_reference start (complete r t) out = apsnd (complete r) (numeric_reference start t out)"
proof -
  define u where "u = advance 1 t"
  define hex where "hex = (\<not> eof u 0 \<and> (cur u = CHR ''x'' \<or> cur u = CHR ''X''))"
  define v where "v = (if hex then advance 1 u else u)"
  define n where "n = number_loop hex v 0 False"
  define w where "w = snd (snd n)"
  have "i = at v"
    by (auto simp: assms(3) v_def hex_def u_def eof_def cur_def Let_def)
  moreover have "input v = input t"
    by (simp add: v_def u_def)
  ultimately have w: "at w < length (input t)"
    using assms(4) number_loop_run [of hex v 0 False] by (simp add: w_def n_def)
  have "onward v w"
    unfolding w_def n_def by (rule number_loop_onward)
  from onwardD(1,2) [OF this] have iw: "input w = input t" "at v \<le> at w"
    using \<open>input v = input t\<close> by simp_all
  then have ew: "\<not> eof w 0"
    using w by (simp add: eof_def)
  have eu: "\<not> eof u 0"
    using w iw by (auto simp: v_def eof_def u_def split: if_splits)
  have cv: "(if hex then complete r (advance 1 u) else complete r u) = complete r v"
    by (simp add: v_def)
  have cn: "number_loop hex (complete r v) 0 False = apsnd (apsnd (complete r)) n"
    using number_loop_complete [of hex v 0 False r] ew by (simp add: n_def w_def)
  have "substr (input t @ r) start (at w - start) = substr (input t) start (at w - start)"
    using w iw assms(2) by (intro substr_complete) (simp add: v_def u_def split: if_splits)
  then have sw: "substr (input (complete r w)) start (at (complete r w) - start) = substr (input w) start (at w - start)"
    using iw by simp
  have ch: "(\<not> eof (complete r u) 0 \<and> (cur (complete r u) = CHR ''x'' \<or> cur (complete r u) = CHR ''X'')) = hex"
    using eu by (simp add: hex_def)
  have "numeric_reference start t out =
      (if \<not> fst (snd n) then (out @ substr (input w) start (at w - start), w)
       else (append_utf8 out (numeric_reference_code (fst n)),
             if \<not> eof w 0 \<and> cur w = CHR '';'' then advance 1 w else w))"
    unfolding numeric_reference_def Let_def u_def [symmetric] hex_def [symmetric] v_def [symmetric]
      case_prod_beta n_def [symmetric] w_def [symmetric] ..
  moreover have "numeric_reference start (complete r t) out =
      (if \<not> fst (snd n) then (out @ substr (input w) start (at w - start), complete r w)
       else (append_utf8 out (numeric_reference_code (fst n)),
             if \<not> eof w 0 \<and> cur w = CHR '';'' then complete r (advance 1 w) else complete r w))"
    unfolding numeric_reference_def Let_def complete_update u_def [symmetric] ch cv
      case_prod_beta cn fst_apsnd snd_apsnd w_def [symmetric] sw
    using ew by simp
  ultimately show ?thesis
    by simp
qed

lemma named_reference_complete:
  assumes "run_end is_alnum (input t) (at t) < length (input t)"
  shows "named_reference E b (complete r t) out = apsnd (complete r) (named_reference E b t out)"
proof -
  define stop where "stop = run_end is_alnum (input t) (at t)"
  define run where "run = substr (input t) (at t) (stop - at t)"
  define semicolon where "semicolon = (stop < length (input t) \<and> input t ! stop = CHR '';'')"
  have stop: "at t \<le> stop" "stop < length (input t)"
    using assms by (simp_all add: stop_def)
  have *: "run_end is_alnum (input t @ r) (at t) = stop" "substr (input t @ r) (at t) (stop - at t) = run"
      "(stop < length (input t @ r) \<and> (input t @ r) ! stop = CHR '';'') = semicolon"
    using stop assms by (simp_all add: stop_def run_end_complete run_def substr_complete semicolon_def nth_append substr_def)
  have p: "peek (complete r t) k = peek t k" if "\<not> length run < k" for k
    using that stop by (intro peek_complete) (simp add: eof_def run_def substr_def)
  show ?thesis
    unfolding named_reference_def Let_def complete_simps *
    unfolding stop_def [symmetric] run_def [symmetric] semicolon_def [symmetric]
    using p by (auto split: option.split)
qed

lemma character_reference_complete:
  assumes "\<not> eof t 0" "truncated t" "cur t = CHR ''&''" "\<not> cut_at t (at t)"
  shows "character_reference E b (complete r t) out = apsnd (complete r) (character_reference E b t out)"
proof -
  define u where "u = advance 1 t"
  define i where "i = (if at u < length (input u) \<and> input u ! at u = CHR ''#''
      then let i = at u + 1 in
        if i < length (input u) \<and> (input u ! i = CHR ''x'' \<or> input u ! i = CHR ''X'') then i + 1 else i
      else at u)"
  have i: "run_end is_alnum (input u) i < length (input u)"
    using assms(2-4) unfolding cut_at_def Let_def i_def u_def cur_def
    by (simp only: advance_simps if_True if_False not_le simp_thms) (auto split: if_splits)
  moreover have "at u \<le> i"
    by (simp add: i_def Let_def)
  ultimately have eu: "\<not> eof u 0"
    using run_end_ge [of i is_alnum "input u"] unfolding eof_def by linarith
  show ?thesis
  proof (cases "cur u = CHR ''#''")
    case True
    then have "numeric_reference (at t) (complete r u) out = apsnd (complete r) (numeric_reference (at t) u out)"
      using eu i by (intro numeric_reference_complete [where i = i]) (auto simp: i_def u_def cur_def eof_def)
    with True eu show ?thesis
      by (simp add: character_reference_def Let_def u_def [symmetric])
  next
    case False
    then have "i = at u"
      by (auto simp: i_def cur_def)
    then have "named_reference E b (complete r u) out = apsnd (complete r) (named_reference E b u out)"
      using i by (intro named_reference_complete) simp
    with False eu show ?thesis
      by (simp add: character_reference_def Let_def u_def [symmetric])
  qed
qed

section \<open>Tags\<close>

lemma starve_end: "truncated t \<Longrightarrow> onward t u \<Longrightarrow> starved (starve u)"
  by (simp add: onwardD(7))

lemma run_complete:
  "\<not> eof (t\<lparr>at := run_end P (input t) (at t)\<rparr>) 0
    \<Longrightarrow> run_end P (input t @ r) (at t) = run_end P (input t) (at t)"
  by (rule run_end_complete) (simp add: eof_def)

lemma skip_space_complete: "\<not> eof (skip_space t) 0 \<Longrightarrow> skip_space (complete r t) = complete r (skip_space t)"
  using run_complete [where P = is_space] by (simp add: skip_space_def)

lemma tag_name_loop_complete:
  "\<not> eof (snd (tag_name_loop t nm)) 0
    \<Longrightarrow> tag_name_loop (complete r t) nm = apsnd (complete r) (tag_name_loop t nm)"
proof (induction t nm rule: tag_name_loop.induct)
  case (1 t nm)
  note IH = 1
  have e: "\<not> eof t 0"
    by (rule not_eof_forward [OF tag_name_loop_onward IH(3)])
  show ?case
  proof (cases "is_space (cur t) \<or> cur t = CHR ''/'' \<or> cur t = gt")
    case True
    with e show ?thesis
      by (subst (1 2) tag_name_loop.simps) (simp add: Let_def)
  next
    case False
    have *: "tag_name_loop t nm = tag_name_loop (advance 1 t) (nm @ (if cur t = nul then replacement else [ascii_lower (cur t)]))"
      using e False by (subst tag_name_loop.simps) (auto simp: Let_def)
    have "tag_name_loop (complete r t) nm = tag_name_loop (complete r (advance 1 t))
        (nm @ (if cur t = nul then replacement else [ascii_lower (cur t)]))"
      using e False by (subst tag_name_loop.simps) (auto simp: Let_def)
    also have "\<dots> = apsnd (complete r) (tag_name_loop t nm)"
      using IH(1,2) [OF e refl False] IH(3) unfolding * by (simp split: if_splits)
    finally show ?thesis .
  qed
qed

lemma attribute_name_loop_complete:
  "\<not> eof (snd (attribute_name_loop t nm)) 0
    \<Longrightarrow> attribute_name_loop (complete r t) nm = apsnd (complete r) (attribute_name_loop t nm)"
proof (induction t nm rule: attribute_name_loop.induct)
  case (1 t nm)
  note IH = 1
  have e: "\<not> eof t 0"
    by (rule not_eof_forward [OF attribute_name_loop_onward IH(2)])
  show ?case
  proof (cases "is_space (cur t) \<or> cur t = CHR ''/'' \<or> cur t = gt \<or> cur t = CHR ''=''")
    case True
    with e show ?thesis
      by (subst (1 2) attribute_name_loop.simps) (simp add: Let_def)
  next
    case False
    have *: "attribute_name_loop t nm = attribute_name_loop (advance 1 t) (nm @ (if cur t = nul then replacement else [ascii_lower (cur t)]))"
      using e False by (subst attribute_name_loop.simps) (auto simp: Let_def)
    have "attribute_name_loop (complete r t) nm = attribute_name_loop (complete r (advance 1 t))
        (nm @ (if cur t = nul then replacement else [ascii_lower (cur t)]))"
      using e False by (subst attribute_name_loop.simps) (auto simp: Let_def)
    also have "\<dots> = apsnd (complete r) (attribute_name_loop t nm)"
      using IH(1) [OF e refl False] IH(2) unfolding * by simp
    finally show ?thesis .
  qed
qed

lemma not_starved_forward: "onward t u \<Longrightarrow> \<not> starved u \<Longrightarrow> \<not> starved t"
  using onwardD(9) by blast

lemma attribute_value_complete:
  "truncated t \<Longrightarrow> \<not> eof (snd (attribute_value E q t out)) 0 \<Longrightarrow> \<not> starved (snd (attribute_value E q t out))
    \<Longrightarrow> attribute_value E q (complete r t) out = apsnd (complete r) (attribute_value E q t out)"
proof (induction E q t out rule: attribute_value.induct)
  case (1 E q t out)
  note IH = 1
  have e: "\<not> eof t 0"
    by (rule not_eof_forward [OF attribute_value_onward IH(5)])
  define stops where "stops = (case q of Some q \<Rightarrow> cur t = q | None \<Rightarrow> is_space (cur t) \<or> cur t = gt)"
  note here = attribute_value.simps [of E q t out, unfolded Let_def stops_def [symmetric]]
  note there = attribute_value.simps [of E q "complete r t" out, unfolded Let_def cur_complete [OF e] stops_def [symmetric]]
  note IH1 = IH(1) [OF e refl, folded stops_def] and IH2 = IH(2) [OF e refl, folded stops_def]
    and IH3 = IH(3) [OF e refl, folded stops_def]
  show ?case
  proof (cases stops)
    case True
    with e show ?thesis
      unfolding here there by simp
  next
    case stay: False
    show ?thesis
    proof (cases "cur t = CHR ''&''")
      case True
      have cut: "\<not> cut_at t (at t)"
        using IH(4,6) e stay True unfolding here by auto
      have "truncated (snd (character_reference E True t out))"
        using onwardD(7) [OF character_reference_onward(1) [OF e]] IH(4) by simp
      then show ?thesis
        using IH1 [OF stay True cut] IH(5,6) e stay True cut IH(4)
        unfolding here there by (simp add: character_reference_complete)
    next
      case amp: False
      show ?thesis
      proof (cases "cur t = nul")
        case True
        then show ?thesis
          using IH2 [OF stay amp True] IH(4-6) e stay
          unfolding here there by simp
      next
        case False
        have cut: "\<not> (cur t = cr \<and> cut_at t (at t))"
          using IH(4,6) e stay amp False unfolding here by auto
        have "truncated (snd (append_text t out))"
          using onwardD(7) [OF onward_append_text [OF e]] IH(4) by simp
        moreover have "append_text (complete r t) out = apsnd (complete r) (append_text t out)"
          using e IH(4) cut by (intro append_text_complete) auto
        ultimately show ?thesis
          using IH3 [OF stay amp False cut] IH(5,6) e stay amp False cut
          unfolding here there by auto
      qed
    qed
  qed
qed

text \<open>One round of the attribute loop that reads an attribute.\<close>

lemma attribute_loop_round:
  assumes "skip_space t = u" "\<not> eof u 0" "cur u \<noteq> gt" "cur u \<noteq> CHR ''/''"
    and "attribute_name_loop (if cur u = CHR ''='' then advance 1 u else u) (if cur u = CHR ''='' then ''='' else []) = nm"
    and "skip_space (snd nm) = v" "\<not> eof v 0" "attribute_rest E v = w"
  shows "attribute_loop E t out names =
    (case fst w of
       None \<Rightarrow> (end_token, starve (snd w))
     | Some x \<Rightarrow> attribute_loop E (snd w) (fst (add_attribute \<lparr>attr_name = fst nm, attr_value = x\<rparr> out names))
                  (snd (add_attribute \<lparr>attr_name = fst nm, attr_value = x\<rparr> out names)))"
  unfolding attribute_loop.simps [of E t] Let_def assms(1,5,6,8)
  using assms(2-4,7) by simp

lemma attribute_rest_complete:
  assumes "\<not> eof t 0" "truncated t" "fst (attribute_rest E t) = Some v" "\<not> starved (snd (attribute_rest E t))"
  shows "attribute_rest E (complete r t) = apsnd (complete r) (attribute_rest E t)"
proof (cases "cur t = CHR ''=''")
  case False
  with assms(1) show ?thesis
    by (simp add: attribute_rest_def)
next
  case True
  define u where "u = skip_space (advance 1 t)"
  have eu: "\<not> eof u 0"
    using assms(3) True by (auto simp: attribute_rest_def Let_def u_def [symmetric] split: if_splits)
  then have cu: "skip_space (complete r (advance 1 t)) = complete r u"
    unfolding u_def by (rule skip_space_complete)
  have tu: "truncated u"
    using assms(1,2) onwardD(7) [OF onward_skip_after [OF onward_one]] by (simp add: u_def)
  show ?thesis
  proof (cases "cur u = quotation \<or> cur u = apostrophe")
    case quote: True
    define p where "p = attribute_value E (Some (cur u)) (advance 1 u) []"
    have rest: "attribute_rest E t = (if eof (snd p) 0 then (None, snd p) else (Some (fst p), advance 1 (snd p)))"
      using True eu quote by (simp add: attribute_rest_def Let_def u_def [symmetric] p_def case_prod_beta)
    with assms(3,4) have p: "\<not> eof (snd p) 0" "\<not> starved (snd p)"
      by (auto split: if_splits)
    have "attribute_value E (Some (cur u)) (complete r (advance 1 u)) [] = apsnd (complete r) p"
      using p tu unfolding p_def by (intro attribute_value_complete) simp_all
    then show ?thesis
      using True eu quote cu assms(1) p
      by (simp add: rest attribute_rest_def [of E "complete r t"] Let_def case_prod_beta)
  next
    case quote: False
    define p where "p = attribute_value E None u []"
    have rest: "attribute_rest E t = (if eof (snd p) 0 then (None, snd p) else (Some (fst p), snd p))"
      using True eu quote by (simp add: attribute_rest_def Let_def u_def [symmetric] p_def case_prod_beta)
    with assms(3,4) have p: "\<not> eof (snd p) 0" "\<not> starved (snd p)"
      by (auto split: if_splits)
    have "attribute_value E None (complete r u) [] = apsnd (complete r) p"
      using p tu unfolding p_def by (intro attribute_value_complete) simp_all
    then show ?thesis
      using True eu quote cu assms(1) p
      by (simp add: rest attribute_rest_def [of E "complete r t"] Let_def case_prod_beta)
  qed
qed

lemma attribute_loop_complete:
  "truncated t \<Longrightarrow> \<not> starved (snd (attribute_loop E t out names))
    \<Longrightarrow> attribute_loop E (complete r t) out names = apsnd (complete r) (attribute_loop E t out names)"
proof (induction E t out names rule: attribute_loop.induct)
  case (1 E t out names)
  note IH = 1
  define u where "u = skip_space t"
  define n0 where "n0 = (if cur u = CHR ''='' then advance 1 u else u)"
  define nm where "nm = attribute_name_loop n0 (if cur u = CHR ''='' then ''='' else [])"
  define v where "v = skip_space (snd nm)"
  define w where "w = attribute_rest E v"
  have tu: "truncated u"
    using IH(3) onwardD(7) [OF skip_space_onward] by (simp add: u_def)
  have eu: "\<not> eof u 0"
  proof
    assume "eof u 0"
    then have "attribute_loop E t out names = (end_token, starve u)"
      by (subst attribute_loop.simps) (simp add: Let_def u_def [symmetric])
    with IH(4) tu show False by simp
  qed
  have cu: "skip_space (complete r t) = complete r u"
    using eu unfolding u_def by (rule skip_space_complete)
  show ?case
  proof (cases "cur u = gt")
    case True
    then show ?thesis
      using eu cu by (subst (1 2) attribute_loop.simps) (simp add: Let_def u_def [symmetric])
  next
    case ngt: False
    show ?thesis
    proof (cases "cur u = CHR ''/''")
      case True
      have ea: "\<not> eof (advance 1 u) 0"
      proof
        assume "eof (advance 1 u) 0"
        then have "attribute_loop E t out names = (end_token, starve (advance 1 u))"
          using eu True by (subst attribute_loop.simps) (simp add: Let_def u_def [symmetric])
        with IH(4) tu show False by simp
      qed
      show ?thesis
      proof (cases "cur (advance 1 u) = gt")
        case True
        then show ?thesis
          using eu cu ea \<open>cur u = CHR ''/''\<close>
          by (subst (1 2) attribute_loop.simps) (simp add: Let_def u_def [symmetric])
      next
        case False
        have *: "attribute_loop E t out names = attribute_loop E (advance 1 u) out names"
          using eu True ea False by (subst attribute_loop.simps) (simp add: Let_def u_def [symmetric])
        have "attribute_loop E (complete r t) out names = attribute_loop E (complete r (advance 1 u)) out names"
          using eu True ea False cu by (subst attribute_loop.simps) (simp add: Let_def)
        also have "\<dots> = apsnd (complete r) (attribute_loop E t out names)"
          using IH(1) [OF u_def eu refl ngt True refl ea False] IH(4) tu unfolding * by simp
        finally show ?thesis .
      qed
    next
      case slash: False
      have n0: "onward u n0" "truncated n0"
        using eu tu by (simp_all add: n0_def)
      have onm: "onward n0 (snd nm)"
        unfolding nm_def by (rule attribute_name_loop_onward)
      have ov: "onward n0 v"
        unfolding v_def by (rule onward_skip_after [OF onm])
      have tv: "truncated v"
        using onwardD(7) [OF ov] n0 by simp
      have nm': "nm = attribute_name_loop (if cur u = CHR ''='' then advance 1 u else u) (if cur u = CHR ''='' then ''='' else [])"
        by (simp add: nm_def n0_def)
      have ev: "\<not> eof v 0"
      proof
        assume "eof v 0"
        then have "attribute_loop E t out names = (end_token, starve v)"
          using eu ngt slash
          by (subst attribute_loop.simps) (simp add: Let_def u_def [symmetric] nm' [symmetric] v_def [symmetric])
        with IH(4) tv show False by simp
      qed
      have "\<not> eof (snd nm) 0"
        using not_eof_forward [OF skip_space_onward] ev unfolding v_def by blast
      then have cnm: "attribute_name_loop (complete r n0) (if cur u = CHR ''='' then ''='' else []) = apsnd (complete r) nm"
        unfolding nm_def by (rule attribute_name_loop_complete)
      have cn0: "(if cur u = CHR ''='' then complete r (advance 1 u) else complete r u) = complete r n0"
        by (simp add: n0_def)
      have cv: "skip_space (complete r (snd nm)) = complete r v"
        using ev unfolding v_def by (rule skip_space_complete)
      have ow: "onward v (snd w)"
        unfolding w_def by (rule attribute_rest_onward [OF ev])
      have roundt: "attribute_loop E t out names = (case fst w of None \<Rightarrow> (end_token, starve (snd w))
          | Some x \<Rightarrow> attribute_loop E (snd w) (fst (add_attribute \<lparr>attr_name = fst nm, attr_value = x\<rparr> out names))
              (snd (add_attribute \<lparr>attr_name = fst nm, attr_value = x\<rparr> out names)))"
        by (rule attribute_loop_round [where u = u and v = v])
          (use eu ngt slash ev in \<open>simp_all add: u_def [symmetric] nm' [symmetric] v_def w_def\<close>)
      have tw: "truncated (snd w)"
        using onwardD(7) [OF ow] tv by simp
      obtain x where x: "fst w = Some x"
        using IH(4) tw roundt by (cases "fst w") auto
      define a where "a = add_attribute \<lparr>attr_name = fst nm, attr_value = x\<rparr> out names"
      have step: "attribute_loop E t out names = attribute_loop E (snd w) (fst a) (snd a)"
        using roundt x by (simp add: a_def)
      have "\<not> starved (snd w)"
        using IH(4) not_starved_forward [OF attribute_loop_onward] unfolding step by blast
      then have cw: "attribute_rest E (complete r v) = apsnd (complete r) w"
        unfolding w_def using x by (intro attribute_rest_complete [OF ev tv, of E x]) (simp_all add: w_def)
      have cnm': "attribute_name_loop (if cur (complete r u) = CHR ''='' then advance 1 (complete r u) else complete r u)
          (if cur (complete r u) = CHR ''='' then ''='' else []) = apsnd (complete r) nm"
        unfolding cur_complete [OF eu] complete_update cn0 by (rule cnm)
      have "attribute_loop E (complete r t) out names = attribute_loop E (complete r (snd w)) (fst a) (snd a)"
        unfolding a_def using x cv cw eu ngt slash ev
        by (subst attribute_loop_round [OF cu _ _ _ cnm', of "complete r v" E "apsnd (complete r) w"]) simp_all
      also have "\<dots> = apsnd (complete r) (attribute_loop E t out names)"
        using IH(2) [OF u_def eu refl ngt slash nm' v_def ev w_def x a_def] tw IH(4) unfolding step by simp
      finally show ?thesis .
    qed
  qed
qed

lemma tag_name_state_complete:
  assumes "truncated t" "\<not> starved (snd (tag_name_state E t out))"
  shows "tag_name_state E (complete r t) out = apsnd (complete r) (tag_name_state E t out)"
proof -
  define p where "p = tag_name_loop t (tok_name out)"
  have tp: "truncated (snd p)"
    using onwardD(7) [OF tag_name_loop_onward] assms(1) by (simp add: p_def)
  have ep: "\<not> eof (snd p) 0"
    using assms(2) tp by (auto simp: tag_name_state_def case_prod_beta p_def [symmetric] split: if_splits)
  then have "tag_name_loop (complete r t) (tok_name out) = apsnd (complete r) p"
    unfolding p_def by (rule tag_name_loop_complete)
  with ep tp assms(2) show ?thesis
    by (simp add: tag_name_state_def case_prod_beta p_def [symmetric] attributes_def attribute_loop_complete)
qed

section \<open>Comments\<close>

fun complete_flow :: "string \<Rightarrow> flow \<Rightarrow> flow" where
  "complete_flow r (Return d t) = Return d (complete r t)"
| "complete_flow r (Continue d t) = Continue d (complete r t)"

text \<open>A round that did not starve, and that goes on only where there is something to read.\<close>

fun settled :: "flow \<Rightarrow> bool" where
  "settled (Return d t) \<longleftrightarrow> \<not> starved t"
| "settled (Continue d t) \<longleftrightarrow> \<not> starved t \<and> \<not> eof t 0"

lemma settled_if: "settled (if b then f else g) \<longleftrightarrow> (if b then settled f else settled g)"
  by simp

lemma comment_end_complete:
  "truncated t \<Longrightarrow> settled (comment_end t data)
    \<Longrightarrow> comment_end (complete r t) data = complete_flow r (comment_end t data)"
proof (induction t data rule: comment_end.induct)
  case (1 t data)
  note IH = 1
  note here = comment_end.simps [of t data, unfolded Let_def]
  note there = comment_end.simps [of "complete r t" data, unfolded Let_def complete_update]
  have e: "\<not> eof t 0"
    using IH(3,4) unfolding here by auto
  consider "cur t = gt" | "cur t = CHR ''!''" | "cur t = CHR ''-''"
    | "cur t \<noteq> gt" "cur t \<noteq> CHR ''!''" "cur t \<noteq> CHR ''-''"
    by blast
  then show ?case
  proof cases
    case 1
    with e show ?thesis unfolding here there by simp
  next
    case 2
    have e1: "\<not> eof (advance 1 t) 0"
      using IH(3,4) e 2 unfolding here by auto
    show ?thesis
    proof (cases "cur (advance 1 t) = CHR ''-''")
      case True
      have e2: "\<not> eof (advance 1 (advance 1 t)) 0"
        using IH(3,4) e e1 2 True unfolding here by auto
      have "comment_end (complete r (advance 1 (advance 1 (advance 1 t)))) (data @ ''--!'')
          = complete_flow r (comment_end (advance 1 (advance 1 (advance 1 t))) (data @ ''--!''))"
        if "cur (advance 1 (advance 1 t)) = CHR ''-''"
        using IH(1) [OF e refl _ 2 refl e1 True refl refl e2 that] IH(3,4) e e1 e2 2 True that
        unfolding here by simp
      with e e1 e2 2 True show ?thesis
        unfolding here there by simp
    next
      case False
      with e e1 2 show ?thesis
        unfolding here there by simp
    qed
  next
    case 3
    have "settled (comment_end (advance 1 t) (data @ ''-''))"
      using IH(4) e 3 unfolding here by simp
    with IH(2) [OF e refl _ _ 3] IH(3) e 3 show ?thesis
      unfolding here there by simp
  next
    case 4
    with e show ?thesis unfolding here there by simp
  qed
qed

lemma take_run_complete:
  "\<not> eof (snd (take_run c t data)) 0 \<Longrightarrow> take_run c (complete r t) data = apsnd (complete r) (take_run c t data)"
proof -
  assume e: "\<not> eof (snd (take_run c t data)) 0"
  then have "run_end (\<lambda>d. d = c) (input t @ r) (at t) = run_end (\<lambda>d. d = c) (input t) (at t)"
    by (intro run_complete) (simp add: take_run_def Let_def)
  moreover have "substr (input t @ r) (at t) (run_end (\<lambda>d. d = c) (input t) (at t) - at t)
      = substr (input t) (at t) (run_end (\<lambda>d. d = c) (input t) (at t) - at t)"
    using e by (intro substr_complete) (simp add: take_run_def Let_def eof_def)
  ultimately show ?thesis
    by (simp add: take_run_def Let_def)
qed

lemma nested_comment_end_complete:
  assumes "truncated t" "settled (nested_comment_end t data)"
  shows "nested_comment_end (complete r t) data = complete_flow r (nested_comment_end t data)"
proof -
  note here = nested_comment_end_def [of t data, unfolded Let_def case_prod_beta]
  note there = nested_comment_end_def [of "complete r t" data, unfolded Let_def case_prod_beta complete_update]
  have e: "\<not> eof t 0"
    using assms unfolding here by auto
  define p where "p = take_run (CHR ''-'') (advance 1 t) (data @ ''-'')"
  have tp: "truncated (snd p)"
    using onwardD(7) [OF take_run_onward [where t = "advance 1 t"]] assms(1) by (simp add: p_def)
  consider "cur t = gt" | "cur t = CHR ''!''" | "cur t = CHR ''-''"
    | "cur t \<noteq> gt" "cur t \<noteq> CHR ''!''" "cur t \<noteq> CHR ''-''"
    by blast
  then show ?thesis
  proof cases
    case 1
    with e show ?thesis unfolding here there by simp
  next
    case 2
    then have "\<not> eof (advance 1 t) 0"
      using assms e unfolding here by auto
    with e 2 show ?thesis unfolding here there by simp
  next
    case 3
    then have ep: "\<not> eof (snd p) 0"
      using assms e tp unfolding here p_def by auto
    then have "take_run (CHR ''-'') (complete r (advance 1 t)) (data @ ''-'') = apsnd (complete r) p"
      unfolding p_def by (rule take_run_complete)
    with e ep 3 show ?thesis
      unfolding here there p_def [symmetric] by simp
  next
    case 4
    with e show ?thesis unfolding here there by simp
  qed
qed

lemma comment_less_than_complete:
  assumes "truncated t" "\<not> eof t 0" "settled (comment_less_than t data)"
  shows "comment_less_than (complete r t) data = complete_flow r (comment_less_than t data)"
proof -
  define p where "p = take_run lt (advance 1 t) (data @ ''<'')"
  note here = comment_less_than_def [of t data, unfolded Let_def case_prod_beta p_def [symmetric]]
  note there = comment_less_than_def [of "complete r t" data, unfolded Let_def case_prod_beta complete_update]
  have tp: "truncated (snd p)"
    using onwardD(7) [OF take_run_onward [where t = "advance 1 t"]] assms(1) by (simp add: p_def)
  have ep: "\<not> eof (snd p) 0"
    using assms(3) unfolding here by (auto split: if_splits)
  then have cp: "take_run lt (complete r (advance 1 t)) (data @ ''<'') = apsnd (complete r) p"
    unfolding p_def by (rule take_run_complete)
  show ?thesis
  proof (cases "cur (snd p) = CHR ''!''")
    case True
    have e1: "\<not> eof (advance 1 (snd p)) 0"
      using assms(3) ep True unfolding here by (auto split: if_splits)
    show ?thesis
    proof (cases "cur (advance 1 (snd p)) = CHR ''-''")
      case dash: True
      have e2: "\<not> eof (advance 1 (advance 1 (snd p))) 0"
        using assms(3) ep e1 True dash tp unfolding here by (auto split: if_splits)
      have "nested_comment_end (complete r (advance 1 (advance 1 (advance 1 (snd p))))) (fst p @ ''!'')
          = complete_flow r (nested_comment_end (advance 1 (advance 1 (advance 1 (snd p)))) (fst p @ ''!''))"
        if "cur (advance 1 (advance 1 (snd p))) = CHR ''-''"
        using assms(3) ep e1 e2 True dash that tp unfolding here
        by (intro nested_comment_end_complete) simp_all
      with ep e1 e2 True dash show ?thesis
        unfolding here there cp by simp
    next
      case False
      with ep e1 True show ?thesis
        unfolding here there cp by simp
    qed
  next
    case False
    with ep show ?thesis
      unfolding here there cp by simp
  qed
qed

lemma comment_dash_complete:
  assumes "truncated t" "settled (comment_dash t data)"
  shows "comment_dash (complete r t) data = complete_flow r (comment_dash t data)"
proof -
  have "\<not> eof (advance 1 t) 0"
    using assms by (auto simp: comment_dash_def Let_def)
  then show ?thesis
    using assms comment_end_complete [of "advance 1 (advance 1 t)" data r]
    by (simp add: comment_dash_def Let_def split: if_splits)
qed

lemma comment_step_complete:
  assumes "truncated t" "settled (comment_step t data)"
  shows "comment_step (complete r t) data = complete_flow r (comment_step t data)"
proof -
  have e: "\<not> eof t 0"
    using assms by (auto simp: comment_step_def)
  consider "cur t = lt" | "cur t = CHR ''-''" | "cur t = nul" | "cur t \<noteq> lt" "cur t \<noteq> CHR ''-''" "cur t \<noteq> nul"
    by blast
  then show ?thesis
  proof cases
    case 1
    then show ?thesis
      using assms e comment_less_than_complete [of t data r] by (simp add: comment_step_def)
  next
    case 2
    then show ?thesis
      using assms e comment_dash_complete [of t data r] by (simp add: comment_step_def)
  next
    case 3
    then show ?thesis
      using e by (simp add: comment_step_def)
  next
    case 4
    then have "\<not> (cur t = cr \<and> cut_at t (at t))"
      using assms e by (auto simp: comment_step_def)
    then show ?thesis
      using assms e 4 append_text_complete [of t r data] by (auto simp: comment_step_def)
  qed
qed

lemma comment_loop_complete:
  "truncated t \<Longrightarrow> \<not> starved (snd (comment_loop t data))
    \<Longrightarrow> comment_loop (complete r t) data = apsnd (complete r) (comment_loop t data)"
proof (induction t data rule: comment_loop.induct)
  case (1 t data)
  show ?case
  proof (cases "comment_step t data")
    case (Return d u)
    with 1(3) have "settled (comment_step t data)"
      by (subst (asm) comment_loop.simps) simp
    then show ?thesis
      using comment_step_complete [OF 1(2), of data r] Return by (subst (1 2) comment_loop.simps) simp
  next
    case (Continue d u)
    have l: "comment_loop t data = comment_loop u d"
      by (subst comment_loop.simps) (simp add: Continue)
    have u: "truncated u"
      using onwardD(7) [OF comment_step_onward [of t data]] Continue 1(2) by simp
    have "\<not> starved u"
      using 1(3) not_starved_forward [OF comment_loop_onward] unfolding l by blast
    moreover have "\<not> eof u 0"
    proof
      assume "eof u 0"
      then have "comment_loop u d = (d, starve u)"
        by (subst comment_loop.simps) (simp add: comment_step_def)
      with 1(3) u show False unfolding l by simp
    qed
    ultimately have "comment_step (complete r t) data = Continue d (complete r u)"
      using comment_step_complete [OF 1(2), of data r] Continue by simp
    then have "comment_loop (complete r t) data = comment_loop (complete r u) d"
      by (subst comment_loop.simps) simp
    also have "\<dots> = apsnd (complete r) (comment_loop t data)"
      using 1(1) [OF Continue u] 1(3) unfolding l by simp
    finally show ?thesis .
  qed
qed

lemma comment_state_complete:
  assumes "truncated t" "\<not> starved (snd (comment_state t))"
  shows "comment_state (complete r t) = apsnd (complete r) (comment_state t)"
proof -
  have e: "\<not> eof t 0"
  proof
    assume "eof t 0"
    then have "comment_state t = ((blank Comment)\<lparr>tok_data := []\<rparr>, starve t)"
      by (simp add: comment_state_def Let_def comment_loop.simps [of t "[]"] comment_step_def)
    with assms show False by simp
  qed
  have e1: "\<not> eof t 1" if "peek t 0 = CHR ''-''"
    using that assms e by (auto simp: comment_state_def Let_def advance_def split: if_splits)
  show ?thesis
    using e e1 assms comment_loop_complete [of t "[]" r]
    by (auto simp: comment_state_def Let_def case_prod_beta split: if_splits)
qed

lemma bogus_comment_loop_complete:
  "truncated t \<Longrightarrow> \<not> starved (snd (bogus_comment_loop t data))
    \<Longrightarrow> bogus_comment_loop (complete r t) data = apsnd (complete r) (bogus_comment_loop t data)"
proof (induction t data rule: bogus_comment_loop.induct)
  case (1 t data)
  note IH = 1
  note here = bogus_comment_loop.simps [of t data, unfolded Let_def]
  note there = bogus_comment_loop.simps [of "complete r t" data, unfolded Let_def complete_update]
  have e: "\<not> eof t 0"
    using IH(3,4) unfolding here by auto
  consider "cur t = gt" | "cur t = nul" | "cur t \<noteq> gt" "cur t \<noteq> nul"
    by blast
  then show ?case
  proof cases
    case 1
    with e show ?thesis unfolding here there by simp
  next
    case 2
    with e IH(1) [OF e refl _ 2] IH(3,4) show ?thesis
      unfolding here there by simp
  next
    case 3
    have cut: "\<not> (cur t = cr \<and> cut_at t (at t))"
      using IH(3,4) e 3 unfolding here by auto
    have "truncated (snd (append_text t data))"
      using onwardD(7) [OF onward_append_text [OF e]] IH(3) by simp
    moreover have "append_text (complete r t) data = apsnd (complete r) (append_text t data)"
      using e IH(3) cut by (intro append_text_complete) auto
    ultimately show ?thesis
      using IH(2) [OF e refl 3 cut] IH(4) e 3 cut
      unfolding here there by auto
  qed
qed

lemma bogus_comment_state_complete:
  assumes "truncated t" "\<not> starved (snd (bogus_comment_state t))"
  shows "bogus_comment_state (complete r t) = apsnd (complete r) (bogus_comment_state t)"
  using assms bogus_comment_loop_complete [of t "[]" r]
  by (simp add: bogus_comment_state_def case_prod_beta)

section \<open>CDATA, DOCTYPE and processing instructions\<close>

lemma find_text_complete: "find_text what s = Some i \<Longrightarrow> find_text what (s @ r) = Some i"
proof (induction what s arbitrary: i rule: find_text.induct)
  case (1 what)
  then show ?case
    by (cases r) (auto split: if_splits)
next
  case (2 what c cs)
  show ?case
  proof (cases "take (length what) (c # cs) = what")
    case True
    then have "length what \<le> length (c # cs)"
      by (metis length_take min.cobounded1)
    then have "take (length what) ((c # cs) @ r) = take (length what) (c # cs)"
      by (simp only: take_append) simp
    with True 2(2) show ?thesis
      by simp
  next
    case False
    with 2(2) obtain j where j: "find_text what cs = Some j" "i = Suc j"
      by auto
    then have "length what \<le> length (c # cs)"
      using find_text_Some [OF j(1)] by simp
    then have "take (length what) ((c # cs) @ r) = take (length what) (c # cs)"
      by (simp only: take_append) simp
    with 2(1) [OF False j(1)] False j show ?thesis
      by simp
  qed
qed

lemma append_until_complete:
  "truncated t \<Longrightarrow> stop < length (input t)
    \<Longrightarrow> append_until stop (complete r t) data = apsnd (complete r) (append_until stop t data)"
proof (induction stop t data rule: append_until.induct)
  case (1 stop t data)
  show ?case
  proof (cases "at t < stop")
    case True
    then have e: "\<not> eof t 0"
      using 1(3) by (simp add: eof_def)
    have "append_text (complete r t) data = apsnd (complete r) (append_text t data)"
      using True 1(3) e by (intro append_text_complete [OF e 1(2)]) (simp add: cut_at_def cur_def)
    moreover have "truncated (snd (append_text t data))" "input (snd (append_text t data)) = input t"
      using onwardD(2,7) [OF onward_append_text [OF e]] 1(2) by simp_all
    ultimately show ?thesis
      using 1(1) [OF True] 1(3) True by (subst (1 2) append_until.simps) simp
  next
    case False
    then show ?thesis
      by (subst (1 2) append_until.simps) simp
  qed
qed

lemma cdata_section_state_complete:
  assumes "truncated t" "\<not> starved (snd (cdata_section_state t))" "at t \<le> length (input t)"
  shows "cdata_section_state (complete r t) = apsnd (complete r) (cdata_section_state t)"
proof (cases "find_text '']]>'' (drop (at t) (input t))")
  case None
  then have "truncated (snd (append_until (length (input t)) t []))"
    using onwardD(7) [OF append_until_onward [of "length (input t)" t "[]"]] assms(1) by simp
  with None assms show ?thesis
    by (simp add: cdata_section_state_def Let_def case_prod_beta)
next
  case (Some i)
  have i: "at t + i < length (input t)"
    using find_text_Some [OF Some] by (simp add: One_nat_def) arith
  have "find_text '']]>'' (drop (at t) (input t) @ r) = Some i"
    by (rule find_text_complete [OF Some])
  with assms(3) have "find_text '']]>'' (drop (at t) (input t @ r)) = Some i"
    by simp
  then show ?thesis
    using Some append_until_complete [OF assms(1) i, of r "[]"]
    by (simp add: cdata_section_state_def Let_def case_prod_beta)
qed

lemma bogus_doctype_complete:
  assumes "truncated t" "\<not> starved (snd (bogus_doctype b out t))"
  shows "bogus_doctype b out (complete r t) = apsnd (complete r) (bogus_doctype b out t)"
proof -
  define u where "u = t\<lparr>at := run_end (\<lambda>c. c \<noteq> gt) (input t) (at t)\<rparr>"
  have "\<not> eof u 0"
    using assms by (auto simp: bogus_doctype_def Let_def u_def [symmetric] split: if_splits) (simp add: u_def)
  moreover from this have "(complete r t)\<lparr>at := run_end (\<lambda>c. c \<noteq> gt) (input (complete r t)) (at (complete r t))\<rparr> = complete r u"
    unfolding u_def by (simp add: run_complete)
  ultimately show ?thesis
    unfolding bogus_doctype_def Let_def u_def [symmetric] by simp
qed

lemma quoted_identifier_complete:
  "\<not> eof (snd (snd (snd (quoted_identifier q t into)))) 0
    \<Longrightarrow> quoted_identifier q (complete r t) into = apsnd (apsnd (apsnd (complete r))) (quoted_identifier q t into)"
proof (induction q t into rule: quoted_identifier.induct)
  case (1 q t into)
  note IH = 1
  note here = quoted_identifier.simps [of q t into, unfolded Let_def]
  note there = quoted_identifier.simps [of q "complete r t" into, unfolded Let_def complete_update]
  have e: "\<not> eof t 0"
    by (rule not_eof_forward [OF quoted_identifier_onward IH(2)])
  show ?case
  proof (cases "cur t = q \<or> cur t = gt")
    case True
    with e show ?thesis unfolding here there by auto
  next
    case False
    with IH(1) [OF e refl] IH(2) e show ?thesis
      unfolding here there by auto
  qed
qed

text \<open>A view that ends where a state would stop makes the state starve.\<close>

lemma after_system_complete:
  assumes "truncated t" "\<not> starved (snd (after_system out t))"
  shows "after_system out (complete r t) = apsnd (complete r) (after_system out t)"
proof -
  have t: "truncated (skip_space t)"
    using onwardD(7) [OF skip_space_onward] assms(1) by simp
  then have "\<not> eof (skip_space t) 0"
    using assms by (auto simp: after_system_def Let_def doctype_at_eof_def)
  then show ?thesis
    using assms t bogus_doctype_complete [of "skip_space t" False out r]
    by (simp add: after_system_def Let_def skip_space_complete split: if_splits)
qed

lemma system_identifier_complete:
  assumes "truncated t" "\<not> eof t 0" "\<not> starved (snd (system_identifier out t))"
  shows "system_identifier out (complete r t) = apsnd (complete r) (system_identifier out t)"
proof -
  define q where "q = quoted_identifier (cur t) (advance 1 t) []"
  define u where "u = snd (snd (snd q))"
  have t: "truncated u"
    using onwardD(7) [OF quoted_identifier_onward [where t = "advance 1 t"]] assms(1) by (simp add: u_def q_def)
  have "\<not> eof u 0"
  proof
    assume eu: "eof u 0"
    have "starved (snd (after_system o' u))" for o'
      using eu t onwardD(1,2,7) [OF skip_space_onward [of u]]
      by (simp add: after_system_def Let_def doctype_at_eof_def eof_def)
    with eu t assms(3) show False
      by (auto simp: system_identifier_def Let_def case_prod_beta q_def [symmetric] u_def [symmetric]
          doctype_at_eof_def split: if_splits)
  qed
  moreover from this have "quoted_identifier (cur t) (complete r (advance 1 t)) [] = apsnd (apsnd (apsnd (complete r))) q"
    unfolding q_def by (intro quoted_identifier_complete) (simp add: u_def q_def)
  ultimately show ?thesis
    using assms t
    by (auto simp: system_identifier_def Let_def case_prod_beta q_def [symmetric] u_def [symmetric]
        doctype_at_eof_def after_system_complete split: if_splits)
qed

lemma system_doctype_complete:
  assumes "truncated t" "\<not> starved (snd (system_doctype out t))"
  shows "system_doctype out (complete r t) = apsnd (complete r) (system_doctype out t)"
proof -
  define u where "u = skip_space t"
  have t: "truncated u"
    using onwardD(7) [OF skip_space_onward] assms(1) by (simp add: u_def)
  then have e: "\<not> eof u 0"
    using assms by (auto simp: system_doctype_def Let_def doctype_at_eof_def u_def [symmetric])
  then have cu: "skip_space (complete r t) = complete r u"
    unfolding u_def by (rule skip_space_complete)
  show ?thesis
    using assms t e
    by (auto simp: system_doctype_def Let_def cu u_def [symmetric] bogus_doctype_complete
        system_identifier_complete split: if_splits)
qed

lemma public_doctype_complete:
  assumes "truncated t" "\<not> starved (snd (public_doctype out t))"
  shows "public_doctype out (complete r t) = apsnd (complete r) (public_doctype out t)"
proof -
  define u where "u = skip_space t"
  define q where "q = quoted_identifier (cur u) (advance 1 u) []"
  define v where "v = snd (snd (snd q))"
  define w where "w = skip_space v"
  note here = public_doctype_def [of out t, unfolded Let_def case_prod_beta, folded u_def,
      folded q_def, folded v_def, folded w_def]
  have tu: "truncated u"
    using onwardD(7) [OF skip_space_onward] assms(1) by (simp add: u_def)
  have eu: "\<not> eof u 0"
    using assms tu unfolding here by (auto simp: doctype_at_eof_def)
  then have cu: "skip_space (complete r t) = complete r u"
    unfolding u_def by (rule skip_space_complete)
  show ?thesis
  proof (cases "cur u \<noteq> quotation \<and> cur u \<noteq> apostrophe")
    case True
    with eu assms(2) tu show ?thesis
      unfolding here
      by (auto simp: public_doctype_def [of out "complete r t"] Let_def cu bogus_doctype_complete split: if_splits)
  next
    case quote: False
    have tv: "truncated v"
      using onwardD(7) [OF quoted_identifier_onward [where t = "advance 1 u"]] tu by (simp add: v_def q_def)
    have tw: "truncated w"
      using onwardD(7) [OF skip_space_onward] tv by (simp add: w_def)
    have ev: "\<not> eof v 0"
    proof
      assume ev: "eof v 0"
      then have "eof w 0"
        using onwardD(1,2) [OF skip_space_onward [of v]] by (simp add: w_def eof_def)
      with ev quote eu tv tw assms(2) show False
        unfolding here by (auto simp: doctype_at_eof_def split: if_splits)
    qed
    have "quoted_identifier (cur u) (complete r (advance 1 u)) [] = apsnd (apsnd (apsnd (complete r))) q"
      unfolding q_def using ev by (intro quoted_identifier_complete) (simp add: v_def q_def)
    then have there: "public_doctype out (complete r t) =
        (let out = out\<lparr>tok_public_id := fst q, force_quirks := force_quirks out \<or> fst (snd (snd q))\<rparr>
         in if \<not> fst (snd q) then (out, complete r v)
            else let t = skip_space (complete r v) in
             if eof t 0 then doctype_at_eof out t
             else if cur t = gt then (out, advance 1 t)
             else if cur t \<noteq> quotation \<and> cur t \<noteq> apostrophe then bogus_doctype True out t
             else system_identifier out t)"
      using eu quote ev by (auto simp: public_doctype_def Let_def cu case_prod_beta v_def [symmetric])
    show ?thesis
    proof (cases "fst (snd q)")
      case False
      with eu quote ev show ?thesis
        unfolding here there by (auto simp: Let_def)
    next
      case closed: True
      have ew: "\<not> eof w 0"
        using assms(2) eu quote closed tw unfolding here by (auto simp: doctype_at_eof_def split: if_splits)
      then have cw: "skip_space (complete r v) = complete r w"
        unfolding w_def by (rule skip_space_complete)
      show ?thesis
        using assms(2) eu quote closed tw ew
        unfolding here there
        by (auto simp: Let_def cw bogus_doctype_complete system_identifier_complete split: if_splits)
    qed
  qed
qed

lemma looking_at_ci_nth:
  assumes "looking_at_ci t what" "k < length what"
  shows "ascii_lower (input t ! (at t + k)) = ascii_lower (what ! k)"
proof -
  have l: "at t + length what \<le> length (input t)" and
    m: "map ascii_lower (substr (input t) (at t) (length what)) = map ascii_lower what"
    using assms looking_at_ci_bound [OF assms(1)]
    by (auto simp: looking_at_ci_def ascii_iequals_lower ascii_lower_copy_def)
  have "ascii_lower (substr (input t) (at t) (length what) ! k) = map ascii_lower (substr (input t) (at t) (length what)) ! k"
    using l assms(2) by (simp add: substr_def)
  also have "\<dots> = ascii_lower (what ! k)"
    unfolding m using assms(2) by simp
  finally show ?thesis
    using l assms(2) by (simp add: substr_def)
qed

lemma looking_at_ci_complete:
  "at t + length what \<le> length (input t) \<Longrightarrow> looking_at_ci (complete r t) what = looking_at_ci t what"
  by (auto simp: looking_at_ci_def substr_complete)

lemma looking_at_complete:
  "at t + length what \<le> length (input t) \<Longrightarrow> looking_at (complete r t) what = looking_at t what"
  by (simp add: looking_at_def substr_complete)

lemma keyword_complete:
  assumes "run_end (\<lambda>c. c \<noteq> gt) (input t) (at t) < length (input t)" "\<forall>c \<in> set what. ascii_lower c \<noteq> gt"
    "what \<noteq> []"
  shows "looking_at_ci (complete r t) what = looking_at_ci t what"
proof (cases "at t + length what \<le> length (input t)")
  case True
  then show ?thesis by (rule looking_at_ci_complete)
next
  case False
  define pos where "pos = run_end (\<lambda>c. c \<noteq> gt) (input t) (at t)"
  have p: "at t \<le> pos" "pos < length (input t)" "input t ! pos = gt"
    using assms(1) run_end_stop [of "\<lambda>c. c \<noteq> gt" "input t" "at t"] by (simp_all add: pos_def)
  then have "(input t @ r) ! (at t + (pos - at t)) = gt"
    by (simp add: nth_append)
  moreover have "pos - at t < length what"
    using p False by simp
  moreover have "ascii_lower gt = gt"
    by (simp add: ascii_lower_def between_def)
  ultimately have "\<not> looking_at_ci (complete r t) what"
    using looking_at_ci_nth [of "complete r t" what "pos - at t"] assms(2) by fastforce
  moreover have "\<not> looking_at_ci t what"
    using False looking_at_ci_bound [OF _ assms(3), of t] by blast
  ultimately show ?thesis by blast
qed

lemma doctype_state_complete:
  assumes "truncated t" "\<not> starved (snd (doctype_state t))"
  shows "doctype_state (complete r t) = apsnd (complete r) (doctype_state t)"
proof -
  define u where "u = skip_space t"
  define stop where "stop = run_end in_doctype_name (input u) (at u)"
  define v where "v = u\<lparr>at := stop\<rparr>"
  define w where "w = skip_space v"
  define out where "out = (blank Doctype)\<lparr>tok_name := doctype_name (substr (input u) (at u) (stop - at u))\<rparr>"
  note here = doctype_state_def [of t, unfolded Let_def, folded u_def, folded stop_def, folded v_def out_def, folded w_def]
  have tu: "truncated u"
    using onwardD(7) [OF skip_space_onward] assms(1) by (simp add: u_def)
  have eu: "\<not> eof u 0"
    using assms tu unfolding here by (auto simp: doctype_at_eof_def)
  then have cu: "skip_space (complete r t) = complete r u"
    unfolding u_def by (rule skip_space_complete)
  show ?thesis
  proof (cases "cur u = gt")
    case True
    with eu show ?thesis
      unfolding here by (simp add: doctype_state_def Let_def cu)
  next
    case ngt: False
    have tv: "truncated v" and tw: "truncated w"
      using tu onwardD(7) [OF skip_space_onward [of v]] by (simp_all add: v_def w_def)
    have ev: "\<not> eof v 0"
      using assms(2) eu ngt tv unfolding here by (auto simp: doctype_at_eof_def)
    then have stop: "stop < length (input u)" "at u \<le> stop"
      by (simp_all add: v_def eof_def stop_def)
    have cs: "run_end in_doctype_name (input u @ r) (at u) = stop"
      using stop unfolding stop_def by (intro run_end_complete)
    have cout: "(blank Doctype)\<lparr>tok_name := doctype_name (substr (input u @ r) (at u) (stop - at u))\<rparr> = out"
      using stop by (simp add: out_def substr_complete)
    have cv: "(complete r u)\<lparr>at := stop\<rparr> = complete r v"
      by (simp add: v_def)
    have ew: "\<not> eof w 0"
      using assms(2) eu ngt ev tw unfolding here by (auto simp: doctype_at_eof_def)
    then have cw: "skip_space (complete r v) = complete r w"
      unfolding w_def by (rule skip_space_complete)
    have there: "doctype_state (complete r t) =
        (if cur w = gt then (out, complete r (advance 1 w))
         else if looking_at_ci (complete r w) ''public'' then public_doctype out (complete r (advance 6 w))
         else if looking_at_ci (complete r w) ''system'' then system_doctype out (complete r (advance 6 w))
         else bogus_doctype True out (complete r w))"
      using eu ngt ev ew unfolding doctype_state_def Let_def cu complete_simps cs cout cv cw
      by simp
    show ?thesis
    proof (cases "cur w = gt")
      case True
      with eu ngt ev ew show ?thesis
        unfolding here there by simp
    next
      case wgt: False
      have "at w + 6 \<le> length (input w)" if "looking_at_ci w ''public'' \<or> looking_at_ci w ''system''"
        using that looking_at_ci_bound [of w "''public''"] looking_at_ci_bound [of w "''system''"] by auto
      moreover have "run_end (\<lambda>c. c \<noteq> gt) (input w) (at w) < length (input w)"
        if "\<not> looking_at_ci w ''public''" "\<not> looking_at_ci w ''system''"
      proof (rule ccontr)
        assume "\<not> run_end (\<lambda>c. c \<noteq> gt) (input w) (at w) < length (input w)"
        then have "starved (snd (bogus_doctype True out w))"
          using tw by (simp add: bogus_doctype_def Let_def eof_def)
        with assms(2) eu ngt ev ew wgt that show False
          unfolding here by simp
      qed
      moreover have "\<forall>c \<in> set ''public''. ascii_lower c \<noteq> gt" "\<forall>c \<in> set ''system''. ascii_lower c \<noteq> gt"
        by (simp_all add: ascii_lower_def between_def)
      ultimately have pub: "looking_at_ci (complete r w) ''public'' = looking_at_ci w ''public''"
        and sys: "looking_at_ci (complete r w) ''system'' = looking_at_ci w ''system''"
        using keyword_complete [of w "''public''" r] keyword_complete [of w "''system''" r]
          looking_at_ci_complete [of w "''public''" r] looking_at_ci_complete [of w "''system''" r]
        by fastforce+
      show ?thesis
        using assms(2) eu ngt ev ew wgt tw
        unfolding here there pub sys
        by (auto simp: public_doctype_complete system_doctype_complete bogus_doctype_complete split: if_splits)
    qed
  qed
qed

lemma pi_data_loop_complete:
  "truncated t \<Longrightarrow> \<not> eof (snd (pi_data_loop t data)) 0
    \<Longrightarrow> pi_data_loop (complete r t) data = apsnd (complete r) (pi_data_loop t data)"
proof (induction t data rule: pi_data_loop.induct)
  case (1 t data)
  note IH = 1
  note here = pi_data_loop.simps [of t data]
  note there = pi_data_loop.simps [of "complete r t" data]
  have e: "\<not> eof t 0"
    by (rule not_eof_forward [OF pi_data_loop_onward IH(3)])
  show ?case
  proof (cases "cur t = gt")
    case True
    with e show ?thesis unfolding here there by simp
  next
    case False
    then have l: "pi_data_loop t data = pi_data_loop (snd (append_text t data)) (fst (append_text t data))"
      using e unfolding here by simp
    have "\<not> eof (snd (append_text t data)) 0"
      using IH(3) not_eof_forward [OF pi_data_loop_onward] unfolding l by blast
    then have "append_text (complete r t) data = apsnd (complete r) (append_text t data)"
      by (rule append_text_complete' [OF e IH(2)])
    moreover have "truncated (snd (append_text t data))"
      using onwardD(7) [OF onward_append_text [OF e]] IH(2) by simp
    ultimately show ?thesis
      using IH(1) e False IH(3) unfolding l there by simp
  qed
qed

lemma processing_instruction_state_complete:
  assumes "truncated t" "\<not> starved (snd (processing_instruction_state t))"
  shows "processing_instruction_state (complete r t) = apsnd (complete r) (processing_instruction_state t)"
proof -
  define pos where "pos = run_end target_char (input t) (at t + 1)"
  define target where "target = substr (input t) (at t + 1) (pos - at t - 1)"
  define p where "p = pi_data_loop (skip_space (t\<lparr>at := pos\<rparr>)) []"
  note here = processing_instruction_state_def [of t, unfolded Let_def case_prod_beta, folded pos_def,
      folded target_def, folded p_def]
  have e: "\<not> eof t 1"
    using assms unfolding here by auto
  show ?thesis
  proof (cases "is_alpha (peek t 1) \<or> peek t 1 = CHR ''_''")
    case False
    with e assms show ?thesis
      unfolding here by (simp add: processing_instruction_state_def [of "complete r t"] bogus_comment_state_complete)
  next
    case name: True
    have pos: "pos < length (input t)" "at t + 1 \<le> pos"
      using assms e name unfolding here by (auto simp: pos_def split: if_splits)
    have cpos: "run_end target_char (input t @ r) (at t + 1) = pos"
      using pos unfolding pos_def by (intro run_end_complete)
    have ctarget: "substr (input t @ r) (at t + 1) (pos - at t - 1) = target"
      using pos by (simp add: target_def substr_complete)
    have cafter: "(input t @ r) ! pos = input t ! pos"
      using pos by (simp add: nth_append)
    define bogus where "bogus = (\<not> (is_space (input t ! pos) \<or> input t ! pos = CHR ''?'' \<or> input t ! pos = gt)
        \<or> ascii_iequals target ''xml'' \<or> ascii_iequals target ''xml-stylesheet'')"
    have there: "processing_instruction_state (complete r t) =
        (if bogus then bogus_comment_state (complete r t)
         else let (data, t) = pi_data_loop (skip_space (complete r (t\<lparr>at := pos\<rparr>))) [] in
            if eof t 0 then (end_token, starve t)
            else ((blank Processing_instruction)
                    \<lparr>tok_name := target,
                     tok_data := (if data \<noteq> [] \<and> last data = CHR ''?'' then butlast data else data)\<rparr>,
                  advance 1 t))"
      using e name pos unfolding processing_instruction_state_def [of "complete r t"] Let_def complete_simps cpos
        ctarget cafter bogus_def [symmetric] complete_update
      by simp
    show ?thesis
    proof (cases bogus)
      case True
      with e name pos assms show ?thesis
        unfolding here there bogus_def [symmetric] by (simp add: bogus_comment_state_complete)
    next
      case False
      have tp: "truncated (snd p)"
        using onwardD(7) [OF pi_data_loop_onward] onwardD(7) [OF skip_space_onward [of "t\<lparr>at := pos\<rparr>"]] assms(1)
        by (simp add: p_def)
      have ep: "\<not> eof (snd p) 0"
        using e name pos False assms(2) tp unfolding here bogus_def [symmetric] by auto
      have "\<not> eof (skip_space (t\<lparr>at := pos\<rparr>)) 0"
        using not_eof_forward [OF pi_data_loop_onward ep [unfolded p_def]] .
      then have "pi_data_loop (skip_space (complete r (t\<lparr>at := pos\<rparr>))) [] = apsnd (complete r) p"
        using ep onwardD(7) [OF skip_space_onward [of "t\<lparr>at := pos\<rparr>"]] assms(1)
        unfolding p_def by (simp add: skip_space_complete pi_data_loop_complete)
      with e name pos False ep show ?thesis
        unfolding here there bogus_def [symmetric] by (simp add: case_prod_beta)
    qed
  qed
qed

lemma declaration_complete:
  assumes "truncated t" "\<not> declaration_cut t" "at t \<le> length (input t)"
    "want \<in> set [''!--'', ''!doctype'', ''![CDATA['']" "looking_at_ci (complete r t) want"
  shows "at t + length want \<le> length (input t)"
proof (rule ccontr)
  define have' where "have' = drop (at t) (input t)"
  assume "\<not> ?thesis"
  then have short: "length have' < length want"
    using assms(3) by (simp add: have'_def)
  have m: "map ascii_lower (substr (input t @ r) (at t) (length want)) = map ascii_lower want"
    using assms(5) by (simp add: looking_at_ci_def ascii_iequals_lower ascii_lower_copy_def)
  have "take (length have') (substr (input t @ r) (at t) (length want)) = have'"
    using short assms(3) by (simp add: substr_def have'_def)
  then have "map ascii_lower have' = map ascii_lower (take (length have') want)"
    using arg_cong [OF m, of "take (length have')"] by (simp add: take_map)
  then have "ascii_iequals have' (take (length have') want)"
    by (simp add: ascii_iequals_lower ascii_lower_copy_def)
  moreover have "length (input t) - at t < 8"
    using short assms(4) by (auto simp: have'_def)
  ultimately have "declaration_cut t"
    using assms(1,4) short unfolding declaration_cut_def have'_def by blast
  with assms(2) show False ..
qed

lemma looking_at_imp_ci: "looking_at t what \<Longrightarrow> what \<noteq> [] \<Longrightarrow> looking_at_ci t what"
  using looking_at_bound [of t what] by (auto simp: looking_at_def looking_at_ci_def)

lemma markup_declaration_open_state_complete:
  assumes "truncated t" "\<not> starved (snd (markup_declaration_open_state t))" "\<not> eof t 0"
  shows "markup_declaration_open_state (complete r t) = apsnd (complete r) (markup_declaration_open_state t)"
proof -
  have cut: "\<not> declaration_cut t" and cut': "\<not> declaration_cut (complete r t)"
    using assms by (auto simp: markup_declaration_open_state_def) (simp add: declaration_cut_def)
  have l: "at t \<le> length (input t)"
    using assms(3) by (simp add: eof_def)
  note wants = declaration_complete [OF assms(1) cut l, of _ r]
  have a: "looking_at (complete r t) ''!--'' = looking_at t ''!--''"
    using wants [of "''!--''"] looking_at_complete [of t "''!--''" r] looking_at_bound [of t "''!--''"]
      looking_at_imp_ci [of "complete r t" "''!--''"] by auto
  have b: "looking_at_ci (complete r t) ''!doctype'' = looking_at_ci t ''!doctype''"
    using wants [of "''!doctype''"] looking_at_ci_complete [of t "''!doctype''" r] looking_at_ci_bound [of t "''!doctype''"]
    by auto
  have c: "looking_at (complete r t) ''![CDATA['' = looking_at t ''![CDATA[''"
    using wants [of "''![CDATA[''"] looking_at_complete [of t "''![CDATA[''" r] looking_at_bound [of t "''![CDATA[''"]
      looking_at_imp_ci [of "complete r t" "''![CDATA[''"] by auto
  show ?thesis
    using assms cut looking_at_bound [of t "''![CDATA[''"]
    by (auto simp: markup_declaration_open_state_def cut' a b c comment_state_complete doctype_state_complete
        bogus_comment_state_complete cdata_section_state_complete split: if_splits)
qed

lemma end_tag_open_state_complete:
  assumes "truncated t" "\<not> starved (snd (end_tag_open_state E t))"
  shows "end_tag_open_state E (complete r t) = apsnd (complete r) (end_tag_open_state E t)"
proof -
  have "\<not> eof (advance 1 t) 0"
    using assms by (auto simp: end_tag_open_state_def Let_def)
  then show ?thesis
    using assms
    by (auto simp: end_tag_open_state_def Let_def emit_def tag_name_state_complete bogus_comment_state_complete
        split: if_splits)
qed

lemma tag_open_state_complete:
  assumes "truncated t" "\<not> starved (snd (tag_open_state E t))"
  shows "tag_open_state E (complete r t) = apsnd (complete r) (tag_open_state E t)"
proof -
  have "\<not> eof (advance 1 t) 0"
    using assms by (auto simp: tag_open_state_def Let_def)
  then show ?thesis
    using assms
    by (auto simp: tag_open_state_def Let_def emit_def tag_name_state_complete end_tag_open_state_complete
        markup_declaration_open_state_complete processing_instruction_state_complete split: if_splits)
qed

section \<open>Text states\<close>

text \<open>What a text state promises a reader of a stream: a round over the prefix is a round over the whole
  stream unless it starves; a run is cut only between rounds and only after some data; rounds only ever
  append, so a run that was cut can be taken up again.\<close>

locale resumable_loop = text_loop +
  assumes step_complete: "truncated t \<Longrightarrow> step t d = Go_on d' u \<Longrightarrow> \<not> starved u
      \<Longrightarrow> step (complete r t) d = Go_on d' (complete r u)"
    and step_cut: "truncated t \<Longrightarrow> step t d = Stop d' False u \<Longrightarrow> \<not> starved u
      \<Longrightarrow> d' = d \<and> u = t \<and> (d = [] \<longrightarrow> eof t 0)"
    and step_markup: "truncated t \<Longrightarrow> step t d = Stop d' True u \<Longrightarrow> \<not> starved u
      \<Longrightarrow> d = [] \<and> d' = [] \<and> step (complete r t) d = Stop [] True (complete r u)"
    and step_appends: "step t d = Go_on d' u \<Longrightarrow> step t (p @ d) = Go_on (p @ d') u \<and> d' \<noteq> [] \<and> model u = model t"
    and step_stays: "\<not> truncated t \<Longrightarrow> p \<noteq> [] \<Longrightarrow> step t d = Stop d' b u \<Longrightarrow> step t p = Stop p False t"
begin

lemma go_on_truncated: "step t d = Go_on d' u \<Longrightarrow> truncated u = truncated t"
  using furtherD(5) [OF step_further [of t d]] by simp

lemma go_on_starved: "step t d = Go_on d' u \<Longrightarrow> starved t \<Longrightarrow> starved u"
  using furtherD(7) [OF step_further [of t d]] by simp

lemma loop_not_starved: "\<not> starved (snd (snd (loop t d))) \<Longrightarrow> \<not> starved t"
  using furtherD(7) [OF loop_further [of t d]] by blast

lemma loop_complete:
  "truncated t \<Longrightarrow> loop t d = (d', False, u) \<Longrightarrow> \<not> starved u
    \<Longrightarrow> loop (complete r t) d = loop (complete r u) d' \<and> (d = [] \<longrightarrow> \<not> eof t 0 \<longrightarrow> d' \<noteq> []) \<and> (d \<noteq> [] \<longrightarrow> d' \<noteq> [])
      \<and> model u = model t \<and> truncated u"
proof (induction t d rule: loop_induct)
  case (round t d)
  show ?case
  proof (cases "step t d")
    case (Go_on d1 t1)
    have l: "loop t1 d1 = (d', False, u)"
      using round(3) Go_on by (simp add: loop_step [of t d])
    have "\<not> starved t1"
      using loop_not_starved [of t1 d1] l round(4) by simp
    then have "step (complete r t) d = Go_on d1 (complete r t1)"
      by (rule step_complete [OF round(2) Go_on])
    then have "loop (complete r t) d = loop (complete r t1) d1"
      by (simp add: loop_step [of "complete r t" d])
    moreover have "d1 \<noteq> []" "model t1 = model t"
      using step_appends [OF Go_on] by simp_all
    ultimately show ?thesis
      using round(1) [OF Go_on _ l round(4)] go_on_truncated [OF Go_on] round(2) by simp
  next
    case (Stop d1 b t1)
    then have "step t d = Stop d' False u"
      using round(3) by (simp add: loop_step [of t d])
    from step_cut [OF round(2) this round(4)] round(2) show ?thesis
      by auto
  qed
qed

lemma loop_later: "d \<noteq> [] \<Longrightarrow> truncated t \<Longrightarrow> \<not> starved (snd (snd (loop t d))) \<Longrightarrow> \<not> fst (snd (loop t d))"
proof (induction t d rule: loop_induct)
  case (round t d)
  show ?case
  proof (cases "step t d")
    case (Go_on d1 t1)
    then show ?thesis
      using round(1) [OF Go_on] step_appends [OF Go_on] round(2-4) go_on_truncated [OF Go_on] by (simp add: loop_step [of t d])
  next
    case (Stop d1 b t1)
    show ?thesis
    proof (cases b)
      case True
      with Stop round(2-4) step_markup [of t d d1 t1] show ?thesis
        by (auto simp: loop_step [of t d])
    next
      case False
      with Stop show ?thesis
        by (simp add: loop_step [of t d])
    qed
  qed
qed

lemma loop_markup:
  assumes "truncated t" "loop t [] = (d', True, u)" "\<not> starved u"
  shows "d' = [] \<and> loop (complete r t) [] = ([], True, complete r u)"
proof (cases "step t []")
  case (Go_on d1 t1)
  have l: "loop t [] = loop t1 d1"
    using Go_on by (simp add: loop_step [of t])
  have "d1 \<noteq> []" "truncated t1"
    using step_appends [OF Go_on] go_on_truncated [OF Go_on] assms(1) by simp_all
  then have "\<not> fst (snd (loop t1 d1))"
    using assms(2,3) l by (intro loop_later) simp_all
  with assms(2) l show ?thesis by simp
next
  case (Stop d1 b t1)
  then have "step t [] = Stop d' True u"
    using assms(2) by (simp add: loop_step [of t])
  from step_markup [OF assms(1) this assms(3)] show ?thesis
    by (simp add: loop_step [of "complete r t"])
qed

lemma loop_appends:
  "\<not> truncated t \<Longrightarrow> d \<noteq> [] \<Longrightarrow> loop t (p @ d) = apfst ((@) p) (loop t d) \<and> fst (loop t d) \<noteq> [] \<and> \<not> fst (snd (loop t d))"
proof (induction t d rule: loop_induct)
  case (round t d)
  show ?case
  proof (cases "step t d")
    case (Go_on d1 t1)
    then show ?thesis
      using round(1) [OF Go_on] step_appends [OF Go_on] round(2) go_on_truncated [OF Go_on]
      by (simp add: loop_step [of t d] loop_step [of t "p @ d"])
  next
    case (Stop d1 b t1)
    have "loop t d = (d, False, t)" "loop t (p @ d) = (p @ d, False, t)"
      using step_stays [OF round(2) _ Stop, of "p @ d"] step_stays [OF round(2,3) Stop] round(3)
      by (subst loop_step, simp)+
    with round(3) show ?thesis
      by simp
  qed
qed

lemma loop_resumes:
  assumes "\<not> truncated t" "p \<noteq> []"
  obtains (ended) "loop t p = (p, False, t)"
  | (longer) d u d1 t1 where "step t [] = Go_on d1 t1" "loop t [] = (d, False, u)" "loop t p = (p @ d, False, u)"
proof (cases "step t []")
  case (Go_on d1 t1)
  have "step t p = Go_on (p @ d1) t1" "d1 \<noteq> []"
    using step_appends [OF Go_on, of p] by simp_all
  then have l: "loop t p = apfst ((@) p) (loop t1 d1)" "\<not> fst (snd (loop t1 d1))"
    using loop_appends [of t1 d1 p] go_on_truncated [OF Go_on] assms(1) by (simp_all add: loop_step [of t p])
  have "loop t [] = (fst (loop t1 d1), False, snd (snd (loop t1 d1)))"
    using l(2) by (simp add: loop_step [of t "[]"] Go_on prod_eq_iff)
  moreover have "loop t p = (p @ fst (loop t1 d1), False, snd (snd (loop t1 d1)))"
    using l by (simp add: prod_eq_iff)
  ultimately show ?thesis
    using longer [OF Go_on] by blast
next
  case (Stop d1 b t1)
  then show ?thesis
    using step_stays [OF assms Stop] ended by (simp add: loop_step [of t p])
qed

text \<open>A text state over the prefix and over the whole stream: the same token, or a run that the rest of
  the stream goes on.\<close>

lemma text_state_complete:
  assumes "truncated t" "\<not> eof t 0" "\<not> starved (snd (text_state E (loop t [])))"
  obtains (same) "text_state E (loop (complete r t) []) = apsnd (complete r) (text_state E (loop t []))"
  | (longer) d u d2 w d1 t1 where "text_state E (loop t []) = (Some (character_token d), u)" "model u = model t"
      "truncated u" "step (complete r u) [] = Go_on d1 t1"
      "text_state E (loop (complete r u) []) = (Some (character_token d2), w)"
      "text_state E (loop (complete r t) []) = (Some (character_token (d @ d2)), w)"
proof -
  obtain d b u where l: "loop t [] = (d, b, u)"
    by (cases "loop t []")
  show ?thesis
  proof (cases b)
    case True
    have "\<not> eof u 0"
      using loop_opens [of t "[]"] l True by simp
    then have "onward u (snd (tag_open_state E u))"
      by (rule onward_oneI) (rule tag_open_state_onward(1) [OF \<open>\<not> eof u 0\<close>])
    then have "\<not> starved u"
      using assms(3) l True onwardD(9) by (auto simp: text_state_def)
    moreover from this have "loop (complete r t) [] = ([], True, complete r u)"
      using loop_markup [OF assms(1), of d u r] l True by simp
    moreover have "truncated u"
      using furtherD(5) [OF loop_further [of t "[]"]] l assms(1) by simp
    ultimately show ?thesis
      using same l True assms(3) by (simp add: text_state_def tag_open_state_complete)
  next
    case False
    have u: "\<not> starved u"
      using assms(3) l False by (simp add: text_state_def)
    have c: "loop (complete r t) [] = loop (complete r u) d" "d \<noteq> []" "model u = model t" "truncated u"
      using loop_complete [OF assms(1) _ u, of "[]" d r] assms(2) l False
      by simp_all
    show ?thesis
    proof (rule loop_resumes [of "complete r u" d])
      show "\<not> truncated (complete r u)" "d \<noteq> []"
        using c by simp_all
    next
      assume "loop (complete r u) d = (d, False, complete r u)"
      then show ?thesis
        using same c l False by (simp add: text_state_def)
    next
      fix d2 w d1 t1
      assume "step (complete r u) [] = Go_on d1 t1" "loop (complete r u) [] = (d2, False, w)"
        "loop (complete r u) d = (d @ d2, False, w)"
      then show ?thesis
        using longer [of d u d1 t1 d2 w] c l False by (simp add: text_state_def)
    qed
  qed
qed

end

section \<open>The four text states keep that promise\<close>

lemma append_utf8_nonempty [simp]: "append_utf8 out v \<noteq> []"
  by (simp add: append_utf8_def utf8_def)

lemma append_text_prefix:
  "fst (append_text t (p @ d)) = p @ fst (append_text t d)" "snd (append_text t (p @ d)) = snd (append_text t d)"
  "fst (append_text t d) \<noteq> []"
  by (auto simp: append_text_def Let_def replacement_def)

lemma append_utf8_prefix: "append_utf8 (p @ d) v = p @ append_utf8 d v"
  by (simp add: append_utf8_def)

lemma character_reference_prefix:
  "fst (character_reference E b t (p @ d)) = p @ fst (character_reference E b t d)"
  "snd (character_reference E b t (p @ d)) = snd (character_reference E b t d)"
  by (auto simp: character_reference_def Let_def numeric_reference_def named_reference_def append_utf8_prefix
      case_prod_beta split: option.split)

lemma numeric_reference_nonempty:
  assumes "start < length (input t)" "start < at t + 1" "\<not> eof t 0"
  shows "fst (numeric_reference start t d) \<noteq> []"
proof -
  define u where "u = advance 1 t"
  define hex where "hex = (\<not> eof u 0 \<and> (cur u = CHR ''x'' \<or> cur u = CHR ''X''))"
  define v where "v = (if hex then advance 1 u else u)"
  define w where "w = snd (snd (number_loop hex v 0 False))"
  have "onward v w"
    unfolding w_def by (rule number_loop_onward)
  then have w: "at v \<le> at w" "input w = input v"
    using onwardD(1,2) by blast+
  then have "start < at w" "input w = input t"
    using assms(2) by (auto simp: v_def u_def split: if_splits)
  then have "substr (input w) start (at w - start) \<noteq> []"
    using assms(1) by (simp add: substr_def)
  then show ?thesis
    by (simp add: numeric_reference_def Let_def case_prod_beta u_def [symmetric] hex_def [symmetric]
        v_def [symmetric] w_def [symmetric])
qed

lemma character_reference_nonempty: "\<not> eof t 0 \<Longrightarrow> fst (character_reference E b t d) \<noteq> []"
  using numeric_reference_nonempty [of "at t" "advance 1 t" d]
  by (auto simp: character_reference_def Let_def named_reference_def case_prod_beta eof_def split: option.split)

lemma text_append_laws:
  "text_append t d = Go_on d' u \<Longrightarrow> \<not> eof t 0 \<Longrightarrow>
    text_append t (p @ d) = Go_on (p @ d') u \<and> d' \<noteq> [] \<and> model u = model t"
  using onwardD(3) [OF onward_append_text [of t d]] by (auto simp: text_append_def append_text_prefix)

lemma text_reference_laws:
  "text_reference E t d = Go_on d' u \<Longrightarrow> \<not> eof t 0 \<Longrightarrow>
    text_reference E t (p @ d) = Go_on (p @ d') u \<and> d' \<noteq> [] \<and> model u = model t"
  using onwardD(3) [OF character_reference_onward(1) [of t E False d]]
  by (auto simp: text_reference_def character_reference_prefix character_reference_nonempty)

lemma text_append_complete:
  assumes "text_append t d = Go_on d' u" "truncated t" "\<not> eof t 0" "cur t = cr \<longrightarrow> \<not> cut_at t (at t)"
  shows "text_append (complete r t) d = Go_on d' (complete r u)"
  using assms(1) append_text_complete [OF assms(3,2,4), of r d] by (auto simp: text_append_def)

lemma text_reference_complete:
  assumes "text_reference E t d = Go_on d' u" "truncated t" "\<not> eof t 0" "cur t = CHR ''&''" "\<not> cut_at t (at t)"
  shows "text_reference E (complete r t) d = Go_on d' (complete r u)"
  using assms(1) character_reference_complete [OF assms(3,2,4,5), of E False r d]
  by (auto simp: text_reference_def)

lemma starve_run_cut:
  "truncated t \<Longrightarrow> starve_run d t = Stop d' b u \<Longrightarrow> \<not> starved u \<Longrightarrow> d' = d \<and> u = t \<and> \<not> b \<and> d \<noteq> []"
  by (auto simp: starve_run_def split: if_splits)

lemma cut_less_than: "truncated t \<Longrightarrow> \<not> eof t 0 \<Longrightarrow> cur t = lt \<Longrightarrow> \<not> cut_at t (at t) \<Longrightarrow> \<not> eof t 1"
  by (simp add: cut_at_def cur_def eof_def)

interpretation data: resumable_loop "data_step E" "data_loop E"
proof
  fix t d d' u r p b
  show "data_step E (complete r t) d = Go_on d' (complete r u)"
    if "truncated t" "data_step E t d = Go_on d' u" "\<not> starved u"
    using that cut_less_than [of t]
    by (auto simp: data_step_def text_append_complete text_reference_complete split: if_splits)
  show "d' = d \<and> u = t \<and> (d = [] \<longrightarrow> eof t 0)"
    if "truncated t" "data_step E t d = Stop d' False u" "\<not> starved u"
    using that by (auto simp: data_step_def text_append_def text_reference_def dest: starve_run_cut split: if_splits)
  show "d = [] \<and> d' = [] \<and> data_step E (complete r t) d = Stop [] True (complete r u)"
    if "truncated t" "data_step E t d = Stop d' True u" "\<not> starved u"
    using that cut_less_than [of t]
    by (auto simp: data_step_def text_append_def text_reference_def starve_run_def split: if_splits)
  show "data_step E t (p @ d) = Go_on (p @ d') u \<and> d' \<noteq> [] \<and> model u = model t"
    if "data_step E t d = Go_on d' u"
    using that text_append_laws [of t d d' u p] text_reference_laws [of E t d d' u p]
    by (auto simp: data_step_def split: if_splits)
  show "data_step E t p = Stop p False t"
    if "\<not> truncated t" "p \<noteq> []" "data_step E t d = Stop d' b u"
    using that by (auto simp: data_step_def text_append_def text_reference_def cut_at_def split: if_splits)
qed

lemma appropriate_end_tag_complete:
  assumes "truncated t" "\<not> starved (snd (appropriate_end_tag_ahead t))"
  shows "appropriate_end_tag_ahead (complete r t) = apsnd (complete r) (appropriate_end_tag_ahead t)"
proof (cases "close_tag t = []")
  case True
  then show ?thesis
    by (simp add: appropriate_end_tag_ahead_def)
next
  case False
  define stop where "stop = at t + 2 + length (close_tag t)"
  define have' where "have' = drop (at t + 2) (input t)"
  show ?thesis
  proof (cases "stop > length (input t)")
    case True
    then have n: "\<not> ascii_iequals have' (take (length have') (close_tag t))"
      using assms False by (auto simp: appropriate_end_tag_ahead_def Let_def stop_def have'_def)
    then have "have' \<noteq> []"
      by (auto simp: ascii_iequals_lower)
    then have l: "at t + 2 \<le> length (input t)" "length have' \<le> length (close_tag t)"
      using True by (auto simp: have'_def stop_def)
    have "\<not> ascii_iequals (substr (input t @ r) (at t + 2) (length (close_tag t))) (close_tag t)"
    proof
      assume "ascii_iequals (substr (input t @ r) (at t + 2) (length (close_tag t))) (close_tag t)"
      then have m: "map ascii_lower (substr (input t @ r) (at t + 2) (length (close_tag t))) = map ascii_lower (close_tag t)"
        by (simp add: ascii_iequals_lower ascii_lower_copy_def)
      have "take (length have') (substr (input t @ r) (at t + 2) (length (close_tag t))) = have'"
        using l by (simp add: substr_def have'_def)
      then have "map ascii_lower have' = map ascii_lower (take (length have') (close_tag t))"
        using arg_cong [OF m, of "take (length have')"] by (simp add: take_map)
      with n show False
        by (simp add: ascii_iequals_lower ascii_lower_copy_def)
    qed
    with False True n show ?thesis
      by (simp add: appropriate_end_tag_ahead_def Let_def stop_def have'_def)
  next
    case short: False
    have sub: "substr (input t @ r) (at t + 2) (length (close_tag t)) = substr (input t) (at t + 2) (length (close_tag t))"
      using short by (intro substr_complete) (simp add: stop_def)
    show ?thesis
    proof (cases "ascii_iequals (substr (input t) (at t + 2) (length (close_tag t))) (close_tag t)")
      case True
      have "stop \<noteq> length (input t)"
      proof
        assume "stop = length (input t)"
        with True False short have "appropriate_end_tag_ahead t = (False, starve t)"
          unfolding appropriate_end_tag_ahead_def Let_def stop_def by simp
        with assms show False by simp
      qed
      with short have "stop < length (input t)"
        by simp
      with False short sub True show ?thesis
        by (simp add: appropriate_end_tag_ahead_def Let_def stop_def nth_append)
    next
      case no: False
      with False short sub show ?thesis
        by (simp add: appropriate_end_tag_ahead_def Let_def stop_def)
    qed
  qed
qed

lemma appropriate_end_tag_or:
  "snd (appropriate_end_tag_ahead t) = t \<or> \<not> fst (appropriate_end_tag_ahead t) \<and> snd (appropriate_end_tag_ahead t) = starve t"
  by (simp add: appropriate_end_tag_ahead_def Let_def)

lemma appropriate_end_tag_same:
  "truncated t \<Longrightarrow> \<not> starved (snd (appropriate_end_tag_ahead t)) \<Longrightarrow> snd (appropriate_end_tag_ahead t) = t"
  "\<not> truncated t \<Longrightarrow> snd (appropriate_end_tag_ahead t) = t"
  "fst (appropriate_end_tag_ahead t) \<Longrightarrow> snd (appropriate_end_tag_ahead t) = t"
  using appropriate_end_tag_or [of t] by (auto simp: starve_def)

lemma raw_less_than_complete:
  assumes "truncated t" "\<not> eof t 0" "cur t = lt"
  shows "raw_less_than t d = Go_on d' u \<Longrightarrow> \<not> starved u \<Longrightarrow> raw_less_than (complete r t) d = Go_on d' (complete r u)"
    and "raw_less_than t d = Stop d' False u \<Longrightarrow> \<not> starved u \<Longrightarrow> d' = d \<and> u = t \<and> d \<noteq> []"
    and "raw_less_than t d = Stop d' True u \<Longrightarrow> \<not> starved u
      \<Longrightarrow> d = [] \<and> d' = [] \<and> raw_less_than (complete r t) d = Stop [] True (complete r u)"
proof -
  define ahead where "ahead = (if peek t 1 = CHR ''/'' then appropriate_end_tag_ahead t else (False, t))"
  have same: "snd ahead = t" if "\<not> starved (snd ahead)"
    using that assms(1) appropriate_end_tag_same(1) [of t] by (auto simp: ahead_def)
  have there: "(if peek (complete r t) 1 = CHR ''/'' then appropriate_end_tag_ahead (complete r t) else (False, complete r t))
      = apsnd (complete r) ahead" if "\<not> eof t 1" "\<not> starved (snd ahead)"
    using that assms(1) appropriate_end_tag_complete [of t r] by (auto simp: ahead_def)
  have o: "onward t (snd ahead)"
    by (simp add: ahead_def)
  note here = raw_less_than_def [of t d, unfolded Let_def case_prod_beta, folded ahead_def]
  note here' = raw_less_than_def [of "complete r t" d, unfolded Let_def case_prod_beta]
  show "raw_less_than (complete r t) d = Go_on d' (complete r u)" if a: "raw_less_than t d = Go_on d' u" "\<not> starved u"
  proof -
    have e1: "\<not> eof t 1" and f: "\<not> fst ahead" "\<not> starved (snd ahead)" and g: "text_append (snd ahead) d = Go_on d' u"
      using a assms(1) unfolding here by (auto split: if_splits)
    have "text_append (complete r t) d = Go_on d' (complete r u)"
      using g same [OF f(2)] assms by (intro text_append_complete) simp_all
    with e1 f same [OF f(2)] show ?thesis
      unfolding here' there [OF e1 f(2)] by simp
  qed
  show "d' = d \<and> u = t \<and> d \<noteq> []" if a: "raw_less_than t d = Stop d' False u" "\<not> starved u"
  proof (cases "eof t 1")
    case True
    with a assms(1) show ?thesis
      unfolding here by (auto dest: starve_run_cut)
  next
    case False
    then have f: "fst ahead" "d \<noteq> []" "d' = d" "u = snd ahead"
      using a assms(1) unfolding here by (auto simp: text_append_def split: if_splits)
    with a same show ?thesis by simp
  qed
  show "d = [] \<and> d' = [] \<and> raw_less_than (complete r t) d = Stop [] True (complete r u)"
    if a: "raw_less_than t d = Stop d' True u" "\<not> starved u"
  proof -
    have e1: "\<not> eof t 1" and f: "fst ahead" "d = []" "d' = []" "u = snd ahead\<lparr>model := Data\<rparr>"
      using a assms(1) unfolding here by (auto simp: text_append_def starve_run_def split: if_splits)
    then have n: "\<not> starved (snd ahead)"
      using a by simp
    with e1 f same [OF n] show ?thesis
      unfolding here' there [OF e1 n] by simp
  qed
qed

lemma raw_less_than_laws:
  assumes "\<not> eof t 0"
  shows "raw_less_than t d = Go_on d' u \<Longrightarrow> raw_less_than t (p @ d) = Go_on (p @ d') u \<and> d' \<noteq> [] \<and> model u = model t"
    and "\<not> truncated t \<Longrightarrow> p \<noteq> [] \<Longrightarrow> raw_less_than t d = Stop d' b u \<Longrightarrow> raw_less_than t p = Stop p False t"
proof -
  define ahead where "ahead = (if peek t 1 = CHR ''/'' then appropriate_end_tag_ahead t else (False, t))"
  have m: "model (snd ahead) = model t" "\<not> eof (snd ahead) 0"
    using onwardD(3) [OF appropriate_end_tag_ahead_onward [of t]] assms by (simp_all add: ahead_def eof_def)
  note here = raw_less_than_def [of t, unfolded Let_def case_prod_beta, folded ahead_def]
  show "raw_less_than t (p @ d) = Go_on (p @ d') u \<and> d' \<noteq> [] \<and> model u = model t" if "raw_less_than t d = Go_on d' u"
    using that text_append_laws [of "snd ahead" d d' u p] m unfolding here by (auto split: if_splits)
  show "raw_less_than t p = Stop p False t"
    if "\<not> truncated t" "p \<noteq> []" "raw_less_than t d = Stop d' b u"
    using that appropriate_end_tag_same(2) [of t] unfolding here
    by (auto simp: ahead_def text_append_def split: if_splits)
qed

interpretation raw: resumable_loop "raw_step E k" "raw_loop E k"
proof
  fix t d d' u r p b
  show "raw_step E k (complete r t) d = Go_on d' (complete r u)"
    if "truncated t" "raw_step E k t d = Go_on d' u" "\<not> starved u"
    using that raw_less_than_complete(1) [of t d d' u r]
    by (auto simp: raw_step_def text_append_complete text_reference_complete split: if_splits)
  show "d' = d \<and> u = t \<and> (d = [] \<longrightarrow> eof t 0)"
    if "truncated t" "raw_step E k t d = Stop d' False u" "\<not> starved u"
    using that raw_less_than_complete(2) [of t d d' u]
    by (auto simp: raw_step_def text_append_def text_reference_def dest: starve_run_cut split: if_splits)
  show "d = [] \<and> d' = [] \<and> raw_step E k (complete r t) d = Stop [] True (complete r u)"
    if "truncated t" "raw_step E k t d = Stop d' True u" "\<not> starved u"
    using that raw_less_than_complete(3) [of t d d' u r]
    by (auto simp: raw_step_def text_append_def text_reference_def starve_run_def split: if_splits)
  show "raw_step E k t (p @ d) = Go_on (p @ d') u \<and> d' \<noteq> [] \<and> model u = model t"
    if "raw_step E k t d = Go_on d' u"
    using that text_append_laws [of t d d' u p] text_reference_laws [of E t d d' u p] raw_less_than_laws(1) [of t d d' u p]
    by (auto simp: raw_step_def split: if_splits)
  show "raw_step E k t p = Stop p False t"
    if "\<not> truncated t" "p \<noteq> []" "raw_step E k t d = Stop d' b u"
    using that raw_less_than_laws(2) [of t p d d' b u]
    by (auto simp: raw_step_def text_append_def text_reference_def cut_at_def split: if_splits)
qed

lemma script_name_complete:
  assumes "truncated t"
  shows "script_name k l t d = Go_on d' u \<Longrightarrow> script_name k l (complete r t) d = Go_on d' (complete r u)"
    and "script_name k l t d = Stop d' b u \<Longrightarrow> \<not> starved u \<Longrightarrow> d' = d \<and> u = t \<and> \<not> b \<and> d \<noteq> []"
proof -
  define i where "i = run_end is_alnum (input t) (at t + k)"
  note here = script_name_def [of k l t d, unfolded Let_def, folded i_def]
  note there = script_name_def [of k l "complete r t" d, unfolded Let_def]
  show "script_name k l (complete r t) d = Go_on d' (complete r u)" if a: "script_name k l t d = Go_on d' u"
  proof -
    have i: "i < length (input t)"
      using a assms unfolding here by (auto split: if_splits)
    then have "run_end is_alnum (input t @ r) (at t + k) = i"
      unfolding i_def by (intro run_end_complete)
    moreover have "at t + k \<le> i"
      by (simp add: i_def)
    ultimately show ?thesis
      using a i unfolding here there by (auto simp: nth_append substr_complete split: if_splits)
  qed
  show "d' = d \<and> u = t \<and> \<not> b \<and> d \<noteq> []" if a: "script_name k l t d = Stop d' b u" "\<not> starved u"
    using a starve_run_cut [OF assms, of d d' b u] unfolding here by (auto split: if_splits)
qed

lemma script_name_laws:
  "script_name k l t d = Go_on d' u \<Longrightarrow> 0 < k \<Longrightarrow> at t < length (input t)
    \<Longrightarrow> script_name k l t (p @ d) = Go_on (p @ d') u \<and> d' \<noteq> [] \<and> model u = model t"
  "\<not> truncated t \<Longrightarrow> script_name k l t d \<noteq> Stop d' b u"
proof -
  define i where "i = run_end is_alnum (input t) (at t + k)"
  have "at t + k \<le> i"
    by (simp add: i_def)
  then show "script_name k l t d = Go_on d' u \<Longrightarrow> 0 < k \<Longrightarrow> at t < length (input t)
    \<Longrightarrow> script_name k l t (p @ d) = Go_on (p @ d') u \<and> d' \<noteq> [] \<and> model u = model t"
    unfolding script_name_def Let_def i_def [symmetric]
    by (auto simp: substr_def starve_run_def split: if_splits)
  show "\<not> truncated t \<Longrightarrow> script_name k l t d \<noteq> Stop d' b u"
    unfolding script_name_def Let_def by simp
qed

lemma script_less_than_complete:
  assumes "truncated t" "\<not> eof t 0" "cur t = lt"
  shows "script_less_than t d = Go_on d' u \<Longrightarrow> \<not> starved u \<Longrightarrow> script_less_than (complete r t) d = Go_on d' (complete r u)"
    and "script_less_than t d = Stop d' False u \<Longrightarrow> \<not> starved u \<Longrightarrow> d' = d \<and> u = t \<and> d \<noteq> []"
    and "script_less_than t d = Stop d' True u \<Longrightarrow> \<not> starved u
      \<Longrightarrow> d = [] \<and> d' = [] \<and> script_less_than (complete r t) d = Stop [] True (complete r u)"
proof -
  define ahead where "ahead = (if script_escape t \<noteq> 2 then appropriate_end_tag_ahead t else (False, t))"
  have same: "snd ahead = t" if "\<not> starved (snd ahead)"
    using that assms(1) appropriate_end_tag_same(1) [of t] by (auto simp: ahead_def)
  have ended: "snd ahead = t" if "fst ahead"
    using that appropriate_end_tag_same(3) [of t] by (auto simp: ahead_def split: if_splits)
  have there: "(if script_escape (complete r t) \<noteq> 2 then appropriate_end_tag_ahead (complete r t) else (False, complete r t))
      = apsnd (complete r) ahead" if "\<not> starved (snd ahead)"
    using that assms(1) appropriate_end_tag_complete [of t r] by (auto simp: ahead_def)
  have app: "text_append (complete r t) d = Go_on d' (complete r u)" if "text_append t d = Go_on d' u" for d' u
    using that assms by (intro text_append_complete) simp_all
  note here = script_less_than_def [of t d, unfolded Let_def case_prod_beta, folded ahead_def]
  note here' = script_less_than_def [of "complete r t" d, unfolded Let_def case_prod_beta]
  have look: "looking_at (complete r t) ''<!--'' = looking_at t ''<!--''" if "\<not> length (input t) - at t < 4"
    using that by (intro looking_at_complete) simp
  have starve: "starve_run d t = Stop d' b u \<Longrightarrow> \<not> starved u \<Longrightarrow> d' = d \<and> u = t \<and> \<not> b \<and> d \<noteq> []" for d' b u
    by (rule starve_run_cut [OF assms(1)])
  show "script_less_than (complete r t) d = Go_on d' (complete r u)"
    if a: "script_less_than t d = Go_on d' u" "\<not> starved u"
  proof -
    have e1: "\<not> eof t 1"
      using a assms(1) unfolding here by (auto split: if_splits)
    show ?thesis
    proof (cases "peek t 1 = CHR ''/''")
      case True
      then have f: "\<not> fst ahead" "\<not> starved (snd ahead)"
        using a assms(1) e1 unfolding here by (auto split: if_splits)
      show ?thesis
        using a assms(1) e1 f same [OF f(2)] True app script_name_complete(1) [OF assms(1), of 2 1 d d' u r]
        unfolding here here' there [OF f(2)] by (auto split: if_splits)
    next
      case False
      then show ?thesis
        using a assms(1) e1 app look script_name_complete(1) [OF assms(1), of 1 2 d d' u r]
        unfolding here here' by (auto split: if_splits)
    qed
  qed
  show "d' = d \<and> u = t \<and> d \<noteq> []" if a: "script_less_than t d = Stop d' False u" "\<not> starved u"
    using a assms(1) same starve script_name_complete(2) [OF assms(1), of 1 2 d d' False u]
      script_name_complete(2) [OF assms(1), of 2 1 d d' False u] ended
    unfolding here by (auto simp: text_append_def split: if_splits)
  show "d = [] \<and> d' = [] \<and> script_less_than (complete r t) d = Stop [] True (complete r u)"
    if a: "script_less_than t d = Stop d' True u" "\<not> starved u"
  proof -
    have e1: "\<not> eof t 1" and sl: "peek t 1 = CHR ''/''" and f: "fst ahead" "d = []" "d' = []"
        "u = snd ahead\<lparr>model := Data, script_escape := 0\<rparr>"
      using a assms(1) starve script_name_complete(2) [OF assms(1), of 1 2 d d' True u] ended
        script_name_complete(2) [OF assms(1), of 2 1 d d' True u] same
      unfolding here by (auto simp: text_append_def split: if_splits)
    then have n: "\<not> starved (snd ahead)"
      using a by simp
    with e1 sl f same [OF n] show ?thesis
      unfolding here' there [OF n] by simp
  qed
qed

lemma script_less_than_laws:
  assumes "\<not> eof t 0"
  shows "script_less_than t d = Go_on d' u
      \<Longrightarrow> script_less_than t (p @ d) = Go_on (p @ d') u \<and> d' \<noteq> [] \<and> model u = model t"
    and "\<not> truncated t \<Longrightarrow> p \<noteq> [] \<Longrightarrow> script_less_than t d = Stop d' b u \<Longrightarrow> script_less_than t p = Stop p False t"
proof -
  define ahead where "ahead = (if script_escape t \<noteq> 2 then appropriate_end_tag_ahead t else (False, t))"
  have m: "model (snd ahead) = model t" "\<not> eof (snd ahead) 0" "at (snd ahead) < length (input (snd ahead))"
    using onwardD(3) [OF appropriate_end_tag_ahead_onward [of t]] assms by (simp_all add: ahead_def eof_def)
  have l: "at t < length (input t)"
    using assms by (simp add: eof_def)
  note here = script_less_than_def [of t, unfolded Let_def case_prod_beta, folded ahead_def]
  show "script_less_than t (p @ d) = Go_on (p @ d') u \<and> d' \<noteq> [] \<and> model u = model t"
    if "script_less_than t d = Go_on d' u"
    using that text_append_laws [of "snd ahead" d d' u p] text_append_laws [OF _ assms, of d d' u p] m
      script_name_laws(1) [of 2 1 "snd ahead" d d' u p] script_name_laws(1) [OF _ _ l, of 1 2 d d' u p]
    unfolding here by (auto split: if_splits)
  show "script_less_than t p = Stop p False t"
    if "\<not> truncated t" "p \<noteq> []" "script_less_than t d = Stop d' b u"
    using that appropriate_end_tag_same(2) [of t] script_name_laws(2) [of t] unfolding here
    by (auto simp: ahead_def text_append_def split: if_splits)
qed

interpretation script: resumable_loop script_step script_loop
proof
  fix t d d' u r p b
  have look: "looking_at (complete r t) ''-->'' = looking_at t ''-->''" if "\<not> length (input t) - at t < 3"
    using that by (intro looking_at_complete) simp
  show "script_step (complete r t) d = Go_on d' (complete r u)"
    if "truncated t" "script_step t d = Go_on d' u" "\<not> starved u"
    using that script_less_than_complete(1) [of t d d' u r] look
    by (auto simp: script_step_def text_append_complete split: if_splits)
  show "d' = d \<and> u = t \<and> (d = [] \<longrightarrow> eof t 0)"
    if "truncated t" "script_step t d = Stop d' False u" "\<not> starved u"
    using that script_less_than_complete(2) [of t d d' u]
    by (auto simp: script_step_def text_append_def dest: starve_run_cut split: if_splits)
  show "d = [] \<and> d' = [] \<and> script_step (complete r t) d = Stop [] True (complete r u)"
    if "truncated t" "script_step t d = Stop d' True u" "\<not> starved u"
    using that script_less_than_complete(3) [of t d d' u r]
    by (auto simp: script_step_def text_append_def starve_run_def split: if_splits)
  show "script_step t (p @ d) = Go_on (p @ d') u \<and> d' \<noteq> [] \<and> model u = model t"
    if "script_step t d = Go_on d' u"
    using that text_append_laws [of t d d' u p] script_less_than_laws(1) [of t d d' u p]
    by (auto simp: script_step_def split: if_splits)
  show "script_step t p = Stop p False t"
    if "\<not> truncated t" "p \<noteq> []" "script_step t d = Stop d' b u"
    using that script_less_than_laws(2) [of t p d d' b u]
    by (auto simp: script_step_def text_append_def cut_at_def split: if_splits)
qed

interpretation plaintext: resumable_loop plaintext_step plaintext_loop
proof
  fix t d d' u r p b
  show "plaintext_step (complete r t) d = Go_on d' (complete r u)"
    if "truncated t" "plaintext_step t d = Go_on d' u" "\<not> starved u"
    using that by (auto simp: plaintext_step_def text_append_complete split: if_splits)
  show "d' = d \<and> u = t \<and> (d = [] \<longrightarrow> eof t 0)"
    if "truncated t" "plaintext_step t d = Stop d' False u" "\<not> starved u"
    using that by (auto simp: plaintext_step_def text_append_def dest: starve_run_cut split: if_splits)
  show "d = [] \<and> d' = [] \<and> plaintext_step (complete r t) d = Stop [] True (complete r u)"
    if "truncated t" "plaintext_step t d = Stop d' True u" "\<not> starved u"
    using that by (auto simp: plaintext_step_def text_append_def starve_run_def split: if_splits)
  show "plaintext_step t (p @ d) = Go_on (p @ d') u \<and> d' \<noteq> [] \<and> model u = model t"
    if "plaintext_step t d = Go_on d' u"
    using that text_append_laws [of t d d' u p] by (auto simp: plaintext_step_def split: if_splits)
  show "plaintext_step t p = Stop p False t"
    if "\<not> truncated t" "p \<noteq> []" "plaintext_step t d = Stop d' b u"
    using that by (auto simp: plaintext_step_def text_append_def cut_at_def split: if_splits)
qed

section \<open>The next token\<close>

lemma next_token_text:
  assumes "step t [] = Go_on d1 t1" "state_of_model E t = (Some tok, w)" "\<not> eof t 0"
    "model t = Data \<Longrightarrow> step = data_step E"
  shows "next_token E t = (tok, w)"
proof -
  have "\<not> (model t = Data \<and> looking_at t ''</>'')"
  proof
    assume a: "model t = Data \<and> looking_at t ''</>''"
    then have s: "substr (input t) (at t) 3 = ''</>''"
      by (simp add: looking_at_def One_nat_def numeral_3_eq_3)
    have b: "at t + 3 \<le> length (input t)"
      using looking_at_bound [of t "''</>''"] a by (simp add: One_nat_def)
    have "input t ! at t = substr (input t) (at t) 3 ! 0" "input t ! (at t + 1) = substr (input t) (at t) 3 ! 1"
      using b by (simp_all add: substr_def)
    then have "cur t = lt" "peek t 1 = CHR ''/''"
      using b unfolding s by (simp_all add: cur_def peek_def One_nat_def)
    moreover from a assms(4) have "data_step E t [] = Go_on d1 t1"
      using assms(1) by simp
    ultimately show False
      by (auto simp: data_step_def opens_markup_def split: if_splits)
  qed
  then have "skip_empty_end_tags t = t"
    by (subst skip_empty_end_tags.simps) auto
  with assms(2,3) show ?thesis
    by (subst next_token.simps) simp
qed

lemma state_of_model_complete:
  assumes "truncated t" "\<not> eof t 0" "\<not> starved (snd (state_of_model E t))"
  obtains (same) "state_of_model E (complete r t) = apsnd (complete r) (state_of_model E t)"
  | (longer) d u d2 w where "state_of_model E t = (Some (character_token d), u)" "truncated u"
      "next_token E (complete r u) = (character_token d2, w)"
      "state_of_model E (complete r t) = (Some (character_token (d @ d2)), w)"
proof -
  have *: thesis
    if "\<And>u. model u = model t \<Longrightarrow> state_of_model E u = text_state E (loop u [])" and "resumable_loop step loop"
      "model t = Data \<Longrightarrow> step = data_step E" for step loop
  proof -
    have s: "\<not> starved (snd (text_state E (loop t [])))"
      using assms(3) that(1) [of t] by simp
    show thesis
    proof (rule resumable_loop.text_state_complete [OF that(2) assms(1,2) s, of r])
      assume "text_state E (loop (complete r t) []) = apsnd (complete r) (text_state E (loop t []))"
      then show thesis
        using same that(1) [of t] that(1) [of "complete r t"] by simp
    next
      fix d u d2 w d1 t1
      assume a: "text_state E (loop t []) = (Some (character_token d), u)" "model u = model t" "truncated u"
        "step (complete r u) [] = Go_on d1 t1"
        "text_state E (loop (complete r u) []) = (Some (character_token d2), w)"
        "text_state E (loop (complete r t) []) = (Some (character_token (d @ d2)), w)"
      have "\<not> eof (complete r u) 0"
        using text_loop.step_forward [OF resumable_loop.axioms(1) [OF that(2)] a(4)] by (simp add: eof_def)
      then have "next_token E (complete r u) = (character_token d2, w)"
        using a(2,5) that(1) [of "complete r u"] that(3) a(4)
        by (intro next_token_text [where step = step]) simp_all
      then show thesis
        using longer a(1,3,6) that(1) [of t] that(1) [of "complete r t"] by simp
    qed
  qed
  show thesis
  proof (cases "model t")
    case Data
    show thesis
      by (rule * [of "data_loop E" "data_step E"])
        (use Data data.resumable_loop_axioms in \<open>simp_all add: state_of_model_def data_state_def\<close>)
  next
    case Rcdata
    show thesis
      by (rule * [of "raw_loop E True" "raw_step E True"])
        (use Rcdata raw.resumable_loop_axioms in \<open>simp_all add: state_of_model_def rcdata_or_rawtext_state_def\<close>)
  next
    case Rawtext
    show thesis
      by (rule * [of "raw_loop E False" "raw_step E False"])
        (use Rawtext raw.resumable_loop_axioms in \<open>simp_all add: state_of_model_def rcdata_or_rawtext_state_def\<close>)
  next
    case Script
    show thesis
      by (rule * [of script_loop script_step])
        (use Script script.resumable_loop_axioms in \<open>simp_all add: state_of_model_def script_data_state_def\<close>)
  next
    case Plaintext
    show thesis
      by (rule * [of plaintext_loop plaintext_step])
        (use Plaintext plaintext.resumable_loop_axioms in \<open>simp_all add: state_of_model_def plaintext_state_def\<close>)
  qed
qed

lemma next_token_onward: "further t (snd (next_token E t))"
proof (induction E t rule: next_token.induct)
  case (1 E t)
  define v where "v = skip_empty_end_tags t"
  have v: "further t v"
    by (simp add: v_def skip_empty_end_tags_onward)
  show ?case
  proof (cases "eof v 0")
    case True
    then have "next_token E t = (end_token, starve v)"
      by (subst next_token.simps) (simp add: v_def [symmetric])
    then show ?thesis
      using further_trans [OF v further_onward [OF onward_starve]] by simp
  next
    case False
    have s: "further t (snd (state_of_model E v))"
      by (rule further_trans [OF v state_of_model_further(1)])
    show ?thesis
    proof (cases "state_of_model E v")
      case (Pair out w)
      show ?thesis
      proof (cases out)
        case None
        have "next_token E t = next_token E w"
          using False Pair None by (subst next_token.simps) (simp add: v_def [symmetric])
        then show ?thesis
          using further_trans [OF s [unfolded Pair snd_conv] 1 [OF v_def False Pair [symmetric] None]] by simp
      next
        case (Some tok)
        have "next_token E t = (tok, w)"
          using False Pair Some by (subst next_token.simps) (simp add: v_def [symmetric])
        then show ?thesis
          using s Pair by simp
      qed
    qed
  qed
qed

text \<open>A truncated view that ends inside a \<^verbatim>\<open></>\<close> starves.\<close>

lemma cut_empty_end_tag:
  assumes "truncated v" "model v = Data" "\<not> looking_at v ''</>''" "looking_at (complete r v) ''</>''" "\<not> eof v 0"
  shows "starved (snd (state_of_model E v)) \<and> fst (state_of_model E v) \<noteq> None"
proof -
  have "\<not> at v + length ''</>'' \<le> length (input v)"
    using looking_at_complete [of v "''</>''" r] assms(3,4) by blast
  then have short: "length (input v) < at v + 3"
    by (simp add: One_nat_def)
  have b: "at v + 3 \<le> length (input v @ r)" and s: "substr (input v @ r) (at v) 3 = ''</>''"
    using looking_at_bound [OF assms(4)] assms(4) by (simp_all add: looking_at_def One_nat_def numeral_3_eq_3)
  have "(input v @ r) ! at v = substr (input v @ r) (at v) 3 ! 0"
      "(input v @ r) ! (at v + 1) = substr (input v @ r) (at v) 3 ! 1"
    using b by (simp_all add: substr_def del: take_append drop_append)
  then have c: "cur (complete r v) = lt" "(input v @ r) ! (at v + 1) = CHR ''/''"
    unfolding s by (simp_all add: cur_def One_nat_def)
  then have cur: "cur v = lt"
    using assms(5) by simp
  show ?thesis
  proof (cases "eof v 1")
    case True
    then have "data_step E v [] = starve_run [] v"
      using assms(1,5) cur by (simp add: data_step_def cut_at_def cur_def eof_def)
    then have "data_loop E v [] = ([], False, starve v)"
      by (simp add: data_loop.simps [of E v] starve_run_def)
    then show ?thesis
      using assms(1,2) by (simp add: state_of_model_def data_state_def text_state_def)
  next
    case False
    then have p: "peek v 1 = CHR ''/''" and e2: "length (input v) = at v + 2"
      using c(2) short by (simp_all add: peek_def eof_def nth_append)
    then have "data_step E v [] = Stop [] True v"
      using assms(1,5) cur False
      by (simp add: data_step_def cut_at_def cur_def eof_def opens_markup_def)
    then have l: "data_loop E v [] = ([], True, v)"
      by (simp add: data_loop.simps [of E v])
    have "cur (advance 1 v) = CHR ''/''" "\<not> eof (advance 1 v) 0" "eof (advance 1 (advance 1 v)) 0"
      using p e2 by (simp_all add: cur_def peek_def eof_def)
    then have "tag_open_state E v = (Some (character_token ''</''), starve (advance 1 (advance 1 v)))"
      by (simp add: tag_open_state_def end_tag_open_state_def Let_def)
    with l show ?thesis
      using assms(1,2) by (simp add: state_of_model_def data_state_def text_state_def)
  qed
qed

lemma skip_empty_stops: "\<not> (model (skip_empty_end_tags t) = Data \<and> looking_at (skip_empty_end_tags t) ''</>'')"
proof (induction t rule: skip_empty_end_tags.induct)
  case (1 t)
  show ?case
  proof (cases "model t = Data \<and> looking_at t ''</>''")
    case True
    with 1 show ?thesis
      by (simp add: skip_empty_end_tags.simps [of t])
  next
    case False
    then show ?thesis
      by (auto simp: skip_empty_end_tags.simps [of t])
  qed
qed

lemma skip_empty_complete:
  "truncated t \<Longrightarrow> \<not> (model (skip_empty_end_tags t) = Data \<and> looking_at (complete r (skip_empty_end_tags t)) ''</>'')
    \<Longrightarrow> skip_empty_end_tags (complete r t) = complete r (skip_empty_end_tags t)"
proof (induction t rule: skip_empty_end_tags.induct)
  case (1 t)
  show ?case
  proof (cases "model t = Data \<and> looking_at t ''</>''")
    case True
    then have "looking_at (complete r t) ''</>''"
      using looking_at_complete [of t "''</>''" r] looking_at_bound [of t "''</>''"] by simp
    with True 1 show ?thesis
      by (simp add: skip_empty_end_tags.simps [of t] skip_empty_end_tags.simps [of "complete r t"])
  next
    case False
    with 1(3) show ?thesis
      by (auto simp: skip_empty_end_tags.simps [of t] skip_empty_end_tags.simps [of "complete r t"])
  qed
qed

lemma next_token_complete:
  assumes "truncated t" "\<not> starved (snd (next_token E t))"
  obtains (same) "next_token E (complete r t) = apsnd (complete r) (next_token E t)"
  | (longer) d u d2 w where "next_token E t = (character_token d, u)"
      "next_token E (complete r u) = (character_token d2, w)"
      "next_token E (complete r t) = (character_token (d @ d2), w)"
proof -
  have "next_token E (complete r t) = apsnd (complete r) (next_token E t) \<or>
    (\<exists>d u d2 w. next_token E t = (character_token d, u) \<and> next_token E (complete r u) = (character_token d2, w)
      \<and> next_token E (complete r t) = (character_token (d @ d2), w))"
    using assms
  proof (induction E t rule: next_token.induct)
    case (1 E t)
    define v where "v = skip_empty_end_tags t"
    have v: "truncated v"
      using onwardD(7) [OF skip_empty_end_tags_onward [of t]] 1(2) by (simp add: v_def)
    have ev: "\<not> eof v 0"
    proof
      assume "eof v 0"
      then have "next_token E t = (end_token, starve v)"
        by (subst next_token.simps) (simp add: v_def [symmetric])
      with 1(3) v show False by simp
    qed
    obtain out w where st: "state_of_model E v = (out, w)"
      by (cases "state_of_model E v")
    have unfold: "next_token E t = (case out of Some tok \<Rightarrow> (tok, w) | None \<Rightarrow> next_token E w)"
      using ev st by (subst next_token.simps) (simp add: v_def [symmetric] split: option.split)
    have w: "\<not> starved w"
      using 1(3) furtherD(7) [OF next_token_onward [of w E]] unfolding unfold by (auto split: option.splits)
    have "\<not> (model v = Data \<and> looking_at (complete r v) ''</>'')"
      using cut_empty_end_tag [OF v _ _ _ ev, of r E] skip_empty_stops [of t] st w by (auto simp: v_def)
    then have cv: "skip_empty_end_tags (complete r t) = complete r v"
      unfolding v_def by (rule skip_empty_complete [OF 1(2)])
    have unfoldc: "next_token E (complete r t) = (case state_of_model E (complete r v) of
        (Some tok, w) \<Rightarrow> (tok, w) | (None, w) \<Rightarrow> next_token E w)"
      using ev by (subst next_token.simps) (simp add: cv)
    show ?case
    proof (rule state_of_model_complete [OF v ev, of E r])
      show "\<not> starved (snd (state_of_model E v))"
        using st w by simp
    next
      assume c: "state_of_model E (complete r v) = apsnd (complete r) (state_of_model E v)"
      show ?case
      proof (cases out)
        case None
        have "truncated w"
          using furtherD(5) [OF state_of_model_further(1) [of v E]] st v by simp
        with 1(1) [OF v_def ev st [symmetric] None] 1(3) show ?thesis
          unfolding unfoldc unfold c st by (simp add: None)
      next
        case (Some tok)
        then show ?thesis
          unfolding unfoldc unfold c st by simp
      qed
    next
      fix d u d2 x
      assume "state_of_model E v = (Some (character_token d), u)" "truncated u"
        "next_token E (complete r u) = (character_token d2, x)"
        "state_of_model E (complete r v) = (Some (character_token (d @ d2)), x)"
      then show ?case
        using st unfolding unfoldc unfold by auto
    qed
  qed
  then show thesis
    using same longer by blast
qed

section \<open>Kinds of tokens\<close>

text \<open>What the attribute loop keeps of the token it fills.\<close>

lemma attribute_loop_keeps:
  assumes "P end_token" "\<And>out. P out \<Longrightarrow> P (out\<lparr>self_closing := True\<rparr>)"
    "\<And>out names t b v. P out \<Longrightarrow> \<not> eof t 0 \<Longrightarrow> (b \<longrightarrow> cur t = CHR ''='') \<Longrightarrow>
       (\<not> b \<longrightarrow> \<not> (is_space (cur t) \<or> cur t = CHR ''/'' \<or> cur t = gt \<or> cur t = CHR ''='')) \<Longrightarrow>
       P (fst (add_attribute \<lparr>attr_name = fst (attribute_name_loop (if b then advance 1 t else t) (if b then ''='' else [])),
                              attr_value = v\<rparr> out names))"
  shows "P out \<Longrightarrow> P (fst (attribute_loop E t out names))"
proof (induction E t out names rule: attribute_loop.induct)
  case (1 E t out names)
  define u where "u = skip_space t"
  define nm where "nm = attribute_name_loop (if cur u = CHR ''='' then advance 1 u else u)
                          (if cur u = CHR ''='' then ''='' else [])"
  define v where "v = skip_space (snd nm)"
  define w where "w = attribute_rest E v"
  show ?case
  proof (cases "eof u 0 \<or> cur u = gt")
    case True
    then show ?thesis
      using assms(1) 1(3) by (subst attribute_loop.simps) (auto simp: Let_def u_def [symmetric])
  next
    case False
    then have e: "\<not> eof u 0" "cur u \<noteq> gt"
      by auto
    show ?thesis
    proof (cases "cur u = CHR ''/''")
      case True
      with e show ?thesis
        using assms(1,2) 1(1) [OF u_def e(1) refl e(2) True refl] 1(3)
        by (subst attribute_loop.simps) (auto simp: Let_def u_def [symmetric])
    next
      case False
      show ?thesis
      proof (cases "eof v 0")
        case True
        with e False show ?thesis
          using assms(1)
          by (subst attribute_loop.simps) (simp add: Let_def u_def [symmetric] nm_def [symmetric] v_def [symmetric])
      next
        case ev: False
        have "\<not> is_space (cur u)"
          using e(1) run_end_stop [of is_space "input t" "at t"]
          by (simp add: u_def skip_space_def cur_def eof_def)
        then have a: "P (fst (add_attribute \<lparr>attr_name = fst nm, attr_value = x\<rparr> out names))" for x
          unfolding nm_def using assms(3) [OF 1(3) e(1), of "cur u = CHR ''=''"] e(2) False by auto
        show ?thesis
          unfolding attribute_loop_round [OF u_def [symmetric] e False nm_def [symmetric] v_def [symmetric] ev w_def [symmetric]]
          using assms(1) 1(2) [OF u_def e(1) refl e(2) False nm_def v_def ev w_def _ refl a]
          by (cases "fst w") simp_all
      qed
    qed
  qed
qed

lemma attribute_loop_kind:
  "tok_kind (fst (attribute_loop E t out names)) = End_of_file \<or> tok_kind (fst (attribute_loop E t out names)) = tok_kind out"
  by (rule attribute_loop_keeps [where P = "\<lambda>k. tok_kind k = End_of_file \<or> tok_kind k = tok_kind out"])
    (auto simp: end_token_def blank_def add_attribute_def Let_def case_prod_beta)

lemma tag_name_state_kind:
  "tok_kind (fst (tag_name_state E t out)) = End_of_file \<or> tok_kind (fst (tag_name_state E t out)) = tok_kind out"
  using attribute_loop_kind [of E "snd (tag_name_loop t (tok_name out))"
      "out\<lparr>tok_name := fst (tag_name_loop t (tok_name out))\<rparr>" "{}"]
  by (simp add: tag_name_state_def case_prod_beta attributes_def end_token_def blank_def)

lemma comment_kinds [simp]:
  "tok_kind (fst (comment_state t)) = Comment" "tok_kind (fst (bogus_comment_state t)) = Comment"
  by (simp_all add: comment_state_def bogus_comment_state_def Let_def case_prod_beta blank_def)

lemma bogus_doctype_kind [simp]:
  "tok_kind (fst (bogus_doctype b out t)) = tok_kind out" "tok_kind (fst (doctype_at_eof out t)) = tok_kind out"
  by (simp_all add: bogus_doctype_def doctype_at_eof_def Let_def)

lemma after_system_kind [simp]: "tok_kind (fst (after_system out t)) = tok_kind out"
  by (simp add: after_system_def Let_def)

lemma system_identifier_kind [simp]: "tok_kind (fst (system_identifier out t)) = tok_kind out"
  by (simp add: system_identifier_def Let_def case_prod_beta)

lemma keyword_doctype_kind [simp]:
  "tok_kind (fst (system_doctype out t)) = tok_kind out" "tok_kind (fst (public_doctype out t)) = tok_kind out"
  by (simp_all add: system_doctype_def public_doctype_def Let_def case_prod_beta)

lemma doctype_kind [simp]: "tok_kind (fst (doctype_state t)) = Doctype"
  by (simp add: doctype_state_def Let_def blank_def)

lemma cdata_kind [simp]: "tok_kind (fst (cdata_section_state t)) = Character"
  by (simp add: cdata_section_state_def Let_def case_prod_beta blank_def split: option.split)

lemma character_token_kind [simp]: "tok_kind (character_token d) = Character" "tok_data (character_token d) = d"
  by (simp_all add: character_token_def blank_def)

lemma tag_open_state_kind:
  assumes "fst (tag_open_state E t) = Some tok"
  shows "tok_kind tok \<noteq> Incomplete"
proof -
  have k: "tok_kind (fst (markup_declaration_open_state v)) \<noteq> Incomplete"
    "tok_kind (fst (processing_instruction_state v)) \<noteq> Incomplete"
    "tok_kind (fst (tag_name_state E v (blank Start_tag))) \<noteq> Incomplete"
    "tok_kind (fst (tag_name_state E v (blank End_tag))) \<noteq> Incomplete" for v
    using tag_name_state_kind [of E v "blank Start_tag"] tag_name_state_kind [of E v "blank End_tag"]
    by (auto simp: markup_declaration_open_state_def processing_instruction_state_def Let_def case_prod_beta
        end_token_def blank_def)
  show ?thesis
    using assms k by (auto simp: tag_open_state_def end_tag_open_state_def Let_def emit_def split: if_splits)
qed

lemma text_state_kind: "text_state E l = (Some tok, w) \<Longrightarrow> tok_kind tok \<noteq> Incomplete"
  using tag_open_state_kind [of E "snd (snd l)" tok] by (auto simp: text_state_def split: prod.splits if_splits)

lemma next_token_kind: "tok_kind (fst (next_token E t)) \<noteq> Incomplete"
proof (induction E t rule: next_token.induct)
  case (1 E t)
  define v where "v = skip_empty_end_tags t"
  show ?case
  proof (cases "eof v 0")
    case True
    then show ?thesis
      by (subst next_token.simps) (simp add: v_def [symmetric] end_token_def blank_def)
  next
    case False
    obtain out w where st: "state_of_model E v = (out, w)"
      by (cases "state_of_model E v")
    show ?thesis
    proof (cases out)
      case None
      then show ?thesis
        using 1 [OF v_def False st [symmetric] None] False st
        by (subst next_token.simps) (simp add: v_def [symmetric])
    next
      case (Some tok)
      have "tok_kind tok \<noteq> Incomplete"
        using st Some text_state_kind [of E _ tok w]
        by (auto simp: state_of_model_def data_state_def rcdata_or_rawtext_state_def
            script_data_state_def plaintext_state_def split: content_model.splits)
      then show ?thesis
        using False st Some by (subst next_token.simps) (simp add: v_def [symmetric])
    qed
  qed
qed

lemma complete_set_input: "complete r t = set_input (input t @ r) False t"
  by (simp add: complete_def set_input_def)

lemma next_tok_cases:
  "next_tok E t =
    (if starved (snd (next_token E (t\<lparr>starved := False\<rparr>)))
     then ((blank Incomplete)\<lparr>source_begin := at t, source_end := at t\<rparr>,
           (snd (next_token E (t\<lparr>starved := False\<rparr>)))\<lparr>at := at t, model := model t, script_escape := script_escape t\<rparr>)
     else ((fst (next_token E (t\<lparr>starved := False\<rparr>)))\<lparr>source_begin := at t,
              source_end := at (snd (next_token E (t\<lparr>starved := False\<rparr>)))\<rparr>,
           snd (next_token E (t\<lparr>starved := False\<rparr>))))"
  by (simp add: next_tok_def Let_def case_prod_beta)

lemma further_eq:
  assumes "further t u"
  shows "u\<lparr>at := at t, model := model t, script_escape := script_escape t\<rparr> = t\<lparr>starved := starved u\<rparr>"
proof -
  have e: "u\<lparr>model := model t, script_escape := script_escape t\<rparr> = t\<lparr>at := at u, starved := starved u\<rparr>"
    using assms by (simp add: further_def onward_def)
  have "u\<lparr>at := at t, model := model t, script_escape := script_escape t\<rparr>
      = (u\<lparr>model := model t, script_escape := script_escape t\<rparr>)\<lparr>at := at t\<rparr>"
    by simp
  also have "\<dots> = t\<lparr>starved := starved u\<rparr>"
    unfolding e by simp
  finally show ?thesis .
qed

text \<open>C7. An incomplete token leaves the tokenizer where the token began, so that reading again over a
  grown stream is reading from there for the first time; and a token that is complete over a truncated
  view is the token read over the whole stream, with the same span and the same tokenizer after it,
  except that a run of text cut by the end of the view - at whatever byte that is - is the first part of
  the run in the whole stream, whose rest is what the next call reads.\<close>

theorem reads_as_it_arrives:
  assumes "truncated t" "next_tok E t = (tok, u)"
  shows "if tok_kind tok = Incomplete
    then at u = at t \<and> (\<forall>s b. next_tok E (set_input s b u) = next_tok E (set_input s b t))
    else next_tok E (set_input (input t @ r) False t) = (tok, set_input (input t @ r) False u)
      \<or> (\<exists>rest w. tok_kind tok = Character \<and> next_tok E (set_input (input t @ r) False u) = (rest, w)
           \<and> tok_kind rest = Character
           \<and> next_tok E (set_input (input t @ r) False t)
             = (tok\<lparr>tok_data := tok_data tok @ tok_data rest, source_end := source_end rest\<rparr>, w))"
proof -
  define v where "v = t\<lparr>starved := False\<rparr>"
  define n where "n = next_token E v"
  have tv: "truncated v" "at v = at t" "\<not> starved v"
    using assms(1) by (simp_all add: v_def)
  have f: "further v (snd n)"
    unfolding n_def by (rule next_token_onward)
  note here = next_tok_cases [of E t, folded v_def, folded n_def]
  have kind: "tok_kind tok = Incomplete \<longleftrightarrow> starved (snd n)"
    using assms(2) next_token_kind [of E v] unfolding here by (auto simp: n_def blank_def split: if_splits)
  show ?thesis
  proof (cases "starved (snd n)")
    case True
    have "u = (snd n)\<lparr>at := at v, model := model v, script_escape := script_escape v\<rparr>"
      using assms(2) True unfolding here by (simp add: v_def)
    also have "\<dots> = v\<lparr>starved := starved (snd n)\<rparr>"
      by (rule further_eq [OF f])
    finally have u: "u = v\<lparr>starved := starved (snd n)\<rparr>" .
    have "next_tok E (set_input s b u) = next_tok E (set_input s b t)" for s b
      by (simp add: u v_def set_input_def next_tok_cases)
    with True kind u tv show ?thesis
      by simp
  next
    case False
    have tok: "tok = (fst n)\<lparr>source_begin := at t, source_end := at (snd n)\<rparr>" and u: "u = snd n"
      using assms(2) False unfolding here by auto
    have cv: "(complete r t)\<lparr>starved := False\<rparr> = complete r v"
      by (simp add: v_def)
    have cu: "(complete r u)\<lparr>starved := False\<rparr> = complete r u"
      using False u by (simp add: complete_def)
    note there = next_tok_cases [of E "complete r t", unfolded cv] and after = next_tok_cases [of E "complete r u", unfolded cu]
    have "input u = input t"
      using furtherD(2) [OF f] u by (simp add: v_def)
    then have si: "set_input (input t @ r) False t = complete r t" "set_input (input t @ r) False u = complete r u"
      by (simp_all add: complete_set_input)
    have ns: "\<not> starved (snd (next_token E v))"
      using False by (simp add: n_def)
    have no: "\<not> starved (snd (next_token E (complete r w)))" if "\<not> starved w" for w
      using furtherD(8) [OF next_token_onward [of "complete r w" E]] that by auto
    show ?thesis
    proof (rule next_token_complete [OF tv(1) ns, of r])
      assume "next_token E (complete r v) = apsnd (complete r) (next_token E v)"
      then have "next_tok E (complete r t) = (tok, complete r u)"
        using False tok u tv(2) unfolding there by (simp add: n_def)
      then show ?thesis
        using kind False unfolding si by simp
    next
      fix d x d2 w
      assume a: "next_token E v = (character_token d, x)" "next_token E (complete r x) = (character_token d2, w)"
        "next_token E (complete r v) = (character_token (d @ d2), w)"
      have x: "x = u" "\<not> starved w" "\<not> starved u"
        using a u no [of u] False by (simp_all add: n_def)
      define rest where "rest = (character_token d2)\<lparr>source_begin := at u, source_end := at w\<rparr>"
      have "next_tok E (complete r u) = (rest, w)"
        unfolding after using a x by (simp add: rest_def)
      moreover have "next_tok E (complete r t)
          = (tok\<lparr>tok_data := tok_data tok @ tok_data rest, source_end := source_end rest\<rparr>, w)"
        unfolding there using a x tok by (simp add: rest_def n_def character_token_def)
      moreover have "tok_kind tok = Character" "tok_kind rest = Character"
        using tok a by (simp_all add: rest_def n_def)
      ultimately show ?thesis
        using kind False unfolding si by auto
    qed
  qed
qed

theorem reads_as_it_arrives_witness:
  "truncated (set_input ''<p>'' True (new_tokenizer []))
    \<and> tok_kind (fst (next_tok [] (set_input ''<p>'' True (new_tokenizer [])))) = Start_tag
    \<and> next_tok [] (set_input ''<p>x'' False (new_tokenizer []))
      = (fst (next_tok [] (set_input ''<p>'' True (new_tokenizer []))),
         set_input ''<p>x'' False (snd (next_tok [] (set_input ''<p>'' True (new_tokenizer [])))))"
proof -
  define t where "t = set_input ''<p>'' True (new_tokenizer [])"
  have k: "tok_kind (fst (next_tok [] t)) = Start_tag"
    unfolding t_def by code_simp
  have tr: "truncated t" "input t = ''<p>''" "set_input s b t = set_input s b (new_tokenizer [])" for s b
    by (simp_all add: t_def set_input_def)
  from reads_as_it_arrives [of t "[]" "fst (next_tok [] t)" "snd (next_tok [] t)" "''x''"] k tr
  show ?thesis
    unfolding t_def [symmetric] by simp
qed

end
