(* ===== verification/Html_Live.thy ===== *)
theory Html_Live
  imports Html_Resume
begin

text \<open>
  The tokenizer always gets to the end. Over a whole stream every token reads at least one byte until the
  end-of-file token, whatever content model the tree builder sets between two tokens, and the spans of
  the tokens tile the input.
\<close>

declare One_nat_def [simp del]

section \<open>Every token reads something\<close>

text \<open>A text state in front of a character either reads it or hands over to the tag open state.\<close>

locale live_loop = text_loop +
  assumes step_reads: "\<not> truncated t \<Longrightarrow> \<not> starved t \<Longrightarrow> \<not> eof t 0 \<Longrightarrow> step t [] = Stop d b u \<Longrightarrow> b"
begin

lemma text_state_reads:
  assumes "\<not> truncated t" "\<not> starved t" "\<not> eof t 0"
  shows "at t < at (snd (text_state E (loop t [])))"
proof (cases "step t []")
  case (Go_on d u)
  have l: "loop t [] = loop u d"
    by (simp add: loop_step [of t] Go_on)
  have "further u (snd (text_state E (loop u d)))"
    by (rule text_state_further(1) [OF loop_further loop_opens])
  then have "at u \<le> at (snd (text_state E (loop t [])))"
    unfolding l by (rule furtherD(1))
  then show ?thesis
    using step_forward [OF Go_on] by linarith
next
  case (Stop d b u)
  then have b: "b"
    using step_reads [OF assms] by blast
  then have e: "\<not> eof u 0"
    using step_opens [of t "[]" d u] Stop by simp
  have "at t \<le> at u"
    using furtherD(1) [OF step_further [of t "[]"]] Stop by simp
  moreover have "at u + 1 \<le> at (snd (tag_open_state E u))"
    using onwardD(1) [OF tag_open_state_onward(1) [OF e, of E]] by simp
  ultimately show ?thesis
    using b by (simp add: text_state_def loop_step [of t] Stop)
qed

end

interpretation data: live_loop "data_step E" "data_loop E"
  by unfold_locales (auto simp: data_step_def starve_run_def text_append_def text_reference_def cut_at_def split: if_splits)

interpretation raw: live_loop "raw_step E r" "raw_loop E r"
proof
  fix t d b u
  assume "\<not> truncated t" "\<not> starved t" "\<not> eof t 0" "raw_step E r t [] = Stop d b u"
  then show b
    using appropriate_end_tag_same(2) [of t]
    by (auto simp: raw_step_def raw_less_than_def Let_def case_prod_beta text_append_def text_reference_def
        cut_at_def split: if_splits)
qed

interpretation script: live_loop script_step script_loop
proof
  fix t d b u
  assume "\<not> truncated t" "\<not> starved t" "\<not> eof t 0" "script_step t [] = Stop d b u"
  then show b
    using appropriate_end_tag_same(2) [of t] script_name_laws(2) [of t]
    by (auto simp: script_step_def script_less_than_def Let_def case_prod_beta text_append_def
        cut_at_def split: if_splits)
qed

interpretation plaintext: live_loop plaintext_step plaintext_loop
  by unfold_locales (auto simp: plaintext_step_def text_append_def cut_at_def split: if_splits)

lemma state_of_model_reads:
  assumes "\<not> truncated t" "\<not> starved t" "\<not> eof t 0"
  shows "at t < at (snd (state_of_model E t))"
  using data.text_state_reads [OF assms, of E] raw.text_state_reads [OF assms, of E] script.text_state_reads [OF assms, of E]
    plaintext.text_state_reads [OF assms, of E]
  by (simp add: state_of_model_def data_state_def rcdata_or_rawtext_state_def script_data_state_def
      plaintext_state_def split: content_model.split)

section \<open>The end-of-file token comes at the end\<close>

lemma eof_starve [simp]: "eof (starve t) k = eof t k"
  by (simp add: eof_def)

lemma attribute_loop_end:
  "eof (snd (attribute_loop E t out names)) 0 \<or> tok_kind (fst (attribute_loop E t out names)) = tok_kind out"
proof (induction E t out names rule: attribute_loop.induct)
  case (1 E t out names)
  define u where "u = skip_space t"
  define nm where "nm = attribute_name_loop (if cur u = CHR ''='' then advance 1 u else u)
                          (if cur u = CHR ''='' then ''='' else [])"
  define v where "v = skip_space (snd nm)"
  define w where "w = attribute_rest E v"
  have k: "tok_kind (fst (add_attribute a out names)) = tok_kind out" for a
    by (simp add: add_attribute_def Let_def case_prod_beta)
  show ?case
  proof (cases "eof u 0 \<or> cur u = gt")
    case True
    then show ?thesis
      by (subst (1 2) attribute_loop.simps) (auto simp: Let_def u_def [symmetric])
  next
    case False
    then have e: "\<not> eof u 0" "cur u \<noteq> gt"
      by auto
    show ?thesis
    proof (cases "cur u = CHR ''/''")
      case True
      with e show ?thesis
        using 1(1) [OF u_def e(1) refl e(2) True refl]
        by (subst (1 2) attribute_loop.simps) (auto simp: Let_def u_def [symmetric])
    next
      case False
      show ?thesis
      proof (cases "eof v 0")
        case True
        with e False show ?thesis
          by (subst (1 2) attribute_loop.simps)
            (simp add: Let_def u_def [symmetric] nm_def [symmetric] v_def [symmetric])
      next
        case ev: False
        have "eof (snd w) 0" if "fst w = None"
          using that unfolding w_def
          by (auto simp: attribute_rest_def Let_def case_prod_beta split: if_splits)
        then show ?thesis
          unfolding attribute_loop_round [OF u_def [symmetric] e False nm_def [symmetric] v_def [symmetric] ev w_def [symmetric]]
          using 1(2) [OF u_def e(1) refl e(2) False nm_def v_def ev w_def _ refl] k
          by (cases "fst w") simp_all
      qed
    qed
  qed
qed

lemma tag_name_state_end:
  "eof (snd (tag_name_state E t out)) 0 \<or> tok_kind (fst (tag_name_state E t out)) = tok_kind out"
  using attribute_loop_end [of E "snd (tag_name_loop t (tok_name out))"
      "out\<lparr>tok_name := fst (tag_name_loop t (tok_name out))\<rparr>" "{}"]
  by (simp add: tag_name_state_def case_prod_beta attributes_def)

lemma tag_open_state_end:
  assumes "tag_open_state E t = (Some tok, u)"
  shows "tok_kind tok = End_of_file \<Longrightarrow> eof u 0"
proof -
  have p: "tok_kind (fst (processing_instruction_state v)) = End_of_file \<Longrightarrow> eof (snd (processing_instruction_state v)) 0" for v
    by (auto simp: processing_instruction_state_def Let_def case_prod_beta blank_def split: if_splits)
      (simp_all add: eof_def)
  have m: "tok_kind (fst (markup_declaration_open_state v)) \<noteq> End_of_file" for v
    by (simp add: markup_declaration_open_state_def blank_def)
  show "tok_kind tok = End_of_file \<Longrightarrow> eof u 0"
    using assms p [of "advance 1 t"] m [of "advance 1 t"] tag_name_state_end [of E "advance 1 t" "blank Start_tag"]
      tag_name_state_end [of E "advance 1 (advance 1 t)" "blank End_tag"]
    by (auto simp: tag_open_state_def end_tag_open_state_def Let_def emit_def blank_def split: if_splits)
qed

lemma state_of_model_end:
  assumes "state_of_model E t = (Some tok, u)" "tok_kind tok = End_of_file"
  shows "eof u 0"
proof -
  have "text_state E l = (Some tok, u) \<Longrightarrow> eof u 0" for l
    using tag_open_state_end [of E "snd (snd l)" tok u] assms(2)
    by (auto simp: text_state_def split: prod.splits if_splits)
  then show ?thesis
    using assms(1) by (auto simp: state_of_model_def data_state_def rcdata_or_rawtext_state_def
        script_data_state_def plaintext_state_def split: content_model.splits)
qed

lemma next_token_reads:
  assumes "\<not> truncated t" "\<not> starved t"
  shows "if tok_kind (fst (next_token E t)) = End_of_file then eof (snd (next_token E t)) 0
    else at t < at (snd (next_token E t))"
  using assms
proof (induction E t rule: next_token.induct)
  case (1 E t)
  define v where "v = skip_empty_end_tags t"
  have o: "onward t v"
    by (simp add: v_def skip_empty_end_tags_onward)
  have v: "\<not> truncated v" "\<not> starved v" "at t \<le> at v"
    using 1(2,3) onwardD(1,7,10) [OF o] by auto
  show ?case
  proof (cases "eof v 0")
    case True
    then have "next_token E t = (end_token, starve v)"
      by (subst next_token.simps) (simp add: v_def [symmetric])
    then show ?thesis
      using True by (simp add: end_token_def blank_def)
  next
    case False
    obtain out w where st: "state_of_model E v = (out, w)"
      by (cases "state_of_model E v")
    have w: "at v < at w"
      using state_of_model_reads [OF v(1,2) False, of E] st by simp
    show ?thesis
    proof (cases out)
      case None
      have "\<not> truncated w" "\<not> starved w"
        using furtherD(5,8) [OF state_of_model_further(1) [of v E]] st v by auto
      then have "if tok_kind (fst (next_token E w)) = End_of_file then eof (snd (next_token E w)) 0
          else at w < at (snd (next_token E w))"
        by (rule 1(1) [OF v_def False st [symmetric] None])
      moreover have "next_token E t = next_token E w"
        using False st None by (subst next_token.simps) (simp add: v_def [symmetric])
      ultimately show ?thesis
        using w v(3) by (auto split: if_splits)
    next
      case (Some tok)
      have "next_token E t = (tok, w)"
        using False st Some by (subst next_token.simps) (simp add: v_def [symmetric])
      then show ?thesis
        using state_of_model_end [of E v tok w] st Some w v(3) by simp
    qed
  qed
qed

section \<open>The run to the end of the file\<close>

text \<open>What the tree builder does between two tokens: it may set the content model with its end tag,
  and it says whether CDATA is allowed.\<close>

type_synonym feedback = "token \<Rightarrow> (content_model \<times> string) option \<times> bool"

definition feed :: "feedback \<Rightarrow> token \<Rightarrow> tokenizer \<Rightarrow> tokenizer" where
  "feed f k t =
     (let t = (case fst (f k) of None \<Rightarrow> t | Some (m, for_tag) \<Rightarrow> set_content_model m for_tag t)
      in set_cdata_allowed (snd (f k)) t)"

text \<open>At most \<open>n\<close> calls of \<^verbatim>\<open>next\<close>, up to the end-of-file token.\<close>

fun pump :: "entity_ref list \<Rightarrow> feedback \<Rightarrow> nat \<Rightarrow> tokenizer \<Rightarrow> token list \<times> tokenizer" where
  "pump E f 0 t = ([], t)"
| "pump E f (Suc n) t =
     (let (k, u) = next_tok E t in
      if tok_kind k = End_of_file then ([k], u)
      else let (ks, v) = pump E f n (feed f k u) in (k # ks, v))"

text \<open>The spans of the tokens lie end to end, from \<open>i\<close> to \<open>j\<close>.\<close>

fun tile :: "nat \<Rightarrow> token list \<Rightarrow> nat \<Rightarrow> bool" where
  "tile i [] j \<longleftrightarrow> i = j"
| "tile i (k # ks) j \<longleftrightarrow> source_begin k = i \<and> tile (source_end k) ks j"

lemma next_tok_whole:
  assumes "\<not> truncated t" "next_tok E t = (k, u)"
  shows "source_begin k = at t" "source_end k = at u" "\<not> truncated u" "input u = input t"
    "tok_kind k = End_of_file \<Longrightarrow> eof u 0" "tok_kind k \<noteq> End_of_file \<Longrightarrow> at t < at u"
    "at t \<le> length (input t) \<Longrightarrow> at u \<le> length (input t)" "at t \<le> at u"
proof -
  define v where "v = t\<lparr>starved := False\<rparr>"
  define n where "n = next_token E v"
  have v: "\<not> truncated v" "\<not> starved v" "at v = at t" "input v = input t"
    using assms(1) by (simp_all add: v_def)
  have f: "further v (snd n)"
    unfolding n_def by (rule next_token_onward)
  have ns: "\<not> starved (snd n)"
    using furtherD(8) [OF f] v by blast
  then have "next_tok E t = ((fst n)\<lparr>source_begin := at t, source_end := at (snd n)\<rparr>, snd n)"
    unfolding next_tok_cases [of E t, folded v_def, folded n_def] by simp
  with assms(2) have k: "k = (fst n)\<lparr>source_begin := at t, source_end := at (snd n)\<rparr>" and u: "u = snd n"
    by auto
  show "source_begin k = at t" "source_end k = at u"
    by (simp_all add: k u)
  show "\<not> truncated u" "input u = input t"
    using furtherD(2,5) [OF f] v by (simp_all add: u)
  show "tok_kind k = End_of_file \<Longrightarrow> eof u 0" "tok_kind k \<noteq> End_of_file \<Longrightarrow> at t < at u"
    using next_token_reads [OF v(1,2), of E] v by (simp_all add: k u n_def)
  show "at t \<le> length (input t) \<Longrightarrow> at u \<le> length (input t)" "at t \<le> at u"
    using furtherD(1,6) [OF f] v by (simp_all add: u)
qed

lemma feed_keeps [simp]:
  "at (feed f k t) = at t" "input (feed f k t) = input t" "truncated (feed f k t) = truncated t"
  by (simp_all add: feed_def set_content_model_def set_cdata_allowed_def split: option.split)

text \<open>C18. Over a whole stream the tokenizer reaches the end-of-file token in at most one call more than
  there are bytes left, whatever the tree builder answers to each token; every token before it covers at
  least one byte, and the spans lie end to end from where the tokenizer stood to the end of the input.\<close>

theorem reaches_end:
  assumes "\<not> truncated t" "at t \<le> length (input t)" "length (input t) - at t < n"
  shows "\<exists>ks k u. pump E f n t = (ks @ [k], u) \<and> tok_kind k = End_of_file
    \<and> (\<forall>x \<in> set ks. tok_kind x \<noteq> End_of_file \<and> source_begin x < source_end x)
    \<and> tile (at t) (ks @ [k]) (length (input t))"
  using assms
proof (induction n arbitrary: t)
  case 0
  then show ?case by simp
next
  case (Suc n)
  obtain k u where k: "next_tok E t = (k, u)"
    by (cases "next_tok E t")
  note w = next_tok_whole [OF Suc.prems(1) k]
  have b: "at u \<le> length (input t)"
    by (rule w(7) [OF Suc.prems(2)])
  show ?case
  proof (cases "tok_kind k = End_of_file")
    case True
    then have "at u = length (input t)"
      using w(4,5) b by (simp add: eof_def)
    then have "pump E f (Suc n) t = ([] @ [k], u)" "tile (at t) ([] @ [k]) (length (input t))"
      using k True w(1,2) by simp_all
    with True show ?thesis
      by fastforce
  next
    case False
    define v where "v = feed f k u"
    have "\<not> truncated v" "at v \<le> length (input v)" "length (input v) - at v < n" "at v = at u" "input v = input t"
      using Suc.prems(2,3) w(3,4,6) b False by (simp_all add: v_def)
    with Suc.IH [of v] obtain ks k' x where i: "pump E f n v = (ks @ [k'], x)" "tok_kind k' = End_of_file"
      "\<forall>x \<in> set ks. tok_kind x \<noteq> End_of_file \<and> source_begin x < source_end x"
      "tile (at u) (ks @ [k']) (length (input t))"
      by auto
    have "pump E f (Suc n) t = ((k # ks) @ [k'], x)"
      using k False i(1) by (simp add: v_def)
    moreover have "tile (at t) ((k # ks) @ [k']) (length (input t))"
      using i(4) w(1,2) by simp
    moreover have "\<forall>x \<in> set (k # ks). tok_kind x \<noteq> End_of_file \<and> source_begin x < source_end x"
      using i(3) False w(1,2,6) by simp
    ultimately show ?thesis
      using i(2) by blast
  qed
qed

theorem reaches_end_witness:
  "\<not> truncated (new_tokenizer ''<p>'') \<and>
   (\<exists>ks k u. pump [] (\<lambda>_. (Some (Rcdata, ''p''), True)) 4 (new_tokenizer ''<p>'') = (ks @ [k], u)
      \<and> tok_kind k = End_of_file \<and> (\<forall>x \<in> set ks. tok_kind x \<noteq> End_of_file \<and> source_begin x < source_end x)
      \<and> tile 0 (ks @ [k]) 3)"
proof -
  have t: "\<not> truncated (new_tokenizer ''<p>'')" "at (new_tokenizer ''<p>'') = 0" "length (input (new_tokenizer ''<p>'')) = 3"
    by (simp_all add: new_tokenizer_def One_nat_def)
  show ?thesis
    using reaches_end [OF t(1), of 4 "[]" "\<lambda>_. (Some (Rcdata, ''p''), True)"] t by simp
qed

end
