(* ===== verification/Html_Write.thy ===== *)
theory Html_Write
  imports Dom_Reach
begin

text \<open>
  The HTML fragment serialiser of the bindings (\<^verbatim>\<open>lib/Shell/bindings/document/tree_ops.cpp\<close>:
  \<^verbatim>\<open>escape_html\<close> to \<^verbatim>\<open>serialize_html\<close>, for a document that is not XML) over the
  document of theory \<open>Dom\<close>. The two recursive lambdas of \<^verbatim>\<open>serialize_html\<close> are \<open>write_node\<close>
  and \<open>shadow_markup\<close>; the recursion has fuel, as template contents and shadow roots may hang anywhere,
  and \<open>write_node_returns\<close> shows the fuel that is enough for a tree without them. Whether a shadow root's
  custom element registry is one that has to be written is the shell's to say and an argument.
\<close>

section \<open>Text and names\<close>

fun escape_html :: "bool \<Rightarrow> string \<Rightarrow> string" where
  "escape_html attr [] = []"
| "escape_html attr (c # cs) =
     (if c = CHR ''&'' then ''&amp;'' @ escape_html attr cs
      else if c = CHR 0xC2 \<and> cs \<noteq> [] \<and> hd cs = CHR 0xA0 then ''&nbsp;'' @ escape_html attr (tl cs)
      else if attr \<and> c = CHR 0x22 then ''&quot;'' @ escape_html attr cs
      else if c = CHR ''<'' then ''&lt;'' @ escape_html attr cs
      else if c = CHR ''>'' then ''&gt;'' @ escape_html attr cs
      else c # escape_html attr cs)"

definition serializes_raw :: "string \<Rightarrow> bool \<Rightarrow> bool" where
  "serializes_raw tagname scripts \<longleftrightarrow>
     tagname \<in> set [''style'', ''script'', ''xmp'', ''iframe'', ''noembed'', ''noframes'', ''plaintext'']
     \<or> tagname = ''noscript'' \<and> scripts"

definition is_void_element :: "string \<Rightarrow> bool" where
  "is_void_element tagname \<longleftrightarrow>
     tagname \<in> set [''area'', ''base'', ''br'', ''col'', ''embed'', ''hr'', ''img'', ''input'', ''link'', ''meta'',
       ''param'', ''source'', ''track'', ''wbr'']"

definition serializes_as_void :: "string \<Rightarrow> bool" where
  "serializes_as_void tagname \<longleftrightarrow>
     is_void_element tagname \<or> tagname = ''basefont'' \<or> tagname = ''bgsound'' \<or> tagname = ''frame'' \<or> tagname = ''keygen''"

definition attribute_serialized_name :: "atom_table \<Rightarrow> attribute \<Rightarrow> string" where
  "attribute_serialized_name t a =
     (let ns = atom_text t (a_ns a); local_part = attribute_local_name t a in
      if ns = [] then local_part
      else if ns = xml_namespace then ''xml:'' @ local_part
      else if ns = xmlns_namespace then if local_part = ''xmlns'' then ''xmlns'' else ''xmlns:'' @ local_part
      else if ns = xlink_namespace then ''xlink:'' @ local_part
      else atom_text t (a_name a))"

section \<open>The serialiser\<close>

text \<open>What a caller asks of shadow roots: every serialisable one, or the ones listed; and the roots whose
  registry is not what parsing the markup would give.\<close>

record shadow_request =
  serializable_too :: bool
  listed :: "node_id list"
  other_registry :: "node_id \<Rightarrow> bool"

definition no_shadow :: shadow_request where
  "no_shadow = \<lparr>serializable_too = False, listed = [], other_registry = (\<lambda>_. False)\<rparr>"

definition scripting_for :: "document \<Rightarrow> node_id \<Rightarrow> bool" where
  "scripting_for D h \<longleftrightarrow> scripting D \<and> \<not> handle_bool (template_of D (root_of_tree D True h))"

definition attribute_markup :: "atom_table \<Rightarrow> attribute \<Rightarrow> string" where
  "attribute_markup t a =
     '' '' @ attribute_serialized_name t a @ ''='' @ [CHR 0x22] @ escape_html True (a_value a) @ [CHR 0x22]"

definition start_tag_markup :: "document \<Rightarrow> node_id \<Rightarrow> string" where
  "start_tag_markup D h =
     ''<'' @ qualified_name D h @ concat (map (attribute_markup (atoms D)) (Dom.attributes D h)) @ ''>''"

definition end_tag_markup :: "document \<Rightarrow> node_id \<Rightarrow> string" where
  "end_tag_markup D h = ''</'' @ qualified_name D h @ ''>''"

definition flag_markup :: "bool \<Rightarrow> string \<Rightarrow> string" where
  "flag_markup b nm = (if b then '' '' @ nm @ ''='' @ [CHR 0x22, CHR 0x22] else [])"

definition shadow_open :: "shadow_request \<Rightarrow> node_id \<Rightarrow> shadow_tree \<Rightarrow> string" where
  "shadow_open R r how =
     ''<template shadowrootmode='' @ [CHR 0x22] @ (if s_open how then ''open'' else ''closed'') @ [CHR 0x22]
     @ flag_markup (s_delegates_focus how) ''shadowrootdelegatesfocus''
     @ flag_markup (s_serializable how) ''shadowrootserializable''
     @ (if s_manual_slots how then '' shadowrootslotassignment='' @ [CHR 0x22] @ ''manual'' @ [CHR 0x22] else [])
     @ flag_markup (s_clonable how) ''shadowrootclonable''
     @ flag_markup (other_registry R r) ''shadowrootcustomelementregistry'' @ ''>''"

definition children_of :: "document \<Rightarrow> node_id \<Rightarrow> node_id list" where
  "children_of D h =
     (if handle_bool (template_content D h) then children D (template_content D h) else children D h)"

text \<open>The children's markup, when the fuel is enough for each.\<close>

fun joined :: "'a list option list \<Rightarrow> 'a list option" where
  "joined [] = Some []"
| "joined (x # xs) = (case x of None \<Rightarrow> None | Some s \<Rightarrow> map_option (append s) (joined xs))"

definition shadow_markup :: "shadow_request \<Rightarrow> document \<Rightarrow> (node_id \<Rightarrow> string option) \<Rightarrow> node_id \<Rightarrow> string option" where
  "shadow_markup R D wr h =
     (if \<not> (serializable_too R \<or> listed R \<noteq> []) then Some []
      else let r = shadow_root_of D h in
        if \<not> handle_bool r then Some []
        else case shadow_tree_of D r of
            None \<Rightarrow> Some []
          | Some how \<Rightarrow>
              if \<not> (r \<in> set (listed R) \<or> serializable_too R \<and> s_serializable how) then Some []
              else map_option (\<lambda>body. shadow_open R r how @ body @ ''</template>'') (joined (map wr (children D r))))"

fun write_node :: "shadow_request \<Rightarrow> document \<Rightarrow> nat \<Rightarrow> bool \<Rightarrow> node_id \<Rightarrow> string option" where
  "write_node R D 0 raw h = None"
| "write_node R D (Suc n) raw h =
     (case (case kind D h of Inl _ \<Rightarrow> Element | Inr k \<Rightarrow> k) of
        Text \<Rightarrow> Some (if raw then node_text D h else escape_html False (node_text D h))
      | Cdata_section \<Rightarrow> Some (if raw then node_text D h else escape_html False (node_text D h))
      | Comment \<Rightarrow> Some (''<!--'' @ node_text D h @ ''-->'')
      | Processing_instruction \<Rightarrow> Some (''<?'' @ atom_text (atoms D) (node_name D h) @ '' '' @ node_text D h @ ''?>'')
      | Document_type \<Rightarrow> Some (''<!DOCTYPE '' @ atom_text (atoms D) (node_name D h) @ ''>'')
      | Document \<Rightarrow> joined (map (write_node R D n False) (children D h))
      | Document_fragment \<Rightarrow> joined (map (write_node R D n False) (children D h))
      | Element \<Rightarrow>
          let nm = qualified_name D h; html = (element_ns D h = Html) in
          if html \<and> serializes_as_void nm then Some (start_tag_markup D h)
          else let raw_below = (html \<and> serializes_raw nm (nm \<noteq> ''noscript'' \<or> scripting_for D h)) in
            joined [Some (start_tag_markup D h), shadow_markup R D (write_node R D n False) h,
                    joined (map (write_node R D n raw_below) (children_of D h)), Some (end_tag_markup D h)])"

text \<open>The whole function: the node itself, or only what is in it.\<close>

definition serialize_html :: "shadow_request \<Rightarrow> document \<Rightarrow> nat \<Rightarrow> bool \<Rightarrow> node_id \<Rightarrow> string option" where
  "serialize_html R D n outer target =
     (if outer then write_node R D n False target
      else let html = ((case kind D target of Inl _ \<Rightarrow> Text | Inr k \<Rightarrow> k) = Element \<and> element_ns D target = Html);
               nm = qualified_name D target
        in if html \<and> serializes_as_void nm then Some []
           else let raw = (html \<and> serializes_raw nm (nm \<noteq> ''noscript'' \<or> scripting_for D target))
             in joined [shadow_markup R D (write_node R D n False) target,
                        joined (map (write_node R D n raw) (children_of D target))])"

definition inner_html :: "document \<Rightarrow> nat \<Rightarrow> node_id \<Rightarrow> string option" where
  "inner_html D n target = serialize_html no_shadow D n False target"

definition outer_html :: "document \<Rightarrow> nat \<Rightarrow> node_id \<Rightarrow> string option" where
  "outer_html D n target = serialize_html no_shadow D n True target"

section \<open>Enough fuel\<close>

lemma joined_Some: "joined xs = Some s \<longleftrightarrow> (\<exists>ys. xs = map Some ys \<and> s = concat ys)"
proof (induction xs arbitrary: s)
  case Nil
  then show ?case by auto
next
  case (Cons x xs)
  show ?case
  proof
    assume "joined (x # xs) = Some s"
    then obtain y r where "x = Some y" "joined xs = Some r" "s = y @ r"
      by (auto split: option.splits)
    then show "\<exists>ys. x # xs = map Some ys \<and> s = concat ys"
      using Cons.IH by (metis concat.simps(2) list.simps(9))
  next
    assume "\<exists>ys. x # xs = map Some ys \<and> s = concat ys"
    then obtain y ys where "x = Some y" "xs = map Some ys" "s = y @ concat ys"
      by (auto simp: Cons_eq_map_conv)
    then show "joined (x # xs) = Some s"
      using Cons.IH by auto
  qed
qed

lemma joined_all: "(\<And>x. x \<in> set xs \<Longrightarrow> x \<noteq> None) \<Longrightarrow> \<exists>s. joined xs = Some s"
  by (induction xs) fastforce+

lemma no_shadow_markup [simp]: "shadow_markup no_shadow D wr h = Some []"
  by (simp add: shadow_markup_def no_shadow_def)

lemma children_of_plain: "template_contents D = [] \<Longrightarrow> children_of D h = children D h"
  by (simp add: children_of_def template_content_def null_id_def handle_bool_def)

lemma eventually_all:
  assumes "\<forall>x \<in> set xs. \<exists>n. \<forall>m \<ge> n. P m x"
  shows "\<exists>n. \<forall>m \<ge> n. \<forall>x \<in> set xs. P (m :: nat) x"
  using assms
proof (induction xs)
  case Nil
  then show ?case by simp
next
  case (Cons y ys)
  from Cons.prems obtain a where a: "\<forall>m \<ge> a. P m y" by auto
  from Cons obtain b where "\<forall>m \<ge> b. \<forall>x \<in> set ys. P m x" by auto
  with a show ?case by (intro exI [of _ "max a b"]) simp
qed

lemma wf_children:
  assumes "tree_ok D"
  shows "wf {(c, h). c \<in> set (children D h)}"
proof (rule wf_subset)
  have "acyclic (owners D)" using assms by (simp add: tree_ok_def)
  moreover have "finite (owners D)"
    by (rule finite_subset [of _ "(\<lambda>c. (owner D c, c)) ` UNIV"]) (auto simp: owners_def)
  ultimately show "wf ((owners D)\<inverse>)"
    by (simp add: finite_acyclic_wf_converse)
  show "{(c, h). c \<in> set (children D h)} \<subseteq> (owners D)\<inverse>"
  proof clarify
    fix c h assume c: "c \<in> set (children D h)"
    then have "contains D h"
      by (cases "find_node D h") (simp_all add: children_def contains_def)
    then have "handle_bool h" by (rule contains_bool)
    with c assms show "(h, c) \<in> owners D"
      by (auto simp: tree_ok_def owners_def)
  qed
qed

lemma joined_map:
  "(\<And>x. x \<in> set xs \<Longrightarrow> f x \<noteq> None) \<Longrightarrow> \<exists>s. joined (map f xs) = Some s"
  by (rule joined_all) auto

text \<open>In a tree without template contents some depth of fuel is enough for a node, and more never hurts.\<close>

lemma write_node_returns:
  assumes "tree_ok D" "template_contents D = []"
  shows "\<exists>n. \<forall>m \<ge> n. \<forall>raw. write_node no_shadow D m raw h \<noteq> None"
proof (induction h rule: wf_induct_rule [OF wf_children [OF assms(1)]])
  case (1 h)
  then have "\<forall>c \<in> set (children D h). \<exists>n. \<forall>m \<ge> n. \<forall>raw. write_node no_shadow D m raw c \<noteq> None"
    by simp
  from eventually_all [OF this] obtain n
    where n: "\<And>m c raw. m \<ge> n \<Longrightarrow> c \<in> set (children D h) \<Longrightarrow> write_node no_shadow D m raw c \<noteq> None"
    by blast
  have "\<exists>s. write_node no_shadow D (Suc k) raw h = Some s" if "k \<ge> n" for k raw
  proof -
    have j: "\<exists>s. joined (map (write_node no_shadow D k r) (children D h)) = Some s" for r
      by (rule joined_map) (rule n [OF that])
    then have e: "\<exists>s. joined [Some a, Some b, joined (map (write_node no_shadow D k r) (children D h)), Some d] = Some s"
      for a b d r by (metis joined_all list.set_cases list.distinct(1) option.distinct(1) set_ConsD)
    show ?thesis
      using j [of False] e
      by (simp add: children_of_plain [OF assms(2)] Let_def del: joined.simps split: node_kind.split)
  qed
  then show ?case
    by (intro exI [of _ "Suc n"] allI impI) (metis Suc_le_D Suc_le_mono option.distinct(1))
qed

end
