(* ===== verification/Html_Round.thy ===== *)
theory Html_Round
  imports Html_Write Html_Live
begin

text \<open>
  The serialiser of theory \<open>Html_Write\<close> and the tokenizer of theory \<open>Html_Token\<close> are inverse. The
  first sections read each kind of markup with the input ahead of the tokenizer in view (\<open>ahead\<close>): escaped
  text, escaped attribute values, tags, comments, DOCTYPEs, processing instructions. \<open>node_tokens\<close> is the
  reference: what a node says, as tokens; \<open>write_node_tokens\<close> shows that the serialiser writes their markup,
  \<open>pump_reads\<close> that the token loop reads it back.
\<close>

declare One_nat_def [simp del] escape_html.simps [simp del] list.size(4) [simp del]

section \<open>The input ahead\<close>

definition ahead :: "tokenizer \<Rightarrow> string" where
  "ahead t = drop (at t) (input t)"

lemma eof_ahead: "eof t n \<longleftrightarrow> length (ahead t) \<le> n"
  by (auto simp: eof_def ahead_def)

lemma cur_ahead: "ahead t = c # s \<Longrightarrow> cur t = c"
  unfolding ahead_def cur_def by (rule nth_via_drop)

lemma peek_ahead: "peek t n = (if n < length (ahead t) then ahead t ! n else nul)"
  by (auto simp: peek_def ahead_def)

lemma ahead_advance [simp]: "ahead (advance n t) = drop n (ahead t)"
  by (simp add: ahead_def advance_def add.commute)

lemma looking_ahead: "looking_at t w \<longleftrightarrow> take (length w) (ahead t) = w"
  by (simp add: looking_at_def ahead_def substr_def)

lemma looking_ci_ahead:
  "looking_at_ci t w \<longleftrightarrow> length w \<le> length (ahead t) \<and> ascii_iequals (take (length w) (ahead t)) w"
  by (simp add: looking_at_ci_def ahead_def substr_def)

lemma run_end_ahead: "run_end P (input t) (at t) = at t + length (takeWhile P (ahead t))"
  by (simp add: run_end_def ahead_def)

lemma substr_ahead: "substr (input t) (at t) n = take n (ahead t)"
  by (simp add: substr_def ahead_def)

lemma advance_advance [simp]: "advance a (advance b t) = advance (b + a) t"
  by (simp add: advance_def add.assoc)

lemma advance_0 [simp]: "advance 0 t = t"
  by (simp add: advance_def)

lemma at_advance: "t\<lparr>at := at t + n\<rparr> = advance n t"
  by (simp add: advance_def)

lemma skip_space_ahead: "skip_space t = advance (length (takeWhile is_space (ahead t))) t"
  by (simp add: skip_space_def run_end_ahead at_advance)

lemma drop_one [simp]: "drop 1 (c # s) = s" "drop (1 + n) (c # s) = drop n s" "drop (n + 1) (c # s) = drop n s"
  by (simp_all add: One_nat_def)

lemma length_one [simp]: "length (c # s) = 1 + length s"
  by (simp add: One_nat_def list.size)

lemma append_text_plain:
  "ahead t = c # s \<Longrightarrow> c \<noteq> cr \<Longrightarrow> c \<noteq> nul \<or> model t = Data \<Longrightarrow> append_text t data = (data @ [c], advance 1 t)"
  using cur_ahead [of t c s] by (auto simp: append_text_def Let_def)

section \<open>Escaped text\<close>

definition escapes :: "(string \<times> code_point) list" where
  "escapes = [(''amp'', 0x26), (''nbsp'', 0xA0), (''quot'', 0x22), (''lt'', 0x3C), (''gt'', 0x3E)]"

text \<open>The rows of the entity table that the serialiser relies on.\<close>

definition knows_escapes :: "entity_ref list \<Rightarrow> bool" where
  "knows_escapes E \<longleftrightarrow>
     (\<forall>(nm, cp) \<in> set escapes.
       case find_entity E nm of None \<Rightarrow> False | Some e \<Rightarrow> ent_first e = cp \<and> ent_second e = 0)"

lemma escape_cases:
  obtains (plain) "escape_html b (c # cs) = c # escape_html b cs" "c \<noteq> CHR ''&''" "c \<noteq> lt" "c \<noteq> gt"
      "b \<Longrightarrow> c \<noteq> quotation"
  | (escaped) nm cp cs' where "escape_html b (c # cs) = CHR ''&'' # nm @ CHR '';'' # escape_html b cs'"
      "(nm, cp) \<in> set escapes" "c # cs = utf8 cp @ cs'"
proof -
  have u: "utf8 0x26 = [CHR ''&'']" "utf8 0xA0 = [CHR 0xC2, CHR 0xA0]" "utf8 0x22 = [quotation]"
    "utf8 0x3C = [lt]" "utf8 0x3E = [gt]"
    by code_simp+
  consider "c = CHR ''&''" | "c = CHR 0xC2" "cs \<noteq> []" "hd cs = CHR 0xA0" | "b" "c = quotation" | "c = lt" | "c = gt"
    | "c \<noteq> CHR ''&''" "\<not> (c = CHR 0xC2 \<and> cs \<noteq> [] \<and> hd cs = CHR 0xA0)" "\<not> (b \<and> c = quotation)" "c \<noteq> lt" "c \<noteq> gt"
    by blast
  then show ?thesis
  proof cases
    case 1
    then show ?thesis by (intro escaped [of "''amp''" cs "0x26"]) (simp_all add: escapes_def u escape_html.simps)
  next
    case 2
    then have "cs = CHR 0xA0 # tl cs" by (cases cs) simp_all
    with 2 show ?thesis
      by (intro escaped [of "''nbsp''" "tl cs" "0xA0"]) (simp_all add: escapes_def u escape_html.simps)
  next
    case 3
    then show ?thesis by (intro escaped [of "''quot''" cs "0x22"]) (simp_all add: escapes_def u escape_html.simps)
  next
    case 4
    then show ?thesis by (intro escaped [of "''lt''" cs "0x3C"]) (simp_all add: escapes_def u escape_html.simps)
  next
    case 5
    then show ?thesis by (intro escaped [of "''gt''" cs "0x3E"]) (simp_all add: escapes_def u escape_html.simps)
  next
    case 6
    then show ?thesis by (intro plain) (auto simp: escape_html.simps)
  qed
qed

lemma written_reference_reads:
  assumes "ahead t = CHR ''&'' # nm @ CHR '';'' # rest" "nm \<noteq> []" "\<forall>c \<in> set nm. is_alnum c"
    and e: "find_entity E nm = Some e" "ent_second e = 0"
  shows "character_reference E b t out = (append_utf8 out (ent_first e), advance (length nm + 2) t)"
proof -
  define u where "u = advance 1 t"
  have u: "ahead u = nm @ CHR '';'' # rest"
    using assms(1) by (simp add: u_def)
  obtain c cs where c: "nm = c # cs" using assms(2) by (cases nm) auto
  have cu: "cur u = c" "is_alnum c" using cur_ahead [of u c] u c assms(3) by simp_all
  have "c \<noteq> CHR ''#''" using cu(2) by (auto simp: is_alnum_def is_alpha_def between_def)
  have "takeWhile is_alnum (ahead u) = nm"
    unfolding u using assms(3) by (subst takeWhile_append2) (simp_all add: is_alnum_def is_alpha_def between_def)
  then have stop: "run_end is_alnum (input u) (at u) = at u + length nm"
    by (simp add: run_end_ahead)
  have "input u ! (at u + length nm) = ahead u ! length nm" "at u + length nm < length (input u)"
    using arg_cong [OF u, of length] by (simp_all add: ahead_def)
  then have semi: "at u + length nm < length (input u)" "input u ! (at u + length nm) = CHR '';''"
    by (simp_all add: u)
  have "named_reference E b u out = (append_utf8 out (ent_first e), advance (length nm + 1) u)"
    unfolding named_reference_def stop using semi e
    by (simp add: Let_def substr_ahead u find_reference_def)
  moreover have "\<not> eof u 0" by (simp add: eof_ahead u)
  ultimately show ?thesis
    using cu \<open>c \<noteq> CHR ''#''\<close> by (simp add: character_reference_def Let_def u_def [symmetric]) (simp add: u_def One_nat_def)
qed

lemma escape_names: "\<forall>(nm, cp) \<in> set escapes. nm \<noteq> [] \<and> (\<forall>c \<in> set nm. is_alnum c)"
  by code_simp

lemma escape_reads:
  assumes "knows_escapes E" "(nm, cp) \<in> set escapes" "ahead t = CHR ''&'' # nm @ CHR '';'' # rest"
  shows "character_reference E b t out = (out @ utf8 cp, advance (length nm + 2) t)"
proof -
  from assms(1,2) obtain e where e: "find_entity E nm = Some e" "ent_first e = cp" "ent_second e = 0"
    unfolding knows_escapes_def by (auto dest!: bspec split: option.splits)
  have "nm \<noteq> [] \<and> (\<forall>c \<in> set nm. is_alnum c)"
    using bspec [OF escape_names assms(2)] by simp
  with written_reference_reads [OF assms(3) _ _ e(1,3)] e(2) show ?thesis
    by (simp add: append_utf8_def)
qed

lemma not_cut [simp]: "\<not> truncated t \<Longrightarrow> \<not> cut_at t i"
  by (simp add: cut_at_def)

lemma data_reads_text:
  assumes "knows_escapes E" "\<not> truncated t" "model t = Data" "cr \<notin> set s" "ahead t = escape_html False s @ rest"
  shows "data_loop E t data = data_loop E (advance (length (escape_html False s)) t) (data @ s)"
  using assms(2-)
proof (induction s arbitrary: t data rule: length_induct)
  case (1 s)
  show ?case
  proof (cases s)
    case Nil
    then show ?thesis by (simp add: escape_html.simps)
  next
    case (Cons c cs)
    show ?thesis
    proof (cases rule: escape_cases [of False c cs])
      case plain
      have a: "ahead t = c # escape_html False cs @ rest"
        using 1(5) plain(1) Cons by simp
      have "data_step E t data = Go_on (data @ [c]) (advance 1 t)"
        using append_text_plain [OF a, of data] cur_ahead [OF a] 1(2-4) plain Cons
        by (auto simp: data_step_def text_append_def eof_ahead a)
      then have "data_loop E t data = data_loop E (advance 1 t) (data @ [c])"
        by (subst data_loop.simps) simp
      also have "\<dots> = data_loop E (advance (length (escape_html False cs)) (advance 1 t)) ((data @ [c]) @ cs)"
        by (rule 1(1) [rule_format]) (use 1(2-4) Cons a in simp_all)
      finally show ?thesis
        using plain(1) Cons by (simp add: add.commute)
    next
      case (escaped nm cp cs')
      have a: "ahead t = CHR ''&'' # nm @ CHR '';'' # escape_html False cs' @ rest"
        using 1(5) escaped(1) Cons by simp
      have "utf8 cp \<noteq> []" by (simp add: utf8_def Let_def)
      with arg_cong [OF escaped(3), of length] arg_cong [OF escaped(3), of set] Cons 1(4)
      have l: "length cs' < length s" "cr \<notin> set cs'" by auto
      have "data_step E t data = Go_on (data @ utf8 cp) (advance (length nm + 2) t)"
        using escape_reads [OF assms(1) escaped(2) a, of False data] cur_ahead [OF a] 1(2-4)
        by (simp add: data_step_def text_reference_def eof_ahead a)
      then have "data_loop E t data = data_loop E (advance (length nm + 2) t) (data @ utf8 cp)"
        by (subst data_loop.simps) simp
      also have "\<dots> = data_loop E (advance (length (escape_html False cs')) (advance (length nm + 2) t)) ((data @ utf8 cp) @ cs')"
        by (rule 1(1) [rule_format]) (use 1(2-4) l a in simp_all)
      finally show ?thesis
        using escaped(1,3) Cons by (simp add: One_nat_def ac_simps)
    qed
  qed
qed

lemma value_reads_text:
  assumes "knows_escapes E" "\<not> truncated t" "cr \<notin> set s" "nul \<notin> set s"
    "ahead t = escape_html True s @ quotation # rest"
  shows "attribute_value E (Some quotation) t out = (out @ s, advance (length (escape_html True s)) t)"
  using assms(2-)
proof (induction s arbitrary: t out rule: length_induct)
  case (1 s)
  show ?case
  proof (cases s)
    case Nil
    then show ?thesis
      using 1(5) cur_ahead [of t quotation rest] by (simp add: attribute_value.simps eof_ahead escape_html.simps)
  next
    case (Cons c cs)
    show ?thesis
    proof (cases rule: escape_cases [of True c cs])
      case plain
      have a: "ahead t = c # escape_html True cs @ quotation # rest"
        using 1(5) plain(1) Cons by simp
      have "attribute_value E (Some quotation) t out = attribute_value E (Some quotation) (advance 1 t) (out @ [c])"
        using append_text_plain [OF a, of out] cur_ahead [OF a] 1(2-4) plain Cons
        by (subst attribute_value.simps) (auto simp: eof_ahead a)
      also have "\<dots> = ((out @ [c]) @ cs, advance (length (escape_html True cs)) (advance 1 t))"
        by (rule 1(1) [rule_format]) (use 1(2-4) Cons a in simp_all)
      finally show ?thesis
        using plain(1) Cons by simp
    next
      case (escaped nm cp cs')
      have a: "ahead t = CHR ''&'' # nm @ CHR '';'' # escape_html True cs' @ quotation # rest"
        using 1(5) escaped(1) Cons by simp
      have "utf8 cp \<noteq> []" by (simp add: utf8_def Let_def)
      with arg_cong [OF escaped(3), of length] arg_cong [OF escaped(3), of set] Cons 1(3,4)
      have l: "length cs' < length s" "cr \<notin> set cs'" "nul \<notin> set cs'" by auto
      have "attribute_value E (Some quotation) t out
          = attribute_value E (Some quotation) (advance (length nm + 2) t) (out @ utf8 cp)"
        using escape_reads [OF assms(1) escaped(2) a, of True out] cur_ahead [OF a] 1(2)
        by (subst attribute_value.simps) (simp add: eof_ahead a)
      also have "\<dots> = ((out @ utf8 cp) @ cs', advance (length (escape_html True cs')) (advance (length nm + 2) t))"
        by (rule 1(1) [rule_format]) (use 1(2) l a in simp_all)
      finally show ?thesis
        using escaped(1,3) Cons by (simp add: One_nat_def ac_simps)
    qed
  qed
qed

section \<open>Tags\<close>

definition plain_attribute_name :: "string \<Rightarrow> bool" where
  "plain_attribute_name nm \<longleftrightarrow> nm \<noteq> [] \<and>
     (\<forall>c \<in> set nm. \<not> is_space c \<and> c \<notin> {CHR ''/'', gt, CHR ''='', nul} \<and> ascii_lower c = c)"

definition plain_attribute :: "token_attribute \<Rightarrow> bool" where
  "plain_attribute a \<longleftrightarrow> plain_attribute_name (attr_name a) \<and> cr \<notin> set (attr_value a) \<and> nul \<notin> set (attr_value a)"

definition show_attribute :: "token_attribute \<Rightarrow> string" where
  "show_attribute a = '' '' @ attr_name a @ ''='' @ [quotation] @ escape_html True (attr_value a) @ [quotation]"

lemma attribute_name_reads:
  assumes "\<forall>c \<in> set nm. \<not> is_space c \<and> c \<notin> {CHR ''/'', gt, CHR ''='', nul} \<and> ascii_lower c = c"
    "ahead t = nm @ d # rest" "is_space d \<or> d \<in> {CHR ''/'', gt, CHR ''=''}"
  shows "attribute_name_loop t out = (out @ nm, advance (length nm) t)"
  using assms
proof (induction nm arbitrary: t out)
  case Nil
  then show ?case
    using cur_ahead [of t d rest] by (subst attribute_name_loop.simps) (auto simp: eof_ahead)
next
  case (Cons c nm)
  have a: "ahead t = c # nm @ d # rest" using Cons.prems(2) by simp
  then have "attribute_name_loop t out = attribute_name_loop (advance 1 t) (out @ [c])"
    using cur_ahead [OF a] Cons.prems(1) by (subst attribute_name_loop.simps) (simp add: eof_ahead a)
  also have "\<dots> = ((out @ [c]) @ nm, advance (length nm) (advance 1 t))"
    by (rule Cons.IH) (use Cons.prems a in simp_all)
  finally show ?case by simp
qed

lemma tag_name_reads:
  assumes "\<forall>c \<in> set nm. \<not> is_space c \<and> c \<notin> {CHR ''/'', gt, nul} \<and> ascii_lower c = c"
    "ahead t = nm @ d # rest" "is_space d \<or> d \<in> {CHR ''/'', gt}"
  shows "tag_name_loop t out = (out @ nm, advance (length nm) t)"
  using assms
proof (induction nm arbitrary: t out)
  case Nil
  then show ?case
    using cur_ahead [of t d rest] by (subst tag_name_loop.simps) (auto simp: eof_ahead)
next
  case (Cons c nm)
  have a: "ahead t = c # nm @ d # rest" using Cons.prems(2) by simp
  then have "tag_name_loop t out = tag_name_loop (advance 1 t) (out @ [c])"
    using cur_ahead [OF a] Cons.prems(1) by (subst tag_name_loop.simps) (simp add: eof_ahead a)
  also have "\<dots> = ((out @ [c]) @ nm, advance (length nm) (advance 1 t))"
    by (rule Cons.IH) (use Cons.prems a in simp_all)
  finally show ?case by simp
qed

lemma spaces [simp]: "is_space (CHR '' '')" "\<not> is_space (CHR ''='')" "\<not> is_space gt" "\<not> is_space quotation"
    "\<not> is_space (CHR ''?'')" "\<not> is_space (CHR ''-'')"
  by code_simp+

lemma add_attribute_new:
  assumes "attr_name a \<notin> names" "attr_name a \<notin> set (map attr_name (tok_attributes out))"
  shows "fst (add_attribute a out names) = out\<lparr>tok_attributes := tok_attributes out @ [a]\<rparr>"
    "snd (add_attribute a out names) \<subseteq> names \<union> {attr_name a} \<union> set (map attr_name (tok_attributes out))"
proof -
  have "\<not> (\<exists>held \<in> set (tok_attributes out). attr_name held = attr_name a)"
    using assms(2) by (auto simp: image_iff)
  then show "fst (add_attribute a out names) = out\<lparr>tok_attributes := tok_attributes out @ [a]\<rparr>"
    using assms by (cases "names = {}") (simp_all add: add_attribute_def Let_def)
  show "snd (add_attribute a out names) \<subseteq> names \<union> {attr_name a} \<union> set (map attr_name (tok_attributes out))"
    by (cases "names = {}") (auto simp: add_attribute_def Let_def)
qed

lemma attribute_loop_reads:
  assumes "knows_escapes E" "list_all plain_attribute as" "distinct (map attr_name as)"
    "\<not> truncated t" "set (map attr_name as) \<inter> (names \<union> set (map attr_name (tok_attributes out))) = {}"
    "ahead t = concat (map show_attribute as) @ gt # rest"
  shows "attribute_loop E t out names
    = (out\<lparr>tok_attributes := tok_attributes out @ as\<rparr>, advance (length (concat (map show_attribute as)) + 1) t)"
  using assms(2-)
proof (induction as arbitrary: t out names)
  case Nil
  then show ?case
    using cur_ahead [of t gt rest] by (subst attribute_loop.simps) (simp add: eof_ahead skip_space_ahead)
next
  case (Cons a as)
  obtain nm v where av: "a = \<lparr>attr_name = nm, attr_value = v\<rparr>" by (cases a) auto
  define tail where "tail = concat (map show_attribute as) @ gt # rest"
  have a: "ahead t = CHR '' '' # nm @ CHR ''='' # quotation # escape_html True v @ quotation # tail"
    using Cons.prems(5) by (simp add: show_attribute_def [of "\<lparr>attr_name = nm, attr_value = v\<rparr>"] av tail_def)
  have p: "nm \<noteq> []" "\<forall>c \<in> set nm. \<not> is_space c \<and> c \<notin> {CHR ''/'', gt, CHR ''='', nul} \<and> ascii_lower c = c"
    "cr \<notin> set v" "nul \<notin> set v"
    using Cons.prems(1) by (simp_all add: av plain_attribute_def plain_attribute_name_def)
  obtain c cs where c: "nm = c # cs" using p(1) by (cases nm) auto
  define u where "u = advance 1 t"
  have au: "ahead u = nm @ CHR ''='' # quotation # escape_html True v @ quotation # tail" by (simp add: u_def a)
  have s: "skip_space t = u" by (simp add: skip_space_ahead a c p(2) u_def)
  have cu: "cur u = c" using au c cur_ahead by simp
  have nc: "c \<noteq> gt" "c \<noteq> CHR ''/''" "c \<noteq> CHR ''=''" using p(2) c by simp_all
  have n: "attribute_name_loop u [] = (nm, advance (length nm) u)"
    using attribute_name_reads [OF p(2) au] by simp
  define w where "w = advance (length nm) u"
  have aw: "ahead w = CHR ''='' # quotation # escape_html True v @ quotation # tail" by (simp add: w_def au)
  have sw: "skip_space w = w" by (simp add: skip_space_ahead aw)
  define y where "y = advance 1 w"
  have ay: "ahead y = quotation # escape_html True v @ quotation # tail" by (simp add: y_def aw)
  have sy: "skip_space y = y" by (simp add: skip_space_ahead ay)
  define z where "z = advance 1 y"
  have az: "ahead z = escape_html True v @ quotation # tail" by (simp add: z_def ay)
  have tz: "\<not> truncated z" using Cons.prems(3) by (simp add: z_def y_def w_def u_def)
  define q where "q = advance (length (escape_html True v)) z"
  have aq: "ahead q = quotation # tail" by (simp add: q_def az)
  define x where "x = advance 1 q"
  have "attribute_value E (Some quotation) z [] = (v, q)"
    using value_reads_text [OF assms(1) tz p(3,4) az, of "[]"] by (simp add: q_def)
  then have r: "attribute_rest E w = (Some v, x)"
    using cur_ahead [OF aw] cur_ahead [OF ay]
    by (simp add: attribute_rest_def y_def [symmetric] sy z_def [symmetric] x_def [symmetric] eof_ahead ay aq)
  have x: "x = advance (length nm + length (escape_html True v) + 4) t"
    by (simp add: x_def q_def z_def y_def w_def u_def One_nat_def eval_nat_numeral)
  have ax': "ahead x = tail" by (simp add: x_def aq)
  define out' where "out' = out\<lparr>tok_attributes := tok_attributes out @ [a]\<rparr>"
  define names' where "names' = snd (add_attribute a out names)"
  have "attr_name a \<notin> names" "attr_name a \<notin> set (map attr_name (tok_attributes out))"
    using Cons.prems(4) by auto
  from add_attribute_new [OF this] have add: "add_attribute \<lparr>attr_name = nm, attr_value = v\<rparr> out names = (out', names')"
      "names' \<subseteq> names \<union> {nm} \<union> set (map attr_name (tok_attributes out))"
    by (simp_all add: out'_def names'_def av prod_eq_iff)
  have "names' \<union> set (map attr_name (tok_attributes out')) \<subseteq> insert nm (names \<union> set (map attr_name (tok_attributes out)))"
    using add(2) by (auto simp: out'_def av)
  moreover have "set (map attr_name as) \<inter> insert nm (names \<union> set (map attr_name (tok_attributes out))) = {}"
    using Cons.prems(2,4) by (auto simp: av)
  ultimately have dis: "set (map attr_name as) \<inter> (names' \<union> set (map attr_name (tok_attributes out'))) = {}"
    by blast
  have "attribute_loop E t out names = attribute_loop E x out' names'"
    using attribute_loop_round [OF s, of "(nm, w)" w E "(Some v, x)" out names] n [folded w_def] r add(1) nc cu
    by (simp add: eof_ahead au sw aw)
  also have "\<dots> = (out'\<lparr>tok_attributes := tok_attributes out' @ as\<rparr>, advance (length (concat (map show_attribute as)) + 1) x)"
    by (rule Cons.IH) (use Cons.prems(1-3) dis ax' in \<open>simp_all add: tail_def x\<close>)
  finally show ?case
    by (simp add: out'_def x show_attribute_def [of "\<lparr>attr_name = nm, attr_value = v\<rparr>"] av One_nat_def eval_nat_numeral ac_simps)
qed

text \<open>Names that change how the tokenizer reads on are left out.\<close>

definition switching :: "string list" where
  "switching = [''title'', ''textarea'', ''style'', ''xmp'', ''iframe'', ''noembed'', ''noframes'', ''noscript'',
     ''script'', ''plaintext'']"

definition plain_tag_name :: "string \<Rightarrow> bool" where
  "plain_tag_name nm \<longleftrightarrow> nm \<noteq> [] \<and> is_alpha (hd nm) \<and> nm \<notin> set switching \<and>
     (\<forall>c \<in> set nm. \<not> is_space c \<and> c \<notin> {CHR ''/'', gt, nul} \<and> ascii_lower c = c)"

lemma alpha_not [simp]:
  "is_alpha c \<Longrightarrow> c \<noteq> CHR ''/''" "is_alpha c \<Longrightarrow> c \<noteq> CHR ''!''" "is_alpha c \<Longrightarrow> c \<noteq> CHR ''?''"
  "is_alpha c \<Longrightarrow> c \<noteq> gt" "is_alpha c \<Longrightarrow> c \<noteq> lt" "is_alpha c \<Longrightarrow> c \<noteq> CHR ''-''" "is_alpha c \<Longrightarrow> c \<noteq> CHR ''#''"
  by (auto simp: is_alpha_def between_def)

definition start_tag_text :: "string \<Rightarrow> token_attribute list \<Rightarrow> string" where
  "start_tag_text nm as = ''<'' @ nm @ concat (map show_attribute as) @ ''>''"

lemma data_loop_stops:
  assumes "\<not> truncated t" "ahead t = lt # c # r" "opens_markup c"
  shows "data_loop E t data = (data, data = [], t)"
  using assms cur_ahead [OF assms(2)]
  by (subst data_loop.simps) (simp add: data_step_def eof_ahead peek_ahead nth_Cons')

lemma data_loop_at_end: "ahead t = [] \<Longrightarrow> data_loop E t data = (data, False, t)"
  by (subst data_loop.simps) (simp add: data_step_def eof_ahead)

lemma data_state_markup:
  "\<not> truncated t \<Longrightarrow> ahead t = lt # c # r \<Longrightarrow> opens_markup c \<Longrightarrow> data_state E t = tag_open_state E t"
  by (simp add: data_state_def text_state_def data_loop_stops)

lemma tag_open_alpha:
  assumes "ahead t = lt # c # r" "is_alpha c"
  shows "tag_open_state E t = emit (tag_name_state E (advance 1 t) (blank Start_tag))"
proof -
  have a: "ahead (advance 1 t) = c # r" by (simp add: assms(1))
  show ?thesis
    using cur_ahead [OF a] assms(2) by (simp add: tag_open_state_def Let_def eof_ahead a del: ahead_advance)
qed

lemma tag_open_slash:
  assumes "ahead t = lt # CHR ''/'' # c # r" "is_alpha c"
  shows "tag_open_state E t = emit (tag_name_state E (advance 2 t) (blank End_tag))"
proof -
  have a: "ahead (advance 1 t) = CHR ''/'' # c # r" "ahead (advance 2 t) = c # r" by (simp_all add: assms(1))
  show ?thesis
    using cur_ahead [OF a(1)] cur_ahead [OF a(2)] assms(2)
    by (simp add: tag_open_state_def end_tag_open_state_def Let_def eof_ahead a del: ahead_advance)
qed

lemma tag_name_state_reads:
  "tag_name_loop t (tok_name out) = (nm, u) \<Longrightarrow> ahead u \<noteq> [] \<Longrightarrow> tag_name_state E t out = attribute_loop E u (out\<lparr>tok_name := nm\<rparr>) {}"
  by (simp add: tag_name_state_def attributes_def eof_ahead)

lemma start_tag_reads:
  assumes "knows_escapes E" "plain_tag_name nm" "list_all plain_attribute as" "distinct (map attr_name as)"
    "\<not> truncated t" "ahead t = start_tag_text nm as @ rest"
  shows "data_state E t
    = (Some ((blank Start_tag)\<lparr>tok_name := nm, tok_attributes := as\<rparr>), advance (length (start_tag_text nm as)) t)"
proof -
  obtain c cs where c: "nm = c # cs" "is_alpha c"
    using assms(2) by (cases nm) (auto simp: plain_tag_name_def)
  define tail where "tail = concat (map show_attribute as) @ gt # rest"
  have a: "ahead t = lt # nm @ tail" using assms(6) by (simp add: start_tag_text_def tail_def)
  obtain d ds where d: "tail = d # ds" "is_space d \<or> d \<in> {CHR ''/'', gt}"
    by (cases as) (auto simp: tail_def show_attribute_def)
  define u where "u = advance (1 + length nm) t"
  have au: "ahead u = tail" by (simp add: u_def a)
  have n: "tag_name_loop (advance 1 t) (tok_name (blank Start_tag)) = (nm, u)"
    using tag_name_reads [of nm "advance 1 t" d ds "[]"] assms(2) a d by (simp add: plain_tag_name_def blank_def u_def)
  have "data_state E t = emit (tag_name_state E (advance 1 t) (blank Start_tag))"
    using data_state_markup [OF assms(5), of c "cs @ tail"] tag_open_alpha [of t c "cs @ tail"] a c
    by (simp add: opens_markup_def)
  also have "\<dots> = emit (attribute_loop E u ((blank Start_tag)\<lparr>tok_name := nm\<rparr>) {})"
    using tag_name_state_reads [OF n] au d by simp
  also have "attribute_loop E u ((blank Start_tag)\<lparr>tok_name := nm\<rparr>) {}
      = ((blank Start_tag)\<lparr>tok_name := nm, tok_attributes := as\<rparr>, advance (length (concat (map show_attribute as)) + 1) u)"
    using attribute_loop_reads [OF assms(1,3,4), of u "{}" "(blank Start_tag)\<lparr>tok_name := nm\<rparr>" rest] assms(5) au
    by (simp add: u_def tail_def blank_def)
  finally show ?thesis
    by (simp add: emit_def u_def start_tag_text_def ac_simps)
qed

lemma end_tag_reads:
  assumes "plain_tag_name nm" "\<not> truncated t" "ahead t = ''</'' @ nm @ ''>'' @ rest"
  shows "data_state E t = (Some ((blank End_tag)\<lparr>tok_name := nm\<rparr>), advance (length nm + 3) t)"
proof -
  obtain c cs where c: "nm = c # cs" "is_alpha c"
    using assms(1) by (cases nm) (auto simp: plain_tag_name_def)
  have a: "ahead t = lt # CHR ''/'' # nm @ gt # rest" using assms(3) by simp
  define u where "u = advance (2 + length nm) t"
  have au: "ahead u = gt # rest" by (simp add: u_def a)
  have n: "tag_name_loop (advance 2 t) (tok_name (blank End_tag)) = (nm, u)"
    using tag_name_reads [of nm "advance 2 t" gt rest "[]"] assms(1) a by (simp add: plain_tag_name_def blank_def u_def)
  have "data_state E t = emit (tag_name_state E (advance 2 t) (blank End_tag))"
    using data_state_markup [OF assms(2), of "CHR ''/''" "nm @ gt # rest"] tag_open_slash [of t c "cs @ gt # rest"] a c
    by (simp add: opens_markup_def)
  also have "\<dots> = emit (attribute_loop E u ((blank End_tag)\<lparr>tok_name := nm\<rparr>) {})"
    using tag_name_state_reads [OF n] au by simp
  also have "attribute_loop E u ((blank End_tag)\<lparr>tok_name := nm\<rparr>) {} = ((blank End_tag)\<lparr>tok_name := nm\<rparr>, advance 1 u)"
    using cur_ahead [OF au] by (subst attribute_loop.simps) (simp add: eof_ahead skip_space_ahead au)
  finally show ?thesis
    by (simp add: emit_def u_def One_nat_def eval_nat_numeral)
qed

section \<open>Comments, DOCTYPE and processing instructions\<close>

text \<open>No two hyphens in a row, and none at the end.\<close>

fun single_hyphens :: "string \<Rightarrow> bool" where
  "single_hyphens [] = True"
| "single_hyphens [c] = (c \<noteq> CHR ''-'')"
| "single_hyphens (c # d # s) = (\<not> (c = CHR ''-'' \<and> d = CHR ''-'') \<and> single_hyphens (d # s))"

definition plain_comment :: "string \<Rightarrow> bool" where
  "plain_comment s \<longleftrightarrow> single_hyphens s \<and> nul \<notin> set s \<and> cr \<notin> set s \<and> take 1 s \<noteq> [gt] \<and> take 2 s \<noteq> ''->''"

lemma single_hyphens_drop: "single_hyphens s \<Longrightarrow> single_hyphens (drop n s)"
proof (induction s arbitrary: n rule: single_hyphens.induct)
  case (3 c d s)
  then show ?case by (cases n) simp_all
qed (auto simp: drop_Cons split: nat.split)

lemma comment_end_reads: "ahead t = gt # rest \<Longrightarrow> comment_end t data = Return data (advance 1 t)"
  using cur_ahead [of t gt rest] by (subst comment_end.simps) (simp add: eof_ahead)

lemma comment_dash_end:
  assumes "ahead t = ''-->'' @ rest"
  shows "comment_dash t data = Return data (advance 3 t)"
proof -
  have a: "ahead (advance 1 t) = CHR ''-'' # gt # rest" "ahead (advance 2 t) = gt # rest"
    by (simp_all add: assms)
  show ?thesis
    using cur_ahead [OF a(1)] comment_end_reads [OF a(2), of data]
    by (simp add: comment_dash_def Let_def eof_ahead a del: ahead_advance)
qed

lemma comment_dash_single:
  assumes "ahead t = CHR ''-'' # d # rest" "d \<noteq> CHR ''-''"
  shows "comment_dash t data = Continue (data @ ''-'') (advance 1 t)"
proof -
  have a: "ahead (advance 1 t) = d # rest"
    by (simp add: assms)
  show ?thesis
    using cur_ahead [OF a] assms(2) by (simp add: comment_dash_def Let_def eof_ahead a del: ahead_advance)
qed

lemma take_run_ahead: "take_run c t data = (data @ takeWhile (\<lambda>d. d = c) (ahead t), advance (length (takeWhile (\<lambda>d. d = c) (ahead t))) t)"
  by (simp add: take_run_def run_end_ahead substr_ahead at_advance takeWhile_eq_take [symmetric])

text \<open>What follows a run of less-than signs, and where it leaves the comment: at its end, or at a shorter text.\<close>

lemma comment_less_than_reads:
  assumes "ahead t = lt # s @ ''-->'' @ rest" "single_hyphens s"
  shows "comment_less_than t data = Return (data @ lt # s) (advance (length s + 4) t)
    \<or> (\<exists>p q. s = p @ q \<and> comment_less_than t data = Continue (data @ lt # p) (advance (1 + length p) t))"
proof -
  define p where "p = takeWhile (\<lambda>d. d = lt) s"
  define q where "q = dropWhile (\<lambda>d. d = lt) s"
  have s: "s = p @ q" by (simp add: p_def q_def)
  have hq: "single_hyphens q"
    using single_hyphens_drop [OF assms(2), of "length p"] by (simp add: s)
  have tw: "takeWhile (\<lambda>d. d = lt) (s @ ''-->'' @ rest) = p"
  proof (cases "q = []")
    case True
    then have "\<forall>d \<in> set s. d = lt" by (simp add: q_def dropWhile_eq_Nil_conv)
    then have "p = s" unfolding p_def by (rule takeWhile_eq_all_conv [THEN iffD2])
    with \<open>\<forall>d \<in> set s. d = lt\<close> show ?thesis by (simp add: takeWhile_append2)
  next
    case False
    then obtain d where "d \<in> set s" "d \<noteq> lt" by (auto simp: q_def)
    then show ?thesis by (simp add: p_def takeWhile_append1)
  qed
  have aa: "ahead (advance 1 t) = s @ ''-->'' @ rest" by (simp add: assms(1))
  define u where "u = advance (1 + length p) t"
  have r: "take_run lt (advance 1 t) (data @ ''<'') = (data @ lt # p, u)"
    using tw by (simp add: take_run_ahead aa u_def del: ahead_advance)
  have au: "ahead u = q @ ''-->'' @ rest" by (simp add: u_def assms(1) s)
  show ?thesis
  proof (cases "q \<noteq> [] \<and> hd q = CHR ''!''")
    case False
    have "cur u \<noteq> CHR ''!''"
      using False cur_ahead [of u "hd (q @ ''-->'' @ rest)" "tl (q @ ''-->'' @ rest)"] au by (cases q) simp_all
    then have "comment_less_than t data = Continue (data @ lt # p) u"
      unfolding comment_less_than_def r by simp
    then show ?thesis using s u_def by blast
  next
    case True
    then obtain q' where q: "q = CHR ''!'' # q'" by (cases q) auto
    have cu: "cur u = CHR ''!''" "\<not> eof u 0" using au q cur_ahead [of u] by (simp_all add: eof_ahead)
    define v where "v = advance 1 u"
    have av: "ahead v = q' @ ''-->'' @ rest" by (simp add: v_def au q)
    have bang: "comment_less_than t data =
       (if \<not> eof v 0 \<and> cur v = CHR ''-''
        then let x = advance 1 v in
          if \<not> eof x 0 \<and> cur x = CHR ''-'' then nested_comment_end (advance 1 x) (data @ lt # p @ ''!'')
          else if eof x 0 then Return (data @ lt # p @ ''!'') (starve x)
          else Continue (data @ lt # p @ ''!-'') x
        else Continue (data @ lt # p @ ''!'') v)"
      unfolding comment_less_than_def r using cu by (simp add: v_def Let_def)
    have hq': "single_hyphens q'" using single_hyphens_drop [OF hq, of 1] by (simp add: q)
    show ?thesis
    proof (cases "q' = [] \<or> hd q' = CHR ''-''")
      case False
      then obtain c q2 where c: "q' = c # q2" "c \<noteq> CHR ''-''" by (cases q') auto
      then have "comment_less_than t data = Continue (data @ lt # (p @ ''!'')) v"
        using bang cur_ahead [of v c "q2 @ ''-->'' @ rest"] av by simp
      moreover have "v = advance (1 + length (p @ ''!'')) t" by (simp add: v_def u_def ac_simps)
      ultimately show ?thesis using s q by (metis append.assoc append_Cons append_Nil)
    next
      case True
      define x where "x = advance 1 v"
      have cv: "cur v = CHR ''-''" "\<not> eof v 0"
        using True av cur_ahead [of v] by (cases q'; simp add: eof_ahead)+
      show ?thesis
      proof (cases q')
        case Nil
        have ax: "ahead x = CHR ''-'' # gt # rest" "ahead (advance 1 x) = gt # rest"
          by (simp_all add: x_def av Nil)
        have "nested_comment_end (advance 1 x) d = Return d (advance 2 x)" for d
          using cur_ahead [OF ax(2)] by (simp add: nested_comment_end_def eof_ahead ax(2) del: ahead_advance)
        then have "comment_less_than t data = Return (data @ lt # s) (advance 2 x)"
          using bang cv cur_ahead [OF ax(1)] by (simp add: x_def [symmetric] eof_ahead ax(1) s q Nil)
        moreover have "advance 2 x = advance (length s + 4) t"
          by (simp add: x_def v_def u_def s q Nil One_nat_def eval_nat_numeral)
        ultimately show ?thesis by simp
      next
        case (Cons c q2)
        then have c: "q' = CHR ''-'' # q2" using True by simp
        then obtain d q3 where d: "q2 = d # q3" "d \<noteq> CHR ''-''"
          using hq' by (cases q2) auto
        have ax: "ahead x = d # q3 @ ''-->'' @ rest" by (simp add: x_def av c d)
        have "comment_less_than t data = Continue (data @ lt # (p @ ''!-'')) x"
          using bang cv cur_ahead [OF ax] d(2) by (simp add: x_def [symmetric] eof_ahead ax)
        moreover have "x = advance (1 + length (p @ ''!-'')) t"
          by (simp add: x_def v_def u_def One_nat_def)
        moreover have "s = (p @ ''!-'') @ q2" by (simp add: s q c)
        ultimately show ?thesis by blast
      qed
    qed
  qed
qed

lemma comment_loop_reads:
  assumes "single_hyphens s" "nul \<notin> set s" "cr \<notin> set s" "ahead t = s @ ''-->'' @ rest"
  shows "comment_loop t data = (data @ s, advance (length s + 3) t)"
  using assms
proof (induction s arbitrary: t data rule: length_induct)
  case (1 s)
  have go: "comment_loop t data = (data @ s, advance (length s + 3) t)"
    if "comment_step t data = Continue (data @ p) (advance (length p) t)" "s = p @ q" "p \<noteq> []" for p q
  proof -
    have "comment_loop t data = comment_loop (advance (length p) t) (data @ p)"
      by (subst comment_loop.simps) (simp add: that(1))
    also have "\<dots> = ((data @ p) @ q, advance (length q + 3) (advance (length p) t))"
      by (rule 1(1) [rule_format]) (use 1(2-5) that single_hyphens_drop [OF 1(2), of "length p"] in simp_all)
    finally show ?thesis by (simp add: that(2) ac_simps)
  qed
  show ?case
  proof (cases s)
    case Nil
    have "comment_step t data = comment_dash t data"
      using 1(5) cur_ahead [of t "CHR ''-''" "''->'' @ rest"] by (simp add: comment_step_def eof_ahead Nil)
    then show ?thesis
      using comment_dash_end [of t rest data] 1(5) by (subst comment_loop.simps) (simp add: Nil)
  next
    case (Cons c cs)
    have a: "ahead t = c # cs @ ''-->'' @ rest" using 1(5) Cons by simp
    note cu = cur_ahead [OF a]
    consider "c = lt" | "c = CHR ''-''" | "c \<noteq> lt" "c \<noteq> CHR ''-''" by blast
    then show ?thesis
    proof cases
      case 1
      have st: "comment_step t data = comment_less_than t data"
        using cu a 1 by (simp add: comment_step_def eof_ahead)
      have "single_hyphens cs" using single_hyphens_drop [OF \<open>single_hyphens s\<close>, of 1] Cons by simp
      from comment_less_than_reads [OF a [unfolded 1] this, of data] show ?thesis
      proof (elim disjE exE conjE)
        assume "comment_less_than t data = Return (data @ lt # cs) (advance (length cs + 4) t)"
        then show ?thesis
          by (subst comment_loop.simps) (simp add: st Cons 1 One_nat_def eval_nat_numeral)
      next
        fix p q assume "cs = p @ q" "comment_less_than t data = Continue (data @ lt # p) (advance (1 + length p) t)"
        then show ?thesis by (intro go [of "lt # p" q]) (simp_all add: st Cons 1)
      qed
    next
      case 2
      then obtain d ds where d: "cs = d # ds" "d \<noteq> CHR ''-''"
        using \<open>single_hyphens s\<close> Cons by (cases cs) auto
      have "comment_step t data = Continue (data @ ''-'') (advance 1 t)"
        using comment_dash_single [of t d "ds @ ''-->'' @ rest" data] cu a 2 d by (simp add: comment_step_def eof_ahead)
      then show ?thesis by (intro go [of "''-''" cs]) (simp_all add: Cons 2)
    next
      case 3
      have "c \<noteq> cr" "c \<noteq> nul" using 1(3,4) Cons by auto
      then have "comment_step t data = Continue (data @ [c]) (advance 1 t)"
        using append_text_plain [OF a, of data] cu a 3 by (simp add: comment_step_def eof_ahead)
      then show ?thesis by (intro go [of "[c]" cs]) (simp_all add: Cons)
    qed
  qed
qed

lemma tag_open_bang:
  assumes "ahead t = lt # CHR ''!'' # r"
  shows "tag_open_state E t = emit (markup_declaration_open_state (advance 1 t))"
proof -
  have a: "ahead (advance 1 t) = CHR ''!'' # r" by (simp add: assms)
  show ?thesis
    using cur_ahead [OF a] by (simp add: tag_open_state_def Let_def eof_ahead a del: ahead_advance)
qed

lemma not_declaration_cut [simp]: "\<not> truncated t \<Longrightarrow> \<not> declaration_cut t"
  by (simp add: declaration_cut_def)

lemma comment_reads:
  assumes "plain_comment s" "\<not> truncated t" "ahead t = ''<!--'' @ s @ ''-->'' @ rest"
  shows "data_state E t = (Some ((blank Comment)\<lparr>tok_data := s\<rparr>), advance (length s + 7) t)"
proof -
  have p: "single_hyphens s" "nul \<notin> set s" "cr \<notin> set s" "take 1 s \<noteq> [gt]" "take 2 s \<noteq> ''->''"
    using assms(1) by (simp_all add: plain_comment_def)
  have a: "ahead (advance 1 t) = ''!--'' @ s @ ''-->'' @ rest" by (simp add: assms(3))
  define u where "u = advance 4 t"
  have u: "advance 3 (advance 1 t) = u" by (simp add: u_def)
  have au: "ahead u = s @ ''-->'' @ rest" by (simp add: u_def assms(3))
  have "data_state E t = tag_open_state E t"
    using data_state_markup [OF assms(2)] assms(3) by (simp add: opens_markup_def)
  also have "\<dots> = emit (markup_declaration_open_state (advance 1 t))"
    using assms(3) by (simp add: tag_open_bang)
  also have "markup_declaration_open_state (advance 1 t) = comment_state u"
    using assms(2) by (simp add: markup_declaration_open_state_def looking_ahead a u del: ahead_advance advance_advance)
  also have "\<dots> = ((blank Comment)\<lparr>tok_data := s\<rparr>, advance (length s + 3) u)"
  proof -
    have "\<not> (peek u 0 = gt \<and> \<not> eof u 0)" "\<not> (peek u 0 = CHR ''-'' \<and> \<not> eof u 0 \<and> eof u 1)"
        "\<not> (peek u 0 = CHR ''-'' \<and> \<not> eof u 0 \<and> peek u 1 = gt)"
      using p(1,4,5) by (cases s rule: single_hyphens.cases; simp add: peek_ahead eof_ahead au One_nat_def eval_nat_numeral)+
    then show ?thesis
      using comment_loop_reads [OF p(1-3) au, of "[]"] by (auto simp: comment_state_def Let_def)
  qed
  finally show ?thesis by (simp add: emit_def u_def ac_simps)
qed

definition plain_doctype_name :: "string \<Rightarrow> bool" where
  "plain_doctype_name nm \<longleftrightarrow> nm \<noteq> [] \<and> (\<forall>c \<in> set nm. \<not> is_space c \<and> c \<noteq> gt \<and> c \<noteq> nul \<and> ascii_lower c = c)"

lemma doctype_name_plain: "plain_doctype_name nm \<Longrightarrow> doctype_name nm = nm"
proof -
  assume "plain_doctype_name nm"
  then have "\<forall>c \<in> set nm. c \<noteq> nul \<and> ascii_lower c = c" by (simp add: plain_doctype_name_def)
  then show ?thesis unfolding doctype_name_def by (induction nm) simp_all
qed

lemma doctype_reads:
  assumes "plain_doctype_name nm" "\<not> truncated t" "ahead t = ''<!DOCTYPE '' @ nm @ ''>'' @ rest"
  shows "data_state E t = (Some ((blank Doctype)\<lparr>tok_name := nm\<rparr>), advance (length nm + 11) t)"
proof -
  obtain c cs where c: "nm = c # cs" "\<not> is_space c" "c \<noteq> gt"
    using assms(1) by (cases nm) (auto simp: plain_doctype_name_def)
  have a: "ahead (advance 1 t) = ''!DOCTYPE '' @ nm @ ''>'' @ rest" by (simp add: assms(3))
  define u where "u = advance 9 t"
  have u: "advance 8 (advance 1 t) = u" by (simp add: u_def)
  have au: "ahead u = CHR '' '' # nm @ gt # rest" by (simp add: u_def assms(3))
  define v where "v = advance 1 u"
  have av: "ahead v = nm @ gt # rest" by (simp add: v_def au)
  have sk: "skip_space u = v" by (simp add: skip_space_ahead au c v_def)
  have cv: "cur v \<noteq> gt" using cur_ahead [of v c "cs @ gt # rest"] av c by simp
  define w where "w = advance (length nm) v"
  have aw: "ahead w = gt # rest" by (simp add: w_def av)
  have sw: "skip_space w = w" by (simp add: skip_space_ahead aw)
  have tw: "takeWhile in_doctype_name (ahead v) = nm"
    unfolding av using assms(1)
    by (subst takeWhile_append2) (simp_all add: plain_doctype_name_def in_doctype_name_def)
  have stop: "run_end in_doctype_name (input v) (at v) = at v + length nm"
    by (simp add: run_end_ahead tw)
  have "ascii_iequals ''!DOCTYPE'' ''!doctype''" by code_simp
  have "data_state E t = tag_open_state E t"
    using data_state_markup [OF assms(2)] assms(3) by (simp add: opens_markup_def)
  also have "\<dots> = emit (markup_declaration_open_state (advance 1 t))"
    using assms(3) by (simp add: tag_open_bang)
  also have "markup_declaration_open_state (advance 1 t) = doctype_state u"
    using assms(2) \<open>ascii_iequals ''!DOCTYPE'' ''!doctype''\<close>
    by (simp add: markup_declaration_open_state_def looking_ahead looking_ci_ahead a u del: ahead_advance advance_advance)
  also have "\<dots> = ((blank Doctype)\<lparr>tok_name := nm\<rparr>, advance 1 w)"
    using cur_ahead [OF aw] cv assms(1)
    by (simp add: doctype_state_def sk eof_ahead av stop substr_ahead doctype_name_plain at_advance
        w_def [symmetric] aw sw Let_def plain_doctype_name_def [of "[]"])
  finally show ?thesis by (simp add: emit_def w_def v_def u_def One_nat_def eval_nat_numeral)
qed

definition plain_target :: "string \<Rightarrow> bool" where
  "plain_target nm \<longleftrightarrow> nm \<noteq> [] \<and> (is_alpha (hd nm) \<or> hd nm = CHR ''_'') \<and> (\<forall>c \<in> set nm. target_char c)
     \<and> \<not> ascii_iequals nm ''xml'' \<and> \<not> ascii_iequals nm ''xml-stylesheet''"

definition plain_pi_data :: "string \<Rightarrow> bool" where
  "plain_pi_data d \<longleftrightarrow> gt \<notin> set d \<and> cr \<notin> set d \<and> (d \<noteq> [] \<longrightarrow> \<not> is_space (hd d))"

lemma pi_data_reads:
  assumes "gt \<notin> set d" "cr \<notin> set d" "model t = Data" "ahead t = d @ gt # rest"
  shows "pi_data_loop t data = (data @ d, advance (length d) t)"
  using assms
proof (induction d arbitrary: t data)
  case Nil
  then show ?case
    using cur_ahead [of t gt rest] by (subst pi_data_loop.simps) simp
next
  case (Cons c d)
  have a: "ahead t = c # d @ gt # rest" using Cons.prems(4) by simp
  have "pi_data_loop t data = pi_data_loop (advance 1 t) (data @ [c])"
    using append_text_plain [OF a, of data] cur_ahead [OF a] Cons.prems(1-3)
    by (subst pi_data_loop.simps) (auto simp: eof_ahead a)
  also have "\<dots> = ((data @ [c]) @ d, advance (length d) (advance 1 t))"
    by (rule Cons.IH) (use Cons.prems a in simp_all)
  finally show ?case by simp
qed

lemma tag_open_question:
  assumes "ahead t = lt # CHR ''?'' # r"
  shows "tag_open_state E t = emit (processing_instruction_state (advance 1 t))"
proof -
  have a: "ahead (advance 1 t) = CHR ''?'' # r" by (simp add: assms)
  show ?thesis
    using cur_ahead [OF a] by (simp add: tag_open_state_def Let_def eof_ahead a del: ahead_advance)
qed

lemma processing_instruction_reads:
  assumes "plain_target nm" "plain_pi_data d" "\<not> truncated t" "model t = Data"
    "ahead t = ''<?'' @ nm @ '' '' @ d @ ''?>'' @ rest"
  shows "data_state E t
    = (Some ((blank Processing_instruction)\<lparr>tok_name := nm, tok_data := d\<rparr>), advance (length nm + length d + 5) t)"
proof -
  define u where "u = advance 1 t"
  have au: "ahead u = CHR ''?'' # nm @ CHR '' '' # d @ CHR ''?'' # gt # rest" by (simp add: u_def assms(5))
  obtain c cs where c: "nm = c # cs" "is_alpha c \<or> c = CHR ''_''" "\<forall>c \<in> set nm. target_char c"
    "\<not> ascii_iequals nm ''xml''" "\<not> ascii_iequals nm ''xml-stylesheet''"
    using assms(1) by (cases nm) (auto simp: plain_target_def)
  have tc: "\<not> target_char (CHR '' '')" by code_simp
  define v where "v = advance 1 u"
  have av: "ahead v = nm @ CHR '' '' # d @ CHR ''?'' # gt # rest" by (simp add: v_def au)
  have v: "input v = input u" "at v = at u + 1" by (simp_all add: v_def)
  have "takeWhile target_char (ahead v) = nm"
    unfolding av using c(3) tc by (subst takeWhile_append2) simp_all
  then have stop: "run_end target_char (input u) (at u + 1) = at u + 1 + length nm"
    using run_end_ahead [of target_char v] v by simp
  have target: "substr (input u) (at u + 1) (length nm) = nm"
    using substr_ahead [of v "length nm"] v av by simp
  have "length (ahead v) = length (input u) - (at u + 1)" "input u ! (at u + 1 + length nm) = ahead v ! length nm"
    using v arg_cong [OF av, of length] by (simp_all add: ahead_def)
  then have inside: "at u + 1 + length nm < length (input u)" "input u ! (at u + 1 + length nm) = CHR '' ''"
    by (simp_all add: av)
  have pk: "peek u 1 = c" "\<not> eof u 1" by (simp_all add: peek_ahead eof_ahead au c(1))
  define w where "w = advance (1 + length nm) u"
  have w: "u\<lparr>at := at u + 1 + length nm\<rparr> = w" by (simp add: w_def advance_def)
  have aw: "ahead w = CHR '' '' # d @ CHR ''?'' # gt # rest" by (simp add: w_def au)
  define x where "x = advance 1 w"
  have ax: "ahead x = (d @ ''?'') @ gt # rest" by (simp add: x_def aw)
  have dd: "gt \<notin> set (d @ ''?'')" "cr \<notin> set (d @ ''?'')" "d \<noteq> [] \<Longrightarrow> \<not> is_space (hd d)"
    using assms(2) by (auto simp: plain_pi_data_def)
  have "takeWhile is_space (d @ CHR ''?'' # gt # rest) = []" using dd(3) by (cases d) simp_all
  then have sk: "skip_space w = x" by (simp add: skip_space_ahead aw x_def)
  have "model x = Data" using assms(4) by (simp add: x_def w_def u_def)
  from pi_data_reads [OF dd(1,2) this ax, of "[]"]
  have pd: "pi_data_loop x [] = (d @ ''?'', advance (length d + 1) x)" by simp
  have ae: "ahead (advance (length d + 1) x) = gt # rest" by (simp add: ax)
  have "data_state E t = tag_open_state E t"
    using data_state_markup [OF assms(3)] assms(5) by (simp add: opens_markup_def)
  also have "\<dots> = emit (processing_instruction_state u)"
    using assms(5) by (simp add: tag_open_question u_def)
  also have "processing_instruction_state u
    = ((blank Processing_instruction)\<lparr>tok_name := nm, tok_data := d\<rparr>, advance 1 (advance (length d + 1) x))"
    unfolding processing_instruction_state_def stop
    using pk c(2,4,5) inside ae by (auto simp: Let_def w sk pd eof_ahead target simp del: ahead_advance)
  finally show ?thesis by (simp add: emit_def x_def w_def u_def One_nat_def eval_nat_numeral ac_simps)
qed

section \<open>Any markup token\<close>

text \<open>The markup of one token.\<close>

definition token_markup :: "token \<Rightarrow> string" where
  "token_markup k =
     (case tok_kind k of
        Character \<Rightarrow> escape_html False (tok_data k)
      | Start_tag \<Rightarrow> start_tag_text (tok_name k) (tok_attributes k)
      | End_tag \<Rightarrow> ''</'' @ tok_name k @ ''>''
      | Comment \<Rightarrow> ''<!--'' @ tok_data k @ ''-->''
      | Doctype \<Rightarrow> ''<!DOCTYPE '' @ tok_name k @ ''>''
      | Processing_instruction \<Rightarrow> ''<?'' @ tok_name k @ '' '' @ tok_data k @ ''?>''
      | _ \<Rightarrow> [])"

text \<open>A token with nothing but the fields its kind uses.\<close>

definition bare :: "token \<Rightarrow> bool" where
  "bare k \<longleftrightarrow> k \<in> {character_token (tok_data k), (blank Start_tag)\<lparr>tok_name := tok_name k, tok_attributes := tok_attributes k\<rparr>,
     (blank End_tag)\<lparr>tok_name := tok_name k\<rparr>, (blank Comment)\<lparr>tok_data := tok_data k\<rparr>,
     (blank Doctype)\<lparr>tok_name := tok_name k\<rparr>,
     (blank Processing_instruction)\<lparr>tok_name := tok_name k, tok_data := tok_data k\<rparr>}"

text \<open>The tokens whose markup reads back.\<close>

definition plain_token :: "token \<Rightarrow> bool" where
  "plain_token k \<longleftrightarrow> bare k \<and>
     (case tok_kind k of
        Character \<Rightarrow> cr \<notin> set (tok_data k)
      | Start_tag \<Rightarrow> plain_tag_name (tok_name k) \<and> list_all plain_attribute (tok_attributes k)
          \<and> distinct (map attr_name (tok_attributes k))
      | End_tag \<Rightarrow> plain_tag_name (tok_name k)
      | Comment \<Rightarrow> plain_comment (tok_data k)
      | Doctype \<Rightarrow> plain_doctype_name (tok_name k)
      | Processing_instruction \<Rightarrow> plain_target (tok_name k) \<and> plain_pi_data (tok_data k)
      | _ \<Rightarrow> False)"

lemma data_state_reads:
  assumes "knows_escapes E" "plain_token k" "tok_kind k \<noteq> Character" "\<not> truncated t" "model t = Data"
    "ahead t = token_markup k @ rest"
  shows "data_state E t = (Some k, advance (length (token_markup k)) t)"
proof -
  have "bare k" using assms(2) by (simp add: plain_token_def)
  with assms(3) consider "k = (blank Start_tag)\<lparr>tok_name := tok_name k, tok_attributes := tok_attributes k\<rparr>"
    | "k = (blank End_tag)\<lparr>tok_name := tok_name k\<rparr>" | "k = (blank Comment)\<lparr>tok_data := tok_data k\<rparr>"
    | "k = (blank Doctype)\<lparr>tok_name := tok_name k\<rparr>"
    | "k = (blank Processing_instruction)\<lparr>tok_name := tok_name k, tok_data := tok_data k\<rparr>"
    unfolding bare_def by (metis character_token_kind(1) empty_iff insert_iff)
  then show ?thesis
  proof cases
    case 1
    then have "tok_kind k = Start_tag" by (metis blank_def token.select_convs(1) token.surjective token.update_convs(2,4))
    with 1 assms(2,6) start_tag_reads [OF assms(1) _ _ _ assms(4), of "tok_name k" "tok_attributes k" rest] show ?thesis
      by (simp add: plain_token_def token_markup_def)
  next
    case 2
    then have "tok_kind k = End_tag" by (metis blank_def token.select_convs(1) token.surjective token.update_convs(2))
    with 2 assms(2,6) end_tag_reads [OF _ assms(4), of "tok_name k" rest E] show ?thesis
      by (simp add: plain_token_def token_markup_def One_nat_def eval_nat_numeral)
  next
    case 3
    then have "tok_kind k = Comment" by (metis blank_def token.select_convs(1) token.surjective token.update_convs(3))
    with 3 assms(2,6) comment_reads [OF _ assms(4), of "tok_data k" rest E] show ?thesis
      by (simp add: plain_token_def token_markup_def One_nat_def eval_nat_numeral)
  next
    case 4
    then have "tok_kind k = Doctype" by (metis blank_def token.select_convs(1) token.surjective token.update_convs(2))
    with 4 assms(2,6) doctype_reads [OF _ assms(4), of "tok_name k" rest E] show ?thesis
      by (simp add: plain_token_def token_markup_def One_nat_def eval_nat_numeral)
  next
    case 5
    then have "tok_kind k = Processing_instruction"
      by (metis blank_def token.select_convs(1) token.surjective token.update_convs(2,3))
    with 5 assms(2,6) processing_instruction_reads [OF _ _ assms(4,5), of "tok_name k" "tok_data k" rest E] show ?thesis
      by (simp add: plain_token_def token_markup_def One_nat_def eval_nat_numeral)
  qed
qed

section \<open>Reading a row of tokens\<close>

text \<open>What the tokenizer makes of a row of tokens: neighbouring text is one token and empty text is none.\<close>

fun merged :: "string \<Rightarrow> token list \<Rightarrow> token list" where
  "merged acc [] = (if acc = [] then [] else [character_token acc])"
| "merged acc (k # ks) =
     (if tok_kind k = Character then merged (acc @ tok_data k) ks
      else (if acc = [] then [] else [character_token acc]) @ k # merged [] ks)"

definition unspanned :: "token \<Rightarrow> token" where
  "unspanned k = k\<lparr>source_begin := 0, source_end := 0\<rparr>"

text \<open>A tree builder that leaves the content model alone but for the elements that switch it.\<close>

definition steady :: "feedback \<Rightarrow> bool" where
  "steady f \<longleftrightarrow> (\<forall>k. tok_kind k \<noteq> Start_tag \<or> tok_name k \<notin> set switching \<longrightarrow> fst (f k) = None)"

definition ready :: "tokenizer \<Rightarrow> bool" where
  "ready t \<longleftrightarrow> \<not> truncated t \<and> model t = Data"

lemma ready_simps [simp]:
  "ready (advance n t) = ready t" "ready (t\<lparr>starved := b\<rparr>) = ready t" "ahead (t\<lparr>starved := b\<rparr>) = ahead t"
  by (simp_all add: ready_def ahead_def)

lemma next_tok_reads:
  assumes "ready t" "ahead t \<noteq> []" "take 3 (ahead t) \<noteq> ''</>''"
    "data_state E (t\<lparr>starved := False\<rparr>) = (Some k, advance n (t\<lparr>starved := False\<rparr>))"
  shows "next_tok E t = (k\<lparr>source_begin := at t, source_end := at t + n\<rparr>, advance n (t\<lparr>starved := False\<rparr>))"
proof -
  define v where "v = t\<lparr>starved := False\<rparr>"
  have v: "ahead v = ahead t" "model v = Data" "\<not> starved v" "at v = at t"
    using assms(1) by (simp_all add: v_def ready_def)
  have "skip_empty_end_tags v = v"
    using assms(3) v by (subst skip_empty_end_tags.simps) (simp add: looking_ahead)
  then have "next_token E v = (k, advance n v)"
    using assms(2,4) v by (subst next_token.simps) (simp add: eof_ahead state_of_model_def v_def [symmetric])
  then show ?thesis
    using v by (simp add: next_tok_def v_def [symmetric] Let_def)
qed

lemma next_tok_at_end:
  assumes "ready t" "ahead t = []"
  shows "next_tok E t = (end_token\<lparr>source_begin := at t, source_end := at t\<rparr>, t\<lparr>starved := False\<rparr>)"
proof -
  define v where "v = t\<lparr>starved := False\<rparr>"
  have v: "ahead v = []" "\<not> truncated v" "\<not> starved v" "at v = at t"
    using assms by (simp_all add: v_def ready_def)
  have "skip_empty_end_tags v = v"
    using v by (subst skip_empty_end_tags.simps) (simp add: looking_ahead)
  then have "next_token E v = (end_token, v)"
    using v by (subst next_token.simps) (simp add: eof_ahead starve_def)
  then show ?thesis
    using v by (simp add: next_tok_def v_def [symmetric] Let_def)
qed

lemma feed_ready:
  "steady f \<Longrightarrow> tok_kind k \<noteq> Start_tag \<or> tok_name k \<notin> set switching \<Longrightarrow> ready (feed f k t) = ready t"
  "ahead (feed f k t) = ahead t"
  by (simp_all add: steady_def feed_def set_cdata_allowed_def set_content_model_def ready_def ahead_def split: option.split)

lemma data_reads_texts:
  assumes "knows_escapes E" "\<forall>k \<in> set ks. tok_kind k = Character \<and> cr \<notin> set (tok_data k)" "ready t"
    "ahead t = concat (map token_markup ks) @ rest"
  shows "data_loop E t data = data_loop E (advance (length (concat (map token_markup ks))) t) (data @ concat (map tok_data ks))"
  using assms(2-)
proof (induction ks arbitrary: t data)
  case Nil
  then show ?case by simp
next
  case (Cons k ks)
  have k: "token_markup k = escape_html False (tok_data k)" using Cons.prems(1) by (simp add: token_markup_def)
  have "data_loop E t data = data_loop E (advance (length (token_markup k)) t) (data @ tok_data k)"
    unfolding k by (rule data_reads_text [OF assms(1)]) (use Cons.prems k in \<open>simp_all add: ready_def\<close>)
  also have "\<dots> = data_loop E (advance (length (concat (map token_markup ks))) (advance (length (token_markup k)) t))
      ((data @ tok_data k) @ concat (map tok_data ks))"
    by (rule Cons.IH) (use Cons.prems in simp_all)
  finally show ?case by simp
qed

lemma merged_texts:
  "\<forall>k \<in> set ks. tok_kind k = Character \<Longrightarrow> merged acc (ks @ rest) = merged (acc @ concat (map tok_data ks)) rest"
  by (induction ks arbitrary: acc) simp_all

lemma escape_empty: "escape_html b s = [] \<longleftrightarrow> s = []"
  by (cases s) (simp_all add: escape_html.simps)

lemma escape_no_markup: "escape_html b s \<noteq> [] \<Longrightarrow> hd (escape_html b s) \<noteq> lt"
  by (cases s; cases "tl s") (auto simp: escape_html.simps split: if_splits)

lemma plain_token_name: "plain_token k \<Longrightarrow> tok_kind k = Character \<or> tok_kind k \<in> {Start_tag, End_tag} \<and> tok_name k \<notin> set switching
   \<or> tok_kind k \<in> {Comment, Doctype, Processing_instruction}"
  by (auto simp: plain_token_def plain_tag_name_def split: token_kind.splits)

text \<open>Tokens other than text, in the data state: their markup is not empty, does not begin like \<^verbatim>\<open></>\<close>, and
  stops a run of text.\<close>

lemma markup_begins:
  assumes "plain_token k" "tok_kind k \<noteq> Character"
  shows "\<exists>c d r. token_markup k = lt # c # d # r \<and> opens_markup c \<and> \<not> (c = CHR ''/'' \<and> d = gt)"
proof -
  consider "tok_kind k = Start_tag" | "tok_kind k = End_tag" | "tok_kind k \<in> {Comment, Doctype, Processing_instruction}"
    using plain_token_name [OF assms(1)] assms(2) by auto
  then show ?thesis
  proof cases
    case 1
    then have "plain_tag_name (tok_name k)" using assms(1) by (simp add: plain_token_def)
    then obtain c cs where "tok_name k = c # cs" "is_alpha c" by (cases "tok_name k") (auto simp: plain_tag_name_def)
    with 1 show ?thesis
      by (cases "cs @ concat (map show_attribute (tok_attributes k)) @ [gt]")
        (auto simp: token_markup_def start_tag_text_def opens_markup_def)
  next
    case 2
    then have "plain_tag_name (tok_name k)" using assms(1) by (simp add: plain_token_def)
    then obtain c cs where "tok_name k = c # cs" "is_alpha c" by (cases "tok_name k") (auto simp: plain_tag_name_def)
    with 2 show ?thesis by (auto simp: token_markup_def opens_markup_def)
  next
    case 3
    then show ?thesis
      by (cases "tok_name k") (auto simp: token_markup_def opens_markup_def)
  qed
qed

lemma not_empty_end_tag:
  "c \<noteq> lt \<Longrightarrow> take 3 (c # r) \<noteq> ''</>''" "\<not> (c = CHR ''/'' \<and> e = gt) \<Longrightarrow> take 3 (lt # c # e # q) \<noteq> ''</>''"
  by (auto simp: take_Cons')

lemma concat_hd: "\<forall>x \<in> set xs. x \<noteq> [] \<longrightarrow> hd x \<noteq> c \<Longrightarrow> concat xs \<noteq> [] \<Longrightarrow> hd (concat xs) \<noteq> c"
  by (induction xs) (auto simp: hd_append)

lemma merged_markup: "acc \<noteq> [] \<Longrightarrow> rest \<noteq> [] \<longrightarrow> tok_kind (hd rest) \<noteq> Character \<Longrightarrow> merged acc rest = character_token acc # merged [] rest"
  by (cases rest) simp_all

lemma bare_unspanned: "bare k \<Longrightarrow> unspanned (k\<lparr>source_begin := i, source_end := j\<rparr>) = k"
  by (cases k) (auto simp: bare_def unspanned_def blank_def character_token_def)

text \<open>The token loop over the markup of a row of plain tokens.\<close>

lemma pump_reads:
  assumes "knows_escapes E" "steady f" "\<forall>k \<in> set ks. plain_token k" "ready t" "ahead t = concat (map token_markup ks)"
    "length (ahead t) < n"
  shows "map unspanned (fst (pump E f n t)) = merged [] ks @ [end_token]"
  using assms(3-)
proof (induction ks arbitrary: t n rule: length_induct)
  case (1 ks)
  define texts where "texts = takeWhile (\<lambda>k. tok_kind k = Character) ks"
  define rest where "rest = dropWhile (\<lambda>k. tok_kind k = Character) ks"
  have ks: "ks = texts @ rest" by (simp add: texts_def rest_def)
  have tx: "\<forall>k \<in> set texts. tok_kind k = Character \<and> cr \<notin> set (tok_data k)"
    using 1(2) by (auto simp: texts_def plain_token_def dest!: set_takeWhileD)
  have rs: "rest \<noteq> [] \<Longrightarrow> tok_kind (hd rest) \<noteq> Character"
    using hd_dropWhile [of "\<lambda>k. tok_kind k = Character" ks] by (simp add: rest_def)
  define d where "d = concat (map tok_data texts)"
  define l where "l = length (concat (map token_markup texts))"
  have m: "merged [] ks = merged d rest"
    using merged_texts [of texts "[]" rest] tx by (simp add: ks d_def)
  obtain n' where n: "n = Suc n'" using 1(5) by (cases n) auto
  define t0 where "t0 = t\<lparr>starved := False\<rparr>"
  have t0: "ready t0" "ahead t0 = concat (map token_markup texts) @ concat (map token_markup rest)"
    using 1(3,4) by (simp_all add: t0_def ks)
  define u where "u = advance l t0"
  have u: "ready u" "ahead u = concat (map token_markup rest)"
    using t0 by (simp_all add: u_def l_def)
  have stop: "data_loop E u data = (data, data = [] \<and> rest \<noteq> [], u)" for data
  proof (cases rest)
    case Nil
    then show ?thesis using data_loop_at_end [of u E data] u by simp
  next
    case (Cons k r)
    then have "plain_token k" "tok_kind k \<noteq> Character" using 1(2) rs ks by simp_all
    from markup_begins [OF this] show ?thesis
      using data_loop_stops [of u _ _ E data] u Cons by (fastforce simp: ready_def)
  qed
  have loop: "data_loop E t0 [] = (d, d = [] \<and> rest \<noteq> [], u)"
    using data_reads_texts [OF assms(1) tx t0, of "[]"] stop by (simp add: u_def l_def d_def)
  have len: "l = 0 \<longleftrightarrow> d = []"
    using tx by (auto simp: l_def d_def token_markup_def escape_empty)
  show ?case
  proof (cases "d = []")
    case False
    have st: "data_state E t0 = (Some (character_token d), advance l t0)"
      using loop False by (simp add: data_state_def text_state_def u_def)
    have ne: "concat (map token_markup texts) \<noteq> []" using False len by (simp add: l_def)
    have "\<forall>x \<in> set (map token_markup texts). x \<noteq> [] \<longrightarrow> hd x \<noteq> lt"
      using tx by (auto simp: token_markup_def escape_no_markup)
    from concat_hd [OF this ne] obtain c r where "concat (map token_markup texts) = c # r" "c \<noteq> lt"
      using ne by (metis list.sel(1) neq_Nil_conv)
    then have "ahead t = c # r @ concat (map token_markup rest)" "c \<noteq> lt"
      using 1(4) by (simp_all add: ks)
    then have "ahead t \<noteq> []" "take 3 (ahead t) \<noteq> ''</>''" using not_empty_end_tag(1) by simp_all
    then have nt: "next_tok E t = ((character_token d)\<lparr>source_begin := at t, source_end := at t + l\<rparr>, u)"
      using next_tok_reads [OF 1(3) _ _ st [unfolded t0_def]] by (simp add: u_def t0_def)
    define k where "k = (character_token d)\<lparr>source_begin := at t, source_end := at t + l\<rparr>"
    have k: "tok_kind k = Character" by (simp add: k_def)
    have "map unspanned (fst (pump E f n' (feed f k u))) = merged [] rest @ [end_token]"
    proof (rule 1(1) [rule_format])
      have "texts \<noteq> []" using False by (auto simp: d_def)
      then show "length rest < length ks" by (simp add: ks)
      have "l > 0" "length (ahead t) = l + length (ahead u)"
        using False len 1(4) u by (simp_all add: ks l_def)
      then show "length (ahead (feed f k u)) < n'" using 1(5) by (simp add: feed_ready n)
    qed (use 1(2) in \<open>simp_all add: feed_ready assms(2) k u ks\<close>)
    moreover have "unspanned k = character_token d" by (simp add: k_def unspanned_def character_token_def blank_def)
    ultimately show ?thesis
      using nt k rs False by (simp add: n k_def [symmetric] case_prod_beta m merged_markup)
  next
    case True
    then have u0: "u = t0" using len by (simp add: u_def)
    show ?thesis
    proof (cases rest)
      case Nil
      then have "next_tok E t = (end_token\<lparr>source_begin := at t, source_end := at t\<rparr>, t0)"
        using next_tok_at_end [OF 1(3), of E] u t0 by (simp add: u0 t0_def)
      then show ?thesis
        using True Nil by (simp add: n m end_token_def blank_def unspanned_def)
    next
      case (Cons k r)
      have k: "plain_token k" "tok_kind k \<noteq> Character" using 1(2) rs Cons ks by simp_all
      obtain c e q where b: "token_markup k = lt # c # e # q" "\<not> (c = CHR ''/'' \<and> e = gt)"
        using markup_begins [OF k] by blast
      have a: "ahead t0 = token_markup k @ concat (map token_markup r)" using u u0 Cons by simp
      have st: "data_state E t0 = (Some k, advance (length (token_markup k)) t0)"
        using data_state_reads [OF assms(1) k _ _ a] t0(1) by (simp add: ready_def)
      define v where "v = advance (length (token_markup k)) t0"
      have v: "ready v" "ahead v = concat (map token_markup r)" using t0(1) a by (simp_all add: v_def)
      have "ahead t = ahead t0" by (simp add: t0_def)
      then have "ahead t = lt # c # e # q @ concat (map token_markup r)" using a b by simp
      then have "ahead t \<noteq> []" "take 3 (ahead t) \<noteq> ''</>''" using not_empty_end_tag(2) [OF b(2)] by simp_all
      then have nt: "next_tok E t = (k\<lparr>source_begin := at t, source_end := at t + length (token_markup k)\<rparr>, v)"
        using next_tok_reads [OF 1(3) _ _ st [unfolded t0_def]] by (simp add: v_def t0_def)
      define k' where "k' = k\<lparr>source_begin := at t, source_end := at t + length (token_markup k)\<rparr>"
      have k': "tok_kind k' = tok_kind k" "tok_name k' = tok_name k" "unspanned k' = k"
        using k(1) by (simp_all add: k'_def bare_unspanned plain_token_def)
      have "tok_kind k' \<noteq> End_of_file" "tok_kind k' \<noteq> Start_tag \<or> tok_name k' \<notin> set switching"
        using plain_token_name [OF k(1)] k' by auto
      moreover from this(2) have "map unspanned (fst (pump E f n' (feed f k' v))) = merged [] r @ [end_token]"
      proof (intro 1(1) [rule_format])
        show "length r < length ks" by (simp add: ks Cons)
        show "length (ahead (feed f k' v)) < n'"
          using 1(5) \<open>ahead t = ahead t0\<close> a b v by (simp add: feed_ready n)
      qed (use 1(2) in \<open>simp_all add: feed_ready assms(2) v ks Cons\<close>)
      ultimately show ?thesis
        using nt True k k' by (simp add: n k'_def [symmetric] case_prod_beta m Cons)
    qed
  qed
qed

section \<open>A node's tokens\<close>

text \<open>What a document says, as tokens: the reference for the serialiser, without any markup.\<close>

definition start_token :: "document \<Rightarrow> node_id \<Rightarrow> token" where
  "start_token D h = (blank Start_tag)
     \<lparr>tok_name := qualified_name D h,
      tok_attributes := map (\<lambda>a. \<lparr>attr_name = attribute_serialized_name (atoms D) a, attr_value = a_value a\<rparr>)
        (Dom.attributes D h)\<rparr>"

fun node_tokens :: "document \<Rightarrow> nat \<Rightarrow> node_id \<Rightarrow> token list option" where
  "node_tokens D 0 h = None"
| "node_tokens D (Suc n) h =
     (case (case kind D h of Inl _ \<Rightarrow> Element | Inr k \<Rightarrow> k) of
        Text \<Rightarrow> Some [character_token (node_text D h)]
      | Cdata_section \<Rightarrow> Some [character_token (node_text D h)]
      | node_kind.Comment \<Rightarrow> Some [(blank Comment)\<lparr>tok_data := node_text D h\<rparr>]
      | node_kind.Processing_instruction \<Rightarrow>
          Some [(blank Processing_instruction)\<lparr>tok_name := atom_text (atoms D) (node_name D h), tok_data := node_text D h\<rparr>]
      | Document_type \<Rightarrow> Some [(blank Doctype)\<lparr>tok_name := atom_text (atoms D) (node_name D h)\<rparr>]
      | Document \<Rightarrow> joined (map (node_tokens D n) (children D h))
      | Document_fragment \<Rightarrow> joined (map (node_tokens D n) (children D h))
      | Element \<Rightarrow>
          if element_ns D h = Html \<and> serializes_as_void (qualified_name D h) then Some [start_token D h]
          else joined [Some [start_token D h], joined (map (node_tokens D n) (children D h)),
                       Some [(blank End_tag)\<lparr>tok_name := qualified_name D h\<rparr>]])"

lemma attribute_markup_show:
  "attribute_markup A a = show_attribute \<lparr>attr_name = attribute_serialized_name A a, attr_value = a_value a\<rparr>"
  by (simp add: attribute_markup_def show_attribute_def)

lemma start_token_markup: "token_markup (start_token D h) = start_tag_markup D h"
  by (simp add: token_markup_def start_token_def blank_def start_tag_text_def start_tag_markup_def
    attribute_markup_show [symmetric] o_def cong: map_cong)

lemma token_markups:
  "token_markup ((blank End_tag)\<lparr>tok_name := nm\<rparr>) = ''</'' @ nm @ ''>''"
  "token_markup (character_token d) = escape_html False d"
  "token_markup ((blank Comment)\<lparr>tok_data := d\<rparr>) = ''<!--'' @ d @ ''-->''"
  "token_markup ((blank Doctype)\<lparr>tok_name := nm\<rparr>) = ''<!DOCTYPE '' @ nm @ ''>''"
  "token_markup ((blank Processing_instruction)\<lparr>tok_name := nm, tok_data := d\<rparr>) = ''<?'' @ nm @ '' '' @ d @ ''?>''"
  by (simp_all add: token_markup_def blank_def character_token_def)

lemma joined_related:
  assumes "\<And>c ys. c \<in> set cs \<Longrightarrow> f c = Some ys \<Longrightarrow> \<forall>k \<in> set ys. P k \<Longrightarrow> g c = Some (concat (map m ys))"
    "joined (map f cs) = Some ks" "\<forall>k \<in> set ks. P k"
  shows "joined (map g cs) = Some (concat (map m ks))"
  using assms
proof (induction cs arbitrary: ks)
  case Nil
  then show ?case by simp
next
  case (Cons c cs)
  then obtain ys r where y: "f c = Some ys" "joined (map f cs) = Some r" "ks = ys @ r"
    by (auto split: option.splits)
  have "g c = Some (concat (map m ys))" by (rule Cons.prems(1)) (use Cons.prems(3) y in simp_all)
  moreover have "joined (map g cs) = Some (concat (map m r))"
    by (rule Cons.IH [OF _ y(2)]) (use Cons.prems(1,3) y(3) in simp_all)
  ultimately show ?case by (simp add: y(3))
qed

lemma switching_raw: "plain_tag_name nm \<Longrightarrow> \<not> serializes_raw nm b"
  by (auto simp: plain_tag_name_def serializes_raw_def switching_def)

text \<open>The serialiser writes the markup of the node's tokens.\<close>

lemma write_node_tokens:
  assumes "template_contents D = []"
  shows "node_tokens D n h = Some ks \<Longrightarrow> \<forall>k \<in> set ks. plain_token k \<Longrightarrow>
    write_node no_shadow D n False h = Some (concat (map token_markup ks))"
proof (induction n arbitrary: h ks)
  case 0
  then show ?case by simp
next
  case (Suc n)
  have kids: "joined (map (write_node no_shadow D n False) (children D h)) = Some (concat (map token_markup js))"
    if "joined (map (node_tokens D n) (children D h)) = Some js" "\<forall>k \<in> set js. plain_token k" for js
    by (rule joined_related [OF Suc.IH that(1), where P = plain_token]) (use that(2) in simp_all)
  show ?case
  proof (cases "case kind D h of Inl _ \<Rightarrow> Element | Inr k \<Rightarrow> k")
    case Element
    show ?thesis
    proof (cases "element_ns D h = Html \<and> serializes_as_void (qualified_name D h)")
      case True
      with Suc.prems Element show ?thesis by (auto simp: start_token_markup)
    next
      case False
      with Suc.prems(1) Element obtain js where js: "joined (map (node_tokens D n) (children D h)) = Some js"
        and ks: "ks = start_token D h # js @ [(blank End_tag)\<lparr>tok_name := qualified_name D h\<rparr>]"
        by (auto split: option.splits)
      have "plain_tag_name (qualified_name D h)"
        using Suc.prems(2) by (simp add: ks plain_token_def blank_def start_token_def)
      then have raw: "\<not> serializes_raw (qualified_name D h) b" for b by (rule switching_raw)
      have "joined (map (write_node no_shadow D n False) (children D h)) = Some (concat (map token_markup js))"
        by (rule kids [OF js]) (use Suc.prems(2) in \<open>simp add: ks\<close>)
      with Element False raw show ?thesis
        by (simp add: ks start_token_markup token_markups children_of_plain [OF assms] end_tag_markup_def Let_def)
    qed
  qed (use Suc.prems kids in \<open>auto simp: token_markups\<close>)
qed

lemma joined_None: "joined (map f xs) = None \<longleftrightarrow> (\<exists>x \<in> set xs. f x = None)"
  by (induction xs) (auto split: option.splits)

lemma node_tokens_None:
  assumes "template_contents D = []"
  shows "node_tokens D n h = None \<longleftrightarrow> write_node no_shadow D n raw h = None"
proof (induction n arbitrary: h raw)
  case 0
  then show ?case by simp
next
  case (Suc n)
  have "joined (map (node_tokens D n) (children D h)) = None \<longleftrightarrow> joined (map (write_node no_shadow D n r) (children D h)) = None" for r
    using Suc.IH by (simp add: joined_None)
  then have kids: "joined (map (node_tokens D n) (children D h)) = None
      \<longleftrightarrow> joined (map (write_node no_shadow D n r) (children D h)) = None" for r .
  have four: "joined [Some a, Some b, x, Some d] = None \<longleftrightarrow> x = None" "joined [Some a', x', Some d'] = None \<longleftrightarrow> x' = None"
    for a b d x and a' d' :: "token list" and x'
    by (auto split: option.split)
  show ?case
  proof (cases "case kind D h of Inl _ \<Rightarrow> Element | Inr k \<Rightarrow> k")
    case Element
    then show ?thesis
      using kids by (simp add: children_of_plain [OF assms] Let_def four del: joined.simps)
  qed (use kids in simp_all)
qed

text \<open>A comment that the tokenizer does not end where HTML does: after \<^verbatim>\<open><!--\<close> inside a comment and one
  more hyphen, the text \<^verbatim>\<open>--!>\<close> is kept as data. HTML reprocesses the hyphen in the comment end state, from
  which the exclamation mark leads to the comment end bang state and the comment ends.\<close>

lemma nested_comment_bang:
  "comment_state (advance 4 (new_tokenizer ''<!--<!----!>x-->''))
     = ((blank Comment)\<lparr>tok_data := ''<!----!>x''\<rparr>, advance 16 (new_tokenizer ''<!--<!----!>x-->''))"
  by code_simp

section \<open>The round trip\<close>

lemma unescaped_outer: "outer_html D n h = write_node no_shadow D n False h"
  by (simp add: outer_html_def serialize_html_def)

text \<open>C8. Serialising and tokenizing are inverse: for every node of a document tree without template contents
  there is an amount of fuel at which its outer HTML is written, and when every token the node stands for is
  plain (no carriage returns, no NUL in attribute values, lower-case distinct names, comments without double
  hyphens, no element that switches the content model), the tokenizer reads the markup back as exactly those
  tokens, neighbouring texts run together, and then the end of the file, whatever else the tree builder answers.\<close>

theorem serialized_reads_back:
  assumes "tree_ok D" "template_contents D = []" "knows_escapes E" "steady f"
  shows "\<exists>n s ks. outer_html D n h = Some s \<and> node_tokens D n h = Some ks
    \<and> ((\<forall>k \<in> set ks. plain_token k) \<longrightarrow>
        map unspanned (fst (pump E f (length s + 1) (new_tokenizer s))) = merged [] ks @ [end_token])"
proof -
  obtain n where n: "write_node no_shadow D n False h \<noteq> None"
    using write_node_returns [OF assms(1,2), of h] by blast
  then have "node_tokens D n h \<noteq> None" by (simp add: node_tokens_None [OF assms(2), of n h False])
  with n obtain s ks where s: "outer_html D n h = Some s" "node_tokens D n h = Some ks"
    by (auto simp: unescaped_outer)
  have "map unspanned (fst (pump E f (length s + 1) (new_tokenizer s))) = merged [] ks @ [end_token]"
    if "\<forall>k \<in> set ks. plain_token k"
  proof (rule pump_reads [OF assms(3,4) that])
    have "s = concat (map token_markup ks)"
      using write_node_tokens [OF assms(2) s(2) that] s(1) by (simp add: unescaped_outer)
    then show "ready (new_tokenizer s)" "ahead (new_tokenizer s) = concat (map token_markup ks)"
        "length (ahead (new_tokenizer s)) < length s + 1"
      by (simp_all add: ready_def ahead_def new_tokenizer_def)
  qed
  with s show ?thesis by blast
qed

text \<open>A document with one element, \<^verbatim>\<open><p class="a&lt;b">\<close>, and the rows of the entity table it needs.\<close>

definition two_names :: atom_table where
  "two_names = \<lparr>atom_table.storage = [[], ''p'', ''class''], index = [[] \<mapsto> 0, ''p'' \<mapsto> 1, ''class'' \<mapsto> 2]\<rparr>"

definition one_paragraph :: document where
  "one_paragraph = edit_node (node_at 1) (\<lambda>n. n\<lparr>n_attributes := [\<lparr>a_name = 2, a_ns = 0, a_value = ''a<b''\<rparr>]\<rparr>)
     (fst (create_element 1 Html False (new_document two_names)))"

definition five_entities :: "entity_ref list" where
  "five_entities = map (\<lambda>(nm, cp). \<lparr>ent_name = nm, ent_first = cp, ent_second = 0\<rparr>)
     [(''amp'', 0x26), (''gt'', 0x3E), (''lt'', 0x3C), (''nbsp'', 0xA0), (''quot'', 0x22)]"

lemma one_paragraph_facts:
  "find_node one_paragraph (node_at 1) = Some ((new_node Element 1 Html False)\<lparr>n_attributes := [\<lparr>a_name = 2, a_ns = 0, a_value = ''a<b''\<rparr>]\<rparr>)"
  "template_contents one_paragraph = []" "atom_table.storage (atoms one_paragraph) = [[], ''p'', ''class'']"
  by (simp_all add: one_paragraph_def two_names_def edit_node_def find_node_def slab_lookup_def slab_get_def slab_put_def handle_bool_def dom_eval One_nat_def)

lemma one_paragraph_ok: "tree_ok one_paragraph"
proof -
  have "tree_ok (fst (create_element 1 Html False (new_document two_names)))"
    by (intro dom_step_ok [OF dom_step.element] new_document_ok) (simp_all add: dom_eval slab_room_def)
  then show ?thesis
    unfolding one_paragraph_def by (rule same_shape_ok [OF same_shape_edit, rotated 2]) simp_all
qed

theorem serialized_reads_back_witness:
  "\<exists>n s. outer_html one_paragraph n (node_at 1) = Some s
    \<and> map unspanned (fst (pump five_entities (\<lambda>_. (None, False)) (length s + 1) (new_tokenizer s)))
      = [(blank Start_tag)\<lparr>tok_name := ''p'', tok_attributes := [\<lparr>attr_name = ''class'', attr_value = ''a<b''\<rparr>]\<rparr>,
         (blank End_tag)\<lparr>tok_name := ''p''\<rparr>, end_token]"
proof -
  have e: "knows_escapes five_entities" by code_simp
  have f: "steady (\<lambda>_. (None, False))" by (simp add: steady_def)
  from serialized_reads_back [OF one_paragraph_ok one_paragraph_facts(2) e f, of "node_at 1"]
  obtain n s ks where n: "outer_html one_paragraph n (node_at 1) = Some s" "node_tokens one_paragraph n (node_at 1) = Some ks"
    and r: "\<forall>k \<in> set ks. plain_token k \<Longrightarrow> map unspanned (fst (pump five_entities (\<lambda>_. (None, False)) (length s + 1) (new_tokenizer s)))
      = merged [] ks @ [end_token]" by blast
  have "ks = [(blank Start_tag)\<lparr>tok_name := ''p'', tok_attributes := [\<lparr>attr_name = ''class'', attr_value = ''a<b''\<rparr>]\<rparr>,
         (blank End_tag)\<lparr>tok_name := ''p''\<rparr>]"
    using n(2) one_paragraph_facts
    by (cases n) (simp_all add: kind_def children_def start_token_def qualified_name_def tag_def atom_text_def Dom.attributes_def
      attribute_serialized_name_def attribute_local_name_def new_node_def element_ns_def serializes_as_void_def is_void_element_def
      One_nat_def)
  moreover have "is_alpha (CHR ''p'')" "\<forall>c \<in> set ''pclas''. \<not> is_space c \<and> ascii_lower c = c" by code_simp+
  ultimately have "ks = [(blank Start_tag)\<lparr>tok_name := ''p'', tok_attributes := [\<lparr>attr_name = ''class'', attr_value = ''a<b''\<rparr>]\<rparr>,
         (blank End_tag)\<lparr>tok_name := ''p''\<rparr>] \<and> (\<forall>k \<in> set ks. plain_token k)"
    by (simp add: plain_token_def bare_def blank_def plain_tag_name_def plain_attribute_def plain_attribute_name_def switching_def)
  then have ks: "ks = [(blank Start_tag)\<lparr>tok_name := ''p'', tok_attributes := [\<lparr>attr_name = ''class'', attr_value = ''a<b''\<rparr>]\<rparr>,
         (blank End_tag)\<lparr>tok_name := ''p''\<rparr>]" and p: "\<forall>k \<in> set ks. plain_token k" by blast+
  have "merged [] ks = ks" by (simp add: ks blank_def)
  then show ?thesis
    using n(1) r [OF p] unfolding ks by (intro exI conjI) simp_all
qed

end
