(* ===== verification/Json.thy ===== *)
theory Json
  imports Utf16
begin

text \<open>
  The JSON reader and the string quoting of Core (\<^verbatim>\<open>lib/Core/json.cpp\<close>,
  \<^verbatim>\<open>include/ctbrowser/core/json.hpp\<close>). The record \<open>json_reader\<close> has the fields of the struct and every
  method is a definition that takes the reader and returns what the method returns with the reader afterwards.
  A double is a value of an arbitrary type: \<open>fc\<close> stands for \<^verbatim>\<open>std::from_chars\<close> (\<open>None\<close> when it leaves
  its result alone, out of range) and \<open>zero\<close> for \<^verbatim>\<open>0.0\<close>. The recursion through nested values has fuel;
  \<open>parse_enough\<close> shows that twice the length of the text and a little is always enough.
\<close>

declare One_nat_def [simp del] list.size(4) [simp del]

lemma length_Cons_one [simp]: "length (c # s) = 1 + length s"
  by (simp add: One_nat_def list.size)

section \<open>Values and the reader's state\<close>

datatype 'n json_value =
  Null | Bool bool | Number 'n | String string | Array "'n json_value list"
  | Object "(string \<times> 'n json_value) list"

record json_reader =
  input :: string
  at :: nat
  ok :: bool
  depth :: nat

definition max_depth :: nat where
  "max_depth = 1000"

definition new_reader :: "string \<Rightarrow> json_reader" where
  "new_reader s = \<lparr>input = s, at = 0, ok = True, depth = 0\<rparr>"

definition json_space :: "char \<Rightarrow> bool" where
  "json_space c \<longleftrightarrow> c = CHR '' '' \<or> c = chr 9 \<or> c = chr 10 \<or> c = chr 13"

definition json_digit :: "char \<Rightarrow> bool" where
  "json_digit c \<longleftrightarrow> between (CHR ''0'') c (CHR ''9'')"

text \<open>Whether the next character satisfies \<open>P\<close>, and the move past a run or a number of characters.\<close>

definition sees :: "(char \<Rightarrow> bool) \<Rightarrow> json_reader \<Rightarrow> bool" where
  "sees P r \<longleftrightarrow> at r < length (input r) \<and> P (input r ! at r)"

definition move :: "nat \<Rightarrow> json_reader \<Rightarrow> json_reader" where
  "move n r = r\<lparr>at := at r + n\<rparr>"

definition move_while :: "(char \<Rightarrow> bool) \<Rightarrow> json_reader \<Rightarrow> json_reader" where
  "move_while P r = move (length (takeWhile P (drop (at r) (input r)))) r"

definition skip :: "json_reader \<Rightarrow> json_reader" where
  "skip r = move_while json_space r"

definition fail :: "json_reader \<Rightarrow> json_reader" where
  "fail r = r\<lparr>ok := False\<rparr>"

definition eat :: "char \<Rightarrow> json_reader \<Rightarrow> bool \<times> json_reader" where
  "eat c r = (if sees (\<lambda>d. d = c) r then (True, move 1 r) else (False, fail r))"

definition reads_word :: "string \<Rightarrow> json_reader \<Rightarrow> bool" where
  "reads_word w r \<longleftrightarrow> substr (input r) (at r) (length w) = w"

section \<open>Strings\<close>

definition read_hex4 :: "json_reader \<Rightarrow> nat option \<times> json_reader" where
  "read_hex4 r =
     (let digits = map hex_value (substr (input r) (at r) 4) in
      if at r + 4 > length (input r) \<or> (\<exists>d \<in> set digits. d < 0) then (None, r)
      else (Some (foldl (\<lambda>code d. code * 16 + nat d) 0 digits), move 4 r))"

definition high_surrogate :: "nat \<Rightarrow> bool" where
  "high_surrogate u \<longleftrightarrow> 0xD800 \<le> u \<and> u \<le> 0xDBFF"

definition low_surrogate :: "nat \<Rightarrow> bool" where
  "low_surrogate u \<longleftrightarrow> 0xDC00 \<le> u \<and> u \<le> 0xDFFF"

definition paired :: "nat \<Rightarrow> nat \<Rightarrow> code_point" where
  "paired u v = 0x10000 + (u - 0xD800) * 1024 + (v - 0xDC00)"

text \<open>The rest of an escape after \<^verbatim>\<open>\u\<close>: a high surrogate takes the low one that may follow.\<close>

definition unicode_escape :: "json_reader \<Rightarrow> string option \<times> json_reader" where
  "unicode_escape r =
     (case read_hex4 r of
        (None, r) \<Rightarrow> (None, fail r)
      | (Some code, r) \<Rightarrow>
          if high_surrogate code \<and> substr (input r) (at r) 2 = [CHR 0x5C, CHR ''u'']
          then case read_hex4 (move 2 r) of
              (Some low, r') \<Rightarrow> if low_surrogate low then (Some (utf8 (paired code low)), r') else (Some (utf8 code), r)
            | (None, _) \<Rightarrow> (Some (utf8 code), r)
          else (Some (utf8 code), r))"

definition short_escapes :: "(char \<times> char) list" where
  "short_escapes = [(CHR 0x22, CHR 0x22), (CHR 0x5C, CHR 0x5C), (CHR ''/'', CHR ''/''), (CHR ''b'', chr 8),
     (CHR ''f'', chr 12), (CHR ''n'', chr 10), (CHR ''r'', chr 13), (CHR ''t'', chr 9)]"

text \<open>An escape, its backslash passed: what it stands for, or a failure.\<close>

definition escape :: "json_reader \<Rightarrow> string option \<times> json_reader" where
  "escape r =
     (if at r \<ge> length (input r) then (None, fail r)
      else let e = input r ! at r; r = move 1 r in
        case map_of short_escapes e of
          Some c \<Rightarrow> (Some [c], r)
        | None \<Rightarrow> if e = CHR ''u'' then unicode_escape r else (None, fail r))"

lemma move_simps [simp]:
  "input (move n r) = input r" "at (move n r) = at r + n" "ok (move n r) = ok r" "depth (move n r) = depth r"
  "input (fail r) = input r" "at (fail r) = at r" "ok (fail r) = False" "depth (fail r) = depth r"
  "move a (move b r) = move (b + a) r"
  by (simp_all add: move_def fail_def add.assoc)

lemma read_hex4_cases:
  "read_hex4 r = (None, r) \<or> (\<exists>u. read_hex4 r = (Some u, move 4 r) \<and> at r + 4 \<le> length (input r))"
  by (auto simp: read_hex4_def Let_def not_le)

text \<open>Going on in the input: what every method leaves.\<close>

definition forward :: "json_reader \<Rightarrow> json_reader \<Rightarrow> bool" where
  "forward r r' \<longleftrightarrow> input r' = input r \<and> at r \<le> at r' \<and> at r' \<le> length (input r)
     \<and> (ok r' \<longrightarrow> ok r \<and> depth r' = depth r)"

lemma forwardD:
  "forward r r' \<Longrightarrow> input r' = input r" "forward r r' \<Longrightarrow> ok r' \<Longrightarrow> depth r' = depth r" "forward r r' \<Longrightarrow> at r \<le> at r'"
  "forward r r' \<Longrightarrow> at r' \<le> length (input r)" "forward r r' \<Longrightarrow> ok r' \<Longrightarrow> ok r"
  by (simp_all add: forward_def)

lemma forward_inside: "forward r r' \<Longrightarrow> at r' \<le> length (input r')"
  by (simp add: forward_def)

lemma forward_trans: "forward r r1 \<Longrightarrow> forward r1 r2 \<Longrightarrow> forward r r2"
  by (auto simp: forward_def)

lemma forward_move: "at r + n \<le> length (input r) \<Longrightarrow> forward r (move n r)"
  by (simp add: forward_def)

lemma forward_fail: "forward r r' \<Longrightarrow> forward r (fail r')"
  by (simp add: forward_def)

lemma forward_refl: "at r \<le> length (input r) \<Longrightarrow> forward r r"
  by (simp add: forward_def)

lemma unicode_escape_forward:
  assumes "at r \<le> length (input r)"
  shows "forward r (snd (unicode_escape r))"
proof -
  consider "read_hex4 r = (None, r)" | u where "read_hex4 r = (Some u, move 4 r)" "at r + 4 \<le> length (input r)"
    using read_hex4_cases by blast
  then show ?thesis
  proof cases
    case 1
    then show ?thesis using assms by (simp add: unicode_escape_def forward_def)
  next
    case 2
    then show ?thesis
      using read_hex4_cases [of "move 2 (move 4 r)"] by (auto simp: unicode_escape_def forward_def split: option.split if_splits)
  qed
qed

lemma escape_forward: "at r \<le> length (input r) \<Longrightarrow> forward r (snd (escape r))"
  using unicode_escape_forward [of "move 1 r"] by (auto simp: escape_def Let_def forward_def split: option.split)

function string_loop :: "json_reader \<Rightarrow> string \<Rightarrow> bool \<times> string \<times> json_reader" where
  "string_loop r out =
     (if \<not> sees (\<lambda>c. c \<noteq> CHR 0x22) r then (True, out, r)
      else let c = input r ! at r in
        if byte c < 0x20 then (False, out, fail r)
        else if c \<noteq> CHR 0x5C then string_loop (move 1 r) (out @ [c])
        else case fst (escape (move 1 r)) of
            None \<Rightarrow> (False, out, snd (escape (move 1 r)))
          | Some s \<Rightarrow> string_loop (snd (escape (move 1 r))) (out @ s))"
  by pat_completeness auto
termination
proof (relation "measure (\<lambda>(r, out). length (input r) - at r)", goal_cases)
  case (3 r out c s)
  then have "at r < length (input r)" by (simp add: sees_def)
  then show ?case using escape_forward [of "move 1 r"] by (auto simp: forward_def)
qed (auto simp: sees_def)

declare string_loop.simps [simp del]

definition parse_string :: "json_reader \<Rightarrow> bool \<times> string \<times> json_reader" where
  "parse_string r =
     (let (opened, r) = eat (CHR 0x22) r in
      if \<not> opened then (False, [], r)
      else let (fine, out, r) = string_loop r [] in
        if \<not> fine then (False, out, r)
        else let (closed, r) = eat (CHR 0x22) r in (closed, out, r))"

section \<open>Numbers\<close>

text \<open>A part of a number that needs a digit: the digits passed, or a failure.\<close>

definition some_digits :: "json_reader \<Rightarrow> bool \<times> json_reader" where
  "some_digits r = (if sees json_digit r then (True, move_while json_digit r) else (False, fail r))"

definition number_whole :: "json_reader \<Rightarrow> bool \<times> json_reader" where
  "number_whole r =
     (let r = (if sees (\<lambda>c. c = CHR ''-'') r then move 1 r else r) in
      if sees (\<lambda>c. c = CHR ''0'') r then (True, move 1 r) else some_digits r)"

definition number_fraction :: "json_reader \<Rightarrow> bool \<times> json_reader" where
  "number_fraction r = (if sees (\<lambda>c. c = CHR ''.'') r then some_digits (move 1 r) else (True, r))"

definition number_exponent :: "json_reader \<Rightarrow> bool \<times> json_reader" where
  "number_exponent r =
     (if sees (\<lambda>c. c = CHR ''e'' \<or> c = CHR ''E'') r
      then let r = move 1 r in
        some_digits (if sees (\<lambda>c. c = CHR ''+'' \<or> c = CHR ''-'') r then move 1 r else r)
      else (True, r))"

definition parse_number :: "(string \<Rightarrow> 'n option) \<Rightarrow> 'n \<Rightarrow> json_reader \<Rightarrow> 'n json_value \<times> json_reader" where
  "parse_number fc zero r =
     (let start = at r; (fine, r) = number_whole r in
      if \<not> fine then (Null, r)
      else let (fine, r) = number_fraction r in
        if \<not> fine then (Null, r)
        else let (fine, r) = number_exponent r in
          if \<not> fine then (Null, r)
          else let digits = substr (input r) start (at r - start) in
            (Number (case fc digits of Some d \<Rightarrow> d | None \<Rightarrow> zero), r))"

section \<open>Values\<close>

text \<open>A repeated key keeps its first position and takes the last value.\<close>

fun put_member :: "string \<Rightarrow> 'a \<Rightarrow> (string \<times> 'a) list \<Rightarrow> (string \<times> 'a) list" where
  "put_member k v [] = [(k, v)]"
| "put_member k v ((k', v') # ms) = (if k' = k then (k', v) # ms else (k', v') # put_member k v ms)"

fun parse :: "(string \<Rightarrow> 'n option) \<Rightarrow> 'n \<Rightarrow> nat \<Rightarrow> json_reader \<Rightarrow> ('n json_value \<times> json_reader) option"
  and array_loop :: "(string \<Rightarrow> 'n option) \<Rightarrow> 'n \<Rightarrow> nat \<Rightarrow> json_reader \<Rightarrow> 'n json_value list
    \<Rightarrow> ('n json_value list \<times> json_reader) option"
  and object_loop :: "(string \<Rightarrow> 'n option) \<Rightarrow> 'n \<Rightarrow> nat \<Rightarrow> json_reader \<Rightarrow> (string \<times> 'n json_value) list
    \<Rightarrow> ((string \<times> 'n json_value) list \<times> json_reader) option" where
  "parse fc zero 0 r = None"
| "parse fc zero (Suc n) r =
     (let r = skip r in
      if at r \<ge> length (input r) then Some (Null, fail r)
      else let c = input r ! at r in
        if c = CHR ''{'' \<or> c = CHR ''[''
        then let r = r\<lparr>depth := depth r + 1\<rparr> in
          if depth r > max_depth then Some (Null, fail r)
          else let r = skip (move 1 r) in
            (if c = CHR ''{''
             then if sees (\<lambda>d. d = CHR ''}'') r then Some (Object [], (move 1 r)\<lparr>depth := depth r - 1\<rparr>)
               else map_option (\<lambda>(ms, r). (Object ms, r\<lparr>depth := depth r - 1\<rparr>)) (object_loop fc zero n r [])
             else if sees (\<lambda>d. d = CHR '']'') r then Some (Array [], (move 1 r)\<lparr>depth := depth r - 1\<rparr>)
               else map_option (\<lambda>(vs, r). (Array vs, r\<lparr>depth := depth r - 1\<rparr>)) (array_loop fc zero n r []))
        else if c = CHR 0x22
        then let (fine, s, r) = parse_string r in Some (if fine then String s else Null, r)
        else if reads_word ''true'' r then Some (Bool True, move 4 r)
        else if reads_word ''false'' r then Some (Bool False, move 5 r)
        else if reads_word ''null'' r then Some (Null, move 4 r)
        else Some (parse_number fc zero r))"
| "array_loop fc zero 0 r vs = None"
| "array_loop fc zero (Suc n) r vs =
     (case parse fc zero n r of
        None \<Rightarrow> None
      | Some (v, r) \<Rightarrow>
          let vs = vs @ [v] in
          if \<not> ok r then Some (vs, r)
          else let r = skip r in
            if sees (\<lambda>d. d = CHR '','') r then array_loop fc zero n (move 1 r) vs
            else Some (vs, snd (eat (CHR '']'') r)))"
| "object_loop fc zero 0 r ms = None"
| "object_loop fc zero (Suc n) r ms =
     (let (fine, key, r) = parse_string (skip r) in
      if \<not> fine then Some (ms, r)
      else let (fine, r) = eat (CHR '':'') (skip r) in
        if \<not> fine then Some (ms, r)
        else case parse fc zero n r of
            None \<Rightarrow> None
          | Some (v, r) \<Rightarrow>
              if \<not> ok r then Some (ms, r)
              else let ms = put_member key v ms; r = skip r in
                if sees (\<lambda>d. d = CHR '','') r then object_loop fc zero n (move 1 r) ms
                else Some (ms, snd (eat (CHR ''}'') r)))"

definition parse_text :: "(string \<Rightarrow> 'n option) \<Rightarrow> 'n \<Rightarrow> nat \<Rightarrow> json_reader \<Rightarrow> (nat + 'n json_value) option" where
  "parse_text fc zero n r =
     map_option (\<lambda>(out, r).
        let r = skip r; r = (if at r \<noteq> length (input r) then fail r else r)
        in if \<not> ok r then Inl (at r) else Inr out) (parse fc zero n r)"

definition parse_json :: "(string \<Rightarrow> 'n option) \<Rightarrow> 'n \<Rightarrow> string \<Rightarrow> nat + 'n json_value" where
  "parse_json fc zero s = the (parse_text fc zero (2 * length s + 2) (new_reader s))"

section \<open>Quoting\<close>

definition hex_digit :: "nat \<Rightarrow> char" where
  "hex_digit n = ''0123456789abcdef'' ! n"

definition quoted_char :: "char \<Rightarrow> string" where
  "quoted_char c =
     (if c = CHR 0x22 then [CHR 0x5C, CHR 0x22]
      else if c = CHR 0x5C then [CHR 0x5C, CHR 0x5C]
      else if c = chr 8 then [CHR 0x5C, CHR ''b'']
      else if c = chr 12 then [CHR 0x5C, CHR ''f'']
      else if c = chr 10 then [CHR 0x5C, CHR ''n'']
      else if c = chr 13 then [CHR 0x5C, CHR ''r'']
      else if c = chr 9 then [CHR 0x5C, CHR ''t'']
      else if byte c < 0x20
      then CHR 0x5C # ''u00'' @ [hex_digit (drop_bit 4 (byte c) AND 0xF), hex_digit (byte c AND 0xF)]
      else [c])"

fun quote_loop :: "string \<Rightarrow> string" where
  "quote_loop (c # d # e # cs) =
     (if byte c = 0xED \<and> byte d \<ge> 0xA0
      then let cp = push_bit 12 (byte c AND 0x0F) OR push_bit 6 (byte d AND 0x3F) OR (byte e AND 0x3F)
        in CHR 0x5C # ''u'' @ [hex_digit (drop_bit 12 cp AND 0xF), hex_digit (drop_bit 8 cp AND 0xF),
             hex_digit (drop_bit 4 cp AND 0xF), hex_digit (cp AND 0xF)] @ quote_loop cs
      else quoted_char c @ quote_loop (d # e # cs))"
| "quote_loop (c # cs) = quoted_char c @ quote_loop cs"
| "quote_loop [] = []"

definition quote_json :: "string \<Rightarrow> string \<Rightarrow> string" where
  "quote_json s out = out @ [CHR 0x22] @ quote_loop s @ [CHR 0x22]"

section \<open>Every method goes on, and enough fuel is enough\<close>

lemma move_while_forward: "at r \<le> length (input r) \<Longrightarrow> forward r (move_while P r)"
proof -
  assume "at r \<le> length (input r)"
  moreover have "length (takeWhile P (drop (at r) (input r))) \<le> length (drop (at r) (input r))"
    by (rule length_takeWhile_le)
  ultimately show ?thesis unfolding move_while_def by (intro forward_move) simp
qed

lemma skip_forward: "at r \<le> length (input r) \<Longrightarrow> forward r (skip r)"
  unfolding skip_def by (rule move_while_forward)

lemma eat_forward: "at r \<le> length (input r) \<Longrightarrow> forward r (snd (eat c r))"
  by (auto simp: eat_def sees_def forward_def)

lemma string_loop_forward: "at r \<le> length (input r) \<Longrightarrow> forward r (snd (snd (string_loop r out)))"
proof (induction r out rule: string_loop.induct)
  case (1 r out)
  define e where "e = escape (move 1 r)"
  show ?case
  proof (cases "sees (\<lambda>c. c \<noteq> CHR 0x22) r")
    case False
    then show ?thesis using 1(3) by (subst string_loop.simps) (simp add: forward_refl)
  next
    case True
    then have l: "at r + 1 \<le> length (input r)" by (simp add: sees_def)
    then have m: "forward r (move 1 r)" by (rule forward_move)
    have f: "forward (move 1 r) (snd e)" unfolding e_def by (rule escape_forward) (use l in simp)
    define c where "c = input r ! at r"
    consider "byte c < 0x20" | "\<not> byte c < 0x20" "c \<noteq> CHR 0x5C" | "\<not> byte c < 0x20" "c = CHR 0x5C" by blast
    then show ?thesis
    proof cases
      case 1
      then show ?thesis
        using True \<open>at r \<le> length (input r)\<close>
        by (subst string_loop.simps) (simp add: c_def [symmetric] forward_refl forward_fail)
    next
      case 2
      have "forward (move 1 r) (snd (snd (string_loop (move 1 r) (out @ [c]))))"
        by (rule 1(1)) (use True 2 l in \<open>simp_all add: c_def\<close>)
      with 2 True show ?thesis
        using forward_trans [OF m] by (subst string_loop.simps) (simp add: c_def [symmetric])
    next
      case 3
      show ?thesis
      proof (cases "fst e")
        case None
        with 3 True show ?thesis
          using forward_trans [OF m f] by (subst string_loop.simps) (simp add: c_def [symmetric] e_def)
      next
        case (Some s)
        have "forward (snd e) (snd (snd (string_loop (snd e) (out @ s))))"
          unfolding e_def
          by (rule 1(2)) (use True 3 Some forwardD(1,4) [OF f] in \<open>simp_all add: c_def e_def\<close>)
        with 3 True Some show ?thesis
          using forward_trans [OF forward_trans [OF m f]] by (subst string_loop.simps) (simp add: c_def [symmetric] e_def)
      qed
    qed
  qed
qed

lemma parse_string_forward:
  assumes "at r \<le> length (input r)"
  shows "forward r (snd (snd (parse_string r)))"
proof -
  define a where "a = eat (CHR 0x22) r"
  define b where "b = string_loop (snd a) []"
  have fa: "forward r (snd a)" unfolding a_def by (rule eat_forward [OF assms])
  then have fb: "forward (snd a) (snd (snd b))"
    unfolding b_def by (intro string_loop_forward) (simp add: forward_def)
  then have fc: "forward (snd (snd b)) (snd (eat (CHR 0x22) (snd (snd b))))"
    by (intro eat_forward) (simp add: forward_def)
  show ?thesis
    using fa forward_trans [OF fa fb] forward_trans [OF forward_trans [OF fa fb] fc]
    unfolding parse_string_def Let_def case_prod_beta a_def [symmetric] b_def [symmetric] by simp
qed

lemma some_digits_forward: "at r \<le> length (input r) \<Longrightarrow> forward r (snd (some_digits r))"
  by (simp add: some_digits_def move_while_forward forward_fail forward_refl)

lemma optional_forward: "at r \<le> length (input r) \<Longrightarrow> forward r (if sees P r then move 1 r else r)"
  by (simp add: sees_def forward_def)

lemma number_forward:
  assumes "at r \<le> length (input r)"
  shows "forward r (snd (number_whole r))" "forward r (snd (number_fraction r))" "forward r (snd (number_exponent r))"
proof -
  define u where "u = (if sees (\<lambda>c. c = CHR ''-'') r then move 1 r else r)"
  have u: "forward r u" unfolding u_def by (rule optional_forward [OF assms])
  note iu = forward_inside [OF u]
  have "forward u (snd (number_whole r))"
    using some_digits_forward [OF iu] optional_forward [OF iu, of "\<lambda>c. c = CHR ''0''"]
    unfolding number_whole_def Let_def u_def [symmetric] by (simp split: if_splits)
  with u show "forward r (snd (number_whole r))" by (rule forward_trans)
  have m: "forward r (move 1 r)" if "sees P r" for P
    using that by (simp add: sees_def forward_def)
  show "forward r (snd (number_fraction r))"
  proof (cases "sees (\<lambda>c. c = CHR ''.'') r")
    case True
    from forward_trans [OF m [OF True] some_digits_forward [OF forward_inside [OF m [OF True]]]] True
    show ?thesis by (simp add: number_fraction_def)
  qed (simp add: number_fraction_def forward_refl [OF assms])
  show "forward r (snd (number_exponent r))"
  proof (cases "sees (\<lambda>c. c = CHR ''e'' \<or> c = CHR ''E'') r")
    case True
    note o = optional_forward [OF forward_inside [OF m [OF True]], of "\<lambda>c. c = CHR ''+'' \<or> c = CHR ''-''"]
    from forward_trans [OF forward_trans [OF m [OF True] o] some_digits_forward [OF forward_inside [OF o]]] True
    show ?thesis unfolding number_exponent_def Let_def by simp
  qed (simp add: number_exponent_def forward_refl [OF assms])
qed

lemma parse_number_forward:
  assumes "at r \<le> length (input r)"
  shows "forward r (snd (parse_number fc zero r))"
proof -
  define a where "a = number_whole r"
  define b where "b = number_fraction (snd a)"
  define c where "c = number_exponent (snd b)"
  have fa: "forward r (snd a)" unfolding a_def by (rule number_forward(1) [OF assms])
  then have fb: "forward (snd a) (snd b)"
    unfolding b_def by (intro number_forward(2)) (simp add: forward_def)
  then have fc: "forward (snd b) (snd c)"
    unfolding c_def by (intro number_forward(3)) (simp add: forward_def)
  show ?thesis
    using fa forward_trans [OF fa fb] forward_trans [OF forward_trans [OF fa fb] fc]
    unfolding parse_number_def Let_def case_prod_beta a_def [symmetric] b_def [symmetric] c_def [symmetric] by simp
qed

text \<open>A method that answers no has failed; one that answers yes has read something.\<close>

lemma some_digits_cases:
  "some_digits r = (False, fail r) \<or> some_digits r = (True, move_while json_digit r) \<and> sees json_digit r"
  by (simp add: some_digits_def)

lemma move_while_at: "at (move_while P r) = at r + length (takeWhile P (drop (at r) (input r)))"
  by (simp add: move_while_def)

lemma some_digits_at: "fst (some_digits r) \<Longrightarrow> at r < at (snd (some_digits r))"
  "\<not> fst (some_digits r) \<Longrightarrow> \<not> ok (snd (some_digits r))"
  by (auto simp: some_digits_def sees_def move_while_at Cons_nth_drop_Suc [symmetric] split: if_splits)

lemma number_whole_at:
  "fst (number_whole r) \<Longrightarrow> at r < at (snd (number_whole r))" "\<not> fst (number_whole r) \<Longrightarrow> \<not> ok (snd (number_whole r))"
proof -
  define u where "u = (if sees (\<lambda>c. c = CHR ''-'') r then move 1 r else r)"
  have "at r \<le> at u" by (simp add: u_def)
  then show "fst (number_whole r) \<Longrightarrow> at r < at (snd (number_whole r))" "\<not> fst (number_whole r) \<Longrightarrow> \<not> ok (snd (number_whole r))"
    using some_digits_at [of u] unfolding number_whole_def Let_def u_def [symmetric] by (auto split: if_splits)
qed

lemma number_rest_at:
  "\<not> fst (number_fraction r) \<Longrightarrow> \<not> ok (snd (number_fraction r))" "\<not> fst (number_exponent r) \<Longrightarrow> \<not> ok (snd (number_exponent r))"
  using some_digits_at(2) by (auto simp: number_fraction_def number_exponent_def Let_def)

lemma parse_number_at:
  assumes "at r \<le> length (input r)" "ok (snd (parse_number fc zero r))"
  shows "at r < at (snd (parse_number fc zero r))"
proof -
  define a where "a = number_whole r"
  define b where "b = number_fraction (snd a)"
  define c where "c = number_exponent (snd b)"
  have fa: "forward r (snd a)" unfolding a_def by (rule number_forward(1) [OF assms(1)])
  have fb: "forward (snd a) (snd b)" unfolding b_def by (rule number_forward(2) [OF forward_inside [OF fa]])
  have fc: "forward (snd b) (snd c)" unfolding c_def by (rule number_forward(3) [OF forward_inside [OF fb]])
  have eq: "snd (parse_number fc zero r) = (if \<not> fst a then snd a else if \<not> fst b then snd b else snd c)"
    by (simp add: parse_number_def Let_def case_prod_beta a_def b_def c_def)
  have "fst a" using assms(2) number_whole_at(2) [of r] by (auto simp: eq a_def split: if_splits)
  then have "at r < at (snd a)" unfolding a_def by (rule number_whole_at(1))
  then show ?thesis using forwardD(3) [OF fb] forwardD(3) [OF fc] by (simp add: eq)
qed

lemma string_loop_step:
  "\<not> sees (\<lambda>c. c \<noteq> CHR 0x22) r \<Longrightarrow> string_loop r out = (True, out, r)"
  "sees (\<lambda>c. c \<noteq> CHR 0x22) r \<Longrightarrow> byte (input r ! at r) < 0x20 \<Longrightarrow> string_loop r out = (False, out, fail r)"
  "sees (\<lambda>c. c \<noteq> CHR 0x22) r \<Longrightarrow> \<not> byte (input r ! at r) < 0x20 \<Longrightarrow> input r ! at r \<noteq> CHR 0x5C \<Longrightarrow>
     string_loop r out = string_loop (move 1 r) (out @ [input r ! at r])"
  "sees (\<lambda>c. c \<noteq> CHR 0x22) r \<Longrightarrow> input r ! at r = CHR 0x5C \<Longrightarrow> escape (move 1 r) = (None, u) \<Longrightarrow>
     string_loop r out = (False, out, u)"
  "sees (\<lambda>c. c \<noteq> CHR 0x22) r \<Longrightarrow> input r ! at r = CHR 0x5C \<Longrightarrow> escape (move 1 r) = (Some s, u) \<Longrightarrow>
     string_loop r out = string_loop u (out @ s)"
  by (subst string_loop.simps; simp)+

lemma escape_fails: "escape u = (None, v) \<Longrightarrow> \<not> ok v"
  by (auto simp: escape_def unicode_escape_def Let_def split: option.splits if_splits prod.splits)

lemma string_loop_fails: "\<not> fst (string_loop r out) \<Longrightarrow> \<not> ok (snd (snd (string_loop r out)))"
proof (induction r out rule: string_loop.induct)
  case (1 r out)
  let ?c = "input r ! at r"
  show ?case
  proof (cases "sees (\<lambda>c. c \<noteq> CHR 0x22) r")
    case False
    then show ?thesis using 1(3) by (simp add: string_loop_step(1))
  next
    case True
    consider "byte ?c < 0x20" | "\<not> byte ?c < 0x20" "?c \<noteq> CHR 0x5C"
      | u where "?c = CHR 0x5C" "escape (move 1 r) = (None, u)" | s u where "?c = CHR 0x5C" "escape (move 1 r) = (Some s, u)"
      by (cases "escape (move 1 r)"; cases "fst (escape (move 1 r))") auto
    then show ?thesis
    proof cases
      case 1
      then show ?thesis by (simp add: string_loop_step(2) [OF True])
    next
      case 2
      then show ?thesis using 1(1) [OF _ refl] 1(3) True by (simp add: string_loop_step(3) [OF True])
    next
      case 3
      then show ?thesis by (simp add: string_loop_step(4) [OF True] escape_fails)
    next
      case 4
      then show ?thesis using 1(2) [OF _ refl] 1(3) True by (simp add: string_loop_step(5) [OF True])
    qed
  qed
qed

lemma parse_string_at:
  assumes "at r \<le> length (input r)"
  shows "fst (parse_string r) \<Longrightarrow> at r < at (snd (snd (parse_string r)))"
    "\<not> fst (parse_string r) \<Longrightarrow> \<not> ok (snd (snd (parse_string r)))"
proof -
  define a where "a = eat (CHR 0x22) r"
  define b where "b = string_loop (snd a) []"
  define c where "c = eat (CHR 0x22) (snd (snd b))"
  have fa: "forward r (snd a)" unfolding a_def by (rule eat_forward [OF assms])
  have fb: "forward (snd a) (snd (snd b))" unfolding b_def by (rule string_loop_forward [OF forward_inside [OF fa]])
  have fc: "forward (snd (snd b)) (snd c)" unfolding c_def by (rule eat_forward [OF forward_inside [OF fb]])
  have eq: "parse_string r = (if \<not> fst a then (False, [], snd a) else if \<not> fst b then (False, fst (snd b), snd (snd b))
      else (fst c, fst (snd b), snd c))"
    by (simp add: parse_string_def Let_def case_prod_beta a_def b_def c_def)
  have a: "fst a \<Longrightarrow> at (snd a) = at r + 1" "\<not> fst a \<Longrightarrow> \<not> ok (snd a)" "\<not> fst c \<Longrightarrow> \<not> ok (snd c)"
    by (simp_all add: a_def c_def eat_def split: if_splits)
  show "fst (parse_string r) \<Longrightarrow> at r < at (snd (snd (parse_string r)))"
    using a(1) forwardD(3) [OF fb] forwardD(3) [OF fc] by (auto simp: eq split: if_splits)
  show "\<not> fst (parse_string r) \<Longrightarrow> \<not> ok (snd (snd (parse_string r)))"
    using a(2,3) string_loop_fails [of "snd a" "[]"] by (auto simp: eq b_def split: if_splits)
qed

lemma reads_word_inside: "reads_word w r \<Longrightarrow> w \<noteq> [] \<Longrightarrow> at r + length w \<le> length (input r)"
  by (cases "at r + length w \<le> length (input r)") (auto simp: reads_word_def substr_def min_def dest!: arg_cong [where f = length])

text \<open>Entering and leaving an array or object.\<close>

definition opened :: "json_reader \<Rightarrow> json_reader" where
  "opened r = skip (move 1 (r\<lparr>depth := depth r + 1\<rparr>))"

definition closed :: "json_reader \<Rightarrow> json_reader" where
  "closed r = r\<lparr>depth := depth r - 1\<rparr>"

lemma opened_facts:
  assumes "at r < length (input r)"
  shows "input (opened r) = input r" "at r < at (opened r)" "at (opened r) \<le> length (input r)" "ok (opened r) = ok r"
    "depth (opened r) = depth r + 1"
  using skip_forward [of "move 1 (r\<lparr>depth := depth r + 1\<rparr>)"] assms
  by (simp_all add: opened_def forward_def) (simp add: skip_def move_while_def move_def)+

lemma nested_forward:
  assumes "at r < length (input r)" "forward (opened r) r'"
  shows "forward r (closed r') \<and> at r < at (closed r')"
  using assms opened_facts [OF assms(1)] by (auto simp: forward_def closed_def)

lemma parse_Suc:
  "parse fc zero (Suc n) r =
     (let r = skip r in
      if at r \<ge> length (input r) then Some (Null, fail r)
      else let c = input r ! at r in
        if c = CHR ''{'' \<or> c = CHR ''[''
        then if depth r + 1 > max_depth then Some (Null, fail (r\<lparr>depth := depth r + 1\<rparr>))
          else if c = CHR ''{''
          then if sees (\<lambda>d. d = CHR ''}'') (opened r) then Some (Object [], closed (move 1 (opened r)))
            else map_option (\<lambda>(ms, r). (Object ms, closed r)) (object_loop fc zero n (opened r) [])
          else if sees (\<lambda>d. d = CHR '']'') (opened r) then Some (Array [], closed (move 1 (opened r)))
            else map_option (\<lambda>(vs, r). (Array vs, closed r)) (array_loop fc zero n (opened r) [])
        else if c = CHR 0x22
        then Some (if fst (parse_string r) then String (fst (snd (parse_string r))) else Null, snd (snd (parse_string r)))
        else if reads_word ''true'' r then Some (Bool True, move 4 r)
        else if reads_word ''false'' r then Some (Bool False, move 5 r)
        else if reads_word ''null'' r then Some (Null, move 4 r)
        else Some (parse_number fc zero r))"
  by (simp add: Let_def opened_def closed_def case_prod_beta)

text \<open>The loops, with the pairs taken apart.\<close>

lemma array_loop_Suc:
  "array_loop fc zero (Suc n) r vs =
     (case parse fc zero n r of
        None \<Rightarrow> None
      | Some (v, r) \<Rightarrow>
          if \<not> ok r then Some (vs @ [v], r)
          else if sees (\<lambda>d. d = CHR '','') (skip r) then array_loop fc zero n (move 1 (skip r)) (vs @ [v])
          else Some (vs @ [v], snd (eat (CHR '']'') (skip r))))"
  by (simp add: Let_def split: option.split)

definition member_key :: "json_reader \<Rightarrow> bool \<times> string \<times> json_reader" where
  "member_key r = parse_string (skip r)"

definition member_colon :: "json_reader \<Rightarrow> bool \<times> json_reader" where
  "member_colon r = eat (CHR '':'') (skip (snd (snd (member_key r))))"

lemma object_loop_Suc:
  "object_loop fc zero (Suc n) r ms =
     (if \<not> fst (member_key r) then Some (ms, snd (snd (member_key r)))
      else if \<not> fst (member_colon r) then Some (ms, snd (member_colon r))
      else case parse fc zero n (snd (member_colon r)) of
          None \<Rightarrow> None
        | Some (v, u) \<Rightarrow>
            if \<not> ok u then Some (ms, u)
            else if sees (\<lambda>d. d = CHR '','') (skip u)
            then object_loop fc zero n (move 1 (skip u)) (put_member (fst (snd (member_key r))) v ms)
            else Some (put_member (fst (snd (member_key r))) v ms, snd (eat (CHR ''}'') (skip u))))"
  by (simp add: Let_def case_prod_beta member_key_def member_colon_def split: option.split)

declare parse.simps(2) [simp del] array_loop.simps(2) [simp del] object_loop.simps(2) [simp del]

lemma parse_SucE [consumes 1]:
  assumes "parse fc zero (Suc n) r = Some (v, u)"
  obtains (finished) "at (skip r) \<ge> length (input (skip r))" "u = fail (skip r)"
    | (deep) "at (skip r) < length (input (skip r))" "u = fail ((skip r)\<lparr>depth := depth (skip r) + 1\<rparr>)"
    | (empty_object) "at (skip r) < length (input (skip r))" "input (skip r) ! at (skip r) = CHR ''{''"
        "depth (skip r) + 1 \<le> max_depth" "sees (\<lambda>d. d = CHR ''}'') (opened (skip r))"
        "v = Object []" "u = closed (move 1 (opened (skip r)))"
    | (object) ms w where "at (skip r) < length (input (skip r))" "input (skip r) ! at (skip r) = CHR ''{''"
        "depth (skip r) + 1 \<le> max_depth" "object_loop fc zero n (opened (skip r)) [] = Some (ms, w)"
        "v = Object ms" "u = closed w"
    | (empty_array) "at (skip r) < length (input (skip r))" "input (skip r) ! at (skip r) = CHR ''[''"
        "depth (skip r) + 1 \<le> max_depth" "sees (\<lambda>d. d = CHR '']'') (opened (skip r))"
        "v = Array []" "u = closed (move 1 (opened (skip r)))"
    | (array) vs w where "at (skip r) < length (input (skip r))" "input (skip r) ! at (skip r) = CHR ''[''"
        "depth (skip r) + 1 \<le> max_depth" "array_loop fc zero n (opened (skip r)) [] = Some (vs, w)"
        "v = Array vs" "u = closed w"
    | (string) "at (skip r) < length (input (skip r))"
        "v = (if fst (parse_string (skip r)) then String (fst (snd (parse_string (skip r)))) else Null)"
        "u = snd (snd (parse_string (skip r)))"
    | (true_word) "at (skip r) < length (input (skip r))" "reads_word ''true'' (skip r)" "v = Bool True" "u = move 4 (skip r)"
    | (false_word) "at (skip r) < length (input (skip r))" "reads_word ''false'' (skip r)" "v = Bool False" "u = move 5 (skip r)"
    | (null_word) "at (skip r) < length (input (skip r))" "reads_word ''null'' (skip r)" "v = Null" "u = move 4 (skip r)"
    | (number) "at (skip r) < length (input (skip r))" "(v, u) = parse_number fc zero (skip r)"
proof -
  define s where "s = skip r"
  define c where "c = input s ! at s"
  have p: "parse fc zero (Suc n) r =
     (if at s \<ge> length (input s) then Some (Null, fail s)
      else if c = CHR ''{'' \<or> c = CHR ''[''
        then if depth s + 1 > max_depth then Some (Null, fail (s\<lparr>depth := depth s + 1\<rparr>))
          else if c = CHR ''{''
          then if sees (\<lambda>d. d = CHR ''}'') (opened s) then Some (Object [], closed (move 1 (opened s)))
            else map_option (\<lambda>(ms, r). (Object ms, closed r)) (object_loop fc zero n (opened s) [])
          else if sees (\<lambda>d. d = CHR '']'') (opened s) then Some (Array [], closed (move 1 (opened s)))
            else map_option (\<lambda>(vs, r). (Array vs, closed r)) (array_loop fc zero n (opened s) [])
        else if c = CHR 0x22
        then Some (if fst (parse_string s) then String (fst (snd (parse_string s))) else Null, snd (snd (parse_string s)))
        else if reads_word ''true'' s then Some (Bool True, move 4 s)
        else if reads_word ''false'' s then Some (Bool False, move 5 s)
        else if reads_word ''null'' s then Some (Null, move 4 s)
        else Some (parse_number fc zero s))"
    by (simp add: parse_Suc Let_def s_def c_def)
  note cases = that [folded s_def, folded c_def]
  show thesis
  proof (cases "at s \<ge> length (input s)")
    case True
    then show ?thesis using assms p cases(1) by simp
  next
    case l: False
    then have l': "at s < length (input s)" by simp
    consider "c = CHR ''{''" | "c = CHR ''[''" | "c \<noteq> CHR ''{''" "c \<noteq> CHR ''[''" by blast
    then show ?thesis
    proof cases
      case 1
      show ?thesis
      proof (cases "depth s + 1 > max_depth")
        case True
        then show ?thesis using assms p l 1 cases(2) [OF l'] by simp
      next
        case d: False
        then show ?thesis
          using assms p l 1 cases(3,4) [OF l' 1] by (auto split: if_splits)
      qed
    next
      case 2
      show ?thesis
      proof (cases "depth s + 1 > max_depth")
        case True
        then show ?thesis using assms p l 2 cases(2) [OF l'] by simp
      next
        case d: False
        then show ?thesis
          using assms p l 2 cases(5,6) [OF l' 2] by (auto split: if_splits)
      qed
    next
      case 3
      then show ?thesis
        using assms p l cases(7-11) [OF l'] by (auto split: if_splits)
    qed
  qed
qed

lemma member_forward:
  assumes "at r \<le> length (input r)"
  shows "forward r (snd (snd (member_key r)))" "forward r (snd (member_colon r))"
    "fst (member_colon r) \<Longrightarrow> at r < at (snd (member_colon r))"
    "\<not> fst (member_key r) \<Longrightarrow> \<not> ok (snd (snd (member_key r)))" "\<not> fst (member_colon r) \<Longrightarrow> \<not> ok (snd (member_colon r))"
proof -
  note a = skip_forward [OF assms]
  note b = parse_string_forward [OF forward_inside [OF a]]
  show k: "forward r (snd (snd (member_key r)))" using forward_trans [OF a b] by (simp add: member_key_def)
  note c = skip_forward [OF forward_inside [OF k]]
  note d = eat_forward [OF forward_inside [OF c], of "CHR '':''"]
  show "forward r (snd (member_colon r))" using forward_trans [OF forward_trans [OF k c] d] by (simp add: member_colon_def)
  show "fst (member_colon r) \<Longrightarrow> at r < at (snd (member_colon r))"
    using forwardD(3) [OF k] forwardD(3) [OF c] by (auto simp: member_colon_def eat_def split: if_splits)
  show "\<not> fst (member_key r) \<Longrightarrow> \<not> ok (snd (snd (member_key r)))"
    using parse_string_at(2) [OF forward_inside [OF a]] by (simp add: member_key_def)
  show "\<not> fst (member_colon r) \<Longrightarrow> \<not> ok (snd (member_colon r))" by (auto simp: member_colon_def eat_def split: if_splits)
qed

lemma next_item_forward:
  assumes "forward r u" "ok u \<Longrightarrow> at r < at u" "sees P (skip u)"
  shows "forward r (move 1 (skip u))" "at r + 1 \<le> at (move 1 (skip u))"
proof -
  note a = skip_forward [OF forward_inside [OF assms(1)]]
  have "forward (skip u) (move 1 (skip u))" using assms(3) by (simp add: sees_def forward_def)
  with forward_trans [OF forward_trans [OF assms(1) a]] show "forward r (move 1 (skip u))" .
  show "at r + 1 \<le> at (move 1 (skip u))" using forwardD(3) [OF assms(1)] forwardD(3) [OF a] by simp
qed

lemma last_item_forward:
  assumes "forward r u" "at r < at u"
  shows "forward r (snd (eat c (skip u)))" "at r < at (snd (eat c (skip u)))"
proof -
  note a = skip_forward [OF forward_inside [OF assms(1)]]
  note b = eat_forward [OF forward_inside [OF a], of c]
  show "forward r (snd (eat c (skip u)))" by (rule forward_trans [OF forward_trans [OF assms(1) a] b])
  show "at r < at (snd (eat c (skip u)))" using assms(2) forwardD(3) [OF a] forwardD(3) [OF b] by simp
qed

text \<open>The value parser goes on, and a value that is read covers something.\<close>

definition advances :: "json_reader \<Rightarrow> json_reader \<Rightarrow> bool" where
  "advances r u \<longleftrightarrow> forward r u \<and> (ok u \<longrightarrow> at r < at u)"

lemma scalar_advances:
  assumes "at r < length (input r)"
  shows "advances r (snd (snd (parse_string r)))" "advances r (snd (parse_number fc zero r))"
    "reads_word ''true'' r \<Longrightarrow> advances r (move 4 r)" "reads_word ''false'' r \<Longrightarrow> advances r (move 5 r)"
    "reads_word ''null'' r \<Longrightarrow> advances r (move 4 r)"
proof -
  have r: "at r \<le> length (input r)" using assms by simp
  show "advances r (snd (snd (parse_string r)))"
    using parse_string_forward [OF r] parse_string_at [OF r] by (auto simp: advances_def)
  show "advances r (snd (parse_number fc zero r))"
    using parse_number_forward [OF r] parse_number_at [OF r] by (auto simp: advances_def)
  show "reads_word ''true'' r \<Longrightarrow> advances r (move 4 r)" "reads_word ''false'' r \<Longrightarrow> advances r (move 5 r)"
    "reads_word ''null'' r \<Longrightarrow> advances r (move 4 r)"
    using reads_word_inside [of _ r] by (fastforce simp: advances_def forward_def)+
qed

lemma parse_advances:
  "parse fc zero n r = Some (v, u) \<Longrightarrow> at r \<le> length (input r) \<Longrightarrow> advances r u"
  "array_loop fc zero n r vs = Some (ws, u) \<Longrightarrow> at r \<le> length (input r) \<Longrightarrow> advances r u"
  "object_loop fc zero n r ms = Some (ks, u) \<Longrightarrow> at r \<le> length (input r) \<Longrightarrow> advances r u"
proof (induction n arbitrary: r v u vs ws ms ks)
  case 0
  { case 1 then show ?case by simp }
  { case 2 then show ?case by simp }
  { case 3 then show ?case by simp }
next
  case (Suc n)
  { case 1
    define s where "s = skip r"
    have s: "forward r s" unfolding s_def by (rule skip_forward [OF 1(2)])
    have trans: "advances s u \<Longrightarrow> advances r u" for u
      using forward_trans [OF s] forwardD(3) [OF s] by (auto simp: advances_def)
    have nest: "at s < length (input s) \<Longrightarrow> forward (opened s) w \<Longrightarrow> advances s (closed w)" for w
      using nested_forward [of s w] by (simp add: advances_def)
    have inner: "at s < length (input s) \<Longrightarrow> at (opened s) \<le> length (input (opened s))"
      using opened_facts [of s] by simp
    have step: "sees P w \<Longrightarrow> forward w (move 1 w)" for P w
      by (simp add: sees_def forward_def)
    from 1(1) have "advances s u"
    proof (cases rule: parse_SucE)
      case finished note finished = finished [folded s_def]
      show ?thesis using finished  forward_inside [OF s] by (simp add: advances_def forward_def)
    next
      case deep note deep = deep [folded s_def]
      show ?thesis using deep by (simp add: advances_def forward_def)
    next
      case empty_object note empty_object = empty_object [folded s_def]
      show ?thesis using empty_object  nest step by blast
    next
      case (object ms w) note object = object [folded s_def]
      show ?thesis using object  nest Suc(3) [OF object(4) inner [OF object(1)]] by (simp add: advances_def)
    next
      case empty_array note empty_array = empty_array [folded s_def]
      show ?thesis using empty_array  nest step by blast
    next
      case (array vs w) note array = array [folded s_def]
      show ?thesis using array  nest Suc(2) [OF array(4) inner [OF array(1)]] by (simp add: advances_def)
    next
      case number note number = number [folded s_def]
      show ?thesis using number  scalar_advances(2) [of s fc zero] by (metis snd_conv)
    qed (use scalar_advances in \<open>auto simp: s_def\<close>)+
    then show ?case by (rule trans) }
  { case 2
    then obtain v t where t: "parse fc zero n r = Some (v, t)" by (auto simp: array_loop_Suc split: option.splits)
    have a: "advances r t" by (rule Suc(1) [OF t 2(2)])
    then have f: "forward r t" "ok t \<Longrightarrow> at r < at t" by (simp_all add: advances_def)
    show ?case
    proof (cases "ok t \<and> sees (\<lambda>d. d = CHR '','') (skip t)")
      case True
      note n = next_item_forward [OF f, of "\<lambda>d. d = CHR '',''"]
      have "array_loop fc zero n (move 1 (skip t)) (vs @ [v]) = Some (ws, u)"
        using 2(1) t True by (simp add: array_loop_Suc)
      from Suc(2) [OF this forward_inside [OF n(1)]] True have "advances (move 1 (skip t)) u" by simp
      with n True show ?thesis using forward_trans [of r "move 1 (skip t)" u] by (auto simp: advances_def)
    next
      case False
      then have "u = t \<and> \<not> ok t \<or> ok t \<and> u = snd (eat (CHR '']'') (skip t))"
        using 2(1) t by (auto simp: array_loop_Suc split: if_splits)
      then show ?thesis using a last_item_forward [OF f(1)] f(2) by (auto simp: advances_def)
    qed }
  { case 3
    note m = member_forward [OF 3(2)]
    show ?case
    proof (cases "fst (member_key r) \<and> fst (member_colon r)")
      case False
      then have "u = snd (snd (member_key r)) \<and> \<not> ok u \<or> u = snd (member_colon r) \<and> \<not> ok u"
        using 3(1) m(4,5) by (auto simp: object_loop_Suc split: if_splits)
      then show ?thesis using m(1,2) by (auto simp: advances_def)
    next
      case True
      then obtain v t where t: "parse fc zero n (snd (member_colon r)) = Some (v, t)"
        using 3(1) by (auto simp: object_loop_Suc split: option.splits)
      from Suc(1) [OF t forward_inside [OF m(2)]] have "advances (snd (member_colon r)) t" .
      then have f: "forward r t" "ok t \<Longrightarrow> at r < at t"
        using forward_trans [OF m(2)] m(3) True by (auto simp: advances_def)
      show ?thesis
      proof (cases "ok t \<and> sees (\<lambda>d. d = CHR '','') (skip t)")
        case c: True
        note n = next_item_forward [OF f, of "\<lambda>d. d = CHR '',''"]
        have "object_loop fc zero n (move 1 (skip t)) (put_member (fst (snd (member_key r))) v ms) = Some (ks, u)"
          using 3(1) t c True by (simp add: object_loop_Suc)
        from Suc(3) [OF this forward_inside [OF n(1)]] c have "advances (move 1 (skip t)) u" by simp
        with n c show ?thesis using forward_trans [of r "move 1 (skip t)" u] by (auto simp: advances_def)
      next
        case False
        then have "u = t \<and> \<not> ok t \<or> ok t \<and> u = snd (eat (CHR ''}'') (skip t))"
          using 3(1) t True by (auto simp: object_loop_Suc split: if_splits)
        then show ?thesis using f last_item_forward [OF f(1)] by (auto simp: advances_def)
      qed
    qed }
qed


text \<open>Twice what is left of the input, and a step more for a loop, is fuel enough.\<close>

definition left :: "json_reader \<Rightarrow> nat" where
  "left r = length (input r) - at r"

lemma parse_Suc_total:
  assumes "at r \<le> length (input r)" "2 * left r < Suc n"
    "\<And>q. at q \<le> length (input q) \<Longrightarrow> 2 * left q + 1 < n \<Longrightarrow> array_loop fc zero n q [] \<noteq> None"
    "\<And>q. at q \<le> length (input q) \<Longrightarrow> 2 * left q + 1 < n \<Longrightarrow> object_loop fc zero n q [] \<noteq> None"
  shows "parse fc zero (Suc n) r \<noteq> None"
proof -
  define s where "s = skip r"
  have s: "forward r s" unfolding s_def by (rule skip_forward [OF assms(1)])
  have l: "left s \<le> left r" using forwardD(1,3) [OF s] by (simp add: left_def)
  have o: "at (opened s) \<le> length (input (opened s)) \<and> 2 * left (opened s) + 1 < n" if "at s < length (input s)"
    using opened_facts [OF that] that l assms(2) by (simp add: left_def)
  have loops: "array_loop fc zero n (opened s) [] \<noteq> None" "object_loop fc zero n (opened s) [] \<noteq> None"
    if "\<not> at s \<ge> length (input s)"
    using o assms(3,4) that by simp_all
  show ?thesis
  proof (cases "at s \<ge> length (input s)")
    case False
    then obtain vs u ms w where
      "array_loop fc zero n (opened s) [] = Some (vs, u)" "object_loop fc zero n (opened s) [] = Some (ms, w)"
      using loops [OF False] by fastforce
    with False show ?thesis unfolding parse_Suc Let_def s_def [symmetric] by simp
  qed (simp add: parse_Suc Let_def s_def [symmetric])
qed

lemma parse_enough:
  "at r \<le> length (input r) \<Longrightarrow> 2 * left r < n \<Longrightarrow> parse fc zero n r \<noteq> None"
  "at r \<le> length (input r) \<Longrightarrow> 2 * left r + 1 < n \<Longrightarrow> array_loop fc zero n r vs \<noteq> None"
  "at r \<le> length (input r) \<Longrightarrow> 2 * left r + 1 < n \<Longrightarrow> object_loop fc zero n r ms \<noteq> None"
proof (induction n arbitrary: r vs ms)
  case 0
  { case 1 then show ?case by simp }
  { case 2 then show ?case by simp }
  { case 3 then show ?case by simp }
next
  case (Suc n)
  { case 1 then show ?case by (intro parse_Suc_total Suc(2,3)) }
  { case 2
    then obtain v t where t: "parse fc zero n r = Some (v, t)" using Suc(1) [of r] by fastforce
    have "forward r t" "ok t \<Longrightarrow> at r < at t"
      using parse_advances(1) [OF t 2(1)] by (simp_all add: advances_def)
    note n = next_item_forward [OF this, of "\<lambda>d. d = CHR '',''"]
    have "array_loop fc zero n (move 1 (skip t)) (vs @ [v]) \<noteq> None"
      if "ok t" "sees (\<lambda>d. d = CHR '','') (skip t)"
      using n [OF _ that(2)] 2(1,2) forwardD(1,4) [of r "move 1 (skip t)"] by (intro Suc(2)) (auto simp: left_def)
    with t show ?case by (simp add: array_loop_Suc) }
  { case 3
    note m = member_forward [OF 3(1)]
    have "object_loop fc zero (Suc n) r ms \<noteq> None" if c: "fst (member_colon r)"
    proof -
      have "2 * left (snd (member_colon r)) < n"
        using forwardD(1,3) [OF m(2)] 3(2) by (simp add: left_def)
      then obtain v t where t: "parse fc zero n (snd (member_colon r)) = Some (v, t)"
        using Suc(1) [OF forward_inside [OF m(2)]] by fastforce
      from parse_advances(1) [OF t forward_inside [OF m(2)]] have f: "forward r t" "ok t \<Longrightarrow> at r < at t"
        using forward_trans [OF m(2)] m(3) [OF c] by (auto simp: advances_def)
      note n = next_item_forward [OF f, of "\<lambda>d. d = CHR '',''"]
      have "object_loop fc zero n (move 1 (skip t)) ms' \<noteq> None" if "ok t" "sees (\<lambda>d. d = CHR '','') (skip t)" for ms'
        using n [OF _ that(2)] 3(1,2) forwardD(1,4) [of r "move 1 (skip t)"] by (intro Suc(3)) (auto simp: left_def)
      with t show ?thesis by (simp add: object_loop_Suc)
    qed
    then show ?case by (cases "fst (member_colon r)") (simp_all add: object_loop_Suc) }
qed

end
