(* ===== verification/Json_Grammar.thy ===== *)
theory Json_Grammar
  imports Json
begin

text \<open>
  The JSON grammar (ECMA-404, ECMA-262 25.5.1) as inductive relations between a text and what it denotes, and
  the proof that the reader of the theory \<open>Json\<close> accepts exactly that grammar, with values nested at most
  \<open>max_depth\<close> deep. A string is a sequence of pieces: bytes that stand for themselves or are escaped, and
  UTF-16 units written as \<^verbatim>\<open>\uXXXX\<close>, of which a high surrogate and the low one after it are one code point.
\<close>

declare One_nat_def [simp del] list.size(4) [simp del]

section \<open>The grammar\<close>

datatype json_piece = Byte char | Unit nat

definition hex_code :: "string \<Rightarrow> nat" where
  "hex_code ds = foldl (\<lambda>code d. code * 16 + nat (hex_value d)) 0 ds"

definition hex4 :: "string \<Rightarrow> bool" where
  "hex4 ds \<longleftrightarrow> length ds = 4 \<and> (\<forall>d \<in> set ds. 0 \<le> hex_value d)"

inductive piece_text :: "json_piece \<Rightarrow> string \<Rightarrow> bool" where
  plain_piece: "c \<noteq> CHR 0x22 \<Longrightarrow> c \<noteq> CHR 0x5C \<Longrightarrow> \<not> byte c < 0x20 \<Longrightarrow> piece_text (Byte c) [c]"
| short_piece: "map_of short_escapes e = Some c \<Longrightarrow> piece_text (Byte c) [CHR 0x5C, e]"
| unit_piece: "hex4 ds \<Longrightarrow> piece_text (Unit (hex_code ds)) (CHR 0x5C # CHR ''u'' # ds)"

fun meaning :: "json_piece list \<Rightarrow> string" where
  "meaning [] = []"
| "meaning (Byte c # ps) = c # meaning ps"
| "meaning (Unit u # Unit v # ps) =
     (if high_surrogate u \<and> low_surrogate v then utf8 (paired u v) @ meaning ps else utf8 u @ meaning (Unit v # ps))"
| "meaning (Unit u # ps) = utf8 u @ meaning ps"

definition string_text :: "string \<Rightarrow> string \<Rightarrow> bool" where
  "string_text t s \<longleftrightarrow> (\<exists>ps ts. list_all2 piece_text ps ts \<and> t = CHR 0x22 # concat ts @ [CHR 0x22] \<and> s = meaning ps)"

definition digits :: "string \<Rightarrow> bool" where
  "digits t \<longleftrightarrow> t \<noteq> [] \<and> list_all json_digit t"

definition whole_text :: "string \<Rightarrow> bool" where
  "whole_text t \<longleftrightarrow> (\<exists>sign w. t = sign @ w \<and> (sign = [] \<or> sign = ''-'') \<and> (w = ''0'' \<or> digits w \<and> hd w \<noteq> CHR ''0''))"

definition fraction_text :: "string \<Rightarrow> bool" where
  "fraction_text t \<longleftrightarrow> t = [] \<or> (\<exists>ds. t = CHR ''.'' # ds \<and> digits ds)"

definition exponent_text :: "string \<Rightarrow> bool" where
  "exponent_text t \<longleftrightarrow> t = []
     \<or> (\<exists>e sign ds. t = e # sign @ ds \<and> e \<in> {CHR ''e'', CHR ''E''} \<and> sign \<in> {'''', ''+'', ''-''} \<and> digits ds)"

definition number_text :: "string \<Rightarrow> bool" where
  "number_text t \<longleftrightarrow> (\<exists>w f e. t = w @ f @ e \<and> whole_text w \<and> fraction_text f \<and> exponent_text e)"

definition number_of :: "(string \<Rightarrow> 'n option) \<Rightarrow> 'n \<Rightarrow> string \<Rightarrow> 'n" where
  "number_of fc zero t = (case fc t of Some d \<Rightarrow> d | None \<Rightarrow> zero)"

definition blank :: "string \<Rightarrow> bool" where
  "blank w \<longleftrightarrow> list_all json_space w"

definition put_all :: "(string \<times> 'a) list \<Rightarrow> (string \<times> 'a) list \<Rightarrow> (string \<times> 'a) list" where
  "put_all ms xs = foldl (\<lambda>ms (k, v). put_member k v ms) ms xs"

text \<open>The values of a text whose arrays and objects are at most \<open>d\<close> deep.\<close>

inductive derives :: "(string \<Rightarrow> 'n option) \<Rightarrow> 'n \<Rightarrow> nat \<Rightarrow> string \<Rightarrow> 'n json_value \<Rightarrow> bool"
  and elements :: "(string \<Rightarrow> 'n option) \<Rightarrow> 'n \<Rightarrow> nat \<Rightarrow> string \<Rightarrow> 'n json_value list \<Rightarrow> bool"
  and members :: "(string \<Rightarrow> 'n option) \<Rightarrow> 'n \<Rightarrow> nat \<Rightarrow> string \<Rightarrow> (string \<times> 'n json_value) list \<Rightarrow> bool"
  for fc :: "string \<Rightarrow> 'n option" and zero :: 'n where
  derives_null: "derives fc zero d ''null'' Null"
| derives_true: "derives fc zero d ''true'' (Bool True)"
| derives_false: "derives fc zero d ''false'' (Bool False)"
| derives_number: "number_text t \<Longrightarrow> derives fc zero d t (Number (number_of fc zero t))"
| derives_string: "string_text t s \<Longrightarrow> derives fc zero d t (String s)"
| derives_no_elements: "blank w \<Longrightarrow> derives fc zero (Suc d) (CHR ''['' # w @ [CHR '']'']) (Array [])"
| derives_array: "elements fc zero d t vs \<Longrightarrow> derives fc zero (Suc d) (CHR ''['' # t @ [CHR '']'']) (Array vs)"
| derives_no_members: "blank w \<Longrightarrow> derives fc zero (Suc d) (CHR ''{'' # w @ [CHR ''}'']) (Object [])"
| derives_object: "members fc zero d t xs \<Longrightarrow> derives fc zero (Suc d) (CHR ''{'' # t @ [CHR ''}'']) (Object (put_all [] xs))"
| last_element: "blank w \<Longrightarrow> derives fc zero d t v \<Longrightarrow> blank w' \<Longrightarrow> elements fc zero d (w @ t @ w') [v]"
| next_element: "blank w \<Longrightarrow> derives fc zero d t v \<Longrightarrow> blank w' \<Longrightarrow> elements fc zero d es vs \<Longrightarrow>
    elements fc zero d (w @ t @ w' @ CHR '','' # es) (v # vs)"
| last_member: "blank w1 \<Longrightarrow> string_text kt k \<Longrightarrow> blank w2 \<Longrightarrow> blank w \<Longrightarrow> derives fc zero d t v \<Longrightarrow> blank w' \<Longrightarrow>
    members fc zero d (w1 @ kt @ w2 @ CHR '':'' # w @ t @ w') [(k, v)]"
| next_member: "blank w1 \<Longrightarrow> string_text kt k \<Longrightarrow> blank w2 \<Longrightarrow> blank w \<Longrightarrow> derives fc zero d t v \<Longrightarrow> blank w' \<Longrightarrow>
    members fc zero d es xs \<Longrightarrow>
    members fc zero d (w1 @ kt @ w2 @ CHR '':'' # w @ t @ w' @ CHR '','' # es) ((k, v) # xs)"

definition document :: "(string \<Rightarrow> 'n option) \<Rightarrow> 'n \<Rightarrow> string \<Rightarrow> 'n json_value \<Rightarrow> bool" where
  "document fc zero s v \<longleftrightarrow> (\<exists>w t w'. s = w @ t @ w' \<and> blank w \<and> blank w' \<and> derives fc zero max_depth t v)"

section \<open>Reading a text\<close>

definition rest :: "json_reader \<Rightarrow> string" where
  "rest r = drop (at r) (input r)"

definition reads :: "json_reader \<Rightarrow> string \<Rightarrow> json_reader \<Rightarrow> bool" where
  "reads r t u \<longleftrightarrow> u = move (length t) r \<and> rest r = t @ rest u"

lemma left_rest: "left r = length (rest r)"
  by (simp add: left_def rest_def)

lemma move_zero [simp]: "move 0 r = r"
  by (simp add: move_def)

lemma rest_moved: "rest r = t @ z \<Longrightarrow> rest (move (length t) r) = z"
  by (simp add: rest_def) (metis append_eq_conv_conj drop_drop add.commute)

lemma reads_if: "rest r = t @ z \<Longrightarrow> reads r t (move (length t) r)"
  by (simp add: reads_def rest_moved)

lemma reads_trans: "reads r t u \<Longrightarrow> reads u t' w \<Longrightarrow> reads r (t @ t') w"
  by (simp add: reads_def add.commute)

lemma reads_nothing [simp]: "reads r [] r"
  by (simp add: reads_def)

lemma readsD: "reads r t u \<Longrightarrow> u = move (length t) r" "reads r t u \<Longrightarrow> rest r = t @ rest u"
  by (simp_all add: reads_def)

lemma sees_rest: "sees P r \<longleftrightarrow> (\<exists>c z. rest r = c # z \<and> P c)"
proof (cases "at r < length (input r)")
  case True
  then have "rest r = input r ! at r # drop (Suc (at r)) (input r)" by (simp add: rest_def Cons_nth_drop_Suc)
  with True show ?thesis by (simp add: sees_def)
qed (simp add: sees_def rest_def)

lemma rest_Cons:
  assumes "rest r = c # z"
  shows "at r < length (input r)" "input r ! at r = c" "rest (move 1 r) = z" "reads r [c] (move 1 r)"
proof -
  show l: "at r < length (input r)" using assms by (cases "at r < length (input r)") (simp_all add: rest_def)
  then show "input r ! at r = c" using assms by (simp add: rest_def Cons_nth_drop_Suc [symmetric])
  show "rest (move 1 r) = z" "reads r [c] (move 1 r)" using rest_moved [of r "[c]" z] reads_if [of r "[c]" z] assms by simp_all
qed

lemma rest_nil: "rest r = [] \<longleftrightarrow> at r \<ge> length (input r)"
  by (simp add: rest_def)

lemma seen: "sees P r \<Longrightarrow> reads r [input r ! at r] (move 1 r) \<and> P (input r ! at r)"
  unfolding sees_rest using rest_Cons by blast

lemma seen_char: "sees (\<lambda>d. d = c) r \<Longrightarrow> reads r [c] (move 1 r)"
  unfolding sees_rest using rest_Cons(4) by blast

lemma move_while_reads: "reads r (takeWhile P (rest r)) (move_while P r)"
  using reads_if [of r "takeWhile P (rest r)" "dropWhile P (rest r)"] by (simp add: move_while_def rest_def)

lemma move_while_run:
  assumes "rest r = t @ z" "list_all P t" "z = [] \<or> \<not> P (hd z)"
  shows "move_while P r = move (length t) r"
proof -
  have "takeWhile P (t @ z) = t" using assms(2,3) by (cases z) (auto simp: takeWhile_append list_all_iff)
  then show ?thesis using assms(1) by (simp add: move_while_def rest_def)
qed

lemma skip_reads: "\<exists>w. blank w \<and> reads r w (skip r)"
  using move_while_reads [of r json_space] set_takeWhileD
  unfolding skip_def blank_def list_all_iff by metis

lemma skip_run: "rest r = w @ z \<Longrightarrow> blank w \<Longrightarrow> z = [] \<or> \<not> json_space (hd z) \<Longrightarrow> skip r = move (length w) r"
  unfolding skip_def blank_def by (rule move_while_run)

lemma skip_keeps: "ok (skip r) = ok r" "depth (skip r) = depth r"
  by (simp_all add: skip_def move_while_def)

lemma skip_skip: "skip (skip r) = skip r"
proof -
  have "rest (skip r) = dropWhile json_space (rest r)"
    using rest_moved [of r "takeWhile json_space (rest r)" "dropWhile json_space (rest r)"]
      readsD(1) [OF move_while_reads [of r json_space]]
    by (simp add: skip_def)
  then have "rest (skip r) = [] \<or> \<not> json_space (hd (rest (skip r)))" using hd_dropWhile by metis
  from skip_run [of "skip r" "[]", OF _ _ this] show ?thesis by (simp add: blank_def)
qed

lemma eat_here: "rest r = c # z \<Longrightarrow> eat c r = (True, move 1 r)"
  by (simp add: eat_def sees_rest)

lemma eat_reads: "fst (eat c r) \<Longrightarrow> reads r [c] (snd (eat c r))"
  using seen [of "\<lambda>d. d = c" r] by (auto simp: eat_def split: if_splits)

section \<open>Strings\<close>

lemma read_hex4_reads:
  assumes "rest r = ds @ z" "hex4 ds"
  shows "read_hex4 r = (Some (hex_code ds), move 4 r)"
proof -
  from assms have r: "length ds = 4" "substr (input r) (at r) 4 = ds" by (simp_all add: hex4_def rest_def substr_def)
  have "at r + 4 \<le> length (input r)"
    using arg_cong [OF assms(1), of length] r(1) by (simp add: rest_def)
  moreover have "\<not> (\<exists>d \<in> set (map hex_value ds). d < 0)" using assms(2) by (auto simp: hex4_def)
  ultimately show ?thesis by (simp add: read_hex4_def Let_def r(2) hex_code_def foldl_map)
qed

lemma read_hex4_Some:
  assumes "read_hex4 r = (Some x, u)"
  shows "\<exists>ds. hex4 ds \<and> reads r ds u \<and> x = hex_code ds"
proof -
  define ds where "ds = take 4 (rest r)"
  have a: "at r + 4 \<le> length (input r)" "\<not> (\<exists>d \<in> set (map hex_value ds). d < 0)" "u = move 4 r"
    "x = foldl (\<lambda>code d. code * 16 + nat d) 0 (map hex_value ds)"
    using assms by (auto simp: read_hex4_def Let_def ds_def rest_def substr_def split: if_splits)
  then have "hex4 ds" by (auto simp: hex4_def ds_def rest_def not_less)
  moreover have "rest r = ds @ drop 4 (rest r)" by (simp add: ds_def)
  moreover have "length ds = 4" using \<open>hex4 ds\<close> by (simp add: hex4_def)
  ultimately show ?thesis using a(3,4) reads_if [of r ds] by (auto simp: hex_code_def foldl_map)
qed

lemma read_hex4_None: "read_hex4 r = (None, u) \<Longrightarrow> hex4 ds \<Longrightarrow> rest r \<noteq> ds @ z"
  using read_hex4_reads by fastforce

text \<open>Whether a low surrogate is written at the start of a text.\<close>

definition low_ahead :: "string \<Rightarrow> bool" where
  "low_ahead s \<longleftrightarrow> (\<exists>ds z. s = CHR 0x5C # CHR ''u'' # ds @ z \<and> hex4 ds \<and> low_surrogate (hex_code ds))"

lemma substr_rest: "substr (input r) (at r) n = take n (rest r)"
  by (simp add: substr_def rest_def)

lemma unicode_pair:
  assumes "rest r = ds @ CHR 0x5C # CHR ''u'' # ds' @ z" "hex4 ds" "hex4 ds'"
    "high_surrogate (hex_code ds)" "low_surrogate (hex_code ds')"
  shows "unicode_escape r = (Some (utf8 (paired (hex_code ds) (hex_code ds'))), move 10 r)"
proof -
  have l: "length ds = 4" "length ds' = 4" using assms(2,3) by (simp_all add: hex4_def)
  have r1: "rest (move 4 r) = CHR 0x5C # CHR ''u'' # ds' @ z" using rest_moved [OF assms(1)] l by simp
  then have r2: "rest (move 6 r) = ds' @ z" using rest_moved [of "move 4 r" "[CHR 0x5C, CHR ''u'']"] by simp
  have "take 2 (rest (move 4 r)) = [CHR 0x5C, CHR ''u'']" by (simp add: r1)
  then have "substr (input r) (at r + 4) 2 = [CHR 0x5C, CHR ''u'']" by (simp add: substr_rest [of "move 4 r", simplified])
  then show ?thesis
    using read_hex4_reads [OF assms(1,2)] read_hex4_reads [OF r2 assms(3)] assms(4,5)
    by (simp add: unicode_escape_def)
qed

lemma unicode_single:
  assumes "rest r = ds @ z" "hex4 ds" "\<not> (high_surrogate (hex_code ds) \<and> low_ahead z)"
  shows "unicode_escape r = (Some (utf8 (hex_code ds)), move 4 r)"
proof (cases "high_surrogate (hex_code ds) \<and> substr (input r) (at r + 4) 2 = [CHR 0x5C, CHR ''u'']")
  case False
  then show ?thesis using read_hex4_reads [OF assms(1,2)] by (auto simp: unicode_escape_def)
next
  case True
  have l: "length ds = 4" using assms(2) by (simp add: hex4_def)
  have r1: "rest (move 4 r) = z" using rest_moved [OF assms(1)] l by simp
  then have "take 2 z = [CHR 0x5C, CHR ''u'']" using True substr_rest [of "move 4 r" 2] by simp
  then obtain y where z: "z = [CHR 0x5C, CHR ''u''] @ y" by (metis append_take_drop_id)
  then have r2: "rest (move 6 r) = y" using rest_moved [of "move 4 r" "[CHR 0x5C, CHR ''u'']" y] r1 by simp
  have low: "\<not> low_surrogate (hex_code ds')" if "hex4 ds'" "y = ds' @ y'" for ds' y'
    using assms(3) True that unfolding low_ahead_def z by auto
  show ?thesis
  proof (cases "fst (read_hex4 (move 6 r))")
    case None
    then show ?thesis using read_hex4_reads [OF assms(1,2)] True
      by (cases "read_hex4 (move 6 r)") (simp add: unicode_escape_def)
  next
    case (Some x)
    then obtain u where u: "read_hex4 (move 6 r) = (Some x, u)" by (cases "read_hex4 (move 6 r)") simp
    from read_hex4_Some [OF u] r2 low have "\<not> low_surrogate x" by (auto simp: reads_def)
    then show ?thesis using read_hex4_reads [OF assms(1,2)] True u by (simp add: unicode_escape_def)
  qed
qed

text \<open>The pieces of a text: the first piece is written first.\<close>

lemma short_escapes_not_u: "map_of short_escapes e = Some c \<Longrightarrow> e \<noteq> CHR ''u''"
  by (auto simp: short_escapes_def split: if_splits)

lemma piece_text_first: "piece_text p t \<Longrightarrow> \<exists>c z. t = c # z \<and> c \<noteq> CHR 0x22 \<and> \<not> byte c < 0x20"
  by (erule piece_text.cases) simp_all

lemma low_ahead_pieces:
  assumes "list_all2 piece_text ps ts" "low_ahead (concat ts @ CHR 0x22 # z)"
  shows "\<exists>v qs. ps = Unit v # qs \<and> low_surrogate v"
proof (cases ts)
  case Nil
  then show ?thesis using assms(2) by (simp add: low_ahead_def)
next
  case (Cons t us)
  then obtain p qs where ps: "ps = p # qs" "piece_text p t" using assms(1) by (cases ps) auto
  obtain ds y where y: "t @ concat us @ CHR 0x22 # z = CHR 0x5C # CHR ''u'' # ds @ y" "hex4 ds" "low_surrogate (hex_code ds)"
    using assms(2) Cons by (auto simp: low_ahead_def)
  from ps(2) show ?thesis
  proof cases
    case (unit_piece es)
    then have "es @ concat us @ CHR 0x22 # z = ds @ y" "length es = length ds" using y by (simp_all add: hex4_def)
    then have "es = ds" by simp
    with unit_piece ps(1) y(3) show ?thesis by simp
  qed (use y(1) short_escapes_not_u in auto)
qed

lemma pieces_low_ahead:
  "list_all2 piece_text (Unit v # qs) ts \<Longrightarrow> low_surrogate v \<Longrightarrow> low_ahead (concat ts @ z)"
  by (auto simp: list_all2_Cons1 low_ahead_def elim!: piece_text.cases) blast

lemma meaning_single:
  "\<not> (high_surrogate u \<and> (\<exists>v qs. ps = Unit v # qs \<and> low_surrogate v)) \<Longrightarrow> meaning (Unit u # ps) = utf8 u @ meaning ps"
  by (cases ps rule: list.exhaust; cases "hd ps") auto

text \<open>The loop over a string reads the pieces, and whatever it reads is pieces.\<close>

lemma string_loop_reads:
  "list_all2 piece_text ps ts \<Longrightarrow> rest r = concat ts @ CHR 0x22 # z \<Longrightarrow>
     string_loop r out = (True, out @ meaning ps, move (length (concat ts)) r)"
proof (induction "length ps" arbitrary: ps ts r out rule: less_induct)
  case less
  show ?case
  proof (cases ps)
    case Nil
    then have "ts = []" using less(2) by simp
    then have "\<not> sees (\<lambda>c. c \<noteq> CHR 0x22) r" using less(3) by (simp add: sees_rest)
    with Nil \<open>ts = []\<close> show ?thesis by (simp add: string_loop_step(1))
  next
    case (Cons p qs)
    then obtain t us where ts: "ts = t # us" "piece_text p t" "list_all2 piece_text qs us"
      using less(2) by (auto simp: list_all2_Cons1)
    from piece_text_first [OF ts(2)] obtain c t' where c: "t = c # t'" "c \<noteq> CHR 0x22" "\<not> byte c < 0x20" by blast
    then have r: "rest r = c # t' @ concat us @ CHR 0x22 # z" using less(3) ts(1) by simp
    note here = rest_Cons [OF r]
    have sees: "sees (\<lambda>c. c \<noteq> CHR 0x22) r" using c(2) by (simp add: sees_rest r)
    have IH: "string_loop u out' = (True, out' @ meaning qs, move (length (concat us)) u)"
      if "rest u = concat us @ CHR 0x22 # z" for u out'
      using less(1) [OF _ ts(3) that] Cons by (simp add: One_nat_def)
    from ts(2) show ?thesis
    proof cases
      case (plain_piece d)
      then have "string_loop r out = string_loop (move 1 r) (out @ [c])"
        using string_loop_step(3) [OF sees] here(2) c by simp
      also have "\<dots> = (True, (out @ [c]) @ meaning qs, move (length (concat us)) (move 1 r))"
        using plain_piece c(1) here(3) by (intro IH) simp
      finally show ?thesis using Cons ts(1) plain_piece c(1) by simp
    next
      case (short_piece e d)
      have e: "rest (move 1 r) = e # concat us @ CHR 0x22 # z" using here(3) short_piece c(1) by simp
      note there = rest_Cons [OF e]
      have "escape (move 1 r) = (Some [d], move 2 r)"
        using short_piece(3) there(1,2) by (simp add: escape_def not_le)
      then have "string_loop r out = string_loop (move 2 r) (out @ [d])"
        using string_loop_step(5) [OF sees] here(2) c short_piece by simp
      also have "\<dots> = (True, (out @ [d]) @ meaning qs, move (length (concat us)) (move 2 r))"
        using there(3) by (intro IH) simp
      finally show ?thesis using Cons ts(1) short_piece by simp
    next
      case (unit_piece ds)
      have u: "rest (move 1 r) = CHR ''u'' # ds @ concat us @ CHR 0x22 # z" using here(3) unit_piece c(1) by simp
      note there = rest_Cons [OF u]
      have esc: "escape (move 1 r) = unicode_escape (move 2 r)"
        using there(1,2) by (simp add: escape_def not_le short_escapes_def)
      have d: "rest (move 2 r) = ds @ concat us @ CHR 0x22 # z" using there(3) by simp
      show ?thesis
      proof (cases "high_surrogate (hex_code ds) \<and> (\<exists>v rs. qs = Unit v # rs \<and> low_surrogate v)")
        case False
        then have "\<not> (high_surrogate (hex_code ds) \<and> low_ahead (concat us @ CHR 0x22 # z))"
          using low_ahead_pieces [OF ts(3)] by blast
        from unicode_single [OF d unit_piece(3) this]
        have "string_loop r out = string_loop (move 6 r) (out @ utf8 (hex_code ds))"
          using string_loop_step(5) [OF sees] here(2) c unit_piece esc by simp
        also have "\<dots> = (True, (out @ utf8 (hex_code ds)) @ meaning qs, move (length (concat us)) (move 6 r))"
          using rest_moved [OF d] unit_piece(3) by (intro IH) (simp add: hex4_def)
        finally show ?thesis using Cons ts(1) unit_piece meaning_single [OF False] by (simp add: hex4_def)
      next
        case True
        then obtain v rs where v: "high_surrogate (hex_code ds)" "qs = Unit v # rs" "low_surrogate v" by blast
        then obtain t2 vs where t2: "us = t2 # vs" "piece_text (Unit v) t2" "list_all2 piece_text rs vs"
          using ts(3) by (auto simp: list_all2_Cons1)
        then obtain es where es: "t2 = CHR 0x5C # CHR ''u'' # es" "hex4 es" "v = hex_code es"
          by (auto elim: piece_text.cases)
        have d2: "rest (move 2 r) = ds @ CHR 0x5C # CHR ''u'' # es @ concat vs @ CHR 0x22 # z" using d t2(1) es(1) by simp
        have l: "length ds = 4" "length es = 4" using unit_piece(3) es(2) by (simp_all add: hex4_def)
        from unicode_pair [OF d2 unit_piece(3) es(2)] v es(3)
        have "string_loop r out = string_loop (move 12 r) (out @ utf8 (paired (hex_code ds) v))"
          using string_loop_step(5) [OF sees] here(2) c unit_piece esc by simp
        also have "\<dots> = (True, (out @ utf8 (paired (hex_code ds) v)) @ meaning rs, move (length (concat vs)) (move 12 r))"
        proof (rule less(1) [OF _ t2(3)])
          show "rest (move 12 r) = concat vs @ CHR 0x22 # z"
            using rest_moved [of "move 2 r" "ds @ CHR 0x5C # CHR ''u'' # es"] d2 l by simp
        qed (simp add: Cons v(2))
        finally show ?thesis using Cons ts(1) unit_piece v t2(1) es(1) l by simp
      qed
    qed
  qed
qed

lemma unicode_escape_Some:
  assumes "unicode_escape r = (Some s, u)"
  shows "(\<exists>ds. hex4 ds \<and> reads r ds u \<and> s = utf8 (hex_code ds) \<and> \<not> (high_surrogate (hex_code ds) \<and> low_ahead (rest u)))
    \<or> (\<exists>ds es. hex4 ds \<and> hex4 es \<and> reads r (ds @ CHR 0x5C # CHR ''u'' # es) u \<and> high_surrogate (hex_code ds)
        \<and> low_surrogate (hex_code es) \<and> s = utf8 (paired (hex_code ds) (hex_code es)))"
proof -
  obtain x w where w: "read_hex4 r = (Some x, w)"
    using assms by (cases "read_hex4 r"; cases "fst (read_hex4 r)") (auto simp: unicode_escape_def)
  from read_hex4_Some [OF w] obtain ds where ds: "hex4 ds" "reads r ds w" "x = hex_code ds" by blast
  note eq = readsD(2) [OF ds(2)]
  show ?thesis
  proof (cases "high_surrogate (hex_code ds) \<and> low_ahead (rest w)")
    case False
    from unicode_single [OF eq ds(1) False] assms ds have "u = w" "s = utf8 (hex_code ds)"
      by (auto simp: reads_def hex4_def)
    with ds False show ?thesis by blast
  next
    case True
    then obtain es z where es: "rest w = CHR 0x5C # CHR ''u'' # es @ z" "hex4 es" "low_surrogate (hex_code es)"
      by (auto simp: low_ahead_def)
    have r: "rest r = (ds @ CHR 0x5C # CHR ''u'' # es) @ z" using eq es(1) by simp
    have "reads r (ds @ CHR 0x5C # CHR ''u'' # es) (move 10 r)"
      using reads_if [OF r] ds(1) es(2) by (simp add: hex4_def)
    with unicode_pair [of r ds es z] r ds(1) es True assms show ?thesis by auto
  qed
qed

lemma escape_Some:
  assumes "escape r = (Some s, u)"
  shows "(\<exists>e c. map_of short_escapes e = Some c \<and> reads r [e] u \<and> s = [c])
    \<or> (\<exists>w. reads r ''u'' w \<and> unicode_escape w = (Some s, u))"
proof -
  obtain e z where r: "rest r = e # z"
    using assms by (cases "rest r") (auto simp: escape_def rest_nil)
  note here = rest_Cons [OF r]
  show ?thesis
  proof (cases "map_of short_escapes e")
    case (Some c)
    then show ?thesis using assms here by (auto simp: escape_def not_le)
  next
    case None
    then have "e = CHR ''u''" "unicode_escape (move 1 r) = (Some s, u)"
      using assms here(1,2) by (auto simp: escape_def not_le Let_def split: if_splits)
    then show ?thesis using here(4) by blast
  qed
qed

lemma reads_Cons: "rest r = c # z \<Longrightarrow> reads (move 1 r) t u \<Longrightarrow> reads r (c # t) u"
  using reads_trans [OF rest_Cons(4)] by fastforce

lemma string_loop_sound:
  "string_loop r out = (True, s, u) \<Longrightarrow>
     \<exists>ps ts. list_all2 piece_text ps ts \<and> reads r (concat ts) u \<and> s = out @ meaning ps \<and> \<not> sees (\<lambda>c. c \<noteq> CHR 0x22) u"
proof (induction r out rule: string_loop.induct)
  case (1 r out)
  note outer = 1
  let ?c = "input r ! at r"
  show ?case
  proof (cases "sees (\<lambda>c. c \<noteq> CHR 0x22) r")
    case False
    then have "s = out @ meaning []" "u = r" using outer(3) by (simp_all add: string_loop_step(1))
    with False show ?thesis by (intro exI [of _ "[]"]) simp
  next
    case True
    then obtain c z where c: "rest r = c # z" "c \<noteq> CHR 0x22" by (auto simp: sees_rest)
    note here = rest_Cons [OF c(1)]
    consider "byte c < 0x20" | "\<not> byte c < 0x20" "c \<noteq> CHR 0x5C"
      | v where "c = CHR 0x5C" "escape (move 1 r) = (None, v)" | t v where "c = CHR 0x5C" "escape (move 1 r) = (Some t, v)"
      by (cases "escape (move 1 r)"; cases "fst (escape (move 1 r))") auto
    then show ?thesis
    proof cases
      case 1
      then show ?thesis using outer(3) by (simp add: string_loop_step(2) [OF True] here(2))
    next
      case 2
      have "string_loop (move 1 r) (out @ [c]) = (True, s, u)" using outer(3) 2 by (simp add: string_loop_step(3) [OF True] here(2))
      with outer(1) [OF _ refl] True 2 here(2) obtain ps ts where
        "list_all2 piece_text ps ts" "reads (move 1 r) (concat ts) u" "s = out @ c # meaning ps" "\<not> sees (\<lambda>c. c \<noteq> CHR 0x22) u"
        by auto
      then show ?thesis
        using plain_piece [OF c(2) 2(2,1)] reads_Cons [OF c(1)]
        by (intro exI [of _ "Byte c # ps"] exI [of _ "[c] # ts"]) simp
    next
      case 3
      then show ?thesis using outer(3) by (simp add: string_loop_step(4) [OF True] here(2))
    next
      case 4
      have b: "\<not> byte c < 0x20" by (simp add: 4(1))
      have "string_loop v (out @ t) = (True, s, u)" using outer(3) 4 by (simp add: string_loop_step(5) [OF True] here(2))
      with outer(2) [OF _ refl] True 4 b here(2) obtain ps ts where IH:
        "list_all2 piece_text ps ts" "reads v (concat ts) u" "s = out @ t @ meaning ps" "\<not> sees (\<lambda>c. c \<noteq> CHR 0x22) u"
        by auto
      from escape_Some [OF 4(2)] consider
        (short) e d where "map_of short_escapes e = Some d" "reads (move 1 r) [e] v" "t = [d]"
        | (unicode) w where "reads (move 1 r) ''u'' w" "unicode_escape w = (Some t, v)" by blast
      then show ?thesis
      proof cases
        case short
        have "reads r ([c, e] @ concat ts) u"
          using reads_trans [OF reads_Cons [OF c(1) short(2)] IH(2)] by simp
        then show ?thesis
          using short_piece [OF short(1)] IH 4(1) short(3)
          by (intro exI [of _ "Byte d # ps"] exI [of _ "[c, e] # ts"]) simp
      next
        case unicode
        note cu = reads_Cons [OF c(1) unicode(1)]
        from unicode_escape_Some [OF unicode(2)] show ?thesis
        proof (elim disjE exE conjE)
          fix ds
          assume ds: "hex4 ds" "reads w ds v" "t = utf8 (hex_code ds)" "\<not> (high_surrogate (hex_code ds) \<and> low_ahead (rest v))"
          have "rest v = concat ts @ rest u" by (rule readsD(2) [OF IH(2)])
          then have "\<not> (high_surrogate (hex_code ds) \<and> (\<exists>x qs. ps = Unit x # qs \<and> low_surrogate x))"
            using ds(4) pieces_low_ahead [of _ _ ts "rest u"] IH(1) by auto
          note single = meaning_single [OF this]
          have "reads r ((c # CHR ''u'' # ds) @ concat ts) u"
            using reads_trans [OF reads_trans [OF cu ds(2)] IH(2)] by simp
          then show ?thesis
            using unit_piece [OF ds(1)] IH 4(1) ds(3) single
            by (intro exI [of _ "Unit (hex_code ds) # ps"] exI [of _ "(c # CHR ''u'' # ds) # ts"]) simp
        next
          fix ds es
          assume ds: "hex4 ds" "hex4 es" "reads w (ds @ CHR 0x5C # CHR ''u'' # es) v" "high_surrogate (hex_code ds)"
            "low_surrogate (hex_code es)" "t = utf8 (paired (hex_code ds) (hex_code es))"
          have "reads r ((c # CHR ''u'' # ds) @ (CHR 0x5C # CHR ''u'' # es) @ concat ts) u"
            using reads_trans [OF reads_trans [OF cu ds(3)] IH(2)] by simp
          then show ?thesis
            using unit_piece [OF ds(1)] unit_piece [OF ds(2)] IH 4(1) ds(4-6)
            by (intro exI [of _ "Unit (hex_code ds) # Unit (hex_code es) # ps"]
                exI [of _ "(c # CHR ''u'' # ds) # (CHR 0x5C # CHR ''u'' # es) # ts"]) simp
        qed
      qed
    qed
  qed
qed

lemma parse_string_reads:
  assumes "string_text t s" "rest r = t @ z"
  shows "parse_string r = (True, s, move (length t) r)"
proof -
  obtain ps ts where ps: "list_all2 piece_text ps ts" "t = CHR 0x22 # concat ts @ [CHR 0x22]" "s = meaning ps"
    using assms(1) by (auto simp: string_text_def)
  then have r: "rest r = CHR 0x22 # concat ts @ CHR 0x22 # z" using assms(2) by simp
  note m = rest_Cons(3) [OF r]
  note after = rest_moved [OF m]
  show ?thesis
    using eat_here [OF r] eat_here [OF after] string_loop_reads [OF ps(1) m, of "[]"]
    by (simp add: parse_string_def ps add.commute)
qed

lemma parse_string_sound:
  assumes "parse_string r = (True, s, u)"
  shows "\<exists>t. string_text t s \<and> reads r t u"
proof -
  define a where "a = eat (CHR 0x22) r"
  define b where "b = string_loop (snd a) []"
  define c where "c = eat (CHR 0x22) (snd (snd b))"
  have eq: "parse_string r = (if \<not> fst a then (False, [], snd a) else if \<not> fst b then (False, fst (snd b), snd (snd b))
      else (fst c, fst (snd b), snd c))"
    by (simp add: parse_string_def Let_def case_prod_beta a_def b_def c_def)
  then have f: "fst a" "fst b" "fst c" "s = fst (snd b)" "u = snd c" using assms by (auto split: if_splits)
  have "string_loop (snd a) [] = (True, s, snd (snd b))" using f(2,4) by (simp add: b_def prod_eq_iff)
  from string_loop_sound [OF this] obtain ps ts where
    p: "list_all2 piece_text ps ts" "reads (snd a) (concat ts) (snd (snd b))" "s = meaning ps" by auto
  have "reads r [CHR 0x22] (snd a)" "reads (snd (snd b)) [CHR 0x22] u"
    using eat_reads f(1,3,5) by (simp_all add: a_def c_def)
  from reads_trans [OF this(1) reads_trans [OF p(2) this(2)]] p(1,3) show ?thesis
    by (auto simp: string_text_def)
qed

section \<open>Numbers\<close>

definition no_digit :: "string \<Rightarrow> bool" where
  "no_digit z \<longleftrightarrow> z = [] \<or> \<not> json_digit (hd z)"

lemma digit_byte: "json_digit c \<longleftrightarrow> 48 \<le> byte c \<and> byte c \<le> 57"
  by (simp add: json_digit_def between_def)

lemma some_digits_reads:
  assumes "rest r = ds @ z" "digits ds" "no_digit z"
  shows "some_digits r = (True, move (length ds) r)"
proof -
  have "sees json_digit r" using assms(1,2) by (cases ds) (auto simp: sees_rest digits_def)
  then show ?thesis
    using move_while_run [OF assms(1)] assms(2,3) by (simp add: some_digits_def digits_def no_digit_def)
qed

lemma some_digits_sound:
  assumes "some_digits r = (True, u)"
  shows "\<exists>ds. digits ds \<and> reads r ds u"
proof -
  from assms have a: "sees json_digit r" "u = move_while json_digit r" by (auto simp: some_digits_def split: if_splits)
  then have "takeWhile json_digit (rest r) \<noteq> []" by (auto simp: sees_rest)
  then have "digits (takeWhile json_digit (rest r))" by (auto simp: digits_def list_all_iff dest: set_takeWhileD)
  with a(2) move_while_reads show ?thesis by blast
qed

lemma optional_run:
  assumes "rest r = t @ z" "t = [] \<and> (z = [] \<or> \<not> P (hd z)) \<or> (\<exists>c. t = [c] \<and> P c)"
  shows "(if sees P r then move 1 r else r) = move (length t) r"
  using assms by (auto simp: sees_rest)

lemma optional_sound: "\<exists>t. reads r t (if sees P r then move 1 r else r) \<and> (t = [] \<and> \<not> sees P r \<or> (\<exists>c. t = [c] \<and> P c))"
  by (cases "sees P r") (use seen [of P r] in \<open>auto intro: exI [of _ "[]"]\<close>)

lemma number_whole_reads:
  assumes "rest r = t @ z" "whole_text t" "no_digit z"
  shows "number_whole r = (True, move (length t) r)"
proof -
  obtain sign w where t: "t = sign @ w" "sign = [] \<or> sign = ''-''" "w = ''0'' \<or> digits w \<and> hd w \<noteq> CHR ''0''"
    using assms(2) by (auto simp: whole_text_def)
  have r: "rest r = sign @ w @ z" using assms(1) t(1) by simp
  have "w \<noteq> [] \<and> json_digit (hd w)" using t(3) by (cases w) (auto simp: digits_def digit_byte)
  then have "hd (w @ z) \<noteq> CHR ''-''" by (auto simp: digit_byte)
  then have u: "(if sees (\<lambda>c. c = CHR ''-'') r then move 1 r else r) = move (length sign) r"
    using t(2) by (intro optional_run [OF r]) auto
  have r1: "rest (move (length sign) r) = w @ z" by (rule rest_moved [OF r])
  show ?thesis
  proof (cases "w = ''0''")
    case True
    then have "sees (\<lambda>c. c = CHR ''0'') (move (length sign) r)" using r1 by (simp add: sees_rest)
    then show ?thesis unfolding number_whole_def Let_def u using t(1) True by simp
  next
    case False
    with t(3) have d: "digits w" "hd w \<noteq> CHR ''0''" by auto
    then have "\<not> sees (\<lambda>c. c = CHR ''0'') (move (length sign) r)"
      using r1 by (cases w) (auto simp: sees_rest digits_def)
    then show ?thesis unfolding number_whole_def Let_def u
      using some_digits_reads [OF r1 d(1) assms(3)] t(1) by simp
  qed
qed

lemma number_whole_sound:
  assumes "number_whole r = (True, u)"
  shows "\<exists>t. whole_text t \<and> reads r t u"
proof -
  define v where "v = (if sees (\<lambda>c. c = CHR ''-'') r then move 1 r else r)"
  obtain sign where s: "reads r sign v" "sign = [] \<or> sign = ''-''"
    using optional_sound [of r "\<lambda>c. c = CHR ''-''"] unfolding v_def by blast
  have n: "number_whole r = (if sees (\<lambda>c. c = CHR ''0'') v then (True, move 1 v) else some_digits v)"
    by (simp add: number_whole_def v_def Let_def)
  have "\<exists>w. reads v w u \<and> (w = ''0'' \<or> digits w \<and> hd w \<noteq> CHR ''0'')"
  proof (cases "sees (\<lambda>c. c = CHR ''0'') v")
    case True
    then show ?thesis using assms n seen [OF True] by auto
  next
    case False
    then have "some_digits v = (True, u)" using assms n by simp
    from some_digits_sound [OF this] obtain w where w: "digits w" "reads v w u" by blast
    then have "hd w \<noteq> CHR ''0''"
      using False readsD(2) [OF w(2)] by (cases w) (auto simp: sees_rest digits_def)
    with w show ?thesis by blast
  qed
  with s reads_trans [OF s(1)] show ?thesis unfolding whole_text_def by blast
qed

lemma number_fraction_reads:
  assumes "rest r = t @ z" "fraction_text t" "no_digit z" "z = [] \<or> hd z \<noteq> CHR ''.''"
  shows "number_fraction r = (True, move (length t) r)"
proof (cases t)
  case Nil
  then have "\<not> sees (\<lambda>c. c = CHR ''.'') r" using assms(1,4) by (auto simp: sees_rest)
  with Nil show ?thesis by (simp add: number_fraction_def)
next
  case (Cons c ds)
  then have ds: "c = CHR ''.''" "digits ds" using assms(2) by (auto simp: fraction_text_def)
  have r: "rest r = c # ds @ z" using Cons assms(1) by simp
  then have "sees (\<lambda>c. c = CHR ''.'') r" using ds(1) by (simp add: sees_rest)
  with some_digits_reads [OF rest_Cons(3) [OF r] ds(2) assms(3)] Cons show ?thesis
    by (simp add: number_fraction_def)
qed

lemma number_fraction_sound:
  assumes "number_fraction r = (True, u)"
  shows "\<exists>t. fraction_text t \<and> reads r t u"
proof (cases "sees (\<lambda>c. c = CHR ''.'') r")
  case False
  then show ?thesis using assms by (intro exI [of _ "[]"]) (simp add: number_fraction_def fraction_text_def)
next
  case True
  then have "some_digits (move 1 r) = (True, u)" using assms by (simp add: number_fraction_def)
  from some_digits_sound [OF this] obtain ds where ds: "digits ds" "reads (move 1 r) ds u" by blast
  have "reads r ([CHR ''.''] @ ds) u" using seen [OF True] reads_trans [OF _ ds(2)] by fastforce
  with ds(1) show ?thesis by (auto simp: fraction_text_def)
qed

lemma number_exponent_reads:
  assumes "rest r = t @ z" "exponent_text t" "no_digit z" "z = [] \<or> hd z \<noteq> CHR ''e'' \<and> hd z \<noteq> CHR ''E''"
  shows "number_exponent r = (True, move (length t) r)"
proof (cases "t = []")
  case True
  then have "\<not> sees (\<lambda>c. c = CHR ''e'' \<or> c = CHR ''E'') r" using assms(1,4) by (auto simp: sees_rest)
  with True show ?thesis by (simp add: number_exponent_def)
next
  case False
  then obtain e sign ds where t: "t = e # sign @ ds" "e \<in> {CHR ''e'', CHR ''E''}" "sign \<in> {[], ''+'', ''-''}" "digits ds"
    using assms(2) by (auto simp: exponent_text_def)
  have r: "rest r = e # sign @ ds @ z" using assms(1) t(1) by simp
  have sees: "sees (\<lambda>c. c = CHR ''e'' \<or> c = CHR ''E'') r" using t(2) by (auto simp: sees_rest r)
  note r1 = rest_Cons(3) [OF r]
  have "json_digit (hd (ds @ z))" using t(4) by (cases ds) (auto simp: digits_def)
  then have "\<not> (hd (ds @ z) = CHR ''+'' \<or> hd (ds @ z) = CHR ''-'')" by (auto simp: digit_byte)
  then have "(if sees (\<lambda>c. c = CHR ''+'' \<or> c = CHR ''-'') (move 1 r) then move 1 (move 1 r) else move 1 r)
      = move (length sign) (move 1 r)"
    using t(3) by (intro optional_run [OF r1]) auto
  with some_digits_reads [OF rest_moved [OF r1] t(4) assms(3)] sees t(1) show ?thesis
    unfolding number_exponent_def Let_def by (simp add: add.assoc)
qed

lemma number_exponent_sound:
  assumes "number_exponent r = (True, u)"
  shows "\<exists>t. exponent_text t \<and> reads r t u"
proof (cases "sees (\<lambda>c. c = CHR ''e'' \<or> c = CHR ''E'') r")
  case False
  then show ?thesis using assms by (intro exI [of _ "[]"]) (simp add: number_exponent_def exponent_text_def)
next
  case True
  define v where "v = (if sees (\<lambda>c. c = CHR ''+'' \<or> c = CHR ''-'') (move 1 r) then move 1 (move 1 r) else move 1 r)"
  have "some_digits v = (True, u)" using assms True unfolding number_exponent_def Let_def v_def by simp
  from some_digits_sound [OF this] obtain ds where ds: "digits ds" "reads v ds u" by blast
  obtain sign where s: "reads (move 1 r) sign v" "sign \<in> {[], ''+'', ''-''}"
    using optional_sound [of "move 1 r" "\<lambda>c. c = CHR ''+'' \<or> c = CHR ''-''"] unfolding v_def by blast
  define e where "e = input r ! at r"
  have e: "reads r [e] (move 1 r)" "e \<in> {CHR ''e'', CHR ''E''}" using seen [OF True] by (auto simp: e_def)
  have "reads r ([e] @ sign @ ds) u" by (rule reads_trans [OF e(1) reads_trans [OF s(1) ds(2)]])
  moreover have "exponent_text ([e] @ sign @ ds)" using e(2) s(2) ds(1) unfolding exponent_text_def
    by (intro disjI2 exI conjI) auto
  ultimately show ?thesis by blast
qed

text \<open>What may follow a number.\<close>

definition ends :: "string \<Rightarrow> bool" where
  "ends z \<longleftrightarrow> z = [] \<or> json_space (hd z) \<or> hd z \<in> {CHR '','', CHR '']'', CHR ''}''}"

lemma ends_facts:
  assumes "ends z"
  shows "no_digit z" "z = [] \<or> hd z \<noteq> CHR ''.''" "z = [] \<or> hd z \<noteq> CHR ''e'' \<and> hd z \<noteq> CHR ''E''"
  using assms by (auto simp: ends_def no_digit_def digit_byte json_space_def chr_eq_iff eq_chr_iff)

lemma parse_number_reads:
  assumes "rest r = t @ z" "number_text t" "ends z"
  shows "parse_number fc zero r = (Number (number_of fc zero t), move (length t) r)"
proof -
  obtain w f e where t: "t = w @ f @ e" "whole_text w" "fraction_text f" "exponent_text e"
    using assms(2) by (auto simp: number_text_def)
  have e: "e = [] \<or> hd e = CHR ''e'' \<or> hd e = CHR ''E''" using t(4) by (auto simp: exponent_text_def)
  then have ez: "no_digit (e @ z)" "e @ z = [] \<or> hd (e @ z) \<noteq> CHR ''.''"
    using ends_facts [OF assms(3)] by (cases e; auto simp: no_digit_def digit_byte)+
  have fz: "no_digit (f @ e @ z)" using t(3) ez(1) by (auto simp: fraction_text_def no_digit_def digit_byte)
  have r: "rest r = w @ f @ e @ z" using assms(1) t(1) by simp
  note r1 = rest_moved [OF r]
  note r2 = rest_moved [OF r1]
  have "substr (input r) (at r) (length t) = t" by (simp add: substr_rest assms(1))
  then show ?thesis
    using number_whole_reads [OF r t(2) fz] number_fraction_reads [OF r1 t(3) ez]
      number_exponent_reads [OF r2 t(4) ends_facts(1,3) [OF assms(3)]] t(1)
    by (simp add: parse_number_def Let_def number_of_def add.assoc)
qed

lemma parse_number_sound:
  assumes "parse_number fc zero r = (v, u)" "ok u"
  shows "\<exists>t. number_text t \<and> reads r t u \<and> v = Number (number_of fc zero t)"
proof -
  define a where "a = number_whole r"
  define b where "b = number_fraction (snd a)"
  define c where "c = number_exponent (snd b)"
  have eq: "parse_number fc zero r = (if \<not> fst a then (Null, snd a) else if \<not> fst b then (Null, snd b)
      else if \<not> fst c then (Null, snd c)
      else (Number (number_of fc zero (substr (input (snd c)) (at r) (at (snd c) - at r))), snd c))"
    by (simp add: parse_number_def Let_def case_prod_beta a_def b_def c_def number_of_def)
  have f: "fst a" "fst b" "fst c" "u = snd c"
    using assms(1,2) number_whole_at(2) [of r] number_rest_at(1) [of "snd a"] number_rest_at(2) [of "snd b"]
    unfolding eq by (auto simp: a_def b_def c_def split: if_splits)
  obtain w where w: "whole_text w" "reads r w (snd a)"
    using number_whole_sound [of r "snd a"] f(1) by (auto simp: a_def prod_eq_iff)
  obtain f' where f': "fraction_text f'" "reads (snd a) f' (snd b)"
    using number_fraction_sound [of "snd a" "snd b"] f(2) by (auto simp: b_def prod_eq_iff)
  obtain e where e: "exponent_text e" "reads (snd b) e (snd c)"
    using number_exponent_sound [of "snd b" "snd c"] f(3) by (auto simp: c_def prod_eq_iff)
  have all: "reads r (w @ f' @ e) u" unfolding f(4) by (rule reads_trans [OF w(2) reads_trans [OF f'(2) e(2)]])
  have "substr (input u) (at r) (at u - at r) = w @ f' @ e"
    using substr_rest [of r "length (w @ f' @ e)"] readsD(2) [OF all] by (simp add: readsD(1) [OF all])
  then have "v = Number (number_of fc zero (w @ f' @ e))" using assms(1) f unfolding eq by simp
  with all w(1) f'(1) e(1) show ?thesis unfolding number_text_def by blast
qed

section \<open>Whatever the reader reads is in the grammar\<close>

lemma reads_word_reads: "reads_word w r \<Longrightarrow> reads r w (move (length w) r)"
  using reads_if [of r w "drop (length w) (rest r)"] append_take_drop_id [of "length w" "rest r"]
  by (simp add: reads_word_def substr_rest)

lemma eat_ok: "ok (snd (eat c r)) \<Longrightarrow> reads r [c] (snd (eat c r))"
  by (rule eat_reads) (auto simp: eat_def split: if_splits)

lemma blank_append [simp]: "blank (a @ b) \<longleftrightarrow> blank a \<and> blank b" "blank []"
  by (simp_all add: blank_def)

lemma blank_before:
  "blank b \<Longrightarrow> elements fc zero d t vs \<Longrightarrow> elements fc zero d (b @ t) vs"
  "blank b \<Longrightarrow> members fc zero d t xs \<Longrightarrow> members fc zero d (b @ t) xs"
proof -
  assume b: "blank b"
  show "elements fc zero d t vs \<Longrightarrow> elements fc zero d (b @ t) vs"
  proof (erule elements.cases, goal_cases)
    case (1 w d t v w')
    then show ?case using last_element [of "b @ w" fc zero d t v w'] b by simp
  next
    case (2 w d t v w' es vs)
    then show ?case using next_element [of "b @ w" fc zero d t v w' es vs] b by simp
  qed
  show "members fc zero d t xs \<Longrightarrow> members fc zero d (b @ t) xs"
  proof (erule members.cases, goal_cases)
    case (1 w1 kt k w2 w d t v w')
    then show ?case using last_member [of "b @ w1" kt k w2 w fc zero d t v w'] b by simp
  next
    case (2 w1 kt k w2 w d t v w' es xs)
    then show ?case using next_member [of "b @ w1" kt k w2 w fc zero d t v w' es xs] b by simp
  qed
qed

lemma nested_reads:
  assumes "at s < length (input s)" "reads (opened s) t w"
  shows "\<exists>b. blank b \<and> reads s (input s ! at s # b @ t) (closed w)"
proof -
  define q where "q = s\<lparr>depth := depth s + 1\<rparr>"
  define c where "c = input s ! at s"
  have same: "rest q = rest s" by (simp add: q_def rest_def)
  have "rest s = c # drop (Suc (at s)) (input s)"
    using assms(1) by (simp add: rest_def c_def Cons_nth_drop_Suc)
  from rest_Cons(4) [of q, unfolded same, OF this] have "reads q [c] (move 1 q)" .
  moreover obtain b where b: "blank b" "reads (move 1 q) b (opened s)"
    using skip_reads [of "move 1 q"] by (auto simp: opened_def q_def)
  ultimately have "reads q (c # b @ t) w"
    using reads_trans [OF _ reads_trans [OF b(2) assms(2)], of q "[c]"] by simp
  then have "w = move (length (c # b @ t)) q" "rest s = (c # b @ t) @ rest w" by (simp_all add: reads_def same)
  then have "closed w = move (length (c # b @ t)) s" "rest s = (c # b @ t) @ rest (closed w)"
    by (simp_all add: closed_def q_def move_def rest_def)
  then show ?thesis using b(1) unfolding reads_def c_def by blast
qed

lemma member_ok:
  "\<not> fst (member_key r) \<Longrightarrow> \<not> ok (snd (snd (member_key r)))" "\<not> fst (member_colon r) \<Longrightarrow> \<not> ok (snd (member_colon r))"
proof -
  show "\<not> fst (member_key r) \<Longrightarrow> \<not> ok (snd (snd (member_key r)))"
    using string_loop_fails [of "snd (eat (CHR 0x22) (skip r))" "[]"]
    by (auto simp: member_key_def parse_string_def Let_def case_prod_beta eat_def split: if_splits)
  show "\<not> fst (member_colon r) \<Longrightarrow> \<not> ok (snd (member_colon r))" by (auto simp: member_colon_def eat_def split: if_splits)
qed

lemma member_reads:
  assumes "fst (member_key r)" "fst (member_colon r)"
  shows "\<exists>w1 kt w2. blank w1 \<and> string_text kt (fst (snd (member_key r))) \<and> blank w2
    \<and> reads r (w1 @ kt @ w2 @ [CHR '':'']) (snd (member_colon r))"
proof -
  define q where "q = snd (snd (member_key r))"
  have "parse_string (skip r) = (True, fst (snd (member_key r)), q)"
    using assms(1) by (simp add: member_key_def q_def prod_eq_iff)
  from parse_string_sound [OF this] obtain kt where kt: "string_text kt (fst (snd (member_key r)))" "reads (skip r) kt q"
    by blast
  obtain w1 w2 where w: "blank w1" "reads r w1 (skip r)" "blank w2" "reads q w2 (skip q)" using skip_reads by metis
  have "reads (skip q) [CHR '':''] (snd (member_colon r))"
    using eat_reads [of "CHR '':''" "skip q"] assms(2) by (simp add: member_colon_def q_def)
  from reads_trans [OF w(2) reads_trans [OF kt(2) reads_trans [OF w(4) this]]] w(1,3) kt(1) show ?thesis by blast
qed

lemma parse_sound:
  "parse fc zero n r = Some (v, u) \<Longrightarrow> ok u \<Longrightarrow>
     \<exists>w t. blank w \<and> reads r (w @ t) u \<and> derives fc zero (max_depth - depth r) t v"
  "array_loop fc zero n r vs = Some (ws, u) \<Longrightarrow> ok u \<Longrightarrow>
     \<exists>t us. ws = vs @ us \<and> reads r (t @ [CHR '']'']) u \<and> elements fc zero (max_depth - depth r) t us"
  "object_loop fc zero n r ms = Some (ks, u) \<Longrightarrow> ok u \<Longrightarrow>
     \<exists>t xs. ks = put_all ms xs \<and> reads r (t @ [CHR ''}'']) u \<and> members fc zero (max_depth - depth r) t xs"
proof (induction n arbitrary: r v u vs ws ms ks)
  case 0
  { case 1 then show ?case by simp }
  { case 2 then show ?case by simp }
  { case 3 then show ?case by simp }
next
  case (Suc n)
  { case 1
    define s where "s = skip r"
    obtain w where w: "blank w" "reads r w s" using skip_reads unfolding s_def by blast
    have d: "depth s = depth r" by (simp add: readsD(1) [OF w(2)])
    have deeper: "max_depth - depth s = Suc (max_depth - depth (opened s))"
      if "depth s + 1 \<le> max_depth" "at s < length (input s)"
      using opened_facts(5) [OF that(2)] that(1) by simp
    have word: "\<exists>t. reads s t (move (length x) s) \<and> derives fc zero (max_depth - depth s) t y"
      if "reads_word x s" "derives fc zero (max_depth - depth s) x y" for x y
      using reads_word_reads [OF that(1)] that(2) by blast
    from 1(1) have "\<exists>t. reads s t u \<and> derives fc zero (max_depth - depth s) t v"
    proof (cases rule: parse_SucE)
      case finished
      then show ?thesis using 1(2) by simp
    next
      case deep
      then show ?thesis using 1(2) by simp
    next
      case empty_object note empty_object = empty_object [folded s_def]
      have "reads (opened s) [CHR ''}''] (move 1 (opened s))" by (rule seen_char [OF empty_object(4)])
      from nested_reads [OF empty_object(1) this] empty_object(2,5,6) deeper [OF empty_object(3,1)]
      show ?thesis using derives_no_members [of _ fc zero "max_depth - depth (opened s)"] by auto
    next
      case (object ms w) note object = object [folded s_def]
      have "ok w" using 1(2) object(6) by (simp add: closed_def)
      from Suc(3) [OF object(4) this] obtain t xs where
        x: "ms = put_all [] xs" "reads (opened s) (t @ [CHR ''}'']) w" "members fc zero (max_depth - depth (opened s)) t xs"
        by blast
      from nested_reads [OF object(1) x(2)] obtain b where b: "blank b" "reads s (CHR ''{'' # b @ t @ [CHR ''}'']) u"
        using object(2,6) by auto
      have "derives fc zero (max_depth - depth s) (CHR ''{'' # (b @ t) @ [CHR ''}'']) v"
        unfolding deeper [OF object(3,1)] object(5) x(1)
        by (rule derives_object [OF blank_before(2) [OF b(1) x(3)]])
      with b(2) show ?thesis by auto
    next
      case empty_array note empty_array = empty_array [folded s_def]
      have "reads (opened s) [CHR '']''] (move 1 (opened s))" by (rule seen_char [OF empty_array(4)])
      from nested_reads [OF empty_array(1) this] empty_array(2,5,6) deeper [OF empty_array(3,1)]
      show ?thesis using derives_no_elements [of _ fc zero "max_depth - depth (opened s)"] by auto
    next
      case (array vs w) note array = array [folded s_def]
      have "ok w" using 1(2) array(6) by (simp add: closed_def)
      from Suc(2) [OF array(4) this] obtain t us where
        x: "vs = us" "reads (opened s) (t @ [CHR '']'']) w" "elements fc zero (max_depth - depth (opened s)) t us"
        by auto
      from nested_reads [OF array(1) x(2)] obtain b where b: "blank b" "reads s (CHR ''['' # b @ t @ [CHR '']'']) u"
        using array(2,6) by auto
      have "derives fc zero (max_depth - depth s) (CHR ''['' # (b @ t) @ [CHR '']'']) v"
        unfolding deeper [OF array(3,1)] array(5) x(1)
        by (rule derives_array [OF blank_before(1) [OF b(1) x(3)]])
      with b(2) show ?thesis by auto
    next
      case string note string = string [folded s_def]
      have "at s \<le> length (input s)" using string(1) by simp
      then have "fst (parse_string s)" using parse_string_at(2) 1(2) string(3) by auto
      then have "parse_string s = (True, fst (snd (parse_string s)), u)" using string(3) by (simp add: prod_eq_iff)
      from parse_string_sound [OF this] obtain t where "string_text t (fst (snd (parse_string s)))" "reads s t u" by blast
      moreover from derives_string [OF this(1)]
      have "derives fc zero (max_depth - depth s) t v" using string(2) \<open>fst (parse_string s)\<close> by simp
      ultimately show ?thesis by blast
    next
      case true_word note true_word = true_word [folded s_def]
      then show ?thesis using word [OF true_word(2) derives_true] by simp
    next
      case false_word note false_word = false_word [folded s_def]
      then show ?thesis using word [OF false_word(2) derives_false] by simp
    next
      case null_word note null_word = null_word [folded s_def]
      then show ?thesis using word [OF null_word(2) derives_null] by simp
    next
      case number note number = number [folded s_def]
      from parse_number_sound [OF number(2) [symmetric] 1(2)] obtain t where
        "number_text t" "reads s t u" "v = Number (number_of fc zero t)" by blast
      with derives_number [OF this(1), of fc zero "max_depth - depth s"] show ?thesis by auto
    qed
    then show ?case using w reads_trans [OF w(2)] d by auto }
  { case 2
    then obtain v t where t: "parse fc zero n r = Some (v, t)" by (auto simp: array_loop_Suc split: option.splits)
    have "ok t" using 2 t by (auto simp: array_loop_Suc split: if_splits)
    from Suc(1) [OF t this] obtain w x where x: "blank w" "reads r (w @ x) t" "derives fc zero (max_depth - depth r) x v"
      by blast
    obtain w' where w': "blank w'" "reads t w' (skip t)" using skip_reads by blast
    note here = reads_trans [OF x(2) w'(2)]
    show ?case
    proof (cases "sees (\<lambda>d. d = CHR '','') (skip t)")
      case True
      have "array_loop fc zero n (move 1 (skip t)) (vs @ [v]) = Some (ws, u)"
        using 2(1) t True \<open>ok t\<close> by (simp add: array_loop_Suc)
      from Suc(2) [OF this 2(2)] obtain es us where
        e: "ws = vs @ v # us" "reads (move 1 (skip t)) (es @ [CHR '']'']) u" "elements fc zero (max_depth - depth r) es us"
        by (auto simp: readsD(1) [OF here])
      have "reads (skip t) [CHR '',''] (move 1 (skip t))" by (rule seen_char [OF True])
      from reads_trans [OF here reads_trans [OF this e(2)]] next_element [OF x(1,3) w'(1) e(3)] e(1)
      show ?thesis by (intro exI [of _ "w @ x @ w' @ CHR '','' # es"] exI [of _ "v # us"]) simp
    next
      case False
      then have u: "u = snd (eat (CHR '']'') (skip t))" "ws = vs @ [v]"
        using 2(1) t \<open>ok t\<close> by (auto simp: array_loop_Suc)
      from reads_trans [OF here eat_ok [of "CHR '']''" "skip t", folded u(1), OF 2(2)]] last_element [OF x(1,3) w'(1)] u(2)
      show ?thesis by (intro exI [of _ "w @ x @ w'"] exI [of _ "[v]"]) simp
    qed }
  { case 3
    define k where "k = fst (snd (member_key r))"
    define q where "q = snd (snd (member_key r))"
    define p where "p = snd (member_colon r)"
    have fine: "fst (member_key r)" "fst (member_colon r)"
      using 3 member_ok [of r] by (auto simp: object_loop_Suc split: if_splits)
    from member_reads [OF fine] obtain w1 kt w2 where
      k: "blank w1" "string_text kt k" "blank w2" "reads r (w1 @ kt @ w2 @ [CHR '':'']) p"
      unfolding k_def p_def by blast
    obtain v t where t: "parse fc zero n p = Some (v, t)"
      using 3(1) fine by (auto simp: object_loop_Suc p_def split: option.splits)
    have "ok t" using 3 t fine by (auto simp: object_loop_Suc p_def split: if_splits)
    from Suc(1) [OF t this] obtain w x where x: "blank w" "reads p (w @ x) t" "derives fc zero (max_depth - depth r) x v"
      by (auto simp: readsD(1) [OF k(4)])
    obtain w' where w': "blank w'" "reads t w' (skip t)" using skip_reads by blast
    note here = reads_trans [OF k(4) reads_trans [OF x(2) w'(2)]]
    show ?case
    proof (cases "sees (\<lambda>d. d = CHR '','') (skip t)")
      case True
      have "object_loop fc zero n (move 1 (skip t)) (put_member k v ms) = Some (ks, u)"
        using 3(1) t True \<open>ok t\<close> fine by (simp add: object_loop_Suc k_def p_def)
      from Suc(3) [OF this 3(2)] obtain es xs where
        e: "ks = put_all ms ((k, v) # xs)" "reads (move 1 (skip t)) (es @ [CHR ''}'']) u"
          "members fc zero (max_depth - depth r) es xs"
        by (auto simp: readsD(1) [OF here] put_all_def)
      from reads_trans [OF here reads_trans [OF seen_char [OF True] e(2)]] next_member [OF k(1-3) x(1,3) w'(1) e(3)] e(1)
      show ?thesis
        by (intro exI [of _ "w1 @ kt @ w2 @ CHR '':'' # w @ x @ w' @ CHR '','' # es"] exI [of _ "(k, v) # xs"]) simp
    next
      case False
      then have u: "u = snd (eat (CHR ''}'') (skip t))" "ks = put_all ms [(k, v)]"
        using 3(1) t \<open>ok t\<close> fine by (auto simp: object_loop_Suc k_def p_def put_all_def)
      from reads_trans [OF here eat_ok [of "CHR ''}''" "skip t", folded u(1), OF 3(2)]]
        last_member [OF k(1-3) x(1,3) w'(1)] u(2)
      show ?thesis by (intro exI [of _ "w1 @ kt @ w2 @ CHR '':'' # w @ x @ w'"] exI [of _ "[(k, v)]"]) simp
    qed }
qed

section \<open>Whatever is in the grammar is read\<close>

lemma number_text_first:
  assumes "number_text t"
  shows "\<exists>c z. t = c # z \<and> (c = CHR ''-'' \<or> json_digit c)"
proof -
  obtain w f e where w: "t = w @ f @ e" "whole_text w" using assms unfolding number_text_def by blast
  obtain sign x where x: "w = sign @ x" "sign = [] \<or> sign = ''-''" "x = ''0'' \<or> digits x"
    using w(2) unfolding whole_text_def by blast
  define z where "z = f @ e"
  have t: "t = sign @ x @ z" "sign = [] \<or> sign = ''-''" "x = ''0'' \<or> digits x" using w x by (simp_all add: z_def)
  from t(3) have "x \<noteq> [] \<and> json_digit (hd x)" by (cases x) (auto simp: digits_def digit_byte)
  with t(1,2) show ?thesis by (cases x) auto
qed

lemma string_text_first: "string_text t s \<Longrightarrow> \<exists>z. t = CHR 0x22 # z"
  by (auto simp: string_text_def)

lemma json_space_byte: "json_space c \<longleftrightarrow> byte c \<in> {32, 9, 10, 13}"
proof -
  have "c = CHR '' '' \<longleftrightarrow> byte c = byte CHR '' ''" by (simp only: of_char_eq_iff)
  then show ?thesis by (simp add: json_space_def eq_chr_iff)
qed

lemma json_space_not:
  "json_digit c \<Longrightarrow> \<not> json_space c" "\<not> json_space CHR ''-''" "\<not> json_space CHR 0x22" "\<not> json_space CHR ''{''"
  "\<not> json_space CHR ''[''" "\<not> json_space CHR ''t''" "\<not> json_space CHR ''f''" "\<not> json_space CHR ''n''"
  "\<not> json_space CHR '',''" "\<not> json_space CHR '':''" "\<not> json_space CHR '']''" "\<not> json_space CHR ''}''"
  by (auto simp: json_space_byte digit_byte)

lemma derives_first:
  assumes "derives fc zero d t v"
  shows "\<exists>c z. t = c # z \<and> \<not> json_space c \<and> c \<noteq> CHR '']''"
  using assms
proof cases
  case derives_number
  then obtain c z where c: "t = c # z" "c = CHR ''-'' \<or> json_digit c" using number_text_first by blast
  then have "\<not> json_space c" "c \<noteq> CHR '']''" by (auto simp: json_space_not digit_byte)
  with c(1) show ?thesis by blast
next
  case (derives_string s)
  then obtain z where "t = CHR 0x22 # z" using string_text_first by blast
  then show ?thesis by (simp add: json_space_not)
qed (simp_all add: json_space_not)

lemma blank_ends: "blank w \<Longrightarrow> ends z \<Longrightarrow> ends (w @ z)"
  by (cases w) (simp_all add: blank_def ends_def)

lemma blank_closed: "blank w \<Longrightarrow> \<not> json_space c \<Longrightarrow> rest r = w @ c # z \<Longrightarrow> skip r = move (length w) r"
  using skip_run [of r w "c # z"] by simp

lemma parse_skip: "parse fc zero n (skip r) = parse fc zero n r"
  by (cases n) (simp_all add: parse_Suc skip_skip)

lemma array_loop_skip: "array_loop fc zero n (skip r) vs = array_loop fc zero n r vs"
  by (cases n) (simp_all add: array_loop_Suc parse_skip)

lemma member_skip: "member_key (skip r) = member_key r" "member_colon (skip r) = member_colon r"
  by (simp_all add: member_key_def member_colon_def skip_skip)

lemma object_loop_skip: "object_loop fc zero n (skip r) ms = object_loop fc zero n r ms"
proof (cases n)
  case (Suc k)
  show ?thesis unfolding Suc object_loop_Suc member_skip ..
qed simp

text \<open>A scalar or a bracket is read where the blanks before it end.\<close>

lemma parse_word:
  assumes "rest r = w @ t @ z" "blank w" "(t, v) \<in> {(''true'', Bool True), (''false'', Bool False), (''null'', Null)}"
  shows "parse fc zero (Suc n) r = Some (v, move (length (w @ t)) r)"
proof -
  have "\<exists>c t'. t = c # t' \<and> \<not> json_space c \<and> c \<notin> {CHR ''{'', CHR ''['', CHR 0x22}"
    using assms(3) by (elim insertE emptyE) (simp_all add: json_space_not)
  then obtain c t' where t: "t = c # t'" "\<not> json_space c" "c \<notin> {CHR ''{'', CHR ''['', CHR 0x22}" by blast
  have s: "skip r = move (length w) r" using blank_closed [OF assms(2) t(2)] assms(1) t(1) by simp
  have r: "rest (skip r) = t @ z" unfolding s by (rule rest_moved [OF assms(1)])
  have word: "reads_word x (skip r) \<longleftrightarrow> take (length x) (t @ z) = x" for x by (simp add: reads_word_def substr_rest r)
  note here = rest_Cons [of "skip r" c "t' @ z"]
  have here: "at (skip r) < length (input (skip r))" "input (skip r) ! at (skip r) = c" using here r t(1) by simp_all
  from assms(3) consider "t = ''true''" "v = Bool True" | "t = ''false''" "v = Bool False" | "t = ''null''" "v = Null" by auto
  then show ?thesis
  proof cases
    case 1
    then show ?thesis using here t(3) by (simp add: parse_Suc Let_def not_le word) (simp add: s)
  next
    case 2
    then show ?thesis using here t(3) by (simp add: parse_Suc Let_def not_le word) (simp add: s)
  next
    case 3
    then show ?thesis using here t(3) by (simp add: parse_Suc Let_def not_le word) (simp add: s)
  qed
qed

lemma parse_string_value:
  assumes "rest r = w @ t @ z" "blank w" "string_text t s"
  shows "parse fc zero (Suc n) r = Some (String s, move (length (w @ t)) r)"
proof -
  obtain t' where t: "t = CHR 0x22 # t'" using string_text_first [OF assms(3)] by blast
  have s: "skip r = move (length w) r" using blank_closed [OF assms(2), of "CHR 0x22" r "t' @ z"] assms(1) t
    by (simp add: json_space_not)
  have r: "rest (skip r) = t @ z" unfolding s by (rule rest_moved [OF assms(1)])
  note here = rest_Cons [of "skip r" "CHR 0x22" "t' @ z"]
  show ?thesis
    using parse_string_reads [OF assms(3) r] here(1,2) r t by (simp add: parse_Suc Let_def not_le) (simp add: s)
qed

lemma parse_number_value:
  assumes "rest r = w @ t @ z" "blank w" "number_text t" "ends z"
  shows "parse fc zero (Suc n) r = Some (Number (number_of fc zero t), move (length (w @ t)) r)"
proof -
  obtain c t' where t: "t = c # t'" "c = CHR ''-'' \<or> json_digit c" using number_text_first [OF assms(3)] by blast
  then have c: "\<not> json_space c" "c \<notin> {CHR ''{'', CHR ''['', CHR 0x22, CHR ''t'', CHR ''f'', CHR ''n''}"
    by (auto simp: json_space_not digit_byte)
  have s: "skip r = move (length w) r" using blank_closed [OF assms(2) c(1)] assms(1) t(1) by simp
  have r: "rest (skip r) = t @ z" unfolding s by (rule rest_moved [OF assms(1)])
  have word: "reads_word x (skip r) \<Longrightarrow> x = [] \<or> hd x = c" for x
    using r t(1) hd_take [of "length x" "c # t' @ z"] by (auto simp: reads_word_def substr_rest)
  have "\<not> reads_word ''true'' (skip r)" "\<not> reads_word ''false'' (skip r)" "\<not> reads_word ''null'' (skip r)"
    using word [of "''true''"] word [of "''false''"] word [of "''null''"] c(2) by auto
  with parse_number_reads [OF r assms(3,4)] rest_Cons [of "skip r" c "t' @ z"] r t(1) c(2) show ?thesis
    by (simp add: parse_Suc Let_def not_le) (simp add: s)
qed

text \<open>An array or object is read when its loop reads what is inside.\<close>

lemma nested_run:
  assumes "rest s = c # t @ z" "depth s + 1 \<le> max_depth"
  shows "at s < length (input s)" "input s ! at s = c" "depth (move 1 (s\<lparr>depth := depth s + 1\<rparr>)) = depth s + 1"
    "rest (move 1 (s\<lparr>depth := depth s + 1\<rparr>)) = t @ z" "left (move 1 (s\<lparr>depth := depth s + 1\<rparr>)) < left s"
    "closed (move k (move 1 (s\<lparr>depth := depth s + 1\<rparr>))) = move (1 + k) s"
proof -
  let ?q = "s\<lparr>depth := depth s + 1\<rparr>"
  have q: "rest ?q = c # t @ z" using assms(1) by (simp add: rest_def)
  show "at s < length (input s)" "input s ! at s = c" using rest_Cons(1,2) [OF assms(1)] .
  show "depth (move 1 ?q) = depth s + 1" by simp
  show r: "rest (move 1 ?q) = t @ z" by (rule rest_Cons(3) [OF q])
  show "left (move 1 ?q) < left s" unfolding left_rest r assms(1) by simp
  show "closed (move k (move 1 ?q)) = move (1 + k) s" by (simp add: closed_def move_def)
qed

lemma open_bracket: "skip r = move (length w) r" if "rest r = w @ c # z" "blank w" "c = CHR ''['' \<or> c = CHR ''{''"
  using blank_closed [OF that(2) _ that(1)] that(3) json_space_not(4,5) by blast

lemma parse_array_value:
  assumes "rest r = w @ CHR ''['' # t @ CHR '']'' # z" "blank w" "depth r + 1 \<le> max_depth"
    "\<And>q. rest q = t @ CHR '']'' # z \<Longrightarrow> ok q = ok r \<Longrightarrow> depth q = depth r + 1 \<Longrightarrow> left q < left r \<Longrightarrow>
      array_loop fc zero n q [] = Some (vs, move (length t + 1) q)"
    "\<exists>b c y. t = b @ c # y \<and> blank b \<and> \<not> json_space c \<and> c \<noteq> CHR '']''"
  shows "parse fc zero (Suc n) r = Some (Array vs, move (length (w @ CHR ''['' # t @ [CHR '']''])) r)"
proof -
  note s = open_bracket [OF assms(1,2)]
  have s: "skip r = move (length w) r" by (rule s) simp
  define q where "q = move 1 ((skip r)\<lparr>depth := depth (skip r) + 1\<rparr>)"
  have r: "rest (skip r) = CHR ''['' # t @ CHR '']'' # z" unfolding s by (rule rest_moved [OF assms(1)])
  have d: "depth (skip r) + 1 \<le> max_depth" using assms(3) by (simp add: s)
  note n = nested_run [OF r d, folded q_def]
  have "left (skip r) \<le> left r" using s by (simp add: left_def)
  then have loop: "array_loop fc zero n (opened (skip r)) [] = Some (vs, move (length t + 1) q)"
    using assms(4) [OF n(4)] n(3,5) unfolding opened_def q_def [symmetric] array_loop_skip
    by (simp add: q_def s)
  obtain b c y where b: "t = b @ c # y" "blank b" "\<not> json_space c" "c \<noteq> CHR '']''" using assms(5) by blast
  then have "rest q = b @ c # y @ CHR '']'' # z" using n(4) by simp
  from rest_moved [OF this] blank_closed [OF b(2,3) this] have "rest (skip q) = c # y @ CHR '']'' # z" by simp
  then have "\<not> sees (\<lambda>d. d = CHR '']'') (opened (skip r))"
    unfolding opened_def q_def [symmetric] using b(4) by (simp add: sees_rest)
  with n(1,2) d loop n(6) [of "length t + 1", folded q_def] show ?thesis
    by (simp add: parse_Suc Let_def not_le not_less) (simp add: s add_ac)
qed

lemma parse_object_value:
  assumes "rest r = w @ CHR ''{'' # t @ CHR ''}'' # z" "blank w" "depth r + 1 \<le> max_depth"
    "\<And>q. rest q = t @ CHR ''}'' # z \<Longrightarrow> ok q = ok r \<Longrightarrow> depth q = depth r + 1 \<Longrightarrow> left q < left r \<Longrightarrow>
      object_loop fc zero n q [] = Some (xs, move (length t + 1) q)"
    "\<exists>b c y. t = b @ c # y \<and> blank b \<and> \<not> json_space c \<and> c \<noteq> CHR ''}''"
  shows "parse fc zero (Suc n) r = Some (Object xs, move (length (w @ CHR ''{'' # t @ [CHR ''}''])) r)"
proof -
  note s = open_bracket [OF assms(1,2)]
  have s: "skip r = move (length w) r" by (rule s) simp
  define q where "q = move 1 ((skip r)\<lparr>depth := depth (skip r) + 1\<rparr>)"
  have r: "rest (skip r) = CHR ''{'' # t @ CHR ''}'' # z" unfolding s by (rule rest_moved [OF assms(1)])
  have d: "depth (skip r) + 1 \<le> max_depth" using assms(3) by (simp add: s)
  note n = nested_run [OF r d, folded q_def]
  have "left (skip r) \<le> left r" using s by (simp add: left_def)
  then have loop: "object_loop fc zero n (opened (skip r)) [] = Some (xs, move (length t + 1) q)"
    using assms(4) [OF n(4)] n(3,5) unfolding opened_def q_def [symmetric] object_loop_skip
    by (simp add: q_def s)
  obtain b c y where b: "t = b @ c # y" "blank b" "\<not> json_space c" "c \<noteq> CHR ''}''" using assms(5) by blast
  then have "rest q = b @ c # y @ CHR ''}'' # z" using n(4) by simp
  from rest_moved [OF this] blank_closed [OF b(2,3) this] have "rest (skip q) = c # y @ CHR ''}'' # z" by simp
  then have "\<not> sees (\<lambda>d. d = CHR ''}'') (opened (skip r))"
    unfolding opened_def q_def [symmetric] using b(4) by (simp add: sees_rest)
  with n(1,2) d loop n(6) [of "length t + 1", folded q_def] show ?thesis
    by (simp add: parse_Suc Let_def not_le not_less) (simp add: s add_ac)
qed

lemma parse_empty_value:
  assumes "rest r = w @ c # b @ c' # z" "blank w" "blank b" "depth r + 1 \<le> max_depth"
    "(c, c', v) \<in> {(CHR ''['', CHR '']'', Array []), (CHR ''{'', CHR ''}'', Object [])}"
  shows "parse fc zero (Suc n) r = Some (v, move (length (w @ c # b @ [c'])) r)"
proof -
  have s: "skip r = move (length w) r" by (rule open_bracket [OF assms(1,2)]) (use assms(5) in auto)
  define q where "q = move 1 ((skip r)\<lparr>depth := depth (skip r) + 1\<rparr>)"
  have r: "rest (skip r) = c # b @ c' # z" unfolding s by (rule rest_moved [OF assms(1)])
  have d: "depth (skip r) + 1 \<le> max_depth" using assms(4) by (simp add: s)
  note n = nested_run [OF r d, folded q_def]
  have "\<not> json_space c'" using assms(5) by (auto simp: json_space_not)
  from blank_closed [OF assms(3) this n(4)] rest_moved [OF n(4)]
  have o: "opened (skip r) = move (length b) q" "rest (opened (skip r)) = c' # z"
    unfolding opened_def q_def [symmetric] by simp_all
  then have see: "sees (\<lambda>d. d = c') (opened (skip r))" by (simp add: sees_rest)
  have c: "closed (move 1 (opened (skip r))) = move (length (w @ c # b @ [c'])) r"
    unfolding o(1) using n(6) [of "length b + 1", folded q_def] by (simp add: s add_ac)
  from assms(5) consider "c = CHR ''[''" "c' = CHR '']''" "v = Array []" | "c = CHR ''{''" "c' = CHR ''}''" "v = Object []" by auto
  then show ?thesis
  proof cases
    case 1
    then show ?thesis using n(1,2) d see c by (simp add: parse_Suc Let_def not_le not_less)
  next
    case 2
    then show ?thesis using n(1,2) d see c by (simp add: parse_Suc Let_def not_le not_less)
  qed
qed

text \<open>What is inside starts with something that is not the closing bracket.\<close>

lemma elements_first: "elements fc zero d t vs \<Longrightarrow> \<exists>b c y. t = b @ c # y \<and> blank b \<and> \<not> json_space c \<and> c \<noteq> CHR '']''"
  by (erule elements.cases; drule derives_first; fastforce)

lemma members_first: "members fc zero d t xs \<Longrightarrow> \<exists>b c y. t = b @ c # y \<and> blank b \<and> \<not> json_space c \<and> c \<noteq> CHR ''}''"
  by (erule members.cases; drule string_text_first; use json_space_not(3) in fastforce)

lemma after_item:
  assumes "rest u = w' @ c # z" "blank w'" "\<not> json_space c"
  shows "skip u = move (length w') u" "sees P (skip u) \<longleftrightarrow> P c" "rest (move 1 (skip u)) = z"
    "eat c (skip u) = (True, move 1 (skip u))"
proof -
  show s: "skip u = move (length w') u" by (rule blank_closed [OF assms(2,3,1)])
  have r: "rest (skip u) = c # z" unfolding s by (rule rest_moved [OF assms(1)])
  show "sees P (skip u) \<longleftrightarrow> P c" "rest (move 1 (skip u)) = z" "eat c (skip u) = (True, move 1 (skip u))"
    using rest_Cons(3) [OF r] eat_here [OF r] by (simp_all add: sees_rest r)
qed

lemma ends_item: "blank w' \<Longrightarrow> c \<in> {CHR '','', CHR '']'', CHR ''}''} \<Longrightarrow> ends (w' @ c # z)"
  by (rule blank_ends) (simp_all add: ends_def)

lemma member_run:
  assumes "rest r = w1 @ kt @ w2 @ CHR '':'' # z" "blank w1" "string_text kt k" "blank w2"
  shows "fst (member_key r)" "fst (snd (member_key r)) = k" "fst (member_colon r)"
    "snd (member_colon r) = move (length (w1 @ kt @ w2 @ '':'')) r" "rest (snd (member_colon r)) = z"
proof -
  obtain y where y: "kt = CHR 0x22 # y" using string_text_first [OF assms(3)] by blast
  have s: "skip r = move (length w1) r"
    using blank_closed [OF assms(2) json_space_not(3), of r "y @ w2 @ CHR '':'' # z"] assms(1) y by simp
  have p: "parse_string (skip r) = (True, k, move (length kt) (skip r))"
    using parse_string_reads [OF assms(3)] rest_moved [OF assms(1)] unfolding s by blast
  define u where "u = move (length kt) (skip r)"
  have "rest u = w2 @ CHR '':'' # z" unfolding u_def s by (rule rest_moved [OF rest_moved [OF assms(1)]])
  note a = after_item [OF this assms(4) json_space_not(10)]
  show "fst (member_key r)" "fst (snd (member_key r)) = k" by (simp_all add: member_key_def p)
  have "member_colon r = (True, move 1 (skip u))" using a(4) by (simp add: member_colon_def member_key_def p u_def)
  then show "fst (member_colon r)" "snd (member_colon r) = move (length (w1 @ kt @ w2 @ '':'')) r"
    "rest (snd (member_colon r)) = z"
    using a(1,3) by (simp_all add: u_def s add_ac)
qed

lemma grammar_read:
  "derives fc zero d t v \<Longrightarrow> (\<And>w z n r. rest r = w @ t @ z \<Longrightarrow> blank w \<Longrightarrow> ends z \<Longrightarrow> ok r \<Longrightarrow> depth r + d \<le> max_depth \<Longrightarrow>
     2 * left r < n \<Longrightarrow> parse fc zero n r = Some (v, move (length (w @ t)) r))"
  "elements fc zero d t vs \<Longrightarrow> (\<And>z n r acc. rest r = t @ CHR '']'' # z \<Longrightarrow> ok r \<Longrightarrow> depth r + d \<le> max_depth \<Longrightarrow>
     2 * left r + 1 < n \<Longrightarrow> array_loop fc zero n r acc = Some (acc @ vs, move (length t + 1) r))"
  "members fc zero d t xs \<Longrightarrow> (\<And>z n r acc. rest r = t @ CHR ''}'' # z \<Longrightarrow> ok r \<Longrightarrow> depth r + d \<le> max_depth \<Longrightarrow>
     2 * left r + 1 < n \<Longrightarrow> object_loop fc zero n r acc = Some (put_all acc xs, move (length t + 1) r))"
proof (induction rule: derives_elements_members.inducts)
  case (derives_null d)
  then show ?case using parse_word [of r w "''null''" z "Null" fc zero "n - 1"] by (cases n) simp_all
next
  case (derives_true d)
  then show ?case using parse_word [of r w "''true''" z "Bool True" fc zero "n - 1"] by (cases n) simp_all
next
  case (derives_false d)
  then show ?case using parse_word [of r w "''false''" z "Bool False" fc zero "n - 1"] by (cases n) simp_all
next
  case (derives_number t d)
  then show ?case by (cases n) (simp_all add: parse_number_value)
next
  case (derives_string t s d)
  then show ?case by (cases n) (simp_all add: parse_string_value)
next
  case (derives_no_elements b d)
  then obtain k where n: "n = Suc k" by (cases n) simp_all
  from derives_no_elements show ?case unfolding n by (intro parse_empty_value) simp_all
next
  case (derives_no_members b d)
  then obtain k where n: "n = Suc k" by (cases n) simp_all
  from derives_no_members show ?case unfolding n by (intro parse_empty_value) simp_all
next
  case (derives_array d t vs)
  then obtain k where n: "n = Suc k" by (cases n) simp_all
  show ?case unfolding n
  proof (rule parse_array_value)
    fix q
    assume "rest q = t @ CHR '']'' # z" "ok q = ok r" "depth q = depth r + 1" "left q < left r"
    with derives_array(2) [of q z k "[]"] derives_array(6-8) n
    show "array_loop fc zero k q [] = Some (vs, move (length t + 1) q)" by simp
  qed (use derives_array elements_first [OF derives_array(1)] in simp_all)
next
  case (derives_object d t xs)
  then obtain k where n: "n = Suc k" by (cases n) simp_all
  show ?case unfolding n
  proof (rule parse_object_value)
    fix q
    assume "rest q = t @ CHR ''}'' # z" "ok q = ok r" "depth q = depth r + 1" "left q < left r"
    with derives_object(2) [of q z k "[]"] derives_object(6-8) n
    show "object_loop fc zero k q [] = Some (put_all [] xs, move (length t + 1) q)" by simp
  qed (use derives_object members_first [OF derives_object(1)] in simp_all)
next
  case (last_element w d t v w')
  then obtain k where n: "n = Suc k" by (cases n) simp_all
  have r: "rest r = w @ t @ w' @ CHR '']'' # z" using last_element(5) by simp
  have p: "parse fc zero k r = Some (v, move (length (w @ t)) r)"
    using last_element(4) [OF r last_element(1) ends_item [OF last_element(2)]] last_element(6-8) n by simp
  have "rest (move (length (w @ t)) r) = w' @ CHR '']'' # z" using rest_moved [of r "w @ t"] r by simp
  from after_item [OF this last_element(2) json_space_not(11)] show ?case
    unfolding n array_loop_Suc p using last_element(6) by (simp add: add_ac)
next
  case (next_element w d t v w' es vs)
  then obtain k where n: "n = Suc k" by (cases n) simp_all
  have r: "rest r = w @ t @ w' @ CHR '','' # es @ CHR '']'' # z" using next_element(7) by simp
  have p: "parse fc zero k r = Some (v, move (length (w @ t)) r)"
    using next_element(4) [OF r next_element(1) ends_item [OF next_element(2)]] next_element(8-10) n by simp
  define u where "u = move (length (w @ t)) r"
  have "rest u = w' @ CHR '','' # es @ CHR '']'' # z" unfolding u_def using rest_moved [of r "w @ t"] r by simp
  note a = after_item [OF this next_element(2) json_space_not(9)]
  have "left (move 1 (skip u)) < left r" unfolding left_rest a(3) r by simp
  moreover have "ok (skip u) = ok r" "depth (skip u) = depth r" by (simp_all add: skip_keeps u_def)
  ultimately have "array_loop fc zero k (move 1 (skip u)) (acc @ [v]) = Some (acc @ v # vs, move (length es + 1) (move 1 (skip u)))"
    using next_element(6) [OF a(3), of k "acc @ [v]"] next_element(8-10) n by simp
  moreover have "ok u" using next_element(8) by (simp add: u_def)
  ultimately have "array_loop fc zero n r acc = Some (acc @ v # vs, move (length es + 1) (move 1 (skip u)))"
    unfolding n array_loop_Suc p u_def [symmetric] using a(2) by simp
  then show ?case unfolding a(1) by (simp add: u_def add_ac)
next
  case (last_member w1 kt k w2 w d t v w')
  then obtain m where n: "n = Suc m" by (cases n) simp_all
  have r: "rest r = w1 @ kt @ w2 @ CHR '':'' # w @ t @ w' @ CHR ''}'' # z" using last_member(8) by simp
  note key = member_run [OF r last_member(1-3)]
  define q where "q = snd (member_colon r)"
  have q: "rest q = w @ t @ w' @ CHR ''}'' # z" unfolding q_def by (rule key(5))
  have "left q < left r" unfolding left_rest q r by simp
  then have p: "parse fc zero m q = Some (v, move (length (w @ t)) q)"
    using last_member(7) [OF q last_member(4) ends_item [OF last_member(5)]] last_member(9-11) n key(4)
    by (simp add: q_def)
  have "rest (move (length (w @ t)) q) = w' @ CHR ''}'' # z" using rest_moved [of q "w @ t"] q by simp
  from after_item [OF this last_member(5) json_space_not(12)] show ?case
    unfolding n object_loop_Suc q_def [symmetric] p using last_member(9) key(1-4)
    by (simp add: put_all_def) (simp add: q_def add_ac)
next
  case (next_member w1 kt k w2 w d t v w' es xs)
  then obtain m where n: "n = Suc m" by (cases n) simp_all
  have r: "rest r = w1 @ kt @ w2 @ CHR '':'' # w @ t @ w' @ CHR '','' # es @ CHR ''}'' # z" using next_member(10) by simp
  note key = member_run [OF r next_member(1-3)]
  define q where "q = snd (member_colon r)"
  have q: "rest q = w @ t @ w' @ CHR '','' # es @ CHR ''}'' # z" unfolding q_def by (rule key(5))
  have "left q < left r" unfolding left_rest q r by simp
  then have p: "parse fc zero m q = Some (v, move (length (w @ t)) q)"
    using next_member(7) [OF q next_member(4) ends_item [OF next_member(5)]] next_member(11-13) n key(4)
    by (simp add: q_def)
  define u where "u = move (length (w @ t)) q"
  have "rest u = w' @ CHR '','' # es @ CHR ''}'' # z" unfolding u_def using rest_moved [of q "w @ t"] q by simp
  note a = after_item [OF this next_member(5) json_space_not(9)]
  have "left (move 1 (skip u)) < left r" unfolding left_rest a(3) r by simp
  moreover have "ok (skip u) = ok r" "depth (skip u) = depth r" by (simp_all add: skip_keeps u_def q_def key(4))
  ultimately have "object_loop fc zero m (move 1 (skip u)) (put_member k v acc)
      = Some (put_all acc ((k, v) # xs), move (length es + 1) (move 1 (skip u)))"
    using next_member(9) [OF a(3), of m "put_member k v acc"] next_member(11-13) n by (simp add: put_all_def)
  moreover have "ok u" using next_member(11) by (simp add: u_def q_def key(4))
  ultimately have "object_loop fc zero n r acc = Some (put_all acc ((k, v) # xs), move (length es + 1) (move 1 (skip u)))"
    unfolding n object_loop_Suc q_def [symmetric] p u_def [symmetric] using a(2) key(1-3) by simp
  then show ?case unfolding a(1) by (simp add: u_def q_def key(4) add_ac)
qed

section \<open>The reader is the grammar\<close>

lemma parse_json_total: "\<exists>y. parse_text fc zero (2 * length s + 2) (new_reader s) = Some y"
proof -
  have "parse fc zero (2 * length s + 2) (new_reader s) \<noteq> None"
    by (rule parse_enough(1)) (simp_all add: new_reader_def left_def)
  then show ?thesis by (auto simp: parse_text_def)
qed

lemma parse_json_document:
  "parse_json fc zero s = Inr v \<longleftrightarrow> document fc zero s v"
  "case parse_json fc zero s of Inl p \<Rightarrow> p \<le> length s | Inr _ \<Rightarrow> True"
proof -
  define r where "r = new_reader s"
  define n where "n = 2 * length s + 2"
  have r: "input r = s" "at r = 0" "ok r" "depth r = 0" "rest r = s" "left r = length s"
    by (simp_all add: r_def new_reader_def rest_def left_def)
  obtain x u where p: "parse fc zero n r = Some (x, u)"
    using parse_enough(1) [of r n fc zero] r(1,2,6) by (auto simp: n_def)
  have f: "forward r u" using parse_advances(1) [OF p] r(1,2) by (simp add: advances_def)
  note k = skip_forward [OF forward_inside [OF f]]
  have eq: "parse_json fc zero s = (if at (skip u) = length s \<and> ok u then Inr x else Inl (at (skip u)))"
    unfolding parse_json_def parse_text_def n_def [symmetric] r_def [symmetric] p
    using forwardD(1) [OF f] forwardD(1) [OF k] r(1) by (simp add: Let_def skip_def move_while_def)
  show "case parse_json fc zero s of Inl p \<Rightarrow> p \<le> length s | Inr _ \<Rightarrow> True"
    using forwardD(4) [OF k] forwardD(1) [OF f] r(1) by (simp add: eq)
  show "parse_json fc zero s = Inr v \<longleftrightarrow> document fc zero s v"
  proof
    assume "parse_json fc zero s = Inr v"
    then have a: "at (skip u) = length s" "ok u" "x = v" by (auto simp: eq split: if_splits)
    from parse_sound(1) [OF p a(2)] obtain w t where
      t: "blank w" "reads r (w @ t) u" "derives fc zero max_depth t v" by (auto simp: r(4) a(3))
    obtain w' where w': "blank w'" "reads u w' (skip u)" using skip_reads by blast
    from reads_trans [OF t(2) w'(2)] have "s = (w @ t @ w') @ rest (skip u)" by (auto simp: reads_def r(5))
    moreover have "rest (skip u) = []" using a(1) forwardD(1) [OF f] forwardD(1) [OF k] r(1) by (simp add: rest_def)
    ultimately show "document fc zero s v" using t(1,3) w'(1) unfolding document_def by auto
  next
    assume "document fc zero s v"
    then obtain w t w' where t: "s = w @ t @ w'" "blank w" "blank w'" "derives fc zero max_depth t v"
      by (auto simp: document_def)
    have e: "ends w'" using blank_ends [OF t(3), of "[]"] by (simp add: ends_def)
    have "parse fc zero n r = Some (v, move (length (w @ t)) r)"
      by (rule grammar_read(1) [OF t(4) _ t(2) e]) (use t(1) r in \<open>simp_all add: n_def\<close>)
    then have u: "x = v" "u = move (length (w @ t)) r" using p by simp_all
    then have "rest u = w'" using rest_moved [of r "w @ t" w'] r(5) t(1) by simp
    then have "skip u = move (length w') u" using skip_run [of u w' "[]"] t(3) by simp
    then have "at (skip u) = length s" "ok u" using t(1) r(2,3) by (simp_all add: u(2))
    with u(1) show "parse_json fc zero s = Inr v" by (simp add: eq)
  qed
qed


text \<open>C9. The JSON reader is the grammar of JSON: on every text it returns within its fuel, and it answers a value
  exactly when the text is, with blanks around it, a JSON text of that value with arrays and objects nested at
  most 1000 deep; the strings have their escapes replaced and surrogate pairs joined, a repeated key keeps its
  first position and takes its last value. Otherwise it answers a position within the text.\<close>

theorem json_reads_grammar:
  "(\<exists>y. parse_text fc zero (2 * length s + 2) (new_reader s) = Some y)
   \<and> (parse_json fc zero s = Inr v \<longleftrightarrow> document fc zero s v)
   \<and> (case parse_json fc zero s of Inl p \<Rightarrow> p \<le> length s | Inr _ \<Rightarrow> True)"
  by (intro conjI parse_json_total parse_json_document)

end
