(* ===== verification/Json_Quote.thy ===== *)
theory Json_Quote
  imports Json_Grammar
begin

text \<open>
  Quoting, then reading: what \<^verbatim>\<open>quote_json\<close> writes for a string of the engine, the WTF-8 form of
  some UTF-16 code units, is a JSON string, and \<^verbatim>\<open>parse_json\<close> reads it back as that string.
\<close>

declare One_nat_def [simp del] list.size(4) [simp del]

section \<open>Hex digits\<close>

lemma hex_value_digit: "n < 16 \<Longrightarrow> hex_value (hex_digit n) = int n"
proof -
  have "list_all (\<lambda>n. hex_value (hex_digit n) = int n) [0..<16]" by code_simp
  then show "n < 16 \<Longrightarrow> hex_value (hex_digit n) = int n" by (simp add: list_all_iff)
qed

definition digits4 :: "nat \<Rightarrow> string" where
  "digits4 u = map hex_digit [u div 4096 mod 16, u div 256 mod 16, u div 16 mod 16, u mod 16]"

lemma digits4_code: "u < 0x10000 \<Longrightarrow> hex4 (digits4 u) \<and> hex_code (digits4 u) = u"
proof -
  assume "u < 0x10000"
  then have "((u div 4096 * 16 + u div 256 mod 16) * 16 + u div 16 mod 16) * 16 + u mod 16 = u"
    by (simp add: div_mult2_eq [of u 16 16, simplified] div_mult2_eq [of u 256 16, simplified])
  moreover from \<open>u < 0x10000\<close> have "u div 4096 < 16" by simp
  ultimately show ?thesis by (simp add: hex4_def digits4_def hex_code_def hex_value_digit)
qed

section \<open>One byte\<close>

definition byte_piece :: "char \<Rightarrow> json_piece" where
  "byte_piece c = (if byte c < 0x20 \<and> byte c \<notin> {8, 9, 10, 12, 13} then Unit (byte c) else Byte c)"

lemma quoted_escapes:
  "byte c \<in> {8, 9, 10, 12, 13} \<or> c = CHR 0x22 \<or> c = CHR 0x5C \<Longrightarrow> \<exists>e. quoted_char c = [CHR 0x5C, e] \<and> map_of short_escapes e = Some c"
  by (auto simp: quoted_char_def short_escapes_def chr_eq_iff eq_chr_iff)

lemma byte_piece_text: "piece_text (byte_piece c) (quoted_char c)"
proof -
  consider (short) "byte c \<in> {8, 9, 10, 12, 13} \<or> c = CHR 0x22 \<or> c = CHR 0x5C"
    | (control) "byte c < 0x20" "byte c \<notin> {8, 9, 10, 12, 13}"
    | (plain) "\<not> byte c < 0x20" "c \<noteq> CHR 0x22" "c \<noteq> CHR 0x5C" by blast
  then show ?thesis
  proof cases
    case short
    from quoted_escapes [OF this] obtain e where "quoted_char c = [CHR 0x5C, e]" "map_of short_escapes e = Some c" by blast
    moreover have "byte_piece c = Byte c" using short by (auto simp: byte_piece_def)
    ultimately show ?thesis using short_piece by simp
  next
    case control
    then have "c \<noteq> CHR 0x22" "c \<noteq> CHR 0x5C" by auto
    then have "quoted_char c = CHR 0x5C # CHR ''u'' # digits4 (byte c)"
      using control by (auto simp: quoted_char_def digits4_def shifts and_low hex_digit_def eq_chr_iff)
    then show ?thesis
      using control unit_piece [of "digits4 (byte c)"] digits4_code [of "byte c"] by (simp add: byte_piece_def)
  next
    case plain
    then show ?thesis using plain_piece by (auto simp: quoted_char_def byte_piece_def eq_chr_iff)
  qed
qed

lemma meaning_byte_piece: "meaning (byte_piece c # ps) = c # meaning ps"
proof (cases "byte c < 0x20 \<and> byte c \<notin> {8, 9, 10, 12, 13}")
  case True
  then have "meaning (Unit (byte c) # ps) = utf8 (byte c) @ meaning ps"
    by (intro meaning_single) (simp add: high_surrogate_def)
  with True show ?thesis by (simp add: byte_piece_def utf8_def)
qed (auto simp: byte_piece_def)

lemma byte_pieces:
  "list_all2 piece_text (map byte_piece cs) (map quoted_char cs)" "meaning (map byte_piece cs @ ps) = cs @ meaning ps"
  by (simp add: list_all2_conv_all_nth byte_piece_text) (induction cs; simp add: meaning_byte_piece)

lemma byte_piece_not_low: "byte_piece c = Unit v \<Longrightarrow> \<not> low_surrogate v"
  by (auto simp: byte_piece_def low_surrogate_def split: if_splits)

section \<open>One code point\<close>

lemma quote_loop_plain:
  "byte c \<noteq> 0xED \<or> (\<exists>d ds. cs = d # ds \<and> byte d < 0xA0) \<Longrightarrow> quote_loop (c # cs) = quoted_char c @ quote_loop cs"
  by (cases "(c # cs)" rule: quote_loop.cases) auto

lemma mod_64: "832 \<le> m \<Longrightarrow> m \<le> 863 \<Longrightarrow> m mod 64 < 32" "864 \<le> m \<Longrightarrow> m \<le> 895 \<Longrightarrow> 32 \<le> m mod 64" for m :: nat
proof -
  have eq: "m mod 64 = (m - 832) mod 64" if "832 \<le> m"
    using that mod_add_self2 [of "m - 832" 64] mod_mult_self1 [of "m - 832" 13 64] by simp
  show "832 \<le> m \<Longrightarrow> m \<le> 863 \<Longrightarrow> m mod 64 < 32" "864 \<le> m \<Longrightarrow> m \<le> 895 \<Longrightarrow> 32 \<le> m mod 64"
    using eq by simp_all
qed

lemma quote_loop_utf8:
  assumes "v < 0x200000" "\<not> (0xD800 \<le> v \<and> v \<le> 0xDFFF)"
  shows "quote_loop (utf8 v @ cs) = concat (map quoted_char (utf8 v)) @ quote_loop cs"
  using assms(1)
proof (cases rule: utf8_cases)
  case (one c)
  then show ?thesis by (simp add: quote_loop_plain)
next
  case (two c x)
  from two(5) have "v div 64 < 32" by simp
  then have "byte c \<noteq> 0xED" "byte x \<noteq> 0xED" using two by simp_all
  with two(1) show ?thesis by (simp add: quote_loop_plain)
next
  case (three c x y)
  have "byte c \<noteq> 0xED \<or> byte x < 0xA0"
  proof (rule ccontr)
    assume "\<not> ?thesis"
    then have "v div 4096 = 13" "32 \<le> v div 64 mod 64" using three by simp_all
    moreover from this(1) have "v \<le> 0xDFFF" by simp
    with assms(2) have "v div 64 \<le> 863" by simp
    moreover from \<open>v div 4096 = 13\<close> have "832 \<le> v div 64" by simp
    ultimately show False using mod_64(1) [of "v div 64"] by simp
  qed
  moreover have "byte x \<noteq> 0xED" "byte y \<noteq> 0xED" using three by (simp_all add: three)
  ultimately have "quote_loop (c # x # y # cs) = quoted_char c @ quote_loop (x # y # cs)"
    "quote_loop (x # y # cs) = quoted_char x @ quote_loop (y # cs)" "quote_loop (y # cs) = quoted_char y @ quote_loop cs"
    by (intro quote_loop_plain; blast)+
  with three(1) show ?thesis by simp
next
  case (four c x y z)
  have "byte c \<noteq> 0xED" "byte x \<noteq> 0xED" "byte y \<noteq> 0xED" "byte z \<noteq> 0xED" using four by simp_all
  with four(1) show ?thesis by (simp add: quote_loop_plain)
qed

lemma quote_loop_surrogate:
  assumes "0xD800 \<le> u" "u \<le> 0xDFFF"
  shows "quote_loop (utf8 u @ cs) = (CHR 0x5C # CHR ''u'' # digits4 u) @ quote_loop cs"
proof -
  obtain x y where u: "utf8 u = [chr 0xED, x, y]" "byte x = 128 + u div 64 mod 64" "byte y = 128 + u mod 64"
    using surrogate_bytes [OF assms] by blast
  have "864 \<le> u div 64" "u div 64 \<le> 895" using assms by simp_all
  then have "32 \<le> u div 64 mod 64" by (rule mod_64(2))
  then have "0xA0 \<le> byte x" using u(2) by simp
  moreover have "push_bit 12 (byte (chr 0xED) AND 0x0F) OR push_bit 6 (byte x AND 0x3F) OR (byte y AND 0x3F) = u"
  proof -
    have "push_bit 12 (byte (chr 0xED) AND 0x0F) = (0xD000 :: nat)" by (simp add: and_low shifts)
    then show ?thesis unfolding u(2,3) by (simp only: surrogate_or [OF assms])
  qed
  ultimately show ?thesis by (simp add: u(1) Let_def digits4_def shifts and_low)
qed

section \<open>A string\<close>

definition surrogate :: "nat \<Rightarrow> bool" where
  "surrogate v \<longleftrightarrow> 0xD800 \<le> v \<and> v \<le> 0xDFFF"

definition cp_pieces :: "nat \<Rightarrow> json_piece list" where
  "cp_pieces v = (if surrogate v then [Unit v] else map byte_piece (utf8 v))"

definition cp_texts :: "nat \<Rightarrow> string list" where
  "cp_texts v = (if surrogate v then [CHR 0x5C # CHR ''u'' # digits4 v] else map quoted_char (utf8 v))"

lemma cp_pieces_text: "list_all2 piece_text (cp_pieces v) (cp_texts v)"
proof (cases "surrogate v")
  case True
  then have "v < 0x10000" by (simp add: surrogate_def)
  then show ?thesis
    using True digits4_code unit_piece [of "digits4 v"] by (simp add: cp_pieces_def cp_texts_def)
qed (simp add: cp_pieces_def cp_texts_def byte_pieces)

lemma cp_texts_quote: "v < 0x200000 \<Longrightarrow> concat (cp_texts v) @ quote_loop cs = quote_loop (utf8 v @ cs)"
  using quote_loop_surrogate [of v cs] quote_loop_utf8 [of v cs] by (simp add: cp_texts_def surrogate_def)

lemma cp_pieces_meaning:
  "\<not> (high_surrogate v \<and> (\<exists>x qs. ps = Unit x # qs \<and> low_surrogate x)) \<Longrightarrow> meaning (cp_pieces v @ ps) = utf8 v @ meaning ps"
  using meaning_single [of v ps] by (simp add: cp_pieces_def byte_pieces)

lemma cp_pieces_low:
  assumes "cp_pieces v @ ps = Unit x # qs" "low_surrogate x"
  shows "low_surrogate v"
proof (cases "surrogate v")
  case False
  obtain c cs where "utf8 v = c # cs" by (cases "utf8 v") (auto simp: utf8_def split: if_splits)
  with False assms byte_piece_not_low [of c x] show ?thesis by (simp add: cp_pieces_def)
qed (use assms in \<open>simp add: cp_pieces_def\<close>)

text \<open>A string that is quoted as pieces that mean it, which start with a low surrogate only if \<open>b\<close>.\<close>

definition quotes :: "string \<Rightarrow> bool \<Rightarrow> bool" where
  "quotes s b \<longleftrightarrow> (\<exists>ps ts. list_all2 piece_text ps ts \<and> concat ts = quote_loop s \<and> meaning ps = s
     \<and> ((\<exists>v qs. ps = Unit v # qs \<and> low_surrogate v) \<longrightarrow> b))"

lemma quotes_step:
  assumes "quotes s b" "v < 0x200000" "\<not> (high_surrogate v \<and> b)"
  shows "quotes (utf8 v @ s) (low_surrogate v)"
proof -
  obtain ps ts where ps: "list_all2 piece_text ps ts" "concat ts = quote_loop s" "meaning ps = s"
    "(\<exists>v qs. ps = Unit v # qs \<and> low_surrogate v) \<longrightarrow> b"
    using assms(1) unfolding quotes_def by blast
  have "list_all2 piece_text (cp_pieces v @ ps) (cp_texts v @ ts)" by (rule list_all2_appendI [OF cp_pieces_text ps(1)])
  moreover have "concat (cp_texts v @ ts) = quote_loop (utf8 v @ s)" using cp_texts_quote [OF assms(2)] ps(2) by simp
  moreover have "meaning (cp_pieces v @ ps) = utf8 v @ s" using cp_pieces_meaning [of v ps] ps(3,4) assms(3) by blast
  ultimately show ?thesis unfolding quotes_def using cp_pieces_low by blast
qed

lemma units_quoted:
  "\<forall>u \<in> set us. u < 0x10000 \<Longrightarrow> quotes (utf16_to_wtf8 us) (us \<noteq> [] \<and> low_surrogate (hd us))"
proof (induction us rule: utf16_to_wtf8.induct)
  case 1
  show ?case unfolding quotes_def by (intro exI [of _ "[]"]) simp
next
  case (2 u)
  have "quotes [] False" unfolding quotes_def by (intro exI [of _ "[]"]) simp
  from quotes_step [OF this, of u] 2 show ?case by simp
next
  case (3 u v us)
  show ?case
  proof (cases "u \<ge> 0xD800 \<and> u \<le> 0xDBFF \<and> v \<ge> 0xDC00 \<and> v \<le> 0xDFFF")
    case True
    define w where "w = join_pair u v"
    have w: "0x10000 \<le> w" "w < 0x110000" using True 
    proof -
      from True have "(u - 0xD800) * 1024 \<le> 1023 * 1024" by (intro mult_le_mono1) (simp add: le_diff_conv)
      with True show "0x10000 \<le> w" "w < 0x110000" by (simp_all add: w_def join_pair_def shifts)
    qed
    from w(1) have "\<not> high_surrogate w" "\<not> low_surrogate w" by (simp_all add: high_surrogate_def low_surrogate_def)
    with quotes_step [OF 3(1) [OF True], of w] 3(3) w(2) have "quotes (utf8 w @ utf16_to_wtf8 us) False" by simp
    moreover have "quotes s False \<Longrightarrow> quotes s b" for s b unfolding quotes_def by blast
    ultimately show ?thesis using True by (simp add: w_def)
  next
    case False
    then have "\<not> (high_surrogate u \<and> (v # us \<noteq> [] \<and> low_surrogate (hd (v # us))))"
      by (simp add: high_surrogate_def low_surrogate_def)
    from quotes_step [OF 3(2) [OF False] _ this] 3(3)
    have "quotes (utf8 u @ utf16_to_wtf8 (v # us)) (low_surrogate u)" by simp
    moreover have "utf16_to_wtf8 (u # v # us) = utf8 u @ utf16_to_wtf8 (v # us)" using False by (simp only: utf16_to_wtf8.simps if_False)
    ultimately show ?thesis by (simp only: list.sel) simp
  qed
qed

text \<open>C17. Every string a script can hold, the WTF-8 form of some UTF-16 code units, survives the round through
  JSON: what \<^verbatim>\<open>quote_json\<close> appends for it reads back as exactly that string, lone surrogates, control
  characters and quotes included.\<close>

theorem json_quote_round:
  assumes "\<forall>u \<in> set us. u < 0x10000"
  shows "parse_json fc zero (quote_json (utf16_to_wtf8 us) []) = Inr (String (utf16_to_wtf8 us))"
proof -
  obtain ps ts where "list_all2 piece_text ps ts" "concat ts = quote_loop (utf16_to_wtf8 us)" "meaning ps = utf16_to_wtf8 us"
    using units_quoted [OF assms] unfolding quotes_def by blast
  then have "string_text (quote_json (utf16_to_wtf8 us) []) (utf16_to_wtf8 us)"
    unfolding string_text_def quote_json_def by (intro exI [of _ ps] exI [of _ ts]) simp
  from derives_string [OF this] have "document fc zero (quote_json (utf16_to_wtf8 us) []) (String (utf16_to_wtf8 us))"
    unfolding document_def by (intro exI [of _ "[]"] exI [of _ "quote_json (utf16_to_wtf8 us) []"]) (simp add: blank_def)
  then show ?thesis by (simp add: parse_json_document)
qed

theorem json_quote_round_witness:
  "parse_json Some [] (quote_json (utf16_to_wtf8 [0xD800, 0x22, 0xD83D, 0xDE00, 10, 1]) [])
     = Inr (String (utf16_to_wtf8 [0xD800, 0x22, 0xD83D, 0xDE00, 10, 1]))"
  using json_quote_round [of "[0xD800, 0x22, 0xD83D, 0xDE00, 10, 1]"] by simp

end
