(* ===== verification/Spec2Isabelle.thy ===== *)
theory Spec2Isabelle
  imports Prelude Ascii Utf8 Utf16 Utf16_Walk Slab Atoms Base64 Calendar Url_Encoding Uri Url_Ip Net_Policy
    Punycode Unicode_Tables Url_Host Url_Parser Url_Invariant Url Css_Token Css_Escape Dom_Pi Dom Dom_Write Dom_Tree Dom_Reach Dom_Element Html_Token Html_Resume Html_Live Html_Write Html_Round Json Json_Grammar Json_Quote
begin

text \<open>
  A verification library for the core of \<^verbatim>\<open>ctbrowser\<close>, a browser engine in C++. Paths below are
  under \<^verbatim>\<open>src/ctbrowser\<close>, which is left out.

  The program. \<^verbatim>\<open>core\<close> has the storage and the text routines everything else stands on: slabs of
  objects named by handles, interned strings, UTF-8 and UTF-16, Base64, URI decoding, dates, JSON. \<^verbatim>\<open>shell/net\<close>
  parses URLs and decides which requests may be made. \<^verbatim>\<open>style/css\<close> turns style sheets into tokens and names
  back into text. \<^verbatim>\<open>dom\<close> keeps the document as nodes in a slab with names in the atom table, and reads HTML by
  a tokenizer that a tree builder drives; the bindings write the document back as text. The development
  follows the same layers, and every theory opens with the files it translates.

  The layers and how they correspond to the code.

  \<^item> \<open>Prelude\<close>: bytes as \<open>char\<close>, code points and code units as \<open>nat\<close>, the operations of \<^verbatim>\<open>std::string_view\<close> the
    sources call, \<open>outcome\<close> (\<open>Value\<close>, \<open>Failure\<close> for an error the code answers, \<open>Fault\<close> for what C++ leaves undefined
    or for fuel that ran out), and the collections \<open>bits\<close> and \<open>sv\<close>.
  \<^item> Core text: \<open>Ascii\<close> and \<open>Base64\<close> (\<^verbatim>\<open>lib/Core/algorithms.cpp\<close>), \<open>Utf8\<close>, \<open>Utf16\<close> and \<open>Utf16_Walk\<close> (\<^verbatim>\<open>core/algorithms.hpp\<close>,
    \<^verbatim>\<open>script/utf16.hpp\<close>), \<open>Uri\<close> (\<^verbatim>\<open>lib/Core/uri.cpp\<close>), \<open>Calendar\<close> (\<^verbatim>\<open>core/algorithms.hpp\<close>), \<open>Json\<close>, \<open>Json_Grammar\<close> and
    \<open>Json_Quote\<close> (\<^verbatim>\<open>lib/Core/json.cpp\<close>). Lemmas: round trips of every encoder with its decoder, the UTF-16 view
    of stored text against the list of its units, the calendar itself, and an inductive JSON grammar that the reader
    accepts exactly.
  \<^item> Core storage: \<open>Slab\<close> (\<^verbatim>\<open>core/slab.hpp\<close>, \<^verbatim>\<open>core/handle.hpp\<close>; the record \<open>slab\<close> has the vector of slots, the head of
    the free list and the live count; generations and slots are 32-bit words) and \<open>Atoms\<close> (\<^verbatim>\<open>lib/Core/atom.cpp\<close>; the
    record \<open>atom_table\<close>, and \<open>intern_step\<close> for threads that interleave the two critical sections of \<^verbatim>\<open>intern\<close>).
    The locales \<open>handle_store\<close> and \<open>interner\<close> are what the document relies on; both are interpreted on these definitions.
  \<^item> URLs: \<open>Url_Encoding\<close> (\<^verbatim>\<open>lib/Shell/net/url_encoding.cpp\<close>), \<open>Url_Ip\<close>, \<open>Punycode\<close>, \<open>Unicode_Tables\<close> and \<open>Url_Host\<close>
    (\<^verbatim>\<open>url_unicode.cpp\<close>: addresses, labels, normalization by the locale \<open>ordered_rows\<close> of sorted tables, the host
    parser), \<open>Url_Parser\<close> (\<^verbatim>\<open>url_parser.cpp\<close>: \<open>parser\<close> is the machine's record, \<open>parser_step\<close> one turn of its loop over 21
    states), \<open>Url_Invariant\<close> (what holds of every record it makes, one lemma per state), \<open>Url\<close> (\<^verbatim>\<open>url.cpp\<close>: accessors,
    serialiser, origin, setters, forms, fetch view, data URLs) and \<open>Net_Policy\<close> (\<^verbatim>\<open>policy.cpp\<close>), which reads addresses on its
    own and is shown to agree with the host parser.
  \<^item> CSS: \<open>Css_Token\<close> (\<^verbatim>\<open>lib/Style/css/token.cpp\<close>: the tokenizer over a source followed by a pool of rewritten texts)
    and \<open>Css_Escape\<close> (\<^verbatim>\<open>serialize_identifier\<close>, \<^verbatim>\<open>string_text\<close>), by the locale \<open>escape_loop\<close> of the two reading loops.
  \<^item> The document: \<open>Dom\<close> and \<open>Dom_Write\<close> (\<^verbatim>\<open>lib/DOM/document.cpp\<close>: the record \<open>document\<close>, its reads and creations, its
    writes), \<open>Dom_Pi\<close> (attributes of processing instructions), \<open>Dom_Element\<close> (\<^verbatim>\<open>lib/DOM/element.cpp\<close>, \<^verbatim>\<open>token_list.cpp\<close>,
    \<^verbatim>\<open>dataset.cpp\<close>), \<open>Dom_Tree\<close> (\<open>tree_ok\<close>, what every operation does to it, in terms of \<open>relocate\<close> and \<open>moved\<close>) and
    \<open>Dom_Reach\<close> (\<open>dom_step\<close>, reachable documents, the contracts of the tree writes, the write log).
  \<^item> HTML: \<open>Html_Token\<close> (\<^verbatim>\<open>lib/DOM/tokenizer.cpp\<close>, \<^verbatim>\<open>tokenizer/references.cpp\<close>: the record \<open>tokenizer\<close>, \<open>next_tok\<close> for
    \<^verbatim>\<open>next()\<close>), \<open>Html_Resume\<close> (a stream that arrives in pieces), \<open>Html_Live\<close> (progress and termination), \<open>Html_Write\<close>
    (\<^verbatim>\<open>lib/Shell/bindings/document/tree_ops.cpp\<close>: the fragment serialiser) and \<open>Html_Round\<close> (the serialiser read back). The
    locale \<open>text_loop\<close> states the four text loops at once, with \<open>live_loop\<close> and \<open>resumable_loop\<close> above it.

  How they interact. \<open>Url_Host\<close> calls the address parsers, Punycode and the tables; the URL machine calls the host
  parser and the percent-encoder; the setters restart the machine in a state of its own; \<open>Net_Policy\<close> stands beside them
  on the same texts. The document stores its nodes through \<open>slab_lookup\<close> and \<open>slab_ins\<close> and names through \<open>intern\<close>;
  \<open>Dom_Element\<close> goes through the document's writes; the HTML serialiser reads the document and the tokenizer reads its
  text. The tree builder, which is not modelled, is a function from the token just read to what it tells the tokenizer
  (content model, CDATA), and the claims hold for every such function.

  Bounds and fuel. Loops are structural, or have a measure, wherever that is possible. A walk along parent handles may
  not end in a document that is no tree: it is a \<open>partial_function\<close>, and is shown to end in every tree. The URL
  machine ends because each of its 21 states goes on in the input or to a state of lower rank, and a copy of its loop
  that counts the turns (\<open>run_for\<close>) has the answer after \<open>21 * (n + 2)\<close> of them for \<open>n\<close> bytes; the Punycode encoder has one round per code point; the serialiser of HTML and the JSON
  reader (\<open>2 * n + 2\<close> calls) have fuel that is shown to suffice; \<open>root_of_tree\<close> stops at 4096 steps and the depth of the
  document at 512 levels because the code does. Machine integers are words or are written with their wrap-around:
  generations and slots (32 bits), versions (64), write-log indices (32), token positions of CSS (32), atoms (32, so the
  claims are of tables of at most \<open>2 ^ 32\<close> texts), the counters of Punycode (32, with every overflow test, which suffice for
  labels up to 1648 code points), the fields of dates (64 and 32; signed overflow is \<open>None\<close>).

  Parameters. What is generated or lies outside \<^verbatim>\<open>src\<close> is an argument: the Unicode tables (\<open>unicode_data\<close>, with the order of
  their rows and the code points they may name as hypotheses), the rows of named character references, the strict Base64 decoder
  of simdutf (it agrees with RFC 4648 where it answers), \<^verbatim>\<open>std::from_chars\<close> for doubles (the type of numbers is a parameter), and the
  \<^verbatim>\<open>other_registry\<close> test of the bindings. Each hypothesis has an instance in a witness.

  What the claims show, by kind: the invariants of reachable documents, URL records, slabs and token streams (a step or an
  operation never leaves them); exact answers of the operations, errors included (insertion, token lists, addresses, requests);
  round trips (URL and CSS text, HTML, JSON, forms, data URLs, percent-encoding, UTF-16, Base64, Punycode, dates, attributes);
  refinement of abstract models (a slab is a finite map, a token list an ordered set, the write log replays the child lists);
  equivalence of optimised code with a plain definition (the eight-byte UTF-16 scan, the stack that computes a height, reading a
  stream in pieces); termination and linear bounds.

  Not modelled: the tree builder, XML, legacy encodings; the cascade, selectors and property grammars of CSS; layout,
  painting and raster (floating-point geometry); the script compiler, machine, collector and standard library; bindings, page and
  network transport (glue and I/O); the scheduler and allocator (host threads, raw memory); the ahead-of-time compiler (it
  rewrites MLIR, a library outside the repository). Of the files modelled, raw storage and object lifetimes in a slab are values,
  and the locks of the atom table are the atomicity of its critical sections.
\<close>

end
